(* ===== verification/Moka_Prelude.thy ===== *)
theory Moka_Prelude
  imports Main "HOL-Library.Word" "HOL-Library.Monad_Syntax"
begin

text \<open>
  Shared vocabulary of the development.

  Rust's machine integers are words of their width. The arithmetic operators \<open>+\<close>, \<open>-\<close> and
  \<open>*\<close> wrap around, which is what they do in a release build (Cargo's default profile has
  overflow checks only in debug builds); \<open>debug_assert!\<close> is compiled out there too. The
  saturating operators of the standard library are \<open>sat_add\<close>, \<open>sat_sub\<close> and \<open>sat_mul\<close> below.

  A computation that may panic, or that would dereference a freed node, has a result of type
  \<open>'a option\<close> in which \<open>None\<close> is the panic; the do-notation of the option monad sequences
  such computations. A Rust \<open>Option\<close> is an \<open>option\<close> as well, so an operation that returns an
  \<open>Option\<close> and may panic has the type \<open>'a option option\<close>.
\<close>

unbundle bit_operations_syntax

named_theorems moka_defs \<open>definitions of the small accessors, unfolded together\<close>
named_theorems nopanic \<open>rules that show that a step returns\<close>

type_synonym u8 = "8 word"
type_synonym u16 = "16 word"
type_synonym u32 = "32 word"
type_synonym u64 = "64 word"

type_synonym 'a or_panic = "'a option"

section \<open>Saturating arithmetic\<close>

definition sat_add :: "'a::len word \<Rightarrow> 'a word \<Rightarrow> 'a word" where
  "sat_add x y = (if unat x + unat y < 2 ^ LENGTH('a) then x + y else - 1)"

definition sat_sub :: "'a::len word \<Rightarrow> 'a word \<Rightarrow> 'a word" where
  "sat_sub x y = (if y \<le> x then x - y else 0)"

definition sat_mul :: "'a::len word \<Rightarrow> 'a word \<Rightarrow> 'a word" where
  "sat_mul x y = (if unat x * unat y < 2 ^ LENGTH('a) then x * y else - 1)"

lemma unat_minus_one_word: "unat (- 1 :: 'a::len word) = 2 ^ LENGTH('a) - 1"
  by (simp add: unsigned_minus_1_eq_mask mask_eq_exp_minus_1)

lemma unat_lt_pow: "unat (x :: 'a::len word) < 2 ^ LENGTH('a)"
  by (rule unsigned_less)

lemma unat_of_nat_small:
  "n < 2 ^ LENGTH('a) \<Longrightarrow> unat (word_of_nat n :: 'a::len word) = n"
  by (simp add: unsigned_of_nat take_bit_nat_eq_self)

lemma unat_sat_add: "unat (sat_add x (y :: 'a::len word)) = min (unat x + unat y) (2 ^ LENGTH('a) - 1)"
proof (cases "unat x + unat y < 2 ^ LENGTH('a)")
  case True
  then show ?thesis
    by (simp add: sat_add_def unat_word_ariths)
next
  case False
  then show ?thesis
    by (simp add: sat_add_def unat_minus_one_word)
qed

lemma unat_sat_sub: "unat (sat_sub x (y :: 'a::len word)) = unat x - unat y"
  by (auto simp: sat_sub_def unat_sub word_le_nat_alt)

lemma unat_sat_mul: "unat (sat_mul x (y :: 'a::len word)) = min (unat x * unat y) (2 ^ LENGTH('a) - 1)"
proof (cases "unat x * unat y < 2 ^ LENGTH('a)")
  case True
  then show ?thesis
    by (simp add: sat_mul_def unat_word_ariths)
next
  case False
  then show ?thesis
    by (simp add: sat_mul_def unat_minus_one_word)
qed

lemma sat_sub_0_iff: "sat_sub x y = 0 \<longleftrightarrow> x \<le> (y :: 'a::len word)"
  by (metis unat_sat_sub diff_is_0_eq unat_eq_zero word_le_nat_alt)

section \<open>Loops whose body may panic\<close>

fun mfold :: "('a \<Rightarrow> 's \<Rightarrow> 's or_panic) \<Rightarrow> 'a list \<Rightarrow> 's \<Rightarrow> 's or_panic" where
  "mfold f [] s = Some s"
| "mfold f (x # xs) s = do { s' \<leftarrow> f x s; mfold f xs s' }"

lemma mfold_append: "mfold f (xs @ ys) s = do { s' \<leftarrow> mfold f xs s; mfold f ys s' }"
  by (induction xs arbitrary: s) (auto simp: Option.bind_eq_Some_conv split: Option.bind_splits)

lemma mfold_total:
  assumes "\<And>x s. x \<in> set xs \<Longrightarrow> I s \<Longrightarrow> \<exists>s'. f x s = Some s' \<and> I s'"
    and "I s"
  shows "\<exists>s'. mfold f xs s = Some s' \<and> I s'"
  using assms
proof (induction xs arbitrary: s)
  case Nil
  then show ?case by simp
next
  case (Cons x xs)
  obtain s1 where s1: "f x s = Some s1" "I s1"
    using Cons.prems(1)[of x s] Cons.prems(2) by auto
  have "\<exists>s'. mfold f xs s1 = Some s' \<and> I s'"
    by (rule Cons.IH) (use Cons.prems(1) s1(2) in auto)
  with s1 show ?case by simp
qed

lemma mfold_invariant:
  assumes "mfold f xs s = Some s'" and "I s"
    and "\<And>x s s'. x \<in> set xs \<Longrightarrow> I s \<Longrightarrow> f x s = Some s' \<Longrightarrow> I s'"
  shows "I s'"
  using assms
proof (induction xs arbitrary: s)
  case Nil
  then show ?case by simp
next
  case (Cons x xs)
  then obtain s1 where "f x s = Some s1" "mfold f xs s1 = Some s'"
    by (auto simp: Option.bind_eq_Some_conv)
  with Cons show ?case by (meson list.set_intros)
qed

section \<open>Computations that return\<close>

text \<open>\<open>yields P r\<close>: the computation \<open>r\<close> returns, and its result satisfies \<open>P\<close>. The rules follow the
  structure of a do-block, so that a proof about one is a proof about each of its calls.\<close>

definition yields :: "('a \<Rightarrow> bool) \<Rightarrow> 'a or_panic \<Rightarrow> bool" where
  "yields P r \<longleftrightarrow> (\<exists>x. r = Some x \<and> P x)"

lemma yields_simps [simp]: "yields P (Some x) = P x" "\<not> yields P None"
  by (simp_all add: yields_def)

lemma yields_bind [simp]: "yields P (r \<bind> f) = yields (\<lambda>x. yields P (f x)) r"
  by (cases r) (simp_all add: yields_def)

lemma yields_mono: "yields Q r \<Longrightarrow> (\<And>x. Q x \<Longrightarrow> P x) \<Longrightarrow> yields P r"
  by (auto simp: yields_def)

lemma yields_conj: "yields P r \<Longrightarrow> yields Q r \<Longrightarrow> yields (\<lambda>x. P x \<and> Q x) r"
  by (auto simp: yields_def)

lemma yieldsE: "yields P r \<Longrightarrow> (\<And>x. r = Some x \<Longrightarrow> P x \<Longrightarrow> thesis) \<Longrightarrow> thesis"
  by (auto simp: yields_def)

lemma yields_if: "(b \<Longrightarrow> yields P r) \<Longrightarrow> (\<not> b \<Longrightarrow> yields P r') \<Longrightarrow> yields P (if b then r else r')"
  by simp

lemma yields_mfold:
  assumes "\<And>x s. x \<in> set xs \<Longrightarrow> I s \<Longrightarrow> yields I (f x s)" "I s"
  shows "yields I (mfold f xs s)"
  using mfold_total[of xs I f s] assms by (auto simp: yields_def)

section \<open>Lists updated by index\<close>

definition idx :: "'a list \<Rightarrow> nat \<Rightarrow> 'a or_panic" where
  "idx xs i = (if i < length xs then Some (xs ! i) else None)"

definition idx_set :: "'a list \<Rightarrow> nat \<Rightarrow> 'a \<Rightarrow> 'a list or_panic" where
  "idx_set xs i v = (if i < length xs then Some (xs[i := v]) else None)"

lemma idx_Some [simp]: "i < length xs \<Longrightarrow> idx xs i = Some (xs ! i)"
  by (simp add: idx_def)

lemma idx_set_Some [simp]: "i < length xs \<Longrightarrow> idx_set xs i v = Some (xs[i := v])"
  by (simp add: idx_set_def)

lemma idx_eq_Some_iff: "idx xs i = Some v \<longleftrightarrow> i < length xs \<and> v = xs ! i"
  by (auto simp: idx_def)

lemma idx_set_eq_Some_iff: "idx_set xs i v = Some ys \<longleftrightarrow> i < length xs \<and> ys = xs[i := v]"
  by (auto simp: idx_set_def)

section \<open>Rust's \<open>next_power_of_two\<close>\<close>

text \<open>The smallest power of two that is not below \<open>n\<close>, as the standard library documents it.\<close>

fun next_power_of_two :: "nat \<Rightarrow> nat" where
  "next_power_of_two n = (if n \<le> 1 then 1 else 2 * next_power_of_two ((n + 1) div 2))"

declare next_power_of_two.simps [simp del]

lemma next_power_of_two_ge: "n \<le> next_power_of_two n"
proof (induction n rule: next_power_of_two.induct)
  case (1 n)
  show ?case
  proof (cases "n \<le> 1")
    case False
    then have "(n + 1) div 2 \<le> next_power_of_two ((n + 1) div 2)" using 1 by simp
    with False show ?thesis by (simp add: next_power_of_two.simps[of n])
  qed (simp add: next_power_of_two.simps)
qed

lemma next_power_of_two_pow: "\<exists>k. next_power_of_two n = 2 ^ k"
proof (induction n rule: next_power_of_two.induct)
  case (1 n)
  show ?case
  proof (cases "n \<le> 1")
    case True
    then show ?thesis by (auto simp: next_power_of_two.simps intro: exI[of _ 0])
  next
    case False
    then obtain k where "next_power_of_two ((n + 1) div 2) = 2 ^ k" using 1 by auto
    with False show ?thesis
      by (auto simp: next_power_of_two.simps[of n] intro: exI[of _ "Suc k"])
  qed
qed

lemma next_power_of_two_least: "n \<le> 2 ^ k \<Longrightarrow> next_power_of_two n \<le> 2 ^ k"
proof (induction n arbitrary: k rule: next_power_of_two.induct)
  case (1 n)
  show ?case
  proof (cases "n \<le> 1")
    case False
    then obtain j where k: "k = Suc j" using 1(2) by (cases k) auto
    with 1(2) have "(n + 1) div 2 \<le> 2 ^ j" by simp
    with 1(1) False k show ?thesis by (simp add: next_power_of_two.simps[of n])
  qed (simp add: next_power_of_two.simps)
qed

lemma next_power_of_two_pos: "0 < next_power_of_two n"
  using next_power_of_two_pow[of n] by auto

lemma next_power_of_two_eq:
  assumes "n \<le> 2 ^ k" "2 ^ k < 2 * n"
  shows "next_power_of_two n = 2 ^ k"
proof -
  obtain j where j: "next_power_of_two n = 2 ^ j" using next_power_of_two_pow by blast
  have le: "(2::nat) ^ j \<le> 2 ^ k" using next_power_of_two_least[OF assms(1)] j by simp
  then have "j \<le> k" by simp
  moreover have "\<not> j < k"
  proof
    assume "j < k"
    then have "(2::nat) ^ Suc j \<le> 2 ^ k" by (intro power_increasing) auto
    moreover have "n \<le> 2 ^ j" using next_power_of_two_ge[of n] j by simp
    ultimately show False using assms(2) by simp
  qed
  ultimately show ?thesis using j by simp
qed

end
