(* ===== verification/Moka_Time.thy ===== *)
theory Moka_Time
  imports Moka_Prelude
begin

text \<open>
  Time (\<open>src/src/common/time/instant.rs\<close>, \<open>atomic_time.rs\<close>): an \<open>Instant\<close> is the number of
  nanoseconds since the clock was created, in 64 bits; \<open>u64::MAX\<close> is kept free to mean
  "unset" in an \<open>AtomicInstant\<close>. A \<open>std::time::Duration\<close> is modelled by its length in
  nanoseconds, an unbounded natural number (\<open>Duration::as_nanos\<close> is a \<open>u128\<close>).
\<close>

type_synonym duration = nat

definition MAX_NANOS :: u64 where
  "MAX_NANOS = - 1 - 1"

datatype instant = Instant (elapsed_ns: u64)

instantiation instant :: linorder
begin
definition less_eq_instant :: "instant \<Rightarrow> instant \<Rightarrow> bool" where
  "less_eq_instant a b \<longleftrightarrow> elapsed_ns a \<le> elapsed_ns b"
definition less_instant :: "instant \<Rightarrow> instant \<Rightarrow> bool" where
  "less_instant a b \<longleftrightarrow> elapsed_ns a < elapsed_ns b"
instance
  by standard (auto simp: less_eq_instant_def less_instant_def instant.expand)
end

definition from_nanos :: "u64 \<Rightarrow> instant" where
  "from_nanos nanos = Instant nanos"

definition as_nanos :: "instant \<Rightarrow> u64" where
  "as_nanos i = elapsed_ns i"

definition duration_to_saturating_nanoseconds :: "duration \<Rightarrow> u64" where
  "duration_to_saturating_nanoseconds d =
     (if d < 2 ^ 64 then min (word_of_nat d) MAX_NANOS else MAX_NANOS)"

definition from_duration_since_clock_start :: "duration \<Rightarrow> instant" where
  "from_duration_since_clock_start d = from_nanos (duration_to_saturating_nanoseconds d)"

definition saturating_add :: "instant \<Rightarrow> duration \<Rightarrow> instant" where
  "saturating_add i d =
     (let dur_ms = duration_to_saturating_nanoseconds d
      in from_nanos (min (sat_add (elapsed_ns i) dur_ms) MAX_NANOS))"

definition saturating_duration_since :: "instant \<Rightarrow> instant \<Rightarrow> duration" where
  "saturating_duration_since i earlier = unat (sat_sub (elapsed_ns i) (elapsed_ns earlier))"

section \<open>\<open>AtomicInstant\<close>: an optional instant in one word\<close>

datatype atomic_instant = AtomicInstant (ai_instant: u64)

definition atomic_instant_default :: atomic_instant where
  "atomic_instant_default = AtomicInstant (- 1)"

definition atomic_instant_new :: "instant \<Rightarrow> atomic_instant" where
  "atomic_instant_new i = AtomicInstant (as_nanos i)"

definition is_set :: "atomic_instant \<Rightarrow> bool" where
  "is_set a \<longleftrightarrow> ai_instant a \<noteq> - 1"

definition get_instant :: "atomic_instant \<Rightarrow> instant option" where
  "get_instant a = (let ts = ai_instant a in if ts = - 1 then None else Some (from_nanos ts))"

definition set_instant :: "atomic_instant \<Rightarrow> instant \<Rightarrow> atomic_instant" where
  "set_instant a i = AtomicInstant (as_nanos i)"

lemmas time_defs [moka_defs] =
  from_nanos_def as_nanos_def atomic_instant_default_def atomic_instant_new_def
  is_set_def get_instant_def set_instant_def

section \<open>Facts about instants\<close>

text \<open>An instant that a clock or an addition produces is not \<open>u64::MAX\<close>.\<close>

definition proper_instant :: "instant \<Rightarrow> bool" where
  "proper_instant i \<longleftrightarrow> elapsed_ns i \<le> MAX_NANOS"

lemma unat_MAX_NANOS: "unat MAX_NANOS = 2 ^ 64 - 2"
  by (simp add: MAX_NANOS_def)

lemma proper_instant_alt: "proper_instant i \<longleftrightarrow> unat (elapsed_ns i) \<le> 2 ^ 64 - 2"
  by (simp add: proper_instant_def word_le_nat_alt unat_MAX_NANOS)

lemma proper_instant_neq_max: "proper_instant i \<longleftrightarrow> elapsed_ns i \<noteq> - 1"
proof
  assume "proper_instant i"
  then show "elapsed_ns i \<noteq> - 1"
    by (auto simp: proper_instant_alt unat_minus_one_word)
next
  assume "elapsed_ns i \<noteq> - 1"
  then have "unat (elapsed_ns i) \<noteq> unat (- 1 :: u64)"
    using word_unat_eq_iff by blast
  then have "unat (elapsed_ns i) \<noteq> 2 ^ 64 - 1"
    by (simp add: unat_minus_one_word)
  moreover have "unat (elapsed_ns i) < 2 ^ 64" using unat_lt_pow[of "elapsed_ns i"] by simp
  ultimately show "proper_instant i" by (simp add: proper_instant_alt)
qed

lemma instant_le_unat: "i \<le> j \<longleftrightarrow> unat (elapsed_ns i) \<le> unat (elapsed_ns j)"
  by (simp add: less_eq_instant_def word_le_nat_alt)

lemma instant_less_unat: "i < j \<longleftrightarrow> unat (elapsed_ns i) < unat (elapsed_ns j)"
  by (simp add: less_instant_def word_less_nat_alt)

lemma unat_min_word: "unat (min x (y :: 'a::len word)) = min (unat x) (unat y)"
  by (simp add: min_def word_le_nat_alt)

lemma unat_duration_to_saturating_nanoseconds:
  "unat (duration_to_saturating_nanoseconds d) = min d (2 ^ 64 - 2)"
proof (cases "d < 2 ^ 64")
  case True
  then have "unat (word_of_nat d :: u64) = d" by (simp add: unat_of_nat take_bit_nat_eq_self)
  with True show ?thesis
    by (simp add: duration_to_saturating_nanoseconds_def unat_min_word unat_MAX_NANOS)
qed (simp add: duration_to_saturating_nanoseconds_def unat_MAX_NANOS)

lemma unat_saturating_add:
  "unat (elapsed_ns (saturating_add i d)) = min (unat (elapsed_ns i) + d) (2 ^ 64 - 2)"
proof -
  have "unat (elapsed_ns (saturating_add i d)) =
      min (min (unat (elapsed_ns i) + min d (2 ^ 64 - 2)) (2 ^ 64 - 1)) (2 ^ 64 - 2)"
    by (simp add: saturating_add_def Let_def from_nanos_def unat_min_word unat_sat_add
        unat_duration_to_saturating_nanoseconds unat_MAX_NANOS)
  then show ?thesis by linarith
qed

lemma proper_saturating_add [simp]: "proper_instant (saturating_add i d)"
  by (simp add: proper_instant_alt unat_saturating_add)

lemma proper_clock_instant [simp]: "proper_instant (from_duration_since_clock_start d)"
  by (simp add: proper_instant_alt from_duration_since_clock_start_def from_nanos_def
      unat_duration_to_saturating_nanoseconds)

lemma saturating_duration_since_unat:
  "saturating_duration_since i j = unat (elapsed_ns i) - unat (elapsed_ns j)"
  by (simp add: saturating_duration_since_def unat_sat_sub)

lemma saturating_add_mono: "i \<le> j \<Longrightarrow> saturating_add i d \<le> saturating_add j d"
  by (simp add: instant_le_unat unat_saturating_add)

lemma instant_atomic_new [simp]: "proper_instant i \<Longrightarrow> get_instant (atomic_instant_new i) = Some i"
  by (auto simp: moka_defs proper_instant_neq_max)

lemma instant_set_instant [simp]: "proper_instant i \<Longrightarrow> get_instant (set_instant a i) = Some i"
  by (auto simp: moka_defs proper_instant_neq_max)

lemma instant_default [simp]: "get_instant atomic_instant_default = None"
  by (simp add: moka_defs)

lemma is_set_iff: "is_set a \<longleftrightarrow> get_instant a \<noteq> None"
  by (auto simp: moka_defs)

section \<open>Properties\<close>

text \<open>time arithmetic saturates, keeps the unset marker free, and a duration added to an
  instant is recovered by the difference unless it saturated.\<close>

theorem instant_add_since_roundtrip:
  "proper_instant (saturating_add i d) \<and>
   saturating_duration_since (saturating_add i d) i = min d (2 ^ 64 - 2 - unat (elapsed_ns i)) \<and>
   get_instant (set_instant a (saturating_add i d)) = Some (saturating_add i d)"
proof -
  have "saturating_duration_since (saturating_add i d) i = min d (2 ^ 64 - 2 - unat (elapsed_ns i))"
    unfolding saturating_duration_since_unat unat_saturating_add by linarith
  then show ?thesis by simp
qed

end
