(* ===== verification/Entry_Info.thy ===== *)
theory Entry_Info
  imports Moka_Time
begin

text \<open>
  \<open>EntryInfo\<close> (\<open>src/src/common/concurrent/entry_info.rs\<close>): the metadata that the concurrent
  hash table and the cache policies share for one entry. Each atomic field is a field of the
  record; the compare-and-swap loops of \<open>set_policy_gen\<close> and \<open>set_expiration_time\<close> are their
  successful iteration, whose old value is the value that the loop loaded.
\<close>

section \<open>Data\<close>

record 'k key_hash =
  kh_key :: 'k
  kh_hash :: u64

record 'k entry_info =
  ei_key_hash :: "'k key_hash"
  ei_is_admitted :: bool
  ei_is_retired :: bool
  ei_entry_gen :: u16
  ei_policy_gen :: u16
  ei_expiration_state :: u64
  ei_last_accessed :: atomic_instant
  ei_last_modified :: atomic_instant
  ei_policy_weight :: u32

definition GEN_MASK :: u64 where
  "GEN_MASK = 0xFFF"

definition TIME_MASK :: u64 where
  "TIME_MASK = 0xFFFFFFFFFFFFF000"

section \<open>Operations\<close>

definition entry_info_new :: "'k key_hash \<Rightarrow> instant \<Rightarrow> u32 \<Rightarrow> 'k entry_info" where
  "entry_info_new kh timestamp weight =
     \<lparr>ei_key_hash = kh, ei_is_admitted = False, ei_is_retired = False,
      ei_entry_gen = 1, ei_policy_gen = 0,
      ei_expiration_state = 0xFFFFFFFFFFFFF000,
      ei_last_accessed = atomic_instant_new timestamp,
      ei_last_modified = atomic_instant_new timestamp,
      ei_policy_weight = weight\<rparr>"

definition is_alive :: "'k entry_info \<Rightarrow> bool" where
  "is_alive i = (\<not> ei_is_retired i)"

definition set_admitted :: "bool \<Rightarrow> 'k entry_info \<Rightarrow> 'k entry_info" where
  "set_admitted b i = i\<lparr>ei_is_admitted := b\<rparr>"

definition retire :: "'k entry_info \<Rightarrow> 'k entry_info" where
  "retire i = i\<lparr>ei_is_retired := True\<rparr>"

definition is_dirty :: "'k entry_info \<Rightarrow> bool" where
  "is_dirty i \<longleftrightarrow> ei_entry_gen i \<noteq> ei_policy_gen i"

definition incr_entry_gen :: "'k entry_info \<Rightarrow> 'k entry_info \<times> u16" where
  "incr_entry_gen i = (i\<lparr>ei_entry_gen := ei_entry_gen i + 1\<rparr>, ei_entry_gen i + 1)"

definition set_policy_gen :: "u16 \<Rightarrow> 'k entry_info \<Rightarrow> 'k entry_info" where
  "set_policy_gen value i =
     (let current = ei_policy_gen i
      in if current \<ge> value \<or> value - current > 0x7FFF then i
         else i\<lparr>ei_policy_gen := value\<rparr>)"

definition set_policy_weight :: "u32 \<Rightarrow> 'k entry_info \<Rightarrow> 'k entry_info" where
  "set_policy_weight w i = i\<lparr>ei_policy_weight := w\<rparr>"

definition expiration_state :: "'k entry_info \<Rightarrow> instant option \<times> u32" where
  "expiration_state i =
     (let packed = ei_expiration_state i;
          time_nanos = packed AND TIME_MASK;
          gen = ucast (packed AND GEN_MASK)
      in if time_nanos = TIME_MASK then (None, gen)
         else (Some (from_nanos time_nanos), gen))"

definition set_expiration_time :: "instant option \<Rightarrow> 'k entry_info \<Rightarrow> 'k entry_info \<times> u32" where
  "set_expiration_time time i =
     (let prev_packed = ei_expiration_state i;
          prev_gen = ucast (prev_packed AND GEN_MASK) :: u32;
          new_gen = (prev_gen + 1) AND ucast GEN_MASK;
          new_packed =
            (case time of
               Some t \<Rightarrow>
                 (let nanos = as_nanos t AND TIME_MASK;
                      nanos = (if nanos = TIME_MASK then TIME_MASK - 0x1000 else nanos)
                  in nanos OR ucast new_gen)
             | None \<Rightarrow> TIME_MASK OR ucast new_gen)
      in (i\<lparr>ei_expiration_state := new_packed\<rparr>, new_gen))"

definition last_accessed :: "'k entry_info \<Rightarrow> instant option" where
  "last_accessed i = get_instant (ei_last_accessed i)"

definition set_last_accessed :: "instant \<Rightarrow> 'k entry_info \<Rightarrow> 'k entry_info" where
  "set_last_accessed t i = i\<lparr>ei_last_accessed := set_instant (ei_last_accessed i) t\<rparr>"

definition last_modified :: "'k entry_info \<Rightarrow> instant option" where
  "last_modified i = get_instant (ei_last_modified i)"

definition set_last_modified :: "instant \<Rightarrow> 'k entry_info \<Rightarrow> 'k entry_info" where
  "set_last_modified t i = i\<lparr>ei_last_modified := set_instant (ei_last_modified i) t\<rparr>"

section \<open>The packed expiration state\<close>

text \<open>The two masks split a word into its quotient and remainder by 4096.\<close>

lemma unat_take_bit: "unat (take_bit n (x :: 'a::len word)) = unat x mod 2 ^ n"
  unfolding unsigned_take_bit_eq by (rule take_bit_eq_mod)

lemma GEN_MASK_mask: "GEN_MASK = mask 12"
  by (simp add: GEN_MASK_def mask_eq_exp_minus_1)

lemma TIME_MASK_mask: "TIME_MASK = NOT (mask 12)"
  by (simp add: TIME_MASK_def mask_eq_exp_minus_1 not_eq_complement)

lemma GEN_MASK_and: "unat (x AND GEN_MASK) = unat x mod 4096"
  using unat_take_bit[of 12 x] by (simp add: GEN_MASK_mask take_bit_eq_mask)

lemma TIME_MASK_and: "unat (x AND TIME_MASK) = unat x div 4096 * 4096"
proof -
  have "x AND TIME_MASK = push_bit 12 (drop_bit 12 x)"
    unfolding TIME_MASK_mask by (rule bit_word_eqI) (auto simp: bit_simps)
  also have "\<dots> = x - take_bit 12 x"
    by (metis add_diff_cancel_right' bits_ident)
  finally have "unat (x AND TIME_MASK) = unat x - unat (take_bit 12 x)"
    by (simp add: unat_sub word_le_nat_alt unsigned_take_bit_eq take_bit_nat_less_eq_self)
  then show ?thesis unfolding unat_take_bit by (simp add: minus_mod_eq_div_mult)
qed

text \<open>The new generation is the old one plus one, modulo 4096.\<close>

definition stored_expiry_gen :: "'k entry_info \<Rightarrow> nat" where
  "stored_expiry_gen i = unat (ei_expiration_state i) mod 4096"

lemma snd_expiration_state: "unat (snd (expiration_state i)) = stored_expiry_gen i"
  by (simp add: expiration_state_def stored_expiry_gen_def Let_def GEN_MASK_and unsigned_ucast_eq
      take_bit_nat_eq_self)

lemma snd_set_expiration_time:
  "unat (snd (set_expiration_time t i)) = (stored_expiry_gen i + 1) mod 4096"
proof -
  have g: "(ucast GEN_MASK :: u32) = mask 12"
    by (simp add: GEN_MASK_def mask_eq_exp_minus_1)
  have "unat (ucast (ei_expiration_state i AND GEN_MASK) :: u32) = stored_expiry_gen i"
    by (simp add: stored_expiry_gen_def GEN_MASK_and unsigned_ucast_eq take_bit_nat_eq_self)
  moreover have "stored_expiry_gen i < 4096" by (simp add: stored_expiry_gen_def)
  ultimately have "unat (ucast (ei_expiration_state i AND GEN_MASK) + 1 :: u32) = stored_expiry_gen i + 1"
    by (simp add: unat_word_ariths)
  then show ?thesis
    unfolding set_expiration_time_def Let_def snd_conv g take_bit_eq_mask[symmetric] unat_take_bit
    by simp
qed

lemma time_gen_or:
  assumes "nanos AND TIME_MASK = nanos" "g < (4096 :: u32)"
  shows "(nanos OR ucast g) AND TIME_MASK = nanos" "unat (nanos OR ucast g) mod 4096 = unat g"
proof -
  have g: "take_bit 12 g = g" using assms(2) unfolding word_unat_eq_iff unat_take_bit by (simp add: word_less_nat_alt)
  have "(ucast g :: u64) AND TIME_MASK = ucast (take_bit 12 g) AND NOT (mask 12)"
    by (simp only: g TIME_MASK_mask)
  also have "\<dots> = 0" by (rule bit_word_eqI) (auto simp: bit_simps)
  finally show t: "(nanos OR ucast g) AND TIME_MASK = nanos"
    using assms(1) by (simp add: bit.conj_disj_distrib2)
  have "nanos AND GEN_MASK = (nanos AND TIME_MASK) AND GEN_MASK" using assms(1) by simp
  also have "\<dots> = 0" unfolding GEN_MASK_mask TIME_MASK_mask by (rule bit_word_eqI) (auto simp: bit_simps)
  finally have n0: "nanos AND GEN_MASK = 0" .
  have "(ucast g :: u64) AND GEN_MASK = ucast (take_bit 12 g)"
    unfolding GEN_MASK_mask by (rule bit_word_eqI) (auto simp: bit_simps)
  then have "(nanos OR ucast g) AND GEN_MASK = ucast g"
    using n0 g by (simp add: bit.conj_disj_distrib2)
  then show "unat (nanos OR ucast g) mod 4096 = unat g"
    using GEN_MASK_and[of "nanos OR ucast g"] unat_lt_pow[of g]
    by (simp add: unsigned_ucast_eq take_bit_nat_eq_self)
qed

text \<open>What is stored for a time: the time rounded down to a multiple of 4096 nanoseconds,
  and the last but one such multiple for the times above it.\<close>

definition stored_time :: "instant \<Rightarrow> instant" where
  "stored_time t =
     Instant (if elapsed_ns t AND TIME_MASK = TIME_MASK then TIME_MASK - 0x1000
              else elapsed_ns t AND TIME_MASK)"

lemma stored_time_masked:
  "elapsed_ns (stored_time t) AND TIME_MASK = elapsed_ns (stored_time t)"
  "elapsed_ns (stored_time t) \<noteq> TIME_MASK"
  by (auto simp: stored_time_def TIME_MASK_def and.assoc)

lemma set_expiration_gen_less: "snd (set_expiration_time t i) < 4096"
  using snd_set_expiration_time[of t i] by (simp add: word_less_nat_alt)

lemma set_expiration_state_eq:
  "ei_expiration_state (fst (set_expiration_time t i)) =
     (case t of Some t \<Rightarrow> elapsed_ns (stored_time t) | None \<Rightarrow> TIME_MASK)
       OR ucast (snd (set_expiration_time t i))"
  by (cases t) (simp_all add: set_expiration_time_def stored_time_def Let_def as_nanos_def)

lemma expiration_state_set:
  "expiration_state (fst (set_expiration_time t i)) =
     (map_option stored_time t, snd (set_expiration_time t i))"
proof -
  let ?i = "fst (set_expiration_time t i)" and ?g = "snd (set_expiration_time t i)"
  let ?n = "case t of Some t \<Rightarrow> elapsed_ns (stored_time t) | None \<Rightarrow> TIME_MASK"
  have "?n AND TIME_MASK = ?n" by (cases t) (simp_all add: stored_time_masked)
  note or = time_gen_or[OF this set_expiration_gen_less[of t i]]
  have "snd (expiration_state ?i) = ?g"
    unfolding word_unat_eq_iff snd_expiration_state stored_expiry_gen_def set_expiration_state_eq by (rule or(2))
  moreover have "ei_expiration_state ?i AND TIME_MASK = ?n"
    unfolding set_expiration_state_eq by (rule or(1))
  ultimately show ?thesis
    by (cases t) (simp_all add: expiration_state_def Let_def stored_time_masked(2) from_nanos_def)
qed

lemma round_4096:
  assumes "n < (2 :: nat) ^ 64"
  shows "n div 4096 * 4096 \<le> 2 ^ 64 - 4096"
proof -
  have "n div 4096 < 2 ^ 52" using assms by (simp add: less_mult_imp_div_less)
  then show ?thesis by simp
qed

lemma unat_stored_time:
  "unat (elapsed_ns (stored_time t)) =
     min (unat (elapsed_ns t) div 4096 * 4096) (2 ^ 64 - 8192)"
proof -
  have T: "unat TIME_MASK = 2 ^ 64 - 4096" by (simp add: TIME_MASK_def)
  have eq: "elapsed_ns t AND TIME_MASK = TIME_MASK \<longleftrightarrow>
      unat (elapsed_ns t) div 4096 * 4096 = 2 ^ 64 - 4096"
    unfolding word_unat_eq_iff TIME_MASK_and T ..
  have "unat (elapsed_ns t) < 2 ^ 64" using unat_lt_pow[of "elapsed_ns t"] by simp
  then have "unat (elapsed_ns t) div 4096 * 4096 \<le> 2 ^ 64 - 4096" by (rule round_4096)
  moreover have "unat (TIME_MASK - 0x1000) = 2 ^ 64 - 8192" by (simp add: TIME_MASK_def)
  ultimately show ?thesis
    unfolding stored_time_def instant.sel
    by (cases "elapsed_ns t AND TIME_MASK = TIME_MASK")
      (auto simp: TIME_MASK_and eq simp del: word_unat_eq_iff)
qed

section \<open>Properties\<close>

text \<open>C38: packing and unpacking the expiration state. Reading back an expiration time that was
  set yields it rounded down to a multiple of 4096 nanoseconds, but not more than
  \<open>2 ^ 64 - 8192\<close>, as the next multiple marks an unset time; reading back an unset time yields
  none. In both cases the generation that is read is the one that setting has returned, it is
  the old one plus one modulo 4096, and nothing else changes.\<close>

theorem expiration_state_roundtrip:
  "expiration_state (fst (set_expiration_time time i)) =
     (map_option (\<lambda>t. Instant (word_of_nat (min (unat (elapsed_ns t) div 4096 * 4096) (2 ^ 64 - 8192)))) time,
      snd (set_expiration_time time i)) \<and>
   unat (snd (set_expiration_time time i)) = (unat (snd (expiration_state i)) + 1) mod 4096 \<and>
   (fst (set_expiration_time time i))\<lparr>ei_expiration_state := x\<rparr> = i\<lparr>ei_expiration_state := x\<rparr>"
proof (intro conjI)
  have "Instant (word_of_nat (min (unat (elapsed_ns t) div 4096 * 4096) (2 ^ 64 - 8192))) = stored_time t" for t
    unfolding unat_stored_time[symmetric] by simp
  then show "expiration_state (fst (set_expiration_time time i)) =
     (map_option (\<lambda>t. Instant (word_of_nat (min (unat (elapsed_ns t) div 4096 * 4096) (2 ^ 64 - 8192)))) time,
      snd (set_expiration_time time i))"
    unfolding expiration_state_set by simp
  show "unat (snd (set_expiration_time time i)) = (unat (snd (expiration_state i)) + 1) mod 4096"
    by (simp add: snd_set_expiration_time snd_expiration_state)
  show "(fst (set_expiration_time time i))\<lparr>ei_expiration_state := x\<rparr> = i\<lparr>ei_expiration_state := x\<rparr>"
    by (simp add: set_expiration_time_def Let_def)
qed

section \<open>Generations\<close>

text \<open>One update of an entry: the table bumps the entry generation and the policies later
  apply that generation.\<close>

definition update_cycle :: "'k entry_info \<Rightarrow> 'k entry_info" where
  "update_cycle i = (let (i, g) = incr_entry_gen i in set_policy_gen g i)"

lemma set_policy_gen_clean:
  "ei_policy_gen i < g \<Longrightarrow> g - ei_policy_gen i \<le> 0x7FFF \<Longrightarrow>
   ei_policy_gen (set_policy_gen g i) = g"
  by (auto simp: set_policy_gen_def Let_def)

lemma set_policy_gen_entry_gen [simp]: "ei_entry_gen (set_policy_gen g i) = ei_entry_gen i"
  by (simp add: set_policy_gen_def Let_def)

lemma policy_gen_max: "ei_policy_gen i = - 1 \<Longrightarrow> set_policy_gen g i = i"
  using unat_lt_pow[of g] by (simp add: set_policy_gen_def word_le_nat_alt unat_minus_one_word)

lemma update_cycle_small:
  assumes "unat (ei_entry_gen i) = m" "unat (ei_policy_gen i) = m" "m < 65535"
  shows "unat (ei_entry_gen (update_cycle i)) = m + 1 \<and> unat (ei_policy_gen (update_cycle i)) = m + 1"
proof -
  have eq: "ei_entry_gen i = ei_policy_gen i" using assms(1,2) by (simp add: word_unat_eq_iff)
  have u: "unat (ei_policy_gen i + 1) = m + 1" using assms(2,3) by (simp add: unat_word_ariths)
  then have l: "ei_policy_gen i < ei_policy_gen i + 1" using assms(2) by (simp add: word_less_nat_alt)
  then show ?thesis
    using u leD by (auto simp add: update_cycle_def incr_entry_gen_def set_policy_gen_def Let_def eq)
qed

lemma update_cycle_stuck:
  assumes "ei_policy_gen i = - 1"
  shows "ei_policy_gen (update_cycle i) = - 1 \<and> ei_entry_gen (update_cycle i) = ei_entry_gen i + 1"
  using assms by (simp add: update_cycle_def incr_entry_gen_def policy_gen_max)

lemma update_cycles_small:
  "n < 65535 \<Longrightarrow>
   unat (ei_entry_gen ((update_cycle ^^ n) (set_policy_gen 1 (entry_info_new kh t w)))) = n + 1 \<and>
   unat (ei_policy_gen ((update_cycle ^^ n) (set_policy_gen 1 (entry_info_new kh t w)))) = n + 1"
proof (induction n)
  case 0
  then show ?case by (simp add: set_policy_gen_def entry_info_new_def)
next
  case (Suc n)
  then show ?case by (simp add: update_cycle_small)
qed

lemma update_cycles_stuck:
  "ei_policy_gen ((update_cycle ^^ (65534 + k)) (set_policy_gen 1 (entry_info_new kh t w))) = - 1 \<and>
   ei_entry_gen ((update_cycle ^^ (65534 + k)) (set_policy_gen 1 (entry_info_new kh t w))) = word_of_nat k - 1"
proof (induction k)
  case 0
  have "unat (ei_entry_gen ((update_cycle ^^ 65534) (set_policy_gen 1 (entry_info_new kh t w)))) = 65535"
    "unat (ei_policy_gen ((update_cycle ^^ 65534) (set_policy_gen 1 (entry_info_new kh t w)))) = 65535"
    using update_cycles_small[of 65534 kh t w] by (auto simp del: funpow.simps)
  then show ?case
    unfolding add_0_right word_unat_eq_iff by (simp add: unat_minus_one_word del: funpow.simps)
next
  case (Suc k)
  then show ?case
    unfolding add_Suc_right funpow.simps comp_apply
    using update_cycle_stuck[of "(update_cycle ^^ (65534 + k)) (set_policy_gen 1 (entry_info_new kh t w))"]
    by simp
qed

text \<open>C39: the dirty flag of an entry that is updated again and again, each update being applied
  to the policies before the next one. Up to 65,534 updates the entry is clean after each of
  them, which is what the flag promises. From the 65,535th update on it is dirty after every
  update but each 65,536th: \<open>set_policy_gen\<close> does not move the policy generation past
  65,535, although the comment in it speaks of a generation that wraps around.\<close>

theorem policy_gen_stuck:
  "is_dirty ((update_cycle ^^ n) (set_policy_gen 1 (entry_info_new kh t w)))
     \<longleftrightarrow> 65534 < n \<and> \<not> 65536 dvd (n - 65534)"
proof (cases "n < 65535")
  case True
  then show ?thesis using update_cycles_small[of n kh t w] by (simp add: is_dirty_def word_unat_eq_iff)
next
  case False
  then have "n = 65534 + (n - 65534)" by linarith
  then obtain k where n: "n = 65534 + k" by blast
  have "(word_of_nat k :: u16) - 1 = - 1 \<longleftrightarrow> (word_of_nat k :: u16) = 0" by simp
  also have "\<dots> \<longleftrightarrow> 65536 dvd k" by (simp add: word_of_nat_eq_0_iff)
  finally show ?thesis
    using update_cycles_stuck[of k kh t w] False unfolding is_dirty_def n by auto
qed

end
