(* ===== verification/Common.thy ===== *)
theory Common
  imports Moka_Prelude
begin

text \<open>
  \<open>src/src/common.rs\<close>: the regions of the cache, which double as the 2-bit tag of an
  access-order pointer, and the capacity of the popularity sketch.
\<close>

datatype cache_region = Window | MainProbation | MainProtected | Other

fun region_tag :: "cache_region \<Rightarrow> nat" where
  "region_tag Window = 0"
| "region_tag MainProbation = 1"
| "region_tag MainProtected = 2"
| "region_tag Other = 3"

text \<open>\<open>From<usize> for CacheRegion\<close>: any other number panics.\<close>

definition cache_region_from :: "nat \<Rightarrow> cache_region or_panic" where
  "cache_region_from n =
     (if n = 0 then Some Window
      else if n = 1 then Some MainProbation
      else if n = 2 then Some MainProtected
      else if n = 3 then Some Other
      else None)"

fun region_name :: "cache_region \<Rightarrow> string" where
  "region_name Window = ''window''"
| "region_name MainProbation = ''main probation''"
| "region_name MainProtected = ''main protected''"
| "region_name Other = ''other''"

definition sketch_capacity :: "u64 \<Rightarrow> u32" where
  "sketch_capacity max_capacity =
     max (if unat max_capacity < 2 ^ 32 then ucast max_capacity else - 1) 128"

lemma cache_region_roundtrip [simp]: "cache_region_from (region_tag r) = Some r"
  by (cases r) (simp_all add: cache_region_from_def)

lemma region_tag_2_bits: "region_tag r < 2 ^ 2"
  by (cases r) simp_all

lemma unat_sketch_capacity: "unat (sketch_capacity m) = max (min (unat m) (2 ^ 32 - 1)) 128"
proof -
  have "unat (ucast m :: u32) = unat m" if "unat m < 2 ^ 32"
    using that by (simp add: unsigned_ucast_eq take_bit_nat_eq_self)
  moreover have "unat (max x y) = max (unat x) (unat y)" for x y :: u32
    by (simp add: max_def word_le_nat_alt)
  ultimately show ?thesis
    by (auto simp: sketch_capacity_def unat_minus_one_word)
qed

end
