(* ===== verification/Deque_Spec.thy ===== *)
theory Deque_Spec
  imports Common
begin

text \<open>
  What the intrusive doubly-linked deque of \<open>src/src/common/deque.rs\<close> promises: a list of
  distinct node addresses and a cursor into it. The components that use deques (the LRU
  deques, the timer wheel and the cache) are modelled over this specification; the theory
  \<open>Deque\<close> shows that the pointer program implements it.

  The live boxes are a map from addresses to elements. Reading through an address that is
  not live is a panic (in the source it is undefined behaviour), and so is relinking a node
  that is not a member of the deque.
\<close>

type_synonym addr = nat

datatype deq_cursor = CNode addr | CDone

record adeq =
  ad_region :: cache_region
  ad_nodes :: "addr list"
  ad_cursor :: "deq_cursor option"

fun succ_in :: "addr list \<Rightarrow> addr \<Rightarrow> addr option" where
  "succ_in [] a = None"
| "succ_in [x] a = None"
| "succ_in (x # y # xs) a = (if x = a then Some y else succ_in (y # xs) a)"

definition ad_new :: "cache_region \<Rightarrow> adeq" where
  "ad_new r = \<lparr>ad_region = r, ad_nodes = [], ad_cursor = None\<rparr>"

definition ad_len :: "adeq \<Rightarrow> nat" where
  "ad_len q = length (ad_nodes q)"

definition ad_contains :: "(addr \<rightharpoonup> 'a) \<Rightarrow> adeq \<Rightarrow> addr \<Rightarrow> bool or_panic" where
  "ad_contains live q a = (if live a = None then None else Some (a \<in> set (ad_nodes q)))"

definition ad_peek_front :: "adeq \<Rightarrow> addr option" where
  "ad_peek_front q = (case ad_nodes q of [] \<Rightarrow> None | a # _ \<Rightarrow> Some a)"

definition ad_peek_back :: "adeq \<Rightarrow> addr option" where
  "ad_peek_back q = (if ad_nodes q = [] then None else Some (last (ad_nodes q)))"

definition ad_advance_cursor :: "adeq \<Rightarrow> adeq" where
  "ad_advance_cursor q =
     q\<lparr>ad_cursor := (case ad_cursor q of
          None \<Rightarrow> None
        | Some (CNode a) \<Rightarrow>
            Some (case succ_in (ad_nodes q) a of Some b \<Rightarrow> CNode b | None \<Rightarrow> CDone)
        | Some CDone \<Rightarrow> None)\<rparr>"

definition ad_leave :: "addr \<Rightarrow> adeq \<Rightarrow> adeq" where
  "ad_leave a q = (if ad_cursor q = Some (CNode a) then ad_advance_cursor q else q)"

definition ad_push_back :: "addr \<Rightarrow> adeq \<Rightarrow> adeq" where
  "ad_push_back a q = q\<lparr>ad_nodes := ad_nodes q @ [a]\<rparr>"

definition ad_pop_front :: "adeq \<Rightarrow> adeq \<times> addr option" where
  "ad_pop_front q =
     (case ad_nodes q of
        [] \<Rightarrow> (q, None)
      | a # as \<Rightarrow> ((ad_leave a q)\<lparr>ad_nodes := as\<rparr>, Some a))"

definition ad_move_to_back :: "addr \<Rightarrow> adeq \<Rightarrow> adeq or_panic" where
  "ad_move_to_back a q =
     (if a \<notin> set (ad_nodes q) then None
      else if last (ad_nodes q) = a then Some q
      else Some ((ad_leave a q)\<lparr>ad_nodes := remove1 a (ad_nodes q) @ [a]\<rparr>))"

definition ad_move_front_to_back :: "adeq \<Rightarrow> adeq or_panic" where
  "ad_move_front_to_back q =
     (case ad_nodes q of [] \<Rightarrow> Some q | a # _ \<Rightarrow> ad_move_to_back a q)"

definition ad_unlink :: "addr \<Rightarrow> adeq \<Rightarrow> adeq or_panic" where
  "ad_unlink a q =
     (if a \<notin> set (ad_nodes q) then None
      else Some ((ad_leave a q)\<lparr>ad_nodes := remove1 a (ad_nodes q)\<rparr>))"

definition ad_reset_cursor :: "adeq \<Rightarrow> adeq" where
  "ad_reset_cursor q = q\<lparr>ad_cursor := None\<rparr>"

definition ad_next :: "adeq \<Rightarrow> adeq \<times> addr option" where
  "ad_next q =
     (let q = (if ad_cursor q = None
               then (case ad_nodes q of [] \<Rightarrow> q | a # _ \<Rightarrow> q\<lparr>ad_cursor := Some (CNode a)\<rparr>)
               else q);
          elem = (case ad_cursor q of Some (CNode a) \<Rightarrow> Some a | _ \<Rightarrow> None)
      in (ad_advance_cursor q, elem))"

section \<open>Well-formed deques\<close>

definition ad_ok :: "adeq \<Rightarrow> bool" where
  "ad_ok q \<longleftrightarrow> distinct (ad_nodes q) \<and>
     (\<forall>a. ad_cursor q = Some (CNode a) \<longrightarrow> a \<in> set (ad_nodes q))"

lemma succ_in_mem: "succ_in xs a = Some b \<Longrightarrow> b \<in> set xs"
  by (induction xs a rule: succ_in.induct) (auto split: if_splits)

lemma succ_in_append: "a \<notin> set ys \<Longrightarrow>
    succ_in (ys @ a # zs) a = (case zs of [] \<Rightarrow> None | z # _ \<Rightarrow> Some z)"
proof (induction ys)
  case Nil
  then show ?case by (cases zs) auto
next
  case (Cons y ys)
  then show ?case by (cases ys) (auto split: list.splits)
qed

lemma succ_in_neq: "distinct xs \<Longrightarrow> succ_in xs a = Some b \<Longrightarrow> b \<noteq> a"
  by (induction xs a rule: succ_in.induct) (auto split: if_splits dest: succ_in_mem)

lemma ad_advance_cursor_nodes [simp]:
  "ad_nodes (ad_advance_cursor q) = ad_nodes q" "ad_region (ad_advance_cursor q) = ad_region q"
  by (simp_all add: ad_advance_cursor_def)

lemma ad_leave_nodes [simp]:
  "ad_nodes (ad_leave a q) = ad_nodes q" "ad_region (ad_leave a q) = ad_region q"
  by (simp_all add: ad_leave_def)

lemma ad_ok_advance: "ad_ok q \<Longrightarrow> ad_ok (ad_advance_cursor q)"
  by (auto simp: ad_ok_def ad_advance_cursor_def split: option.splits deq_cursor.splits dest: succ_in_mem)

text \<open>Once a node has left the cursor, the cursor no longer refers to it.\<close>

lemma ad_leave_cursor:
  "ad_ok q \<Longrightarrow> ad_cursor (ad_leave a q) = Some (CNode b) \<Longrightarrow> b \<noteq> a \<and> b \<in> set (ad_nodes q)"
  by (auto simp: ad_ok_def ad_leave_def ad_advance_cursor_def split: if_splits option.splits
      dest: succ_in_neq succ_in_mem)

lemma ad_ok_new [simp]: "ad_ok (ad_new r)"
  by (simp add: ad_ok_def ad_new_def)

lemma ad_ok_push_back: "ad_ok q \<Longrightarrow> a \<notin> set (ad_nodes q) \<Longrightarrow> ad_ok (ad_push_back a q)"
  by (auto simp: ad_ok_def ad_push_back_def)

lemma ad_ok_leave:
  assumes "ad_ok q" "distinct ns" "set (ad_nodes q) - {a} \<subseteq> set ns"
  shows "ad_ok ((ad_leave a q)\<lparr>ad_nodes := ns\<rparr>)"
proof -
  have "b \<in> set ns" if "ad_cursor (ad_leave a q) = Some (CNode b)" for b
    using ad_leave_cursor[OF assms(1) that] assms(3) by blast
  then show ?thesis using assms(2) by (simp add: ad_ok_def)
qed

lemma ad_ok_unlink: "ad_ok q \<Longrightarrow> ad_unlink a q = Some q' \<Longrightarrow> ad_ok q'"
  by (auto simp: ad_unlink_def split: if_splits intro!: ad_ok_leave) (auto simp: ad_ok_def)

lemma ad_ok_move_to_back: "ad_ok q \<Longrightarrow> ad_move_to_back a q = Some q' \<Longrightarrow> ad_ok q'"
  by (auto simp: ad_move_to_back_def split: if_splits intro!: ad_ok_leave) (auto simp: ad_ok_def)

lemma ad_ok_pop_front: "ad_ok q \<Longrightarrow> ad_ok (fst (ad_pop_front q))"
  by (auto simp: ad_pop_front_def split: list.splits intro!: ad_ok_leave) (auto simp: ad_ok_def)

lemma ad_unlink_nodes:
  "ad_unlink a q = Some q' \<Longrightarrow> ad_nodes q' = remove1 a (ad_nodes q) \<and> ad_region q' = ad_region q"
  by (auto simp: ad_unlink_def split: if_splits)

lemma ad_move_to_back_nodes:
  assumes "ad_ok q" "ad_move_to_back a q = Some q'"
  shows "ad_nodes q' = remove1 a (ad_nodes q) @ [a] \<and> ad_region q' = ad_region q"
proof (cases "last (ad_nodes q) = a")
  case True
  with assms(2) have q: "q' = q" "ad_nodes q \<noteq> []"
    by (auto simp: ad_move_to_back_def split: if_splits)
  then obtain ys where ys: "ad_nodes q = ys @ [a]"
    using True by (metis append_butlast_last_id)
  with assms(1) have "a \<notin> set ys" by (simp add: ad_ok_def)
  with ys have "remove1 a (ad_nodes q) @ [a] = ad_nodes q"
    by (simp add: remove1_append)
  with q show ?thesis by simp
qed (use assms(2) in \<open>auto simp: ad_move_to_back_def split: if_splits\<close>)

lemma ad_push_back_nodes [simp]:
  "ad_nodes (ad_push_back a q) = ad_nodes q @ [a]" "ad_region (ad_push_back a q) = ad_region q"
  "ad_cursor (ad_push_back a q) = ad_cursor q"
  by (simp_all add: ad_push_back_def)

lemma ad_move_front_to_back_Cons:
  assumes "ad_ok q" "ad_nodes q = x # zs"
  shows "\<exists>q'. ad_move_front_to_back q = Some q' \<and> ad_ok q' \<and> ad_nodes q' = zs @ [x] \<and>
    ad_region q' = ad_region q"
proof -
  obtain q1 where q1: "ad_move_to_back x q = Some q1"
    using assms(2) by (cases "last (ad_nodes q) = x") (simp_all add: ad_move_to_back_def)
  with ad_move_to_back_nodes[OF assms(1) q1] ad_ok_move_to_back[OF assms(1) q1] assms(2)
  show ?thesis by (simp add: ad_move_front_to_back_def)
qed

lemma ad_move_to_back_mem:
  assumes "ad_ok q" "a \<in> set (ad_nodes q)"
  shows "\<exists>q'. ad_move_to_back a q = Some q' \<and> ad_ok q' \<and> set (ad_nodes q') = set (ad_nodes q) \<and>
    length (ad_nodes q') = length (ad_nodes q) \<and> ad_region q' = ad_region q"
proof -
  obtain q1 where q1: "ad_move_to_back a q = Some q1"
    using assms(2) by (cases "last (ad_nodes q) = a") (simp_all add: ad_move_to_back_def)
  have "set (remove1 a (ad_nodes q) @ [a]) = set (ad_nodes q)"
    using assms by (auto simp: ad_ok_def)
  moreover have "length (remove1 a (ad_nodes q) @ [a]) = length (ad_nodes q)"
    using assms(2) length_pos_if_in_set[OF assms(2)] by (simp add: length_remove1)
  ultimately show ?thesis
    using ad_move_to_back_nodes[OF assms(1) q1] ad_ok_move_to_back[OF assms(1) q1] q1 by simp
qed

lemma ad_unlink_mem:
  assumes "ad_ok q" "a \<in> set (ad_nodes q)"
  shows "\<exists>q'. ad_unlink a q = Some q' \<and> ad_ok q' \<and> set (ad_nodes q') = set (ad_nodes q) - {a} \<and>
    ad_nodes q' = remove1 a (ad_nodes q) \<and>
    Suc (length (ad_nodes q')) = length (ad_nodes q) \<and> ad_region q' = ad_region q"
proof -
  obtain q1 where q1: "ad_unlink a q = Some q1" using assms(2) by (simp add: ad_unlink_def)
  have "length (ad_nodes q) > 0" using assms(2) by auto
  with ad_unlink_nodes[OF q1] ad_ok_unlink[OF assms(1) q1] assms q1 show ?thesis
    by (auto simp: ad_ok_def length_remove1)
qed

lemma ad_pop_front_Cons:
  assumes "ad_ok q" "ad_nodes q = a # as"
  shows "\<exists>q'. ad_pop_front q = (q', Some a) \<and> ad_ok q' \<and> ad_nodes q' = as \<and> ad_region q' = ad_region q"
  using assms ad_ok_pop_front[OF assms(1)] by (simp add: ad_pop_front_def)

end
