(* ===== verification/Concurrent.thy ===== *)
theory Concurrent
  imports Entry_Info Deque_Spec
begin

text \<open>
  The data that the concurrent hash table and the policies exchange
  (\<open>src/src/common/concurrent.rs\<close>): value entries, the node pointers of an entry, and the
  operations that are recorded for the housekeeping.

  \<open>MiniArc\<close> pointers to \<open>EntryInfo\<close> and to \<open>Mutex<DeqNodes>\<close> are identifiers into a store, so
  that two value entries of one key share them as in the source; a \<open>MiniArc\<close> keeps its target
  alive, so reading through an identifier always succeeds. \<open>Box\<close>ed deque nodes are addresses;
  reading through the address of a box that was dropped is a panic. A fresh box gets an
  address that was never used, so that a dangling pointer is never live again.
\<close>

section \<open>Data\<close>

type_synonym info_id = nat
type_synonym nodes_id = nat

record deq_nodes =
  dns_access_order_q_node :: "(addr \<times> nat) option"
  dns_write_order_q_node :: "addr option"
  dns_timer_node :: "addr option"
  dns_timer_node_expiry_gen :: u32

datatype timer_node =
    Sentinel
  | TimerEntry (tn_pos: "(u8 \<times> u8) option") (tn_expiry_gen: u32) (tn_entry_info: info_id) (tn_deq_nodes: nodes_id)

record 'k store =
  st_infos :: "info_id \<Rightarrow> 'k entry_info"
  st_nodes :: "nodes_id \<Rightarrow> deq_nodes"
  st_khds :: "addr \<rightharpoonup> info_id"
  st_timers :: "addr \<rightharpoonup> timer_node"
  st_next_id :: nat
  st_next_addr :: addr

record 'v value_entry =
  ve_value :: 'v
  ve_info :: info_id
  ve_nodes :: nodes_id

record ('k, 'v) kv_entry =
  kv_key :: 'k
  kv_entry :: "'v value_entry"

datatype 'v read_op =
    Hit (hit_value_entry: "'v value_entry") (hit_is_expiry_modified: bool)
  | Miss u64

datatype ('k, 'v) write_op =
    Upsert "'k key_hash" "'v value_entry" u16 u32 u32
  | Remove "('k, 'v) kv_entry" u16

record 'v old_entry_info =
  oe_entry :: "'v value_entry"
  oe_last_accessed :: "instant option"
  oe_last_modified :: "instant option"

section \<open>The store\<close>

definition info_of :: "'k store \<Rightarrow> 'v value_entry \<Rightarrow> 'k entry_info" where
  "info_of st e = st_infos st (ve_info e)"

definition upd_info :: "info_id \<Rightarrow> ('k entry_info \<Rightarrow> 'k entry_info) \<Rightarrow> 'k store \<Rightarrow> 'k store" where
  "upd_info i f st = st\<lparr>st_infos := (st_infos st)(i := f (st_infos st i))\<rparr>"

definition upd_nodes :: "nodes_id \<Rightarrow> (deq_nodes \<Rightarrow> deq_nodes) \<Rightarrow> 'k store \<Rightarrow> 'k store" where
  "upd_nodes n f st = st\<lparr>st_nodes := (st_nodes st)(n := f (st_nodes st n))\<rparr>"

definition alloc_info :: "'k entry_info \<Rightarrow> 'k store \<Rightarrow> 'k store \<times> info_id" where
  "alloc_info info st =
     (let i = st_next_id st
      in (st\<lparr>st_infos := (st_infos st)(i := info), st_next_id := i + 1\<rparr>, i))"

definition alloc_khd :: "info_id \<Rightarrow> 'k store \<Rightarrow> 'k store \<times> addr" where
  "alloc_khd i st =
     (let a = st_next_addr st
      in (st\<lparr>st_khds := (st_khds st)(a \<mapsto> i), st_next_addr := a + 1\<rparr>, a))"

definition alloc_timer :: "timer_node \<Rightarrow> 'k store \<Rightarrow> 'k store \<times> addr" where
  "alloc_timer t st =
     (let a = st_next_addr st
      in (st\<lparr>st_timers := (st_timers st)(a \<mapsto> t), st_next_addr := a + 1\<rparr>, a))"

definition free_khd :: "addr \<Rightarrow> 'k store \<Rightarrow> 'k store" where
  "free_khd a st = st\<lparr>st_khds := (st_khds st)(a := None)\<rparr>"

definition free_timer :: "addr \<Rightarrow> 'k store \<Rightarrow> 'k store" where
  "free_timer a st = st\<lparr>st_timers := (st_timers st)(a := None)\<rparr>"

section \<open>\<open>DeqNodes\<close> and \<open>ValueEntry\<close>\<close>

definition deq_nodes_default :: deq_nodes where
  "deq_nodes_default =
     \<lparr>dns_access_order_q_node = None, dns_write_order_q_node = None,
      dns_timer_node = None, dns_timer_node_expiry_gen = 0\<rparr>"

definition dns_set_timer_node :: "addr option \<Rightarrow> u32 \<Rightarrow> deq_nodes \<Rightarrow> deq_nodes" where
  "dns_set_timer_node t g d = d\<lparr>dns_timer_node := t, dns_timer_node_expiry_gen := g\<rparr>"

definition timer_node_with_expiry_gen :: "'k store \<Rightarrow> 'v value_entry \<Rightarrow> addr option \<times> u32" where
  "timer_node_with_expiry_gen st e =
     (let d = st_nodes st (ve_nodes e) in (dns_timer_node d, dns_timer_node_expiry_gen d))"

text \<open>\<open>ValueEntry::new\<close> allocates the node pointers; \<open>new_from\<close> shares those of another entry.\<close>

definition value_entry_new :: "'v \<Rightarrow> info_id \<Rightarrow> 'k store \<Rightarrow> 'k store \<times> 'v value_entry" where
  "value_entry_new v i st =
     (let n = st_next_id st
      in (st\<lparr>st_nodes := (st_nodes st)(n := deq_nodes_default), st_next_id := n + 1\<rparr>,
          \<lparr>ve_value = v, ve_info = i, ve_nodes = n\<rparr>))"

definition value_entry_new_from :: "'v \<Rightarrow> info_id \<Rightarrow> 'v value_entry \<Rightarrow> 'v value_entry" where
  "value_entry_new_from v i other = \<lparr>ve_value = v, ve_info = i, ve_nodes = ve_nodes other\<rparr>"

definition ve_policy_weight :: "'k store \<Rightarrow> 'v value_entry \<Rightarrow> u32" where
  "ve_policy_weight st e = ei_policy_weight (info_of st e)"

definition ve_is_admitted :: "'k store \<Rightarrow> 'v value_entry \<Rightarrow> bool" where
  "ve_is_admitted st e = ei_is_admitted (info_of st e)"

definition ve_set_admitted :: "bool \<Rightarrow> 'v value_entry \<Rightarrow> 'k store \<Rightarrow> 'k store" where
  "ve_set_admitted b e st = upd_info (ve_info e) (set_admitted b) st"

definition access_order_q_node :: "'k store \<Rightarrow> 'v value_entry \<Rightarrow> (addr \<times> nat) option" where
  "access_order_q_node st e = dns_access_order_q_node (st_nodes st (ve_nodes e))"

definition set_access_order_q_node :: "'v value_entry \<Rightarrow> (addr \<times> nat) option \<Rightarrow> 'k store \<Rightarrow> 'k store" where
  "set_access_order_q_node e p st = upd_nodes (ve_nodes e) (\<lambda>d. d\<lparr>dns_access_order_q_node := p\<rparr>) st"

definition take_access_order_q_node :: "'v value_entry \<Rightarrow> 'k store \<Rightarrow> 'k store \<times> (addr \<times> nat) option" where
  "take_access_order_q_node e st = (set_access_order_q_node e None st, access_order_q_node st e)"

definition write_order_q_node :: "'k store \<Rightarrow> 'v value_entry \<Rightarrow> addr option" where
  "write_order_q_node st e = dns_write_order_q_node (st_nodes st (ve_nodes e))"

definition set_write_order_q_node :: "'v value_entry \<Rightarrow> addr option \<Rightarrow> 'k store \<Rightarrow> 'k store" where
  "set_write_order_q_node e p st = upd_nodes (ve_nodes e) (\<lambda>d. d\<lparr>dns_write_order_q_node := p\<rparr>) st"

definition take_write_order_q_node :: "'v value_entry \<Rightarrow> 'k store \<Rightarrow> 'k store \<times> addr option" where
  "take_write_order_q_node e st = (set_write_order_q_node e None st, write_order_q_node st e)"

definition set_timer_node :: "'v value_entry \<Rightarrow> addr option \<Rightarrow> u32 \<Rightarrow> 'k store \<Rightarrow> 'k store" where
  "set_timer_node e t g st = upd_nodes (ve_nodes e) (dns_set_timer_node t g) st"

definition take_timer_node :: "'v value_entry \<Rightarrow> 'k store \<Rightarrow> 'k store \<times> addr option \<times> u32" where
  "take_timer_node e st =
     (let d = st_nodes st (ve_nodes e)
      in (upd_nodes (ve_nodes e) (dns_set_timer_node None 0) st,
          dns_timer_node d, dns_timer_node_expiry_gen d))"

definition unset_q_nodes :: "'v value_entry \<Rightarrow> 'k store \<Rightarrow> 'k store" where
  "unset_q_nodes e st =
     upd_nodes (ve_nodes e) (\<lambda>d. d\<lparr>dns_access_order_q_node := None, dns_write_order_q_node := None\<rparr>) st"

definition old_entry_info_new :: "'k store \<Rightarrow> 'v value_entry \<Rightarrow> 'v old_entry_info" where
  "old_entry_info_new st e =
     \<lparr>oe_entry = e, oe_last_accessed = last_accessed (info_of st e),
      oe_last_modified = last_modified (info_of st e)\<rparr>"

definition new_upsert :: "'k \<Rightarrow> u64 \<Rightarrow> 'v value_entry \<Rightarrow> u16 \<Rightarrow> u32 \<Rightarrow> u32 \<Rightarrow> ('k, 'v) write_op" where
  "new_upsert key hash e gen old_weight new_weight =
     Upsert \<lparr>kh_key = key, kh_hash = hash\<rparr> e gen old_weight new_weight"

section \<open>Reading after writing\<close>

lemma upd_info_sel [simp]:
  "st_infos (upd_info i f st) j = (if j = i then f (st_infos st i) else st_infos st j)"
  "st_nodes (upd_info i f st) = st_nodes st" "st_khds (upd_info i f st) = st_khds st"
  "st_timers (upd_info i f st) = st_timers st" "st_next_id (upd_info i f st) = st_next_id st"
  "st_next_addr (upd_info i f st) = st_next_addr st"
  by (simp_all add: upd_info_def)

lemma upd_nodes_sel [simp]:
  "st_nodes (upd_nodes n f st) m = (if m = n then f (st_nodes st n) else st_nodes st m)"
  "st_infos (upd_nodes n f st) = st_infos st" "st_khds (upd_nodes n f st) = st_khds st"
  "st_timers (upd_nodes n f st) = st_timers st" "st_next_id (upd_nodes n f st) = st_next_id st"
  "st_next_addr (upd_nodes n f st) = st_next_addr st"
  by (simp_all add: upd_nodes_def)

lemma free_sel [simp]:
  "st_khds (free_khd a st) = (st_khds st)(a := None)" "st_timers (free_khd a st) = st_timers st"
  "st_infos (free_khd a st) = st_infos st" "st_nodes (free_khd a st) = st_nodes st"
  "st_next_id (free_khd a st) = st_next_id st" "st_next_addr (free_khd a st) = st_next_addr st"
  "st_timers (free_timer a st) = (st_timers st)(a := None)" "st_khds (free_timer a st) = st_khds st"
  "st_infos (free_timer a st) = st_infos st" "st_nodes (free_timer a st) = st_nodes st"
  "st_next_id (free_timer a st) = st_next_id st" "st_next_addr (free_timer a st) = st_next_addr st"
  by (simp_all add: free_khd_def free_timer_def)

lemmas node_defs [moka_defs] =
  access_order_q_node_def set_access_order_q_node_def take_access_order_q_node_def
  write_order_q_node_def set_write_order_q_node_def take_write_order_q_node_def
  set_timer_node_def take_timer_node_def timer_node_with_expiry_gen_def unset_q_nodes_def
  dns_set_timer_node_def ve_is_admitted_def ve_set_admitted_def ve_policy_weight_def info_of_def

end
