(* ===== verification/Timer_Wheel.thy ===== *)
theory Timer_Wheel
  imports Concurrent
begin

text \<open>
  The hierarchical timer wheel (\<open>src/src/common/timer_wheel.rs\<close>): five levels of buckets, each
  bucket a deque that holds a sentinel and the timer nodes of the entries that expire in the
  bucket's span. Loops that the source writes with \<open>loop\<close> or \<open>while\<close> are partial functions in
  the option type, so that not returning is the same value as a panic, and returning is
  something to be proved.
\<close>

section \<open>Constants\<close>

definition BUCKET_COUNTS :: "u64 list" where
  "BUCKET_COUNTS = [64, 64, 32, 4, 1]"

definition OVERFLOW_QUEUE_INDEX :: nat where
  "OVERFLOW_QUEUE_INDEX = length BUCKET_COUNTS - 1"

definition NUM_LEVELS :: nat where
  "NUM_LEVELS = OVERFLOW_QUEUE_INDEX - 1"

definition DAY :: duration where
  "DAY = 60 * 60 * 24 * 1000000000"

definition aligned_duration :: "duration \<Rightarrow> u64" where
  "aligned_duration d = word_of_nat (next_power_of_two (unat (word_of_nat d :: u64)))"

definition SPANS :: "u64 list" where
  "SPANS =
     [aligned_duration (1 * 1000000000),
      aligned_duration (60 * 1000000000),
      aligned_duration (60 * 60 * 1000000000),
      aligned_duration DAY,
      BUCKET_COUNTS ! 3 * aligned_duration DAY,
      BUCKET_COUNTS ! 3 * aligned_duration DAY]"

definition trailing_zeros :: "u64 \<Rightarrow> nat" where
  "trailing_zeros x = length (takeWhile (\<lambda>n. \<not> bit x n) [0..<64])"

definition SHIFT :: "nat list" where
  "SHIFT = map trailing_zeros (take 5 SPANS)"

section \<open>Timer nodes\<close>

definition timer_node_new :: "info_id \<Rightarrow> nodes_id \<Rightarrow> u32 \<Rightarrow> nat \<Rightarrow> nat \<Rightarrow> timer_node" where
  "timer_node_new info nodes gen level index =
     TimerEntry (Some (word_of_nat level, word_of_nat index)) gen info nodes"

fun position :: "timer_node \<Rightarrow> (nat \<times> nat) option or_panic" where
  "position (TimerEntry pos g i n) = Some (map_option (\<lambda>(l, x). (unat l, unat x)) pos)"
| "position Sentinel = None"

fun set_position :: "nat \<Rightarrow> nat \<Rightarrow> timer_node \<Rightarrow> timer_node or_panic" where
  "set_position level index (TimerEntry pos g i n) =
     Some (TimerEntry (Some (word_of_nat level, word_of_nat index)) g i n)"
| "set_position level index Sentinel = None"

fun unset_position :: "timer_node \<Rightarrow> timer_node or_panic" where
  "unset_position (TimerEntry pos g i n) = Some (TimerEntry None g i n)"
| "unset_position Sentinel = None"

definition is_sentinel :: "timer_node \<Rightarrow> bool" where
  "is_sentinel t = (t = Sentinel)"

fun timer_entry_info :: "timer_node \<Rightarrow> info_id or_panic" where
  "timer_entry_info (TimerEntry pos g i n) = Some i"
| "timer_entry_info Sentinel = None"

fun unset_timer_node_in_deq_nodes :: "timer_node \<Rightarrow> 'k store \<Rightarrow> 'k store or_panic" where
  "unset_timer_node_in_deq_nodes (TimerEntry pos g i n) st =
     Some (upd_nodes n (dns_set_timer_node None 0) st)"
| "unset_timer_node_in_deq_nodes Sentinel st = None"

fun timer_expiry_gen :: "timer_node \<Rightarrow> u32" where
  "timer_expiry_gen (TimerEntry pos g i n) = g"
| "timer_expiry_gen Sentinel = 0"

section \<open>The wheel\<close>

datatype rescheduling_result = RRescheduled | RRemoved addr

record timer_wheel =
  tw_wheels :: "adeq list list"
  tw_origin :: instant
  tw_current :: instant

definition tw_new :: "instant \<Rightarrow> timer_wheel" where
  "tw_new now = \<lparr>tw_wheels = [], tw_origin = now, tw_current = now\<rparr>"

definition tw_is_enabled :: "timer_wheel \<Rightarrow> bool" where
  "tw_is_enabled tw \<longleftrightarrow> tw_wheels tw \<noteq> []"

fun new_buckets :: "nat \<Rightarrow> 'k store \<Rightarrow> 'k store \<times> adeq list" where
  "new_buckets 0 st = (st, [])"
| "new_buckets (Suc n) st =
     (let (st, a) = alloc_timer Sentinel st;
          deq = ad_push_back a (ad_new Other);
          (st, deqs) = new_buckets n st
      in (st, deq # deqs))"

fun new_wheels :: "u64 list \<Rightarrow> 'k store \<Rightarrow> 'k store \<times> adeq list list" where
  "new_wheels [] st = (st, [])"
| "new_wheels (b # bs) st =
     (let (st, deqs) = new_buckets (unat b) st; (st, wheels) = new_wheels bs st
      in (st, deqs # wheels))"

definition tw_enable :: "'k store \<Rightarrow> timer_wheel \<Rightarrow> ('k store \<times> timer_wheel) or_panic" where
  "tw_enable st tw =
     (if tw_is_enabled tw then None
      else let (st, wheels) = new_wheels BUCKET_COUNTS st
           in Some (st, tw\<lparr>tw_wheels := wheels\<rparr>))"

definition wheel :: "timer_wheel \<Rightarrow> nat \<Rightarrow> nat \<Rightarrow> adeq or_panic" where
  "wheel tw level index = do { w \<leftarrow> idx (tw_wheels tw) level; idx w index }"

definition set_wheel :: "nat \<Rightarrow> nat \<Rightarrow> adeq \<Rightarrow> timer_wheel \<Rightarrow> timer_wheel" where
  "set_wheel level index q tw =
     tw\<lparr>tw_wheels := (tw_wheels tw)[level := (tw_wheels tw ! level)[index := q]]\<rparr>"

definition duration_nanos_since_last_advanced :: "timer_wheel \<Rightarrow> instant \<Rightarrow> u64" where
  "duration_nanos_since_last_advanced tw time =
     word_of_nat (saturating_duration_since time (tw_current tw))"

definition time_nanos :: "timer_wheel \<Rightarrow> instant \<Rightarrow> u64" where
  "time_nanos tw time =
     (let nanos = saturating_duration_since time (tw_origin tw)
      in if nanos < 2 ^ 64 then word_of_nat nanos else - 1)"

fun find_bucket :: "u64 \<Rightarrow> u64 \<Rightarrow> nat list \<Rightarrow> (nat \<times> nat) or_panic" where
  "find_bucket duration_nanos nanos [] = Some (OVERFLOW_QUEUE_INDEX, 0)"
| "find_bucket duration_nanos nanos (level # levels) =
     do { span \<leftarrow> idx SPANS (level + 1);
          if duration_nanos < span then
            do { shift \<leftarrow> idx SHIFT level;
                 buckets \<leftarrow> idx BUCKET_COUNTS level;
                 let ticks = drop_bit shift nanos;
                 Some (level, unat (ticks AND (buckets - 1))) }
          else find_bucket duration_nanos nanos levels }"

definition bucket_indices :: "timer_wheel \<Rightarrow> instant \<Rightarrow> (nat \<times> nat) or_panic" where
  "bucket_indices tw time =
     find_bucket (duration_nanos_since_last_advanced tw time) (time_nanos tw time) [0..<NUM_LEVELS + 1]"

definition schedule ::
  "info_id \<Rightarrow> nodes_id \<Rightarrow> u32 \<Rightarrow> 'k store \<Rightarrow> timer_wheel \<Rightarrow> ('k store \<times> timer_wheel \<times> addr option) or_panic" where
  "schedule info nodes expiry_gen st tw =
     (let (opt_time, current_gen) = expiration_state (st_infos st info)
      in if current_gen \<noteq> expiry_gen then Some (st, tw, None)
         else case opt_time of
             None \<Rightarrow> Some (st, tw, None)
           | Some t \<Rightarrow>
               do { (level, index) \<leftarrow> bucket_indices tw t;
                    let (st, node) = alloc_timer (timer_node_new info nodes expiry_gen level index) st;
                    q \<leftarrow> wheel tw level index;
                    Some (st, set_wheel level index (ad_push_back node q) tw, Some node) })"

definition set_timer :: "addr \<Rightarrow> timer_node \<Rightarrow> 'k store \<Rightarrow> 'k store" where
  "set_timer a t st = st\<lparr>st_timers := (st_timers st)(a \<mapsto> t)\<rparr>"

definition schedule_existing_node ::
  "addr \<Rightarrow> 'k store \<Rightarrow> timer_wheel \<Rightarrow> ('k store \<times> timer_wheel \<times> rescheduling_result) or_panic" where
  "schedule_existing_node node st tw =
     do { entry \<leftarrow> st_timers st node;
          info \<leftarrow> timer_entry_info entry;
          case fst (expiration_state (st_infos st info)) of
            Some t \<Rightarrow>
              do { (level, index) \<leftarrow> bucket_indices tw t;
                   entry \<leftarrow> set_position level index entry;
                   let st = set_timer node entry st;
                   q \<leftarrow> wheel tw level index;
                   Some (st, set_wheel level index (ad_push_back node q) tw, RRescheduled) }
          | None \<Rightarrow>
              do { entry \<leftarrow> unset_position entry;
                   let st = set_timer node entry st;
                   st \<leftarrow> unset_timer_node_in_deq_nodes entry st;
                   Some (st, tw, RRemoved node) } }"

definition unlink_timer :: "addr \<Rightarrow> 'k store \<Rightarrow> timer_wheel \<Rightarrow> ('k store \<times> timer_wheel \<times> bool) or_panic" where
  "unlink_timer node st tw =
     do { entry \<leftarrow> st_timers st node;
          if is_sentinel entry then Some (st, tw, False)
          else do {
            pos \<leftarrow> position entry;
            case pos of
              None \<Rightarrow> Some (st, tw, True)
            | Some (level, index) \<Rightarrow>
                do { q \<leftarrow> wheel tw level index;
                     q \<leftarrow> ad_unlink node q;
                     entry \<leftarrow> unset_position entry;
                     Some (set_timer node entry st, set_wheel level index q tw, True) } } }"

definition reschedule ::
  "addr \<Rightarrow> u32 \<Rightarrow> 'k store \<Rightarrow> timer_wheel \<Rightarrow> ('k store \<times> timer_wheel \<times> rescheduling_result option) or_panic" where
  "reschedule node expected_expiry_gen st tw =
     do { p \<leftarrow> st_timers st node;
          if timer_expiry_gen p \<noteq> expected_expiry_gen then Some (st, tw, None)
          else do {
            (st, tw, unlinked) \<leftarrow> unlink_timer node st tw;
            if unlinked then
              do { (st, tw, r) \<leftarrow> schedule_existing_node node st tw; Some (st, tw, Some r) }
            else Some (st, tw, None) } }"

definition deschedule :: "addr \<Rightarrow> u32 \<Rightarrow> 'k store \<Rightarrow> timer_wheel \<Rightarrow> ('k store \<times> timer_wheel \<times> bool) or_panic" where
  "deschedule node expected_expiry_gen st tw =
     do { p \<leftarrow> st_timers st node;
          if timer_expiry_gen p \<noteq> expected_expiry_gen then Some (st, tw, False)
          else do {
            (st, tw, unlinked) \<leftarrow> unlink_timer node st tw;
            if unlinked then Some (free_timer node st, tw, True) else Some (st, tw, False) } }"

definition pop_timer_node ::
  "nat \<Rightarrow> nat \<Rightarrow> 'k store \<Rightarrow> timer_wheel \<Rightarrow> ('k store \<times> timer_wheel \<times> addr option) or_panic" where
  "pop_timer_node level index st tw =
     do { q \<leftarrow> wheel tw level index;
          front \<leftarrow> (case ad_peek_front q of
                     None \<Rightarrow> Some False
                   | Some a \<Rightarrow> do { n \<leftarrow> st_timers st a; Some (is_sentinel n) });
          if front then Some (st, tw, None)
          else (let (q, popped) = ad_pop_front q; tw = set_wheel level index q tw
                in case popped of
                     None \<Rightarrow> Some (st, tw, None)
                   | Some a \<Rightarrow>
                       do { n \<leftarrow> st_timers st a;
                            n \<leftarrow> unset_position n;
                            Some (set_timer a n st, tw, Some a) }) }"

text \<open>The loop of \<open>reset_timer_node_positions\<close>: rotate until the sentinel is at the back.\<close>

partial_function (option) rotate_to_sentinel :: "(addr \<rightharpoonup> timer_node) \<Rightarrow> adeq \<Rightarrow> adeq or_panic" where
  "rotate_to_sentinel timers deq =
     do { a \<leftarrow> ad_peek_back deq;
          n \<leftarrow> timers a;
          if is_sentinel n then Some deq
          else do { deq \<leftarrow> ad_move_front_to_back deq; rotate_to_sentinel timers deq } }"

definition reset_timer_node_positions :: "nat \<Rightarrow> nat \<Rightarrow> 'k store \<Rightarrow> timer_wheel \<Rightarrow> timer_wheel or_panic" where
  "reset_timer_node_positions level index st tw =
     do { q \<leftarrow> wheel tw level index;
          q \<leftarrow> rotate_to_sentinel (st_timers st) q;
          Some (set_wheel level index q tw) }"

section \<open>Advancing the wheel\<close>

datatype timer_event = Expired addr | Rescheduled | Descheduled

record timer_events_iter =
  it_previous_time :: instant
  it_current_time :: instant
  it_is_done :: bool
  it_level :: nat
  it_index :: u8
  it_end_index :: u8
  it_index_mask :: u64
  it_is_new_level :: bool
  it_is_new_index :: bool

definition timer_events_iter_new :: "instant \<Rightarrow> instant \<Rightarrow> timer_events_iter" where
  "timer_events_iter_new previous_time current_time =
     \<lparr>it_previous_time = previous_time, it_current_time = current_time, it_is_done = False,
      it_level = 0, it_index = 0, it_end_index = 0, it_index_mask = 0,
      it_is_new_level = True, it_is_new_index = True\<rparr>"

definition advance :: "instant \<Rightarrow> timer_wheel \<Rightarrow> timer_wheel \<times> timer_events_iter" where
  "advance current_time tw =
     (let previous_time = tw_current tw
      in (tw\<lparr>tw_current := current_time\<rparr>, timer_events_iter_new previous_time current_time))"

text \<open>\<open>Drop for TimerEventsIter\<close>.\<close>

definition drop_timer_events_iter :: "timer_events_iter \<Rightarrow> timer_wheel \<Rightarrow> timer_wheel" where
  "drop_timer_events_iter it tw =
     (if it_is_done it then tw else tw\<lparr>tw_current := it_previous_time it\<rparr>)"

text \<open>\<open>TimerEventsIter::next\<close>. One iteration of its loop either returns or continues.\<close>

datatype 'r loop_step = Continue | Return 'r

definition enter_level :: "timer_wheel \<Rightarrow> timer_events_iter \<Rightarrow> (timer_events_iter \<times> bool) or_panic" where
  "enter_level tw it =
     do { shift \<leftarrow> idx SHIFT (it_level it);
          buckets \<leftarrow> idx BUCKET_COUNTS (it_level it);
          let previous_ticks = drop_bit shift (time_nanos tw (it_previous_time it));
          let current_ticks = drop_bit shift (time_nanos tw (it_current_time it));
          if current_ticks \<le> previous_ticks then Some (it\<lparr>it_is_done := True\<rparr>, False)
          else (let mask = buckets - 1;
                    index = ucast (previous_ticks AND mask);
                    steps = ucast (min (current_ticks - previous_ticks + 1) buckets)
                in Some (it\<lparr>it_index_mask := mask, it_index := index, it_end_index := index + steps,
                            it_is_new_level := False, it_is_new_index := True\<rparr>, True)) }"

definition handle_popped ::
  "addr \<Rightarrow> timer_events_iter \<Rightarrow> 'k store \<Rightarrow> timer_wheel \<Rightarrow>
    ('k store \<times> timer_wheel \<times> timer_event option loop_step) or_panic" where
  "handle_popped node it st tw =
     do { entry \<leftarrow> st_timers st node;
          info \<leftarrow> timer_entry_info entry;
          case fst (expiration_state (st_infos st info)) of
            Some t \<Rightarrow>
              if t \<le> it_current_time it then
                do { st \<leftarrow> unset_timer_node_in_deq_nodes entry st;
                     Some (st, tw, Return (Some (Expired node))) }
              else
                do { (st, tw, r) \<leftarrow> schedule_existing_node node st tw;
                     case r of
                       RRescheduled \<Rightarrow> Some (st, tw, Return (Some Rescheduled))
                     | RRemoved node \<Rightarrow>
                         do { entry \<leftarrow> st_timers st node;
                              st \<leftarrow> unset_timer_node_in_deq_nodes entry st;
                              Some (free_timer node st, tw, Return (Some Descheduled)) } }
          | None \<Rightarrow>
              do { st \<leftarrow> unset_timer_node_in_deq_nodes entry st;
                   Some (free_timer node st, tw, Continue) } }"

definition next_index :: "timer_events_iter \<Rightarrow> timer_events_iter \<times> timer_event option loop_step" where
  "next_index it =
     (let it = it\<lparr>it_index := it_index it + 1, it_is_new_index := True\<rparr>
      in if it_index it \<ge> it_end_index it then
           let it = it\<lparr>it_level := it_level it + 1\<rparr>
           in if it_level it \<ge> length BUCKET_COUNTS then (it\<lparr>it_is_done := True\<rparr>, Return None)
              else (it\<lparr>it_is_new_level := True\<rparr>, Continue)
         else (it, Continue))"

definition iter_body ::
  "'k store \<times> timer_wheel \<times> timer_events_iter \<Rightarrow>
    (('k store \<times> timer_wheel \<times> timer_events_iter) \<times> timer_event option loop_step) or_panic" where
  "iter_body s =
     (let (st, tw, it) = s
      in do { (it, go) \<leftarrow> (if it_is_new_level it then enter_level tw it else Some (it, True));
              if \<not> go then Some ((st, tw, it), Return None)
              else do {
                let i = unat (it_index it AND ucast (it_index_mask it));
                (tw, it) \<leftarrow>
                  (if it_is_new_index it then
                     do { tw \<leftarrow> reset_timer_node_positions (it_level it) i st tw;
                          Some (tw, it\<lparr>it_is_new_index := False\<rparr>) }
                   else Some (tw, it));
                (st, tw, popped) \<leftarrow> pop_timer_node (it_level it) i st tw;
                case popped of
                  Some node \<Rightarrow>
                    do { (st, tw, r) \<leftarrow> handle_popped node it st tw; Some ((st, tw, it), r) }
                | None \<Rightarrow> (let (it, r) = next_index it in Some ((st, tw, it), r)) } })"

partial_function (option) iter_loop ::
  "'k store \<times> timer_wheel \<times> timer_events_iter \<Rightarrow>
    (('k store \<times> timer_wheel \<times> timer_events_iter) \<times> timer_event option) or_panic" where
  "iter_loop s =
     do { (s, r) \<leftarrow> iter_body s;
          case r of Continue \<Rightarrow> iter_loop s | Return e \<Rightarrow> Some (s, e) }"

definition timer_next ::
  "'k store \<times> timer_wheel \<times> timer_events_iter \<Rightarrow>
    (('k store \<times> timer_wheel \<times> timer_events_iter) \<times> timer_event option) or_panic" where
  "timer_next s = (if it_is_done (snd (snd s)) then Some (s, None) else iter_loop s)"

section \<open>The constants\<close>

lemma aligned_eq:
  assumes "d \<le> 2 ^ k" "2 ^ k < 2 * d" "k < 64"
  shows "aligned_duration d = 2 ^ k"
proof -
  have "(2::nat) ^ k \<le> 2 ^ 63" using assms(3) by (intro power_increasing) auto
  then have "d < 2 ^ 64" using assms(1) by simp
  then have "unat (word_of_nat d :: u64) = d" by (simp add: unat_of_nat_small)
  then show ?thesis
    by (simp add: aligned_duration_def next_power_of_two_eq[OF assms(1,2)])
qed

lemma SPANS_eq: "SPANS = [2 ^ 30, 2 ^ 36, 2 ^ 42, 2 ^ 47, 2 ^ 49, 2 ^ 49]"
proof -
  have "aligned_duration (1 * 1000000000) = 2 ^ 30" by (rule aligned_eq) simp_all
  moreover have "aligned_duration (60 * 1000000000) = 2 ^ 36" by (rule aligned_eq) simp_all
  moreover have "aligned_duration (60 * 60 * 1000000000) = 2 ^ 42" by (rule aligned_eq) simp_all
  moreover have "aligned_duration DAY = 2 ^ 47" unfolding DAY_def by (rule aligned_eq) simp_all
  ultimately show ?thesis by (simp only: SPANS_def) (simp add: BUCKET_COUNTS_def)
qed

lemma trailing_zeros_pow: "k < 64 \<Longrightarrow> trailing_zeros (2 ^ k) = k"
proof -
  assume k: "k < 64"
  have "[0..<64] = [0..<k] @ k # [Suc k..<64]" using k upt_add_eq_append[of 0 k "64 - k"] by (simp add: upt_conv_Cons)
  moreover have "takeWhile (\<lambda>n. \<not> bit (2 ^ k :: u64) n) ([0..<k] @ k # [Suc k..<64]) = [0..<k]"
    using k by (subst takeWhile_append2) (auto simp: bit_exp_iff)
  ultimately show ?thesis by (simp add: trailing_zeros_def)
qed

lemma SHIFT_eq: "SHIFT = [30, 36, 42, 47, 49]"
  using trailing_zeros_pow[of 30] trailing_zeros_pow[of 36] trailing_zeros_pow[of 42]
    trailing_zeros_pow[of 47] trailing_zeros_pow[of 49]
  by (simp add: SHIFT_def SPANS_eq)

section \<open>Ticks and buckets\<close>

definition bcount :: "nat \<Rightarrow> nat" where
  "bcount l = unat (BUCKET_COUNTS ! l)"

definition in_range :: "nat \<Rightarrow> nat \<Rightarrow> bool" where
  "in_range l i \<longleftrightarrow> l < 5 \<and> i < bcount l"

definition tick :: "timer_wheel \<Rightarrow> nat \<Rightarrow> instant \<Rightarrow> nat" where
  "tick tw l t = (unat (elapsed_ns t) - unat (elapsed_ns (tw_origin tw))) div 2 ^ (SHIFT ! l)"

lemma bcount_simps:
  "bcount 0 = 64" "bcount (Suc 0) = 64" "bcount 2 = 32" "bcount 3 = 4" "bcount 4 = 1"
  by (simp_all add: bcount_def BUCKET_COUNTS_def)

lemma level_cases:
  "l < 5 \<Longrightarrow> l = 0 \<or> l = Suc 0 \<or> l = 2 \<or> l = 3 \<or> l = 4"
  by arith

lemma bcount_bounds: "l < 5 \<Longrightarrow> 0 < bcount l \<and> bcount l \<le> 64"
  using level_cases[of l] by (auto simp: bcount_simps)

lemma unat_time_nanos: "unat (time_nanos tw t) = unat (elapsed_ns t) - unat (elapsed_ns (tw_origin tw))"
proof -
  have "unat (elapsed_ns t) - unat (elapsed_ns (tw_origin tw)) < 2 ^ 64"
    using unat_lt_pow[of "elapsed_ns t"] by (simp add: less_imp_diff_less)
  then show ?thesis
    by (simp add: time_nanos_def saturating_duration_since_unat Let_def unat_of_nat_small)
qed

lemma unat_duration_nanos:
  "unat (duration_nanos_since_last_advanced tw t) = unat (elapsed_ns t) - unat (elapsed_ns (tw_current tw))"
proof -
  have "unat (elapsed_ns t) - unat (elapsed_ns (tw_current tw)) < 2 ^ 64"
    using unat_lt_pow[of "elapsed_ns t"] by (simp add: less_imp_diff_less)
  then show ?thesis
    by (simp add: duration_nanos_since_last_advanced_def saturating_duration_since_unat unat_of_nat_small)
qed

lemma unat_drop_bit: "unat (drop_bit n (x :: 'a::len word)) = unat x div 2 ^ n"
  unfolding unat_drop_bit_eq by (rule drop_bit_eq_div)

lemma unat_drop_time_nanos: "unat (drop_bit (SHIFT ! l) (time_nanos tw t)) = tick tw l t"
  by (simp add: unat_drop_bit unat_time_nanos tick_def)

text \<open>The mask of a level selects the tick modulo the number of buckets.\<close>

lemma and_bucket_mask:
  assumes "l < 5"
  shows "unat (x AND (BUCKET_COUNTS ! l - 1)) = unat x mod bcount l"
proof -
  have "\<exists>k. BUCKET_COUNTS ! l - 1 = mask k \<and> bcount l = 2 ^ k"
    using level_cases[OF assms]
    by (elim disjE) (auto simp: BUCKET_COUNTS_def bcount_simps mask_eq_exp_minus_1
        intro: exI[of _ 6] exI[of _ 5] exI[of _ 2] exI[of _ 0])
  then obtain k where k: "BUCKET_COUNTS ! l - 1 = mask k" "bcount l = 2 ^ k" by blast
  show ?thesis unfolding k take_bit_eq_mask[symmetric] by (rule unat_take_bit)
qed

text \<open>The level is chosen by the time that is left, the index by the tick on that level.\<close>

definition place :: "timer_wheel \<Rightarrow> instant \<Rightarrow> nat \<times> nat" where
  "place tw t =
     (let d = unat (elapsed_ns t) - unat (elapsed_ns (tw_current tw));
          l = (if d < 2 ^ 36 then 0 else if d < 2 ^ 42 then 1 else if d < 2 ^ 47 then 2
               else if d < 2 ^ 49 then 3 else 4)
      in (l, if l < 4 then tick tw l t mod bcount l else 0))"

lemma find_bucket_step:
  "l < 4 \<Longrightarrow> find_bucket d n (l # ls) =
     (if d < SPANS ! Suc l then Some (l, unat (drop_bit (SHIFT ! l) n) mod bcount l)
      else find_bucket d n ls)"
  using and_bucket_mask[of l "drop_bit (SHIFT ! l) n"]
  by (simp add: idx_def SPANS_eq SHIFT_eq BUCKET_COUNTS_def Let_def)

lemma bucket_indices_eq: "bucket_indices tw t = Some (place tw t)"
proof -
  let ?d = "duration_nanos_since_last_advanced tw t"
  let ?u = "unat (elapsed_ns t) - unat (elapsed_ns (tw_current tw))"
  have sp: "SPANS ! Suc 0 = 2 ^ 36" "SPANS ! Suc 1 = 2 ^ 42" "SPANS ! Suc 2 = 2 ^ 47" "SPANS ! Suc 3 = 2 ^ 49"
    by (simp_all add: SPANS_eq)
  have d: "?d < SPANS ! Suc 0 \<longleftrightarrow> ?u < 2 ^ 36" "?d < SPANS ! Suc 1 \<longleftrightarrow> ?u < 2 ^ 42"
      "?d < SPANS ! Suc 2 \<longleftrightarrow> ?u < 2 ^ 47" "?d < SPANS ! Suc 3 \<longleftrightarrow> ?u < 2 ^ 49"
    unfolding sp by (simp_all add: word_less_nat_alt unat_duration_nanos)
  have "[0..<NUM_LEVELS + 1] = [0, 1, 2, 3]"
    by (simp add: NUM_LEVELS_def OVERFLOW_QUEUE_INDEX_def BUCKET_COUNTS_def upt_rec)
  moreover have "OVERFLOW_QUEUE_INDEX = 4" by (simp add: OVERFLOW_QUEUE_INDEX_def BUCKET_COUNTS_def)
  ultimately have "bucket_indices tw t =
      (if ?u < 2 ^ 36 then Some (0, tick tw 0 t mod bcount 0)
       else if ?u < 2 ^ 42 then Some (1, tick tw 1 t mod bcount 1)
       else if ?u < 2 ^ 47 then Some (2, tick tw 2 t mod bcount 2)
       else if ?u < 2 ^ 49 then Some (3, tick tw 3 t mod bcount 3) else Some (4, 0))"
    by (simp only: bucket_indices_def find_bucket_step d unat_drop_time_nanos find_bucket.simps(1))
  also have "\<dots> = Some (place tw t)" by (simp add: place_def Let_def)
  finally show ?thesis .
qed

lemma place_in_range: "place tw t = (l, i) \<Longrightarrow> in_range l i"
  by (auto simp: place_def Let_def in_range_def bcount_simps split: if_splits)

lemma place_index: "place tw t = (l, i) \<Longrightarrow> i = tick tw l t mod bcount l"
  by (auto simp: place_def Let_def bcount_simps split: if_splits)

lemma tick_mono: "t \<le> t' \<Longrightarrow> tick tw l t \<le> tick tw l t'"
  by (auto simp: tick_def instant_le_unat intro!: div_le_mono)

lemma place_tick:
  assumes "place tw t = (l, i)" "tw_origin tw \<le> tw_current tw" "tw_current tw \<le> t"
  shows "tick tw l (tw_current tw) \<le> tick tw l t" "0 < l \<Longrightarrow> tick tw l (tw_current tw) < tick tw l t"
proof -
  let ?c = "unat (elapsed_ns (tw_current tw))" and ?o = "unat (elapsed_ns (tw_origin tw))"
    and ?t = "unat (elapsed_ns t)"
  show "tick tw l (tw_current tw) \<le> tick tw l t" by (rule tick_mono[OF assms(3)])
  assume "0 < l"
  then have "2 ^ (SHIFT ! l) \<le> ?t - ?c"
    using assms(1) by (auto simp: place_def Let_def SHIFT_eq split: if_splits)
  moreover have "?o \<le> ?c" "?c \<le> ?t" using assms(2,3) by (simp_all add: instant_le_unat)
  ultimately have "?c - ?o + 2 ^ (SHIFT ! l) \<le> ?t - ?o" by linarith
  then have "(?c - ?o + 2 ^ (SHIFT ! l)) div 2 ^ (SHIFT ! l) \<le> (?t - ?o) div 2 ^ (SHIFT ! l)"
    by (rule div_le_mono)
  moreover have "(?c - ?o + 2 ^ (SHIFT ! l)) div 2 ^ (SHIFT ! l) = (?c - ?o) div 2 ^ (SHIFT ! l) + 1"
    by (rule div_add_self2) simp
  ultimately show "tick tw l (tw_current tw) < tick tw l t" unfolding tick_def by linarith
qed

section \<open>The invariant of the wheel\<close>

definition bkt :: "timer_wheel \<Rightarrow> nat \<Rightarrow> nat \<Rightarrow> adeq" where
  "bkt tw l i = tw_wheels tw ! l ! i"

definition tw_shape :: "timer_wheel \<Rightarrow> bool" where
  "tw_shape tw \<longleftrightarrow> length (tw_wheels tw) = 5 \<and> (\<forall>l < 5. length (tw_wheels tw ! l) = bcount l)"

lemma tw_shape_enabled: "tw_shape tw \<Longrightarrow> tw_is_enabled tw"
  by (auto simp: tw_shape_def tw_is_enabled_def)

lemma wheel_bkt: "tw_shape tw \<Longrightarrow> in_range l i \<Longrightarrow> wheel tw l i = Some (bkt tw l i)"
  by (simp add: wheel_def bkt_def in_range_def tw_shape_def idx_def)

lemma tw_shape_set_wheel [simp]: "tw_shape tw \<Longrightarrow> tw_shape (set_wheel l i q tw)"
  by (cases "l < 5") (auto simp: tw_shape_def set_wheel_def nth_list_update)

lemma bkt_set_wheel:
  "tw_shape tw \<Longrightarrow> in_range l i \<Longrightarrow>
   bkt (set_wheel l i q tw) l' i' = (if l' = l \<and> i' = i then q else bkt tw l' i')"
  by (auto simp: bkt_def set_wheel_def in_range_def tw_shape_def nth_list_update)

lemma set_wheel_sel [simp]:
  "tw_origin (set_wheel l i q tw) = tw_origin tw" "tw_current (set_wheel l i q tw) = tw_current tw"
  by (simp_all add: set_wheel_def)

lemma in_range_unat:
  "in_range l i \<Longrightarrow> unat (word_of_nat l :: u8) = l \<and> unat (word_of_nat i :: u8) = i"
  using bcount_bounds[of l] by (simp add: in_range_def unat_of_nat_small)

text \<open>A node that is in bucket \<open>i\<close> of level \<open>l\<close> on behalf of an entry knows its position, and the
  entry points back to it with the same generation.\<close>

definition timer_at :: "'k store \<Rightarrow> addr \<Rightarrow> nat \<Rightarrow> nat \<Rightarrow> info_id \<Rightarrow> bool" where
  "timer_at st a l i info \<longleftrightarrow>
     st_timers st a =
       Some (TimerEntry (Some (word_of_nat l, word_of_nat i))
              (dns_timer_node_expiry_gen (st_nodes st (Suc info))) info (Suc info)) \<and>
     dns_timer_node (st_nodes st (Suc info)) = Some a"

definition bucket_ok :: "'k store \<Rightarrow> nat \<Rightarrow> nat \<Rightarrow> adeq \<Rightarrow> bool" where
  "bucket_ok st l i q \<longleftrightarrow> ad_ok q \<and>
     (\<exists>s \<in> set (ad_nodes q). st_timers st s = Some Sentinel \<and>
        (\<forall>a \<in> set (ad_nodes q) - {s}. \<exists>info. timer_at st a l i info))"

text \<open>\<open>wheel_inv F\<close>: the buckets are well formed, and the timer pointers of the entries other
  than those in \<open>F\<close> point into the buckets.\<close>

definition wheel_inv :: "nodes_id set \<Rightarrow> 'k store \<Rightarrow> timer_wheel \<Rightarrow> bool" where
  "wheel_inv F st tw \<longleftrightarrow>
     (tw_is_enabled tw \<longrightarrow> tw_shape tw) \<and>
     (\<forall>l i. tw_is_enabled tw \<longrightarrow> in_range l i \<longrightarrow> bucket_ok st l i (bkt tw l i)) \<and>
     (\<forall>n a. dns_timer_node (st_nodes st n) = Some a \<longrightarrow> n \<notin> F \<longrightarrow>
        tw_is_enabled tw \<and>
        (\<exists>l i info. n = Suc info \<and> in_range l i \<and> timer_at st a l i info \<and> a \<in> set (ad_nodes (bkt tw l i)))) \<and>
     (\<forall>a t. st_timers st a = Some t \<longrightarrow> a < st_next_addr st) \<and>
     tw_origin tw \<le> tw_current tw"

abbreviation wheel_ok :: "'k store \<Rightarrow> timer_wheel \<Rightarrow> bool" where
  "wheel_ok \<equiv> wheel_inv {}"

lemma wheel_invD:
  assumes "wheel_inv F st tw"
  shows "tw_is_enabled tw \<Longrightarrow> tw_shape tw"
    and "tw_is_enabled tw \<Longrightarrow> in_range l i \<Longrightarrow> bucket_ok st l i (bkt tw l i)"
    and "dns_timer_node (st_nodes st n) = Some a \<Longrightarrow> n \<notin> F \<Longrightarrow>
        tw_is_enabled tw \<and>
        (\<exists>l i info. n = Suc info \<and> in_range l i \<and> timer_at st a l i info \<and> a \<in> set (ad_nodes (bkt tw l i)))"
    and "st_timers st a = Some t \<Longrightarrow> a < st_next_addr st"
    and "tw_origin tw \<le> tw_current tw"
  using assms by (auto simp: wheel_inv_def)

lemma wheel_invI:
  assumes "tw_is_enabled tw \<Longrightarrow> tw_shape tw"
    and "\<And>l i. tw_is_enabled tw \<Longrightarrow> in_range l i \<Longrightarrow> bucket_ok st l i (bkt tw l i)"
    and "\<And>n a. dns_timer_node (st_nodes st n) = Some a \<Longrightarrow> n \<notin> F \<Longrightarrow>
        tw_is_enabled tw \<and>
        (\<exists>l i info. n = Suc info \<and> in_range l i \<and> timer_at st a l i info \<and> a \<in> set (ad_nodes (bkt tw l i)))"
    and "\<And>a t. st_timers st a = Some t \<Longrightarrow> a < st_next_addr st"
    and "tw_origin tw \<le> tw_current tw"
  shows "wheel_inv F st tw"
  using assms by (simp add: wheel_inv_def)

lemma wheel_inv_ptrE:
  assumes "wheel_inv F st tw" "dns_timer_node (st_nodes st n) = Some a" "n \<notin> F"
  obtains l i info where "n = Suc info" "in_range l i" "timer_at st a l i info"
    "a \<in> set (ad_nodes (bkt tw l i))" "tw_is_enabled tw"
  using wheel_invD(3)[OF assms] by blast

text \<open>The invariant depends on the timer nodes and on the timer pointers of the store only.\<close>

lemma wheel_inv_frame:
  assumes "wheel_inv F st tw" "st_timers st' = st_timers st" "st_next_addr st \<le> st_next_addr st'"
    and "\<And>n. dns_timer_node (st_nodes st' n) = dns_timer_node (st_nodes st n) \<and>
       dns_timer_node_expiry_gen (st_nodes st' n) = dns_timer_node_expiry_gen (st_nodes st n)"
  shows "wheel_inv F st' tw"
proof -
  have "timer_at st' = timer_at st" using assms(2,4) by (simp add: timer_at_def fun_eq_iff)
  then have "bucket_ok st' = bucket_ok st" using assms(2) by (simp add: bucket_ok_def fun_eq_iff)
  with \<open>timer_at st' = timer_at st\<close> show ?thesis
    using assms by (fastforce simp: wheel_inv_def)
qed

text \<open>A bucket keeps its shape when nodes that are not in it change, provided that no entry of
  the bucket is among those whose pointers change.\<close>

lemma bucket_ok_frame:
  assumes "bucket_ok st l i q"
    and "\<And>a. a \<in> set (ad_nodes q) \<Longrightarrow> st_timers st' a = st_timers st a"
    and "\<And>a info. a \<in> set (ad_nodes q) \<Longrightarrow> timer_at st a l i info \<Longrightarrow>
      dns_timer_node (st_nodes st' (Suc info)) = dns_timer_node (st_nodes st (Suc info)) \<and>
      dns_timer_node_expiry_gen (st_nodes st' (Suc info)) = dns_timer_node_expiry_gen (st_nodes st (Suc info))"
  shows "bucket_ok st' l i q"
proof -
  obtain s where s: "ad_ok q" "s \<in> set (ad_nodes q)" "st_timers st s = Some Sentinel"
    "\<And>a. a \<in> set (ad_nodes q) - {s} \<Longrightarrow> \<exists>info. timer_at st a l i info"
    using assms(1) by (auto simp: bucket_ok_def)
  have "\<exists>info. timer_at st' a l i info" if a: "a \<in> set (ad_nodes q) - {s}" for a
  proof -
    obtain info where t: "timer_at st a l i info" using s(4)[OF a] by blast
    have "timer_at st' a l i info"
      using t assms(2)[of a] assms(3)[OF _ t] a by (simp add: timer_at_def)
    then show ?thesis by blast
  qed
  with s(1,2,3) assms(2)[OF s(2)] show ?thesis unfolding bucket_ok_def by (intro conjI bexI[of _ s] ballI) simp_all
qed

lemma timer_at_inj:
  assumes "in_range l i" "in_range l' i'" "timer_at st a l i info" "timer_at st a l' i' info'"
  shows "l = l' \<and> i = i' \<and> info = info'"
proof -
  have "(word_of_nat l :: u8) = word_of_nat l'" "(word_of_nat i :: u8) = word_of_nat i'" "info = info'"
    using assms(3,4) by (auto simp: timer_at_def)
  with in_range_unat[OF assms(1)] in_range_unat[OF assms(2)] show ?thesis by metis
qed

text \<open>A node with no position is in no bucket.\<close>

lemma unplaced_not_in_bucket:
  assumes "bucket_ok st l i q" "st_timers st a = Some (TimerEntry None g info n)"
  shows "a \<notin> set (ad_nodes q)"
proof
  assume "a \<in> set (ad_nodes q)"
  with assms(1) have "st_timers st a = Some Sentinel \<or> (\<exists>info. timer_at st a l i info)"
    by (auto simp: bucket_ok_def)
  with assms(2) show False by (auto simp: timer_at_def)
qed

section \<open>Detaching and attaching a node\<close>

lemma set_timer_sel [simp]:
  "st_timers (set_timer a t st) = (st_timers st)(a \<mapsto> t)" "st_nodes (set_timer a t st) = st_nodes st"
  "st_infos (set_timer a t st) = st_infos st" "st_khds (set_timer a t st) = st_khds st"
  "st_next_id (set_timer a t st) = st_next_id st" "st_next_addr (set_timer a t st) = st_next_addr st"
  by (simp_all add: set_timer_def)

lemma set_timer_upd_nodes: "set_timer a t (upd_nodes n f st) = upd_nodes n f (set_timer a t st)"
  by (simp add: set_timer_def upd_nodes_def)

text \<open>What the wheel leaves alone in the store.\<close>

definition timer_frame :: "'k store \<Rightarrow> 'k store \<Rightarrow> bool" where
  "timer_frame st st' \<longleftrightarrow>
     st_infos st' = st_infos st \<and> st_khds st' = st_khds st \<and> st_next_id st' = st_next_id st \<and>
     st_next_addr st \<le> st_next_addr st' \<and>
     (\<forall>n. dns_access_order_q_node (st_nodes st' n) = dns_access_order_q_node (st_nodes st n) \<and>
          dns_write_order_q_node (st_nodes st' n) = dns_write_order_q_node (st_nodes st n))"

lemma timer_frame_refl [simp]: "timer_frame st st"
  by (simp add: timer_frame_def)

lemma timer_frame_trans [trans]: "timer_frame st st' \<Longrightarrow> timer_frame st' st'' \<Longrightarrow> timer_frame st st''"
  by (auto simp: timer_frame_def)

lemma timer_frame_step [simp]:
  "timer_frame st (set_timer a t st')  = timer_frame st st'"
  "timer_frame st (free_timer a st') = timer_frame st st'"
  "timer_frame st (upd_nodes n (dns_set_timer_node p g) st') = timer_frame st st'"
  by (auto simp: timer_frame_def dns_set_timer_node_def)

lemma wheel_inv_detach:
  assumes inv: "wheel_inv F st tw" and r: "in_range l i" and en: "tw_is_enabled tw"
    and a: "timer_at st a l i info" and t: "t = TimerEntry None g info (Suc info)"
    and q: "ad_ok q" "set (ad_nodes q) = set (ad_nodes (bkt tw l i)) - {a}"
  shows "wheel_inv (insert (Suc info) F) (set_timer a t st) (set_wheel l i q tw)" (is "wheel_inv _ ?st ?tw")
proof -
  note sh = wheel_invD(1)[OF inv en]
  have same: "timer_at ?st b l' i' info'" if "timer_at st b l' i' info'" "b \<noteq> a" for b l' i' info'
    using that by (simp add: timer_at_def)
  have bucket: "bucket_ok ?st l' i' (bkt ?tw l' i')" if r': "in_range l' i'" for l' i'
  proof (cases "l' = l \<and> i' = i")
    case True
    obtain s where s: "s \<in> set (ad_nodes (bkt tw l i))" "st_timers st s = Some Sentinel"
      "\<And>b. b \<in> set (ad_nodes (bkt tw l i)) - {s} \<Longrightarrow> \<exists>info. timer_at st b l i info"
      using wheel_invD(2)[OF inv en r] unfolding bucket_ok_def by blast
    have "s \<noteq> a" using s(2) a by (auto simp: timer_at_def)
    moreover have "\<exists>info. timer_at ?st b l i info" if "b \<in> set (ad_nodes q) - {s}" for b
      using s(3)[of b] same that q(2) by blast
    ultimately have "bucket_ok ?st l i q"
      using s(1,2) q unfolding bucket_ok_def by (intro conjI bexI[of _ s] ballI) simp_all
    with True show ?thesis by (simp add: bkt_set_wheel[OF sh r])
  next
    case False
    have "a \<notin> set (ad_nodes (bkt tw l' i'))"
    proof
      assume m: "a \<in> set (ad_nodes (bkt tw l' i'))"
      have "st_timers st a \<noteq> Some Sentinel" using a by (simp add: timer_at_def)
      with m obtain info' where "timer_at st a l' i' info'"
        using wheel_invD(2)[OF inv en r'] unfolding bucket_ok_def by blast
      from timer_at_inj[OF r r' a this] False show False by simp
    qed
    then have "bucket_ok ?st l' i' (bkt tw l' i')"
      using wheel_invD(2)[OF inv en r'] by (rule_tac bucket_ok_frame) auto
    with False show ?thesis by (auto simp: bkt_set_wheel[OF sh r])
  qed
  have ptr: "tw_is_enabled ?tw \<and>
      (\<exists>l' i' info'. n = Suc info' \<and> in_range l' i' \<and> timer_at ?st b l' i' info' \<and> b \<in> set (ad_nodes (bkt ?tw l' i')))"
    if "dns_timer_node (st_nodes ?st n) = Some b" "n \<notin> insert (Suc info) F" for n b
  proof -
    have "dns_timer_node (st_nodes st n) = Some b" "n \<notin> F" using that by auto
    from wheel_inv_ptrE[OF inv this] obtain l' i' info' where b: "n = Suc info'" "in_range l' i'"
      "timer_at st b l' i' info'" "b \<in> set (ad_nodes (bkt tw l' i'))" by blast
    have "b \<noteq> a" using that b(1,3) a by (auto simp: timer_at_def)
    then have "b \<in> set (ad_nodes (bkt ?tw l' i'))" using b(4) q(2) by (auto simp: bkt_set_wheel[OF sh r])
    with b(1,2) same[OF b(3) \<open>b \<noteq> a\<close>] tw_shape_enabled[OF tw_shape_set_wheel[OF sh]] show ?thesis
      by blast
  qed
  have "b < st_next_addr ?st" if "st_timers ?st b = Some t'" for b t'
    using that wheel_invD(4)[OF inv, of a] wheel_invD(4)[OF inv, of b] a
    by (auto simp: timer_at_def split: if_splits)
  with tw_shape_set_wheel[OF sh] bucket ptr wheel_invD(5)[OF inv] show ?thesis
    by (intro wheel_invI) auto
qed

lemma wheel_inv_attach:
  assumes inv: "wheel_inv (insert (Suc info) F) st tw" and r: "in_range l i" and en: "tw_is_enabled tw"
    and a: "st_timers st a = Some (TimerEntry None g info (Suc info))"
    and p: "dns_timer_node (st_nodes st (Suc info)) = Some a"
      "dns_timer_node_expiry_gen (st_nodes st (Suc info)) = g"
    and t: "t = TimerEntry (Some (word_of_nat l, word_of_nat i)) g info (Suc info)"
  shows "wheel_inv (F - {Suc info}) (set_timer a t st) (set_wheel l i (ad_push_back a (bkt tw l i)) tw)"
    (is "wheel_inv _ ?st ?tw")
proof -
  note sh = wheel_invD(1)[OF inv en]
  have nin: "a \<notin> set (ad_nodes (bkt tw l' i'))" if "in_range l' i'" for l' i'
    using unplaced_not_in_bucket[OF wheel_invD(2)[OF inv en that] a] .
  have at: "timer_at ?st a l i info" using p t by (simp add: timer_at_def)
  have old: "bucket_ok ?st l' i' (bkt tw l' i')" if "in_range l' i'" for l' i'
    by (rule bucket_ok_frame[OF wheel_invD(2)[OF inv en that]]) (use nin[OF that] in auto)
  have new: "bucket_ok ?st l i (ad_push_back a (bkt tw l i))"
    using old[OF r] at nin[OF r] by (fastforce simp: bucket_ok_def ad_ok_push_back)
  have ptr: "tw_is_enabled ?tw \<and>
      (\<exists>l' i' info'. n = Suc info' \<and> in_range l' i' \<and> timer_at ?st b l' i' info' \<and> b \<in> set (ad_nodes (bkt ?tw l' i')))"
    if n: "dns_timer_node (st_nodes ?st n) = Some b" "n \<notin> F - {Suc info}" for n b
  proof (cases "n = Suc info")
    case True
    then have "b = a" using n(1) p(1) by simp
    with True at r tw_shape_enabled[OF tw_shape_set_wheel[OF sh]] show ?thesis
      by (auto simp: bkt_set_wheel[OF sh r])
  next
    case False
    then have "dns_timer_node (st_nodes st n) = Some b" "n \<notin> insert (Suc info) F" using n by auto
    from wheel_inv_ptrE[OF inv this] obtain l' i' info' where b: "n = Suc info'" "in_range l' i'"
      "timer_at st b l' i' info'" "b \<in> set (ad_nodes (bkt tw l' i'))" by blast
    have "b \<noteq> a" using nin[OF b(2)] b(4) by auto
    then have "timer_at ?st b l' i' info'" using b(3) by (simp add: timer_at_def)
    moreover have "b \<in> set (ad_nodes (bkt ?tw l' i'))" using b(4) by (auto simp: bkt_set_wheel[OF sh r])
    ultimately show ?thesis using b(1,2) tw_shape_enabled[OF tw_shape_set_wheel[OF sh]] by blast
  qed
  have "b < st_next_addr ?st" if "st_timers ?st b = Some t'" for b t'
    using that wheel_invD(4)[OF inv, of a] wheel_invD(4)[OF inv, of b] a by (auto split: if_splits)
  moreover have "bucket_ok ?st l' i' (bkt ?tw l' i')" if "in_range l' i'" for l' i'
    using old[OF that] new by (simp add: bkt_set_wheel[OF sh r])
  ultimately show ?thesis using tw_shape_set_wheel[OF sh] ptr wheel_invD(5)[OF inv]
    by (intro wheel_invI) auto
qed

lemma wheel_inv_clear:
  assumes inv: "wheel_inv (insert n F) st tw"
    and a: "\<And>a l i info. dns_timer_node (st_nodes st n) = Some a \<Longrightarrow> \<not> timer_at st a l i info"
  shows "wheel_inv F (upd_nodes n (dns_set_timer_node None g) st) tw" (is "wheel_inv _ ?st _")
proof -
  have same: "timer_at ?st b l i info" if "timer_at st b l i info" for b l i info
    using that a[of b l i info] by (auto simp: timer_at_def)
  show ?thesis
  proof (rule wheel_invI)
    fix l i
    assume "tw_is_enabled tw" "in_range l i"
    from wheel_invD(2)[OF inv this] show "bucket_ok ?st l i (bkt tw l i)"
      using same unfolding bucket_ok_def upd_nodes_sel by blast
  next
    fix m b
    assume m: "dns_timer_node (st_nodes ?st m) = Some b" "m \<notin> F"
    then have "m \<noteq> n" "dns_timer_node (st_nodes st m) = Some b"
      by (auto simp: dns_set_timer_node_def split: if_splits)
    with m(2) have "dns_timer_node (st_nodes st m) = Some b" "m \<notin> insert n F" by auto
    from wheel_invD(3)[OF inv this] same
    show "tw_is_enabled tw \<and> (\<exists>l i info. m = Suc info \<and> in_range l i \<and> timer_at ?st b l i info \<and>
        b \<in> set (ad_nodes (bkt tw l i)))" by blast
  qed (use wheel_invD(1,4,5)[OF inv] in auto)
qed

lemma wheel_inv_free:
  assumes inv: "wheel_inv F st tw" and a: "st_timers st a = Some (TimerEntry None g info n)"
  shows "wheel_inv F (free_timer a st) tw" (is "wheel_inv _ ?st _")
proof -
  have same: "timer_at ?st b l i info" if "timer_at st b l i info" for b l i info
    using that a by (auto simp: timer_at_def)
  show ?thesis
  proof (rule wheel_invI)
    fix l i
    assume "tw_is_enabled tw" "in_range l i"
    from wheel_invD(2)[OF inv this] show "bucket_ok ?st l i (bkt tw l i)"
    proof (rule bucket_ok_frame)
      fix b
      assume "b \<in> set (ad_nodes (bkt tw l i))"
      moreover have "a \<notin> set (ad_nodes (bkt tw l i))"
        using unplaced_not_in_bucket[OF wheel_invD(2)[OF inv \<open>tw_is_enabled tw\<close> \<open>in_range l i\<close>] a] .
      ultimately show "st_timers ?st b = st_timers st b" by auto
    qed simp
  next
    fix m b
    assume m: "dns_timer_node (st_nodes ?st m) = Some b" "m \<notin> F"
    then have "dns_timer_node (st_nodes st m) = Some b" by simp
    from wheel_invD(3)[OF inv this m(2)] same
    show "tw_is_enabled tw \<and> (\<exists>l i info. m = Suc info \<and> in_range l i \<and> timer_at ?st b l i info \<and>
        b \<in> set (ad_nodes (bkt tw l i)))" by blast
  qed (use wheel_invD(1,4,5)[OF inv] in \<open>auto split: if_splits\<close>)
qed

section \<open>The operations keep the invariant\<close>

lemma unlink_timer_eq:
  assumes inv: "wheel_inv F st tw" and en: "tw_is_enabled tw" and r: "in_range l i"
    and a: "a \<in> set (ad_nodes (bkt tw l i))"
      "st_timers st' a = Some (TimerEntry (Some (word_of_nat l, word_of_nat i)) g info n)"
  obtains q where
    "unlink_timer a st' tw = Some (set_timer a (TimerEntry None g info n) st', set_wheel l i q tw, True)"
    "ad_ok q" "set (ad_nodes q) = set (ad_nodes (bkt tw l i)) - {a}"
proof -
  have "ad_ok (bkt tw l i)" using wheel_invD(2)[OF inv en r] by (simp add: bucket_ok_def)
  from ad_unlink_mem[OF this a(1)] obtain q where q: "ad_unlink a (bkt tw l i) = Some q" "ad_ok q"
    "set (ad_nodes q) = set (ad_nodes (bkt tw l i)) - {a}" by blast
  have "unlink_timer a st' tw = Some (set_timer a (TimerEntry None g info n) st', set_wheel l i q tw, True)"
    using a(2) q(1) in_range_unat[OF r] wheel_bkt[OF wheel_invD(1)[OF inv en] r]
    by (simp add: unlink_timer_def is_sentinel_def)
  with q(2,3) that show thesis by blast
qed

lemma deschedule_ok:
  assumes inv: "wheel_ok st tw" and p: "dns_timer_node (st_nodes st n) = Some a"
    "dns_timer_node_expiry_gen (st_nodes st n) = g"
  shows "\<exists>st' tw'. deschedule a g (upd_nodes n (dns_set_timer_node None g') st) tw = Some (st', tw', True) \<and>
    wheel_ok st' tw' \<and> timer_frame st st' \<and> tw_current tw' = tw_current tw \<and>
    dns_timer_node (st_nodes st' n) = None \<and> st_nodes st' = st_nodes (upd_nodes n (dns_set_timer_node None g') st)"
proof -
  from wheel_inv_ptrE[OF inv p(1)] obtain l i info where n: "n = Suc info" and r: "in_range l i"
    and a: "timer_at st a l i info" "a \<in> set (ad_nodes (bkt tw l i))" and en: "tw_is_enabled tw" by blast
  let ?st = "upd_nodes n (dns_set_timer_node None g') st" and ?t = "TimerEntry None g info n"
  have t: "st_timers ?st a = Some (TimerEntry (Some (word_of_nat l, word_of_nat i)) g info n)"
    using a(1) p(2) n by (simp add: timer_at_def)
  from unlink_timer_eq[OF inv en r a(2) t] obtain q where
    u: "unlink_timer a ?st tw = Some (set_timer a ?t ?st, set_wheel l i q tw, True)"
    and q: "ad_ok q" "set (ad_nodes q) = set (ad_nodes (bkt tw l i)) - {a}" by blast
  have "deschedule a g ?st tw = Some (free_timer a (set_timer a ?t ?st), set_wheel l i q tw, True)"
    using t u by (simp add: deschedule_def)
  moreover have "wheel_ok (free_timer a (set_timer a ?t ?st)) (set_wheel l i q tw)"
  proof -
    have "wheel_inv {n} (set_timer a ?t st) (set_wheel l i q tw)"
      using wheel_inv_detach[OF inv r en a(1) _ q] n by simp
    then have "wheel_ok (upd_nodes n (dns_set_timer_node None g') (set_timer a ?t st)) (set_wheel l i q tw)"
      by (rule wheel_inv_clear) (use p(1) in \<open>auto simp: timer_at_def\<close>)
    then show ?thesis
      unfolding set_timer_upd_nodes by (rule wheel_inv_free) simp
  qed
  ultimately show ?thesis by (auto simp: dns_set_timer_node_def)
qed

lemma schedule_existing_node_ok:
  assumes inv: "wheel_inv {Suc info} st tw" and en: "tw_is_enabled tw"
    and a: "st_timers st a = Some (TimerEntry None g info (Suc info))"
    and p: "dns_timer_node (st_nodes st (Suc info)) = Some a"
      "dns_timer_node_expiry_gen (st_nodes st (Suc info)) = g"
    and t: "fst (expiration_state (st_infos st info)) = Some t"
    and pl: "place tw t = (l, i)"
    and st': "st' = set_timer a (TimerEntry (Some (word_of_nat l, word_of_nat i)) g info (Suc info)) st"
    and tw': "tw' = set_wheel l i (ad_push_back a (bkt tw l i)) tw"
  shows "schedule_existing_node a st tw = Some (st', tw', RRescheduled) \<and> wheel_ok st' tw' \<and> timer_frame st st'"
proof -
  have r: "in_range l i" using pl by (rule place_in_range)
  have "wheel_ok st' tw'"
    using wheel_inv_attach[OF inv r en a p refl] st' tw' by simp
  then show ?thesis
    using a t pl wheel_bkt[OF wheel_invD(1)[OF inv en] r]
    by (simp add: schedule_existing_node_def bucket_indices_eq st' tw')
qed

lemma reschedule_ok:
  assumes inv: "wheel_ok st tw" and p: "dns_timer_node (st_nodes st (Suc info)) = Some a"
    "dns_timer_node_expiry_gen (st_nodes st (Suc info)) = g"
    and t: "fst (expiration_state (st_infos st info)) = Some t"
  shows "\<exists>st' tw'. reschedule a g st tw = Some (st', tw', Some RRescheduled) \<and>
    wheel_ok st' tw' \<and> timer_frame st st' \<and> st_nodes st' = st_nodes st \<and> tw_current tw' = tw_current tw"
proof -
  from wheel_inv_ptrE[OF inv p(1)] obtain l i where r: "in_range l i"
    and a: "timer_at st a l i info" "a \<in> set (ad_nodes (bkt tw l i))" and en: "tw_is_enabled tw" by auto
  let ?t = "TimerEntry None g info (Suc info)" and ?st = "set_timer a (TimerEntry None g info (Suc info)) st"
  have t0: "st_timers st a = Some (TimerEntry (Some (word_of_nat l, word_of_nat i)) g info (Suc info))"
    using a(1) p(2) by (simp add: timer_at_def)
  from unlink_timer_eq[OF inv en r a(2) t0] obtain q where
    u: "unlink_timer a st tw = Some (?st, set_wheel l i q tw, True)"
    and q: "ad_ok q" "set (ad_nodes q) = set (ad_nodes (bkt tw l i)) - {a}" by blast
  have inv1: "wheel_inv {Suc info} ?st (set_wheel l i q tw)"
    using wheel_inv_detach[OF inv r en a(1) refl q] by simp
  have en1: "tw_is_enabled (set_wheel l i q tw)"
    by (rule tw_shape_enabled[OF tw_shape_set_wheel[OF wheel_invD(1)[OF inv en]]])
  obtain l' i' where pl: "place (set_wheel l i q tw) t = (l', i')" by fastforce
  have "fst (expiration_state (st_infos ?st info)) = Some t" using t by simp
  from schedule_existing_node_ok[OF inv1 en1 _ _ _ this pl refl refl] p
  show ?thesis using u t0 by (auto simp: reschedule_def timer_frame_def)
qed

lemma schedule_ok:
  assumes inv: "wheel_ok st tw" and en: "tw_is_enabled tw"
    and p: "dns_timer_node (st_nodes st (Suc info)) = None"
    and t: "expiration_state (st_infos st info) = (Some t, g)"
  shows "\<exists>st' tw' a. schedule info (Suc info) g st tw = Some (st', tw', Some a) \<and>
    wheel_ok (upd_nodes (Suc info) (dns_set_timer_node (Some a) g) st') tw' \<and>
    timer_frame st st' \<and> st_nodes st' = st_nodes st \<and> tw_current tw' = tw_current tw \<and>
    tw_origin tw' = tw_origin tw"
proof -
  obtain l i where pl: "place tw t = (l, i)" by fastforce
  then have r: "in_range l i" by (rule place_in_range)
  let ?a = "st_next_addr st" and ?n = "Suc info"
  let ?te = "TimerEntry (Some (word_of_nat l, word_of_nat i)) g info ?n"
  let ?st = "st\<lparr>st_timers := (st_timers st)(?a \<mapsto> ?te), st_next_addr := ?a + 1\<rparr>"
  let ?tw = "set_wheel l i (ad_push_back ?a (bkt tw l i)) tw"
  have "schedule info ?n g st tw = Some (?st, ?tw, Some ?a)"
    using t pl wheel_bkt[OF wheel_invD(1)[OF inv en] r]
    by (simp add: schedule_def bucket_indices_eq alloc_timer_def timer_node_new_def Let_def)
  moreover
  let ?s0 = "upd_nodes ?n (dns_set_timer_node (Some ?a) g)
      (st\<lparr>st_timers := (st_timers st)(?a \<mapsto> TimerEntry None g info ?n), st_next_addr := ?a + 1\<rparr>)"
  have fresh: "st_timers st ?a = None"
    using wheel_invD(4)[OF inv, of ?a] by (cases "st_timers st ?a") auto
  have same: "timer_at ?s0 b l' i' info'" if "timer_at st b l' i' info'" for b l' i' info'
    using that p fresh by (auto simp: timer_at_def)
  have "wheel_inv {?n} ?s0 tw"
  proof (rule wheel_invI)
    fix l' i'
    assume "tw_is_enabled tw" "in_range l' i'"
    from wheel_invD(2)[OF inv this] obtain s where s: "ad_ok (bkt tw l' i')" "s \<in> set (ad_nodes (bkt tw l' i'))"
      "st_timers st s = Some Sentinel" "\<forall>a \<in> set (ad_nodes (bkt tw l' i')) - {s}. \<exists>info. timer_at st a l' i' info"
      unfolding bucket_ok_def by blast
    then have "st_timers ?s0 s = Some Sentinel" using fresh by auto
    with s same show "bucket_ok ?s0 l' i' (bkt tw l' i')" unfolding bucket_ok_def by blast
  next
    fix m b
    assume m: "dns_timer_node (st_nodes ?s0 m) = Some b" "m \<notin> {?n}"
    then have "dns_timer_node (st_nodes st m) = Some b" by simp
    from wheel_invD(3)[OF inv this] same
    show "tw_is_enabled tw \<and> (\<exists>l i info. m = Suc info \<and> in_range l i \<and> timer_at ?s0 b l i info \<and>
        b \<in> set (ad_nodes (bkt tw l i)))" by blast
  next
    fix b t'
    assume "st_timers ?s0 b = Some t'"
    then show "b < st_next_addr ?s0"
      using wheel_invD(4)[OF inv, of b] by (auto split: if_splits simp: less_Suc_eq)
  qed (use wheel_invD(1,5)[OF inv] in auto)
  from wheel_inv_attach[OF this r en, of ?a g ?te]
  have "wheel_ok (set_timer ?a ?te ?s0) ?tw" by (simp add: dns_set_timer_node_def)
  moreover have "set_timer ?a ?te ?s0 = upd_nodes ?n (dns_set_timer_node (Some ?a) g) ?st"
    by (cases st) (simp add: set_timer_def upd_nodes_def)
  ultimately show ?thesis by (simp add: timer_frame_def)
qed

text \<open>Enabling the wheel fills each bucket with a fresh sentinel.\<close>

definition fresh_bucket :: "'k store \<Rightarrow> adeq \<Rightarrow> bool" where
  "fresh_bucket st q \<longleftrightarrow> (\<exists>s. ad_nodes q = [s] \<and> ad_cursor q = None \<and> st_timers st s = Some Sentinel)"

definition timers_extend :: "'k store \<Rightarrow> 'k store \<Rightarrow> bool" where
  "timers_extend st st' \<longleftrightarrow> timer_frame st st' \<and> st_nodes st' = st_nodes st \<and>
     (\<forall>a t. st_timers st a = Some t \<longrightarrow> st_timers st' a = Some t) \<and>
     (\<forall>a t. st_timers st' a = Some t \<longrightarrow> a < st_next_addr st' )"

lemma timers_extend_trans: "timers_extend st st' \<Longrightarrow> timers_extend st' st'' \<Longrightarrow> timers_extend st st''"
  using timer_frame_trans[of st st' st''] by (auto simp: timers_extend_def)

lemma fresh_bucket_extend: "fresh_bucket st q \<Longrightarrow> timers_extend st st' \<Longrightarrow> fresh_bucket st' q"
  by (auto simp: fresh_bucket_def timers_extend_def)

lemma new_buckets_fresh:
  assumes "\<forall>a t. st_timers st a = Some t \<longrightarrow> a < st_next_addr st" "new_buckets n st = (st', qs)"
  shows "timers_extend st st' \<and> length qs = n \<and> (\<forall>q \<in> set qs. fresh_bucket st' q)"
  using assms
proof (induction n arbitrary: st st' qs)
  case 0
  then show ?case by (auto simp: timers_extend_def)
next
  case (Suc n)
  obtain st1 a where a: "alloc_timer Sentinel st = (st1, a)" by fastforce
  obtain qs' where qs: "new_buckets n st1 = (st', qs')" "qs = ad_push_back a (ad_new Other) # qs'"
    using Suc.prems(2) a by (auto split: prod.splits)
  have x: "timers_extend st st1" "st_timers st1 a = Some Sentinel"
    using a Suc.prems(1)
    by (auto simp: alloc_timer_def timers_extend_def timer_frame_def Let_def less_Suc_eq split: if_splits)
  with Suc.IH[OF _ qs(1)] have "timers_extend st1 st'" "length qs' = n" "\<forall>q \<in> set qs'. fresh_bucket st' q"
    by (auto simp: timers_extend_def)
  moreover have "fresh_bucket st1 (ad_push_back a (ad_new Other))"
    using x(2) by (simp add: fresh_bucket_def ad_new_def)
  ultimately show ?case
    using timers_extend_trans[OF x(1)] fresh_bucket_extend qs(2) by auto
qed

lemma new_wheels_fresh:
  assumes "\<forall>a t. st_timers st a = Some t \<longrightarrow> a < st_next_addr st" "new_wheels bs st = (st', ws)"
  shows "timers_extend st st' \<and> map length ws = map unat bs \<and> (\<forall>w \<in> set ws. \<forall>q \<in> set w. fresh_bucket st' q)"
  using assms
proof (induction bs arbitrary: st st' ws)
  case Nil
  then show ?case by (auto simp: timers_extend_def)
next
  case (Cons b bs)
  obtain st1 qs where q: "new_buckets (unat b) st = (st1, qs)" by fastforce
  obtain ws' where ws: "new_wheels bs st1 = (st', ws')" "ws = qs # ws'"
    using Cons.prems(2) q by (auto split: prod.splits)
  note x = new_buckets_fresh[OF Cons.prems(1) q]
  with Cons.IH[OF _ ws(1)] have y: "timers_extend st1 st'" "map length ws' = map unat bs"
    "\<forall>w \<in> set ws'. \<forall>q \<in> set w. fresh_bucket st' q"
    by (auto simp: timers_extend_def)
  with x ws(2) show ?case
    using timers_extend_trans[of st st1 st'] fresh_bucket_extend[of st1 _ st'] by auto
qed

lemma tw_enable_ok:
  assumes inv: "wheel_ok st tw" and dis: "\<not> tw_is_enabled tw"
  shows "\<exists>st' tw'. tw_enable st tw = Some (st', tw') \<and> wheel_ok st' tw' \<and> tw_is_enabled tw' \<and>
    timer_frame st st' \<and> st_nodes st' = st_nodes st \<and> tw_current tw' = tw_current tw"
proof -
  obtain st' ws where ws: "new_wheels BUCKET_COUNTS st = (st', ws)" by fastforce
  from new_wheels_fresh[OF _ ws] wheel_invD(4)[OF inv] have x: "timers_extend st st'"
    "map length ws = map unat BUCKET_COUNTS" "\<And>w q. w \<in> set ws \<Longrightarrow> q \<in> set w \<Longrightarrow> fresh_bucket st' q" by blast+
  let ?tw = "tw\<lparr>tw_wheels := ws\<rparr>"
  have len: "length ws = 5" using arg_cong[OF x(2), of length] by (simp add: BUCKET_COUNTS_def)
  have lens: "length (ws ! l) = bcount l" if "l < 5" for l
  proof -
    have "map length ws ! l = map unat BUCKET_COUNTS ! l" using x(2) by simp
    moreover have "length BUCKET_COUNTS = 5" by (simp add: BUCKET_COUNTS_def)
    ultimately show ?thesis using that len by (simp add: bcount_def)
  qed
  have sh: "tw_shape ?tw" using len lens by (simp add: tw_shape_def)
  have none: "dns_timer_node (st_nodes st n) = None" for n
    using wheel_invD(3)[OF inv, of n] dis by (cases "dns_timer_node (st_nodes st n)") auto
  have "wheel_ok st' ?tw"
  proof (rule wheel_invI)
    fix l i
    assume r: "in_range l i"
    then have "fresh_bucket st' (bkt ?tw l i)"
      using len lens by (intro x(3)[of "ws ! l"]) (simp_all add: bkt_def in_range_def)
    then show "bucket_ok st' l i (bkt ?tw l i)"
      by (auto simp: fresh_bucket_def bucket_ok_def ad_ok_def)
  qed (use sh none x(1) wheel_invD(5)[OF inv] in \<open>auto simp: timers_extend_def\<close>)
  moreover have "tw_enable st tw = Some (st', ?tw)"
    using dis ws by (simp add: tw_enable_def)
  ultimately show ?thesis using x(1) tw_shape_enabled[OF sh] by (auto simp: timers_extend_def)
qed

section \<open>Properties\<close>

text \<open>where a timer goes. \<open>bucket_indices\<close> always returns a bucket that exists, its index is
  the tick of the expiration time on the level modulo the number of buckets, and for a time
  that is not before the last advance the bucket is not behind the current tick; above the
  lowest level it is ahead of it.\<close>

theorem bucket_indices_place:
  "\<exists>l i. bucket_indices tw t = Some (l, i) \<and> l < length BUCKET_COUNTS \<and> i < unat (BUCKET_COUNTS ! l) \<and>
     i = tick tw l t mod unat (BUCKET_COUNTS ! l) \<and>
     (tw_origin tw \<le> tw_current tw \<and> tw_current tw \<le> t \<longrightarrow>
        tick tw l (tw_current tw) \<le> tick tw l t \<and> (0 < l \<longrightarrow> tick tw l (tw_current tw) < tick tw l t))"
proof -
  obtain l i where pl: "place tw t = (l, i)" by fastforce
  have "length BUCKET_COUNTS = 5" by (simp add: BUCKET_COUNTS_def)
  with place_in_range[OF pl] place_index[OF pl] place_tick[OF pl] bucket_indices_eq[of tw t] pl
  show ?thesis by (auto simp: in_range_def bcount_def)
qed

theorem bucket_indices_place_witness:
  "bucket_indices (tw_new (Instant 0)) (Instant (2 ^ 40)) = Some (1, 16) \<and>
   tick (tw_new (Instant 0)) 1 (Instant 0) < tick (tw_new (Instant 0)) 1 (Instant (2 ^ 40))"
proof -
  obtain l i where li: "bucket_indices (tw_new (Instant 0)) (Instant (2 ^ 40)) = Some (l, i)"
    "0 < l \<Longrightarrow> tick (tw_new (Instant 0)) l (Instant 0) < tick (tw_new (Instant 0)) l (Instant (2 ^ 40))"
    using bucket_indices_place[of "tw_new (Instant 0)" "Instant (2 ^ 40)"]
    by (auto simp: tw_new_def less_eq_instant_def)
  moreover have "place (tw_new (Instant 0)) (Instant (2 ^ 40)) = (1, 16)"
    by (simp add: place_def tw_new_def tick_def SHIFT_eq bcount_simps Let_def)
  ultimately show ?thesis by (simp add: bucket_indices_eq)
qed

text \<open>C37: the operations on timers are safe. On a well-formed wheel, enabling it, scheduling an
  entry that has no timer, rescheduling and descheduling an entry's timer through the pointer
  the entry holds all return, find the node valid, and keep the wheel well formed; the rest of
  the store is not touched.\<close>

theorem timer_ops_safe:
  assumes "wheel_ok st tw"
  shows
    "(\<not> tw_is_enabled tw \<longrightarrow>
       (\<exists>st' tw'. tw_enable st tw = Some (st', tw') \<and> wheel_ok st' tw' \<and> timer_frame st st')) \<and>
     (tw_is_enabled tw \<and> dns_timer_node (st_nodes st (Suc info)) = None \<and>
        expiration_state (st_infos st info) = (Some t, g) \<longrightarrow>
       (\<exists>st' tw' a. schedule info (Suc info) g st tw = Some (st', tw', Some a) \<and>
          wheel_ok (upd_nodes (Suc info) (dns_set_timer_node (Some a) g) st') tw' \<and> timer_frame st st')) \<and>
     (dns_timer_node (st_nodes st (Suc info)) = Some a \<and>
        fst (expiration_state (st_infos st info)) = Some t \<longrightarrow>
       (\<exists>st' tw'. reschedule a (dns_timer_node_expiry_gen (st_nodes st (Suc info))) st tw =
          Some (st', tw', Some RRescheduled) \<and> wheel_ok st' tw' \<and> timer_frame st st')) \<and>
     (dns_timer_node (st_nodes st (Suc info)) = Some a \<longrightarrow>
       (\<exists>st' tw'. deschedule a (dns_timer_node_expiry_gen (st_nodes st (Suc info)))
            (upd_nodes (Suc info) (dns_set_timer_node None g') st) tw = Some (st', tw', True) \<and>
          wheel_ok st' tw' \<and> timer_frame st st'))"
proof (intro conjI impI, goal_cases)
  case 1
  then show ?case using tw_enable_ok[OF assms] by fastforce
next
  case 2
  then show ?case using schedule_ok[OF assms, of info t g] by fastforce
next
  case 3
  then show ?case using reschedule_ok[OF assms, of info a _ t] by fastforce
next
  case 4
  then show ?case using deschedule_ok[OF assms, of "Suc info" a _ g'] by fastforce
qed

definition empty_store :: "nat store" where
  "empty_store =
     \<lparr>st_infos = (\<lambda>_. fst (set_expiration_time (Some (Instant (2 ^ 30)))
                     (entry_info_new \<lparr>kh_key = 0, kh_hash = 0\<rparr> (Instant 0) 1))),
      st_nodes = (\<lambda>_. deq_nodes_default), st_khds = Map.empty, st_timers = Map.empty,
      st_next_id = 0, st_next_addr = 0\<rparr>"

lemma empty_store_ok: "wheel_ok empty_store (tw_new (Instant 0))"
  by (simp add: wheel_inv_def empty_store_def tw_new_def tw_is_enabled_def deq_nodes_default_def)

theorem timer_ops_safe_witness:
  "\<exists>st' tw'. tw_enable empty_store (tw_new (Instant 0)) = Some (st', tw') \<and> wheel_ok st' tw'"
proof -
  have "\<not> tw_is_enabled (tw_new (Instant 0))" by (simp add: tw_new_def tw_is_enabled_def)
  with timer_ops_safe[OF empty_store_ok] show ?thesis by blast
qed

end
