(* ===== verification/Timer_Advance.thy ===== *)
theory Timer_Advance
  imports Timer_Wheel
begin

text \<open>
  Advancing the timer wheel. The iterator that \<open>TimerWheel::advance\<close> returns visits, level by
  level, the buckets between the previous and the current tick; the sentinel of a bucket ends
  the visit, so that a node that is filed again into the bucket is not visited twice. This
  theory shows that each iteration of its loop returns and keeps the wheel well formed, that
  the loop ends, and that no overdue entry is missed.
\<close>

section \<open>The stages of one iteration\<close>

definition front :: "'k store \<Rightarrow> adeq \<Rightarrow> addr list" where
  "front st q = takeWhile (\<lambda>a. st_timers st a \<noteq> Some Sentinel) (ad_nodes q)"

lemma front_split:
  assumes "bucket_ok st l i q"
  obtains s zs where "ad_nodes q = front st q @ s # zs" "st_timers st s = Some Sentinel"
    "s \<notin> set (front st q)" "\<And>a. a \<in> set (front st q @ zs) \<Longrightarrow> a \<noteq> s \<and> (\<exists>info. timer_at st a l i info)"
proof -
  obtain s where s: "ad_ok q" "s \<in> set (ad_nodes q)" "st_timers st s = Some Sentinel"
    "\<And>a. a \<in> set (ad_nodes q) - {s} \<Longrightarrow> \<exists>info. timer_at st a l i info"
    using assms unfolding bucket_ok_def by blast
  obtain ys zs where sp: "ad_nodes q = ys @ s # zs" using s(2) by (meson split_list)
  have d: "s \<notin> set ys" "s \<notin> set zs" using s(1) sp by (auto simp: ad_ok_def)
  have ns: "st_timers st a \<noteq> Some Sentinel" if "a \<in> set ys" for a
  proof -
    have "a \<in> set (ad_nodes q) - {s}" using that sp d by auto
    from s(4)[OF this] show ?thesis by (auto simp: timer_at_def)
  qed
  then have "front st q = ys" using s(3) sp by (simp add: front_def takeWhile_tail)
  moreover have "a \<noteq> s \<and> (\<exists>info. timer_at st a l i info)" if "a \<in> set (ys @ zs)" for a
    using s(4)[of a] that sp d by auto
  ultimately show thesis using that sp s(3) d by blast
qed

lemma rotate_to_sentinel_eq:
  assumes "ad_ok q" "ad_nodes q = ys @ s # zs" "timers s = Some Sentinel"
    and "\<And>a. a \<in> set (ys @ zs) \<Longrightarrow> \<exists>t. timers a = Some t \<and> t \<noteq> Sentinel"
  shows "\<exists>q'. rotate_to_sentinel timers q = Some q' \<and> ad_ok q' \<and> ad_nodes q' = zs @ ys @ [s]"
  using assms
proof (induction ys arbitrary: q zs)
  case Nil
  show ?case
  proof (cases zs)
    case zNil: Nil
    then show ?thesis
      using Nil.prems by (subst rotate_to_sentinel.simps) (simp add: ad_peek_back_def is_sentinel_def)
  next
    case zCons: (Cons z zs')
    obtain q1 where q1: "ad_move_front_to_back q = Some q1" "ad_ok q1" "ad_nodes q1 = zs @ [s]"
      using ad_move_front_to_back_Cons[OF Nil.prems(1), of s zs] Nil.prems(2) by auto
    have r1: "rotate_to_sentinel timers q1 = Some q1"
      using q1 Nil.prems(3) by (subst rotate_to_sentinel.simps) (simp add: ad_peek_back_def is_sentinel_def)
    obtain t where t: "timers (last zs) = Some t" "t \<noteq> Sentinel"
      using Nil.prems(4)[of "last zs"] zCons last_in_set[of zs] by fastforce
    have "ad_peek_back q = Some (last zs)" using Nil.prems(2) zCons by (simp add: ad_peek_back_def)
    with t q1(1) r1 have "rotate_to_sentinel timers q = Some q1"
      by (subst rotate_to_sentinel.simps) (simp add: is_sentinel_def)
    with q1 show ?thesis by simp
  qed
next
  case (Cons y ys)
  have at_back: "rotate_to_sentinel timers q = Some q" if "zs = []"
    using Cons.prems that by (subst rotate_to_sentinel.simps) (simp add: ad_peek_back_def is_sentinel_def)
  show ?case
  proof (cases "zs = []")
    case True
    with at_back Cons.prems show ?thesis by simp
  next
    case False
    obtain q1 where q1: "ad_move_front_to_back q = Some q1" "ad_ok q1" "ad_nodes q1 = ys @ s # (zs @ [y])"
      using ad_move_front_to_back_Cons[OF Cons.prems(1), of y "ys @ s # zs"] Cons.prems(2) by auto
    have "\<exists>q'. rotate_to_sentinel timers q1 = Some q' \<and> ad_ok q' \<and> ad_nodes q' = (zs @ [y]) @ ys @ [s]"
      by (rule Cons.IH[OF q1(2,3) Cons.prems(3)]) (use Cons.prems(4) in auto)
    then obtain q2 where q2: "rotate_to_sentinel timers q1 = Some q2" "ad_ok q2"
      "ad_nodes q2 = zs @ (y # ys) @ [s]" by auto
    obtain t where t: "timers (last zs) = Some t" "t \<noteq> Sentinel"
      using Cons.prems(4)[of "last zs"] last_in_set[OF False] by fastforce
    have "ad_peek_back q = Some (last zs)" using Cons.prems(2) False by (simp add: ad_peek_back_def)
    with t q1(1) q2 show ?thesis
      by (subst rotate_to_sentinel.simps) (simp add: is_sentinel_def)
  qed
qed

lemma reset_positions_ok:
  assumes inv: "wheel_inv F st tw" and en: "tw_is_enabled tw" and r: "in_range l i"
  shows "\<exists>q'. reset_timer_node_positions l i st tw = Some (set_wheel l i q' tw) \<and>
    wheel_inv F st (set_wheel l i q' tw) \<and> set (ad_nodes q') = set (ad_nodes (bkt tw l i)) \<and>
    length (front st q') < length (ad_nodes (bkt tw l i)) \<and>
    (\<forall>a \<in> set (ad_nodes q'). st_timers st a = Some Sentinel \<or> a \<in> set (front st q'))"
proof -
  note sh = wheel_invD(1)[OF inv en] and b = wheel_invD(2)[OF inv en r]
  obtain s zs where s: "ad_nodes (bkt tw l i) = front st (bkt tw l i) @ s # zs" "st_timers st s = Some Sentinel"
    "\<And>a. a \<in> set (front st (bkt tw l i) @ zs) \<Longrightarrow> a \<noteq> s \<and> (\<exists>info. timer_at st a l i info)"
    using front_split[OF b] by metis
  let ?ys = "front st (bkt tw l i)"
  have ne: "\<exists>t. st_timers st a = Some t \<and> t \<noteq> Sentinel" if "a \<in> set (?ys @ zs)" for a
    using s(3)[OF that] by (auto simp: timer_at_def)
  have "ad_ok (bkt tw l i)" using b by (simp add: bucket_ok_def)
  from rotate_to_sentinel_eq[where timers = "st_timers st", OF this s(1,2) ne] obtain q' where q':
    "rotate_to_sentinel (st_timers st) (bkt tw l i) = Some q'" "ad_ok q'" "ad_nodes q' = zs @ ?ys @ [s]"
    by blast
  have set: "set (ad_nodes q') = set (ad_nodes (bkt tw l i))" using q'(3) s(1) by auto
  have ns: "st_timers st x \<noteq> Some Sentinel" if "x \<in> set (zs @ ?ys)" for x
    using ne[of x] that by fastforce
  have f: "front st q' = zs @ ?ys"
    unfolding front_def[of st q'] q'(3) append_assoc[symmetric]
    using takeWhile_append2[of "zs @ ?ys" "\<lambda>a. st_timers st a \<noteq> Some Sentinel" "[s]"] ns s(2) by simp
  have "wheel_inv F st (set_wheel l i q' tw)"
  proof (rule wheel_invI)
    fix l' i'
    assume r': "in_range l' i'"
    have "bucket_ok st l i q'" using b q'(2) set unfolding bucket_ok_def by metis
    with wheel_invD(2)[OF inv en r'] show "bucket_ok st l' i' (bkt (set_wheel l i q' tw) l' i')"
      by (simp add: bkt_set_wheel[OF sh r])
  next
    fix n a
    assume n: "dns_timer_node (st_nodes st n) = Some a" "n \<notin> F"
    have m: "a \<in> set (ad_nodes (bkt (set_wheel l i q' tw) l' i')) = (a \<in> set (ad_nodes (bkt tw l' i')))" for l' i'
      using set by (simp add: bkt_set_wheel[OF sh r])
    from wheel_invD(3)[OF inv n] tw_shape_enabled[OF tw_shape_set_wheel[OF sh]]
    show "tw_is_enabled (set_wheel l i q' tw) \<and> (\<exists>l' i' info. n = Suc info \<and> in_range l' i' \<and>
        timer_at st a l' i' info \<and> a \<in> set (ad_nodes (bkt (set_wheel l i q' tw) l' i')))"
      unfolding m by blast
  qed (use tw_shape_set_wheel[OF sh] wheel_invD(4,5)[OF inv] in auto)
  moreover have "reset_timer_node_positions l i st tw = Some (set_wheel l i q' tw)"
    using wheel_bkt[OF sh r] q'(1) by (simp add: reset_timer_node_positions_def)
  ultimately show ?thesis using set f q'(3) s(1,2) by (intro exI[of _ q']) auto
qed

lemma pop_timer_node_None:
  assumes inv: "wheel_inv F st tw" and en: "tw_is_enabled tw" and r: "in_range l i"
    and f: "front st (bkt tw l i) = []"
  shows "pop_timer_node l i st tw = Some (st, tw, None)"
proof -
  obtain s zs where "ad_nodes (bkt tw l i) = s # zs" "st_timers st s = Some Sentinel"
    using front_split[OF wheel_invD(2)[OF inv en r]] f by (metis append_Nil)
  then show ?thesis
    using wheel_bkt[OF wheel_invD(1)[OF inv en] r]
    by (simp add: pop_timer_node_def ad_peek_front_def is_sentinel_def)
qed

lemma pop_timer_node_Some:
  assumes inv: "wheel_ok st tw" and en: "tw_is_enabled tw" and r: "in_range l i"
    and f: "front st (bkt tw l i) = a # fs"
  obtains q info g where
    "pop_timer_node l i st tw =
       Some (set_timer a (TimerEntry None g info (Suc info)) st, set_wheel l i q tw, Some a)"
    "wheel_inv {Suc info} (set_timer a (TimerEntry None g info (Suc info)) st) (set_wheel l i q tw)"
    "timer_at st a l i info" "g = dns_timer_node_expiry_gen (st_nodes st (Suc info))"
    "ad_nodes (bkt tw l i) = a # ad_nodes q"
    "front (set_timer a (TimerEntry None g info (Suc info)) st) q = fs"
proof -
  note b = wheel_invD(2)[OF inv en r]
  obtain s zs where s: "ad_nodes (bkt tw l i) = (a # fs) @ s # zs" "st_timers st s = Some Sentinel"
    "\<And>a'. a' \<in> set ((a # fs) @ zs) \<Longrightarrow> a' \<noteq> s \<and> (\<exists>info. timer_at st a' l i info)"
    using front_split[OF b] f by metis
  obtain info where at: "timer_at st a l i info" using s(3)[of a] by auto
  let ?g = "dns_timer_node_expiry_gen (st_nodes st (Suc info))"
  let ?st = "set_timer a (TimerEntry None ?g info (Suc info)) st"
  have ok: "ad_ok (bkt tw l i)" using b by (simp add: bucket_ok_def)
  have n: "ad_nodes (bkt tw l i) = a # fs @ s # zs" using s(1) by simp
  from ad_pop_front_Cons[OF ok n] obtain q where q: "ad_pop_front (bkt tw l i) = (q, Some a)" "ad_ok q"
    "ad_nodes q = fs @ s # zs" by blast
  have set: "set (ad_nodes q) = set (ad_nodes (bkt tw l i)) - {a}" using ok n q(3) by (auto simp: ad_ok_def)
  have t: "st_timers st a = Some (TimerEntry (Some (word_of_nat l, word_of_nat i)) ?g info (Suc info))"
    using at by (simp add: timer_at_def)
  have "pop_timer_node l i st tw = Some (?st, set_wheel l i q tw, Some a)"
    using wheel_bkt[OF wheel_invD(1)[OF inv en] r] q(1) n t
    by (simp add: pop_timer_node_def ad_peek_front_def is_sentinel_def)
  moreover have "wheel_inv {Suc info} ?st (set_wheel l i q tw)"
    using wheel_inv_detach[OF inv r en at refl q(2) set] by simp
  moreover have "front ?st q = fs"
  proof -
    have "x \<in> set fs \<Longrightarrow> st_timers ?st x \<noteq> Some Sentinel" for x
      using s(3)[of x] by (auto simp: timer_at_def)
    moreover have "st_timers ?st s = Some Sentinel" using s(2) t by auto
    ultimately show ?thesis unfolding front_def q(3) by (subst takeWhile_append2) auto
  qed
  ultimately show thesis using that at n q(3) by metis
qed

text \<open>What happens to a popped node: it expired and is handed to the caller, or it is filed
  again, or it has no expiration time any more and is dropped.\<close>

lemma handle_popped_ok:
  assumes inv: "wheel_inv {Suc info} st tw" and en: "tw_is_enabled tw"
    and a: "st_timers st a = Some (TimerEntry None g info (Suc info))"
    and p: "dns_timer_node (st_nodes st (Suc info)) = Some a"
      "dns_timer_node_expiry_gen (st_nodes st (Suc info)) = g"
  obtains
    (expired) t where "fst (expiration_state (st_infos st info)) = Some t" "t \<le> it_current_time it"
      "handle_popped a it st tw =
         Some (upd_nodes (Suc info) (dns_set_timer_node None 0) st, tw, Return (Some (Expired a)))"
      "wheel_ok (upd_nodes (Suc info) (dns_set_timer_node None 0) st) tw"
  | (rescheduled) t l i st' tw' where "fst (expiration_state (st_infos st info)) = Some t"
      "it_current_time it < t" "place tw t = (l, i)"
      "st' = set_timer a (TimerEntry (Some (word_of_nat l, word_of_nat i)) g info (Suc info)) st"
      "tw' = set_wheel l i (ad_push_back a (bkt tw l i)) tw"
      "handle_popped a it st tw = Some (st', tw', Return (Some Rescheduled))" "wheel_ok st' tw'"
  | (dropped) "fst (expiration_state (st_infos st info)) = None"
      "handle_popped a it st tw =
         Some (free_timer a (upd_nodes (Suc info) (dns_set_timer_node None 0) st), tw, Continue)"
      "wheel_ok (free_timer a (upd_nodes (Suc info) (dns_set_timer_node None 0) st)) tw"
proof -
  have c: "wheel_ok (upd_nodes (Suc info) (dns_set_timer_node None 0) st) tw"
    by (rule wheel_inv_clear[OF inv]) (use p a in \<open>auto simp: timer_at_def\<close>)
  show thesis
  proof (cases "fst (expiration_state (st_infos st info))")
    case None
    have "wheel_ok (free_timer a (upd_nodes (Suc info) (dns_set_timer_node None 0) st)) tw"
      by (rule wheel_inv_free[OF c]) (simp add: a)
    with None a show thesis by (intro dropped) (simp_all add: handle_popped_def)
  next
    case (Some t)
    obtain l i where pl: "place tw t = (l, i)" by fastforce
    note se = schedule_existing_node_ok[OF inv en a p Some pl refl refl]
    show thesis
    proof (cases "t \<le> it_current_time it")
      case True
      with Some a c show thesis by (intro expired[of t]) (simp_all add: handle_popped_def)
    next
      case False
      with Some a se pl have "handle_popped a it st tw =
         Some (set_timer a (TimerEntry (Some (word_of_nat l, word_of_nat i)) g info (Suc info)) st,
           set_wheel l i (ad_push_back a (bkt tw l i)) tw, Return (Some Rescheduled))"
        by (simp add: handle_popped_def)
      from rescheduled[OF Some _ pl refl refl this] se False show thesis by (simp add: not_le)
    qed
  qed
qed

section \<open>One iteration\<close>

definition iter_wf :: "timer_events_iter \<Rightarrow> bool" where
  "iter_wf it \<longleftrightarrow> it_level it < 5 \<and>
     (\<not> it_is_new_level it \<longrightarrow>
        it_index_mask it = BUCKET_COUNTS ! it_level it - 1 \<and>
        it_index it < it_end_index it \<and> unat (it_end_index it) \<le> 128)"

definition cur_idx :: "timer_events_iter \<Rightarrow> nat" where
  "cur_idx it = unat (it_index it) mod bcount (it_level it)"

lemma in_range_cur: "it_level it < 5 \<Longrightarrow> in_range (it_level it) (cur_idx it)"
  using bcount_bounds[of "it_level it"] by (simp add: in_range_def cur_idx_def)

lemma masked_index:
  assumes "l < 5"
  shows "unat ((x :: u8) AND ucast (BUCKET_COUNTS ! l - 1)) = unat x mod bcount l"
proof -
  have "\<exists>k. (ucast (BUCKET_COUNTS ! l - 1) :: u8) = mask k \<and> bcount l = 2 ^ k"
    using level_cases[OF assms]
    by (elim disjE) (auto simp: BUCKET_COUNTS_def bcount_simps mask_eq_exp_minus_1
        intro: exI[of _ 6] exI[of _ 5] exI[of _ 2] exI[of _ 0])
  then obtain k where k: "(ucast (BUCKET_COUNTS ! l - 1) :: u8) = mask k" "bcount l = 2 ^ k" by blast
  show ?thesis unfolding k take_bit_eq_mask[symmetric] by (rule unat_take_bit)
qed

text \<open>How much is left to do: levels, then buckets of the level, then nodes of the bucket.\<close>

definition iter_measure :: "'k store \<Rightarrow> timer_wheel \<Rightarrow> timer_events_iter \<Rightarrow> nat \<times> nat \<times> nat" where
  "iter_measure st tw it =
     (5 - it_level it,
      if it_is_new_level it then 200 else unat (it_end_index it) - unat (it_index it),
      if it_is_new_level it then 0
      else if it_is_new_index it then length (ad_nodes (bkt tw (it_level it) (cur_idx it)))
      else length (front st (bkt tw (it_level it) (cur_idx it))))"

abbreviation measure_less :: "nat \<times> nat \<times> nat \<Rightarrow> nat \<times> nat \<times> nat \<Rightarrow> bool" where
  "measure_less x y \<equiv> (x, y) \<in> less_than <*lex*> less_than <*lex*> less_than"

lemma measure_less_trans: "measure_less x y \<Longrightarrow> measure_less y z \<Longrightarrow> measure_less x z"
  by (meson trans_lex_prod trans_less_than transE)

lemma measure_lessI:
  "a < a' \<Longrightarrow> measure_less (a, b, c) (a', b', c')"
  "a = a' \<Longrightarrow> b < b' \<Longrightarrow> measure_less (a, b, c) (a', b', c')"
  "a = a' \<Longrightarrow> b = b' \<Longrightarrow> c < c' \<Longrightarrow> measure_less (a, b, c) (a', b', c')"
  by simp_all

text \<open>A node is timely for the time \<open>c\<close> when its bucket is that of its entry's expiration
  time, and that bucket is not behind \<open>c\<close>; on the upper levels it is ahead of \<open>c\<close>.\<close>

definition timely :: "timer_wheel \<Rightarrow> instant \<Rightarrow> nat \<Rightarrow> nat \<Rightarrow> instant \<Rightarrow> bool" where
  "timely tw c l i t \<longleftrightarrow> i = tick tw l t mod bcount l \<and>
     (if l = 0 then tick tw l c \<le> tick tw l t else tick tw l c < tick tw l t)"

definition pending :: "'k store \<Rightarrow> timer_wheel \<Rightarrow> timer_events_iter \<Rightarrow> nat \<Rightarrow> nat \<Rightarrow> addr \<Rightarrow> bool" where
  "pending st tw it l i a \<longleftrightarrow> \<not> it_is_done it \<and>
     (it_level it < l \<or>
      l = it_level it \<and>
        (it_is_new_level it \<or>
         (\<exists>k. unat (it_index it) \<le> k \<and> k < unat (it_end_index it) \<and> i = k mod bcount l \<and>
            (k = unat (it_index it) \<and> \<not> it_is_new_index it \<longrightarrow> a \<in> set (front st (bkt tw l i))))))"

definition on_wheel :: "'k store \<Rightarrow> timer_wheel \<Rightarrow> nat \<Rightarrow> nat \<Rightarrow> addr \<Rightarrow> info_id \<Rightarrow> instant \<Rightarrow> bool" where
  "on_wheel st tw l i a info t \<longleftrightarrow>
     in_range l i \<and> a \<in> set (ad_nodes (bkt tw l i)) \<and> timer_at st a l i info \<and>
     fst (expiration_state (st_infos st info)) = Some t"

definition caught_up :: "'k store \<Rightarrow> timer_wheel \<Rightarrow> timer_events_iter \<Rightarrow> bool" where
  "caught_up st tw it \<longleftrightarrow>
     (\<forall>l i a info t. on_wheel st tw l i a info t \<longrightarrow>
        timely tw (it_current_time it) l i t \<or>
        timely tw (it_previous_time it) l i t \<and> pending st tw it l i a)"

lemma timely_frame: "tw_origin tw' = tw_origin tw \<Longrightarrow> timely tw' c l i t = timely tw c l i t"
  by (simp add: timely_def tick_def)

lemma caught_up_step:
  assumes "caught_up st tw it" "tw_origin tw' = tw_origin tw"
    "it_current_time it' = it_current_time it" "it_previous_time it' = it_previous_time it"
    and "\<And>l i a info t. on_wheel st' tw' l i a info t \<Longrightarrow>
      timely tw (it_current_time it) l i t \<or>
      on_wheel st tw l i a info t \<and>
      (timely tw (it_previous_time it) l i t \<longrightarrow> pending st tw it l i a \<longrightarrow>
         timely tw (it_current_time it) l i t \<or> pending st' tw' it' l i a)"
  shows "caught_up st' tw' it'"
  unfolding caught_up_def assms(3,4) timely_frame[OF assms(2)]
  using assms(1,5) unfolding caught_up_def by blast

subsection \<open>Entering a level\<close>

lemma tick_up:
  assumes "tick tw l a \<le> tick tw l b" "l \<le> l'" "l' < 5"
  shows "tick tw l' a \<le> tick tw l' b"
proof -
  have "SHIFT ! l \<le> SHIFT ! l'"
    using assms(2) level_cases[OF assms(3)] level_cases[of l] assms(3) by (auto simp: SHIFT_eq)
  then have "2 ^ (SHIFT ! l') = (2 :: nat) ^ (SHIFT ! l) * 2 ^ (SHIFT ! l' - SHIFT ! l)"
    by (simp flip: power_add)
  then show ?thesis
    using assms(1) by (simp add: tick_def div_mult2_eq div_le_mono)
qed

definition window :: "timer_wheel \<Rightarrow> timer_events_iter \<Rightarrow> nat" where
  "window tw it = min (tick tw (it_level it) (it_current_time it) - tick tw (it_level it) (it_previous_time it) + 1)
     (bcount (it_level it))"

lemma enter_level_eq:
  assumes l: "it_level it < 5"
  shows "tick tw (it_level it) (it_current_time it) \<le> tick tw (it_level it) (it_previous_time it) \<Longrightarrow>
      enter_level tw it = Some (it\<lparr>it_is_done := True\<rparr>, False)"
    and "tick tw (it_level it) (it_previous_time it) < tick tw (it_level it) (it_current_time it) \<Longrightarrow>
      \<exists>index end_index. enter_level tw it =
        Some (it\<lparr>it_index_mask := BUCKET_COUNTS ! it_level it - 1, it_index := index,
                 it_end_index := end_index, it_is_new_level := False, it_is_new_index := True\<rparr>, True) \<and>
        unat index = tick tw (it_level it) (it_previous_time it) mod bcount (it_level it) \<and>
        unat end_index = unat index + window tw it"
proof -
  let ?l = "it_level it"
  let ?p = "drop_bit (SHIFT ! ?l) (time_nanos tw (it_previous_time it))"
  let ?c = "drop_bit (SHIFT ! ?l) (time_nanos tw (it_current_time it))"
  have at: "idx SHIFT ?l = Some (SHIFT ! ?l)" "idx BUCKET_COUNTS ?l = Some (BUCKET_COUNTS ! ?l)"
    using l by (simp_all add: idx_def SHIFT_eq BUCKET_COUNTS_def)
  have le: "?c \<le> ?p \<longleftrightarrow> tick tw ?l (it_current_time it) \<le> tick tw ?l (it_previous_time it)"
    by (simp add: word_le_nat_alt unat_drop_time_nanos)
  show "tick tw ?l (it_current_time it) \<le> tick tw ?l (it_previous_time it) \<Longrightarrow>
      enter_level tw it = Some (it\<lparr>it_is_done := True\<rparr>, False)"
    using at le by (simp add: enter_level_def Let_def)
  assume lt: "tick tw ?l (it_previous_time it) < tick tw ?l (it_current_time it)"
  define index :: u8 where "index = ucast (?p AND (BUCKET_COUNTS ! ?l - 1))"
  define steps :: u8 where "steps = ucast (min (?c - ?p + 1) (BUCKET_COUNTS ! ?l))"
  have b: "0 < bcount ?l" "bcount ?l \<le> 64" using bcount_bounds[OF l] by auto
  have i: "unat index = tick tw ?l (it_previous_time it) mod bcount ?l"
  proof -
    have "unat (?p AND (BUCKET_COUNTS ! ?l - 1)) = tick tw ?l (it_previous_time it) mod bcount ?l"
      by (simp add: and_bucket_mask[OF l] unat_drop_time_nanos)
    moreover have "tick tw ?l (it_previous_time it) mod bcount ?l < 64"
      using b by (meson less_le_trans mod_less_divisor)
    ultimately show ?thesis by (simp add: index_def unsigned_ucast_eq take_bit_nat_eq_self)
  qed
  have s: "unat steps = window tw it"
  proof -
    have sh: "30 \<le> SHIFT ! ?l" using level_cases[OF l] by (auto simp: SHIFT_eq)
    have "unat (?c - ?p) = tick tw ?l (it_current_time it) - tick tw ?l (it_previous_time it)"
      using lt by (simp add: unat_sub word_le_nat_alt unat_drop_time_nanos less_imp_le)
    moreover have "tick tw ?l (it_current_time it) < 2 ^ 63"
    proof -
      have "tick tw ?l (it_current_time it) \<le> unat (time_nanos tw (it_current_time it)) div 2 ^ 30"
        unfolding tick_def unat_time_nanos
        by (intro div_le_mono2 power_increasing[OF sh, of "2 :: nat"]) simp_all
      also have "\<dots> < 2 ^ 63"
        using unat_lt_pow[of "time_nanos tw (it_current_time it)"] by (simp add: less_mult_imp_div_less)
      finally show ?thesis .
    qed
    ultimately have "unat (?c - ?p + 1) = tick tw ?l (it_current_time it) - tick tw ?l (it_previous_time it) + 1"
      by (simp add: unat_word_ariths)
    then have "unat (min (?c - ?p + 1) (BUCKET_COUNTS ! ?l)) = window tw it"
      by (simp only: unat_min_word window_def bcount_def)
    moreover have "window tw it \<le> 64" using b by (simp add: window_def)
    ultimately show ?thesis by (simp add: steps_def unsigned_ucast_eq take_bit_nat_eq_self)
  qed
  have "unat index < 64" using i b by (metis less_le_trans mod_less_divisor)
  moreover have "unat steps \<le> 64" using s b by (simp add: window_def)
  ultimately have "unat (index + steps) = unat index + window tw it" using s by (simp add: unat_word_ariths)
  moreover have "enter_level tw it =
      Some (it\<lparr>it_index_mask := BUCKET_COUNTS ! ?l - 1, it_index := index,
               it_end_index := index + steps, it_is_new_level := False, it_is_new_index := True\<rparr>, True)"
    using at le lt by (simp add: enter_level_def Let_def index_def steps_def)
  ultimately show "\<exists>index end_index. enter_level tw it =
        Some (it\<lparr>it_index_mask := BUCKET_COUNTS ! ?l - 1, it_index := index,
                 it_end_index := end_index, it_is_new_level := False, it_is_new_index := True\<rparr>, True) \<and>
        unat index = tick tw ?l (it_previous_time it) mod bcount ?l \<and>
        unat end_index = unat index + window tw it"
    using i by blast
qed

text \<open>The window of buckets that is visited covers every tick from the previous time to the
  current one.\<close>

lemma window_covers:
  assumes "0 < n" "p \<le> x" "x \<le> c"
  shows "\<exists>k. p mod n \<le> k \<and> k < p mod n + min (c - p + 1) n \<and> x mod n = k mod (n :: nat)"
proof (cases "x - p < n")
  case True
  have "x mod n = (p + (x - p)) mod n" using assms(2) by simp
  also have "\<dots> = (p mod n + (x - p)) mod n" by (simp add: mod_add_left_eq)
  finally show ?thesis using True assms by (intro exI[of _ "p mod n + (x - p)"]) auto
next
  case False
  have "x mod n = (p + (x - p)) mod n" using assms(2) by simp
  also have "\<dots> = (p mod n + (x - p) mod n) mod n" by (simp add: mod_add_eq)
  finally show ?thesis
    using False assms by (intro exI[of _ "p mod n + (x - p) mod n"]) (auto simp: min_def)
qed

subsection \<open>The first half of an iteration: find the bucket\<close>

definition bucket_found :: "'k store \<Rightarrow> timer_wheel \<Rightarrow> timer_events_iter \<Rightarrow> timer_wheel \<Rightarrow> timer_events_iter \<Rightarrow> bool" where
  "bucket_found st tw it tw' it' \<longleftrightarrow>
     wheel_ok st tw' \<and> tw_is_enabled tw' \<and> iter_wf it' \<and> \<not> it_is_done it' \<and>
     \<not> it_is_new_level it' \<and> \<not> it_is_new_index it' \<and>
     tw_origin tw' = tw_origin tw \<and> tw_current tw' = tw_current tw \<and>
     it_current_time it' = it_current_time it \<and> it_previous_time it' = it_previous_time it \<and>
     (iter_measure st tw' it' = iter_measure st tw it \<or> measure_less (iter_measure st tw' it') (iter_measure st tw it)) \<and>
     (caught_up st tw it \<longrightarrow> caught_up st tw' it')"

lemma enter_level_caught_up:
  assumes c: "caught_up st tw it" and n: "it_is_new_level it" and l: "it_level it < 5"
    and it': "it' = it\<lparr>it_index_mask := m, it_index := x, it_end_index := e, it_is_new_level := False,
      it_is_new_index := True\<rparr>"
    and x: "unat x = tick tw (it_level it) (it_previous_time it) mod bcount (it_level it)"
    and e: "unat e = unat x + window tw it"
  shows "caught_up st tw it'"
proof (rule caught_up_step[OF c])
  fix l' i a info t
  assume w: "on_wheel st tw l' i a info t"
  have "timely tw (it_current_time it) l' i t \<or> pending st tw it' l' i a"
    if t: "timely tw (it_previous_time it) l' i t" and p: "pending st tw it l' i a"
  proof (cases "l' = it_level it")
    case True
    let ?p = "tick tw l' (it_previous_time it)" and ?c = "tick tw l' (it_current_time it)"
      and ?x = "tick tw l' t"
    show ?thesis
    proof (cases "?c < ?x")
      case False
      have pos: "0 < bcount l'" using bcount_bounds[OF l] True by simp
      have "?p \<le> ?x" "i = ?x mod bcount l'" using t by (auto simp: timely_def split: if_splits)
      with window_covers[OF pos, of ?p ?x ?c] False obtain k where
        "?p mod bcount l' \<le> k" "k < ?p mod bcount l' + min (?c - ?p + 1) (bcount l')" "i = k mod bcount l'"
        by (metis not_less)
      then have "pending st tw it' l' i a"
        using p True x e by (auto simp: pending_def it' window_def)
      then show ?thesis ..
    qed (use t in \<open>auto simp: timely_def\<close>)
  qed (use p in \<open>auto simp: pending_def it'\<close>)
  with w show "timely tw (it_current_time it) l' i t \<or> on_wheel st tw l' i a info t \<and>
      (timely tw (it_previous_time it) l' i t \<longrightarrow> pending st tw it l' i a \<longrightarrow>
         timely tw (it_current_time it) l' i t \<or> pending st tw it' l' i a)" by blast
qed (simp_all add: it')

lemma reset_caught_up:
  assumes c: "caught_up st tw it" and n: "\<not> it_is_new_level it" and wf: "iter_wf it"
    and sh: "tw_shape tw"
    and q: "set (ad_nodes q) = set (ad_nodes (bkt tw (it_level it) (cur_idx it)))"
      "\<forall>a \<in> set (ad_nodes q). st_timers st a = Some Sentinel \<or> a \<in> set (front st q)"
  shows "caught_up st (set_wheel (it_level it) (cur_idx it) q tw) (it\<lparr>it_is_new_index := False\<rparr>)"
    (is "caught_up st ?tw ?it")
proof (rule caught_up_step[OF c])
  have l: "it_level it < 5" using wf by (simp add: iter_wf_def)
  note b = bkt_set_wheel[OF sh in_range_cur[OF l]]
  fix l' i a info t
  assume w: "on_wheel st ?tw l' i a info t"
  then have w': "on_wheel st tw l' i a info t" using q(1) by (auto simp: on_wheel_def b split: if_splits)
  have "pending st ?tw ?it l' i a" if p: "pending st tw it l' i a"
  proof (cases "it_level it < l'")
    case False
    with p n obtain k where k: "l' = it_level it" "unat (it_index it) \<le> k" "k < unat (it_end_index it)"
      "i = k mod bcount l'" by (auto simp: pending_def)
    have "a \<in> set (front st (bkt ?tw l' i))" if "k = unat (it_index it)"
    proof -
      have i: "i = cur_idx it" using that k by (simp add: cur_idx_def)
      have "st_timers st a \<noteq> Some Sentinel" using w by (auto simp: on_wheel_def timer_at_def)
      with q(2) w i k(1) show ?thesis by (auto simp: on_wheel_def b)
    qed
    with k p show ?thesis by (auto simp: pending_def)
  qed (use p in \<open>auto simp: pending_def\<close>)
  with w' show "timely tw (it_current_time it) l' i t \<or> on_wheel st tw l' i a info t \<and>
      (timely tw (it_previous_time it) l' i t \<longrightarrow> pending st tw it l' i a \<longrightarrow>
         timely tw (it_current_time it) l' i t \<or> pending st ?tw ?it l' i a)" by blast
qed simp_all

lemma reset_step:
  assumes inv: "wheel_ok st tw" and en: "tw_is_enabled tw" and wf: "iter_wf it" and nd: "\<not> it_is_done it"
    and n: "\<not> it_is_new_level it"
  shows "\<exists>tw' it'.
      (if it_is_new_index it then
         do { tw \<leftarrow> reset_timer_node_positions (it_level it) (unat (it_index it AND ucast (it_index_mask it))) st tw;
              Some (tw, it\<lparr>it_is_new_index := False\<rparr>) }
       else Some (tw, it)) = Some (tw', it') \<and> bucket_found st tw it tw' it' \<and>
      it_level it' = it_level it \<and> cur_idx it' = cur_idx it"
proof (cases "it_is_new_index it")
  case True
  have l: "it_level it < 5" and m: "unat (it_index it AND ucast (it_index_mask it)) = cur_idx it"
    using wf n masked_index by (auto simp: iter_wf_def cur_idx_def)
  from reset_positions_ok[OF inv en in_range_cur[OF l]] obtain q where
    q: "reset_timer_node_positions (it_level it) (cur_idx it) st tw = Some (set_wheel (it_level it) (cur_idx it) q tw)"
      "wheel_ok st (set_wheel (it_level it) (cur_idx it) q tw)"
      "set (ad_nodes q) = set (ad_nodes (bkt tw (it_level it) (cur_idx it)))"
      "length (front st q) < length (ad_nodes (bkt tw (it_level it) (cur_idx it)))"
      "\<forall>a \<in> set (ad_nodes q). st_timers st a = Some Sentinel \<or> a \<in> set (front st q)" by blast
  note sh = wheel_invD(1)[OF inv en]
  have "measure_less (iter_measure st (set_wheel (it_level it) (cur_idx it) q tw) (it\<lparr>it_is_new_index := False\<rparr>))
      (iter_measure st tw it)"
    using n True q(4) by (simp add: iter_measure_def cur_idx_def bkt_set_wheel[OF sh in_range_cur[OF l], unfolded cur_idx_def])
  moreover have "iter_wf (it\<lparr>it_is_new_index := False\<rparr>)" using wf by (simp add: iter_wf_def)
  ultimately show ?thesis
    using True q(1,2) m n nd tw_shape_enabled[OF tw_shape_set_wheel[OF sh]]
      reset_caught_up[OF _ n wf sh q(3,5)]
    by (auto simp: bucket_found_def cur_idx_def)
qed (use inv en wf nd n in \<open>auto simp: bucket_found_def\<close>)

lemma find_bucket_ok:
  assumes inv: "wheel_ok st tw" and en: "tw_is_enabled tw" and wf: "iter_wf it" and nd: "\<not> it_is_done it"
  obtains
    (finished) "it_is_new_level it" "enter_level tw it = Some (it\<lparr>it_is_done := True\<rparr>, False)"
      "caught_up st tw it \<Longrightarrow> caught_up st tw (it\<lparr>it_is_done := True\<rparr>)"
  | (found) it1 tw' it' where
      "(if it_is_new_level it then enter_level tw it else Some (it, True)) = Some (it1, True)"
      "(if it_is_new_index it1 then
         do { tw \<leftarrow> reset_timer_node_positions (it_level it1) (unat (it_index it1 AND ucast (it_index_mask it1))) st tw;
              Some (tw, it1\<lparr>it_is_new_index := False\<rparr>) }
       else Some (tw, it1)) = Some (tw', it')"
      "unat (it_index it1 AND ucast (it_index_mask it1)) = cur_idx it'"
      "bucket_found st tw it tw' it'"
proof (cases "it_is_new_level it")
  case False
  have m: "unat (it_index it AND ucast (it_index_mask it)) = cur_idx it"
    using wf False masked_index by (auto simp: iter_wf_def cur_idx_def)
  from reset_step[OF inv en wf nd False] False m show thesis by (metis found)
next
  case True
  have l: "it_level it < 5" using wf by (simp add: iter_wf_def)
  show thesis
  proof (cases "tick tw (it_level it) (it_current_time it) \<le> tick tw (it_level it) (it_previous_time it)")
    case le: True
    have "caught_up st tw (it\<lparr>it_is_done := True\<rparr>)" if c: "caught_up st tw it"
    proof (rule caught_up_step[OF c])
      fix l' i a info t
      assume w: "on_wheel st tw l' i a info t"
      have "timely tw (it_current_time it) l' i t"
        if t: "timely tw (it_previous_time it) l' i t" and p: "pending st tw it l' i a"
      proof -
        have "it_level it \<le> l'" "l' < 5" using p w by (auto simp: pending_def on_wheel_def in_range_def)
        from tick_up[OF le this] t show ?thesis by (auto simp: timely_def split: if_splits)
      qed
      with w show "timely tw (it_current_time it) l' i t \<or> on_wheel st tw l' i a info t \<and>
        (timely tw (it_previous_time it) l' i t \<longrightarrow> pending st tw it l' i a \<longrightarrow>
         timely tw (it_current_time it) l' i t \<or> pending st tw (it\<lparr>it_is_done := True\<rparr>) l' i a)" by blast
    qed simp_all
    with True enter_level_eq(1)[OF l le] show thesis by (rule_tac finished)
  next
    case False
    then obtain x e where e: "enter_level tw it =
        Some (it\<lparr>it_index_mask := BUCKET_COUNTS ! it_level it - 1, it_index := x,
                 it_end_index := e, it_is_new_level := False, it_is_new_index := True\<rparr>, True)"
      "unat x = tick tw (it_level it) (it_previous_time it) mod bcount (it_level it)"
      "unat e = unat x + window tw it" using enter_level_eq(2)[OF l] by (meson not_le)
    let ?it = "it\<lparr>it_index_mask := BUCKET_COUNTS ! it_level it - 1, it_index := x,
                 it_end_index := e, it_is_new_level := False, it_is_new_index := True\<rparr>"
    have w: "0 < window tw it" "window tw it \<le> 64"
      using bcount_bounds[OF l] by (auto simp: window_def)
    have x: "unat x < 64" using e(2) bcount_bounds[OF l] by (metis less_le_trans mod_less_divisor)
    have wf1: "iter_wf ?it" using l w x e(3) by (simp add: iter_wf_def word_less_nat_alt)
    have m: "unat (it_index ?it AND ucast (it_index_mask ?it)) = cur_idx ?it"
      using masked_index[OF l] by (simp add: cur_idx_def)
    obtain tw' it' where r: "(if it_is_new_index ?it then
         do { tw \<leftarrow> reset_timer_node_positions (it_level ?it) (unat (it_index ?it AND ucast (it_index_mask ?it))) st tw;
              Some (tw, ?it\<lparr>it_is_new_index := False\<rparr>) }
       else Some (tw, ?it)) = Some (tw', it')" "bucket_found st tw ?it tw' it'"
      "cur_idx it' = cur_idx ?it"
      using reset_step[OF inv en wf1] nd by fastforce
    have "measure_less (iter_measure st tw ?it) (iter_measure st tw it)"
      using True w(2) x e(3) unfolding iter_measure_def by (intro measure_lessI(2)) simp_all
    with r(2) have ml: "measure_less (iter_measure st tw' it') (iter_measure st tw it)"
      unfolding bucket_found_def by (metis measure_less_trans)
    have "bucket_found st tw it tw' it'"
      using r(2) ml enter_level_caught_up[OF _ True l refl e(2,3)] unfolding bucket_found_def by auto
    with r e(1) m True show thesis by (intro found[of ?it tw' it']) simp_all
  qed
qed

subsection \<open>The second half: take a node from the bucket\<close>

lemma front_push_back:
  assumes "bucket_ok st l i q"
  shows "front st (ad_push_back a q) = front st q"
proof -
  obtain s where "s \<in> set (ad_nodes q)" "st_timers st s = Some Sentinel"
    using assms unfolding bucket_ok_def by blast
  then show ?thesis by (auto simp: front_def takeWhile_append1)
qed

lemma front_frame:
  "(\<And>b. b \<in> set (ad_nodes q) \<Longrightarrow> (st_timers st' b = Some Sentinel) = (st_timers st b = Some Sentinel)) \<Longrightarrow>
   front st' q = front st q"
  unfolding front_def by (rule takeWhile_cong) auto

definition expired_node :: "'k store \<Rightarrow> 'k store \<Rightarrow> instant \<Rightarrow> addr \<Rightarrow> info_id \<Rightarrow> bool" where
  "expired_node st st' now a info \<longleftrightarrow>
     (\<exists>g t. st_timers st' a = Some (TimerEntry None g info (Suc info)) \<and>
        fst (expiration_state (st_infos st info)) = Some t \<and> t \<le> now \<and>
        dns_timer_node (st_nodes st (Suc info)) = Some a \<and>
        dns_timer_node (st_nodes st' (Suc info)) = None)"

text \<open>What an iteration guarantees. Timer pointers are only ever cleared, and a pointer of an
  entry with an expiration time is cleared only when the entry's node is returned as expired.\<close>

definition iter_post ::
  "'k store \<Rightarrow> timer_wheel \<Rightarrow> timer_events_iter \<Rightarrow> 'k store \<Rightarrow> timer_wheel \<Rightarrow> timer_events_iter \<Rightarrow>
    timer_event option loop_step \<Rightarrow> bool" where
  "iter_post st tw it st' tw' it' r \<longleftrightarrow>
     wheel_ok st' tw' \<and> tw_is_enabled tw' \<and> timer_frame st st' \<and>
     tw_origin tw' = tw_origin tw \<and> tw_current tw' = tw_current tw \<and>
     it_current_time it' = it_current_time it \<and> it_previous_time it' = it_previous_time it \<and>
     (it_is_done it' \<longleftrightarrow> r = Return None) \<and>
     (\<not> it_is_done it' \<longrightarrow> iter_wf it' \<and> measure_less (iter_measure st' tw' it') (iter_measure st tw it)) \<and>
     (\<forall>a. r = Return (Some (Expired a)) \<longrightarrow> (\<exists>info. expired_node st st' (it_current_time it) a info)) \<and>
     (\<forall>n a. dns_timer_node (st_nodes st' n) = Some a \<longrightarrow> dns_timer_node (st_nodes st n) = Some a) \<and>
     (\<forall>info a. dns_timer_node (st_nodes st (Suc info)) = Some a \<longrightarrow>
        dns_timer_node (st_nodes st' (Suc info)) = None \<longrightarrow>
        fst (expiration_state (st_infos st info)) \<noteq> None \<longrightarrow> r = Return (Some (Expired a))) \<and>
     (caught_up st tw it \<longrightarrow> caught_up st' tw' it')"

lemma next_index_ok:
  assumes inv: "wheel_ok st tw" and en: "tw_is_enabled tw" and wf: "iter_wf it" and nd: "\<not> it_is_done it"
    and n: "\<not> it_is_new_level it" "\<not> it_is_new_index it"
    and f: "front st (bkt tw (it_level it) (cur_idx it)) = []"
    and ni: "next_index it = (it', r)"
  shows "iter_post st tw it st tw it' r"
proof -
  have l: "it_level it < 5" and x: "unat (it_index it) < unat (it_end_index it)" "unat (it_end_index it) \<le> 128"
    using wf n(1) by (auto simp: iter_wf_def word_less_nat_alt)
  have s: "unat (it_index it + 1) = unat (it_index it) + 1" using x by (simp add: unat_word_ariths)
  have "length BUCKET_COUNTS = 5" by (simp add: BUCKET_COUNTS_def)
  then have it': "it' =
      (if unat (it_end_index it) \<le> unat (it_index it) + 1 then
         (if it_level it = 4
          then it\<lparr>it_index := it_index it + 1, it_is_new_index := True, it_level := 5, it_is_done := True\<rparr>
          else it\<lparr>it_index := it_index it + 1, it_is_new_index := True, it_level := it_level it + 1,
                  it_is_new_level := True\<rparr>)
       else it\<lparr>it_index := it_index it + 1, it_is_new_index := True\<rparr>)"
    and r: "r = Return None \<longleftrightarrow> unat (it_end_index it) \<le> unat (it_index it) + 1 \<and> it_level it = 4"
    "r = Return None \<or> r = Continue"
    using ni l by (auto simp: next_index_def Let_def word_le_nat_alt s split: if_splits)
  have "caught_up st tw it'" if c: "caught_up st tw it"
  proof (rule caught_up_step[OF c])
    fix l' i a info t
    assume w: "on_wheel st tw l' i a info t"
    have "pending st tw it' l' i a" if p: "pending st tw it l' i a"
    proof (cases "it_level it < l'")
      case True
      then show ?thesis using nd w by (auto simp: pending_def it' on_wheel_def in_range_def)
    next
      case False
      with p n obtain k where k: "l' = it_level it" "unat (it_index it) \<le> k" "k < unat (it_end_index it)"
        "i = k mod bcount l'" "k = unat (it_index it) \<longrightarrow> a \<in> set (front st (bkt tw l' i))"
        by (auto simp: pending_def)
      have "k \<noteq> unat (it_index it)"
        using k(1,4,5) f by (auto simp: cur_idx_def)
      with k(2,3) have "unat (it_index it) + 1 \<le> k" "\<not> unat (it_end_index it) \<le> unat (it_index it) + 1" by auto
      with k n nd s show ?thesis by (auto simp: pending_def it')
    qed
    with w show "timely tw (it_current_time it) l' i t \<or> on_wheel st tw l' i a info t \<and>
      (timely tw (it_previous_time it) l' i t \<longrightarrow> pending st tw it l' i a \<longrightarrow>
         timely tw (it_current_time it) l' i t \<or> pending st tw it' l' i a)" by blast
  qed (simp_all add: it')
  moreover have "measure_less (iter_measure st tw it') (iter_measure st tw it)" if "\<not> it_is_done it'"
    using that n l x s unfolding it' iter_measure_def by (auto split: if_splits)
  moreover have "iter_wf it'" if "\<not> it_is_done it'"
    using that wf n l s x by (auto simp: it' iter_wf_def word_less_nat_alt)
  moreover have "it_is_done it' \<longleftrightarrow> r = Return None" using r(1) nd by (auto simp: it')
  ultimately show ?thesis
    using inv en r(2) by (auto simp: iter_post_def it')
qed

text \<open>After the front node has been taken, the nodes left on the wheel are those that were
  there, and what is pending stays pending.\<close>

lemma popped_caught_up:
  assumes c: "caught_up st tw it" and sh: "tw_shape tw" and wf: "iter_wf it"
    and n: "\<not> it_is_new_level it" "\<not> it_is_new_index it"
    and f: "front st (bkt tw (it_level it) (cur_idx it)) = a # fs"
    and q: "ad_nodes (bkt tw (it_level it) (cur_idx it)) = a # ad_nodes q"
    and o: "tw_origin tw' = tw_origin tw" and infos: "st_infos st' = st_infos st"
    and fr: "front st' (bkt tw' (it_level it) (cur_idx it)) = fs"
    and w: "\<And>l i b info t. on_wheel st' tw' l i b info t \<Longrightarrow>
      timely tw (it_current_time it) l i t \<or> b \<noteq> a \<and> on_wheel st tw l i b info t"
  shows "caught_up st' tw' it"
proof (rule caught_up_step[OF c o])
  fix l i b info t
  assume wb: "on_wheel st' tw' l i b info t"
  have "pending st' tw' it l i b" if p: "pending st tw it l i b" "b \<noteq> a"
  proof (cases "it_level it < l")
    case False
    with p n obtain k where k: "l = it_level it" "unat (it_index it) \<le> k" "k < unat (it_end_index it)"
      "i = k mod bcount l" "k = unat (it_index it) \<longrightarrow> b \<in> set (front st (bkt tw l i))"
      by (auto simp: pending_def)
    have "b \<in> set (front st' (bkt tw' l i))" if "k = unat (it_index it)"
    proof -
      have i: "i = cur_idx it" using that k(1,4) by (simp add: cur_idx_def)
      show ?thesis using k(5) that p(2) f fr unfolding k(1) i by simp
    qed
    with k p show ?thesis by (auto simp: pending_def)
  qed (use p in \<open>auto simp: pending_def\<close>)
  with w[OF wb] show "timely tw (it_current_time it) l i t \<or> on_wheel st tw l i b info t \<and>
      (timely tw (it_previous_time it) l i t \<longrightarrow> pending st tw it l i b \<longrightarrow>
         timely tw (it_current_time it) l i t \<or> pending st' tw' it l i b)" by blast
qed simp_all

lemma popped_ok:
  assumes inv: "wheel_ok st tw" and en: "tw_is_enabled tw" and wf: "iter_wf it" and nd: "\<not> it_is_done it"
    and n: "\<not> it_is_new_level it" "\<not> it_is_new_index it" and cur: "it_current_time it = tw_current tw"
    and f: "front st (bkt tw (it_level it) (cur_idx it)) = a # fs"
  shows "\<exists>st1 tw1 st' tw' r. pop_timer_node (it_level it) (cur_idx it) st tw = Some (st1, tw1, Some a) \<and>
    handle_popped a it st1 tw1 = Some (st', tw', r) \<and> iter_post st tw it st' tw' it r"
proof -
  let ?l = "it_level it" and ?i = "cur_idx it"
  have l: "?l < 5" using wf by (simp add: iter_wf_def)
  note r = in_range_cur[OF l] and sh = wheel_invD(1)[OF inv en]
  obtain q info g where pop: "pop_timer_node ?l ?i st tw =
       Some (set_timer a (TimerEntry None g info (Suc info)) st, set_wheel ?l ?i q tw, Some a)"
    and inv1: "wheel_inv {Suc info} (set_timer a (TimerEntry None g info (Suc info)) st) (set_wheel ?l ?i q tw)"
    and at: "timer_at st a ?l ?i info" "g = dns_timer_node_expiry_gen (st_nodes st (Suc info))"
    and q: "ad_nodes (bkt tw ?l ?i) = a # ad_nodes q"
    and fq: "front (set_timer a (TimerEntry None g info (Suc info)) st) q = fs"
    using pop_timer_node_Some[OF inv en r f] by blast
  let ?st = "set_timer a (TimerEntry None g info (Suc info)) st" and ?tw = "set_wheel ?l ?i q tw"
  note b1 = bkt_set_wheel[OF sh r]
  have sh1: "tw_shape ?tw" and en1: "tw_is_enabled ?tw"
    using tw_shape_set_wheel[OF sh] tw_shape_enabled by auto
  have a1: "st_timers ?st a = Some (TimerEntry None g info (Suc info))"
    "dns_timer_node (st_nodes ?st (Suc info)) = Some a"
    "dns_timer_node_expiry_gen (st_nodes ?st (Suc info)) = g"
    using at by (simp_all add: timer_at_def)
  have amem: "a \<notin> set (ad_nodes (bkt ?tw l i))" if "in_range l i" for l i
    using unplaced_not_in_bucket[OF wheel_invD(2)[OF inv1 en1 that] a1(1)] .
  have was: "on_wheel st tw l i b info' t"
    if "in_range l i" "b \<in> set (ad_nodes (bkt ?tw l i))" "timer_at ?st b l i info'"
      "fst (expiration_state (st_infos st info')) = Some t" "b \<noteq> a" for l i b info' t
    using that q by (auto simp: on_wheel_def b1 timer_at_def split: if_splits)
  note pc = popped_caught_up[OF _ sh wf n f q]
  have post: "iter_post st tw it st' tw' it rr"
    if p: "wheel_ok st' tw'" "tw_is_enabled tw'" "timer_frame st st'" "tw_origin tw' = tw_origin tw"
      "tw_current tw' = tw_current tw" "rr \<noteq> Return None"
      "front st' (bkt tw' ?l ?i) = fs"
      "\<And>b. rr = Return (Some (Expired b)) \<Longrightarrow> \<exists>info. expired_node st st' (it_current_time it) b info"
      "\<And>l i b info' t. on_wheel st' tw' l i b info' t \<Longrightarrow>
        timely tw (it_current_time it) l i t \<or> b \<noteq> a \<and> on_wheel st tw l i b info' t"
      "\<And>m. m \<noteq> Suc info \<Longrightarrow> dns_timer_node (st_nodes st' m) = dns_timer_node (st_nodes st m)"
      "dns_timer_node (st_nodes st' (Suc info)) = Some a \<or> dns_timer_node (st_nodes st' (Suc info)) = None \<and>
        (fst (expiration_state (st_infos st info)) = None \<or> rr = Return (Some (Expired a)))"
    for st' tw' rr
  proof -
    have "measure_less (iter_measure st' tw' it) (iter_measure st tw it)"
      using n f p(7) by (simp add: iter_measure_def)
    moreover have "caught_up st' tw' it" if "caught_up st tw it"
      using pc[OF that p(4) _ p(7) p(9)] p(3) by (simp add: timer_frame_def)
    moreover have "dns_timer_node (st_nodes st m) = Some b" if "dns_timer_node (st_nodes st' m) = Some b" for m b
      using that p(10)[of m] p(11) a1(2) by (cases "m = Suc info") auto
    moreover have "rr = Return (Some (Expired b))"
      if "dns_timer_node (st_nodes st (Suc info')) = Some b" "dns_timer_node (st_nodes st' (Suc info')) = None"
        "fst (expiration_state (st_infos st info')) \<noteq> None" for info' b
      using that p(10)[of "Suc info'"] p(11) a1(2) by (cases "info' = info") auto
    ultimately show ?thesis using p(1-6,8) wf nd by (simp add: iter_post_def)
  qed
  from inv1 en1 a1 show ?thesis
  proof (cases rule: handle_popped_ok[where it = it])
    case (expired t)
    let ?s = "upd_nodes (Suc info) (dns_set_timer_node None 0) ?st"
    have f': "front ?s (bkt ?tw ?l ?i) = fs" using fq by (simp add: b1 front_def)
    have "timer_at ?st b l i info'" if "timer_at ?s b l i info'" for b l i info'
      using that by (auto simp: timer_at_def dns_set_timer_node_def split: if_splits)
    then have ow: "b \<noteq> a \<and> on_wheel st tw l i b info' t'" if "on_wheel ?s ?tw l i b info' t'" for l i b info' t'
      using that was[of l i b info' t'] amem[of l i] by (auto simp: on_wheel_def)
    have "expired_node st ?s (it_current_time it) a info"
      using expired(1,2) a1(1,2) by (simp add: expired_node_def dns_set_timer_node_def)
    then have "iter_post st tw it ?s ?tw it (Return (Some (Expired a)))"
      using expired(4) en1 f' ow by (intro post) (auto simp: dns_set_timer_node_def)
    with pop expired(3) show ?thesis by blast
  next
    case (rescheduled t l i st' tw')
    have r': "in_range l i" using rescheduled(3) by (rule place_in_range)
    note b2 = bkt_set_wheel[OF sh1 r']
    have fr: "front st' (bkt ?tw ?l ?i) = fs"
    proof -
      have "front st' q = front ?st q" by (rule front_frame) (simp add: rescheduled(4))
      then show ?thesis using fq by (simp add: b1)
    qed
    have "bucket_ok ?st ?l ?i (bkt ?tw ?l ?i)" by (rule wheel_invD(2)[OF inv1 en1 r])
    then obtain s where s: "s \<in> set (ad_nodes (bkt ?tw ?l ?i))" "st_timers ?st s = Some Sentinel"
      unfolding bucket_ok_def by blast
    then have "st_timers st' s = Some Sentinel" using a1(1) rescheduled(4) by auto
    with s(1) fr have f': "front st' (bkt tw' ?l ?i) = fs"
      by (auto simp: rescheduled(5) b2 front_def takeWhile_append1)
    have tm: "timely tw (it_current_time it) l i t"
    proof -
      have "tw_origin ?tw \<le> tw_current ?tw" "tw_current ?tw \<le> t"
        using wheel_invD(5)[OF inv] rescheduled(2) cur by auto
      from place_index[OF rescheduled(3)] place_tick[OF rescheduled(3) this] cur
      show ?thesis by (auto simp: timely_def tick_def)
    qed
    have ow: "timely tw (it_current_time it) l' i' t' \<or> b \<noteq> a \<and> on_wheel st tw l' i' b info' t'"
      if w: "on_wheel st' tw' l' i' b info' t'" for l' i' b info' t'
    proof (cases "b = a")
      case True
      have "timer_at st' a l i info" using a1 by (simp add: rescheduled(4) timer_at_def)
      with w True have "l' = l \<and> i' = i \<and> info = info'"
        using timer_at_inj[OF r', of l' i' st' a info info'] by (auto simp: on_wheel_def)
      with w rescheduled(1,4) tm show ?thesis by (auto simp: on_wheel_def)
    next
      case False
      with w have "timer_at ?st b l' i' info'" "b \<in> set (ad_nodes (bkt ?tw l' i'))"
        by (auto simp: on_wheel_def rescheduled(4,5) timer_at_def b2 split: if_splits)
      with w was[of l' i' b info' t'] False show ?thesis
        by (auto simp: on_wheel_def rescheduled(4))
    qed
    have "tw_is_enabled tw'" unfolding rescheduled(5)
      by (rule tw_shape_enabled[OF tw_shape_set_wheel[OF sh1]])
    then have "iter_post st tw it st' tw' it (Return (Some Rescheduled))"
      using rescheduled(4,5,7) f' ow a1(2) by (intro post) auto
    with pop rescheduled(6) show ?thesis by blast
  next
    case dropped
    let ?s0 = "upd_nodes (Suc info) (dns_set_timer_node None 0) ?st"
    have "front (free_timer a ?s0) (bkt ?tw ?l ?i) = front ?st q"
      using amem[OF r] by (simp add: b1, intro front_frame) auto
    then have f': "front (free_timer a ?s0) (bkt ?tw ?l ?i) = fs" using fq by simp
    have "timer_at ?st b l i info' \<and> b \<noteq> a" if "timer_at (free_timer a ?s0) b l i info'" for b l i info'
      using that by (auto simp: timer_at_def dns_set_timer_node_def split: if_splits)
    then have ow: "b \<noteq> a \<and> on_wheel st tw l i b info' t'" if "on_wheel (free_timer a ?s0) ?tw l i b info' t'" for l i b info' t'
      using that was[of l i b info' t'] by (auto simp: on_wheel_def)
    have "iter_post st tw it (free_timer a ?s0) ?tw it Continue"
      using dropped(1,3) en1 f' ow by (intro post) (auto simp: dns_set_timer_node_def)
    with pop dropped(2) show ?thesis by blast
  qed
qed

lemma iter_body_ok:
  assumes inv: "wheel_ok st tw" and en: "tw_is_enabled tw" and wf: "iter_wf it" and nd: "\<not> it_is_done it"
    and cur: "it_current_time it = tw_current tw"
  shows "\<exists>st' tw' it' r. iter_body (st, tw, it) = Some ((st', tw', it'), r) \<and> iter_post st tw it st' tw' it' r"
  using inv en wf nd
proof (cases rule: find_bucket_ok)
  case finished
  then have "iter_body (st, tw, it) = Some ((st, tw, it\<lparr>it_is_done := True\<rparr>), Return None)"
    by (simp add: iter_body_def)
  moreover have "iter_post st tw it st tw (it\<lparr>it_is_done := True\<rparr>) (Return None)"
    using inv en finished(3) by (simp add: iter_post_def)
  ultimately show ?thesis by blast
next
  case (found it1 tw1 it')
  note bf = found(4)[unfolded bucket_found_def]
  have lv: "it_level it1 = it_level it'"
    using found(2) by (auto split: if_splits simp: Option.bind_eq_Some_conv)
  have body: "iter_body (st, tw, it) =
      do { (st, tw, popped) \<leftarrow> pop_timer_node (it_level it') (cur_idx it') st tw1;
           case popped of
             Some node \<Rightarrow> do { (st, tw, r) \<leftarrow> handle_popped node it' st tw; Some ((st, tw, it'), r) }
           | None \<Rightarrow> (let (it, r) = next_index it' in Some ((st, tw, it), r)) }"
    using found(1,2,3) lv unfolding iter_body_def Let_def by (simp add: lv)
  have chain: "iter_post st tw it st' tw' it'' r" if "iter_post st tw1 it' st' tw' it'' r" for st' tw' it'' r
  proof -
    have "measure_less (iter_measure st' tw' it'') (iter_measure st tw it)"
      if "measure_less (iter_measure st' tw' it'') (iter_measure st tw1 it')"
      using bf that measure_less_trans by metis
    with that bf show ?thesis unfolding iter_post_def by auto
  qed
  show ?thesis
  proof (cases "front st (bkt tw1 (it_level it') (cur_idx it'))")
    case Nil
    obtain it2 r where ni: "next_index it' = (it2, r)" by fastforce
    from next_index_ok[OF _ _ _ _ _ _ Nil ni] bf have "iter_post st tw1 it' st tw1 it2 r" by blast
    moreover have "pop_timer_node (it_level it') (cur_idx it') st tw1 = Some (st, tw1, None)"
      using pop_timer_node_None[OF _ _ in_range_cur Nil] bf by (auto simp: iter_wf_def)
    ultimately show ?thesis using body ni chain by auto
  next
    case (Cons a fs)
    have "it_current_time it' = tw_current tw1" using bf cur by simp
    with popped_ok[OF _ _ _ _ _ _ _ Cons] bf obtain st1 tw2 st' tw' r where
      "pop_timer_node (it_level it') (cur_idx it') st tw1 = Some (st1, tw2, Some a)"
      "handle_popped a it' st1 tw2 = Some (st', tw', r)" "iter_post st tw1 it' st' tw' it' r" by blast
    then show ?thesis using body chain by auto
  qed
qed

section \<open>The loop of \<open>next\<close> and the whole iteration\<close>

lemma iter_post_trans:
  assumes "iter_post st tw it st1 tw1 it1 Continue" "iter_post st1 tw1 it1 st2 tw2 it2 r"
  shows "iter_post st tw it st2 tw2 it2 r"
proof -
  note a = assms(1)[unfolded iter_post_def] and b = assms(2)[unfolded iter_post_def]
  have nd1: "\<not> it_is_done it1" using a by simp
  have infos: "st_infos st1 = st_infos st" using a by (auto simp: timer_frame_def)
  have m: "measure_less (iter_measure st2 tw2 it2) (iter_measure st tw it)" if "\<not> it_is_done it2"
    using a b nd1 that measure_less_trans by metis
  have ex: "\<exists>info. expired_node st st2 (it_current_time it) x info" if rx: "r = Return (Some (Expired x))" for x
  proof -
    obtain info where "expired_node st1 st2 (it_current_time it1) x info" using b rx by blast
    then have "expired_node st st2 (it_current_time it) x info"
      using a unfolding expired_node_def infos by auto
    then show ?thesis ..
  qed
  have ptr: "dns_timer_node (st_nodes st n) = Some x" if "dns_timer_node (st_nodes st2 n) = Some x" for n x
    using a b that by blast
  have cl: "r = Return (Some (Expired x))"
    if p: "dns_timer_node (st_nodes st (Suc info)) = Some x" "dns_timer_node (st_nodes st2 (Suc info)) = None"
      "fst (expiration_state (st_infos st info)) \<noteq> None" for info x
  proof (cases "dns_timer_node (st_nodes st1 (Suc info))")
    case None
    then have "Continue = Return (Some (Expired x))" using a p by blast
    then show ?thesis by simp
  next
    case (Some y)
    then have "dns_timer_node (st_nodes st (Suc info)) = Some y" using a by blast
    with p(1) have "y = x" by simp
    with Some p(2,3) b infos show ?thesis by simp
  qed
  have fr: "timer_frame st st2" using a b timer_frame_trans by blast
  show ?thesis unfolding iter_post_def
    using a b m ex ptr cl fr nd1 by simp
qed

definition loop_pre :: "'k store \<Rightarrow> timer_wheel \<Rightarrow> timer_events_iter \<Rightarrow> bool" where
  "loop_pre st tw it \<longleftrightarrow> wheel_ok st tw \<and> tw_is_enabled tw \<and> iter_wf it \<and> \<not> it_is_done it \<and>
     it_current_time it = tw_current tw"

lemma iter_post_pre:
  "loop_pre st tw it \<Longrightarrow> iter_post st tw it st' tw' it' r \<Longrightarrow> r \<noteq> Return None \<Longrightarrow> loop_pre st' tw' it'"
  by (simp add: loop_pre_def iter_post_def)

lemma measure_wf: "wf {(x, y). measure_less x y}"
  by (simp add: wf_lex_prod)

lemma iter_loop_ok:
  assumes "loop_pre st tw it"
  shows "\<exists>st' tw' it' e. iter_loop (st, tw, it) = Some ((st', tw', it'), e) \<and>
    iter_post st tw it st' tw' it' (Return e)"
  using assms
proof (induction "iter_measure st tw it" arbitrary: st tw it rule: wf_induct_rule[OF measure_wf])
  case 1
  from iter_body_ok[of st tw it] 1(2) obtain st1 tw1 it1 r where
    b: "iter_body (st, tw, it) = Some ((st1, tw1, it1), r)" "iter_post st tw it st1 tw1 it1 r"
    unfolding loop_pre_def by blast
  show ?case
  proof (cases r)
    case (Return e)
    with b have "iter_loop (st, tw, it) = Some ((st1, tw1, it1), e)"
      by (subst iter_loop.simps) simp
    with b Return show ?thesis by blast
  next
    case Continue
    have pre: "loop_pre st1 tw1 it1" using iter_post_pre[OF 1(2) b(2)] Continue by simp
    have "measure_less (iter_measure st1 tw1 it1) (iter_measure st tw it)"
      using b(2) pre by (simp add: iter_post_def loop_pre_def)
    with 1(1) pre obtain st' tw' it' e where
      l: "iter_loop (st1, tw1, it1) = Some ((st', tw', it'), e)" "iter_post st1 tw1 it1 st' tw' it' (Return e)"
      by blast
    have "iter_loop (st, tw, it) = Some ((st', tw', it'), e)"
      using b(1) Continue l(1) by (subst iter_loop.simps) simp
    with iter_post_trans[OF _ l(2)] b(2) Continue show ?thesis by blast
  qed
qed

text \<open>A client that runs the iterator to its end, dropping the expired nodes and collecting
  their entries.\<close>

partial_function (option) drain_expired ::
  "'k store \<times> timer_wheel \<times> timer_events_iter \<Rightarrow>
    (('k store \<times> timer_wheel \<times> timer_events_iter) \<times> info_id list) or_panic" where
  "drain_expired s =
     do { (s, e) \<leftarrow> timer_next s;
          case e of
            None \<Rightarrow> Some (s, [])
          | Some e \<Rightarrow>
              (case e of
                 Expired a \<Rightarrow>
                   do { n \<leftarrow> st_timers (fst s) a;
                        info \<leftarrow> timer_entry_info n;
                        (s, infos) \<leftarrow> drain_expired (free_timer a (fst s), snd s);
                        Some (s, info # infos) }
               | Rescheduled \<Rightarrow> drain_expired s
               | Descheduled \<Rightarrow> drain_expired s) }"

definition drain_post ::
  "'k store \<Rightarrow> timer_wheel \<Rightarrow> timer_events_iter \<Rightarrow> 'k store \<Rightarrow> timer_wheel \<Rightarrow> timer_events_iter \<Rightarrow>
    info_id list \<Rightarrow> bool" where
  "drain_post st tw it st' tw' it' infos \<longleftrightarrow>
     wheel_ok st' tw' \<and> timer_frame st st' \<and> it_is_done it' \<and>
     tw_origin tw' = tw_origin tw \<and> tw_current tw' = tw_current tw \<and>
     it_current_time it' = it_current_time it \<and>
     (\<forall>info \<in> set infos. dns_timer_node (st_nodes st (Suc info)) \<noteq> None \<and>
        (\<exists>t. fst (expiration_state (st_infos st info)) = Some t \<and> t \<le> it_current_time it)) \<and>
     (\<forall>n a. dns_timer_node (st_nodes st' n) = Some a \<longrightarrow> dns_timer_node (st_nodes st n) = Some a) \<and>
     (\<forall>info. dns_timer_node (st_nodes st (Suc info)) \<noteq> None \<longrightarrow>
        dns_timer_node (st_nodes st' (Suc info)) = None \<longrightarrow>
        fst (expiration_state (st_infos st info)) \<noteq> None \<longrightarrow> info \<in> set infos) \<and>
     (caught_up st tw it \<longrightarrow> caught_up st' tw' it')"

lemma wheel_ptr_inj:
  assumes "wheel_ok st tw" "dns_timer_node (st_nodes st n) = Some x" "dns_timer_node (st_nodes st m) = Some x"
  shows "n = m"
proof -
  obtain l i info where a: "n = Suc info" "timer_at st x l i info"
    using wheel_inv_ptrE[OF assms(1,2)] by blast
  obtain l' i' info' where b: "m = Suc info'" "timer_at st x l' i' info'"
    using wheel_inv_ptrE[OF assms(1,3)] by blast
  from a b show ?thesis by (simp add: timer_at_def)
qed

lemma drain_post_step:
  assumes inv: "wheel_ok st tw" and a: "iter_post st tw it st1 tw1 it1 (Return e)" and e: "e \<noteq> None"
    and b: "drain_post st1' tw1 it1 st2 tw2 it2 infos"
    and st1': "st1' = st1 \<or> (\<exists>x. e = Some (Expired x) \<and> st1' = free_timer x st1)"
    and new: "infos' = infos \<and> (\<forall>x. e \<noteq> Some (Expired x)) \<or>
      (\<exists>x info. e = Some (Expired x) \<and> expired_node st st1 (it_current_time it) x info \<and> infos' = info # infos)"
    and c: "caught_up st1 tw1 it1 \<Longrightarrow> caught_up st1' tw1 it1"
  shows "drain_post st tw it st2 tw2 it2 infos'"
proof -
  note a' = a[unfolded iter_post_def] and b' = b[unfolded drain_post_def]
  have same: "st_infos st1' = st_infos st" "st_nodes st1' = st_nodes st1" "timer_frame st st1'"
    using a' st1' by (auto simp: timer_frame_def)
  have sound: "dns_timer_node (st_nodes st (Suc info)) \<noteq> None \<and>
        (\<exists>t. fst (expiration_state (st_infos st info)) = Some t \<and> t \<le> it_current_time it)"
    if "info \<in> set infos'" for info
  proof (cases "info \<in> set infos")
    case True
    then obtain y where "dns_timer_node (st_nodes st1' (Suc info)) = Some y"
      "\<exists>t. fst (expiration_state (st_infos st info)) = Some t \<and> t \<le> it_current_time it1"
      using b' same by auto
    with a' same(2) show ?thesis by auto
  qed (use that new in \<open>auto simp: expired_node_def\<close>)
  have ptr: "dns_timer_node (st_nodes st n) = Some x" if "dns_timer_node (st_nodes st2 n) = Some x" for n x
  proof -
    have "dns_timer_node (st_nodes st1' n) = Some x" using b' that by blast
    with a' same(2) show ?thesis by auto
  qed
  have compl: "info \<in> set infos'"
    if p: "dns_timer_node (st_nodes st (Suc info)) \<noteq> None" "dns_timer_node (st_nodes st2 (Suc info)) = None"
      "fst (expiration_state (st_infos st info)) \<noteq> None" for info
  proof (cases "dns_timer_node (st_nodes st1 (Suc info))")
    case None
    obtain x where x: "dns_timer_node (st_nodes st (Suc info)) = Some x" using p(1) by auto
    with a' None p(3) have "e = Some (Expired x)" by auto
    with new obtain i where i: "expired_node st st1 (it_current_time it) x i" "infos' = i # infos" by auto
    have "dns_timer_node (st_nodes st (Suc i)) = Some x" using i(1) by (auto simp: expired_node_def)
    from wheel_ptr_inj[OF inv this x] i(2) show ?thesis by simp
  next
    case (Some y)
    with p b' same new show ?thesis by auto
  qed
  have "timer_frame st st2" using same(3) b' timer_frame_trans by blast
  with a' b' sound ptr compl c show ?thesis unfolding drain_post_def by simp
qed


lemma free_expired:
  assumes inv: "wheel_ok st tw" and a: "st_timers st a = Some (TimerEntry None g info n)"
  shows "wheel_ok (free_timer a st) tw"
    and "tw_is_enabled tw \<Longrightarrow> it_level it < 5 \<Longrightarrow> iter_measure (free_timer a st) tw it = iter_measure st tw it"
    and "tw_is_enabled tw \<Longrightarrow> caught_up st tw it \<Longrightarrow> caught_up (free_timer a st) tw it"
proof -
  show "wheel_ok (free_timer a st) tw" by (rule wheel_inv_free[OF inv a])
  assume en: "tw_is_enabled tw"
  have nin: "a \<notin> set (ad_nodes (bkt tw l i))" if "in_range l i" for l i
    by (rule unplaced_not_in_bucket[OF wheel_invD(2)[OF inv en that] a])
  have fr: "front (free_timer a st) (bkt tw l i) = front st (bkt tw l i)" if "in_range l i" for l i
    by (rule front_frame) (use nin[OF that] in auto)
  show "it_level it < 5 \<Longrightarrow> iter_measure (free_timer a st) tw it = iter_measure st tw it"
    using fr[OF in_range_cur] by (simp add: iter_measure_def)
  assume c: "caught_up st tw it"
  show "caught_up (free_timer a st) tw it"
  proof (rule caught_up_step[OF c])
    fix l i b info' t
    assume w: "on_wheel (free_timer a st) tw l i b info' t"
    then have "on_wheel st tw l i b info' t"
      by (auto simp: on_wheel_def timer_at_def split: if_splits)
    moreover have "pending (free_timer a st) tw it l i b = pending st tw it l i b"
      using fr[of l i] w by (simp add: pending_def on_wheel_def)
    ultimately show "timely tw (it_current_time it) l i t \<or> on_wheel st tw l i b info' t \<and>
      (timely tw (it_previous_time it) l i t \<longrightarrow> pending st tw it l i b \<longrightarrow>
         timely tw (it_current_time it) l i t \<or> pending (free_timer a st) tw it l i b)" by simp
  qed simp_all
qed

lemma drain_expired_ok:
  assumes "loop_pre st tw it"
  shows "\<exists>st' tw' it' infos. drain_expired (st, tw, it) = Some ((st', tw', it'), infos) \<and>
    drain_post st tw it st' tw' it' infos"
  using assms
proof (induction "iter_measure st tw it" arbitrary: st tw it rule: wf_induct_rule[OF measure_wf])
  case 1
  note pre = 1(2)
  then have inv: "wheel_ok st tw" by (simp add: loop_pre_def)
  obtain st1 tw1 it1 e where l: "iter_loop (st, tw, it) = Some ((st1, tw1, it1), e)"
    "iter_post st tw it st1 tw1 it1 (Return e)" using iter_loop_ok[OF pre] by blast
  have nx: "timer_next (st, tw, it) = Some ((st1, tw1, it1), e)"
    using l(1) pre by (simp add: timer_next_def loop_pre_def)
  show ?case
  proof (cases e)
    case None
    then have "drain_expired (st, tw, it) = Some ((st1, tw1, it1), [])"
      using nx by (subst drain_expired.simps) simp
    moreover have "drain_post st tw it st1 tw1 it1 []"
      using l(2) None by (auto simp: iter_post_def drain_post_def)
    ultimately show ?thesis by blast
  next
    case (Some ev)
    have pre1: "loop_pre st1 tw1 it1" using iter_post_pre[OF pre l(2)] Some by simp
    have m: "measure_less (iter_measure st1 tw1 it1) (iter_measure st tw it)"
      using l(2) pre1 by (simp add: iter_post_def loop_pre_def)
    show ?thesis
    proof (cases "\<exists>a. ev = Expired a")
      case True
      then obtain a where ev: "e = Some (Expired a)" using Some by blast
      then obtain info where x: "expired_node st st1 (it_current_time it) a info"
        using l(2) unfolding iter_post_def by blast
      then obtain g where t: "st_timers st1 a = Some (TimerEntry None g info (Suc info))"
        by (auto simp: expired_node_def)
      let ?st = "free_timer a st1"
      have inv1: "wheel_ok st1 tw1" "tw_is_enabled tw1" "it_level it1 < 5"
        using pre1 by (auto simp: loop_pre_def iter_wf_def)
      note fe = free_expired[OF inv1(1) t]
      have "loop_pre ?st tw1 it1" using pre1 fe(1) by (simp add: loop_pre_def)
      moreover have "measure_less (iter_measure ?st tw1 it1) (iter_measure st tw it)"
        using m fe(2)[OF inv1(2,3)] by simp
      ultimately obtain st' tw' it' infos where
        d: "drain_expired (?st, tw1, it1) = Some ((st', tw', it'), infos)" "drain_post ?st tw1 it1 st' tw' it' infos"
        using 1(1) by blast
      have "drain_expired (st, tw, it) = Some ((st', tw', it'), info # infos)"
        using nx ev t d(1) by (subst drain_expired.simps) simp
      moreover have "drain_post st tw it st' tw' it' (info # infos)"
        by (rule drain_post_step[OF inv l(2) _ d(2)]) (use ev x fe(3)[OF inv1(2)] in auto)
      ultimately show ?thesis by blast
    next
      case False
      from 1(1) m pre1 obtain st' tw' it' infos where
        d: "drain_expired (st1, tw1, it1) = Some ((st', tw', it'), infos)" "drain_post st1 tw1 it1 st' tw' it' infos"
        by blast
      have "drain_expired (st, tw, it) = Some ((st', tw', it'), infos)"
        using nx Some False d(1) by (subst drain_expired.simps) (auto split: timer_event.splits)
      moreover have "drain_post st tw it st' tw' it' infos"
        by (rule drain_post_step[OF inv l(2) _ d(2)]) (use Some False in auto)
      ultimately show ?thesis by blast
    qed
  qed
qed

section \<open>Properties\<close>

text \<open>Every node on the wheel is in the bucket of its entry's expiration time and that bucket is
  not behind the time of the last advance.\<close>

definition wheel_timely :: "'k store \<Rightarrow> timer_wheel \<Rightarrow> bool" where
  "wheel_timely st tw \<longleftrightarrow>
     (\<forall>l i a info t. on_wheel st tw l i a info t \<longrightarrow> timely tw (tw_current tw) l i t)"

lemma advance_pre:
  assumes "wheel_ok st tw" "tw_is_enabled tw" "tw_current tw \<le> now" "advance now tw = (tw1, it)"
  shows "loop_pre st tw1 it" "tw_origin tw1 = tw_origin tw" "tw_current tw1 = now" "it_current_time it = now"
    "wheel_timely st tw \<Longrightarrow> caught_up st tw1 it"
proof -
  have e: "tw1 = tw\<lparr>tw_current := now\<rparr>" "it = timer_events_iter_new (tw_current tw) now"
    using assms(4) by (auto simp: advance_def Let_def)
  have b: "bkt tw1 = bkt tw" "tw_shape tw1 = tw_shape tw" "tw_is_enabled tw1 = tw_is_enabled tw"
    by (auto simp: e bkt_def tw_shape_def tw_is_enabled_def fun_eq_iff)
  have "wheel_ok st tw1"
    using assms(1,3) unfolding wheel_inv_def b by (auto simp: e)
  then show "loop_pre st tw1 it" using assms(2) b(3)
    by (simp add: loop_pre_def iter_wf_def e timer_events_iter_new_def)
  show "tw_origin tw1 = tw_origin tw" "tw_current tw1 = now" "it_current_time it = now"
    by (simp_all add: e timer_events_iter_new_def)
  assume t: "wheel_timely st tw"
  have o: "on_wheel st tw1 = on_wheel st tw" by (simp add: on_wheel_def b fun_eq_iff)
  have "timely tw1 (tw_current tw) l i t \<and> pending st tw1 it l i a" if w: "on_wheel st tw1 l i a info t" for l i a info t
  proof -
    have "timely tw (tw_current tw) l i t" using t w unfolding o wheel_timely_def by blast
    then have "timely tw1 (tw_current tw) l i t" using timely_frame[of tw1 tw] by (simp add: e)
    then show ?thesis by (auto simp: pending_def e timer_events_iter_new_def)
  qed
  then show "caught_up st tw1 it"
    unfolding caught_up_def by (simp add: e timer_events_iter_new_def)
qed

text \<open>C36: advancing the timer wheel. On a well-formed wheel whose nodes are in the buckets of
  their entries' expiration times, advancing to a time that is not earlier and running the
  iterator to its end returns. The entries reported as expired all had a timer and have
  expired, every entry with a timer whose expiration time lies in an earlier bucket of the
  lowest level than \<open>now\<close> (about one second) is reported, and the wheel is well formed and timely
  for \<open>now\<close>, ready for the next advance.\<close>

theorem timer_advance_complete:
  assumes "wheel_ok st tw" "tw_is_enabled tw" "wheel_timely st tw" "tw_current tw \<le> now"
  shows "\<exists>st' tw' it' infos.
     (let (tw1, it) = advance now tw in drain_expired (st, tw1, it)) = Some ((st', tw', it'), infos) \<and>
     wheel_ok st' tw' \<and> wheel_timely st' tw' \<and> tw_current tw' = now \<and> st_infos st' = st_infos st \<and>
     (\<forall>info \<in> set infos. \<exists>t. fst (expiration_state (st_infos st info)) = Some t \<and> t \<le> now) \<and>
     (\<forall>info t. dns_timer_node (st_nodes st (Suc info)) \<noteq> None \<longrightarrow>
        fst (expiration_state (st_infos st info)) = Some t \<longrightarrow>
        tick tw 0 t < tick tw 0 now \<longrightarrow> info \<in> set infos)"
proof -
  obtain tw1 it where ad: "advance now tw = (tw1, it)" by fastforce
  note p = advance_pre[OF assms(1,2,4) ad]
  obtain st' tw' it' infos where d: "drain_expired (st, tw1, it) = Some ((st', tw', it'), infos)"
    "drain_post st tw1 it st' tw' it' infos" using drain_expired_ok[OF p(1)] by blast
  note d' = d(2)[unfolded drain_post_def]
  have cu: "caught_up st' tw' it'" using d' p(5)[OF assms(3)] by blast
  have tm: "timely tw' now l i t" if "on_wheel st' tw' l i a info t" for l i a info t
    using cu that d' p(4) by (auto simp: caught_up_def pending_def)
  then have "wheel_timely st' tw'" using d' p(3) by (simp add: wheel_timely_def)
  moreover have "info \<in> set infos"
    if x: "dns_timer_node (st_nodes st (Suc info)) \<noteq> None"
      "fst (expiration_state (st_infos st info)) = Some t" "tick tw 0 t < tick tw 0 now" for info t
  proof (cases "dns_timer_node (st_nodes st' (Suc info))")
    case None
    with x d' show ?thesis by auto
  next
    case (Some a)
    have "wheel_ok st' tw'" using d' by blast
    from wheel_inv_ptrE[OF this Some] obtain l i info' where "Suc info = Suc info'"
      "in_range l i" "timer_at st' a l i info'" "a \<in> set (ad_nodes (bkt tw' l i))" by blast
    moreover have "st_infos st' = st_infos st" using d' by (simp add: timer_frame_def)
    ultimately have "on_wheel st' tw' l i a info t" using x(2) by (simp add: on_wheel_def)
    from tm[OF this] have "tick tw' l now \<le> tick tw' l t" by (auto simp: timely_def split: if_splits)
    moreover have "tick tw' l = tick tw l" for l using d' p(2) by (simp add: tick_def fun_eq_iff)
    ultimately have le: "tick tw l now \<le> tick tw l t" by simp
    have "l < 5" using \<open>in_range l i\<close> by (simp add: in_range_def)
    have "\<not> t < now \<or> l = 0"
      using tm[OF \<open>on_wheel st' tw' l i a info t\<close>] tick_mono[of t now tw' l] less_imp_le[of t now]
      by (auto simp: timely_def split: if_splits)
    then have "tick tw 0 now \<le> tick tw 0 t" using le tick_mono[of now t tw 0] by auto
    with x(3) show ?thesis by simp
  qed
  moreover have "(let (tw1, it) = advance now tw in drain_expired (st, tw1, it)) = Some ((st', tw', it'), infos)"
    using ad d(1) by simp
  moreover have "wheel_ok st' tw'" "tw_current tw' = now" "st_infos st' = st_infos st"
    using d' p(3) by (simp_all add: timer_frame_def)
  moreover have "\<forall>info \<in> set infos. \<exists>t. fst (expiration_state (st_infos st info)) = Some t \<and> t \<le> now"
    using d' unfolding p(4) by blast
  ultimately show ?thesis by blast
qed

subsection \<open>A wheel with one timer\<close>

definition one_timer :: "nat store \<times> timer_wheel" where
  "one_timer =
     (case tw_enable empty_store (tw_new (Instant 0)) of
        Some (st, tw) \<Rightarrow>
          (case schedule 0 1 1 st tw of
             Some (st, tw, a) \<Rightarrow> (upd_nodes 1 (dns_set_timer_node a 1) st, tw)
           | None \<Rightarrow> (st, tw))
      | None \<Rightarrow> (empty_store, tw_new (Instant 0)))"


lemma timely_schedule:
  assumes inv: "wheel_ok st tw" and en: "tw_is_enabled tw" and tm: "wheel_timely st tw"
    and p: "dns_timer_node (st_nodes st (Suc info)) = None"
    and t: "expiration_state (st_infos st info) = (Some t, g)" and c: "tw_current tw \<le> t"
    and s: "schedule info (Suc info) g st tw = Some (st', tw', Some a)"
  shows "wheel_timely (upd_nodes (Suc info) (dns_set_timer_node (Some a) g) st') tw'"
proof -
  obtain l i where pl: "place tw t = (l, i)" by fastforce
  then have r: "in_range l i" by (rule place_in_range)
  note sh = wheel_invD(1)[OF inv en]
  let ?te = "TimerEntry (Some (word_of_nat l, word_of_nat i)) g info (Suc info)"
  have a: "a = st_next_addr st" and st': "st' = st\<lparr>st_timers := (st_timers st)(a \<mapsto> ?te), st_next_addr := a + 1\<rparr>"
    and tw': "tw' = set_wheel l i (ad_push_back a (bkt tw l i)) tw"
    using s t pl wheel_bkt[OF sh r]
    by (auto simp: schedule_def bucket_indices_eq alloc_timer_def timer_node_new_def Let_def)
  let ?st = "upd_nodes (Suc info) (dns_set_timer_node (Some a) g) st'"
  have at: "timer_at ?st a l i info" by (simp add: timer_at_def st' dns_set_timer_node_def)
  have "timely tw (tw_current tw) l i t"
    using place_index[OF pl] place_tick[OF pl wheel_invD(5)[OF inv] c] by (auto simp: timely_def)
  moreover have "l' = l \<and> i' = i \<and> info' = info" if "in_range l' i'" "timer_at ?st a l' i' info'" for l' i' info'
    using timer_at_inj[OF that(1) r that(2) at] by simp
  moreover have "on_wheel st tw l' i' b info' t'" if w: "on_wheel ?st tw' l' i' b info' t'" "b \<noteq> a" for l' i' b info' t'
    using w p by (auto simp: on_wheel_def timer_at_def st' tw' bkt_set_wheel[OF sh r] dns_set_timer_node_def
        split: if_splits)
  moreover have "timely tw' = timely tw" "tw_current tw' = tw_current tw" "st_infos ?st = st_infos st"
    by (auto simp: timely_def tick_def tw' st' fun_eq_iff)
  ultimately show ?thesis
    using tm t unfolding wheel_timely_def by (metis fst_conv on_wheel_def option.inject)
qed

lemma one_timer_ok:
  "wheel_ok (fst one_timer) (snd one_timer) \<and> tw_is_enabled (snd one_timer) \<and>
   wheel_timely (fst one_timer) (snd one_timer) \<and> tw_current (snd one_timer) = Instant 0 \<and>
   tw_origin (snd one_timer) = Instant 0 \<and>
   dns_timer_node (st_nodes (fst one_timer) 1) \<noteq> None \<and>
   fst (expiration_state (st_infos (fst one_timer) 0)) = Some (Instant (2 ^ 30))"
proof -
  have dis: "\<not> tw_is_enabled (tw_new (Instant 0))" by (simp add: tw_new_def tw_is_enabled_def)
  obtain st tw where e: "tw_enable empty_store (tw_new (Instant 0)) = Some (st, tw)" "wheel_ok st tw"
    "tw_is_enabled tw" "timer_frame empty_store st" "st_nodes st = st_nodes empty_store"
    "tw_current tw = Instant 0"
    using tw_enable_ok[OF empty_store_ok dis] by (auto simp: tw_new_def)
  have o: "tw_origin tw = Instant 0" using e(1) dis by (auto simp: tw_enable_def tw_new_def split: prod.splits)
  have none: "dns_timer_node (st_nodes st n) = None" for n
    using e(5) by (simp add: empty_store_def deq_nodes_default_def)
  have tm: "wheel_timely st tw" using none by (auto simp: wheel_timely_def on_wheel_def timer_at_def)
  have "stored_time (Instant (2 ^ 30)) = Instant (2 ^ 30)" by (simp add: stored_time_def TIME_MASK_def)
  moreover have "snd (set_expiration_time (Some (Instant (2 ^ 30))) (entry_info_new \<lparr>kh_key = 0 :: nat, kh_hash = 0\<rparr> (Instant 0) 1)) = 1"
    by (simp add: set_expiration_time_def entry_info_new_def GEN_MASK_def Let_def)
  ultimately have x: "expiration_state (st_infos st i) = (Some (Instant (2 ^ 30)), 1)" for i
    using e(4) by (simp add: timer_frame_def empty_store_def expiration_state_set)
  obtain st' tw' a where s: "schedule 0 (Suc 0) 1 st tw = Some (st', tw', Some a)"
    "wheel_ok (upd_nodes (Suc 0) (dns_set_timer_node (Some a) 1) st') tw'" "timer_frame st st'"
    "tw_current tw' = tw_current tw" "tw_origin tw' = tw_origin tw"
    using schedule_ok[OF e(2,3) none x] by blast
  have one: "one_timer = (upd_nodes (Suc 0) (dns_set_timer_node (Some a) 1) st', tw')"
    using e(1) s(1) by (simp add: one_timer_def)
  have "dns_timer_node (st_nodes (fst one_timer) (Suc 0)) = Some a" by (simp add: one dns_set_timer_node_def)
  moreover have "tw_is_enabled tw'" using wheel_invD(3)[OF s(2), of "Suc 0" a] by (simp add: dns_set_timer_node_def)
  moreover have "wheel_timely (fst one_timer) tw'"
    using timely_schedule[OF e(2,3) tm none x _ s(1)] e(6) by (simp add: one less_eq_instant_def)
  moreover have "st_infos st' = st_infos st" using s(3) by (simp add: timer_frame_def)
  ultimately show ?thesis using s(2,4,5) e(6) o x by (simp add: one)
qed

theorem timer_advance_complete_witness:
  "\<exists>st' tw' it' infos.
     (let (tw1, it) = advance (Instant (2 ^ 33)) (snd one_timer) in drain_expired (fst one_timer, tw1, it)) =
       Some ((st', tw', it'), infos) \<and> 0 \<in> set infos \<and> wheel_ok st' tw'"
proof -
  note o = one_timer_ok
  have le: "tw_current (snd one_timer) \<le> Instant (2 ^ 33)" using o by (simp add: less_eq_instant_def)
  have "tick (snd one_timer) 0 (Instant (2 ^ 30)) < tick (snd one_timer) 0 (Instant (2 ^ 33))"
    using o by (simp add: tick_def SHIFT_eq)
  with timer_advance_complete[of "fst one_timer" "snd one_timer", OF _ _ _ le] o show ?thesis
    by (metis One_nat_def)
qed

end
