(* ===== verification/Deque.thy ===== *)
theory Deque
  imports Deque_Spec
begin

text \<open>
  The pointer program of \<open>src/src/common/deque.rs\<close>. A node is a heap cell with a \<open>next\<close>
  and a \<open>prev\<close> pointer; the heap maps the addresses of live boxes to nodes, so that a
  dereference of any other address is a panic. Each method takes the heap and the deque and
  returns both, with the pointer assignments of the source in their order.

  The abstraction is the list of addresses that \<open>next\<close> pointers lead through from the head.
  The refinement lemmas show that each method implements its specification in
  \<open>Deque_Spec\<close> and touches no node outside the deque.
\<close>

section \<open>Nodes and the deque\<close>

record 'a deq_node =
  dn_next :: "addr option"
  dn_prev :: "addr option"
  dn_element :: 'a

type_synonym 'a heap = "addr \<rightharpoonup> 'a deq_node"

record deque =
  dq_region :: cache_region
  dq_len :: nat
  dq_head :: "addr option"
  dq_tail :: "addr option"
  dq_cursor :: "deq_cursor option"

definition deq_node_new :: "'a \<Rightarrow> 'a deq_node" where
  "deq_node_new e = \<lparr>dn_next = None, dn_prev = None, dn_element = e\<rparr>"

definition next_node_ptr :: "'a heap \<Rightarrow> addr \<Rightarrow> addr option or_panic" where
  "next_node_ptr h a = do { n \<leftarrow> h a; Some (dn_next n) }"

definition set_next :: "'a heap \<Rightarrow> addr \<Rightarrow> addr option \<Rightarrow> 'a heap or_panic" where
  "set_next h a p = do { n \<leftarrow> h a; Some (h(a \<mapsto> n\<lparr>dn_next := p\<rparr>)) }"

definition set_prev :: "'a heap \<Rightarrow> addr \<Rightarrow> addr option \<Rightarrow> 'a heap or_panic" where
  "set_prev h a p = do { n \<leftarrow> h a; Some (h(a \<mapsto> n\<lparr>dn_prev := p\<rparr>)) }"

definition deq_new :: "cache_region \<Rightarrow> deque" where
  "deq_new r = \<lparr>dq_region = r, dq_len = 0, dq_head = None, dq_tail = None, dq_cursor = None\<rparr>"

definition is_head :: "deque \<Rightarrow> addr \<Rightarrow> bool" where
  "is_head d a = (case dq_head d of Some x \<Rightarrow> x = a | None \<Rightarrow> False)"

definition is_tail :: "deque \<Rightarrow> addr \<Rightarrow> bool" where
  "is_tail d a = (case dq_tail d of Some x \<Rightarrow> x = a | None \<Rightarrow> False)"

definition is_at_cursor :: "deque \<Rightarrow> addr \<Rightarrow> bool" where
  "is_at_cursor d a = (case dq_cursor d of Some (CNode c) \<Rightarrow> c = a | _ \<Rightarrow> False)"

definition contains :: "'a heap \<Rightarrow> deque \<Rightarrow> addr \<Rightarrow> bool or_panic" where
  "contains h d a = do { n \<leftarrow> h a; Some (dn_prev n \<noteq> None \<or> is_head d a) }"

definition peek_front :: "deque \<Rightarrow> addr option" where
  "peek_front d = dq_head d"

definition peek_back :: "deque \<Rightarrow> addr option" where
  "peek_back d = dq_tail d"

definition advance_cursor :: "'a heap \<Rightarrow> deque \<Rightarrow> deque or_panic" where
  "advance_cursor h d =
     (case dq_cursor d of
        None \<Rightarrow> Some d
      | Some (CNode a) \<Rightarrow>
          do { n \<leftarrow> h a;
               Some (case dn_next n of
                       Some b \<Rightarrow> d\<lparr>dq_cursor := Some (CNode b)\<rparr>
                     | None \<Rightarrow> d\<lparr>dq_cursor := Some CDone\<rparr>) }
      | Some CDone \<Rightarrow> Some (d\<lparr>dq_cursor := None\<rparr>))"

definition leave_cursor :: "'a heap \<Rightarrow> addr \<Rightarrow> deque \<Rightarrow> deque or_panic" where
  "leave_cursor h a d = (if is_at_cursor d a then advance_cursor h d else Some d)"

definition pop_front :: "'a heap \<Rightarrow> deque \<Rightarrow> ('a heap \<times> deque \<times> addr option) or_panic" where
  "pop_front h d =
     (case dq_head d of
        None \<Rightarrow> Some (h, d, None)
      | Some a \<Rightarrow>
          do { d \<leftarrow> leave_cursor h a d;
               n \<leftarrow> h a;
               let d = d\<lparr>dq_head := dn_next n\<rparr>;
               (h, d) \<leftarrow> (case dq_head d of
                           None \<Rightarrow> Some (h, d\<lparr>dq_tail := None\<rparr>)
                         | Some x \<Rightarrow> do { h \<leftarrow> set_prev h x None; Some (h, d) });
               let d = d\<lparr>dq_len := dq_len d - 1\<rparr>;
               h \<leftarrow> set_prev h a None;
               h \<leftarrow> set_next h a None;
               Some (h, d, Some a) })"

definition push_back :: "'a heap \<Rightarrow> deque \<Rightarrow> addr \<Rightarrow> ('a heap \<times> deque) or_panic" where
  "push_back h d a =
     do { h \<leftarrow> set_next h a None;
          h \<leftarrow> set_prev h a (dq_tail d);
          (h, d) \<leftarrow> (case dq_tail d of
                      None \<Rightarrow> Some (h, d\<lparr>dq_head := Some a\<rparr>)
                    | Some t \<Rightarrow> do { h \<leftarrow> set_next h t (Some a); Some (h, d) });
          Some (h, d\<lparr>dq_tail := Some a, dq_len := dq_len d + 1\<rparr>) }"

definition move_to_back :: "'a heap \<Rightarrow> deque \<Rightarrow> addr \<Rightarrow> ('a heap \<times> deque) or_panic" where
  "move_to_back h d a =
     (if is_tail d a then Some (h, d)
      else do {
        d \<leftarrow> leave_cursor h a d;
        n \<leftarrow> h a;
        let (prev, nxt) = (dn_prev n, dn_next n);
        (h, d) \<leftarrow> (case prev of
                    Some p \<Rightarrow> (if nxt \<noteq> None
                               then do { h \<leftarrow> set_next h p nxt; Some (h, d) }
                               else Some (h, d))
                  | None \<Rightarrow> Some (h, d\<lparr>dq_head := nxt\<rparr>));
        (case nxt of
           None \<Rightarrow> Some (h, d)
         | Some x \<Rightarrow>
             do { h \<leftarrow> set_prev h x prev;
                  h \<leftarrow> set_prev h a (dq_tail d);
                  h \<leftarrow> set_next h a None;
                  h \<leftarrow> (case dq_tail d of Some t \<Rightarrow> set_next h t (Some a) | None \<Rightarrow> None);
                  Some (h, d\<lparr>dq_tail := Some a\<rparr>) }) })"

definition move_front_to_back :: "'a heap \<Rightarrow> deque \<Rightarrow> ('a heap \<times> deque) or_panic" where
  "move_front_to_back h d =
     (case dq_head d of Some a \<Rightarrow> move_to_back h d a | None \<Rightarrow> Some (h, d))"

definition unlink :: "'a heap \<Rightarrow> deque \<Rightarrow> addr \<Rightarrow> ('a heap \<times> deque) or_panic" where
  "unlink h d a =
     do { d \<leftarrow> leave_cursor h a d;
          n \<leftarrow> h a;
          (h, d) \<leftarrow> (case dn_prev n of
                      Some p \<Rightarrow> do { h \<leftarrow> set_next h p (dn_next n); Some (h, d) }
                    | None \<Rightarrow> Some (h, d\<lparr>dq_head := dn_next n\<rparr>));
          (h, d) \<leftarrow> (case dn_next n of
                      Some x \<Rightarrow> do { h \<leftarrow> set_prev h x (dn_prev n); Some (h, d) }
                    | None \<Rightarrow> Some (h, d\<lparr>dq_tail := dn_prev n\<rparr>));
          h \<leftarrow> set_prev h a None;
          h \<leftarrow> set_next h a None;
          Some (h, d\<lparr>dq_len := dq_len d - 1\<rparr>) }"

definition unlink_and_drop :: "'a heap \<Rightarrow> deque \<Rightarrow> addr \<Rightarrow> ('a heap \<times> deque) or_panic" where
  "unlink_and_drop h d a = do { (h, d) \<leftarrow> unlink h d a; Some (h(a := None), d) }"

definition reset_cursor :: "deque \<Rightarrow> deque" where
  "reset_cursor d = d\<lparr>dq_cursor := None\<rparr>"

text \<open>\<open>Iterator::next\<close>: the element under the cursor, which then advances.\<close>

definition deq_next :: "'a heap \<Rightarrow> deque \<Rightarrow> (deque \<times> 'a option) or_panic" where
  "deq_next h d =
     (let d = (if dq_cursor d = None
               then (case dq_head d of Some a \<Rightarrow> d\<lparr>dq_cursor := Some (CNode a)\<rparr> | None \<Rightarrow> d)
               else d)
      in do { elem \<leftarrow> (case dq_cursor d of
                         Some (CNode a) \<Rightarrow> do { n \<leftarrow> h a; Some (Some (dn_element n)) }
                       | _ \<Rightarrow> Some None);
              d \<leftarrow> advance_cursor h d;
              Some (d, elem) })"

text \<open>\<open>Drop for Deque\<close>: nodes are popped and dropped until none is left; the fuel is the
  number of iterations allowed.\<close>

fun drop_deque :: "nat \<Rightarrow> 'a heap \<Rightarrow> deque \<Rightarrow> ('a heap \<times> deque) or_panic" where
  "drop_deque 0 h d = None"
| "drop_deque (Suc fuel) h d =
     do { (h, d, popped) \<leftarrow> pop_front h d;
          case popped of None \<Rightarrow> Some (h, d)
          | Some a \<Rightarrow> drop_deque fuel (h(a := None)) d }"

section \<open>Doubly linked segments\<close>

definition first_or :: "addr list \<Rightarrow> addr option \<Rightarrow> addr option" where
  "first_or xs q = (case xs of [] \<Rightarrow> q | x # _ \<Rightarrow> Some x)"

definition last_or :: "addr option \<Rightarrow> addr list \<Rightarrow> addr option" where
  "last_or p xs = (if xs = [] then p else Some (last xs))"

lemma first_or_simps [simp]:
  "first_or [] q = q" "first_or (x # xs) q = Some x" "first_or (xs @ ys) q = first_or xs (first_or ys q)"
  by (auto simp: first_or_def split: list.splits)

lemma last_or_simps [simp]:
  "last_or p [] = p" "last_or p (xs @ [x]) = Some x" "last_or p (x # xs) = last_or (Some x) xs"
  by (auto simp: last_or_def)

lemma last_or_append [simp]: "last_or p (xs @ ys) = last_or (last_or p xs) ys"
  by (auto simp: last_or_def)

fun dll :: "'a heap \<Rightarrow> addr option \<Rightarrow> addr list \<Rightarrow> addr option \<Rightarrow> bool" where
  "dll h p [] q \<longleftrightarrow> True"
| "dll h p (x # xs) q \<longleftrightarrow>
     (\<exists>n. h x = Some n \<and> dn_prev n = p \<and> dn_next n = first_or xs q \<and> dll h (Some x) xs q)"

lemma dll_append:
  "dll h p (xs @ ys) q \<longleftrightarrow> dll h p xs (first_or ys q) \<and> dll h (last_or p xs) ys q"
  by (induction xs arbitrary: p) auto

lemma dll_notin [simp]: "a \<notin> set xs \<Longrightarrow> dll (h(a := v)) p xs q = dll h p xs q"
  by (induction xs arbitrary: p) auto

lemma dll_frame:
  assumes "\<And>a. a \<in> set xs \<Longrightarrow> h' a = h a"
  shows "dll h' p xs q = dll h p xs q"
  using assms
proof (induction xs arbitrary: p)
  case (Cons x xs)
  then have "h' x = h x" "dll h' (Some x) xs q = dll h (Some x) xs q" by auto
  then show ?case by simp
qed simp

lemma dll_dom: "dll h p xs q \<Longrightarrow> a \<in> set xs \<Longrightarrow> \<exists>n. h a = Some n"
  by (induction xs arbitrary: p) auto

lemma dll_last_next:
  "dll h p (xs @ [x]) q \<Longrightarrow> x \<notin> set xs \<Longrightarrow> h x = Some n \<Longrightarrow>
   dll (h(x \<mapsto> n\<lparr>dn_next := q'\<rparr>)) p (xs @ [x]) q'"
  by (auto simp: dll_append)

lemma dll_first_prev:
  "dll h p (x # xs) q \<Longrightarrow> x \<notin> set xs \<Longrightarrow> h x = Some n \<Longrightarrow>
   dll (h(x \<mapsto> n\<lparr>dn_prev := p'\<rparr>)) p' (x # xs) q"
  by auto

section \<open>The abstraction\<close>

definition deq_rep :: "'a heap \<Rightarrow> deque \<Rightarrow> adeq \<Rightarrow> bool" where
  "deq_rep h d q \<longleftrightarrow>
     ad_ok q \<and> dll h None (ad_nodes q) None \<and>
     dq_region d = ad_region q \<and> dq_len d = ad_len q \<and>
     dq_head d = first_or (ad_nodes q) None \<and> dq_tail d = last_or None (ad_nodes q) \<and>
     dq_cursor d = ad_cursor q"

text \<open>The elements of the live boxes, which is the heap the specification sees.\<close>

definition elements :: "'a heap \<Rightarrow> addr \<rightharpoonup> 'a" where
  "elements h = (\<lambda>a. map_option dn_element (h a))"

section \<open>Refinement of the operations\<close>

lemma deq_repD:
  assumes "deq_rep h d q"
  shows "ad_ok q" "distinct (ad_nodes q)" "dll h None (ad_nodes q) None"
    "dq_head d = first_or (ad_nodes q) None" "dq_tail d = last_or None (ad_nodes q)"
    "dq_len d = length (ad_nodes q)" "dq_cursor d = ad_cursor q" "dq_region d = ad_region q"
  using assms by (auto simp: deq_rep_def ad_ok_def ad_len_def)

lemma deq_rep_frame:
  "deq_rep h d q \<Longrightarrow> \<forall>a \<in> set (ad_nodes q). h' a = h a \<Longrightarrow> deq_rep h' d q"
  using dll_frame[of "ad_nodes q" h' h] by (auto simp: deq_rep_def)

lemma deq_rep_split:
  assumes "deq_rep h d q" "a \<in> set (ad_nodes q)"
  obtains ys zs n where "ad_nodes q = ys @ a # zs" "a \<notin> set ys" "a \<notin> set zs" "distinct ys" "distinct zs"
    "set ys \<inter> set zs = {}" "h a = Some n" "dn_prev n = last_or None ys" "dn_next n = first_or zs None"
    "dll h None ys (Some a)" "dll h (Some a) zs None"
proof -
  obtain ys zs where s: "ad_nodes q = ys @ a # zs"
    using assms(2) by (meson split_list)
  with deq_repD(3)[OF assms(1)] obtain n where
    "h a = Some n" "dn_prev n = last_or None ys" "dn_next n = first_or zs None"
    "dll h None ys (Some a)" "dll h (Some a) zs None"
    by (auto simp: dll_append)
  with s deq_repD(2)[OF assms(1)] show thesis
    by (intro that[of ys zs n]) auto
qed

lemma succ_in_dll:
  assumes "deq_rep h d q" "a \<in> set (ad_nodes q)" "h a = Some n"
  shows "dn_next n = succ_in (ad_nodes q) a"
proof -
  obtain ys zs where "ad_nodes q = ys @ a # zs" "a \<notin> set ys" "dn_next n = first_or zs None"
    using deq_rep_split[OF assms(1,2)] assms(3) by (metis option.inject)
  then show ?thesis by (simp add: succ_in_append first_or_def split: list.splits)
qed

lemma advance_cursor_refines:
  assumes "deq_rep h d q"
  shows "advance_cursor h d = Some (d\<lparr>dq_cursor := ad_cursor (ad_advance_cursor q)\<rparr>)"
proof (cases "ad_cursor q")
  case None
  with deq_repD(7)[OF assms] show ?thesis
    by (simp add: advance_cursor_def ad_advance_cursor_def)
next
  case (Some c)
  show ?thesis
  proof (cases c)
    case CDone
    with Some deq_repD(7)[OF assms] show ?thesis
      by (simp add: advance_cursor_def ad_advance_cursor_def)
  next
    case (CNode a)
    with Some assms have a: "a \<in> set (ad_nodes q)" by (auto simp: deq_rep_def ad_ok_def)
    then obtain n where n: "h a = Some n" using dll_dom[OF deq_repD(3)[OF assms]] by blast
    show ?thesis
      using Some CNode deq_repD(7)[OF assms] n succ_in_dll[OF assms a n]
      by (simp add: advance_cursor_def ad_advance_cursor_def split: option.splits)
  qed
qed

lemma leave_cursor_refines:
  assumes "deq_rep h d q"
  shows "leave_cursor h a d = Some (d\<lparr>dq_cursor := ad_cursor (ad_leave a q)\<rparr>)"
proof -
  have "is_at_cursor d a \<longleftrightarrow> ad_cursor q = Some (CNode a)"
    by (auto simp: is_at_cursor_def deq_repD(7)[OF assms] split: option.splits deq_cursor.splits)
  then show ?thesis
    by (simp add: leave_cursor_def ad_leave_def advance_cursor_refines[OF assms])
      (simp add: deq_repD(7)[OF assms, symmetric])
qed

lemma set_next_Some:
  "h a = Some n \<Longrightarrow> set_next h a p = Some (h(a \<mapsto> n\<lparr>dn_next := p\<rparr>))"
  by (simp add: set_next_def)

lemma set_prev_Some:
  "h a = Some n \<Longrightarrow> set_prev h a p = Some (h(a \<mapsto> n\<lparr>dn_prev := p\<rparr>))"
  by (simp add: set_prev_def)

lemmas links = set_next_Some set_prev_Some

lemma dll_snocD: "dll h p (ys @ [y]) q \<Longrightarrow> \<exists>n. h y = Some n \<and> dn_next n = q"
  by (auto simp: dll_append)

text \<open>A refined step: the result represents the specified one, elements are kept, and only
  nodes of the deque (and the node that is linked in) change.\<close>

definition step_ok :: "'a heap \<Rightarrow> addr set \<Rightarrow> adeq \<Rightarrow> 'a heap \<times> deque \<Rightarrow> bool" where
  "step_ok h A q' hd' \<longleftrightarrow>
     deq_rep (fst hd') (snd hd') q' \<and> elements (fst hd') = elements h \<and>
     (\<forall>b. b \<notin> A \<longrightarrow> fst hd' b = h b)"

lemma unlink_refines:
  assumes "deq_rep h d q" "ad_unlink a q = Some q'"
  shows "\<exists>hd'. unlink h d a = Some hd' \<and> step_ok h (set (ad_nodes q)) q' hd' \<and>
     (\<exists>n. fst hd' a = Some n \<and> dn_prev n = None \<and> dn_next n = None)"
proof -
  have a: "a \<in> set (ad_nodes q)" and q': "q' = (ad_leave a q)\<lparr>ad_nodes := remove1 a (ad_nodes q)\<rparr>"
    using assms(2) by (auto simp: ad_unlink_def split: if_splits)
  have ok': "ad_ok q'" using ad_ok_unlink deq_repD(1)[OF assms(1)] assms(2) by blast
  obtain ys zs n where s: "ad_nodes q = ys @ a # zs" "a \<notin> set ys" "a \<notin> set zs" "distinct ys" "distinct zs"
    "set ys \<inter> set zs = {}" "h a = Some n" "dn_prev n = last_or None ys" "dn_next n = first_or zs None"
    "dll h None ys (Some a)" "dll h (Some a) zs None"
    by (rule deq_rep_split[OF assms(1) a])
  have nodes': "ad_nodes q' = ys @ zs" using s(1,2) q' by (simp add: remove1_append)
  have reg: "dq_region d = ad_region q'" using q' deq_repD(8)[OF assms(1)] by simp
  have cur: "ad_cursor q' = ad_cursor (ad_leave a q)" using q' by simp
  note lc = leave_cursor_refines[OF assms(1), of a]
  show ?thesis
  proof (cases ys rule: rev_cases)
    case Nil
    show ?thesis
    proof (cases zs)
      case Nil
      with \<open>ys = []\<close> s nodes' reg ok' cur deq_repD[OF assms(1)] show ?thesis
        by (auto simp: unlink_def lc links step_ok_def deq_rep_def ad_len_def)
          (auto simp: elements_def fun_eq_iff)
    next
      case (Cons z zs')
      with \<open>ys = []\<close> s nodes' reg ok' cur deq_repD[OF assms(1)] show ?thesis
        by (auto simp: unlink_def lc links step_ok_def deq_rep_def ad_len_def)
          (auto simp: elements_def fun_eq_iff)
    qed
  next
    case (snoc ys' y)
    then obtain ny where ny: "h y = Some ny" "dn_next ny = Some a" using s(10) dll_snocD by blast
    show ?thesis
    proof (cases zs)
      case Nil
      with snoc ny s nodes' reg ok' cur deq_repD[OF assms(1)] show ?thesis
        by (auto simp: unlink_def lc links step_ok_def deq_rep_def ad_len_def dll_append)
          (auto simp: elements_def fun_eq_iff)
    next
      case (Cons z zs')
      with snoc ny s nodes' reg ok' cur deq_repD[OF assms(1)] show ?thesis
        by (auto simp: unlink_def lc links step_ok_def deq_rep_def ad_len_def dll_append)
          (auto simp: elements_def fun_eq_iff)
    qed
  qed
qed

lemma push_back_refines:
  assumes "deq_rep h d q" "a \<notin> set (ad_nodes q)" "h a = Some n"
  shows "\<exists>hd'. push_back h d a = Some hd' \<and> step_ok h (insert a (set (ad_nodes q))) (ad_push_back a q) hd'"
proof -
  have ok': "ad_ok (ad_push_back a q)" using ad_ok_push_back deq_repD(1)[OF assms(1)] assms(2) by blast
  show ?thesis
  proof (cases "ad_nodes q" rule: rev_cases)
    case Nil
    with assms ok' deq_repD[OF assms(1)] show ?thesis
      by (auto simp: push_back_def links step_ok_def deq_rep_def ad_len_def)
        (auto simp: elements_def fun_eq_iff)
  next
    case (snoc ys y)
    then obtain ny where "h y = Some ny" "dn_next ny = None"
      using deq_repD(3)[OF assms(1)] dll_snocD by metis
    with snoc assms ok' deq_repD[OF assms(1)] show ?thesis
      by (auto simp: push_back_def links step_ok_def deq_rep_def ad_len_def dll_append)
        (auto simp: elements_def fun_eq_iff)
  qed
qed

lemma pop_front_refines:
  assumes "deq_rep h d q" "ad_pop_front q = (q', r)"
  shows "\<exists>h' d'. pop_front h d = Some (h', d', r) \<and> step_ok h (set (ad_nodes q)) q' (h', d') \<and>
    (\<forall>a. r = Some a \<longrightarrow> (\<exists>n. h' a = Some n \<and> dn_prev n = None \<and> dn_next n = None))"
proof (cases "ad_nodes q")
  case Nil
  with assms deq_repD[OF assms(1)] show ?thesis
    by (auto simp: pop_front_def ad_pop_front_def step_ok_def)
next
  case (Cons a as)
  then have r: "r = Some a" "q' = (ad_leave a q)\<lparr>ad_nodes := as\<rparr>"
    using assms(2) by (auto simp: ad_pop_front_def)
  have ok': "ad_ok q'" using ad_ok_pop_front[OF deq_repD(1)[OF assms(1)]] assms(2) by simp
  have nodes': "ad_nodes q' = as" using r by simp
  have reg: "dq_region d = ad_region q'" using r deq_repD(8)[OF assms(1)] by simp
  have cur: "ad_cursor q' = ad_cursor (ad_leave a q)" using r by simp
  note lc = leave_cursor_refines[OF assms(1), of a]
  show ?thesis
  proof (cases as)
    case Nil
    with Cons assms r(1) ok' nodes' reg cur deq_repD[OF assms(1)] show ?thesis
      by (auto simp: pop_front_def lc links step_ok_def deq_rep_def ad_len_def)
        (auto simp: elements_def fun_eq_iff)
  next
    case (Cons b bs)
    with \<open>ad_nodes q = a # as\<close> assms r(1) ok' nodes' reg cur deq_repD[OF assms(1)] show ?thesis
      by (auto simp: pop_front_def lc links step_ok_def deq_rep_def ad_len_def)
        (auto simp: elements_def fun_eq_iff)
  qed
qed

lemma is_tail_iff: "deq_rep h d q \<Longrightarrow> a \<in> set (ad_nodes q) \<Longrightarrow> is_tail d a \<longleftrightarrow> last (ad_nodes q) = a"
  by (cases "ad_nodes q = []") (auto simp: is_tail_def deq_repD last_or_def)

lemma move_to_back_refines:
  assumes "deq_rep h d q" "ad_move_to_back a q = Some q'"
  shows "\<exists>hd'. move_to_back h d a = Some hd' \<and> step_ok h (set (ad_nodes q)) q' hd'"
proof (cases "last (ad_nodes q) = a")
  case True
  with assms show ?thesis
    using is_tail_iff[OF assms(1), of a]
    by (auto simp: ad_move_to_back_def move_to_back_def step_ok_def split: if_splits)
next
  case False
  have a: "a \<in> set (ad_nodes q)" and q': "q' = (ad_leave a q)\<lparr>ad_nodes := remove1 a (ad_nodes q) @ [a]\<rparr>"
    using assms(2) False by (auto simp: ad_move_to_back_def split: if_splits)
  have ok': "ad_ok q'" using ad_ok_move_to_back deq_repD(1)[OF assms(1)] assms(2) by blast
  have nt: "\<not> is_tail d a" using is_tail_iff[OF assms(1) a] False by simp
  obtain ys zs n where s: "ad_nodes q = ys @ a # zs" "a \<notin> set ys" "a \<notin> set zs" "distinct ys" "distinct zs"
    "set ys \<inter> set zs = {}" "h a = Some n" "dn_prev n = last_or None ys" "dn_next n = first_or zs None"
    "dll h None ys (Some a)" "dll h (Some a) zs None"
    by (rule deq_rep_split[OF assms(1) a])
  have nodes': "ad_nodes q' = ys @ zs @ [a]" using s(1,2) q' by (simp add: remove1_append)
  have reg: "dq_region d = ad_region q'" using q' deq_repD(8)[OF assms(1)] by simp
  have cur: "ad_cursor q' = ad_cursor (ad_leave a q)" using q' by simp
  note lc = leave_cursor_refines[OF assms(1), of a]
  note facts = nt s nodes' reg ok' cur deq_repD[OF assms(1)]
  from False s(1) have "zs \<noteq> []" by auto
  then obtain z zs' where zs: "zs = z # zs'" by (cases zs) auto
  show ?thesis
  proof (cases zs' rule: rev_cases)
    case Nil
    show ?thesis
    proof (cases ys rule: rev_cases)
      case Nil
      with facts zs \<open>zs' = []\<close> show ?thesis
        by (auto simp: move_to_back_def lc links step_ok_def deq_rep_def ad_len_def dll_append)
          (auto simp: elements_def fun_eq_iff)
    next
      case (snoc ys' y)
      with facts zs \<open>zs' = []\<close> show ?thesis
        by (auto simp: move_to_back_def lc links step_ok_def deq_rep_def ad_len_def dll_append)
          (auto simp: elements_def fun_eq_iff)
    qed
  next
    case (snoc ts t)
    show ?thesis
    proof (cases ys rule: rev_cases)
      case Nil
      with facts zs snoc show ?thesis
        by (auto simp: move_to_back_def lc links step_ok_def deq_rep_def ad_len_def dll_append)
          (auto simp: elements_def fun_eq_iff)
    next
      case (snoc ys' y)
      with facts zs \<open>zs' = ts @ [t]\<close> show ?thesis
        by (auto simp: move_to_back_def lc links step_ok_def deq_rep_def ad_len_def dll_append)
          (auto simp: elements_def fun_eq_iff)
    qed
  qed
qed

lemma move_front_to_back_refines:
  assumes "deq_rep h d q" "ad_move_front_to_back q = Some q'"
  shows "\<exists>hd'. move_front_to_back h d = Some hd' \<and> step_ok h (set (ad_nodes q)) q' hd'"
proof (cases "ad_nodes q")
  case Nil
  with assms deq_repD[OF assms(1)] show ?thesis
    by (simp add: move_front_to_back_def ad_move_front_to_back_def step_ok_def)
next
  case (Cons a as)
  with assms deq_repD[OF assms(1)] move_to_back_refines[OF assms(1), of a q'] show ?thesis
    by (simp add: move_front_to_back_def ad_move_front_to_back_def)
qed

text \<open>A node is a member iff it has a predecessor or is the head, provided that it is linked
  into no other deque.\<close>

lemma contains_refines:
  assumes "deq_rep h d q" "h a = Some n" "a \<notin> set (ad_nodes q) \<Longrightarrow> dn_prev n = None"
  shows "contains h d a = ad_contains (elements h) q a"
proof (cases "a \<in> set (ad_nodes q)")
  case True
  obtain ys zs where s: "ad_nodes q = ys @ a # zs" "dn_prev n = last_or None ys"
    using deq_rep_split[OF assms(1) True] assms(2) by (metis option.inject)
  then have "dn_prev n \<noteq> None \<or> is_head d a"
    using deq_repD(4)[OF assms(1)] by (cases ys rule: rev_cases) (auto simp: is_head_def)
  with True assms(2) show ?thesis by (simp add: contains_def ad_contains_def elements_def)
next
  case False
  then have "\<not> is_head d a"
    using deq_repD(4)[OF assms(1)] by (auto simp: is_head_def first_or_def split: list.splits)
  with False assms(2,3) show ?thesis by (simp add: contains_def ad_contains_def elements_def)
qed

lemma deq_rep_cursor:
  "deq_rep h d q \<Longrightarrow> ad_ok (q\<lparr>ad_cursor := c\<rparr>) \<Longrightarrow> deq_rep h (d\<lparr>dq_cursor := c\<rparr>) (q\<lparr>ad_cursor := c\<rparr>)"
  by (simp add: deq_rep_def ad_len_def)

lemma ad_next_ok: "ad_ok q \<Longrightarrow> ad_ok (fst (ad_next q))"
proof -
  assume ok: "ad_ok q"
  then have "ad_ok (q\<lparr>ad_cursor := Some (CNode a)\<rparr>)" if "ad_nodes q = a # as" for a as
    using that by (simp add: ad_ok_def)
  with ok show ?thesis
    by (auto simp: ad_next_def Let_def intro!: ad_ok_advance split: list.splits)
qed

lemma deq_next_refines:
  assumes "deq_rep h d q" "ad_next q = (q', r)"
  shows "\<exists>d'. deq_next h d = Some (d', r \<bind> elements h) \<and> deq_rep h d' q' \<and>
    (\<forall>a. r = Some a \<longrightarrow> a \<in> set (ad_nodes q))"
proof -
  let ?q = "if ad_cursor q = None
            then (case ad_nodes q of [] \<Rightarrow> q | a # _ \<Rightarrow> q\<lparr>ad_cursor := Some (CNode a)\<rparr>) else q"
  let ?d = "if dq_cursor d = None
            then (case dq_head d of Some a \<Rightarrow> d\<lparr>dq_cursor := Some (CNode a)\<rparr> | None \<Rightarrow> d) else d"
  have rep: "deq_rep h ?d ?q"
    using assms(1) deq_repD[OF assms(1)]
    by (cases "ad_nodes q") (auto simp: deq_rep_def ad_ok_def ad_len_def)
  have q': "q' = ad_advance_cursor ?q" "r = (case ad_cursor ?q of Some (CNode a) \<Rightarrow> Some a | _ \<Rightarrow> None)"
    using assms(2) by (auto simp: ad_next_def Let_def)
  have mem: "a \<in> set (ad_nodes ?q) \<and> (\<exists>n. h a = Some n)" if "ad_cursor ?q = Some (CNode a)" for a
    using that deq_repD(1)[OF rep] dll_dom[OF deq_repD(3)[OF rep]] by (auto simp: ad_ok_def)
  have nodes: "ad_nodes ?q = ad_nodes q" by (auto split: list.splits)
  have elem: "(case dq_cursor ?d of Some (CNode a) \<Rightarrow> do { n \<leftarrow> h a; Some (Some (dn_element n)) } | _ \<Rightarrow> Some None)
      = Some (r \<bind> elements h)"
    using mem by (auto simp: q'(2) deq_repD(7)[OF rep] elements_def split: option.splits deq_cursor.splits)
  have "deq_next h d = Some (?d\<lparr>dq_cursor := ad_cursor q'\<rparr>, r \<bind> elements h)"
    unfolding deq_next_def Let_def elem advance_cursor_refines[OF rep] q'(1) by simp
  moreover have "deq_rep h (?d\<lparr>dq_cursor := ad_cursor q'\<rparr>) q'"
    using rep ad_ok_advance[OF deq_repD(1)[OF rep]] q'(1) by (simp add: deq_rep_def ad_len_def)
  moreover have "\<forall>a. r = Some a \<longrightarrow> a \<in> set (ad_nodes q)"
    using mem nodes by (auto simp: q'(2) split: option.splits deq_cursor.splits)
  ultimately show ?thesis by blast
qed

text \<open>Every node is popped and dropped.\<close>

lemma drop_deque_frees:
  assumes "deq_rep h d q" "length (ad_nodes q) < fuel"
  shows "\<exists>d' q'. drop_deque fuel h d = Some (\<lambda>a. if a \<in> set (ad_nodes q) then None else h a, d') \<and>
     deq_rep (\<lambda>a. if a \<in> set (ad_nodes q) then None else h a) d' q' \<and> ad_nodes q' = []"
  using assms
proof (induction fuel arbitrary: h d q)
  case (Suc fuel)
  show ?case
  proof (cases "ad_nodes q")
    case Nil
    with Suc.prems deq_repD[OF Suc.prems(1)] show ?thesis
      by (auto simp: pop_front_def fun_eq_iff)
  next
    case (Cons a as)
    let ?q' = "(ad_leave a q)\<lparr>ad_nodes := as\<rparr>"
    have pop: "ad_pop_front q = (?q', Some a)" using Cons by (simp add: ad_pop_front_def)
    obtain h1 d1 where p: "pop_front h d = Some (h1, d1, Some a)"
      "step_ok h (set (ad_nodes q)) ?q' (h1, d1)"
      using pop_front_refines[OF Suc.prems(1) pop] by blast
    have anotin: "a \<notin> set as" using Cons deq_repD(2)[OF Suc.prems(1)] by simp
    have r1: "deq_rep h1 d1 ?q'" using p(2) by (simp add: step_ok_def)
    have r2: "deq_rep (h1(a := None)) d1 ?q'"
      by (rule deq_rep_frame[OF r1]) (use anotin in auto)
    have l: "length (ad_nodes ?q') < fuel" using Cons Suc.prems(2) by simp
    have nd: "ad_nodes ?q' = as" by simp
    obtain d' q' where d': "drop_deque fuel (h1(a := None)) d1 =
        Some (\<lambda>b. if b \<in> set as then None else (h1(a := None)) b, d')"
      "deq_rep (\<lambda>b. if b \<in> set as then None else (h1(a := None)) b) d' q'" "ad_nodes q' = []"
      using Suc.IH[OF r2 l] unfolding nd by blast
    moreover have "(\<lambda>b. if b \<in> set as then None else (h1(a := None)) b)
        = (\<lambda>b. if b \<in> set (ad_nodes q) then None else h b)"
      using p(2) Cons by (auto simp: step_ok_def fun_eq_iff)
    ultimately show ?thesis using p(1) by auto
  qed
qed simp

section \<open>The interface of a deque\<close>

text \<open>Repeated calls of an operation, with the list of what they return.\<close>

fun calls :: "('s \<Rightarrow> ('s \<times> 'r) or_panic) \<Rightarrow> nat \<Rightarrow> 's \<Rightarrow> ('s \<times> 'r list) or_panic" where
  "calls f 0 s = Some (s, [])"
| "calls f (Suc n) s = do { (s, r) \<leftarrow> f s; (s, rs) \<leftarrow> calls f n s; Some (s, r # rs) }"

lemma calls_step:
  "f s = Some (s1, r) \<Longrightarrow> calls f n s1 = Some (s2, rs) \<Longrightarrow> calls f (Suc n) s = Some (s2, r # rs)"
  by simp

text \<open>
  What a client of a deque relies on: an abstraction to \<open>adeq\<close> and, for the operations that
  clients call in loops (the iterator, \<open>pop_front\<close> and \<open>move_front_to_back\<close>), that they
  commute with it. The lemmas about whole loops are proved once, from these laws.
\<close>

locale deque_impl =
  fixes rep :: "'s \<Rightarrow> adeq \<Rightarrow> bool"
    and elem :: "'s \<Rightarrow> addr \<Rightarrow> 'e option"
    and pop :: "'s \<Rightarrow> ('s \<times> addr option) or_panic"
    and rot :: "'s \<Rightarrow> ('s \<times> unit) or_panic"
    and nxt :: "'s \<Rightarrow> ('s \<times> 'e option) or_panic"
  assumes rep_ok: "rep s q \<Longrightarrow> ad_ok q"
    and pop_law: "rep s q \<Longrightarrow> \<exists>s'. pop s = Some (s', snd (ad_pop_front q)) \<and> rep s' (fst (ad_pop_front q))"
    and rot_law: "rep s q \<Longrightarrow> ad_move_front_to_back q = Some q' \<Longrightarrow> \<exists>s'. rot s = Some (s', ()) \<and> rep s' q'"
    and nxt_law: "rep s q \<Longrightarrow> \<exists>s'. nxt s = Some (s', snd (ad_next q) \<bind> elem s) \<and>
           rep s' (fst (ad_next q)) \<and> elem s' = elem s"
begin

lemma pop_all:
  "rep s q \<Longrightarrow>
   \<exists>s' q'. calls pop (Suc (length (ad_nodes q))) s = Some (s', map Some (ad_nodes q) @ [None]) \<and>
     rep s' q' \<and> ad_nodes q' = []"
proof (induction "ad_nodes q" arbitrary: s q)
  case Nil
  then have "ad_pop_front q = (q, None)" by (simp add: ad_pop_front_def flip: Nil.hyps)
  with pop_law[OF Nil.prems] Nil.hyps show ?case by force
next
  case (Cons a as)
  let ?q = "(ad_leave a q)\<lparr>ad_nodes := as\<rparr>"
  have "ad_pop_front q = (?q, Some a)" by (simp add: ad_pop_front_def flip: Cons.hyps(2))
  then obtain s1 where s1: "pop s = Some (s1, Some a)" "rep s1 ?q"
    using pop_law[OF Cons.prems] by auto
  have "as = ad_nodes ?q" by simp
  from Cons.hyps(1)[OF this s1(2)] obtain s2 q2 where
    s2: "calls pop (Suc (length as)) s1 = Some (s2, map Some as @ [None])" "rep s2 q2" "ad_nodes q2 = []"
    by auto
  have n: "ad_nodes q = a # as" using Cons.hyps(2) by simp
  from calls_step[OF s1(1) s2(1)] s2(2,3) show ?case unfolding n by (intro exI conjI) auto
qed

text \<open>Rotating the deque brings any chosen node to its back, in the number of steps given by
  its position.\<close>

lemma rotate_step:
  assumes "rep s q" "ad_nodes q = x # zs"
  shows "\<exists>s' q'. rot s = Some (s', ()) \<and> rep s' q' \<and> ad_nodes q' = zs @ [x]"
proof -
  obtain q1 where q1: "ad_move_front_to_back q = Some q1" "ad_nodes q1 = zs @ [x]"
    using ad_move_front_to_back_Cons[OF rep_ok[OF assms(1)] assms(2)] by auto
  from rot_law[OF assms(1) q1(1)] q1(2) show ?thesis by auto
qed

lemma rotate_to_back:
  "rep s q \<Longrightarrow> ad_nodes q = ys @ x # zs \<Longrightarrow>
   \<exists>s' q' rs. calls rot (Suc (length ys)) s = Some (s', rs) \<and> rep s' q' \<and> ad_nodes q' = zs @ ys @ [x]"
proof (induction ys arbitrary: s q zs)
  case Nil
  from rotate_step[OF Nil.prems(1), of x zs] Nil.prems(2) obtain s1 q1 where
    "rot s = Some (s1, ())" "rep s1 q1" "ad_nodes q1 = zs @ [x]" by auto
  then show ?case by auto
next
  case (Cons y ys)
  from rotate_step[OF Cons.prems(1), of y "ys @ x # zs"] Cons.prems(2) obtain s1 q1 where
    s1: "rot s = Some (s1, ())" "rep s1 q1" "ad_nodes q1 = ys @ x # (zs @ [y])" by auto
  from Cons.IH[OF s1(2,3)] obtain s2 q2 rs where
    s2: "calls rot (Suc (length ys)) s1 = Some (s2, rs)" "rep s2 q2" "ad_nodes q2 = zs @ (y # ys) @ [x]"
    by auto
  from calls_step[OF s1(1) s2(1)] s2(2,3) show ?case by (intro exI conjI) auto
qed

text \<open>The iterator, started without a cursor, yields every element once and in order, then
  ends and is ready to start again.\<close>

lemma next_step:
  assumes "rep s q" "ad_nodes q = ys @ x # zs"
    and "ad_cursor q = Some (CNode x) \<or> ad_cursor q = None \<and> ys = []"
  shows "\<exists>s'. nxt s = Some (s', elem s x) \<and> elem s' = elem s \<and>
    rep s' (q\<lparr>ad_cursor := Some (case zs of [] \<Rightarrow> CDone | z # _ \<Rightarrow> CNode z)\<rparr>)"
proof -
  have "x \<notin> set ys" using rep_ok[OF assms(1)] assms(2) by (simp add: ad_ok_def)
  then have "ad_next q = (q\<lparr>ad_cursor := Some (case zs of [] \<Rightarrow> CDone | z # _ \<Rightarrow> CNode z)\<rparr>, Some x)"
    using assms(2,3) succ_in_append[of x ys zs]
    by (auto simp: ad_next_def ad_advance_cursor_def split: list.splits)
  with nxt_law[OF assms(1)] show ?thesis by auto
qed

lemma next_done:
  assumes "rep s q" "ad_cursor q = Some CDone \<or> ad_cursor q = None \<and> ad_nodes q = []"
  shows "\<exists>s'. nxt s = Some (s', None) \<and> rep s' (q\<lparr>ad_cursor := None\<rparr>)"
proof -
  have "ad_next q = (q\<lparr>ad_cursor := None\<rparr>, None)"
    using assms(2) by (auto simp: ad_next_def ad_advance_cursor_def)
  with nxt_law[OF assms(1)] show ?thesis by auto
qed

lemma iterate_from:
  "rep s q \<Longrightarrow> ad_nodes q = ys @ x # zs \<Longrightarrow>
   ad_cursor q = Some (CNode x) \<or> ad_cursor q = None \<and> ys = [] \<Longrightarrow>
   \<exists>s'. calls nxt (Suc (length (x # zs))) s = Some (s', map (elem s) (x # zs) @ [None]) \<and>
     rep s' (q\<lparr>ad_cursor := None\<rparr>)"
proof (induction zs arbitrary: s q ys x)
  case Nil
  from next_step[OF Nil] obtain s1 where s1: "nxt s = Some (s1, elem s x)"
    "rep s1 (q\<lparr>ad_cursor := Some CDone\<rparr>)" by auto
  from next_done[OF s1(2)] obtain s2 where "nxt s1 = Some (s2, None)" "rep s2 (q\<lparr>ad_cursor := None\<rparr>)"
    by auto
  with s1(1) show ?case by simp
next
  case (Cons z zs)
  let ?q = "q\<lparr>ad_cursor := Some (CNode z)\<rparr>"
  from next_step[OF Cons.prems] obtain s1 where
    s1: "nxt s = Some (s1, elem s x)" "elem s1 = elem s" "rep s1 ?q" by auto
  have n: "ad_nodes ?q = (ys @ [x]) @ z # zs" using Cons.prems(2) by simp
  from Cons.IH[OF s1(3) n] obtain s2 where
    s2: "calls nxt (Suc (length (z # zs))) s1 = Some (s2, map (elem s) (z # zs) @ [None])"
    "rep s2 (q\<lparr>ad_cursor := None\<rparr>)" by (auto simp: s1(2))
  from calls_step[OF s1(1) s2(1)] s2(2) show ?case by (intro exI conjI) auto
qed

lemma iterate_all:
  assumes "rep s q" "ad_cursor q = None"
  shows "\<exists>s'. calls nxt (Suc (length (ad_nodes q))) s = Some (s', map (elem s) (ad_nodes q) @ [None]) \<and> rep s' q"
proof -
  have q: "q\<lparr>ad_cursor := None\<rparr> = q" using assms(2) by simp
  show ?thesis
  proof (cases "ad_nodes q")
    case Nil
    with next_done[OF assms(1)] assms(2) q show ?thesis by auto
  next
    case (Cons x zs)
    with iterate_from[OF assms(1), of "[]" x zs] assms(2) q show ?thesis by auto
  qed
qed

end

text \<open>The pointer program implements the interface, and so does the specification itself.\<close>

interpretation ptr: deque_impl
  "\<lambda>(h, d). deq_rep h d" "\<lambda>(h, d). elements h"
  "\<lambda>(h, d). do { (h, d, r) \<leftarrow> pop_front h d; Some ((h, d), r) }"
  "\<lambda>(h, d). do { hd \<leftarrow> move_front_to_back h d; Some (hd, ()) }"
  "\<lambda>(h, d). do { (d, r) \<leftarrow> deq_next h d; Some ((h, d), r) }"
proof (unfold_locales, goal_cases)
  case (1 s q)
  then show ?case by (auto simp: deq_rep_def)
next
  case (2 s q)
  obtain h d where s: "s = (h, d)" by (cases s)
  with 2 have "deq_rep h d q" by simp
  from pop_front_refines[OF this prod.collapse[symmetric]] s show ?case
    by (auto simp: step_ok_def)
next
  case (3 s q q')
  obtain h d where s: "s = (h, d)" by (cases s)
  with 3 have "deq_rep h d q" by simp
  from move_front_to_back_refines[OF this 3(2)] s show ?case
    by (auto simp: step_ok_def)
next
  case (4 s q)
  obtain h d where s: "s = (h, d)" by (cases s)
  with 4 have "deq_rep h d q" by simp
  from deq_next_refines[OF this prod.collapse[symmetric]] s show ?case
    by auto
qed

interpretation spec: deque_impl
  "\<lambda>s q. s = q \<and> ad_ok q" "\<lambda>_ a. Some a" "\<lambda>q. Some (ad_pop_front q)"
  "\<lambda>q. do { q \<leftarrow> ad_move_front_to_back q; Some (q, ()) }" "\<lambda>q. Some (ad_next q)"
proof (unfold_locales, goal_cases)
  case (3 s q q')
  then show ?case
    by (auto simp: ad_move_front_to_back_def split: list.splits dest: ad_ok_move_to_back)
next
  case (4 s q)
  then show ?case by (auto simp: ad_next_ok prod_eq_iff)
qed (auto simp: ad_ok_pop_front prod_eq_iff)

section \<open>Properties\<close>

text \<open>The methods of \<open>Deque\<close> as calls, on the pointers and on the specification. The heap of the
  specification has the elements of the live boxes.\<close>

datatype 'a deq_call =
    NewNode addr 'a
  | PushBack addr
  | PopFront
  | MoveToBack addr
  | MoveFrontToBack
  | Unlink addr
  | UnlinkAndDrop addr
  | PeekFront
  | PeekBack
  | Contains addr
  | Len
  | Next
  | ResetCursor

datatype 'a deq_answer = NoAnswer | NodeAnswer "addr option" | BoolAnswer bool | LenAnswer nat | ElementAnswer "'a option"

fun deq_exec :: "'a deq_call \<Rightarrow> 'a heap \<times> deque \<Rightarrow> (('a heap \<times> deque) \<times> 'a deq_answer) or_panic" where
  "deq_exec (NewNode a e) (h, d) = Some ((h(a \<mapsto> deq_node_new e), d), NoAnswer)"
| "deq_exec (PushBack a) (h, d) = do { hd \<leftarrow> push_back h d a; Some (hd, NoAnswer) }"
| "deq_exec PopFront (h, d) = do { (h, d, r) \<leftarrow> pop_front h d; Some ((h, d), NodeAnswer r) }"
| "deq_exec (MoveToBack a) (h, d) = do { hd \<leftarrow> move_to_back h d a; Some (hd, NoAnswer) }"
| "deq_exec MoveFrontToBack (h, d) = do { hd \<leftarrow> move_front_to_back h d; Some (hd, NoAnswer) }"
| "deq_exec (Unlink a) (h, d) = do { hd \<leftarrow> unlink h d a; Some (hd, NoAnswer) }"
| "deq_exec (UnlinkAndDrop a) (h, d) = do { hd \<leftarrow> unlink_and_drop h d a; Some (hd, NoAnswer) }"
| "deq_exec PeekFront (h, d) = Some ((h, d), NodeAnswer (peek_front d))"
| "deq_exec PeekBack (h, d) = Some ((h, d), NodeAnswer (peek_back d))"
| "deq_exec (Contains a) (h, d) = do { b \<leftarrow> contains h d a; Some ((h, d), BoolAnswer b) }"
| "deq_exec Len (h, d) = Some ((h, d), LenAnswer (dq_len d))"
| "deq_exec Next (h, d) = do { (d, e) \<leftarrow> deq_next h d; Some ((h, d), ElementAnswer e) }"
| "deq_exec ResetCursor (h, d) = Some ((h, reset_cursor d), NoAnswer)"

fun ad_exec :: "'a deq_call \<Rightarrow> (addr \<rightharpoonup> 'a) \<times> adeq \<Rightarrow> (((addr \<rightharpoonup> 'a) \<times> adeq) \<times> 'a deq_answer) or_panic" where
  "ad_exec (NewNode a e) (m, q) = (if m a = None then Some ((m(a \<mapsto> e), q), NoAnswer) else None)"
| "ad_exec (PushBack a) (m, q) = (if m a = None \<or> a \<in> set (ad_nodes q) then None else Some ((m, ad_push_back a q), NoAnswer))"
| "ad_exec PopFront (m, q) = (let (q, r) = ad_pop_front q in Some ((m, q), NodeAnswer r))"
| "ad_exec (MoveToBack a) (m, q) = do { q \<leftarrow> ad_move_to_back a q; Some ((m, q), NoAnswer) }"
| "ad_exec MoveFrontToBack (m, q) = do { q \<leftarrow> ad_move_front_to_back q; Some ((m, q), NoAnswer) }"
| "ad_exec (Unlink a) (m, q) = do { q \<leftarrow> ad_unlink a q; Some ((m, q), NoAnswer) }"
| "ad_exec (UnlinkAndDrop a) (m, q) = do { q \<leftarrow> ad_unlink a q; Some ((m(a := None), q), NoAnswer) }"
| "ad_exec PeekFront (m, q) = Some ((m, q), NodeAnswer (ad_peek_front q))"
| "ad_exec PeekBack (m, q) = Some ((m, q), NodeAnswer (ad_peek_back q))"
| "ad_exec (Contains a) (m, q) = do { b \<leftarrow> ad_contains m q a; Some ((m, q), BoolAnswer b) }"
| "ad_exec Len (m, q) = Some ((m, q), LenAnswer (ad_len q))"
| "ad_exec Next (m, q) = (let (q, r) = ad_next q in Some ((m, q), ElementAnswer (r \<bind> m)))"
| "ad_exec ResetCursor (m, q) = Some ((m, ad_reset_cursor q), NoAnswer)"

definition no_links :: "'a heap \<Rightarrow> addr \<Rightarrow> bool" where
  "no_links h a \<longleftrightarrow> (\<forall>n. h a = Some n \<longrightarrow> dn_prev n = None \<and> dn_next n = None)"

text \<open>What a call has to do: nodes outside the deque other than its argument are not touched, and a node that leaves
  the deque has no links left or is freed.\<close>

definition call_ok :: "'a heap \<Rightarrow> adeq \<Rightarrow> addr set \<Rightarrow> (addr \<rightharpoonup> 'a) \<Rightarrow> adeq \<Rightarrow> 'a heap \<times> deque \<Rightarrow> bool" where
  "call_ok h q A m q' hd' \<longleftrightarrow>
     deq_rep (fst hd') (snd hd') q' \<and> elements (fst hd') = m \<and> (\<forall>b. b \<notin> set (ad_nodes q) \<union> A \<longrightarrow> fst hd' b = h b) \<and>
     (\<forall>a. a \<in> set (ad_nodes q) \<and> a \<notin> set (ad_nodes q') \<longrightarrow> no_links (fst hd') a)"

lemma call_okI:
  assumes "step_ok h B q' hd'" "B \<subseteq> set (ad_nodes q) \<union> A" "\<And>a. a \<in> set (ad_nodes q) \<Longrightarrow> a \<notin> set (ad_nodes q') \<Longrightarrow> no_links (fst hd') a"
  shows "call_ok h q A (elements h) q' hd'"
  using assms by (auto simp: call_ok_def step_ok_def)

lemma call_ok_same: "deq_rep h d' q' \<Longrightarrow> ad_nodes q' = ad_nodes q \<Longrightarrow> call_ok h q A (elements h) q' (h, d')"
  by (auto simp: call_ok_def)

lemma move_to_back_members: "ad_ok q \<Longrightarrow> ad_move_to_back a q = Some q' \<Longrightarrow> set (ad_nodes q') = set (ad_nodes q)"
  using ad_move_to_back_nodes[of q a q'] by (auto simp: ad_move_to_back_def ad_ok_def split: if_splits)

lemma ad_next_nodes: "ad_nodes (fst (ad_next q)) = ad_nodes q"
  by (auto simp: ad_next_def Let_def split: list.splits)

lemma peek_refines:
  assumes "deq_rep h d q"
  shows "peek_front d = ad_peek_front q" "peek_back d = ad_peek_back q"
  using deq_repD(4,5)[OF assms]
  by (auto simp: peek_front_def ad_peek_front_def first_or_def peek_back_def ad_peek_back_def last_or_def split: list.splits)

fun call_nodes :: "'a deq_call \<Rightarrow> addr set" where
  "call_nodes (NewNode a e) = {a}"
| "call_nodes (PushBack a) = {a}"
| "call_nodes c = {}"

lemma unlink_and_drop_refines:
  assumes "deq_rep h d q" "ad_unlink a q = Some q'"
  shows "\<exists>hd'. unlink_and_drop h d a = Some hd' \<and> call_ok h q {} ((elements h)(a := None)) q' hd'"
proof -
  obtain h1 d1 where u: "unlink h d a = Some (h1, d1)" "step_ok h (set (ad_nodes q)) q' (h1, d1)"
    using unlink_refines[OF assms] by fastforce
  have n: "ad_nodes q' = remove1 a (ad_nodes q)" "a \<in> set (ad_nodes q)"
    using assms(2) by (auto simp: ad_unlink_def split: if_splits)
  have na: "a \<notin> set (ad_nodes q')" "set (ad_nodes q') = set (ad_nodes q) - {a}"
    using n deq_repD(2)[OF assms(1)] by simp_all
  have "deq_rep (h1(a := None)) d1 q'" using u(2) na(1) by (auto simp: step_ok_def intro: deq_rep_frame)
  then have "call_ok h q {} ((elements h)(a := None)) q' (h1(a := None), d1)"
    using u(2) n(2) na(2) by (auto simp: call_ok_def step_ok_def elements_def fun_eq_iff no_links_def split: if_splits)
  then show ?thesis using u(1) by (auto simp: unlink_and_drop_def)
qed

text \<open>C33: the linked deque implements its specification. Whenever the specification of a method
  defines a result, the method on a heap and a deque that represent the list returns the same
  answer; it represents the updated list and the live elements, changes no node outside the deque
  other than one that it is given, and leaves a node that it takes out of the deque without links.
  This covers every public method of the deque; \<open>contains\<close> is asked for a node that is linked into
  no other deque.\<close>

theorem deque_refines:
  assumes rep: "deq_rep h d q" and spec: "ad_exec c (elements h, q) = Some ((m, q'), r)"
    and "\<forall>a. c = Contains a \<and> a \<notin> set (ad_nodes q) \<longrightarrow> no_links h a"
  shows "\<exists>h' d'. deq_exec c (h, d) = Some ((h', d'), r) \<and> deq_rep h' d' q' \<and> elements h' = m \<and>
    (\<forall>b. b \<notin> set (ad_nodes q) \<union> call_nodes c \<longrightarrow> h' b = h b) \<and>
    (\<forall>a. a \<in> set (ad_nodes q) \<and> a \<notin> set (ad_nodes q') \<longrightarrow> no_links h' a)"
proof -
  have "\<exists>hd'. deq_exec c (h, d) = Some (hd', r) \<and> call_ok h q (call_nodes c) m q' hd'"
  proof (cases c)
    case (NewNode a e)
    then have "a \<notin> set (ad_nodes q)" "m = (elements h)(a \<mapsto> e)" "q' = q" "r = NoAnswer"
      using spec dll_dom[OF deq_repD(3)[OF rep]] by (force simp: elements_def split: if_splits)+
    then show ?thesis using NewNode deq_rep_frame[OF rep, of "h(a \<mapsto> deq_node_new e)"]
      by (auto simp: call_ok_def elements_def deq_node_new_def fun_eq_iff)
  next
    case (PushBack a)
    then obtain n where "h a = Some n" "a \<notin> set (ad_nodes q)" "m = elements h" "q' = ad_push_back a q" "r = NoAnswer"
      using spec by (auto simp: elements_def split: if_splits)
    with push_back_refines[OF rep, of a n] PushBack show ?thesis by (auto intro!: call_okI)
  next
    case PopFront
    then obtain x where x: "ad_pop_front q = (q', x)" "m = elements h" "r = NodeAnswer x" using spec by (auto split: prod.splits)
    have "a \<in> set (ad_nodes q) \<Longrightarrow> a \<notin> set (ad_nodes q') \<Longrightarrow> x = Some a" for a
      using x(1) by (auto simp: ad_pop_front_def split: list.splits)
    with pop_front_refines[OF rep x(1)] PopFront x(2,3) show ?thesis
      by (fastforce intro!: call_okI simp: no_links_def)
  next
    case (MoveToBack a)
    then have x: "ad_move_to_back a q = Some q'" "m = elements h" "r = NoAnswer" using spec by (auto simp: Option.bind_eq_Some_conv)
    then have "set (ad_nodes q') = set (ad_nodes q)" using move_to_back_members deq_repD(1)[OF rep] by blast
    with move_to_back_refines[OF rep x(1)] MoveToBack x(2,3) show ?thesis by (auto intro!: call_okI)
  next
    case MoveFrontToBack
    then have x: "ad_move_front_to_back q = Some q'" "m = elements h" "r = NoAnswer" using spec by (auto simp: Option.bind_eq_Some_conv)
    then have "set (ad_nodes q') = set (ad_nodes q)"
      using move_to_back_members deq_repD(1)[OF rep] by (fastforce simp: ad_move_front_to_back_def split: list.splits)
    with move_front_to_back_refines[OF rep x(1)] MoveFrontToBack x(2,3) show ?thesis by (auto intro!: call_okI)
  next
    case (Unlink a)
    then have x: "ad_unlink a q = Some q'" "m = elements h" "r = NoAnswer" using spec by (auto simp: Option.bind_eq_Some_conv)
    have "b \<in> set (ad_nodes q) \<Longrightarrow> b \<notin> set (ad_nodes q') \<Longrightarrow> b = a" for b
      using x(1) deq_repD(2)[OF rep] by (auto simp: ad_unlink_def split: if_splits)
    with unlink_refines[OF rep x(1)] Unlink x(2,3) show ?thesis by (fastforce intro!: call_okI simp: no_links_def)
  next
    case (UnlinkAndDrop a)
    with spec unlink_and_drop_refines[OF rep] show ?thesis by (auto simp: Option.bind_eq_Some_conv)
  next
    case (Contains a)
    then obtain n where "h a = Some n" using spec by (auto simp: ad_contains_def elements_def split: if_splits)
    with contains_refines[OF rep this] assms(3) Contains spec rep show ?thesis
      by (auto simp: no_links_def Option.bind_eq_Some_conv call_ok_same)
  next
    case Next
    then obtain x where x: "ad_next q = (q', x)" "m = elements h" "r = ElementAnswer (x \<bind> elements h)" using spec by (auto split: prod.splits)
    with deq_next_refines[OF rep x(1)] Next ad_next_nodes[of q] show ?thesis by (auto simp: call_ok_same)
  next
    case ResetCursor
    with spec rep show ?thesis
      by (auto simp: reset_cursor_def ad_reset_cursor_def ad_ok_def deq_rep_def ad_len_def call_ok_def)
  qed (use spec rep deq_repD(6)[OF rep] in \<open>auto simp: peek_refines ad_len_def call_ok_same\<close>)
  then show ?thesis by (auto simp: call_ok_def)
qed

definition two_nodes :: "nat heap" where
  "two_nodes = [1 \<mapsto> \<lparr>dn_next = Some 2, dn_prev = None, dn_element = 10\<rparr>,
                2 \<mapsto> \<lparr>dn_next = None, dn_prev = Some 1, dn_element = 20\<rparr>]"

definition two_deque :: deque where
  "two_deque = \<lparr>dq_region = MainProbation, dq_len = 2, dq_head = Some 1, dq_tail = Some 2, dq_cursor = None\<rparr>"

definition two_adeq :: adeq where
  "two_adeq = \<lparr>ad_region = MainProbation, ad_nodes = [1, 2], ad_cursor = None\<rparr>"

lemma two_rep: "deq_rep two_nodes two_deque two_adeq"
  by (simp add: deq_rep_def two_nodes_def two_deque_def two_adeq_def ad_ok_def ad_len_def last_or_def)

theorem deque_refines_witness:
  "\<exists>h' d'. deq_exec (Unlink 1) (two_nodes, two_deque) = Some ((h', d'), NoAnswer) \<and>
     deq_rep h' d' (two_adeq\<lparr>ad_nodes := [2]\<rparr>) \<and> no_links h' 1"
proof -
  have "ad_exec (Unlink 1) (elements two_nodes, two_adeq) = Some ((elements two_nodes, two_adeq\<lparr>ad_nodes := [2]\<rparr>), NoAnswer)"
    by (simp add: ad_unlink_def two_adeq_def ad_leave_def)
  from deque_refines[OF two_rep this] show ?thesis by (fastforce simp: two_adeq_def)
qed

text \<open>iterating. From a deque without a cursor, the calls of \<open>Iterator::next\<close> return
  the elements of all nodes once each, front to back, then \<open>None\<close>, after which the deque is as
  it was and can be iterated again.\<close>

theorem deque_iterates:
  assumes "deq_rep h d q" "ad_cursor q = None"
  shows "\<exists>d'. calls (\<lambda>(h, d). do { (d, r) \<leftarrow> deq_next h d; Some ((h, d), r) })
           (Suc (dq_len d)) (h, d) =
         Some ((h, d'), map (elements h) (ad_nodes q) @ [None]) \<and> deq_rep h d' q"
proof -
  have same: "fst s' = fst s" if "calls (\<lambda>(h, d). do { (d, r) \<leftarrow> deq_next h d; Some ((h, d), r) }) n s
      = Some (s', rs)" for n s s' rs
    using that by (induction n arbitrary: s s' rs) (force simp: Option.bind_eq_Some_conv split: prod.splits)+
  have len: "dq_len d = length (ad_nodes q)" by (rule deq_repD(6)[OF assms(1)])
  from ptr.iterate_all[of "(h, d)" q] assms obtain s' where
    s': "calls (\<lambda>(h, d). do { (d, r) \<leftarrow> deq_next h d; Some ((h, d), r) }) (Suc (dq_len d)) (h, d) =
      Some (s', map (elements h) (ad_nodes q) @ [None])" "(\<lambda>(h, d). deq_rep h d) s' q"
    unfolding len by auto
  with same[OF s'(1)] show ?thesis by (cases s') auto
qed

theorem deque_iterates_witness:
  "\<exists>d'. calls (\<lambda>(h, d). do { (d, r) \<leftarrow> deq_next h d; Some ((h, d), r) }) 3 (two_nodes, two_deque) =
     Some ((two_nodes, d'), [Some 10, Some 20, None])"
proof -
  have "dq_len two_deque = 2" "ad_cursor two_adeq = None"
    "map (elements two_nodes) (ad_nodes two_adeq) = [Some 10, Some 20]"
    by (simp_all add: two_deque_def two_adeq_def two_nodes_def elements_def)
  with deque_iterates[OF two_rep] show ?thesis
    by (auto simp: numeral_3_eq_3 numeral_2_eq_2)
qed

text \<open>dropping a deque frees each of its nodes once and no other node, and ends after one
  iteration per node and one more.\<close>

theorem deque_drop_frees:
  assumes "deq_rep h d q"
  shows "\<exists>d'. drop_deque (Suc (dq_len d)) h d =
    Some (\<lambda>a. if a \<in> set (ad_nodes q) then None else h a, d')"
  using drop_deque_frees[OF assms, of "Suc (dq_len d)"] deq_repD(6)[OF assms]
  by (fastforce simp del: drop_deque.simps)

theorem deque_drop_frees_witness:
  "\<exists>d'. drop_deque 3 two_nodes two_deque = Some (Map.empty, d')"
proof -
  have "dq_len two_deque = 2" "(\<lambda>a. if a \<in> set (ad_nodes two_adeq) then None else two_nodes a) = Map.empty"
    by (auto simp: two_deque_def two_adeq_def two_nodes_def fun_eq_iff)
  with deque_drop_frees[OF two_rep] show ?thesis by (simp add: numeral_3_eq_3 numeral_2_eq_2)
qed

end
