(* ===== verification/Deques.thy ===== *)
theory Deques
  imports Concurrent
begin

text \<open>
  The LRU deques of a cache (\<open>src/src/common/concurrent/deques.rs\<close>), over the specification
  of a deque. A tagged pointer \<open>TagNonNull\<close> is the pair of the address and the tag, which is
  the region's number.
\<close>

section \<open>Data and operations\<close>

record deques =
  dqs_window :: adeq
  dqs_probation :: adeq
  dqs_protected :: adeq
  dqs_write_order :: adeq

definition deques_default :: deques where
  "deques_default =
     \<lparr>dqs_window = ad_new Window, dqs_probation = ad_new MainProbation,
      dqs_protected = ad_new MainProtected, dqs_write_order = ad_new Other\<rparr>"

fun ao_deque :: "cache_region \<Rightarrow> deques \<Rightarrow> adeq or_panic" where
  "ao_deque Window dqs = Some (dqs_window dqs)"
| "ao_deque MainProbation dqs = Some (dqs_probation dqs)"
| "ao_deque MainProtected dqs = Some (dqs_protected dqs)"
| "ao_deque Other dqs = None"

fun set_ao_deque :: "cache_region \<Rightarrow> adeq \<Rightarrow> deques \<Rightarrow> deques" where
  "set_ao_deque Window q dqs = dqs\<lparr>dqs_window := q\<rparr>"
| "set_ao_deque MainProbation q dqs = dqs\<lparr>dqs_probation := q\<rparr>"
| "set_ao_deque MainProtected q dqs = dqs\<lparr>dqs_protected := q\<rparr>"
| "set_ao_deque Other q dqs = dqs"

definition select_mut :: "cache_region \<Rightarrow> deques \<Rightarrow> (adeq \<times> adeq) or_panic" where
  "select_mut selector dqs = do { q \<leftarrow> ao_deque selector dqs; Some (q, dqs_write_order dqs) }"

definition push_back_ao ::
  "cache_region \<Rightarrow> info_id \<Rightarrow> 'v value_entry \<Rightarrow> 'k store \<Rightarrow> deques \<Rightarrow> ('k store \<times> deques) or_panic" where
  "push_back_ao region khd e st dqs =
     (let (st, node) = alloc_khd khd st
      in do { q \<leftarrow> ao_deque region dqs;
              let dqs = set_ao_deque region (ad_push_back node q) dqs;
              Some (set_access_order_q_node e (Some (node, region_tag region)) st, dqs) })"

definition push_back_wo ::
  "info_id \<Rightarrow> 'v value_entry \<Rightarrow> 'k store \<Rightarrow> deques \<Rightarrow> 'k store \<times> deques" where
  "push_back_wo khd e st dqs =
     (let (st, node) = alloc_khd khd st;
          dqs = dqs\<lparr>dqs_write_order := ad_push_back node (dqs_write_order dqs)\<rparr>
      in (set_write_order_q_node e (Some node) st, dqs))"

definition move_to_back_ao :: "'v value_entry \<Rightarrow> 'k store \<Rightarrow> deques \<Rightarrow> deques or_panic" where
  "move_to_back_ao e st dqs =
     (case access_order_q_node st e of
        None \<Rightarrow> Some dqs
      | Some (node, tag) \<Rightarrow>
          do { region \<leftarrow> cache_region_from tag;
               q \<leftarrow> ao_deque region dqs;
               member \<leftarrow> ad_contains (st_khds st) q node;
               if member then do { q \<leftarrow> ad_move_to_back node q; Some (set_ao_deque region q dqs) }
               else None })"

definition move_to_back_ao_in_deque :: "'v value_entry \<Rightarrow> 'k store \<Rightarrow> adeq \<Rightarrow> adeq or_panic" where
  "move_to_back_ao_in_deque e st deq =
     (case access_order_q_node st e of
        None \<Rightarrow> Some deq
      | Some (node, tag) \<Rightarrow>
          if region_tag (ad_region deq) \<noteq> tag then None
          else do { member \<leftarrow> ad_contains (st_khds st) deq node;
                    if member then ad_move_to_back node deq else Some deq })"

definition move_to_back_wo_in_deque :: "'v value_entry \<Rightarrow> 'k store \<Rightarrow> adeq \<Rightarrow> adeq or_panic" where
  "move_to_back_wo_in_deque e st deq =
     (case write_order_q_node st e of
        None \<Rightarrow> Some deq
      | Some node \<Rightarrow>
          do { member \<leftarrow> ad_contains (st_khds st) deq node;
               if member then ad_move_to_back node deq else Some deq })"

definition move_to_back_wo :: "'v value_entry \<Rightarrow> 'k store \<Rightarrow> deques \<Rightarrow> deques or_panic" where
  "move_to_back_wo e st dqs =
     do { q \<leftarrow> move_to_back_wo_in_deque e st (dqs_write_order dqs);
          Some (dqs\<lparr>dqs_write_order := q\<rparr>) }"

definition unlink_and_drop_khd :: "addr \<Rightarrow> 'k store \<Rightarrow> adeq \<Rightarrow> ('k store \<times> adeq) or_panic" where
  "unlink_and_drop_khd node st deq =
     do { deq \<leftarrow> ad_unlink node deq; Some (free_khd node st, deq) }"

definition unlink_node_ao_from_deque ::
  "addr \<times> nat \<Rightarrow> 'k store \<Rightarrow> adeq \<Rightarrow> ('k store \<times> adeq) or_panic" where
  "unlink_node_ao_from_deque tagged_node st deq =
     (let (node, tag) = tagged_node
      in if region_tag (ad_region deq) \<noteq> tag then None
         else do { member \<leftarrow> ad_contains (st_khds st) deq node;
                   if member then unlink_and_drop_khd node st deq else Some (st, deq) })"

definition unlink_node_ao ::
  "addr \<times> nat \<Rightarrow> 'k store \<Rightarrow> deques \<Rightarrow> ('k store \<times> deques) or_panic" where
  "unlink_node_ao tagged_node st dqs =
     do { region \<leftarrow> cache_region_from (snd tagged_node);
          q \<leftarrow> ao_deque region dqs;
          (st, q) \<leftarrow> unlink_node_ao_from_deque tagged_node st q;
          Some (st, set_ao_deque region q dqs) }"

definition unlink_ao :: "'v value_entry \<Rightarrow> 'k store \<Rightarrow> deques \<Rightarrow> ('k store \<times> deques) or_panic" where
  "unlink_ao e st dqs =
     (let (st, node) = take_access_order_q_node e st
      in case node of None \<Rightarrow> Some (st, dqs) | Some node \<Rightarrow> unlink_node_ao node st dqs)"

definition unlink_ao_from_deque :: "'v value_entry \<Rightarrow> 'k store \<Rightarrow> adeq \<Rightarrow> ('k store \<times> adeq) or_panic" where
  "unlink_ao_from_deque e st deq =
     (let (st, node) = take_access_order_q_node e st
      in case node of None \<Rightarrow> Some (st, deq) | Some node \<Rightarrow> unlink_node_ao_from_deque node st deq)"

definition unlink_node_wo :: "addr \<Rightarrow> 'k store \<Rightarrow> adeq \<Rightarrow> ('k store \<times> adeq) or_panic" where
  "unlink_node_wo node st deq =
     do { member \<leftarrow> ad_contains (st_khds st) deq node;
          if member then unlink_and_drop_khd node st deq else Some (st, deq) }"

definition unlink_wo :: "'v value_entry \<Rightarrow> 'k store \<Rightarrow> adeq \<Rightarrow> ('k store \<times> adeq) or_panic" where
  "unlink_wo e st deq =
     (let (st, node) = take_write_order_q_node e st
      in case node of None \<Rightarrow> Some (st, deq) | Some node \<Rightarrow> unlink_node_wo node st deq)"

section \<open>The invariant of the deques\<close>

abbreviation ao_ptr :: "'k store \<Rightarrow> nodes_id \<Rightarrow> (addr \<times> nat) option" where
  "ao_ptr st n \<equiv> dns_access_order_q_node (st_nodes st n)"

abbreviation wo_ptr :: "'k store \<Rightarrow> nodes_id \<Rightarrow> addr option" where
  "wo_ptr st n \<equiv> dns_write_order_q_node (st_nodes st n)"

abbreviation adm :: "'k store \<Rightarrow> info_id \<Rightarrow> bool" where
  "adm st i \<equiv> ei_is_admitted (st_infos st i)"

abbreviation prob :: "deques \<Rightarrow> addr list" where
  "prob dqs \<equiv> ad_nodes (dqs_probation dqs)"

abbreviation wrts :: "deques \<Rightarrow> addr list" where
  "wrts dqs \<equiv> ad_nodes (dqs_write_order dqs)"

text \<open>Only the probation and the write-order deque are in use. The live boxes are exactly their
  nodes; node pointers and nodes refer to each other; the entries with a node in the probation
  deque are the admitted ones.\<close>

definition deqs_shape :: "deques \<Rightarrow> bool" where
  "deqs_shape dqs \<longleftrightarrow>
     dqs_window dqs = ad_new Window \<and> dqs_protected dqs = ad_new MainProtected \<and>
     ad_region (dqs_probation dqs) = MainProbation \<and> ad_ok (dqs_probation dqs) \<and>
     ad_ok (dqs_write_order dqs) \<and> set (prob dqs) \<inter> set (wrts dqs) = {}"

definition deqs_ok :: "'k store \<Rightarrow> deques \<Rightarrow> bool" where
  "deqs_ok st dqs \<longleftrightarrow> deqs_shape dqs \<and>
     (\<forall>n p. ao_ptr st n = Some p \<longrightarrow> n < st_next_id st \<and>
        (\<exists>i a. n = Suc i \<and> p = (a, 1) \<and> a \<in> set (prob dqs) \<and> st_khds st a = Some i \<and> adm st i)) \<and>
     (\<forall>n a. wo_ptr st n = Some a \<longrightarrow> n < st_next_id st \<and>
        (\<exists>i. n = Suc i \<and> a \<in> set (wrts dqs) \<and> st_khds st a = Some i \<and> adm st i)) \<and>
     (\<forall>a \<in> set (prob dqs). \<exists>i. st_khds st a = Some i \<and> ao_ptr st (Suc i) = Some (a, 1)) \<and>
     (\<forall>a \<in> set (wrts dqs). \<exists>i. st_khds st a = Some i \<and> wo_ptr st (Suc i) = Some a) \<and>
     (\<forall>i. adm st i \<longrightarrow> ao_ptr st (Suc i) \<noteq> None) \<and>
     (\<forall>a i. st_khds st a = Some i \<longrightarrow> a < st_next_addr st \<and> a \<in> set (prob dqs) \<union> set (wrts dqs))"

lemma deqs_okD:
  assumes "deqs_ok st dqs"
  shows "deqs_shape dqs"
    and "ao_ptr st n = Some p \<Longrightarrow> n < st_next_id st \<and>
      (\<exists>i a. n = Suc i \<and> p = (a, 1) \<and> a \<in> set (prob dqs) \<and> st_khds st a = Some i \<and> adm st i)"
    and "wo_ptr st n = Some a \<Longrightarrow> n < st_next_id st \<and>
      (\<exists>i. n = Suc i \<and> a \<in> set (wrts dqs) \<and> st_khds st a = Some i \<and> adm st i)"
    and "a \<in> set (prob dqs) \<Longrightarrow> \<exists>i. st_khds st a = Some i \<and> ao_ptr st (Suc i) = Some (a, 1)"
    and "a \<in> set (wrts dqs) \<Longrightarrow> \<exists>i. st_khds st a = Some i \<and> wo_ptr st (Suc i) = Some a"
    and "adm st i \<Longrightarrow> ao_ptr st (Suc i) \<noteq> None"
    and "st_khds st a = Some i \<Longrightarrow> a < st_next_addr st \<and> a \<in> set (prob dqs) \<union> set (wrts dqs)"
  using assms unfolding deqs_ok_def by blast+

lemma deqs_okI:
  assumes "deqs_shape dqs"
    and "\<And>n p. ao_ptr st n = Some p \<Longrightarrow> n < st_next_id st \<and>
      (\<exists>i a. n = Suc i \<and> p = (a, 1) \<and> a \<in> set (prob dqs) \<and> st_khds st a = Some i \<and> adm st i)"
    and "\<And>n a. wo_ptr st n = Some a \<Longrightarrow> n < st_next_id st \<and>
      (\<exists>i. n = Suc i \<and> a \<in> set (wrts dqs) \<and> st_khds st a = Some i \<and> adm st i)"
    and "\<And>a. a \<in> set (prob dqs) \<Longrightarrow> \<exists>i. st_khds st a = Some i \<and> ao_ptr st (Suc i) = Some (a, 1)"
    and "\<And>a. a \<in> set (wrts dqs) \<Longrightarrow> \<exists>i. st_khds st a = Some i \<and> wo_ptr st (Suc i) = Some a"
    and "\<And>i. adm st i \<Longrightarrow> ao_ptr st (Suc i) \<noteq> None"
    and "\<And>a i. st_khds st a = Some i \<Longrightarrow> a < st_next_addr st \<and> a \<in> set (prob dqs) \<union> set (wrts dqs)"
  shows "deqs_ok st dqs"
  unfolding deqs_ok_def using assms by blast

lemma deqs_ok_adm:
  assumes "deqs_ok st dqs" "adm st i"
  obtains a where "ao_ptr st (Suc i) = Some (a, 1)" "a \<in> set (prob dqs)" "st_khds st a = Some i"
    "Suc i < st_next_id st"
  using deqs_okD(6)[OF assms] deqs_okD(2)[OF assms(1), of "Suc i"] by fastforce

lemma deqs_ok_not_adm:
  assumes "deqs_ok st dqs" "\<not> adm st i"
  shows "ao_ptr st (Suc i) = None \<and> wo_ptr st (Suc i) = None"
  using deqs_okD(2,3)[OF assms(1), of "Suc i"] assms(2)
  by (cases "ao_ptr st (Suc i)"; cases "wo_ptr st (Suc i)") auto

lemma deqs_ok_prob:
  assumes "deqs_ok st dqs" "a \<in> set (prob dqs)"
  obtains i where "st_khds st a = Some i" "ao_ptr st (Suc i) = Some (a, 1)" "adm st i"
  using deqs_okD(4)[OF assms] deqs_okD(2)[OF assms(1)] by fastforce

text \<open>The invariant depends on the nodes, the node pointers and the admission flags only.\<close>

lemma deqs_ok_frame:
  assumes "deqs_ok st dqs" "st_khds st' = st_khds st" "\<And>n. ao_ptr st' n = ao_ptr st n"
    "\<And>n. wo_ptr st' n = wo_ptr st n" "\<And>i. adm st' i = adm st i"
    "st_next_addr st \<le> st_next_addr st'" "st_next_id st \<le> st_next_id st'"
  shows "deqs_ok st' dqs"
proof (rule deqs_okI)
  show "deqs_shape dqs" using assms(1) by (rule deqs_okD)
  show "n < st_next_id st' \<and> (\<exists>i a. n = Suc i \<and> p = (a, 1) \<and> a \<in> set (prob dqs) \<and> st_khds st' a = Some i \<and> adm st' i)"
    if "ao_ptr st' n = Some p" for n p
    using deqs_okD(2)[OF assms(1), of n p] that assms by auto
  show "n < st_next_id st' \<and> (\<exists>i. n = Suc i \<and> a \<in> set (wrts dqs) \<and> st_khds st' a = Some i \<and> adm st' i)"
    if "wo_ptr st' n = Some a" for n a
    using deqs_okD(3)[OF assms(1), of n a] that assms by auto
  show "\<exists>i. st_khds st' a = Some i \<and> ao_ptr st' (Suc i) = Some (a, 1)" if "a \<in> set (prob dqs)" for a
    using deqs_okD(4)[OF assms(1) that] assms by simp
  show "\<exists>i. st_khds st' a = Some i \<and> wo_ptr st' (Suc i) = Some a" if "a \<in> set (wrts dqs)" for a
    using deqs_okD(5)[OF assms(1) that] assms by simp
  show "ao_ptr st' (Suc i) \<noteq> None" if "adm st' i" for i
    using deqs_okD(6)[OF assms(1), of i] that assms by simp
  show "a < st_next_addr st' \<and> a \<in> set (prob dqs) \<union> set (wrts dqs)" if "st_khds st' a = Some i" for a i
    using deqs_okD(7)[OF assms(1), of a i] that assms by auto
qed

section \<open>Moving nodes\<close>

definition deq_perm :: "adeq \<Rightarrow> adeq \<Rightarrow> bool" where
  "deq_perm q q' \<longleftrightarrow> ad_ok q' \<and> set (ad_nodes q') = set (ad_nodes q) \<and>
     length (ad_nodes q') = length (ad_nodes q) \<and> ad_region q' = ad_region q"

definition deqs_perm :: "deques \<Rightarrow> deques \<Rightarrow> bool" where
  "deqs_perm dqs dqs' \<longleftrightarrow> dqs_window dqs' = dqs_window dqs \<and> dqs_protected dqs' = dqs_protected dqs \<and>
     deq_perm (dqs_probation dqs) (dqs_probation dqs') \<and>
     deq_perm (dqs_write_order dqs) (dqs_write_order dqs')"

lemma deq_perm_refl: "ad_ok q \<Longrightarrow> deq_perm q q"
  by (simp add: deq_perm_def)

lemma deqs_perm_refl: "deqs_ok st dqs \<Longrightarrow> deqs_perm dqs dqs"
  using deqs_okD(1)[of st dqs] by (simp add: deqs_perm_def deq_perm_refl deqs_shape_def)

lemma deqs_perm_trans: "deqs_perm d d' \<Longrightarrow> deqs_perm d' d'' \<Longrightarrow> deqs_perm d d''"
  by (auto simp: deqs_perm_def deq_perm_def)

lemma deqs_ok_perm:
  assumes "deqs_ok st dqs" "deqs_perm dqs dqs'"
  shows "deqs_ok st dqs'"
  using assms by (simp add: deqs_ok_def deqs_shape_def deqs_perm_def deq_perm_def)

lemma deq_perm_move: "ad_ok q \<Longrightarrow> a \<in> set (ad_nodes q) \<Longrightarrow>
    \<exists>q'. ad_move_to_back a q = Some q' \<and> deq_perm q q'"
  using ad_move_to_back_mem[of q a] by (auto simp: deq_perm_def)

lemma deq_perm_move_front: "ad_ok q \<Longrightarrow> \<exists>q'. ad_move_front_to_back q = Some q' \<and> deq_perm q q'"
  by (cases "ad_nodes q") (auto simp: ad_move_front_to_back_def deq_perm_refl deq_perm_move)

lemma move_to_back_ao_ok:
  assumes "deqs_ok st dqs"
  shows "\<exists>dqs'. move_to_back_ao e st dqs = Some dqs' \<and> deqs_perm dqs dqs'"
proof (cases "ao_ptr st (ve_nodes e)")
  case None
  then show ?thesis using assms by (simp add: move_to_back_ao_def access_order_q_node_def deqs_perm_refl)
next
  case (Some p)
  then obtain i a where a: "p = (a, 1)" "a \<in> set (prob dqs)" "st_khds st a = Some i"
    using deqs_okD(2)[OF assms] by blast
  note sh = deqs_okD(1)[OF assms, unfolded deqs_shape_def]
  with deq_perm_move[of "dqs_probation dqs" a] a(2)
  obtain q where "ad_move_to_back a (dqs_probation dqs) = Some q" "deq_perm (dqs_probation dqs) q" by blast
  with a Some sh show ?thesis
    by (simp add: move_to_back_ao_def access_order_q_node_def cache_region_from_def ad_contains_def
        deqs_perm_def deq_perm_refl)
qed

lemma move_to_back_ao_in_deque_ok:
  assumes "deqs_ok st dqs"
  shows "\<exists>q. move_to_back_ao_in_deque e st (dqs_probation dqs) = Some q \<and> deq_perm (dqs_probation dqs) q"
proof (cases "ao_ptr st (ve_nodes e)")
  case None
  then show ?thesis using deqs_okD(1)[OF assms]
    by (simp add: move_to_back_ao_in_deque_def access_order_q_node_def deq_perm_refl deqs_shape_def)
next
  case (Some p)
  then obtain i a where a: "p = (a, 1)" "a \<in> set (prob dqs)" "st_khds st a = Some i"
    using deqs_okD(2)[OF assms] by blast
  with deq_perm_move[of "dqs_probation dqs" a] deqs_okD(1)[OF assms] Some show ?thesis
    by (simp add: move_to_back_ao_in_deque_def access_order_q_node_def ad_contains_def deqs_shape_def)
qed

lemma move_to_back_wo_in_deque_ok:
  assumes "deqs_ok st dqs" "deq_perm (dqs_write_order dqs) q0"
  shows "\<exists>q. move_to_back_wo_in_deque e st q0 = Some q \<and> deq_perm (dqs_write_order dqs) q"
proof (cases "wo_ptr st (ve_nodes e)")
  case None
  then show ?thesis using assms(2) by (simp add: move_to_back_wo_in_deque_def write_order_q_node_def)
next
  case (Some a)
  then obtain i where a: "a \<in> set (wrts dqs)" "st_khds st a = Some i"
    using deqs_okD(3)[OF assms(1)] by blast
  with deq_perm_move[of q0 a] assms(2) Some show ?thesis
    by (auto simp: move_to_back_wo_in_deque_def write_order_q_node_def ad_contains_def deq_perm_def)
qed

lemma move_to_back_wo_ok:
  assumes "deqs_ok st dqs"
  shows "\<exists>dqs'. move_to_back_wo e st dqs = Some dqs' \<and> deqs_perm dqs dqs'"
proof -
  have sh: "ad_ok (dqs_probation dqs)" "ad_ok (dqs_write_order dqs)"
    using deqs_okD(1)[OF assms] by (simp_all add: deqs_shape_def)
  obtain q where "move_to_back_wo_in_deque e st (dqs_write_order dqs) = Some q" "deq_perm (dqs_write_order dqs) q"
    using move_to_back_wo_in_deque_ok[OF assms deq_perm_refl] sh by blast
  with sh show ?thesis by (simp add: move_to_back_wo_def deqs_perm_def deq_perm_refl)
qed

section \<open>Adding and removing nodes\<close>

text \<open>What \<open>handle_admit\<close> does to the deques: a node for the access order, one for the write
  order if that queue is in use, and the admission flag.\<close>

definition add_to_deques ::
  "bool \<Rightarrow> 'v value_entry \<Rightarrow> 'k store \<Rightarrow> deques \<Rightarrow> ('k store \<times> deques) or_panic" where
  "add_to_deques wo e st dqs =
     do { (st, dqs) \<leftarrow> push_back_ao MainProbation (ve_info e) e st dqs;
          let (st, dqs) = (if wo then push_back_wo (ve_info e) e st dqs else (st, dqs));
          Some (ve_set_admitted True e st, dqs) }"

text \<open>What the removal handlers do: clear the flag, unlink both nodes.\<close>

definition remove_from_deques :: "'v value_entry \<Rightarrow> 'k store \<Rightarrow> deques \<Rightarrow> ('k store \<times> deques) or_panic" where
  "remove_from_deques e st dqs =
     do { (st, dqs) \<leftarrow> unlink_ao e (ve_set_admitted False e st) dqs;
          (st, wo) \<leftarrow> unlink_wo e st (dqs_write_order dqs);
          Some (st, dqs\<lparr>dqs_write_order := wo\<rparr>) }"

text \<open>What they leave alone in the store.\<close>

definition deq_frame :: "info_id \<Rightarrow> bool \<Rightarrow> 'k store \<Rightarrow> 'k store \<Rightarrow> bool" where
  "deq_frame i b st st' \<longleftrightarrow>
     st_timers st' = st_timers st \<and> st_next_id st' = st_next_id st \<and> st_next_addr st \<le> st_next_addr st' \<and>
     (\<forall>n. dns_timer_node (st_nodes st' n) = dns_timer_node (st_nodes st n) \<and>
          dns_timer_node_expiry_gen (st_nodes st' n) = dns_timer_node_expiry_gen (st_nodes st n)) \<and>
     st_infos st' = (st_infos st)(i := set_admitted b (st_infos st i))"

lemma deqs_ok_removed:
  assumes ok: "deqs_ok st dqs" and ao: "ao_ptr st (Suc i) = Some (a, 1)"
    and sh: "deqs_shape dqs'" and P: "set (prob dqs') = set (prob dqs) - {a}"
    and W: "set (wrts dqs') = set (wrts dqs) - set_option (wo_ptr st (Suc i))"
    and kh: "st_khds st' = (\<lambda>c. if c = a \<or> wo_ptr st (Suc i) = Some c then None else st_khds st c)"
    and ptr: "\<And>n. ao_ptr st' n = (if n = Suc i then None else ao_ptr st n)"
      "\<And>n. wo_ptr st' n = (if n = Suc i then None else wo_ptr st n)"
    and ad: "\<And>j. adm st' j = (j \<noteq> i \<and> adm st j)"
    and nx: "st_next_id st' = st_next_id st" "st_next_addr st' = st_next_addr st"
  shows "deqs_ok st' dqs'"
proof (rule deqs_okI[OF sh])
  have a: "st_khds st a = Some i" "a \<in> set (prob dqs)" using deqs_okD(2)[OF ok ao] by auto
  have w: "st_khds st b = Some i \<and> b \<in> set (wrts dqs)" if "wo_ptr st (Suc i) = Some b" for b
    using deqs_okD(3)[OF ok that] by auto
  have dj: "set (prob dqs) \<inter> set (wrts dqs) = {}" using deqs_okD(1)[OF ok] by (simp add: deqs_shape_def)
  show "n < st_next_id st' \<and> (\<exists>j c. n = Suc j \<and> p = (c, 1) \<and> c \<in> set (prob dqs') \<and> st_khds st' c = Some j \<and> adm st' j)"
    if "ao_ptr st' n = Some p" for n p
  proof -
    from that have n: "n \<noteq> Suc i" "ao_ptr st n = Some p" by (auto simp: ptr split: if_splits)
    from deqs_okD(2)[OF ok n(2)] obtain j c where c: "n < st_next_id st" "n = Suc j" "p = (c, 1)"
      "c \<in> set (prob dqs)" "st_khds st c = Some j" "adm st j" by blast
    then have "j \<noteq> i" "c \<noteq> a" "wo_ptr st (Suc i) \<noteq> Some c" using n(1) a w[of c] by auto
    with c show ?thesis by (simp add: nx P kh ad)
  qed
  show "n < st_next_id st' \<and> (\<exists>j. n = Suc j \<and> c \<in> set (wrts dqs') \<and> st_khds st' c = Some j \<and> adm st' j)"
    if "wo_ptr st' n = Some c" for n c
  proof -
    from that have n: "n \<noteq> Suc i" "wo_ptr st n = Some c" by (auto simp: ptr split: if_splits)
    from deqs_okD(3)[OF ok n(2)] obtain j where c: "n < st_next_id st" "n = Suc j"
      "c \<in> set (wrts dqs)" "st_khds st c = Some j" "adm st j" by blast
    then have "j \<noteq> i" "c \<noteq> a" "wo_ptr st (Suc i) \<noteq> Some c" using n(1) a w[of c] by auto
    with c show ?thesis by (simp add: nx W kh ad)
  qed
  show "\<exists>j. st_khds st' c = Some j \<and> ao_ptr st' (Suc j) = Some (c, 1)" if "c \<in> set (prob dqs')" for c
  proof -
    from that have c: "c \<in> set (prob dqs)" "c \<noteq> a" by (auto simp: P)
    from deqs_okD(4)[OF ok c(1)] obtain j where j: "st_khds st c = Some j" "ao_ptr st (Suc j) = Some (c, 1)" by blast
    then have "j \<noteq> i" "wo_ptr st (Suc i) \<noteq> Some c" using ao c w[of c] dj by auto
    with j c(2) show ?thesis by (simp add: kh ptr)
  qed
  show "\<exists>j. st_khds st' c = Some j \<and> wo_ptr st' (Suc j) = Some c" if "c \<in> set (wrts dqs')" for c
  proof -
    from that have c: "c \<in> set (wrts dqs)" "wo_ptr st (Suc i) \<noteq> Some c" by (auto simp: W)
    from deqs_okD(5)[OF ok c(1)] obtain j where j: "st_khds st c = Some j" "wo_ptr st (Suc j) = Some c" by blast
    then have "j \<noteq> i" "c \<noteq> a" using a c dj by auto
    with j c(2) show ?thesis by (simp add: kh ptr)
  qed
  show "ao_ptr st' (Suc j) \<noteq> None" if "adm st' j" for j
    using that deqs_okD(6)[OF ok, of j] by (auto simp: ad ptr)
  show "c < st_next_addr st' \<and> c \<in> set (prob dqs') \<union> set (wrts dqs')" if "st_khds st' c = Some j" for c j
    using that deqs_okD(7)[OF ok, of c j] by (auto simp: kh nx P W split: if_splits)
qed

lemma remove_from_deques_ok:
  assumes ok: "deqs_ok st dqs" and e: "ve_nodes e = Suc (ve_info e)" and ad: "adm st (ve_info e)"
  shows "\<exists>st' dqs'. remove_from_deques e st dqs = Some (st', dqs') \<and> deqs_ok st' dqs' \<and>
    deq_frame (ve_info e) False st st' \<and> Suc (length (prob dqs')) = length (prob dqs)"
proof -
  let ?i = "ve_info e"
  obtain a where a: "ao_ptr st (Suc ?i) = Some (a, 1)" "a \<in> set (prob dqs)" "st_khds st a = Some ?i"
    using deqs_ok_adm[OF ok ad] by metis
  note sh = deqs_okD(1)[OF ok, unfolded deqs_shape_def]
  obtain p where p: "ad_unlink a (dqs_probation dqs) = Some p" "ad_ok p" "set (ad_nodes p) = set (prob dqs) - {a}"
    "Suc (length (ad_nodes p)) = length (prob dqs)" "ad_region p = MainProbation"
    using ad_unlink_mem[of "dqs_probation dqs" a] sh a(2) by auto
  let ?st1 = "free_khd a (set_access_order_q_node e None (ve_set_admitted False e st))"
  have 1: "unlink_ao e (ve_set_admitted False e st) dqs = Some (?st1, dqs\<lparr>dqs_probation := p\<rparr>)"
    using a p sh e
    by (simp add: unlink_ao_def take_access_order_q_node_def access_order_q_node_def ve_set_admitted_def
        unlink_node_ao_def cache_region_from_def unlink_node_ao_from_deque_def ad_contains_def
        set_access_order_q_node_def unlink_and_drop_khd_def)
  show ?thesis
  proof (cases "wo_ptr st (Suc ?i)")
    case None
    let ?st2 = "set_write_order_q_node e None ?st1"
    have "remove_from_deques e st dqs = Some (?st2, dqs\<lparr>dqs_probation := p\<rparr>)"
      using None 1 e by (simp add: remove_from_deques_def unlink_wo_def take_write_order_q_node_def
          write_order_q_node_def set_access_order_q_node_def ve_set_admitted_def)
    moreover have "deqs_ok ?st2 (dqs\<lparr>dqs_probation := p\<rparr>)"
      by (rule deqs_ok_removed[OF ok a(1)])
        (use p sh e None in \<open>auto simp: deqs_shape_def set_access_order_q_node_def set_write_order_q_node_def
          ve_set_admitted_def set_admitted_def fun_eq_iff\<close>)
    ultimately show ?thesis using p(4)
      by (auto simp: deq_frame_def set_access_order_q_node_def set_write_order_q_node_def ve_set_admitted_def upd_info_def)
  next
    case (Some b)
    then have b: "b \<in> set (wrts dqs)" "st_khds st b = Some ?i" "b \<noteq> a"
      using deqs_okD(3)[OF ok Some] a(2) sh by auto
    obtain w where w: "ad_unlink b (dqs_write_order dqs) = Some w" "ad_ok w" "set (ad_nodes w) = set (wrts dqs) - {b}"
      using ad_unlink_mem[of "dqs_write_order dqs" b] sh b(1) by auto
    let ?st2 = "free_khd b (set_write_order_q_node e None ?st1)"
    have "remove_from_deques e st dqs = Some (?st2, dqs\<lparr>dqs_probation := p, dqs_write_order := w\<rparr>)"
      using Some 1 e b w by (simp add: remove_from_deques_def unlink_wo_def take_write_order_q_node_def
          write_order_q_node_def set_access_order_q_node_def ve_set_admitted_def unlink_node_wo_def
          ad_contains_def set_write_order_q_node_def unlink_and_drop_khd_def)
    moreover have "deqs_ok ?st2 (dqs\<lparr>dqs_probation := p, dqs_write_order := w\<rparr>)"
      by (rule deqs_ok_removed[OF ok a(1)])
        (use p sh e Some w in \<open>auto simp: deqs_shape_def set_access_order_q_node_def set_write_order_q_node_def
          ve_set_admitted_def set_admitted_def fun_eq_iff\<close>)
    ultimately show ?thesis using p(4)
      by (auto simp: deq_frame_def set_access_order_q_node_def set_write_order_q_node_def ve_set_admitted_def upd_info_def)
  qed
qed

text \<open>Unlinking from the probation deque that was selected by name is the same.\<close>

lemma unlink_ao_from_deque_eq:
  assumes ok: "deqs_ok st dqs" and ad: "adm st (ve_info e)" and e: "ve_nodes e = Suc (ve_info e)"
  shows "unlink_ao e (ve_set_admitted False e st) dqs =
    do { (st, q) \<leftarrow> unlink_ao_from_deque e (ve_set_admitted False e st) (dqs_probation dqs);
         Some (st, dqs\<lparr>dqs_probation := q\<rparr>) }"
proof -
  obtain a where a: "ao_ptr st (Suc (ve_info e)) = Some (a, 1)" using deqs_ok_adm[OF ok ad] by metis
  then show ?thesis using e
    by (simp add: unlink_ao_def unlink_ao_from_deque_def take_access_order_q_node_def access_order_q_node_def
        ve_set_admitted_def unlink_node_ao_def cache_region_from_def)
qed

lemma deqs_ok_added:
  assumes ok: "deqs_ok st dqs" and i: "\<not> adm st i" "Suc i < st_next_id st"
    and sh: "deqs_shape dqs'" and P: "set (prob dqs') = insert a (set (prob dqs))"
    and W: "set (wrts dqs') = set_option b \<union> set (wrts dqs)"
    and fresh: "st_next_addr st \<le> a" "\<And>c. b = Some c \<Longrightarrow> st_next_addr st \<le> c \<and> c \<noteq> a"
    and kh: "st_khds st' = (\<lambda>c. if c = a \<or> b = Some c then Some i else st_khds st c)"
    and ptr: "\<And>n. ao_ptr st' n = (if n = Suc i then Some (a, 1) else ao_ptr st n)"
      "\<And>n. wo_ptr st' n = (if n = Suc i then b else wo_ptr st n)"
    and ad: "\<And>j. adm st' j = (j = i \<or> adm st j)"
    and nx: "st_next_id st' = st_next_id st" "st_next_addr st \<le> st_next_addr st'" "a < st_next_addr st'"
      "\<And>c. b = Some c \<Longrightarrow> c < st_next_addr st'"
  shows "deqs_ok st' dqs'"
proof (rule deqs_okI[OF sh])
  have new: "st_khds st c = Some j \<Longrightarrow> c \<noteq> a \<and> b \<noteq> Some c" for c j
    using deqs_okD(7)[OF ok, of c j] fresh by fastforce
  have other: "ao_ptr st (Suc j) = Some p \<Longrightarrow> j \<noteq> i" "wo_ptr st (Suc j) = Some c \<Longrightarrow> j \<noteq> i" for j p c
    using deqs_ok_not_adm[OF ok i(1)] by auto
  show "n < st_next_id st' \<and> (\<exists>j c. n = Suc j \<and> p = (c, 1) \<and> c \<in> set (prob dqs') \<and> st_khds st' c = Some j \<and> adm st' j)"
    if "ao_ptr st' n = Some p" for n p
  proof (cases "n = Suc i")
    case True
    with that show ?thesis using i(2) by (auto simp: ptr P kh ad nx)
  next
    case False
    with that deqs_okD(2)[OF ok, of n p] show ?thesis using new by (auto simp: ptr P kh ad nx)
  qed
  show "n < st_next_id st' \<and> (\<exists>j. n = Suc j \<and> c \<in> set (wrts dqs') \<and> st_khds st' c = Some j \<and> adm st' j)"
    if "wo_ptr st' n = Some c" for n c
  proof (cases "n = Suc i")
    case True
    with that show ?thesis using i(2) by (auto simp: ptr W kh ad nx)
  next
    case False
    with that deqs_okD(3)[OF ok, of n c] show ?thesis using new by (auto simp: ptr W kh ad nx)
  qed
  show "\<exists>j. st_khds st' c = Some j \<and> ao_ptr st' (Suc j) = Some (c, 1)" if "c \<in> set (prob dqs')" for c
  proof (cases "c = a")
    case True
    then show ?thesis by (simp add: kh ptr)
  next
    case False
    with that have "c \<in> set (prob dqs)" by (auto simp: P)
    from deqs_okD(4)[OF ok this] obtain j where "st_khds st c = Some j" "ao_ptr st (Suc j) = Some (c, 1)" by blast
    with new[of c j] other(1)[of j] show ?thesis by (simp add: kh ptr)
  qed
  show "\<exists>j. st_khds st' c = Some j \<and> wo_ptr st' (Suc j) = Some c" if "c \<in> set (wrts dqs')" for c
  proof (cases "b = Some c")
    case True
    then show ?thesis by (simp add: kh ptr)
  next
    case False
    with that have "c \<in> set (wrts dqs)" by (auto simp: W)
    from deqs_okD(5)[OF ok this] obtain j where "st_khds st c = Some j" "wo_ptr st (Suc j) = Some c" by blast
    with new[of c j] other(2)[of j] show ?thesis by (simp add: kh ptr)
  qed
  show "ao_ptr st' (Suc j) \<noteq> None" if "adm st' j" for j
    using that deqs_okD(6)[OF ok, of j] by (auto simp: ad ptr)
  show "c < st_next_addr st' \<and> c \<in> set (prob dqs') \<union> set (wrts dqs')" if "st_khds st' c = Some j" for c j
    using that deqs_okD(7)[OF ok, of c j] nx by (auto simp: kh P W split: if_splits)
qed

lemma add_to_deques_ok:
  assumes ok: "deqs_ok st dqs" and e: "ve_nodes e = Suc (ve_info e)" "ve_nodes e < st_next_id st"
    and ad: "\<not> adm st (ve_info e)"
  shows "\<exists>st' dqs'. add_to_deques wo e st dqs = Some (st', dqs') \<and> deqs_ok st' dqs' \<and>
    deq_frame (ve_info e) True st st' \<and> prob dqs' = prob dqs @ [st_next_addr st] \<and>
    wrts dqs' = wrts dqs @ (if wo then [Suc (st_next_addr st)] else [])"
proof -
  let ?i = "ve_info e" and ?a = "st_next_addr st"
  note sh = deqs_okD(1)[OF ok, unfolded deqs_shape_def]
  have fresh: "c \<in> set (prob dqs) \<union> set (wrts dqs) \<Longrightarrow> c < ?a" for c
    using deqs_okD(4,5,7)[OF ok, of c] by blast
  let ?dqs1 = "dqs\<lparr>dqs_probation := ad_push_back ?a (dqs_probation dqs)\<rparr>"
  let ?dqs2 = "?dqs1\<lparr>dqs_write_order := ad_push_back (Suc ?a) (dqs_write_order dqs)\<rparr>"
  let ?dqs = "if wo then ?dqs2 else ?dqs1"
  let ?st1 = "upd_nodes (ve_nodes e) (\<lambda>d. d\<lparr>dns_access_order_q_node := Some (?a, 1)\<rparr>)
    (st\<lparr>st_khds := (st_khds st)(?a \<mapsto> ?i), st_next_addr := Suc ?a\<rparr>)"
  let ?st2 = "upd_nodes (ve_nodes e) (\<lambda>d. d\<lparr>dns_write_order_q_node := Some (Suc ?a)\<rparr>)
    (?st1\<lparr>st_khds := (st_khds st)(?a \<mapsto> ?i, Suc ?a \<mapsto> ?i), st_next_addr := Suc (Suc ?a)\<rparr>)"
  define st' where "st' = upd_info ?i (set_admitted True) (if wo then ?st2 else ?st1)"
  have st': "add_to_deques wo e st dqs = Some (st', ?dqs)"
    unfolding st'_def by (cases wo) (simp_all add: add_to_deques_def push_back_ao_def push_back_wo_def alloc_khd_def
        Let_def ve_set_admitted_def set_access_order_q_node_def set_write_order_q_node_def)
  have nodup: "?a \<notin> set (prob dqs)" "Suc ?a \<notin> set (wrts dqs)" "?a \<notin> set (wrts dqs)" "Suc ?a \<notin> set (prob dqs)"
    using fresh by fastforce+
  have shape: "deqs_shape ?dqs"
    using sh nodup by (auto simp: deqs_shape_def ad_ok_push_back)
  have "deqs_ok st' ?dqs"
    by (rule deqs_ok_added[OF ok ad, of _ ?a "if wo then Some (Suc ?a) else None"])
      (use e shape deqs_ok_not_adm[OF ok ad] in \<open>auto simp: st'_def set_admitted_def fun_eq_iff split: if_splits\<close>)
  moreover have "deq_frame ?i True st st'"
    by (auto simp: deq_frame_def st'_def upd_info_def upd_nodes_def)
  ultimately show ?thesis using st' by simp
qed

end
