(* ===== verification/Policy.thy ===== *)
theory Policy
  imports Concurrent
begin

text \<open>
  What the user configures: the policies (\<open>src/src/policy.rs\<close>), removal causes
  (\<open>src/src/notification.rs\<close>) and the removal notifier (\<open>src/src/notification/notifier.rs\<close>).

  User closures are functions of the model. An \<open>Expiry\<close> receives \<open>std::time::Instant\<close>s, which the
  clock obtains from its own instants by adding a fixed origin; the model passes the clock's
  instants. A listener's outcome is whether it returned (it may panic, which the notifier
  catches); its calls are recorded in the notifier.
\<close>

datatype removal_cause = CauseExpired | CauseExplicit | CauseReplaced | CauseSize

definition was_evicted :: "removal_cause \<Rightarrow> bool" where
  "was_evicted c \<longleftrightarrow> c = CauseExpired \<or> c = CauseSize"

datatype eviction_policy_config = TinyLfu | Lru

record ('k, 'v) expiry =
  ex_after_create :: "'k \<Rightarrow> 'v \<Rightarrow> instant \<Rightarrow> duration option"
  ex_after_read :: "'k \<Rightarrow> 'v \<Rightarrow> instant \<Rightarrow> duration option \<Rightarrow> instant \<Rightarrow> duration option"
  ex_after_update :: "'k \<Rightarrow> 'v \<Rightarrow> instant \<Rightarrow> duration option \<Rightarrow> duration option"

text \<open>The default methods of the trait \<open>Expiry\<close>.\<close>

definition expiry_default :: "('k, 'v) expiry" where
  "expiry_default =
     \<lparr>ex_after_create = (\<lambda>key value created_at. None),
      ex_after_read = (\<lambda>key value read_at duration_until_expiry last_modified_at. duration_until_expiry),
      ex_after_update = (\<lambda>key value updated_at duration_until_expiry. duration_until_expiry)\<rparr>"

record ('k, 'v) expiration_policy =
  xp_time_to_live :: "duration option"
  xp_time_to_idle :: "duration option"
  xp_expiry :: "('k, 'v) expiry option"

definition expiration_policy_default :: "('k, 'v) expiration_policy" where
  "expiration_policy_default = \<lparr>xp_time_to_live = None, xp_time_to_idle = None, xp_expiry = None\<rparr>"

record policy =
  po_max_capacity :: "u64 option"
  po_num_segments :: nat
  po_time_to_live :: "duration option"
  po_time_to_idle :: "duration option"

section \<open>The removal notifier\<close>

record ('k, 'v) removal_notifier =
  rn_listener :: "'k \<Rightarrow> 'v \<Rightarrow> removal_cause \<Rightarrow> bool"
  rn_is_enabled :: bool
  rn_calls :: "('k \<times> 'v \<times> removal_cause) list"

definition removal_notifier_new :: "('k \<Rightarrow> 'v \<Rightarrow> removal_cause \<Rightarrow> bool) \<Rightarrow> ('k, 'v) removal_notifier" where
  "removal_notifier_new listener = \<lparr>rn_listener = listener, rn_is_enabled = True, rn_calls = []\<rparr>"

definition notify ::
  "'k \<Rightarrow> 'v \<Rightarrow> removal_cause \<Rightarrow> ('k, 'v) removal_notifier \<Rightarrow> ('k, 'v) removal_notifier" where
  "notify key value cause rn =
     (if \<not> rn_is_enabled rn then rn
      else (let rn = rn\<lparr>rn_calls := rn_calls rn @ [(key, value, cause)]\<rparr>
            in if rn_listener rn key value cause then rn else rn\<lparr>rn_is_enabled := False\<rparr>))"

text \<open>What a listener is to receive: the events up to the first one on which it panics.\<close>

fun delivered :: "('k \<Rightarrow> 'v \<Rightarrow> removal_cause \<Rightarrow> bool) \<Rightarrow> ('k \<times> 'v \<times> removal_cause) list \<Rightarrow>
    ('k \<times> 'v \<times> removal_cause) list" where
  "delivered listener [] = []"
| "delivered listener ((k, v, c) # es) = (k, v, c) # (if listener k v c then delivered listener es else [])"

lemma notify_disabled: "\<not> rn_is_enabled rn \<Longrightarrow> fold (\<lambda>(k, v, c). notify k v c) es rn = rn"
  by (induction es) (auto simp: notify_def)

lemma notify_enabled:
  "rn_calls (fold (\<lambda>(k, v, c). notify k v c) es
     \<lparr>rn_listener = listener, rn_is_enabled = True, rn_calls = cs\<rparr>) = cs @ delivered listener es"
proof (induction es arbitrary: cs)
  case (Cons e es)
  obtain k v c where e: "e = (k, v, c)" by (cases e)
  have "notify k v c \<lparr>rn_listener = listener, rn_is_enabled = True, rn_calls = cs\<rparr> =
      \<lparr>rn_listener = listener, rn_is_enabled = listener k v c, rn_calls = cs @ [e]\<rparr>"
    by (simp add: e notify_def Let_def)
  with Cons.IH[of "cs @ [e]"] show ?case
    by (cases "listener k v c") (simp_all add: e notify_disabled)
qed simp

text \<open>A listener that panics is not called again. Every notification is delivered, in order
  and exactly once, up to and including the first one on which the listener panics; none is
  delivered after it.\<close>

theorem notifier_delivers:
  "rn_calls (fold (\<lambda>(k, v, c). notify k v c) events (removal_notifier_new listener)) =
     delivered listener events"
  using notify_enabled[of events listener "[]"] by (simp add: removal_notifier_new_def)

end
