(* ===== verification/Invalidator.thy ===== *)
theory Invalidator
  imports Policy
begin

text \<open>
  The invalidation predicates (\<open>src/src/sync/invalidator.rs\<close>), as far as they do not touch the
  cache; \<open>scan_and_invalidate\<close> is in \<open>Base_Cache\<close>. The registry is a map from identifiers to
  predicates with some iteration order, an association list with distinct keys. The random
  UUIDs are a parameter, the sequence of identifiers that successive draws return.
\<close>

section \<open>Data and operations\<close>

record ('k, 'v) predicate =
  pr_id :: string
  pr_f :: "'k \<Rightarrow> 'v \<Rightarrow> bool"
  pr_registered_at :: instant

record ('k, 'v) invalidator =
  iv_predicates :: "(string \<times> ('k, 'v) predicate) list"
  iv_is_empty :: bool
  iv_scan_context :: "('k, 'v) predicate list"

record 'k key_date_lite =
  kd_key :: 'k
  kd_hash :: u64
  kd_timestamp :: instant

datatype predicate_error = InvalidationClosuresDisabled

definition invalidator_new :: "('k, 'v) invalidator" where
  "invalidator_new = \<lparr>iv_predicates = [], iv_is_empty = True, iv_scan_context = []\<rparr>"

definition predicate_is_applicable :: "('k, 'v) predicate \<Rightarrow> instant \<Rightarrow> bool" where
  "predicate_is_applicable p ts \<longleftrightarrow> ts \<le> pr_registered_at p"

definition remove_predicates_registered_before ::
  "instant \<Rightarrow> ('k, 'v) invalidator \<Rightarrow> ('k, 'v) invalidator" where
  "remove_predicates_registered_before ts iv =
     (let preds = filter (\<lambda>(id, pred). \<not> pr_registered_at pred \<le> ts) (iv_predicates iv);
          iv = iv\<lparr>iv_predicates := preds\<rparr>
      in if preds = [] then iv\<lparr>iv_is_empty := True\<rparr> else iv)"

definition MAX_RETRY :: nat where "MAX_RETRY = 1000"

fun register_try ::
  "(nat \<Rightarrow> string) \<Rightarrow> nat \<Rightarrow> nat \<Rightarrow> ('k \<Rightarrow> 'v \<Rightarrow> bool) \<Rightarrow> instant \<Rightarrow> ('k, 'v) invalidator \<Rightarrow>
    (('k, 'v) invalidator \<times> string) or_panic" where
  "register_try uuid tries 0 predicate registered_at iv = None"
| "register_try uuid tries (Suc left) predicate registered_at iv =
     (let id = uuid tries
      in if map_of (iv_predicates iv) id \<noteq> None
         then register_try uuid (Suc tries) left predicate registered_at iv
         else (let pred = \<lparr>pr_id = id, pr_f = predicate, pr_registered_at = registered_at\<rparr>
               in Some (iv\<lparr>iv_predicates := iv_predicates iv @ [(id, pred)], iv_is_empty := False\<rparr>, id)))"

definition register_predicate ::
  "(nat \<Rightarrow> string) \<Rightarrow> ('k \<Rightarrow> 'v \<Rightarrow> bool) \<Rightarrow> instant \<Rightarrow> ('k, 'v) invalidator \<Rightarrow>
    (('k, 'v) invalidator \<times> string) or_panic" where
  "register_predicate uuid predicate registered_at iv =
     register_try uuid 0 MAX_RETRY predicate registered_at iv"

fun do_apply_predicates :: "('k, 'v) predicate list \<Rightarrow> 'k \<Rightarrow> 'v \<Rightarrow> instant \<Rightarrow> bool" where
  "do_apply_predicates [] key val ts = False"
| "do_apply_predicates (p # ps) key val ts =
     (if predicate_is_applicable p ts \<and> pr_f p key val then True
      else do_apply_predicates ps key val ts)"

definition apply_predicates ::
  "'k store \<Rightarrow> ('k, 'v) invalidator \<Rightarrow> 'k \<Rightarrow> 'v value_entry \<Rightarrow> bool" where
  "apply_predicates st iv key entry =
     (if iv_is_empty iv then False
      else case last_modified (info_of st entry) of
          Some ts \<Rightarrow> do_apply_predicates (map snd (iv_predicates iv)) key (ve_value entry) ts
        | None \<Rightarrow> False)"

definition remove_predicates ::
  "('k, 'v) predicate list \<Rightarrow> ('k, 'v) invalidator \<Rightarrow> ('k, 'v) invalidator" where
  "remove_predicates ps iv =
     (let preds = filter (\<lambda>(id, pred). id \<notin> pr_id ` set ps) (iv_predicates iv);
          iv = iv\<lparr>iv_predicates := preds\<rparr>
      in if preds = [] then iv\<lparr>iv_is_empty := True\<rparr> else iv)"

definition remove_finished_predicates ::
  "bool \<Rightarrow> instant option \<Rightarrow> ('k, 'v) invalidator \<Rightarrow> ('k, 'v) invalidator or_panic" where
  "remove_finished_predicates is_truncated newest_timestamp iv =
     (if is_truncated then
        (case newest_timestamp of
           Some ts \<Rightarrow>
             (let (active, finished) = partition (\<lambda>p. predicate_is_applicable p ts) (iv_scan_context iv);
                  iv = remove_predicates finished iv
              in Some (iv\<lparr>iv_scan_context := active\<rparr>))
         | None \<Rightarrow> None)
      else Some ((remove_predicates (iv_scan_context iv) iv)\<lparr>iv_scan_context := []\<rparr>))"

section \<open>Properties\<close>

definition inv_ok :: "('k, 'v) invalidator \<Rightarrow> bool" where
  "inv_ok iv \<longleftrightarrow> distinct (map fst (iv_predicates iv)) \<and> (\<forall>(id, p) \<in> set (iv_predicates iv). pr_id p = id) \<and>
     (iv_is_empty iv \<longleftrightarrow> iv_predicates iv = [])"

lemma do_apply_predicates_iff:
  "do_apply_predicates ps key val ts \<longleftrightarrow> (\<exists>p \<in> set ps. predicate_is_applicable p ts \<and> pr_f p key val)"
  by (induction ps) auto

lemma inv_ok_new [simp]: "inv_ok invalidator_new"
  by (simp add: inv_ok_def invalidator_new_def)

lemma inv_ok_filter:
  assumes "inv_ok iv" "iv' = iv\<lparr>iv_predicates := filter P (iv_predicates iv)\<rparr>"
  shows "inv_ok (if iv_predicates iv' = [] then iv'\<lparr>iv_is_empty := True\<rparr> else iv')"
proof -
  have "distinct (map fst (filter P (iv_predicates iv)))"
    using assms(1) unfolding inv_ok_def by (metis distinct_map_filter)
  moreover have "filter P (iv_predicates iv) \<noteq> [] \<Longrightarrow> iv_predicates iv \<noteq> []" by auto
  ultimately show ?thesis using assms by (auto simp: inv_ok_def)
qed

lemma inv_ok_remove [simp]: "inv_ok iv \<Longrightarrow> inv_ok (remove_predicates ps iv)"
  unfolding remove_predicates_def Let_def using inv_ok_filter[OF _ refl, of iv] by simp

lemma inv_ok_remove_before [simp]: "inv_ok iv \<Longrightarrow> inv_ok (remove_predicates_registered_before ts iv)"
  unfolding remove_predicates_registered_before_def Let_def using inv_ok_filter[OF _ refl, of iv] by simp

lemma register_try_ok:
  assumes "inv_ok iv" "k < n" "map_of (iv_predicates iv) (uuid (tries + k)) = None"
  shows "\<exists>iv' id. register_try uuid tries n f ts iv = Some (iv', id) \<and> inv_ok iv' \<and>
    iv_predicates iv' = iv_predicates iv @ [(id, \<lparr>pr_id = id, pr_f = f, pr_registered_at = ts\<rparr>)]"
  using assms(2,3)
proof (induction n arbitrary: tries k)
  case (Suc n)
  show ?case
  proof (cases "map_of (iv_predicates iv) (uuid tries)")
    case None
    then have "uuid tries \<notin> fst ` set (iv_predicates iv)" by (simp add: map_of_eq_None_iff)
    with None assms(1) show ?thesis by (auto simp: Let_def inv_ok_def)
  next
    case (Some p)
    with Suc.prems obtain k' where "k = Suc k'" by (cases k) auto
    with Suc.prems Suc.IH[of k' "Suc tries"] Some show ?thesis by (simp add: Let_def)
  qed
qed simp

text \<open>A registered predicate takes effect at once. When one of the first thousand
  identifiers that are drawn is new, registering a predicate returns, keeps the registry
  consistent, and from then on an entry is reported as invalidated exactly when an older
  predicate already did so or the new one holds for it and it was not modified after the
  registration.\<close>

theorem register_predicate_effect:
  assumes "inv_ok iv" "k < 1000" "map_of (iv_predicates iv) (uuid k) = None"
  shows "\<exists>iv' id. register_predicate uuid f at iv = Some (iv', id) \<and> inv_ok iv' \<and>
    (apply_predicates st iv' key entry \<longleftrightarrow>
       apply_predicates st iv key entry \<or>
       (\<exists>ts. last_modified (info_of st entry) = Some ts \<and> ts \<le> at \<and> f key (ve_value entry)))"
proof -
  obtain iv' id where r: "register_try uuid 0 MAX_RETRY f at iv = Some (iv', id)" "inv_ok iv'"
    "iv_predicates iv' = iv_predicates iv @ [(id, \<lparr>pr_id = id, pr_f = f, pr_registered_at = at\<rparr>)]"
    using register_try_ok[OF assms(1), of k MAX_RETRY uuid 0 f at] assms(2,3) by (auto simp: MAX_RETRY_def)
  have "iv_is_empty iv \<longleftrightarrow> iv_predicates iv = []" "\<not> iv_is_empty iv'"
    using assms(1) r(2,3) by (auto simp: inv_ok_def)
  with r show ?thesis
    by (auto simp: register_predicate_def apply_predicates_def do_apply_predicates_iff
        predicate_is_applicable_def split: option.splits)
qed

theorem register_predicate_effect_witness:
  "\<exists>iv' id. register_predicate (\<lambda>_. ''a'') (\<lambda>k v. k = (1 :: nat) \<and> v = (2 :: nat)) (Instant 5) invalidator_new = Some (iv', id) \<and>
     inv_ok iv'"
proof -
  have "map_of (iv_predicates (invalidator_new :: (nat, nat) invalidator)) ''a'' = None"
    by (simp add: invalidator_new_def)
  from register_predicate_effect[OF inv_ok_new, of 0 "\<lambda>_. ''a''" "\<lambda>k v. k = (1 :: nat) \<and> v = (2 :: nat)" "Instant 5"
      undefined 0 undefined, OF _ this]
  show ?thesis by (metis zero_less_numeral)
qed

end
