(* ===== verification/Housekeeper.thy ===== *)
theory Housekeeper
  imports Moka_Time
begin

text \<open>
  The housekeeper (\<open>src/src/common/concurrent/housekeeper.rs\<close>) decides when a read or a write
  runs the maintenance tasks. The cache it maintains is the parameter \<open>run\<close>, the method
  \<open>run_pending_tasks\<close> of the trait \<open>InnerSync\<close>; \<open>now\<close> is what the cache's clock reads. The run
  lock is a boolean: \<open>try_lock\<close> fails when it is held.
\<close>

definition DEFAULT_MAX_LOG_SYNC_REPEATS :: nat where "DEFAULT_MAX_LOG_SYNC_REPEATS = 4"

definition LOG_SYNC_INTERVAL_MILLIS :: nat where "LOG_SYNC_INTERVAL_MILLIS = 300"

definition READ_LOG_FLUSH_POINT :: nat where "READ_LOG_FLUSH_POINT = 64"

definition WRITE_LOG_FLUSH_POINT :: nat where "WRITE_LOG_FLUSH_POINT = 64"

definition READ_LOG_CH_SIZE :: nat where
  "READ_LOG_CH_SIZE = READ_LOG_FLUSH_POINT * (DEFAULT_MAX_LOG_SYNC_REPEATS + 2)"

definition WRITE_LOG_CH_SIZE :: nat where
  "WRITE_LOG_CH_SIZE = WRITE_LOG_FLUSH_POINT * (DEFAULT_MAX_LOG_SYNC_REPEATS + 2)"

definition DEFAULT_EVICTION_BATCH_SIZE :: u32 where
  "DEFAULT_EVICTION_BATCH_SIZE = word_of_nat WRITE_LOG_CH_SIZE"

definition DEFAULT_MAINTENANCE_TASK_TIMEOUT_MILLIS :: nat where
  "DEFAULT_MAINTENANCE_TASK_TIMEOUT_MILLIS = 100"

record housekeeper_config =
  hc_maintenance_task_timeout :: duration
  hc_max_log_sync_repeats :: u32
  hc_eviction_batch_size :: u32

definition housekeeper_config_default :: housekeeper_config where
  "housekeeper_config_default =
     \<lparr>hc_maintenance_task_timeout = DEFAULT_MAINTENANCE_TASK_TIMEOUT_MILLIS * 1000000,
      hc_max_log_sync_repeats = word_of_nat DEFAULT_MAX_LOG_SYNC_REPEATS,
      hc_eviction_batch_size = DEFAULT_EVICTION_BATCH_SIZE\<rparr>"

record housekeeper =
  hk_run_lock :: bool
  hk_run_after :: atomic_instant
  hk_more_entries_to_evict :: "bool option"
  hk_maintenance_task_timeout :: "duration option"
  hk_max_log_sync_repeats :: u32
  hk_eviction_batch_size :: u32
  hk_auto_run_enabled :: bool

definition sync_after :: "instant \<Rightarrow> instant" where
  "sync_after now = saturating_add now (LOG_SYNC_INTERVAL_MILLIS * 1000000)"

definition housekeeper_new :: "bool \<Rightarrow> housekeeper_config \<Rightarrow> instant \<Rightarrow> housekeeper" where
  "housekeeper_new is_eviction_listener_enabled config now =
     (let (more, timeout) =
            (if is_eviction_listener_enabled then (Some False, Some (hc_maintenance_task_timeout config))
             else (None, None))
      in \<lparr>hk_run_lock = False, hk_run_after = atomic_instant_new (sync_after now),
          hk_more_entries_to_evict = more, hk_maintenance_task_timeout = timeout,
          hk_max_log_sync_repeats = hc_max_log_sync_repeats config,
          hk_eviction_batch_size = hc_eviction_batch_size config, hk_auto_run_enabled = True\<rparr>)"

definition hk_more :: "housekeeper \<Rightarrow> bool" where
  "hk_more hk = (case hk_more_entries_to_evict hk of Some v \<Rightarrow> v | None \<Rightarrow> False)"

definition set_more_entries_to_evict :: "bool \<Rightarrow> housekeeper \<Rightarrow> housekeeper" where
  "set_more_entries_to_evict v hk =
     hk\<lparr>hk_more_entries_to_evict := map_option (\<lambda>_. v) (hk_more_entries_to_evict hk)\<rparr>"

definition should_apply :: "housekeeper \<Rightarrow> nat \<Rightarrow> nat \<Rightarrow> instant \<Rightarrow> bool or_panic" where
  "should_apply hk ch_len ch_flush_point now =
     (if \<not> hk_auto_run_enabled hk then Some False
      else if ch_len \<ge> ch_flush_point then Some True
      else do { run_after \<leftarrow> get_instant (hk_run_after hk); Some (now \<ge> run_after) })"

definition should_apply_reads :: "housekeeper \<Rightarrow> nat \<Rightarrow> instant \<Rightarrow> bool or_panic" where
  "should_apply_reads hk ch_len now =
     (if hk_more hk then Some True else should_apply hk ch_len READ_LOG_FLUSH_POINT now)"

definition should_apply_writes :: "housekeeper \<Rightarrow> nat \<Rightarrow> instant \<Rightarrow> bool or_panic" where
  "should_apply_writes hk ch_len now =
     (if hk_more hk then Some True else should_apply hk ch_len WRITE_LOG_FLUSH_POINT now)"

definition hk_do_run_pending_tasks ::
  "(duration option \<Rightarrow> u32 \<Rightarrow> u32 \<Rightarrow> 's \<Rightarrow> ('s \<times> bool) or_panic) \<Rightarrow> instant \<Rightarrow> housekeeper \<Rightarrow> 's \<Rightarrow>
    (housekeeper \<times> 's) or_panic" where
  "hk_do_run_pending_tasks run now hk s =
     (let hk = hk\<lparr>hk_run_after := set_instant (hk_run_after hk) (sync_after now)\<rparr>
      in do { (s, more_to_evict) \<leftarrow>
                run (hk_maintenance_task_timeout hk) (hk_max_log_sync_repeats hk) (hk_eviction_batch_size hk) s;
              Some (set_more_entries_to_evict more_to_evict hk, s) })"

definition try_run_pending_tasks ::
  "(duration option \<Rightarrow> u32 \<Rightarrow> u32 \<Rightarrow> 's \<Rightarrow> ('s \<times> bool) or_panic) \<Rightarrow> instant \<Rightarrow> housekeeper \<Rightarrow> 's \<Rightarrow>
    (housekeeper \<times> 's \<times> bool) or_panic" where
  "try_run_pending_tasks run now hk s =
     (if hk_run_lock hk then Some (hk, s, False)
      else do { (hk, s) \<leftarrow> hk_do_run_pending_tasks run now hk s; Some (hk, s, True) })"

section \<open>Properties\<close>

text \<open>The deadline of a housekeeper is always set.\<close>

definition hk_ok :: "housekeeper \<Rightarrow> bool" where
  "hk_ok hk \<longleftrightarrow> is_set (hk_run_after hk)"

lemma hk_ok_new [simp]: "hk_ok (housekeeper_new l c now)"
  by (simp add: hk_ok_def housekeeper_new_def is_set_iff sync_after_def Let_def)

lemma hk_ok_run: "hk_do_run_pending_tasks run now hk s = Some (hk', s') \<Longrightarrow> hk_ok hk'"
  by (auto simp: hk_do_run_pending_tasks_def hk_ok_def is_set_iff sync_after_def Let_def
      set_more_entries_to_evict_def Option.bind_eq_Some_conv)

text \<open>When maintenance is due. The deadline is always set, so the decision never panics; a
  full log, entries left over from the last run, or 300 milliseconds since the last run make a
  write run the maintenance, and nothing else does. After a run at \<open>now\<close> with no entries left
  over, a write with a log below the flush point does not run it again before the 300
  milliseconds are over.\<close>

theorem housekeeper_due:
  assumes "hk_ok hk" "hk_auto_run_enabled hk"
  shows "\<exists>r. get_instant (hk_run_after hk) = Some r \<and>
      should_apply_writes hk n now = Some (hk_more hk \<or> WRITE_LOG_FLUSH_POINT \<le> n \<or> r \<le> now) \<and>
      (hk_do_run_pending_tasks run now hk s = Some (hk', s') \<and> \<not> hk_more hk' \<and>
          n < WRITE_LOG_FLUSH_POINT \<and> later < saturating_add now (300 * 1000000) \<longrightarrow>
        should_apply_writes hk' n later = Some False)"
proof -
  obtain r where r: "get_instant (hk_run_after hk) = Some r"
    using assms(1) by (auto simp: hk_ok_def is_set_iff)
  then have "should_apply_writes hk n now = Some (hk_more hk \<or> WRITE_LOG_FLUSH_POINT \<le> n \<or> r \<le> now)"
    using assms(2) by (auto simp: should_apply_writes_def should_apply_def)
  moreover have "should_apply_writes hk' n later = Some False"
    if "hk_do_run_pending_tasks run now hk s = Some (hk', s')" "\<not> hk_more hk'"
      "n < WRITE_LOG_FLUSH_POINT" "later < saturating_add now (300 * 1000000)"
    using that assms(2)
    by (auto simp: hk_do_run_pending_tasks_def Let_def Option.bind_eq_Some_conv should_apply_writes_def
        should_apply_def set_more_entries_to_evict_def sync_after_def LOG_SYNC_INTERVAL_MILLIS_def)
  ultimately show ?thesis using r by blast
qed

theorem housekeeper_due_witness:
  "should_apply_writes (housekeeper_new False housekeeper_config_default (Instant 0)) 64 (Instant 0) = Some True"
proof -
  have "hk_auto_run_enabled (housekeeper_new False housekeeper_config_default (Instant 0))"
    by (simp add: housekeeper_new_def)
  from housekeeper_due[OF hk_ok_new this, of 64 "Instant 0"] show ?thesis
    by (auto simp: WRITE_LOG_FLUSH_POINT_def)
qed

end
