(* ===== verification/Frequency_Sketch.thy ===== *)
theory Frequency_Sketch
  imports Moka_Prelude
begin

text \<open>
  The popularity estimator of the TinyLFU admission policy
  (\<open>src/src/common/frequency_sketch.rs\<close>): a count-min sketch of depth four. The table is an
  array of 64-bit words, each of which packs sixteen 4-bit counters. Every operation of the
  source is a definition here; an index out of the table's bounds is a panic (\<open>None\<close>).
  The specification is the matrix of counters as numbers, \<open>nibble\<close>; the bit tricks of
  \<open>increment_at\<close> and \<open>reset\<close> are shown to add one to a single counter and to halve all of
  them.
\<close>

section \<open>The sketch\<close>

record frequency_sketch =
  fs_sample_size :: u32
  fs_table_mask :: u64
  fs_table :: "u64 list"
  fs_size :: u32

definition fs_default :: frequency_sketch where
  "fs_default = \<lparr>fs_sample_size = 0, fs_table_mask = 0, fs_table = [], fs_size = 0\<rparr>"

definition SEED :: "u64 list" where
  "SEED = [0xc3a5c85c97cb3127, 0xb492b66fbe98f273, 0x9ae16a3b2f90404f, 0xcbf29ce484222325]"

definition RESET_MASK :: u64 where
  "RESET_MASK = 0x7777777777777777"

definition ONE_MASK :: u64 where
  "ONE_MASK = 0x1111111111111111"

text \<open>\<open>pw\<close> is the target's pointer width, which \<open>cfg!\<close> selects at compile time.\<close>

definition sketch_maximum :: "nat \<Rightarrow> u32 \<Rightarrow> u32" where
  "sketch_maximum pw cap =
     (if pw = 16 then min cap 1024
      else if pw = 32 then min cap (2 ^ 24)
      else min cap (2 ^ 30))"

definition sketch_table_size :: "u32 \<Rightarrow> u32" where
  "sketch_table_size maximum =
     (if maximum = 0 then 1 else word_of_nat (next_power_of_two (unat maximum)))"

definition ensure_capacity :: "nat \<Rightarrow> u32 \<Rightarrow> frequency_sketch \<Rightarrow> frequency_sketch" where
  "ensure_capacity pw cap s =
     (let maximum = sketch_maximum pw cap;
          table_size = sketch_table_size maximum
      in if word_of_nat (length (fs_table s)) \<ge> table_size then s
         else s\<lparr>fs_table := replicate (unat table_size) 0,
                fs_table_mask := ucast (sat_sub table_size 1),
                fs_sample_size := (if cap = 0 then 10
                                   else min (sat_mul maximum 10) 0x7fffffff)\<rparr>)"

definition index_of :: "frequency_sketch \<Rightarrow> u64 \<Rightarrow> nat \<Rightarrow> nat or_panic" where
  "index_of s hash depth =
     do { seed \<leftarrow> idx SEED depth;
          let h = (hash + seed) * seed;
          let h = h + drop_bit 32 h;
          Some (unat (h AND fs_table_mask s)) }"

text \<open>The first of the four counters of an element: \<open>((hash & 3) << 2) as u8\<close>.\<close>

definition start_of :: "u64 \<Rightarrow> u8" where
  "start_of hash = ucast (push_bit 2 (hash AND 3))"

definition frequency_step :: "frequency_sketch \<Rightarrow> u64 \<Rightarrow> u8 \<Rightarrow> nat \<Rightarrow> u8 \<Rightarrow> u8 or_panic" where
  "frequency_step s hash start i freq =
     do { index \<leftarrow> index_of s hash i;
          let shift = push_bit 2 (start + word_of_nat i);
          slot \<leftarrow> idx (fs_table s) index;
          let count = (ucast (drop_bit (unat shift) slot AND 0xF) :: u8);
          Some (min freq count) }"

definition frequency :: "frequency_sketch \<Rightarrow> u64 \<Rightarrow> u8 or_panic" where
  "frequency s hash =
     (if fs_table s = [] then Some 0
      else let start = start_of hash
           in mfold (frequency_step s hash start) [0..<4] (- 1))"

definition increment_at :: "frequency_sketch \<Rightarrow> nat \<Rightarrow> u8 \<Rightarrow> (frequency_sketch \<times> bool) or_panic" where
  "increment_at s table_index counter_index =
     (let offset = push_bit 2 (unat counter_index);
          mask = push_bit offset (0xF :: u64)
      in do { slot \<leftarrow> idx (fs_table s) table_index;
              if slot AND mask \<noteq> mask
              then Some (s\<lparr>fs_table := (fs_table s)[table_index := slot + push_bit offset 1]\<rparr>, True)
              else Some (s, False) })"

definition count_ones :: "u64 \<Rightarrow> nat" where
  "count_ones w = length (filter (bit w) [0..<64])"

text \<open>The loop of \<open>reset\<close> over the table: the number of odd counters, wrapping at 32 bits.\<close>

fun count_odd :: "u64 list \<Rightarrow> u32 \<Rightarrow> u32" where
  "count_odd [] count = count"
| "count_odd (entry # es) count =
     count_odd es (count + word_of_nat (count_ones (entry AND ONE_MASK)))"

definition halve_entry :: "u64 \<Rightarrow> u64" where
  "halve_entry entry = drop_bit 1 entry AND RESET_MASK"

definition reset :: "frequency_sketch \<Rightarrow> frequency_sketch" where
  "reset s =
     (let count = count_odd (fs_table s) 0
      in s\<lparr>fs_table := map halve_entry (fs_table s),
           fs_size := drop_bit 1 (fs_size s) - drop_bit 2 count\<rparr>)"

definition increment_step ::
  "u64 \<Rightarrow> u8 \<Rightarrow> nat \<Rightarrow> frequency_sketch \<times> bool \<Rightarrow> (frequency_sketch \<times> bool) or_panic" where
  "increment_step hash start i sa =
     (case sa of (s, added) \<Rightarrow>
        do { index \<leftarrow> index_of s hash i;
             (s', b) \<leftarrow> increment_at s index (start + word_of_nat i);
             Some (s', added \<or> b) })"

definition increment :: "frequency_sketch \<Rightarrow> u64 \<Rightarrow> frequency_sketch or_panic" where
  "increment s hash =
     (if fs_table s = [] then Some s
      else let start = start_of hash
           in do { (s, added) \<leftarrow> mfold (increment_step hash start) [0..<4] (s, False);
                   if added
                   then let s = s\<lparr>fs_size := fs_size s + 1\<rparr>
                        in Some (if fs_size s \<ge> fs_sample_size s then reset s else s)
                   else Some s })"

section \<open>Packed counters\<close>

text \<open>The value of the 4-bit counter number \<open>i\<close> of a word.\<close>

definition nibble :: "u64 \<Rightarrow> nat \<Rightarrow> nat" where
  "nibble w i = unat w div 16 ^ i mod 16"

lemma nibble_lt [simp]: "nibble w i < 16"
  by (simp add: nibble_def)

lemma nibble_0 [simp]: "nibble 0 i = 0"
  by (simp add: nibble_def)

lemma pow16: "(16::nat) ^ i = 2 ^ (4 * i)"
  by (simp add: power_mult)

lemma nibble_take_drop: "nibble w i = unat (take_bit 4 (drop_bit (4 * i) w))"
proof -
  have "unat (take_bit 4 (drop_bit (4 * i) w)) = take_bit 4 (drop_bit (4 * i) (unat w))"
    by (simp add: unsigned_take_bit_eq unat_drop_bit_eq)
  then show ?thesis
    by (simp only: nibble_def pow16 drop_bit_eq_div take_bit_eq_mod) simp
qed

lemma and_15: "(w :: u64) AND 0xF = take_bit 4 w"
  by (simp add: take_bit_eq_mask mask_eq_exp_minus_1)

lemma nibble_shift: "unat (drop_bit (4 * i) w AND 0xF) = nibble w i"
  by (simp add: nibble_take_drop and_15)

lemma take_bit4_mask_iff: "take_bit 4 (x :: u64) = mask 4 \<longleftrightarrow> unat (take_bit 4 x) = 15"
  by (simp add: word_unat_eq_iff mask_eq_exp_minus_1)

lemma nibble_full_iff:
  assumes "i < 16"
  shows "w AND push_bit (4 * i) 0xF = push_bit (4 * i) (0xF :: u64) \<longleftrightarrow> nibble w i = 15"
proof -
  have m: "(0xF :: u64) = mask 4" by (simp add: mask_eq_exp_minus_1)
  have "w AND push_bit (4 * i) (mask 4) = push_bit (4 * i) (mask 4) \<longleftrightarrow> take_bit 4 (drop_bit (4 * i) w) = mask 4"
    (is "?L \<longleftrightarrow> ?R")
  proof
    assume L: ?L
    show ?R
    proof (rule bit_word_eqI)
      fix n assume "n < LENGTH(64)"
      have "bit (w AND push_bit (4 * i) (mask 4)) (4 * i + n) = bit (push_bit (4 * i) (mask 4 :: u64)) (4 * i + n)"
        using L by simp
      with assms show "bit (take_bit 4 (drop_bit (4 * i) w)) n = bit (mask 4 :: u64) n"
        by (auto simp: bit_simps)
    qed
  next
    assume R: ?R
    show ?L
    proof (rule bit_word_eqI)
      fix n assume n: "n < LENGTH(64)"
      show "bit (w AND push_bit (4 * i) (mask 4)) n = bit (push_bit (4 * i) (mask 4 :: u64)) n"
      proof (cases "4 * i \<le> n")
        case True
        then obtain k where k: "n = 4 * i + k" using le_Suc_ex by blast
        have "bit (take_bit 4 (drop_bit (4 * i) w)) k = bit (mask 4 :: u64) k" using R by simp
        with n k show ?thesis by (auto simp: bit_simps)
      qed (auto simp: bit_simps)
    qed
  qed
  then show ?thesis by (simp add: m take_bit4_mask_iff nibble_take_drop)
qed

lemma digit_add_pow:
  fixes n b :: nat
  assumes "1 < b" and "n div b ^ i mod b < b - 1"
  shows "(n + b ^ i) div b ^ j mod b = (if j = i then Suc (n div b ^ i mod b) else n div b ^ j mod b)"
proof -
  let ?q = "n div b ^ i" and ?r = "n mod b ^ i"
  have bp: "b ^ i \<noteq> 0" using assms by simp
  have addq: "(n + b ^ i) div b ^ i = Suc ?q" using bp by (simp add: div_add_self2)
  consider "j = i" | "j < i" | "i < j" by linarith
  then show ?thesis
  proof cases
    case 1
    have "Suc ?q mod b = Suc (?q mod b)" using assms by (simp add: mod_Suc)
    with 1 addq show ?thesis by simp
  next
    case 2
    then obtain k where k: "i = Suc j + k" using less_natE by (metis add_Suc_right add_Suc)
    have "b ^ i = b ^ j * (b * b ^ k)" using k by (simp add: power_add)
    then have "(n + b ^ i) div b ^ j = n div b ^ j + b * b ^ k"
      using assms(1) by simp
    with 2 show ?thesis by simp
  next
    case 3
    then obtain k where k: "j = Suc i + k" using less_natE by (metis add_Suc_right add_Suc)
    have bj: "b ^ j = b ^ i * (b * b ^ k)" using k by (simp add: power_add)
    have "Suc ?q div b = ?q div b" using assms by (simp add: div_Suc mod_Suc) 
    then have "(n + b ^ i) div b ^ j = n div b ^ j"
      by (simp add: bj div_mult2_eq addq)
    with 3 show ?thesis by simp
  qed
qed
lemma nibble_add_one:
  assumes "i < 16" and "nibble w i \<noteq> 15"
  shows "nibble (w + push_bit (4 * i) 1) j = (if j = i then Suc (nibble w i) else nibble w j)"
proof -
  have d: "unat w div 16 ^ i mod 16 < 16 - 1"
    using assms(2) nibble_lt[of w i] by (simp add: nibble_def)
  have pos: "unat (push_bit (4 * i) 1 :: u64) = 16 ^ i"
  proof -
    have lt: "(2::nat) ^ (4 * i) < 2 ^ 64"
      using assms(1) by (intro power_strict_increasing) auto
    have "unat (push_bit (4 * i) 1 :: u64) = take_bit 64 (push_bit (4 * i) 1)"
      by (subst unsigned_push_bit_eq) simp
    also have "\<dots> = push_bit (4 * i) 1"
      by (rule take_bit_nat_eq_self) (use lt in \<open>simp add: push_bit_eq_mult\<close>)
    finally show ?thesis by (simp add: push_bit_eq_mult pow16)
  qed
  have top: "(unat w + 16 ^ i) div 16 ^ 16 mod 16 = unat w div 16 ^ 16 mod 16"
    using digit_add_pow[OF _ d, of 16] assms(1) by simp
  have "unat w + 16 ^ i < 2 ^ 64"
  proof -
    have w: "unat w < 2 ^ 64" using unat_lt_pow[of w] by simp
    have "(16::nat) ^ i \<le> 16 ^ 15" using assms(1) by (intro power_increasing) auto
    with w have "(unat w + 16 ^ i) div 2 ^ 64 < 16" by simp
    with top w have "(unat w + 16 ^ i) div 2 ^ 64 = 0" by simp
    then show ?thesis by (simp add: div_eq_0_iff)
  qed
  then have "unat (w + push_bit (4 * i) 1) = unat w + 16 ^ i"
    unfolding unat_word_ariths(1) pos by simp
  then show ?thesis
    using digit_add_pow[OF _ d, of j] by (simp add: nibble_def)
qed

lemma RESET_MASK_bit: "n < 64 \<Longrightarrow> bit RESET_MASK n \<longleftrightarrow> n mod 4 \<noteq> 3"
proof -
  assume "n < 64"
  then have "n \<in> set [0..<64]" by simp
  moreover have "list_all (\<lambda>n. bit RESET_MASK n \<longleftrightarrow> n mod 4 \<noteq> 3) [0..<64]"
    by (simp add: RESET_MASK_def ONE_MASK_def upt_rec[of 0] upt_rec[of "Suc 0"] numeral_2_eq_2[symmetric])
  ultimately show ?thesis by (simp only: list_all_iff)
qed

lemma ONE_MASK_bit: "n < 64 \<Longrightarrow> bit ONE_MASK n \<longleftrightarrow> n mod 4 = 0"
proof -
  assume "n < 64"
  then have "n \<in> set [0..<64]" by simp
  moreover have "list_all (\<lambda>n. bit ONE_MASK n \<longleftrightarrow> n mod 4 = 0) [0..<64]"
    by (simp add: RESET_MASK_def ONE_MASK_def upt_rec[of 0] upt_rec[of "Suc 0"] numeral_2_eq_2[symmetric])
  ultimately show ?thesis by (simp only: list_all_iff)
qed

lemma nibble_halve:
  assumes "i < 16"
  shows "nibble (halve_entry w) i = nibble w i div 2"
proof -
  have "take_bit 4 (drop_bit (4 * i) (halve_entry w)) = drop_bit 1 (take_bit 4 (drop_bit (4 * i) w))"
  proof (rule bit_word_eqI)
    fix n assume n: "n < LENGTH(64)"
    show "bit (take_bit 4 (drop_bit (4 * i) (halve_entry w))) n
        = bit (drop_bit 1 (take_bit 4 (drop_bit (4 * i) w))) n"
    proof (cases "n < 4")
      case True
      with assms have lt: "4 * i + n < 64" by simp
      have "(4 * i + n) mod 4 = n" using True by simp
      with True lt show ?thesis
        by (auto simp: bit_simps halve_entry_def RESET_MASK_bit add.assoc)
    qed (simp add: bit_simps)
  qed
  then have "nibble (halve_entry w) i = unat (drop_bit 1 (take_bit 4 (drop_bit (4 * i) w)))"
    by (simp add: nibble_take_drop)
  also have "\<dots> = drop_bit 1 (nibble w i)"
    by (simp only: nibble_take_drop unat_drop_bit_eq)
  finally show ?thesis by (simp add: drop_bit_Suc)
qed

section \<open>The matrix of counters\<close>

definition counter :: "frequency_sketch \<Rightarrow> nat \<times> nat \<Rightarrow> nat" where
  "counter s ic = nibble (fs_table s ! fst ic) (snd ic)"

definition cell :: "frequency_sketch \<Rightarrow> u64 \<Rightarrow> nat \<Rightarrow> nat \<times> nat" where
  "cell s hash d =
     (let seed = SEED ! d; h = (hash + seed) * seed; h = h + drop_bit 32 h
      in (unat (h AND fs_table_mask s), 4 * (unat hash mod 4) + d))"

definition estimate :: "frequency_sketch \<Rightarrow> u64 \<Rightarrow> nat" where
  "estimate s hash =
     min (min (counter s (cell s hash 0)) (counter s (cell s hash 1)))
         (min (counter s (cell s hash 2)) (counter s (cell s hash 3)))"

definition sketch_ok :: "frequency_sketch \<Rightarrow> bool" where
  "sketch_ok s \<longleftrightarrow>
     fs_table s = [] \<or>
     (\<exists>k \<le> 30. length (fs_table s) = 2 ^ k \<and> fs_table_mask s = mask k)"

lemma counter_le_15: "counter s ic \<le> 15"
  using nibble_lt[of "fs_table s ! fst ic" "snd ic"] unfolding counter_def by linarith

lemma estimate_le_15: "estimate s h \<le> 15"
  using counter_le_15[of s "cell s h 0"] by (simp add: estimate_def)

lemma length_SEED [simp]: "length SEED = 4"
  by (simp add: SEED_def)

lemma index_of_cell: "d < 4 \<Longrightarrow> index_of s hash d = Some (fst (cell s hash d))"
  by (simp add: index_of_def cell_def Let_def)

lemma snd_cell: "snd (cell s hash d) = 4 * (unat hash mod 4) + d"
  by (simp add: cell_def Let_def)

lemma snd_cell_lt: "d < 4 \<Longrightarrow> snd (cell s hash d) < 16"
proof -
  assume "d < 4"
  moreover have "unat hash mod 4 \<le> 3" by (simp add: less_Suc_eq_le[symmetric])
  ultimately show ?thesis by (simp add: snd_cell)
qed

lemma fst_cell_lt:
  assumes "sketch_ok s" and "fs_table s \<noteq> []"
  shows "fst (cell s hash d) < length (fs_table s)"
proof -
  obtain k where k: "k \<le> 30" "length (fs_table s) = 2 ^ k" "fs_table_mask s = mask k"
    using assms by (auto simp: sketch_ok_def)
  have "unat ((x :: u64) AND mask k) < 2 ^ k" for x
    using k(1) by (simp add: take_bit_eq_mask[symmetric] unsigned_take_bit_eq)
  with k show ?thesis by (simp add: cell_def Let_def)
qed

lemma start_unat: "unat (start_of hash) = 4 * (unat hash mod 4)"
proof -
  have "hash AND 3 = take_bit 2 hash"
    by (simp add: take_bit_eq_mask mask_eq_exp_minus_1)
  then have "unat (hash AND 3) = take_bit 2 (unat hash)"
    by (simp only: unsigned_take_bit_eq) 
  then have a: "unat (hash AND 3) = unat hash mod 4"
    by (simp only: take_bit_eq_mod) simp
  have "unat (push_bit 2 (hash AND 3)) = take_bit 64 (push_bit 2 (unat hash mod 4))"
    by (subst unsigned_push_bit_eq) (simp only: a, simp)
  also have "\<dots> = 4 * (unat hash mod 4)"
    by (simp add: push_bit_eq_mult take_bit_eq_mod)
  finally have "unat (push_bit 2 (hash AND 3)) = 4 * (unat hash mod 4)" .
  then have "unat (start_of hash) = take_bit 8 (4 * (unat hash mod 4))"
    unfolding start_of_def by (subst unsigned_ucast_eq) simp
  then show ?thesis
    by (simp add: take_bit_eq_mod)
qed

lemma counter_index_unat:
  "d < 4 \<Longrightarrow> unat (start_of hash + word_of_nat d) = snd (cell s hash d)"
proof -
  assume d: "d < 4"
  have "unat (word_of_nat d :: u8) = d" using d by (simp add: unat_of_nat take_bit_nat_eq_self)
  moreover have "4 * (unat hash mod 4) + d < 256"
    using snd_cell_lt[OF d, of s hash] by (simp add: snd_cell)
  ultimately show ?thesis
    by (simp only: unat_word_ariths(1) start_unat snd_cell) simp
qed

lemma shift_unat:
  assumes "d < 4"
  shows "unat (push_bit 2 (start_of hash + word_of_nat d)) = 4 * snd (cell s hash d)"
proof -
  have "unat (push_bit 2 (start_of hash + word_of_nat d))
      = take_bit 8 (push_bit 2 (snd (cell s hash d)))"
    by (subst unsigned_push_bit_eq) (simp add: counter_index_unat[OF assms, of _ s])
  then show ?thesis
    using snd_cell_lt[OF assms, of s hash] by (simp add: push_bit_eq_mult take_bit_nat_eq_self)
qed

lemma frequency_step_cell:
  assumes "sketch_ok s" "fs_table s \<noteq> []" "d < 4"
  shows "frequency_step s hash (start_of hash) d f =
     Some (min f (word_of_nat (counter s (cell s hash d))))"
proof -
  let ?w = "fs_table s ! fst (cell s hash d)"
  have "(ucast (drop_bit (4 * snd (cell s hash d)) ?w AND 0xF) :: u8) =
      word_of_nat (counter s (cell s hash d))"
    by (simp only: counter_def nibble_shift[symmetric] of_nat_unat)
  with assms fst_cell_lt[OF assms(1,2)] show ?thesis
    by (simp add: frequency_step_def index_of_cell shift_unat[OF assms(3), of _ s] Let_def)
qed

lemma word_of_nat_min_u8:
  "a \<le> 15 \<Longrightarrow> b \<le> 15 \<Longrightarrow> min (word_of_nat a) (word_of_nat b :: u8) = word_of_nat (min a b)"
  by (simp add: min_def word_le_nat_alt unat_of_nat take_bit_nat_eq_self)

lemma frequency_estimate:
  assumes "sketch_ok s" "fs_table s \<noteq> []"
  shows "frequency s hash = Some (word_of_nat (estimate s hash))"
proof -
  let ?c = "\<lambda>d. counter s (cell s hash d)"
  have "frequency s hash =
      Some (min (min (min (min (- 1) (word_of_nat (?c 0))) (word_of_nat (?c 1))) (word_of_nat (?c 2))) (word_of_nat (?c 3)))"
    using assms(2)
    by (simp add: frequency_def Let_def frequency_step_cell[OF assms] upt_rec[of 0] upt_rec[of "Suc 0"]
        numeral_2_eq_2[symmetric])
  moreover have "min (- 1 :: u8) x = x" for x by (rule min.absorb2) (rule word_order.extremum)
  ultimately show ?thesis
    by (simp add: word_of_nat_min_u8 counter_le_15 estimate_def min.assoc min_le_iff_disj)
qed

section \<open>Incrementing\<close>

text \<open>One step of \<open>increment\<close> adds one to the counter of its depth unless it is saturated.\<close>

lemma increment_at_cell:
  assumes "fst ic < length (fs_table s)" "snd ic < 16" "unat c = snd ic"
  obtains s' where
    "increment_at s (fst ic) c = Some (s', counter s ic < 15)"
    "s' = s\<lparr>fs_table := fs_table s'\<rparr>" "length (fs_table s') = length (fs_table s)"
    "\<And>jc. counter s' jc = (if jc = ic then min 15 (Suc (counter s ic)) else counter s jc)"
proof -
  let ?w = "fs_table s ! fst ic" and ?t = "fs_table s"
  have off: "push_bit 2 (snd ic) = 4 * snd ic" by (simp add: push_bit_eq_mult)
  show thesis
  proof (cases "nibble ?w (snd ic) = 15")
    case True
    then have full: "?w AND push_bit (4 * snd ic) 0xF = push_bit (4 * snd ic) 0xF"
      using assms(2) by (simp add: nibble_full_iff)
    have c: "counter s ic = 15" using True by (simp add: counter_def)
    show thesis
      by (rule that[of s]) (use full c assms in \<open>auto simp: increment_at_def Let_def off\<close>)
  next
    case False
    let ?s = "s\<lparr>fs_table := ?t[fst ic := ?w + push_bit (4 * snd ic) 1]\<rparr>"
    have nf: "?w AND push_bit (4 * snd ic) 0xF \<noteq> push_bit (4 * snd ic) 0xF"
      using False assms(2) by (simp add: nibble_full_iff)
    have c: "counter s ic < 15"
      using False counter_le_15[of s ic] by (simp add: counter_def)
    have cnt: "counter ?s jc = (if jc = ic then min 15 (Suc (counter s ic)) else counter s jc)" for jc
    proof (cases "fst jc = fst ic")
      case True
      then have "counter ?s jc = nibble (?w + push_bit (4 * snd ic) 1) (snd jc)"
        using assms(1) by (simp add: counter_def)
      also have "\<dots> = (if snd jc = snd ic then Suc (nibble ?w (snd ic)) else nibble ?w (snd jc))"
        by (rule nibble_add_one) (use assms(2) False in auto)
      finally show ?thesis
        using True c by (auto simp: counter_def prod_eq_iff)
    qed (auto simp: counter_def)
    show thesis
    proof (rule that[of ?s])
      show "increment_at s (fst ic) c = Some (?s, counter s ic < 15)"
        unfolding increment_at_def Let_def assms(3) off using nf c assms(1) by simp
    qed (auto simp: cnt simp del: push_bit_of_1)
  qed
qed

lemma cell_cong: "fs_table_mask s = fs_table_mask s' \<Longrightarrow> cell s = cell s'"
  by (simp add: cell_def fun_eq_iff)

lemma cell_inj: "cell s hash d = cell s hash d' \<Longrightarrow> d = d'"
  by (simp add: cell_def Let_def)

text \<open>The counters after the first \<open>n\<close> depths have been processed.\<close>

lemma increment_loop:
  assumes "sketch_ok s" "fs_table s \<noteq> []" "n \<le> 4"
  obtains s' where
    "mfold (increment_step hash (start_of hash)) [0..<n] (s, False)
       = Some (s', \<exists>d<n. counter s (cell s hash d) < 15)"
    "s' = s\<lparr>fs_table := fs_table s'\<rparr>" "length (fs_table s') = length (fs_table s)"
    "\<And>ic. counter s' ic = (if \<exists>d<n. ic = cell s hash d then min 15 (Suc (counter s ic)) else counter s ic)"
proof -
  have "\<exists>s'. mfold (increment_step hash (start_of hash)) [0..<n] (s, False)
       = Some (s', \<exists>d<n. counter s (cell s hash d) < 15) \<and>
    s' = s\<lparr>fs_table := fs_table s'\<rparr> \<and> length (fs_table s') = length (fs_table s) \<and>
    (\<forall>ic. counter s' ic = (if \<exists>d<n. ic = cell s hash d then min 15 (Suc (counter s ic)) else counter s ic))"
    using assms(3)
  proof (induction n)
    case 0
    then show ?case by simp
  next
    case (Suc n)
    then obtain s1 where s1:
      "mfold (increment_step hash (start_of hash)) [0..<n] (s, False)
         = Some (s1, \<exists>d<n. counter s (cell s hash d) < 15)"
      "s1 = s\<lparr>fs_table := fs_table s1\<rparr>" "length (fs_table s1) = length (fs_table s)"
      "\<And>ic. counter s1 ic = (if \<exists>d<n. ic = cell s hash d then min 15 (Suc (counter s ic)) else counter s ic)"
      by auto
    have m: "fs_table_mask s1 = fs_table_mask s" by (subst s1(2)) simp
    have cl: "cell s1 = cell s" by (rule cell_cong) (rule m)
    have n4: "n < 4" using Suc.prems by simp
    have new: "counter s1 (cell s hash n) = counter s (cell s hash n)"
      using s1(4) cell_inj[of s hash n] by auto
    obtain s2 where s2:
      "increment_at s1 (fst (cell s hash n)) (start_of hash + word_of_nat n)
         = Some (s2, counter s1 (cell s hash n) < 15)"
      "s2 = s1\<lparr>fs_table := fs_table s2\<rparr>" "length (fs_table s2) = length (fs_table s1)"
      "\<And>jc. counter s2 jc = (if jc = cell s hash n then min 15 (Suc (counter s1 (cell s hash n))) else counter s1 jc)"
    proof (rule increment_at_cell[of "cell s hash n" s1])
      show "fst (cell s hash n) < length (fs_table s1)"
        using fst_cell_lt[OF assms(1,2)] s1(3) by simp
    qed (use snd_cell_lt[OF n4] counter_index_unat[OF n4] that in auto)
    have step: "mfold (increment_step hash (start_of hash)) [0..<Suc n] (s, False)
        = Some (s2, \<exists>d<Suc n. counter s (cell s hash d) < 15)"
      using s1(1) s2(1) n4 cl new
      by (auto simp: mfold_append increment_step_def index_of_cell less_Suc_eq)
    have "s2 = s\<lparr>fs_table := fs_table s2\<rparr>"
      by (subst s2(2), subst s1(2)) simp
    moreover have "counter s2 ic = (if \<exists>d<Suc n. ic = cell s hash d then min 15 (Suc (counter s ic)) else counter s ic)" for ic
      using s2(4)[of ic] s1(4)[of ic] new by (auto simp: less_Suc_eq)
    ultimately show ?case
      using step s2(3) s1(3) by auto
  qed
  then show thesis using that by blast
qed

definition will_reset :: "frequency_sketch \<Rightarrow> bool" where
  "will_reset s \<longleftrightarrow> fs_size s + 1 \<ge> fs_sample_size s"

lemma sketch_ok_cong:
  "length (fs_table s') = length (fs_table s) \<Longrightarrow> fs_table_mask s' = fs_table_mask s \<Longrightarrow>
   sketch_ok s \<Longrightarrow> sketch_ok s'"
  by (auto simp: sketch_ok_def)

lemma reset_frame:
  "length (fs_table (reset s)) = length (fs_table s)"
  "fs_table_mask (reset s) = fs_table_mask s"
  "fs_sample_size (reset s) = fs_sample_size s"
  by (simp_all add: reset_def Let_def)

lemma counter_reset:
  "fst ic < length (fs_table s) \<Longrightarrow> snd ic < 16 \<Longrightarrow> counter (reset s) ic = counter s ic div 2"
  by (simp add: counter_def reset_def Let_def nibble_halve)

text \<open>What \<open>increment\<close> does: four counters grow, then the sketch may age.\<close>

definition bumped :: "frequency_sketch \<Rightarrow> u64 \<Rightarrow> nat \<times> nat \<Rightarrow> nat" where
  "bumped s hash ic =
     (if \<exists>d<4. ic = cell s hash d then min 15 (Suc (counter s ic)) else counter s ic)"

lemma increment_cases:
  assumes "sketch_ok s" "fs_table s \<noteq> []"
  obtains s1 where
    "length (fs_table s1) = length (fs_table s)" "fs_table_mask s1 = fs_table_mask s"
    "fs_sample_size s1 = fs_sample_size s"
    "\<And>ic. counter s1 ic = bumped s hash ic"
    "fs_size s1 = (if \<exists>d<4. counter s (cell s hash d) < 15 then fs_size s + 1 else fs_size s)"
    "increment s hash =
       Some (if (\<exists>d<4. counter s (cell s hash d) < 15) \<and> will_reset s then reset s1 else s1)"
proof -
  obtain s' where s':
    "mfold (increment_step hash (start_of hash)) [0..<4] (s, False)
       = Some (s', \<exists>d<4. counter s (cell s hash d) < 15)"
    "s' = s\<lparr>fs_table := fs_table s'\<rparr>" "length (fs_table s') = length (fs_table s)"
    "\<And>ic. counter s' ic = (if \<exists>d<4. ic = cell s hash d then min 15 (Suc (counter s ic)) else counter s ic)"
    by (rule increment_loop[OF assms, of 4]) auto
  have fr: "fs_table_mask s' = fs_table_mask s" "fs_sample_size s' = fs_sample_size s" "fs_size s' = fs_size s"
    by (subst s'(2), simp)+
  show thesis
  proof (cases "\<exists>d<4. counter s (cell s hash d) < 15")
    case True
    have "increment s hash = Some (if will_reset s then reset (s'\<lparr>fs_size := fs_size s + 1\<rparr>) else s'\<lparr>fs_size := fs_size s + 1\<rparr>)"
      using assms(2) s'(1) True by (simp add: increment_def Let_def will_reset_def fr)
    with True s' fr show thesis
      by (intro that[of "s'\<lparr>fs_size := fs_size s + 1\<rparr>"]) (auto simp: bumped_def counter_def)
  next
    case False
    with assms(2) s'(1) have "increment s hash = Some s'"
      by (simp add: increment_def Let_def)
    with False s' fr show thesis
      by (intro that[of s']) (auto simp: bumped_def)
  qed
qed

lemma increment_empty [simp]: "fs_table s = [] \<Longrightarrow> increment s hash = Some s"
  by (simp add: increment_def)

lemma increment_ok:
  assumes "sketch_ok s"
  shows "\<exists>s'. increment s hash = Some s' \<and> sketch_ok s' \<and>
    length (fs_table s') = length (fs_table s) \<and> fs_table_mask s' = fs_table_mask s \<and>
    fs_sample_size s' = fs_sample_size s"
proof (cases "fs_table s = []")
  case False
  obtain s1 where "length (fs_table s1) = length (fs_table s)" "fs_table_mask s1 = fs_table_mask s"
    "fs_sample_size s1 = fs_sample_size s"
    "increment s hash =
       Some (if (\<exists>d<4. counter s (cell s hash d) < 15) \<and> will_reset s then reset s1 else s1)"
    by (rule increment_cases[OF assms False, of hash])
  then show ?thesis
    using assms by (auto simp: reset_frame intro!: sketch_ok_cong[OF _ _ assms])
qed (use assms in simp)

lemma min_div_2: "min (a div 2) (b div 2) = min a b div (2::nat)"
  by (rule min_of_mono) (simp add: mono_def div_le_mono)

lemma min_sat_Suc: "min (min k (Suc a)) (min k (Suc b)) = min k (Suc (min a b))"
  by linarith

lemma estimate_bumped_same:
  "\<lbrakk>\<And>ic. counter s1 ic = bumped s hash ic; fs_table_mask s1 = fs_table_mask s\<rbrakk> \<Longrightarrow>
   estimate s1 hash = min 15 (Suc (estimate s hash))"
proof -
  assume a: "\<And>ic. counter s1 ic = bumped s hash ic" "fs_table_mask s1 = fs_table_mask s"
  have c: "counter s1 (cell s1 hash d) = min 15 (Suc (counter s (cell s hash d)))" if "d < 4" for d
    using a(1) cell_cong[OF a(2)] that by (auto simp: bumped_def)
  have n: "(0::nat) < 4" "(1::nat) < 4" "(2::nat) < 4" "(3::nat) < 4" by simp_all
  show ?thesis
    unfolding estimate_def n[THEN c] min_sat_Suc ..
qed

lemma estimate_bumped_ge:
  "\<lbrakk>\<And>ic. counter s1 ic = bumped s hash ic; fs_table_mask s1 = fs_table_mask s\<rbrakk> \<Longrightarrow>
   estimate s other \<le> estimate s1 other \<and> estimate s1 other \<le> Suc (estimate s other)"
proof -
  assume a: "\<And>ic. counter s1 ic = bumped s hash ic" "fs_table_mask s1 = fs_table_mask s"
  have c: "counter s (cell s other d) \<le> counter s1 (cell s1 other d) \<and>
      counter s1 (cell s1 other d) \<le> Suc (counter s (cell s other d))" for d
    using a(1) cell_cong[OF a(2)] counter_le_15[of s "cell s other d"] by (auto simp: bumped_def)
  show ?thesis
    unfolding estimate_def using c[of 0] c[of 1] c[of 2] c[of 3] by linarith
qed

text \<open>\<open>reset\<close> halves what is estimated for every element.\<close>

lemma estimate_reset:
  assumes "sketch_ok s" "fs_table s \<noteq> []"
  shows "estimate (reset s) hash = estimate s hash div 2"
proof -
  have "counter (reset s) (cell (reset s) hash d) = counter s (cell s hash d) div 2" if "d < 4" for d
    using that counter_reset[OF fst_cell_lt[OF assms] snd_cell_lt[OF that]]
      cell_cong[OF reset_frame(2)] by simp
  then show ?thesis by (simp add: estimate_def min_div_2)
qed

section \<open>The capacity\<close>

definition max_table :: "nat \<Rightarrow> nat" where
  "max_table pw = (if pw = 16 then 10 else if pw = 32 then 24 else 30)"

lemma unat_sketch_maximum: "unat (sketch_maximum pw c) = min (unat c) (2 ^ max_table pw)"
  by (auto simp: sketch_maximum_def max_table_def min_def word_le_nat_alt)

lemma unat_sketch_table_size:
  assumes "unat m \<le> 2 ^ 30"
  shows "\<exists>k \<le> 30. unat (sketch_table_size m) = 2 ^ k \<and> unat m \<le> 2 ^ k"
proof (cases "m = 0")
  case True
  then show ?thesis by (auto simp: sketch_table_size_def intro: exI[of _ 0])
next
  case False
  obtain k where k: "next_power_of_two (unat m) = 2 ^ k"
    using next_power_of_two_pow by blast
  have k30: "k \<le> 30"
    using next_power_of_two_least[OF assms] unfolding k by (rule power_le_imp_le_exp[rotated]) simp
  have "(2::nat) ^ k < 2 ^ 32"
    using k30 by (intro power_strict_increasing) auto
  then have "unat (word_of_nat (2 ^ k) :: u32) = 2 ^ k"
    by (intro unat_of_nat_small) simp
  with False k30 next_power_of_two_ge[of "unat m"] show ?thesis
    unfolding sketch_table_size_def k by auto
qed

lemma unat_mask: "k \<le> LENGTH('a) \<Longrightarrow> unat (mask k :: 'a::len word) = 2 ^ k - 1"
  by (metis mask_eq_exp_minus_1 min.absorb2 nat_mask_eq uint_mask_eq unat_eq_nat_uint)

lemma ensure_capacity_table:
  assumes "sketch_ok s"
  shows "sketch_ok (ensure_capacity pw c s) \<and>
    fs_table (ensure_capacity pw c s) \<noteq> [] \<and>
    min (unat c) (2 ^ max_table pw) \<le> length (fs_table (ensure_capacity pw c s))"
proof -
  let ?m = "sketch_maximum pw c"
  let ?ts = "sketch_table_size ?m"
  have "unat ?m \<le> 2 ^ 30" by (auto simp: unat_sketch_maximum max_table_def min_def)
  then obtain k where k: "k \<le> 30" "unat ?ts = 2 ^ k" "unat ?m \<le> 2 ^ k"
    using unat_sketch_table_size by blast
  show ?thesis
  proof (cases "word_of_nat (length (fs_table s)) \<ge> ?ts")
    case True
    then have "unat ?ts \<le> unat (word_of_nat (length (fs_table s)) :: u32)"
      by (simp only: word_le_nat_alt)
    also have "\<dots> \<le> length (fs_table s)"
      by (subst unat_of_nat) (rule mod_less_eq_dividend)
    finally have "2 ^ k \<le> length (fs_table s)" by (simp only: k(2))
    moreover from this have "0 < length (fs_table s)" by (rule less_le_trans[rotated]) simp
    ultimately show ?thesis
      using assms True k(3) by (auto simp: ensure_capacity_def Let_def unat_sketch_maximum)
  next
    case False
    let ?e = "ensure_capacity pw c s"
    have e: "fs_table ?e = replicate (2 ^ k) 0" "fs_table_mask ?e = ucast (sat_sub ?ts 1)"
      using False k(2) by (simp_all add: ensure_capacity_def Let_def)
    have lt: "(2::nat) ^ k \<le> 2 ^ 30" using k(1) by (intro power_increasing) auto
    have "unat (ucast (sat_sub ?ts 1) :: u64) = take_bit 64 (2 ^ k - 1)"
      by (simp only: unsigned_ucast_eq unat_sat_sub k(2) unat_1) simp
    also have "\<dots> = 2 ^ k - 1"
      using lt by (simp add: take_bit_nat_eq_self)
    also have "\<dots> = unat (mask k :: u64)"
      using k(1) by (simp add: unat_mask)
    finally have "fs_table_mask ?e = mask k"
      by (simp only: e(2) word_unat_eq_iff)
    with k e(1) show ?thesis by (auto simp: sketch_ok_def unat_sketch_maximum)
  qed
qed

lemma sketch_ok_default [simp]: "sketch_ok fs_default"
  by (simp add: sketch_ok_def fs_default_def)

section \<open>Sequences of increments\<close>

definition run_increments :: "frequency_sketch \<Rightarrow> u64 list \<Rightarrow> frequency_sketch or_panic" where
  "run_increments s hs = mfold (\<lambda>h s. increment s h) hs s"

lemma run_increments_simps [simp]:
  "run_increments s [] = Some s"
  "run_increments s (h # hs) = do { s' \<leftarrow> increment s h; run_increments s' hs }"
  by (simp_all add: run_increments_def)

lemma run_increments_append:
  "run_increments s (xs @ ys) = do { s' \<leftarrow> run_increments s xs; run_increments s' ys }"
  by (simp add: run_increments_def mfold_append)

lemma run_increments_ok:
  "sketch_ok s \<Longrightarrow> \<exists>s'. run_increments s hs = Some s' \<and> sketch_ok s' \<and> length (fs_table s') = length (fs_table s)"
proof (induction hs arbitrary: s)
  case (Cons h hs)
  obtain s1 where "increment s h = Some s1" "sketch_ok s1" "length (fs_table s1) = length (fs_table s)"
    using increment_ok[OF Cons.prems] by blast
  with Cons.IH[of s1] show ?case by simp
qed simp

lemma increment_no_reset:
  assumes "sketch_ok s" "fs_table s \<noteq> []" "\<not> will_reset s"
  obtains s' where "increment s hash = Some s'" "sketch_ok s'" "length (fs_table s') = length (fs_table s)"
    "fs_sample_size s' = fs_sample_size s" "fs_size s' = fs_size s \<or> fs_size s' = fs_size s + 1"
    "estimate s' hash = min 15 (Suc (estimate s hash))"
    "\<And>other. estimate s other \<le> estimate s' other \<and> estimate s' other \<le> Suc (estimate s other)"
proof (rule increment_cases[OF assms(1,2), of hash])
  fix s1
  assume s1: "length (fs_table s1) = length (fs_table s)" "fs_table_mask s1 = fs_table_mask s"
    "fs_sample_size s1 = fs_sample_size s"
    "\<And>ic. counter s1 ic = bumped s hash ic"
    "fs_size s1 = (if \<exists>d<4. counter s (cell s hash d) < 15 then fs_size s + 1 else fs_size s)"
    "increment s hash =
       Some (if (\<exists>d<4. counter s (cell s hash d) < 15) \<and> will_reset s then reset s1 else s1)"
  have "increment s hash = Some s1" using s1(6) assms(3) by simp
  moreover have "fs_size s1 = fs_size s \<or> fs_size s1 = fs_size s + 1" using s1(5) by simp
  ultimately show thesis
    using that[of s1] s1(1,3) sketch_ok_cong[OF s1(1,2) assms(1)]
      estimate_bumped_same[OF s1(4,2)] estimate_bumped_ge[OF s1(4,2)] by blast
qed

lemma run_increments_count:
  assumes "sketch_ok s" "fs_table s \<noteq> []"
    and "unat (fs_size s) + length hs < unat (fs_sample_size s)"
  shows "\<exists>s'. run_increments s hs = Some s' \<and> sketch_ok s' \<and> fs_table s' \<noteq> [] \<and>
    (\<forall>h. min 15 (estimate s h + count_list hs h) \<le> estimate s' h)"
  using assms
proof (induction hs arbitrary: s)
  case Nil
  then show ?case by (auto intro: min.coboundedI2)
next
  case (Cons h hs)
  have lt: "unat (fs_size s) + 1 < unat (fs_sample_size s)" using Cons.prems(3) by simp
  have suc: "unat (fs_size s + 1) = unat (fs_size s) + 1"
    using lt unat_lt_pow[of "fs_sample_size s"] by (simp add: unat_word_ariths)
  have "\<not> will_reset s"
    using lt suc by (simp add: will_reset_def word_le_nat_alt)
  then obtain s1 where s1: "increment s h = Some s1" "sketch_ok s1" "length (fs_table s1) = length (fs_table s)"
    "fs_sample_size s1 = fs_sample_size s" "fs_size s1 = fs_size s \<or> fs_size s1 = fs_size s + 1"
    "estimate s1 h = min 15 (Suc (estimate s h))"
    "\<And>other. estimate s other \<le> estimate s1 other \<and> estimate s1 other \<le> Suc (estimate s other)"
    using increment_no_reset[OF Cons.prems(1,2)] by metis
  have "unat (fs_size s1) + length hs < unat (fs_sample_size s1)"
    using s1(4,5) suc Cons.prems(3) by auto
  moreover have "fs_table s1 \<noteq> []" using s1(3) Cons.prems(2) by auto
  ultimately obtain s' where s': "run_increments s1 hs = Some s'" "sketch_ok s'" "fs_table s' \<noteq> []"
    "\<And>x. min 15 (estimate s1 x + count_list hs x) \<le> estimate s' x"
    using Cons.IH[OF s1(2)] by blast
  have "min 15 (estimate s x + count_list (h # hs) x) \<le> estimate s' x" for x
  proof (cases "x = h")
    case True
    then show ?thesis using s'(4)[of h] s1(6) by simp
  next
    case False
    then have "count_list (h # hs) x = count_list hs x" by simp
    then show ?thesis using s'(4)[of x] s1(7)[of x] by linarith
  qed
  with s1(1) s' show ?case by auto
qed

section \<open>A run that fills every counter\<close>

text \<open>The evaluation of thirty increments on a table of four words, used below.\<close>

lemmas sketch_eval =
  increment_def start_of_def increment_step_def index_of_def idx_def SEED_def increment_at_def
  upt_rec[of 0] upt_rec[of "Suc 0"] numeral_2_eq_2[symmetric] word_le_def Let_def

lemma ensure_capacity_3:
  "ensure_capacity 64 3 fs_default =
     \<lparr>fs_sample_size = 30, fs_table_mask = 3, fs_table = [0, 0, 0, 0], fs_size = 0\<rparr>"
proof -
  have "next_power_of_two 3 = 4"
    by (simp add: next_power_of_two.simps[of 3] next_power_of_two.simps[of 2]
        next_power_of_two.simps[of "Suc 0"])
  moreover have "replicate 4 x = [x, x, x, x]" for x :: u64
    by (simp add: numeral_eq_Suc)
  ultimately show ?thesis
    by (simp add: ensure_capacity_def sketch_maximum_def sketch_table_size_def fs_default_def
        sat_sub_def sat_mul_def Let_def word_le_def min_def)
qed

lemma full_run_1:
  "run_increments \<lparr>fs_sample_size = 30, fs_table_mask = 3, fs_table = [0, 0, 0, 0], fs_size = 0\<rparr>
     [4, 40, 76, 108, 9, 21, 93, 105] =
   Some \<lparr>fs_sample_size = 30, fs_table_mask = 3, fs_table = [0x11111111, 0x11111111, 0x11111111, 0x11111111], fs_size = 8\<rparr>"
  by (simp add: run_increments_def sketch_eval)

lemma full_run_2:
  "run_increments \<lparr>fs_sample_size = 30, fs_table_mask = 3, fs_table = [0x11111111, 0x11111111, 0x11111111, 0x11111111], fs_size = 8\<rparr>
     [22, 26, 78, 82, 3, 47, 119, 123] =
   Some \<lparr>fs_sample_size = 30, fs_table_mask = 3, fs_table = [ONE_MASK, ONE_MASK, ONE_MASK, ONE_MASK], fs_size = 16\<rparr>"
  by (simp add: run_increments_def sketch_eval ONE_MASK_def)

lemma full_run_3:
  "run_increments \<lparr>fs_sample_size = 30, fs_table_mask = 3, fs_table = [ONE_MASK, ONE_MASK, ONE_MASK, ONE_MASK], fs_size = 16\<rparr>
     [123, 123, 123, 123, 123, 123, 123] =
   Some \<lparr>fs_sample_size = 30, fs_table_mask = 3, fs_table = [0x1181111111111111, 0x1818111111111111, 0x8111111111111111, 0x1111111111111111], fs_size = 23\<rparr>"
  by (simp add: run_increments_def sketch_eval ONE_MASK_def)

lemma full_run_4:
  "run_increments \<lparr>fs_sample_size = 30, fs_table_mask = 3, fs_table = [0x1181111111111111, 0x1818111111111111, 0x8111111111111111, 0x1111111111111111], fs_size = 23\<rparr>
     [123, 123, 123, 123, 123, 123] =
   Some \<lparr>fs_sample_size = 30, fs_table_mask = 3, fs_table = [0x11e1111111111111, 0x1e1e111111111111, 0xe111111111111111, 0x1111111111111111], fs_size = 29\<rparr>"
  by (simp add: run_increments_def sketch_eval)

lemma count_ones_ONE_MASK: "count_ones ONE_MASK = 16"
  by (simp add: count_ones_def ONE_MASK_def upt_rec[of 0] upt_rec[of "Suc 0"] numeral_2_eq_2[symmetric])

lemma full_run_5:
  "increment \<lparr>fs_sample_size = 30, fs_table_mask = 3, fs_table = [0x11e1111111111111, 0x1e1e111111111111, 0xe111111111111111, 0x1111111111111111], fs_size = 29\<rparr> 123 =
   Some (reset \<lparr>fs_sample_size = 30, fs_table_mask = 3, fs_table = [0x11f1111111111111, 0x1f1f111111111111, 0xf111111111111111, 0x1111111111111111], fs_size = 30\<rparr>)"
  by (simp add: sketch_eval)

lemma full_run_6:
  "fs_size (reset \<lparr>fs_sample_size = 30, fs_table_mask = 3, fs_table = [0x11f1111111111111, 0x1f1f111111111111, 0xf111111111111111, 0x1111111111111111], fs_size = 30\<rparr>) = - 1"
proof -
  have "w AND ONE_MASK = ONE_MASK" if "w \<in> set [0x11f1111111111111, 0x1f1f111111111111, 0xf111111111111111, 0x1111111111111111]" for w
    using that by (auto simp: ONE_MASK_def)
  then show ?thesis
    by (simp add: reset_def Let_def count_ones_ONE_MASK)
qed

section \<open>Properties\<close>

text \<open>once a capacity is set, no sequence of increments panics, the table keeps its power-of-two length and its mask, and an estimate exists and is at most 15.\<close>

theorem sketch_total:
  "\<exists>s. run_increments (ensure_capacity pw cap fs_default) hs = Some s \<and> sketch_ok s \<and>
       min (unat cap) (2 ^ max_table pw) \<le> length (fs_table s) \<and>
       (\<exists>f. frequency s hash = Some f \<and> f \<le> 15)"
proof -
  let ?s = "ensure_capacity pw cap fs_default"
  have e: "sketch_ok ?s" "fs_table ?s \<noteq> []" "min (unat cap) (2 ^ max_table pw) \<le> length (fs_table ?s)"
    using ensure_capacity_table[OF sketch_ok_default] by auto
  obtain s where s: "run_increments ?s hs = Some s" "sketch_ok s" "length (fs_table s) = length (fs_table ?s)"
    using run_increments_ok[OF e(1)] by blast
  have "fs_table s \<noteq> []" using s(3) e(2) by auto
  then have "frequency s hash = Some (word_of_nat (estimate s hash))"
    by (rule frequency_estimate[OF s(2)])
  moreover have "(word_of_nat (estimate s hash) :: u8) \<le> 15"
    using estimate_le_15[of s hash] by (simp add: word_le_nat_alt unat_of_nat_small)
  ultimately show ?thesis using s e(3) by auto
qed

text \<open>an increment that does not trigger aging raises the estimate of the element by exactly one, up to 15, and changes the estimate of no other element by more than one and never downwards.\<close>

theorem increment_frequency:
  assumes "sketch_ok s" "fs_table s \<noteq> []" "\<not> will_reset s"
  shows "\<exists>s' f f'. increment s hash = Some s' \<and> frequency s hash = Some f \<and> frequency s' hash = Some f' \<and>
    unat f' = min 15 (Suc (unat f)) \<and>
    (\<forall>other g g'. frequency s other = Some g \<longrightarrow> frequency s' other = Some g' \<longrightarrow>
       g \<le> g' \<and> unat g' \<le> Suc (unat g))"
proof -
  obtain s' where s': "increment s hash = Some s'" "sketch_ok s'" "length (fs_table s') = length (fs_table s)"
    "estimate s' hash = min 15 (Suc (estimate s hash))"
    "\<And>other. estimate s other \<le> estimate s' other \<and> estimate s' other \<le> Suc (estimate s other)"
    using increment_no_reset[OF assms, of hash] by metis
  have "fs_table s' \<noteq> []" using s'(3) assms(2) by auto
  note fr = frequency_estimate[OF assms(1,2)] frequency_estimate[OF s'(2) this]
  have u: "unat (word_of_nat (estimate t x) :: u8) = estimate t x" for t x
    using estimate_le_15[of t x] by (simp add: unat_of_nat_small)
  have a: "unat (word_of_nat (estimate s' hash) :: u8)
      = min 15 (Suc (unat (word_of_nat (estimate s hash) :: u8)))"
    unfolding u by (rule s'(4))
  have b: "(word_of_nat (estimate s x) :: u8) \<le> word_of_nat (estimate s' x) \<and>
      unat (word_of_nat (estimate s' x) :: u8) \<le> Suc (unat (word_of_nat (estimate s x) :: u8))" for x
    by (simp only: word_le_nat_alt u s'(5))
  show ?thesis
    using s'(1) a b by (auto simp: fr)
qed

text \<open>C35: while fewer events than the sample size have been seen, the estimate of an element is at least the number of times it was seen, up to 15.\<close>

theorem frequency_no_undercount:
  assumes "length hs < unat (fs_sample_size (ensure_capacity pw cap fs_default))"
  shows "\<exists>s f. run_increments (ensure_capacity pw cap fs_default) hs = Some s \<and>
    frequency s hash = Some f \<and> min 15 (count_list hs hash) \<le> unat f"
proof -
  let ?s = "ensure_capacity pw cap fs_default"
  have e: "sketch_ok ?s" "fs_table ?s \<noteq> []"
    using ensure_capacity_table[OF sketch_ok_default] by auto
  have "fs_size ?s = 0" by (simp add: ensure_capacity_def Let_def fs_default_def)
  with assms obtain s where s: "run_increments ?s hs = Some s" "sketch_ok s" "fs_table s \<noteq> []"
    "min 15 (estimate ?s hash + count_list hs hash) \<le> estimate s hash"
    using run_increments_count[OF e, of hs] by auto
  then have "min 15 (count_list hs hash) \<le> estimate s hash" by simp
  then show ?thesis
    using s frequency_estimate[OF s(2,3)] estimate_le_15[of s hash] by (simp add: unat_of_nat_small)
qed

text \<open>aging halves each of the sixteen counters packed in every word, and with them every estimate.\<close>

theorem reset_halves:
  assumes "sketch_ok s" "fs_table s \<noteq> []"
  shows "sketch_ok (reset s) \<and>
    (\<forall>i < length (fs_table s). \<forall>c < 16. counter (reset s) (i, c) = counter s (i, c) div 2) \<and>
    (\<exists>f f'. frequency s hash = Some f \<and> frequency (reset s) hash = Some f' \<and> f' = f div 2)"
proof -
  have ok: "sketch_ok (reset s)" "fs_table (reset s) \<noteq> []"
    using assms reset_frame[of s] by (auto intro: sketch_ok_cong)
  have "(word_of_nat (estimate s hash) :: u8) div 2 = word_of_nat (estimate s hash div 2)"
    using estimate_le_15[of s hash]
    by (simp add: word_unat_eq_iff unat_div unat_of_nat_small)
  then show ?thesis
    using ok counter_reset[of _ s] frequency_estimate[OF assms] frequency_estimate[OF ok]
    by (simp add: estimate_reset[OF assms])
qed

text \<open>C40: the aging step can make the event counter wrap below zero. The code computes
  \<open>(size >> 1) - (count >> 2)\<close>; when enough counters are odd the subtrahend is the larger
  one, and the counter of observed events becomes \<open>u32::MAX\<close> instead of being halved.\<close>

theorem reset_size_underflow:
  "\<exists>hs s. run_increments (ensure_capacity 64 3 fs_default) hs = Some s \<and>
     length hs = 30 \<and> fs_sample_size s = 30 \<and> fs_size s = - 1"
proof -
  let ?hs = "[4, 40, 76, 108, 9, 21, 93, 105] @ [22, 26, 78, 82, 3, 47, 119, 123] @
    [123, 123, 123, 123, 123, 123, 123] @ [123, 123, 123, 123, 123, 123] @ [123] :: u64 list"
  have "run_increments (ensure_capacity 64 3 fs_default) ?hs =
      run_increments \<lparr>fs_sample_size = 30, fs_table_mask = 3, fs_table = [0x11e1111111111111, 0x1e1e111111111111, 0xe111111111111111, 0x1111111111111111], fs_size = 29\<rparr> [123]"
    by (simp only: ensure_capacity_3 run_increments_append full_run_1 full_run_2 full_run_3
        full_run_4 bind.bind_lunit)
  then obtain s where "run_increments (ensure_capacity 64 3 fs_default) ?hs = Some s"
    "fs_sample_size s = 30" "fs_size s = - 1"
    by (simp add: full_run_5 full_run_6 reset_frame)
  moreover have "length ?hs = 30" by simp
  ultimately show ?thesis by blast
qed

section \<open>Witnesses\<close>

lemma sketch_3: "sketch_ok (ensure_capacity 64 3 fs_default)" "fs_table (ensure_capacity 64 3 fs_default) \<noteq> []"
  using ensure_capacity_table[OF sketch_ok_default, of 64 3] by auto

theorem increment_frequency_witness:
  "\<exists>s' f f'. increment (ensure_capacity 64 3 fs_default) 5 = Some s' \<and>
     frequency (ensure_capacity 64 3 fs_default) 5 = Some f \<and> frequency s' 5 = Some f' \<and>
     unat f' = min 15 (Suc (unat f))"
proof -
  have "\<not> will_reset (ensure_capacity 64 3 fs_default)"
    by (simp add: ensure_capacity_3 will_reset_def word_le_def)
  from increment_frequency[OF sketch_3 this, of 5] show ?thesis by blast
qed

theorem frequency_no_undercount_witness:
  "\<exists>s f. run_increments (ensure_capacity 64 3 fs_default) [7, 9, 7] = Some s \<and>
     frequency s 7 = Some f \<and> 2 \<le> unat f"
proof -
  have "length [7, 9, 7 :: u64] < unat (fs_sample_size (ensure_capacity 64 3 fs_default))"
    by (simp add: ensure_capacity_3)
  moreover have "min 15 (count_list [7, 9, 7 :: u64] 7) = 2" by simp
  ultimately show ?thesis
    using frequency_no_undercount[of "[7, 9, 7]" 64 3 7] by metis
qed

theorem reset_halves_witness:
  "\<exists>f f'. frequency (ensure_capacity 64 3 fs_default) 5 = Some f \<and>
     frequency (reset (ensure_capacity 64 3 fs_default)) 5 = Some f' \<and> f' = f div 2"
  using reset_halves[OF sketch_3, of 5] by blast

end
