(* ===== verification/Inner_Cache.thy ===== *)
theory Inner_Cache
  imports Timer_Wheel Deques Invalidator Housekeeper Frequency_Sketch
begin

text \<open>
  The state of a cache and its small operations (\<open>Inner\<close> of \<open>src/src/sync/base_cache.rs\<close>, the
  parts that are not the maintenance).

  The fields of \<open>Inner\<close> that never change are the record \<open>config\<close>, the others the record
  \<open>inner\<close>. The concurrent hash table is the map from keys to value entries that it implements;
  the hash that the source passes along with a key is the key's hash and selects nothing more.
  The two operation channels are the lists of the operations that were sent and not yet
  received. The clock is the sequence of the instants that its successive readings by \<open>now\<close> return;
  \<open>in_ticks\<close> counts the readings. Only making a cache reads it by \<open>fast_now\<close>: \<open>cf_fast_now\<close> has these readings,
  one for each cache that is made with the configuration.

  A maintenance run works on \<open>maint\<close>, the cache's state together with the run's \<open>EvictionState\<close>.
  Key locks only exclude other threads; a step of the model is what runs under one lock.
\<close>

section \<open>State\<close>

record ('k, 'v) config =
  cf_max_capacity :: "u64 option"
  cf_hash :: "'k \<Rightarrow> u64"
  cf_weigher :: "('k \<Rightarrow> 'v \<Rightarrow> u32) option"
  cf_eviction_policy :: eviction_policy_config
  cf_expiration_policy :: "('k, 'v) expiration_policy"
  cf_clock :: "nat \<Rightarrow> instant"
  cf_fast_now :: "nat \<Rightarrow> instant"
  cf_initial_capacity :: "nat option"
  cf_pointer_width :: nat

record ('k, 'v) inner =
  in_entry_count :: u64
  in_weighted_size :: u64
  in_cache :: "'k \<rightharpoonup> 'v value_entry"
  in_store :: "'k store"
  in_deques :: deques
  in_timer_wheel :: timer_wheel
  in_frequency_sketch :: frequency_sketch
  in_frequency_sketch_enabled :: bool
  in_read_op_ch :: "'v read_op list"
  in_write_op_ch :: "('k, 'v) write_op list"
  in_valid_after :: atomic_instant
  in_removal_notifier :: "('k, 'v) removal_notifier option"
  in_invalidator :: "('k, 'v) invalidator option"
  in_ticks :: nat

record eviction_counters =
  ec_entry_count :: u64
  ec_weighted_size :: u64
  ec_eviction_count :: u64

record ('k, 'v) maint = "('k, 'v) inner" +
  es_counters :: eviction_counters
  es_notifier :: bool
  es_more_entries_to_evict :: bool

record entry_size_and_frequency =
  sf_policy_weight :: u64
  sf_freq :: u32

datatype 'k admission_result = Admitted "('k key_hash \<times> instant option) list" | Rejected

section \<open>\<open>Inner\<close>\<close>

definition time_to_live :: "('k, 'v) config \<Rightarrow> duration option" where
  "time_to_live cf = xp_time_to_live (cf_expiration_policy cf)"

definition time_to_idle :: "('k, 'v) config \<Rightarrow> duration option" where
  "time_to_idle cf = xp_time_to_idle (cf_expiration_policy cf)"

definition inner_policy :: "('k, 'v) config \<Rightarrow> policy" where
  "inner_policy cf =
     \<lparr>po_max_capacity = cf_max_capacity cf, po_num_segments = 1,
      po_time_to_live = time_to_live cf, po_time_to_idle = time_to_idle cf\<rparr>"

definition current_time ::
  "('k, 'v) config \<Rightarrow> ('k, 'v, 'z) inner_scheme \<Rightarrow> ('k, 'v, 'z) inner_scheme \<times> instant" where
  "current_time cf s = (s\<lparr>in_ticks := in_ticks s + 1\<rparr>, cf_clock cf (in_ticks s))"

definition has_expiry :: "('k, 'v) config \<Rightarrow> bool" where
  "has_expiry cf \<longleftrightarrow> time_to_live cf \<noteq> None \<or> time_to_idle cf \<noteq> None"

definition is_write_order_queue_enabled :: "('k, 'v) config \<Rightarrow> ('k, 'v, 'z) inner_scheme \<Rightarrow> bool" where
  "is_write_order_queue_enabled cf s \<longleftrightarrow> time_to_live cf \<noteq> None \<or> in_invalidator s \<noteq> None"

definition valid_after :: "('k, 'v, 'z) inner_scheme \<Rightarrow> instant option" where
  "valid_after s = get_instant (in_valid_after s)"

definition set_valid_after :: "instant \<Rightarrow> ('k, 'v, 'z) inner_scheme \<Rightarrow> ('k, 'v, 'z) inner_scheme" where
  "set_valid_after ts s = s\<lparr>in_valid_after := set_instant (in_valid_after s) ts\<rparr>"

definition has_valid_after :: "('k, 'v, 'z) inner_scheme \<Rightarrow> bool" where
  "has_valid_after s = is_set (in_valid_after s)"

definition is_removal_notifier_enabled :: "('k, 'v, 'z) inner_scheme \<Rightarrow> bool" where
  "is_removal_notifier_enabled s \<longleftrightarrow> in_removal_notifier s \<noteq> None"

definition new_store :: "'k key_hash \<Rightarrow> 'k store" where
  "new_store kh =
     \<lparr>st_infos = (\<lambda>_. entry_info_new kh (Instant 0) 0), st_nodes = (\<lambda>_. deq_nodes_default),
      st_khds = Map.empty, st_timers = Map.empty, st_next_id = 0, st_next_addr = 0\<rparr>"

text \<open>\<open>Inner::new\<close>, which reads the clock for the timer wheel; \<open>ticks\<close> readings were taken before.
  The argument \<open>kh\<close> fills the unused cells of the store.\<close>

definition inner_new ::
  "'k key_hash \<Rightarrow> ('k, 'v) config \<Rightarrow> ('k \<Rightarrow> 'v \<Rightarrow> removal_cause \<Rightarrow> bool) option \<Rightarrow> bool \<Rightarrow> nat \<Rightarrow>
    ('k, 'v) inner" where
  "inner_new kh cf eviction_listener invalidator_enabled ticks =
     \<lparr>in_entry_count = 0, in_weighted_size = 0, in_cache = Map.empty, in_store = new_store kh,
      in_deques = deques_default, in_timer_wheel = tw_new (cf_clock cf ticks),
      in_frequency_sketch = fs_default, in_frequency_sketch_enabled = False,
      in_read_op_ch = [], in_write_op_ch = [], in_valid_after = atomic_instant_default,
      in_removal_notifier = map_option removal_notifier_new eviction_listener,
      in_invalidator = (if invalidator_enabled then Some invalidator_new else None),
      in_ticks = ticks + 1\<rparr>"

text \<open>\<open>remove_entry_if_and\<close> of the hash table with the callback that retires the removed entry
  (\<open>Inner::remove_entry\<close> and \<open>Inner::cht_remove_if_and_retire\<close>).\<close>

definition cht_remove_if_and_retire ::
  "'k \<Rightarrow> ('v value_entry \<Rightarrow> bool) \<Rightarrow> ('k, 'v, 'z) inner_scheme \<Rightarrow>
    ('k, 'v, 'z) inner_scheme \<times> 'v value_entry option" where
  "cht_remove_if_and_retire key condition s =
     (case in_cache s key of
        Some e \<Rightarrow>
          if condition e then
            (s\<lparr>in_cache := (in_cache s)(key := None), in_store := upd_info (ve_info e) retire (in_store s)\<rparr>,
             Some e)
          else (s, None)
      | None \<Rightarrow> (s, None))"

definition remove_entry ::
  "'k \<Rightarrow> ('k, 'v, 'z) inner_scheme \<Rightarrow> ('k, 'v, 'z) inner_scheme \<times> ('k, 'v) kv_entry option" where
  "remove_entry key s =
     (let (s, removed) = cht_remove_if_and_retire key (\<lambda>_. True) s
      in (s, map_option (\<lambda>e. \<lparr>kv_key = key, kv_entry = e\<rparr>) removed))"

definition register_invalidation_predicate ::
  "(nat \<Rightarrow> string) \<Rightarrow> ('k \<Rightarrow> 'v \<Rightarrow> bool) \<Rightarrow> instant \<Rightarrow> ('k, 'v, 'z) inner_scheme \<Rightarrow>
    (('k, 'v, 'z) inner_scheme \<times> (predicate_error + string)) or_panic" where
  "register_invalidation_predicate uuid predicate registered_at s =
     (case in_invalidator s of
        Some iv \<Rightarrow>
          do { (iv, id) \<leftarrow> register_predicate uuid predicate registered_at iv;
               Some (s\<lparr>in_invalidator := Some iv\<rparr>, Inr id) }
      | None \<Rightarrow> Some (s, Inl InvalidationClosuresDisabled))"

definition is_invalidated_entry :: "'k \<Rightarrow> 'v value_entry \<Rightarrow> ('k, 'v, 'z) inner_scheme \<Rightarrow> bool" where
  "is_invalidated_entry key e s =
     (case in_invalidator s of Some iv \<Rightarrow> apply_predicates (in_store s) iv key e | None \<Rightarrow> False)"

definition weigh :: "('k, 'v) config \<Rightarrow> 'k \<Rightarrow> 'v \<Rightarrow> u32" where
  "weigh cf key value = (case cf_weigher cf of None \<Rightarrow> 1 | Some w \<Rightarrow> w key value)"

section \<open>Expiration\<close>

definition is_expired_by_per_entry_ttl :: "'k entry_info \<Rightarrow> instant \<Rightarrow> bool" where
  "is_expired_by_per_entry_ttl info now =
     (case fst (expiration_state info) of Some ts \<Rightarrow> ts \<le> now | None \<Rightarrow> False)"

definition is_invalid_entry :: "instant option \<Rightarrow> instant \<Rightarrow> bool" where
  "is_invalid_entry va entry_ts = (case va of Some va \<Rightarrow> entry_ts < va | None \<Rightarrow> False)"

definition is_expired_by_tti :: "duration option \<Rightarrow> instant \<Rightarrow> instant \<Rightarrow> bool" where
  "is_expired_by_tti tti entry_last_accessed now =
     (case tti of Some tti \<Rightarrow> saturating_add entry_last_accessed tti \<le> now | None \<Rightarrow> False)"

definition is_expired_by_ttl :: "duration option \<Rightarrow> instant \<Rightarrow> instant \<Rightarrow> bool" where
  "is_expired_by_ttl ttl entry_last_modified now =
     (case ttl of Some ttl \<Rightarrow> saturating_add entry_last_modified ttl \<le> now | None \<Rightarrow> False)"

definition is_expired_entry_ao ::
  "duration option \<Rightarrow> instant option \<Rightarrow> 'k entry_info \<Rightarrow> instant \<Rightarrow> bool" where
  "is_expired_entry_ao tti va info now =
     (case last_accessed info of
        Some ts \<Rightarrow> is_invalid_entry va ts \<or> is_expired_by_tti tti ts now
      | None \<Rightarrow> False)"

definition is_expired_entry_wo ::
  "duration option \<Rightarrow> instant option \<Rightarrow> 'k entry_info \<Rightarrow> instant \<Rightarrow> bool" where
  "is_expired_entry_wo ttl va info now =
     (case last_modified info of
        Some ts \<Rightarrow> is_invalid_entry va ts \<or> is_expired_by_ttl ttl ts now
      | None \<Rightarrow> False)"

definition is_entry_expired_ao_or_invalid ::
  "duration option \<Rightarrow> instant option \<Rightarrow> instant \<Rightarrow> instant \<Rightarrow> bool \<times> bool" where
  "is_entry_expired_ao_or_invalid tti va ts now = (is_expired_by_tti tti ts now, is_invalid_entry va ts)"

definition is_entry_expired_wo_or_invalid ::
  "duration option \<Rightarrow> instant option \<Rightarrow> instant \<Rightarrow> instant \<Rightarrow> bool \<times> bool" where
  "is_entry_expired_wo_or_invalid ttl va ts now = (is_expired_by_ttl ttl ts now, is_invalid_entry va ts)"

section \<open>Notifications\<close>

definition notify_single_removal ::
  "'k \<Rightarrow> 'v value_entry \<Rightarrow> removal_cause \<Rightarrow> ('k, 'v, 'z) inner_scheme \<Rightarrow> ('k, 'v, 'z) inner_scheme" where
  "notify_single_removal key e cause s =
     s\<lparr>in_removal_notifier := map_option (notify key (ve_value e) cause) (in_removal_notifier s)\<rparr>"

definition notify_upsert ::
  "('k, 'v) config \<Rightarrow> 'k \<Rightarrow> 'v old_entry_info \<Rightarrow> ('k, 'v, 'z) inner_scheme \<Rightarrow> ('k, 'v, 'z) inner_scheme" where
  "notify_upsert cf key old s =
     (let (s, now) = current_time cf s;
          cause = CauseReplaced;
          cause = (case oe_last_accessed old of
                     Some la \<Rightarrow> if is_expired_by_tti (time_to_idle cf) la now then CauseExpired else cause
                   | None \<Rightarrow> cause);
          cause = (case oe_last_modified old of
                     Some lm \<Rightarrow>
                       if is_expired_by_ttl (time_to_live cf) lm now then CauseExpired
                       else if is_invalid_entry (valid_after s) lm then CauseExplicit
                       else cause
                   | None \<Rightarrow> cause)
      in notify_single_removal key (oe_entry old) cause s)"

definition notify_invalidate ::
  "('k, 'v) config \<Rightarrow> 'k \<Rightarrow> 'v value_entry \<Rightarrow> ('k, 'v, 'z) inner_scheme \<Rightarrow> ('k, 'v, 'z) inner_scheme" where
  "notify_invalidate cf key e s =
     (let (s, now) = current_time cf s;
          cause = CauseExplicit;
          cause = (case last_accessed (info_of (in_store s) e) of
                     Some la \<Rightarrow> if is_expired_by_tti (time_to_idle cf) la now then CauseExpired else cause
                   | None \<Rightarrow> cause);
          cause = (case last_modified (info_of (in_store s) e) of
                     Some lm \<Rightarrow> if is_expired_by_ttl (time_to_live cf) lm now then CauseExpired else cause
                   | None \<Rightarrow> cause)
      in notify_single_removal key e cause s)"

section \<open>\<open>EvictionState\<close> and \<open>EvictionCounters\<close>\<close>

definition eviction_counters_new :: "u64 \<Rightarrow> u64 \<Rightarrow> eviction_counters" where
  "eviction_counters_new entry_count weighted_size =
     \<lparr>ec_entry_count = entry_count, ec_weighted_size = weighted_size, ec_eviction_count = 0\<rparr>"

definition counters_saturating_add :: "u64 \<Rightarrow> u32 \<Rightarrow> eviction_counters \<Rightarrow> eviction_counters" where
  "counters_saturating_add n weight c =
     c\<lparr>ec_entry_count := ec_entry_count c + n, ec_weighted_size := sat_add (ec_weighted_size c) (ucast weight)\<rparr>"

definition counters_saturating_sub :: "u64 \<Rightarrow> u32 \<Rightarrow> eviction_counters \<Rightarrow> eviction_counters" where
  "counters_saturating_sub n weight c =
     c\<lparr>ec_entry_count := ec_entry_count c - n, ec_weighted_size := sat_sub (ec_weighted_size c) (ucast weight)\<rparr>"

definition incr_eviction_count :: "eviction_counters \<Rightarrow> eviction_counters" where
  "incr_eviction_count c = c\<lparr>ec_eviction_count := sat_add (ec_eviction_count c) 1\<rparr>"

definition eviction_state_new :: "('k, 'v) inner \<Rightarrow> ('k, 'v) maint" where
  "eviction_state_new s =
     inner.extend s
       (maint.fields (eviction_counters_new (in_entry_count s) (in_weighted_size s))
          (is_removal_notifier_enabled s) False)"

definition upd_counters :: "(eviction_counters \<Rightarrow> eviction_counters) \<Rightarrow> ('k, 'v) maint \<Rightarrow> ('k, 'v) maint" where
  "upd_counters f s = s\<lparr>es_counters := f (es_counters s)\<rparr>"

definition notify_entry_removal ::
  "'k \<Rightarrow> 'v value_entry \<Rightarrow> removal_cause \<Rightarrow> ('k, 'v) maint \<Rightarrow> ('k, 'v) maint or_panic" where
  "notify_entry_removal key e cause s =
     (if es_notifier s then Some (notify_single_removal key e cause s) else None)"

text \<open>The two steps that follow every removal from the hash table: notify, count.\<close>

definition notify_and_count ::
  "'k \<Rightarrow> 'v value_entry \<Rightarrow> removal_cause \<Rightarrow> ('k, 'v) maint \<Rightarrow> ('k, 'v) maint or_panic" where
  "notify_and_count key e cause s =
     do { s \<leftarrow> (if es_notifier s then notify_entry_removal key e cause s else Some s);
          Some (upd_counters incr_eviction_count s) }"

section \<open>\<open>EntrySizeAndFrequency\<close>\<close>

definition size_and_frequency_new :: "u32 \<Rightarrow> entry_size_and_frequency" where
  "size_and_frequency_new w = \<lparr>sf_policy_weight = ucast w, sf_freq = 0\<rparr>"

definition add_policy_weight :: "u32 \<Rightarrow> entry_size_and_frequency \<Rightarrow> entry_size_and_frequency" where
  "add_policy_weight w x = x\<lparr>sf_policy_weight := sf_policy_weight x + ucast w\<rparr>"

definition add_frequency ::
  "frequency_sketch \<Rightarrow> u64 \<Rightarrow> entry_size_and_frequency \<Rightarrow> entry_size_and_frequency or_panic" where
  "add_frequency freq hash x = do { f \<leftarrow> frequency freq hash; Some (x\<lparr>sf_freq := sf_freq x + ucast f\<rparr>) }"

section \<open>Capacity\<close>

definition has_enough_capacity :: "('k, 'v) config \<Rightarrow> u32 \<Rightarrow> eviction_counters \<Rightarrow> bool" where
  "has_enough_capacity cf candidate_weight c =
     (case cf_max_capacity cf of
        None \<Rightarrow> True
      | Some limit \<Rightarrow> ec_weighted_size c + ucast candidate_weight \<le> limit)"

definition weights_to_evict :: "('k, 'v) config \<Rightarrow> eviction_counters \<Rightarrow> u64" where
  "weights_to_evict cf c =
     (case cf_max_capacity cf of None \<Rightarrow> 0 | Some limit \<Rightarrow> sat_sub (ec_weighted_size c) limit)"

definition should_enable_frequency_sketch ::
  "('k, 'v) config \<Rightarrow> eviction_counters \<Rightarrow> ('k, 'v, 'z) inner_scheme \<Rightarrow> bool" where
  "should_enable_frequency_sketch cf c s =
     (case cf_max_capacity cf of
        None \<Rightarrow> False
      | Some max_cap \<Rightarrow>
          if max_cap = 0 then False
          else if in_frequency_sketch_enabled s then False
          else ec_weighted_size c \<ge> max_cap div 2)"

text \<open>Rust's \<open>f64\<close>, for the non-negative numbers of \<open>enable_frequency_sketch\<close>, none of which is
  beyond the normal range: \<open>(m, e)\<close> is \<open>m * 2 ^ e\<close> with \<open>m \<le> 2 ^ 53\<close>. \<open>f64_round n d\<close> is the quotient
  \<open>n / d\<close> rounded to the nearest such number, ties to the even mantissa.\<close>

fun bit_len :: "nat \<Rightarrow> nat" where
  "bit_len n = (if n = 0 then 0 else Suc (bit_len (n div 2)))"

declare bit_len.simps [simp del]

definition scale :: "nat \<Rightarrow> nat \<Rightarrow> int \<Rightarrow> nat \<times> nat" where
  "scale n d e = (if 0 \<le> e then (n, d * 2 ^ nat e) else (n * 2 ^ nat (- e), d))"

definition f64_round :: "nat \<Rightarrow> nat \<Rightarrow> nat \<times> int" where
  "f64_round n d =
     (if n = 0 then (0, 0)
      else let e = int (bit_len n) - int (bit_len d) - 53;
               (n', d') = scale n d e;
               e = (if n' \<ge> 2 ^ 53 * d' then e + 1 else e);
               (n', d') = scale n d e;
               q = n' div d';
               r = n' mod d'
           in (if 2 * r > d' \<or> 2 * r = d' \<and> odd q then q + 1 else q, e))"

definition f64_of_u64 :: "u64 \<Rightarrow> nat \<times> int" where
  "f64_of_u64 x = f64_round (unat x) 1"

definition f64_div :: "nat \<times> int \<Rightarrow> nat \<times> int \<Rightarrow> nat \<times> int" where
  "f64_div x y = (let (q, e) = f64_round (fst x) (fst y) in (q, e + snd x - snd y))"

definition f64_mul :: "nat \<times> int \<Rightarrow> nat \<times> int \<Rightarrow> nat \<times> int" where
  "f64_mul x y = (let (q, e) = f64_round (fst x * fst y) 1 in (q, e + snd x + snd y))"

definition u64_of_f64 :: "nat \<times> int \<Rightarrow> u64" where
  "u64_of_f64 x =
     (let (n, d) = scale (fst x) 1 (- snd x); v = n div d
      in if v < 2 ^ 64 then word_of_nat v else - 1)"

definition do_enable_frequency_sketch ::
  "('k, 'v) config \<Rightarrow> u64 \<Rightarrow> ('k, 'v, 'z) inner_scheme \<Rightarrow> ('k, 'v, 'z) inner_scheme" where
  "do_enable_frequency_sketch cf cache_capacity s =
     s\<lparr>in_frequency_sketch :=
         ensure_capacity (cf_pointer_width cf) (sketch_capacity cache_capacity) (in_frequency_sketch s),
       in_frequency_sketch_enabled := True\<rparr>"

definition enable_frequency_sketch ::
  "('k, 'v) config \<Rightarrow> eviction_counters \<Rightarrow> ('k, 'v, 'z) inner_scheme \<Rightarrow> ('k, 'v, 'z) inner_scheme" where
  "enable_frequency_sketch cf c s =
     (case cf_max_capacity cf of
        None \<Rightarrow> s
      | Some max_cap \<Rightarrow>
          (let cap = (if cf_weigher cf = None then max_cap
                      else u64_of_f64
                             (f64_mul (f64_of_u64 (ec_entry_count c))
                                (f64_div (f64_of_u64 (ec_weighted_size c)) (f64_of_u64 max_cap))))
           in do_enable_frequency_sketch cf cap s))"

end
