(* ===== verification/Base_Cache.thy ===== *)
theory Base_Cache
  imports Inner_Cache
begin

text \<open>
  The maintenance of a cache (\<open>src/src/sync/base_cache.rs\<close>, \<open>Inner::do_run_pending_tasks\<close> and
  what it calls, and \<open>Invalidator::scan_and_invalidate\<close> of \<open>src/src/sync/invalidator.rs\<close>): the
  recorded reads and writes are applied to the policies' data, and entries that have expired,
  were invalidated or exceed the capacity are evicted.
\<close>

section \<open>The timer of an entry\<close>

definition update_timer_wheel ::
  "'v value_entry \<Rightarrow> ('k, 'v, 'z) inner_scheme \<Rightarrow> ('k, 'v, 'z) inner_scheme or_panic" where
  "update_timer_wheel e s =
     (let st = in_store s;
          tw = in_timer_wheel s;
          (expiration_time, current_expiry_gen) = expiration_state (info_of st e)
      in do {
        (st, tw) \<leftarrow> (if expiration_time \<noteq> None \<and> \<not> tw_is_enabled tw then tw_enable st tw else Some (st, tw));
        let (tn, expected_expiry_gen) = timer_node_with_expiry_gen st e;
        (st, tw) \<leftarrow>
          (case (expiration_time \<noteq> None, tn) of
             (False, None) \<Rightarrow> Some (st, tw)
           | (True, None) \<Rightarrow>
               do { (st, tw, timer) \<leftarrow> schedule (ve_info e) (ve_nodes e) current_expiry_gen st tw;
                    Some (set_timer_node e timer current_expiry_gen st, tw) }
           | (True, Some tn) \<Rightarrow>
               do { (st, tw, r) \<leftarrow> reschedule tn expected_expiry_gen st tw;
                    case r of
                      Some (RRemoved removed_tn) \<Rightarrow>
                        Some (free_timer removed_tn (set_timer_node e None current_expiry_gen st), tw)
                    | Some RRescheduled \<Rightarrow> Some (st, tw)
                    | None \<Rightarrow> Some (set_timer_node e None current_expiry_gen st, tw) }
           | (False, Some tn) \<Rightarrow>
               do { (st, tw, _) \<leftarrow>
                      deschedule tn expected_expiry_gen (set_timer_node e None current_expiry_gen st) tw;
                    Some (st, tw) });
        Some (s\<lparr>in_store := st, in_timer_wheel := tw\<rparr>) })"

section \<open>Reads\<close>

definition apply_read_op :: "'v read_op \<Rightarrow> ('k, 'v, 'z) inner_scheme \<Rightarrow> ('k, 'v, 'z) inner_scheme or_panic" where
  "apply_read_op op s =
     (case op of
        Hit e is_expiry_modified \<Rightarrow>
          do { freq \<leftarrow> increment (in_frequency_sketch s) (kh_hash (ei_key_hash (info_of (in_store s) e)));
               let s = s\<lparr>in_frequency_sketch := freq\<rparr>;
               if \<not> is_alive (info_of (in_store s) e) then Some s
               else do { s \<leftarrow> (if is_expiry_modified then update_timer_wheel e s else Some s);
                         dqs \<leftarrow> move_to_back_ao e (in_store s) (in_deques s);
                         Some (s\<lparr>in_deques := dqs\<rparr>) } }
      | Miss hash \<Rightarrow>
          do { freq \<leftarrow> increment (in_frequency_sketch s) hash;
               Some (s\<lparr>in_frequency_sketch := freq\<rparr>) })"

fun apply_reads :: "nat \<Rightarrow> ('k, 'v, 'z) inner_scheme \<Rightarrow> ('k, 'v, 'z) inner_scheme or_panic" where
  "apply_reads 0 s = Some s"
| "apply_reads (Suc n) s =
     (case in_read_op_ch s of
        [] \<Rightarrow> Some s
      | op # ops \<Rightarrow> do { s \<leftarrow> apply_read_op op (s\<lparr>in_read_op_ch := ops\<rparr>); apply_reads n s })"

section \<open>Removals\<close>

definition handle_remove_without_timer_wheel ::
  "'v value_entry \<Rightarrow> u16 option \<Rightarrow> ('k, 'v) maint \<Rightarrow> ('k, 'v) maint or_panic" where
  "handle_remove_without_timer_wheel e gen s =
     do { s \<leftarrow>
            (if ve_is_admitted (in_store s) e then
               (let st = ve_set_admitted False e (in_store s);
                    s = upd_counters (counters_saturating_sub 1 (ve_policy_weight st e)) s
                in do { (st, dqs) \<leftarrow> unlink_ao e st (in_deques s);
                        (st, wo) \<leftarrow> unlink_wo e st (dqs_write_order dqs);
                        Some (s\<lparr>in_store := st, in_deques := dqs\<lparr>dqs_write_order := wo\<rparr>\<rparr>) })
             else Some (s\<lparr>in_store := unset_q_nodes e (in_store s)\<rparr>));
          Some (case gen of
                  Some g \<Rightarrow> s\<lparr>in_store := upd_info (ve_info e) (set_policy_gen g) (in_store s)\<rparr>
                | None \<Rightarrow> s) }"

definition remove_timer ::
  "'v value_entry \<Rightarrow> ('k, 'v, 'z) inner_scheme \<Rightarrow> ('k, 'v, 'z) inner_scheme or_panic" where
  "remove_timer e s =
     (let (st, tn, expiry_gen) = take_timer_node e (in_store s)
      in case tn of
           Some tn \<Rightarrow>
             do { (st, tw, _) \<leftarrow> deschedule tn expiry_gen st (in_timer_wheel s);
                  Some (s\<lparr>in_store := st, in_timer_wheel := tw\<rparr>) }
         | None \<Rightarrow> Some (s\<lparr>in_store := st\<rparr>))"

definition handle_remove ::
  "'v value_entry \<Rightarrow> u16 option \<Rightarrow> ('k, 'v) maint \<Rightarrow> ('k, 'v) maint or_panic" where
  "handle_remove e gen s = do { s \<leftarrow> remove_timer e s; handle_remove_without_timer_wheel e gen s }"

definition handle_remove_with_deques ::
  "cache_region \<Rightarrow> 'v value_entry \<Rightarrow> ('k, 'v) maint \<Rightarrow> ('k, 'v) maint or_panic" where
  "handle_remove_with_deques region e s =
     do { s \<leftarrow> remove_timer e s;
          if ve_is_admitted (in_store s) e then
            (let st = ve_set_admitted False e (in_store s);
                 s = upd_counters (counters_saturating_sub 1 (ve_policy_weight st e)) s
             in do { (ao_deq, wo_deq) \<leftarrow> select_mut region (in_deques s);
                     (st, ao_deq) \<leftarrow> unlink_ao_from_deque e st ao_deq;
                     (st, wo_deq) \<leftarrow> unlink_wo e st wo_deq;
                     Some (s\<lparr>in_store := st,
                             in_deques := (set_ao_deque region ao_deq (in_deques s))\<lparr>dqs_write_order := wo_deq\<rparr>\<rparr>) })
          else Some (s\<lparr>in_store := unset_q_nodes e (in_store s)\<rparr>) }"

section \<open>Admission\<close>

definition handle_admit ::
  "('k, 'v) config \<Rightarrow> 'v value_entry \<Rightarrow> u32 \<Rightarrow> ('k, 'v) maint \<Rightarrow> ('k, 'v) maint or_panic" where
  "handle_admit cf e weight s =
     (if \<not> is_alive (info_of (in_store s) e) then Some s
      else do {
        s \<leftarrow> update_timer_wheel e (upd_counters (counters_saturating_add 1 weight) s);
        (st, dqs) \<leftarrow> push_back_ao MainProbation (ve_info e) e (in_store s) (in_deques s);
        let (st, dqs) =
          (if is_write_order_queue_enabled cf s then push_back_wo (ve_info e) e st dqs else (st, dqs));
        Some (s\<lparr>in_store := ve_set_admitted True e st, in_deques := dqs\<rparr>) })"

definition MAX_CONSECUTIVE_RETRIES :: nat where "MAX_CONSECUTIVE_RETRIES = 5"

text \<open>The loop of \<open>admit\<close>. Its state is the deque, the next potential victim, the number of
  consecutive retries, the victims' aggregated weight and frequency, and the victims.\<close>

type_synonym 'k admit_state =
  "adeq \<times> addr option \<times> nat \<times> entry_size_and_frequency \<times> ('k key_hash \<times> instant option) list"

partial_function (option) admit_loop ::
  "entry_size_and_frequency \<Rightarrow> ('k \<rightharpoonup> 'v value_entry) \<Rightarrow> 'k store \<Rightarrow> frequency_sketch \<Rightarrow>
    'k admit_state \<Rightarrow> 'k admit_state or_panic" where
  "admit_loop candidate cache st freq z =
     (let (deq, next_victim, retries, victims, victim_keys) = z
      in if sf_policy_weight victims < sf_policy_weight candidate \<and>
            sf_freq victims \<le> sf_freq candidate \<and> retries \<le> MAX_CONSECUTIVE_RETRIES
         then (case next_victim of
             None \<Rightarrow> Some (deq, None, retries, victims, victim_keys)
           | Some victim \<Rightarrow>
               do { i \<leftarrow> st_khds st victim;
                    let next_victim = succ_in (ad_nodes deq) victim;
                    let vic_elem = st_infos st i;
                    if is_dirty vic_elem \<or> \<not> is_alive vic_elem then
                      do { deq \<leftarrow> ad_move_to_back victim deq;
                           admit_loop candidate cache st freq (deq, next_victim, retries + 1, victims, victim_keys) }
                    else (case cache (kh_key (ei_key_hash vic_elem)) of
                        Some vic_entry \<Rightarrow>
                          do { victims \<leftarrow> add_frequency freq (kh_hash (ei_key_hash vic_elem))
                                 (add_policy_weight (ve_policy_weight st vic_entry) victims);
                               admit_loop candidate cache st freq
                                 (deq, next_victim, 0, victims,
                                  victim_keys @ [(ei_key_hash vic_elem, last_accessed vic_elem)]) }
                      | None \<Rightarrow>
                          do { deq \<leftarrow> ad_move_to_back victim deq;
                               admit_loop candidate cache st freq (deq, next_victim, retries + 1, victims, victim_keys) }) })
         else Some z)"

definition admit ::
  "entry_size_and_frequency \<Rightarrow> ('k \<rightharpoonup> 'v value_entry) \<Rightarrow> 'k store \<Rightarrow> frequency_sketch \<Rightarrow> adeq \<Rightarrow>
    (adeq \<times> 'k admission_result) or_panic" where
  "admit candidate cache st freq deq =
     do { (deq, _, _, victims, victim_keys) \<leftarrow>
            admit_loop candidate cache st freq
              (deq, ad_peek_front deq, 0, \<lparr>sf_policy_weight = 0, sf_freq = 0\<rparr>, []);
          Some (deq,
            if sf_policy_weight victims \<ge> sf_policy_weight candidate \<and> sf_freq candidate > sf_freq victims
            then Admitted victim_keys else Rejected) }"

definition evict_victim ::
  "'k key_hash \<times> instant option \<Rightarrow> ('k, 'v) maint \<Rightarrow> ('k, 'v) maint or_panic" where
  "evict_victim vic s =
     (let (vic_kh, vic_la) = vic;
          (s, removed) = cht_remove_if_and_retire (kh_key vic_kh)
             (\<lambda>e. last_accessed (info_of (in_store s) e) = vic_la) s
      in case removed of
           Some vic_entry \<Rightarrow>
             do { s \<leftarrow> notify_and_count (kh_key vic_kh) vic_entry CauseSize s;
                  handle_remove vic_entry None s }
         | None \<Rightarrow>
             (case ad_peek_front (dqs_probation (in_deques s)) of
                None \<Rightarrow> Some s
              | Some node \<Rightarrow>
                  do { i \<leftarrow> st_khds (in_store s) node;
                       if ei_key_hash (st_infos (in_store s) i) = vic_kh then
                         do { q \<leftarrow> ad_move_front_to_back (dqs_probation (in_deques s));
                              Some (s\<lparr>in_deques := (in_deques s)\<lparr>dqs_probation := q\<rparr>\<rparr>) }
                       else Some s }))"

text \<open>The removal of a candidate that is too big or was rejected: only if the table still holds
  the generation of the entry that the operation is for.\<close>

definition remove_candidate ::
  "'k \<Rightarrow> 'v value_entry \<Rightarrow> u16 \<Rightarrow> ('k, 'v, 'z) inner_scheme \<Rightarrow>
    ('k, 'v, 'z) inner_scheme \<times> 'v value_entry option" where
  "remove_candidate key e gen s =
     cht_remove_if_and_retire key
       (\<lambda>current. ve_info e = ve_info current \<and> ei_entry_gen (info_of (in_store s) current) = gen) s"

definition apply_policy_gen ::
  "'v value_entry \<Rightarrow> u16 \<Rightarrow> ('k, 'v, 'z) inner_scheme \<Rightarrow> ('k, 'v, 'z) inner_scheme" where
  "apply_policy_gen e gen s = s\<lparr>in_store := upd_info (ve_info e) (set_policy_gen gen) (in_store s)\<rparr>"

definition handle_upsert ::
  "('k, 'v) config \<Rightarrow> 'k key_hash \<Rightarrow> 'v value_entry \<Rightarrow> u16 \<Rightarrow> u32 \<Rightarrow> u32 \<Rightarrow> ('k, 'v) maint \<Rightarrow>
    ('k, 'v) maint or_panic" where
  "handle_upsert cf kh e gen old_weight new_weight s =
     (if \<not> is_alive (info_of (in_store s) e) then Some (apply_policy_gen e gen s)
      else if ve_is_admitted (in_store s) e then
        do { let s = upd_counters (counters_saturating_sub 0 old_weight) s;
             let s = upd_counters (counters_saturating_add 0 new_weight) s;
             s \<leftarrow> update_timer_wheel e s;
             dqs \<leftarrow> move_to_back_ao e (in_store s) (in_deques s);
             dqs \<leftarrow> move_to_back_wo e (in_store s) dqs;
             Some (apply_policy_gen e gen (s\<lparr>in_deques := dqs\<rparr>)) }
      else if has_enough_capacity cf new_weight (es_counters s) then
        do { s \<leftarrow> handle_admit cf e new_weight s; Some (apply_policy_gen e gen s) }
      else if (case cf_max_capacity cf of Some max_cap \<Rightarrow> ucast new_weight > max_cap | None \<Rightarrow> False) then
        (let (s, removed) = remove_candidate (kh_key kh) e gen s
         in do { s \<leftarrow> (case removed of
                        Some e \<Rightarrow> notify_and_count (kh_key kh) e CauseSize s
                      | None \<Rightarrow> Some s);
                 Some (apply_policy_gen e gen s) })
      else
        do { (s, admission_result) \<leftarrow>
               (case cf_eviction_policy cf of
                  TinyLfu \<Rightarrow>
                    do { candidate \<leftarrow>
                           add_frequency (in_frequency_sketch s) (kh_hash kh) (size_and_frequency_new new_weight);
                         (q, r) \<leftarrow> admit candidate (in_cache s) (in_store s) (in_frequency_sketch s)
                                      (dqs_probation (in_deques s));
                         Some (s\<lparr>in_deques := (in_deques s)\<lparr>dqs_probation := q\<rparr>\<rparr>, r) }
                | Lru \<Rightarrow> Some (s, Admitted []));
             case admission_result of
               Admitted victim_keys \<Rightarrow>
                 do { s \<leftarrow> mfold evict_victim victim_keys s;
                      s \<leftarrow> handle_admit cf e new_weight s;
                      Some (apply_policy_gen e gen s) }
             | Rejected \<Rightarrow>
                 (let (s, removed) = remove_candidate (kh_key kh) e gen s
                  in case removed of
                       Some e \<Rightarrow> notify_and_count (kh_key kh) e CauseSize (apply_policy_gen e gen s)
                     | None \<Rightarrow> Some s) })"

section \<open>Writes\<close>

definition apply_write_op ::
  "('k, 'v) config \<Rightarrow> ('k, 'v) write_op \<Rightarrow> ('k, 'v) maint \<Rightarrow> ('k, 'v) maint or_panic" where
  "apply_write_op cf op s =
     (case op of
        Upsert kh e gen old_weight new_weight \<Rightarrow> handle_upsert cf kh e gen old_weight new_weight s
      | Remove kv gen \<Rightarrow> handle_remove (kv_entry kv) (Some gen) s)"

fun apply_writes :: "('k, 'v) config \<Rightarrow> nat \<Rightarrow> ('k, 'v) maint \<Rightarrow> ('k, 'v) maint or_panic" where
  "apply_writes cf 0 s = Some s"
| "apply_writes cf (Suc n) s =
     (case in_write_op_ch s of
        [] \<Rightarrow> Some s
      | op # ops \<Rightarrow> do { s \<leftarrow> apply_write_op cf op (s\<lparr>in_write_op_ch := ops\<rparr>); apply_writes cf n s })"

section \<open>Expired entries\<close>

definition evict_expired_node ::
  "instant \<Rightarrow> addr \<Rightarrow> ('k, 'v) maint \<Rightarrow> ('k, 'v) maint or_panic" where
  "evict_expired_node now node s =
     do { t \<leftarrow> st_timers (in_store s) node;
          i \<leftarrow> timer_entry_info t;
          let info = st_infos (in_store s) i;
          if is_dirty info then Some s
          else (let key = kh_key (ei_key_hash info);
                    (s, removed) = cht_remove_if_and_retire key
                       (\<lambda>e. is_expired_by_per_entry_ttl (info_of (in_store s) e) now) s
                in case removed of
                     Some e \<Rightarrow>
                       do { s \<leftarrow> notify_and_count key e CauseExpired s;
                            handle_remove_without_timer_wheel e None s }
                   | None \<Rightarrow> Some s) }"

text \<open>The loop over the events of \<open>timer_wheel.advance(now)\<close>. An expired node is dropped at the end
  of its iteration, the iterator after the loop.\<close>

partial_function (option) timer_events_loop ::
  "instant \<Rightarrow> timer_events_iter \<Rightarrow> ('k, 'v) maint \<Rightarrow> ('k, 'v) maint or_panic" where
  "timer_events_loop now it s =
     do { ((st, tw, it), ev) \<leftarrow> timer_next (in_store s, in_timer_wheel s, it);
          let s = s\<lparr>in_store := st, in_timer_wheel := tw\<rparr>;
          case ev of
            None \<Rightarrow> Some (s\<lparr>in_timer_wheel := drop_timer_events_iter it tw\<rparr>)
          | Some (Expired node) \<Rightarrow>
              do { s \<leftarrow> evict_expired_node now node s;
                   timer_events_loop now it (s\<lparr>in_store := free_timer node (in_store s)\<rparr>) }
          | Some Rescheduled \<Rightarrow> timer_events_loop now it s
          | Some Descheduled \<Rightarrow> timer_events_loop now it s }"

definition evict_expired_entries_using_timers ::
  "('k, 'v) config \<Rightarrow> ('k, 'v) maint \<Rightarrow> ('k, 'v) maint or_panic" where
  "evict_expired_entries_using_timers cf s =
     (let (s, now) = current_time cf s;
          (tw, it) = advance now (in_timer_wheel s)
      in timer_events_loop now it (s\<lparr>in_timer_wheel := tw\<rparr>))"

definition skip_updated_entry_ao ::
  "'k \<Rightarrow> cache_region \<Rightarrow> ('k, 'v, 'z) inner_scheme \<Rightarrow> ('k, 'v, 'z) inner_scheme or_panic" where
  "skip_updated_entry_ao key region s =
     do { (deq, wo_deq) \<leftarrow> select_mut region (in_deques s);
          case in_cache s key of
            Some e \<Rightarrow>
              do { deq \<leftarrow> move_to_back_ao_in_deque e (in_store s) deq;
                   wo_deq \<leftarrow> (if is_dirty (info_of (in_store s) e)
                              then move_to_back_wo_in_deque e (in_store s) wo_deq else Some wo_deq);
                   Some (s\<lparr>in_deques := (set_ao_deque region deq (in_deques s))\<lparr>dqs_write_order := wo_deq\<rparr>\<rparr>) }
          | None \<Rightarrow>
              do { deq \<leftarrow> ad_move_front_to_back deq;
                   Some (s\<lparr>in_deques := set_ao_deque region deq (in_deques s)\<rparr>) } }"

definition skip_updated_entry_wo ::
  "'k \<Rightarrow> ('k, 'v, 'z) inner_scheme \<Rightarrow> ('k, 'v, 'z) inner_scheme or_panic" where
  "skip_updated_entry_wo key s =
     (case in_cache s key of
        Some e \<Rightarrow>
          do { dqs \<leftarrow> move_to_back_ao e (in_store s) (in_deques s);
               dqs \<leftarrow> move_to_back_wo e (in_store s) dqs;
               Some (s\<lparr>in_deques := dqs\<rparr>) }
      | None \<Rightarrow>
          do { q \<leftarrow> ad_move_front_to_back (dqs_write_order (in_deques s));
               Some (s\<lparr>in_deques := (in_deques s)\<lparr>dqs_write_order := q\<rparr>\<rparr>) })"

text \<open>The metadata of the node at the front of a deque.\<close>

definition front_info :: "'k store \<Rightarrow> adeq \<Rightarrow> 'k entry_info option or_panic" where
  "front_info st q =
     (case ad_peek_front q of
        None \<Rightarrow> Some None
      | Some a \<Rightarrow> do { i \<leftarrow> st_khds st a; Some (Some (st_infos st i)) })"

text \<open>What one iteration of the eviction loops does, after it has looked at the front of the
  deque: \<open>remove_front\<close> removes the entry of the key from the table if it meets the condition and
  then from the deques, or skips it; the boolean is the loop's \<open>more_to_evict\<close>.\<close>

definition remove_front ::
  "'k \<Rightarrow> removal_cause \<Rightarrow> ('v value_entry \<Rightarrow> bool) \<Rightarrow>
    ('v value_entry \<Rightarrow> ('k, 'v) maint \<Rightarrow> ('k, 'v) maint or_panic) \<Rightarrow>
    (('k, 'v) maint \<Rightarrow> ('k, 'v) maint or_panic) \<Rightarrow> bool \<Rightarrow> ('k, 'v) maint \<Rightarrow>
    (('k, 'v) maint \<times> bool \<times> 'v value_entry option) or_panic" where
  "remove_front key cause condition handle skip more_to_evict s =
     (let (s, removed) = cht_remove_if_and_retire key condition s
      in case removed of
           Some e \<Rightarrow>
             do { s \<leftarrow> notify_and_count key e cause s; s \<leftarrow> handle e s; Some (s, more_to_evict, Some e) }
         | None \<Rightarrow> do { s \<leftarrow> skip s; Some (s, False, None) })"

fun remove_expired_ao_loop ::
  "('k, 'v) config \<Rightarrow> cache_region \<Rightarrow> instant \<Rightarrow> nat \<Rightarrow> bool \<Rightarrow> ('k, 'v) maint \<Rightarrow>
    (('k, 'v) maint \<times> bool) or_panic" where
  "remove_expired_ao_loop cf region now 0 more_to_evict s = Some (s, more_to_evict)"
| "remove_expired_ao_loop cf region now (Suc n) more_to_evict s =
     do { (ao_deq, _) \<leftarrow> select_mut region (in_deques s);
          front \<leftarrow> front_info (in_store s) ao_deq;
          case front of
            None \<Rightarrow> Some (s, False)
          | Some info \<Rightarrow>
              (let key = kh_key (ei_key_hash info)
               in case (is_dirty info, last_accessed info) of
                    (False, Some ts) \<Rightarrow>
                      (case is_entry_expired_ao_or_invalid (time_to_idle cf) (valid_after s) ts now of
                         (False, False) \<Rightarrow> Some (s, False)
                       | (expired, _) \<Rightarrow>
                           do { (s, more_to_evict, _) \<leftarrow>
                                  remove_front key (if expired then CauseExpired else CauseExplicit)
                                    (\<lambda>e. is_expired_entry_ao (time_to_idle cf) (valid_after s)
                                           (info_of (in_store s) e) now)
                                    (handle_remove_with_deques region) (skip_updated_entry_ao key region) more_to_evict s;
                                remove_expired_ao_loop cf region now n more_to_evict s })
                  | _ \<Rightarrow>
                      do { s \<leftarrow> skip_updated_entry_ao key region s;
                           remove_expired_ao_loop cf region now n False s }) }"

definition remove_expired_ao ::
  "('k, 'v) config \<Rightarrow> cache_region \<Rightarrow> u32 \<Rightarrow> instant \<Rightarrow> ('k, 'v) maint \<Rightarrow> ('k, 'v) maint or_panic" where
  "remove_expired_ao cf region batch_size now s =
     do { (s, more_to_evict) \<leftarrow> remove_expired_ao_loop cf region now (unat batch_size) True s;
          Some (if more_to_evict then s\<lparr>es_more_entries_to_evict := True\<rparr> else s) }"

fun remove_expired_wo_loop ::
  "('k, 'v) config \<Rightarrow> instant \<Rightarrow> nat \<Rightarrow> bool \<Rightarrow> ('k, 'v) maint \<Rightarrow> (('k, 'v) maint \<times> bool) or_panic" where
  "remove_expired_wo_loop cf now 0 more_to_evict s = Some (s, more_to_evict)"
| "remove_expired_wo_loop cf now (Suc n) more_to_evict s =
     do { front \<leftarrow> front_info (in_store s) (dqs_write_order (in_deques s));
          case front of
            None \<Rightarrow> Some (s, False)
          | Some info \<Rightarrow>
              (let key = kh_key (ei_key_hash info)
               in case (is_dirty info, last_modified info) of
                    (False, Some ts) \<Rightarrow>
                      (case is_entry_expired_wo_or_invalid (time_to_live cf) (valid_after s) ts now of
                         (False, False) \<Rightarrow> Some (s, False)
                       | (expired, _) \<Rightarrow>
                           do { (s, more_to_evict, _) \<leftarrow>
                                  remove_front key (if expired then CauseExpired else CauseExplicit)
                                    (\<lambda>e. is_expired_entry_wo (time_to_live cf) (valid_after s)
                                           (info_of (in_store s) e) now)
                                    (\<lambda>e. handle_remove e None) (skip_updated_entry_wo key) more_to_evict s;
                                remove_expired_wo_loop cf now n more_to_evict s })
                  | _ \<Rightarrow>
                      do { s \<leftarrow> skip_updated_entry_wo key s;
                           remove_expired_wo_loop cf now n False s }) }"

definition remove_expired_wo ::
  "('k, 'v) config \<Rightarrow> u32 \<Rightarrow> instant \<Rightarrow> ('k, 'v) maint \<Rightarrow> ('k, 'v) maint or_panic" where
  "remove_expired_wo cf batch_size now s =
     do { (s, more_to_evict) \<leftarrow> remove_expired_wo_loop cf now (unat batch_size) True s;
          Some (if more_to_evict then s\<lparr>es_more_entries_to_evict := True\<rparr> else s) }"

definition evict_expired_entries_using_deqs ::
  "('k, 'v) config \<Rightarrow> u32 \<Rightarrow> ('k, 'v) maint \<Rightarrow> ('k, 'v) maint or_panic" where
  "evict_expired_entries_using_deqs cf batch_size s =
     (let (s, now) = current_time cf s
      in do { s \<leftarrow> (if is_write_order_queue_enabled cf s then remove_expired_wo cf batch_size now s else Some s);
              if time_to_idle cf \<noteq> None \<or> has_valid_after s then
                do { s \<leftarrow> remove_expired_ao cf Window batch_size now s;
                     s \<leftarrow> remove_expired_ao cf MainProbation batch_size now s;
                     remove_expired_ao cf MainProtected batch_size now s }
              else Some s })"

section \<open>Entries that exceed the capacity\<close>

fun evict_lru_loop ::
  "nat \<Rightarrow> u64 \<Rightarrow> u64 \<Rightarrow> bool \<Rightarrow> ('k, 'v) maint \<Rightarrow> (('k, 'v) maint \<times> bool) or_panic" where
  "evict_lru_loop 0 to_evict evicted more_to_evict s = Some (s, more_to_evict)"
| "evict_lru_loop (Suc n) to_evict evicted more_to_evict s =
     (if evicted \<ge> to_evict then Some (s, False)
      else do {
        (ao_deq, _) \<leftarrow> select_mut MainProbation (in_deques s);
        front \<leftarrow> front_info (in_store s) ao_deq;
        case front of
          None \<Rightarrow> Some (s, False)
        | Some info \<Rightarrow>
            (let key = kh_key (ei_key_hash info)
             in case (is_dirty info, last_accessed info) of
                  (False, Some ts) \<Rightarrow>
                    do { (s', more_to_evict, removed) \<leftarrow>
                           remove_front key CauseSize
                             (\<lambda>e. last_accessed (info_of (in_store s) e) = Some ts)
                             (handle_remove_with_deques MainProbation)
                             (skip_updated_entry_ao key MainProbation) more_to_evict s;
                         let evicted = (case removed of
                                Some e \<Rightarrow> sat_add evicted (ucast (ve_policy_weight (in_store s) e))
                              | None \<Rightarrow> evicted);
                         evict_lru_loop n to_evict evicted more_to_evict s' }
                | _ \<Rightarrow>
                    do { s \<leftarrow> skip_updated_entry_ao key MainProbation s;
                         evict_lru_loop n to_evict evicted False s }) })"

definition evict_lru_entries ::
  "u32 \<Rightarrow> u64 \<Rightarrow> ('k, 'v) maint \<Rightarrow> ('k, 'v) maint or_panic" where
  "evict_lru_entries batch_size to_evict s =
     do { (s, more_to_evict) \<leftarrow> evict_lru_loop (unat batch_size) to_evict 0 True s;
          Some (if more_to_evict then s\<lparr>es_more_entries_to_evict := True\<rparr> else s) }"

section \<open>Invalidation predicates\<close>

definition iv_apply ::
  "('k, 'v) predicate list \<Rightarrow> 'k \<Rightarrow> instant \<Rightarrow> ('k, 'v, 'z) inner_scheme \<Rightarrow> bool" where
  "iv_apply preds key ts s =
     (case in_cache s key of
        Some e \<Rightarrow>
          (case last_modified (info_of (in_store s) e) of
             Some lm \<Rightarrow> if lm = ts then do_apply_predicates preds key (ve_value e) lm else False
           | None \<Rightarrow> False)
      | None \<Rightarrow> False)"

definition iv_invalidate ::
  "'k \<Rightarrow> instant \<Rightarrow> ('k, 'v, 'z) inner_scheme \<Rightarrow> ('k, 'v, 'z) inner_scheme \<times> 'v value_entry option" where
  "iv_invalidate key ts s =
     (let (s, removed) = cht_remove_if_and_retire key
            (\<lambda>e. case last_modified (info_of (in_store s) e) of Some lm \<Rightarrow> lm = ts | None \<Rightarrow> False) s
      in (case removed of
            Some e \<Rightarrow> if is_removal_notifier_enabled s then notify_single_removal key e CauseExplicit s else s
          | None \<Rightarrow> s, removed))"

fun scan_candidates ::
  "('k, 'v) predicate list \<Rightarrow> 'k key_date_lite list \<Rightarrow> ('k, 'v, 'z) inner_scheme \<Rightarrow>
    ('k, 'v, 'z) inner_scheme \<times> ('k, 'v) kv_entry list" where
  "scan_candidates preds [] s = (s, [])"
| "scan_candidates preds (c # cs) s =
     (if iv_apply preds (kd_key c) (kd_timestamp c) s then
        let (s, removed) = iv_invalidate (kd_key c) (kd_timestamp c) s;
            (s, invalidated) = scan_candidates preds cs s
        in (s, (case removed of Some e \<Rightarrow> [\<lparr>kv_key = kd_key c, kv_entry = e\<rparr>] | None \<Rightarrow> []) @ invalidated)
      else scan_candidates preds cs s)"

definition scan_and_invalidate ::
  "('k, 'v) invalidator \<Rightarrow> 'k key_date_lite list \<Rightarrow> bool \<Rightarrow> ('k, 'v, 'z) inner_scheme \<Rightarrow>
    (('k, 'v, 'z) inner_scheme \<times> ('k, 'v) invalidator \<times> ('k, 'v) kv_entry list \<times> bool) or_panic" where
  "scan_and_invalidate iv candidates is_truncated s =
     (let preds = (if iv_scan_context iv = [] then map snd (iv_predicates iv) else iv_scan_context iv);
          iv = iv\<lparr>iv_scan_context := preds\<rparr>;
          (s, invalidated) = scan_candidates preds candidates s;
          newest_timestamp = (if candidates = [] then None else Some (kd_timestamp (last candidates)))
      in do { iv \<leftarrow> remove_finished_predicates is_truncated newest_timestamp iv;
              Some (s, iv, invalidated, iv_predicates iv = []) })"

text \<open>The loop that collects the candidates of a batch: up to \<open>room\<close> clean entries from the
  cursor of the write-order deque on.\<close>

partial_function (option) collect_candidates ::
  "('k, 'v) config \<Rightarrow> 'k store \<Rightarrow> nat \<Rightarrow> adeq \<Rightarrow> 'k key_date_lite list \<Rightarrow>
    (adeq \<times> 'k key_date_lite list) or_panic" where
  "collect_candidates cf st room q cs =
     (if room = 0 then Some (q, cs)
      else let (q, elem) = ad_next q
           in case elem of
                None \<Rightarrow> Some (q, cs)
              | Some a \<Rightarrow>
                  do { i \<leftarrow> st_khds st a;
                       let info = st_infos st i;
                       if \<not> is_dirty info then
                         (case last_modified info of
                            Some ts \<Rightarrow>
                              (let key = kh_key (ei_key_hash info)
                               in collect_candidates cf st (room - 1) q
                                    (cs @ [\<lparr>kd_key = key, kd_hash = cf_hash cf key, kd_timestamp = ts\<rparr>]))
                          | None \<Rightarrow> collect_candidates cf st room q cs)
                       else collect_candidates cf st room q cs })"

text \<open>\<open>iter.peek()\<close> takes the next element out of the deque's own cursor.\<close>

definition invalidate_entries ::
  "('k, 'v) config \<Rightarrow> ('k, 'v) invalidator \<Rightarrow> u32 \<Rightarrow> ('k, 'v) maint \<Rightarrow> ('k, 'v) maint or_panic" where
  "invalidate_entries cf iv batch_size s =
     (let (s, now) = current_time cf s;
          q = dqs_write_order (in_deques s)
      in if ad_len q = 0 then
           Some (s\<lparr>in_invalidator := Some (remove_predicates_registered_before now iv)\<rparr>)
         else do {
           (q, candidates) \<leftarrow> collect_candidates cf (in_store s) (unat batch_size) q [];
           let (q, peeked) = ad_next q;
           let has_next = (peeked \<noteq> None);
           let s = s\<lparr>in_deques := (in_deques s)\<lparr>dqs_write_order := q\<rparr>\<rparr>;
           let n = length candidates;
           if n = 0 then Some s
           else do {
             let is_truncated = (n = unat batch_size \<and> has_next);
             (s, iv, invalidated, is_done) \<leftarrow> scan_and_invalidate iv candidates is_truncated s;
             let s = s\<lparr>in_invalidator := Some iv\<rparr>;
             s \<leftarrow> mfold (\<lambda>kv. handle_remove (kv_entry kv) None) invalidated s;
             let s = (if is_done
                      then s\<lparr>in_deques := (in_deques s)\<lparr>dqs_write_order := ad_reset_cursor (dqs_write_order (in_deques s))\<rparr>\<rparr>
                      else s);
             Some (if \<not> iv_is_empty iv then s\<lparr>es_more_entries_to_evict := True\<rparr> else s) } })"

section \<open>A maintenance run\<close>

definition apply_logs :: "('k, 'v) config \<Rightarrow> ('k, 'v) maint \<Rightarrow> ('k, 'v) maint or_panic" where
  "apply_logs cf s =
     do { let r_len = length (in_read_op_ch s);
          s \<leftarrow> (if r_len > 0 then apply_reads r_len s else Some s);
          let w_len = length (in_write_op_ch s);
          s \<leftarrow> (if w_len > 0 then apply_writes cf w_len s else Some s);
          Some (if cf_eviction_policy cf = TinyLfu \<and> should_enable_frequency_sketch cf (es_counters s) s
                then enable_frequency_sketch cf (es_counters s) s else s) }"

definition evict_round :: "('k, 'v) config \<Rightarrow> u32 \<Rightarrow> ('k, 'v) maint \<Rightarrow> ('k, 'v) maint or_panic" where
  "evict_round cf batch_size s =
     do { let s = s\<lparr>es_more_entries_to_evict := False\<rparr>;
          s \<leftarrow> (if tw_is_enabled (in_timer_wheel s) then evict_expired_entries_using_timers cf s else Some s);
          s \<leftarrow> (if has_expiry cf \<or> has_valid_after s
                then evict_expired_entries_using_deqs cf batch_size s else Some s);
          s \<leftarrow> (case in_invalidator s of
                  Some iv \<Rightarrow> if \<not> iv_is_empty iv then invalidate_entries cf iv batch_size s else Some s
                | None \<Rightarrow> Some s);
          let to_evict = weights_to_evict cf (es_counters s);
          if to_evict > 0 then evict_lru_entries batch_size to_evict s else Some s }"

definition timeout_reached ::
  "('k, 'v) config \<Rightarrow> duration option \<Rightarrow> instant option \<Rightarrow> ('k, 'v) maint \<Rightarrow> ('k, 'v) maint \<times> bool" where
  "timeout_reached cf timeout started_at s =
     (case (timeout, started_at) of
        (Some t, Some started) \<Rightarrow>
          (let (s, now) = current_time cf s in (s, saturating_duration_since now started \<ge> t))
      | _ \<Rightarrow> (s, False))"

partial_function (option) run_loop ::
  "('k, 'v) config \<Rightarrow> duration option \<Rightarrow> instant option \<Rightarrow> u32 \<Rightarrow> u32 \<Rightarrow> bool \<Rightarrow> u32 \<Rightarrow> ('k, 'v) maint \<Rightarrow>
    ('k, 'v) maint or_panic" where
  "run_loop cf timeout started_at max_log_sync_repeats batch_size should_process_logs n_calls s =
     do { s \<leftarrow> (if should_process_logs then apply_logs cf s else Some s);
          let n_calls = (if should_process_logs then n_calls + 1 else n_calls);
          let last_eviction_count = ec_eviction_count (es_counters s);
          s \<leftarrow> evict_round cf batch_size s;
          let should_process_logs =
            (n_calls \<le> max_log_sync_repeats \<and>
               (length (in_read_op_ch s) \<ge> READ_LOG_FLUSH_POINT \<or>
                length (in_write_op_ch s) \<ge> WRITE_LOG_FLUSH_POINT));
          let should_evict_more_entries =
            (es_more_entries_to_evict s \<and> ec_eviction_count (es_counters s) - last_eviction_count > 0);
          if \<not> should_process_logs \<and> \<not> should_evict_more_entries then Some s
          else (let (s, reached) = timeout_reached cf timeout started_at s
                in if reached then Some s
                   else run_loop cf timeout started_at max_log_sync_repeats batch_size should_process_logs n_calls s) }"

definition do_run_pending_tasks ::
  "('k, 'v) config \<Rightarrow> duration option \<Rightarrow> u32 \<Rightarrow> u32 \<Rightarrow> ('k, 'v) inner \<Rightarrow> (('k, 'v) inner \<times> bool) or_panic" where
  "do_run_pending_tasks cf timeout max_log_sync_repeats batch_size s =
     (if cf_max_capacity cf = Some 0 then Some (s, False)
      else do {
        let (s, started_at) =
          (if timeout \<noteq> None then let (s, now) = current_time cf s in (s, Some now) else (s, None));
        s \<leftarrow> run_loop cf timeout started_at max_log_sync_repeats batch_size True 0 (eviction_state_new s);
        Some (inner.truncate
                (s\<lparr>in_entry_count := ec_entry_count (es_counters s),
                   in_weighted_size := ec_weighted_size (es_counters s)\<rparr>),
              es_more_entries_to_evict s) })"

end
