(* ===== verification/Sync_Cache.thy ===== *)
theory Sync_Cache
  imports Base_Cache
begin

text \<open>
  The operations that user threads call: \<open>BaseCache\<close> (\<open>src/src/sync/base_cache.rs\<close>), \<open>Cache\<close>
  (\<open>src/src/sync/cache.rs\<close>) and \<open>Entry\<close> (\<open>src/src/common/entry.rs\<close>).

  An operation that changes the hash table has two steps. The first one changes the table and
  yields a write operation; the second one sends it to the channel. Other threads run between
  the two, so the operations may reach the channel in another order.
\<close>

section \<open>Data\<close>

record ('k, 'v) entry =
  en_key :: "'k option"
  en_value :: 'v
  en_is_fresh :: bool
  en_is_old_value_replaced :: bool

text \<open>\<open>Entry::key\<close> panics when the entry was made without its key.\<close>

definition entry_key :: "('k, 'v) entry \<Rightarrow> 'k or_panic" where
  "entry_key e = en_key e"

record ('k, 'v) base_cache =
  bc_inner :: "('k, 'v) inner"
  bc_housekeeper :: "housekeeper option"

definition ch_sizes :: "('k, 'v) config \<Rightarrow> nat \<times> nat" where
  "ch_sizes cf = (if cf_max_capacity cf = Some 0 then (0, 0) else (READ_LOG_CH_SIZE, WRITE_LOG_CH_SIZE))"

text \<open>\<open>BaseCache::new\<close>; the clock is read first for the housekeeper and then for the timer wheel.\<close>

definition base_cache_new ::
  "'k key_hash \<Rightarrow> ('k, 'v) config \<Rightarrow> ('k \<Rightarrow> 'v \<Rightarrow> removal_cause \<Rightarrow> bool) option \<Rightarrow> housekeeper_config \<Rightarrow> bool \<Rightarrow>
    ('k, 'v) base_cache" where
  "base_cache_new kh cf eviction_listener housekeeper_config invalidator_enabled =
     (let fast_now = cf_fast_now cf 0;
          inner = inner_new kh cf eviction_listener invalidator_enabled 0
      in \<lparr>bc_inner = inner,
          bc_housekeeper = Some (housekeeper_new (eviction_listener \<noteq> None) housekeeper_config fast_now)\<rparr>)"

definition is_map_disabled :: "('k, 'v) config \<Rightarrow> bool" where
  "is_map_disabled cf \<longleftrightarrow> cf_max_capacity cf = Some 0"

section \<open>Maintenance by user threads\<close>

text \<open>\<open>Housekeeper::do_run_pending_tasks\<close> on the cache: it reads the cache's clock first.\<close>

definition bc_run_pending_tasks ::
  "('k, 'v) config \<Rightarrow> housekeeper \<Rightarrow> ('k, 'v) base_cache \<Rightarrow> ('k, 'v) base_cache or_panic" where
  "bc_run_pending_tasks cf hk bc =
     (let (s, now) = current_time cf (bc_inner bc)
      in do { (hk, s) \<leftarrow> hk_do_run_pending_tasks (do_run_pending_tasks cf) now hk s;
              Some (bc\<lparr>bc_inner := s, bc_housekeeper := Some hk\<rparr>) })"

definition bc_try_run_pending_tasks ::
  "('k, 'v) config \<Rightarrow> housekeeper \<Rightarrow> ('k, 'v) base_cache \<Rightarrow> ('k, 'v) base_cache or_panic" where
  "bc_try_run_pending_tasks cf hk bc = (if hk_run_lock hk then Some bc else bc_run_pending_tasks cf hk bc)"

definition apply_reads_if_needed ::
  "('k, 'v) config \<Rightarrow> instant \<Rightarrow> ('k, 'v) base_cache \<Rightarrow> ('k, 'v) base_cache or_panic" where
  "apply_reads_if_needed cf now bc =
     (case bc_housekeeper bc of
        Some hk \<Rightarrow>
          do { due \<leftarrow> should_apply_reads hk (length (in_read_op_ch (bc_inner bc))) now;
               if due then bc_try_run_pending_tasks cf hk bc else Some bc }
      | None \<Rightarrow> Some bc)"

definition apply_reads_writes_if_needed ::
  "('k, 'v) config \<Rightarrow> instant \<Rightarrow> ('k, 'v) base_cache \<Rightarrow> ('k, 'v) base_cache or_panic" where
  "apply_reads_writes_if_needed cf now bc =
     (case bc_housekeeper bc of
        Some hk \<Rightarrow>
          do { due \<leftarrow> should_apply_writes hk (length (in_write_op_ch (bc_inner bc))) now;
               if due then bc_try_run_pending_tasks cf hk bc else Some bc }
      | None \<Rightarrow> Some bc)"

text \<open>\<open>Cache::run_pending_tasks\<close>.\<close>

definition run_pending_tasks ::
  "('k, 'v) config \<Rightarrow> ('k, 'v) base_cache \<Rightarrow> ('k, 'v) base_cache or_panic" where
  "run_pending_tasks cf bc =
     (case bc_housekeeper bc of Some hk \<Rightarrow> bc_run_pending_tasks cf hk bc | None \<Rightarrow> Some bc)"

section \<open>Sending operations\<close>

text \<open>\<open>record_read_op\<close>: a full channel discards the operation.\<close>

definition record_read_op ::
  "('k, 'v) config \<Rightarrow> 'v read_op \<Rightarrow> instant \<Rightarrow> ('k, 'v) base_cache \<Rightarrow> ('k, 'v) base_cache or_panic" where
  "record_read_op cf op now bc =
     do { bc \<leftarrow> apply_reads_if_needed cf now bc;
          let s = bc_inner bc;
          Some (if length (in_read_op_ch s) < fst (ch_sizes cf)
                then bc\<lparr>bc_inner := s\<lparr>in_read_op_ch := in_read_op_ch s @ [op]\<rparr>\<rparr>
                else bc) }"

text \<open>\<open>schedule_write_op\<close>: repeat until the channel has room.\<close>

partial_function (option) schedule_write_op ::
  "('k, 'v) config \<Rightarrow> ('k, 'v) write_op \<Rightarrow> instant \<Rightarrow> ('k, 'v) base_cache \<Rightarrow> ('k, 'v) base_cache or_panic" where
  "schedule_write_op cf op now bc =
     do { bc \<leftarrow> apply_reads_writes_if_needed cf now bc;
          let s = bc_inner bc;
          if length (in_write_op_ch s) < snd (ch_sizes cf)
          then Some (bc\<lparr>bc_inner := s\<lparr>in_write_op_ch := in_write_op_ch s @ [op]\<rparr>\<rparr>)
          else schedule_write_op cf op now bc }"

section \<open>Reading\<close>

definition is_live_entry ::
  "('k, 'v) config \<Rightarrow> 'k \<Rightarrow> 'v value_entry \<Rightarrow> instant \<Rightarrow> ('k, 'v) inner \<Rightarrow> bool" where
  "is_live_entry cf key e now s \<longleftrightarrow>
     (let info = info_of (in_store s) e
      in \<not> is_expired_by_per_entry_ttl info now \<and>
         \<not> is_expired_entry_wo (time_to_live cf) (valid_after s) info now \<and>
         \<not> is_expired_entry_ao (time_to_idle cf) (valid_after s) info now \<and>
         \<not> is_invalidated_entry key e s)"

definition contains_key_with_hash ::
  "('k, 'v) config \<Rightarrow> 'k \<Rightarrow> ('k, 'v) base_cache \<Rightarrow> ('k, 'v) base_cache \<times> bool" where
  "contains_key_with_hash cf key bc =
     (case in_cache (bc_inner bc) key of
        Some e \<Rightarrow>
          (let (s, now) = current_time cf (bc_inner bc)
           in (bc\<lparr>bc_inner := s\<rparr>, is_live_entry cf key e now s))
      | None \<Rightarrow> (bc, False))"

definition scanning_get ::
  "('k, 'v) config \<Rightarrow> 'k \<Rightarrow> ('k, 'v) base_cache \<Rightarrow> ('k, 'v) base_cache \<times> 'v option" where
  "scanning_get cf key bc =
     (case in_cache (bc_inner bc) key of
        Some e \<Rightarrow>
          (let (s, now) = current_time cf (bc_inner bc)
           in (bc\<lparr>bc_inner := s\<rparr>, if is_live_entry cf key e now s then Some (ve_value e) else None))
      | None \<Rightarrow> (bc, None))"

definition get_key_with_hash :: "'k \<Rightarrow> ('k, 'v) base_cache \<Rightarrow> 'k option" where
  "get_key_with_hash key bc = map_option (\<lambda>_. key) (in_cache (bc_inner bc) key)"

definition expire_after_create ::
  "('k, 'v) expiry \<Rightarrow> 'k \<Rightarrow> 'v value_entry \<Rightarrow> instant \<Rightarrow> 'k store \<Rightarrow> 'k store" where
  "expire_after_create expiry key e ts st =
     (let duration = ex_after_create expiry key (ve_value e) ts;
          expiration_time = map_option (saturating_add ts) duration
      in upd_info (ve_info e) (\<lambda>i. fst (set_expiration_time expiration_time i)) st)"

fun min_instant :: "instant option \<Rightarrow> instant option \<Rightarrow> instant option" where
  "min_instant None y = y"
| "min_instant x None = x"
| "min_instant (Some x) (Some y) = Some (min x y)"

definition expire_after_read_or_update ::
  "('k \<Rightarrow> 'v \<Rightarrow> instant \<Rightarrow> duration option \<Rightarrow> duration option) \<Rightarrow> 'k \<Rightarrow> 'v value_entry \<Rightarrow>
    duration option \<Rightarrow> duration option \<Rightarrow> instant \<Rightarrow> 'k store \<Rightarrow> 'k store \<times> bool" where
  "expire_after_read_or_update expiry key e ttl tti ts st =
     (let ei = info_of st e;
          exp_time =
            min_instant (fst (expiration_state ei))
              (min_instant
                 (Option.bind ttl (\<lambda>dur. map_option (\<lambda>t. saturating_add t dur) (last_modified ei)))
                 (Option.bind tti (\<lambda>dur. map_option (\<lambda>t. saturating_add t dur) (last_accessed ei))));
          current_duration = map_option (\<lambda>t. saturating_duration_since t ts) exp_time;
          duration = expiry key (ve_value e) ts current_duration
      in if duration \<noteq> current_duration then
           (upd_info (ve_info e)
              (\<lambda>i. fst (set_expiration_time (map_option (saturating_add ts) duration) i)) st, True)
         else (st, False))"

definition do_get_with_hash ::
  "('k, 'v) config \<Rightarrow> ('v read_op \<Rightarrow> instant \<Rightarrow> ('k, 'v) base_cache \<Rightarrow> ('k, 'v) base_cache or_panic) \<Rightarrow>
    ('v \<Rightarrow> bool) option \<Rightarrow> bool \<Rightarrow> 'k \<Rightarrow> u64 \<Rightarrow> ('k, 'v) base_cache \<Rightarrow>
    (('k, 'v) base_cache \<times> ('k, 'v) entry option) or_panic" where
  "do_get_with_hash cf read_recorder ignore_if need_key key hash bc =
     (if is_map_disabled cf then Some (bc, None)
      else
        (let (s, now) = current_time cf (bc_inner bc);
             maybe_entry =
               (case in_cache s key of
                  None \<Rightarrow> None
                | Some e \<Rightarrow>
                    if (case ignore_if of Some f \<Rightarrow> f (ve_value e) | None \<Rightarrow> False) then None
                    else if \<not> is_live_entry cf key e now s then None
                    else Some (if need_key then Some key else None, e))
         in case maybe_entry of
              Some (maybe_key, e) \<Rightarrow>
                do { (st, now, is_expiry_modified) \<leftarrow>
                       (case xp_expiry (cf_expiration_policy cf) of
                          Some expiry \<Rightarrow>
                            do { lm \<leftarrow> last_modified (info_of (in_store s) e);
                                 let now = max now lm;
                                 let (st, modified) =
                                   expire_after_read_or_update (\<lambda>k v t d. ex_after_read expiry k v t d lm)
                                     (kh_key (ei_key_hash (info_of (in_store s) e))) e
                                     (time_to_live cf) (time_to_idle cf) now (in_store s);
                                 Some (st, now, modified) }
                        | None \<Rightarrow> Some (in_store s, now, False));
                     let st = upd_info (ve_info e) (set_last_accessed now) st;
                     bc \<leftarrow> read_recorder (Hit e is_expiry_modified) now (bc\<lparr>bc_inner := s\<lparr>in_store := st\<rparr>\<rparr>);
                     Some (bc, Some \<lparr>en_key = maybe_key, en_value = ve_value e, en_is_fresh = False,
                                     en_is_old_value_replaced = False\<rparr>) }
            | None \<Rightarrow>
                do { bc \<leftarrow> read_recorder (Miss hash) now (bc\<lparr>bc_inner := s\<rparr>);
                     Some (bc, None) }))"

definition get_with_hash ::
  "('k, 'v) config \<Rightarrow> bool \<Rightarrow> 'k \<Rightarrow> u64 \<Rightarrow> ('k, 'v) base_cache \<Rightarrow>
    (('k, 'v) base_cache \<times> ('k, 'v) entry option) or_panic" where
  "get_with_hash cf need_key key hash bc = do_get_with_hash cf (record_read_op cf) None need_key key hash bc"

definition get_with_hash_and_ignore_if ::
  "('k, 'v) config \<Rightarrow> ('v \<Rightarrow> bool) option \<Rightarrow> bool \<Rightarrow> 'k \<Rightarrow> u64 \<Rightarrow> ('k, 'v) base_cache \<Rightarrow>
    (('k, 'v) base_cache \<times> ('k, 'v) entry option) or_panic" where
  "get_with_hash_and_ignore_if cf ignore_if need_key key hash bc =
     do_get_with_hash cf (record_read_op cf) ignore_if need_key key hash bc"

definition get_with_hash_without_recording ::
  "('k, 'v) config \<Rightarrow> ('v \<Rightarrow> bool) option \<Rightarrow> 'k \<Rightarrow> u64 \<Rightarrow> ('k, 'v) base_cache \<Rightarrow>
    (('k, 'v) base_cache \<times> 'v option) or_panic" where
  "get_with_hash_without_recording cf ignore_if key hash bc =
     do { (bc, e) \<leftarrow> do_get_with_hash cf (\<lambda>op now bc. Some bc) ignore_if False key hash bc;
          Some (bc, map_option en_value e) }"

text \<open>\<open>Cache::get\<close> and \<open>Cache::contains_key\<close>.\<close>

definition get ::
  "('k, 'v) config \<Rightarrow> 'k \<Rightarrow> ('k, 'v) base_cache \<Rightarrow> (('k, 'v) base_cache \<times> 'v option) or_panic" where
  "get cf key bc =
     do { (bc, e) \<leftarrow> get_with_hash cf False key (cf_hash cf key) bc; Some (bc, map_option en_value e) }"

definition contains_key ::
  "('k, 'v) config \<Rightarrow> 'k \<Rightarrow> ('k, 'v) base_cache \<Rightarrow> ('k, 'v) base_cache \<times> bool" where
  "contains_key cf key bc = contains_key_with_hash cf key bc"

section \<open>Writing\<close>

definition new_value_entry ::
  "'k \<Rightarrow> u64 \<Rightarrow> 'v \<Rightarrow> instant \<Rightarrow> u32 \<Rightarrow> 'k store \<Rightarrow> 'k store \<times> 'v value_entry \<times> u16" where
  "new_value_entry key hash value timestamp weight st =
     (let info = entry_info_new \<lparr>kh_key = key, kh_hash = hash\<rparr> timestamp weight;
          (st, i) = alloc_info info st;
          gen = ei_entry_gen info;
          (st, e) = value_entry_new value i st
      in (st, e, gen))"

definition new_value_entry_from ::
  "'v \<Rightarrow> instant \<Rightarrow> u32 \<Rightarrow> 'v value_entry \<Rightarrow> 'k store \<Rightarrow> 'k store \<times> 'v value_entry \<times> u16" where
  "new_value_entry_from value timestamp weight other st =
     (let i = ve_info other;
          (info, gen) = incr_entry_gen (st_infos st i);
          info = set_policy_weight weight (set_last_modified timestamp (set_last_accessed timestamp info))
      in (upd_info i (\<lambda>_. info) st, value_entry_new_from value i other, gen))"

definition do_post_insert_steps ::
  "('k, 'v) config \<Rightarrow> instant \<Rightarrow> 'k \<Rightarrow> 'v value_entry \<Rightarrow> ('k, 'v) inner \<Rightarrow> ('k, 'v) inner" where
  "do_post_insert_steps cf ts key e s =
     (case xp_expiry (cf_expiration_policy cf) of
        Some expiry \<Rightarrow> s\<lparr>in_store := expire_after_create expiry key e ts (in_store s)\<rparr>
      | None \<Rightarrow> s)"

definition do_post_update_steps ::
  "('k, 'v) config \<Rightarrow> instant \<Rightarrow> 'k \<Rightarrow> 'v old_entry_info \<Rightarrow> 'v value_entry \<Rightarrow> ('k, 'v) inner \<Rightarrow> ('k, 'v) inner" where
  "do_post_update_steps cf ts key old_info e s =
     (let s = (case xp_expiry (cf_expiration_policy cf) of
                 Some expiry \<Rightarrow>
                   (let old_expired =
                          (case fst (expiration_state (info_of (in_store s) (oe_entry old_info))) of
                             Some exp_time \<Rightarrow> exp_time \<le> ts
                           | None \<Rightarrow> False)
                    in if old_expired then s\<lparr>in_store := expire_after_create expiry key e ts (in_store s)\<rparr>
                       else s\<lparr>in_store :=
                                fst (expire_after_read_or_update (ex_after_update expiry) key e
                                  (time_to_live cf) (time_to_idle cf) ts (in_store s))\<rparr>)
               | None \<Rightarrow> s)
      in if is_removal_notifier_enabled s then notify_upsert cf key old_info s else s)"

text \<open>\<open>do_insert_with_hash\<close>: the hash table calls exactly one of the two closures, once, on the
  attempt that succeeds.\<close>

definition do_insert_with_hash ::
  "('k, 'v) config \<Rightarrow> 'k \<Rightarrow> u64 \<Rightarrow> 'v \<Rightarrow> ('k, 'v) inner \<Rightarrow> ('k, 'v) inner \<times> ('k, 'v) write_op \<times> instant" where
  "do_insert_with_hash cf key hash value s =
     (let weight = weigh cf key value;
          (s, ts) = current_time cf s
      in case in_cache s key of
           None \<Rightarrow>
             (let (st, e, gen) = new_value_entry key hash value ts weight (in_store s);
                  ins_op = new_upsert key hash e gen 0 weight;
                  s = s\<lparr>in_store := st, in_cache := (in_cache s)(key \<mapsto> e)\<rparr>
              in (do_post_insert_steps cf ts key e s, ins_op, ts))
         | Some old_entry \<Rightarrow>
             (let old_weight = ve_policy_weight (in_store s) old_entry;
                  old_info = old_entry_info_new (in_store s) old_entry;
                  (st, e, gen) = new_value_entry_from value ts weight old_entry (in_store s);
                  upd_op = new_upsert key hash e gen old_weight weight;
                  s = s\<lparr>in_store := st, in_cache := (in_cache s)(key \<mapsto> e)\<rparr>
              in (do_post_update_steps cf ts key old_info e s, upd_op, ts)))"

definition insert_with_hash ::
  "('k, 'v) config \<Rightarrow> 'k \<Rightarrow> u64 \<Rightarrow> 'v \<Rightarrow> ('k, 'v) base_cache \<Rightarrow> ('k, 'v) base_cache or_panic" where
  "insert_with_hash cf key hash value bc =
     (if is_map_disabled cf then Some bc
      else (let (s, op, now) = do_insert_with_hash cf key hash value (bc_inner bc)
            in schedule_write_op cf op now (bc\<lparr>bc_inner := s\<rparr>)))"

definition cache_insert ::
  "('k, 'v) config \<Rightarrow> 'k \<Rightarrow> 'v \<Rightarrow> ('k, 'v) base_cache \<Rightarrow> ('k, 'v) base_cache or_panic" where
  "cache_insert cf key value bc = insert_with_hash cf key (cf_hash cf key) value bc"

text \<open>\<open>invalidate_with_hash\<close> up to its write operation: remove and retire the entry, make it
  dirty, notify.\<close>

definition begin_invalidate ::
  "('k, 'v) config \<Rightarrow> 'k \<Rightarrow> ('k, 'v) inner \<Rightarrow>
    ('k, 'v) inner \<times> (('k, 'v) kv_entry \<times> ('k, 'v) write_op \<times> instant) option" where
  "begin_invalidate cf key s =
     (let (s, removed) = remove_entry key s
      in case removed of
           None \<Rightarrow> (s, None)
         | Some kv \<Rightarrow>
             (let (s, now) = current_time cf s;
                  (info, entry_gen) = incr_entry_gen (info_of (in_store s) (kv_entry kv));
                  s = s\<lparr>in_store := upd_info (ve_info (kv_entry kv)) (\<lambda>_. info) (in_store s)\<rparr>;
                  s = (if is_removal_notifier_enabled s
                       then notify_invalidate cf (kv_key kv) (kv_entry kv) s else s)
              in (s, Some (kv, Remove kv entry_gen, now))))"

definition invalidate_with_hash ::
  "('k, 'v) config \<Rightarrow> 'k \<Rightarrow> u64 \<Rightarrow> bool \<Rightarrow> ('k, 'v) base_cache \<Rightarrow>
    (('k, 'v) base_cache \<times> 'v option) or_panic" where
  "invalidate_with_hash cf key hash need_value bc =
     (let (s, r) = begin_invalidate cf key (bc_inner bc); bc = bc\<lparr>bc_inner := s\<rparr>
      in case r of
           None \<Rightarrow> Some (bc, None)
         | Some (kv, op, now) \<Rightarrow>
             do { let maybe_v = (if need_value then Some (ve_value (kv_entry kv)) else None);
                  bc \<leftarrow> schedule_write_op cf op now bc;
                  Some (bc, maybe_v) })"

definition invalidate ::
  "('k, 'v) config \<Rightarrow> 'k \<Rightarrow> ('k, 'v) base_cache \<Rightarrow> ('k, 'v) base_cache or_panic" where
  "invalidate cf key bc = do { (bc, _) \<leftarrow> invalidate_with_hash cf key (cf_hash cf key) False bc; Some bc }"

definition cache_remove ::
  "('k, 'v) config \<Rightarrow> 'k \<Rightarrow> ('k, 'v) base_cache \<Rightarrow> (('k, 'v) base_cache \<times> 'v option) or_panic" where
  "cache_remove cf key bc = invalidate_with_hash cf key (cf_hash cf key) True bc"

definition invalidate_all :: "('k, 'v) config \<Rightarrow> ('k, 'v) base_cache \<Rightarrow> ('k, 'v) base_cache" where
  "invalidate_all cf bc =
     (let (s, now) = current_time cf (bc_inner bc) in bc\<lparr>bc_inner := set_valid_after now s\<rparr>)"

definition invalidate_entries_if ::
  "('k, 'v) config \<Rightarrow> (nat \<Rightarrow> string) \<Rightarrow> ('k \<Rightarrow> 'v \<Rightarrow> bool) \<Rightarrow> ('k, 'v) base_cache \<Rightarrow>
    (('k, 'v) base_cache \<times> (predicate_error + string)) or_panic" where
  "invalidate_entries_if cf uuid predicate bc =
     (let (s, now) = current_time cf (bc_inner bc)
      in do { (s, r) \<leftarrow> register_invalidation_predicate uuid predicate now s;
              Some (bc\<lparr>bc_inner := s\<rparr>, r) })"

end
