(* ===== verification/Value_Initializer.thy ===== *)
theory Value_Initializer
  imports Sync_Cache
begin

text \<open>
  Computing missing values: \<open>ValueInitializer\<close> (\<open>src/src/sync/value_initializer.rs\<close>), the
  operations of \<open>src/src/ops.rs\<close>, and the functions of \<open>src/src/sync/cache.rs\<close> and
  \<open>src/src/sync/entry_selector.rs\<close> that call them.

  Threads that compute a value for the same key meet at a waiter, a lock that the computing thread
  holds for writing until it has a result. Every thread makes one waiter, which has the thread's
  number. A thread is a small machine; a step is what it does up to its next access to the map of
  waiters, to a lock, to the cache, or to a closure of the caller. A closure of the caller is
  the value that it returns, \<open>None\<close> when it panics.
\<close>

section \<open>Data\<close>

text \<open>The type identifiers that the source asks for; \<open>TypeErr\<close> are the error types of the callers
  other than \<open>()\<close>.\<close>

datatype type_id = TypeUnit | TypeOptionallyNone | TypeArcOptionallyNone | TypeComputeNone | TypeErr nat

record 'e error_object =
  eo_type :: type_id
  eo_error :: 'e

definition downcast :: "type_id \<Rightarrow> 'e error_object \<Rightarrow> 'e or_panic" where
  "downcast t e = (if eo_type e = t then Some (eo_error e) else None)"

datatype ('v, 'e) waiter_value =
    Computing
  | Ready "'e error_object + 'v"
  | ReadyNone
  | InitClosurePanicked

datatype ('v, 'e) init_result = Initialized 'v | ReadExisting 'v | InitErr 'e

type_synonym waiter_id = nat

record ('k, 'v, 'e) value_initializer =
  vi_waiters :: "('k \<times> type_id) \<rightharpoonup> waiter_id"
  vi_values :: "waiter_id \<Rightarrow> ('v, 'e) waiter_value"
  vi_locked :: "waiter_id \<Rightarrow> bool"

definition vi_with_hasher :: "('k, 'v, 'e) value_initializer" where
  "vi_with_hasher = \<lparr>vi_waiters = Map.empty, vi_values = (\<lambda>_. Computing), vi_locked = (\<lambda>_. False)\<rparr>"

definition try_insert_waiter ::
  "'k \<times> type_id \<Rightarrow> waiter_id \<Rightarrow> ('k, 'v, 'e) value_initializer \<Rightarrow>
    ('k, 'v, 'e) value_initializer \<times> waiter_id option" where
  "try_insert_waiter w_key w vi =
     (case vi_waiters vi w_key of
        None \<Rightarrow> (vi\<lparr>vi_waiters := (vi_waiters vi)(w_key \<mapsto> w)\<rparr>, None)
      | Some existing \<Rightarrow> (vi, Some existing))"

definition remove_waiter :: "'k \<times> type_id \<Rightarrow> ('k, 'v, 'e) value_initializer \<Rightarrow> ('k, 'v, 'e) value_initializer" where
  "remove_waiter w_key vi = vi\<lparr>vi_waiters := (vi_waiters vi)(w_key := None)\<rparr>"

definition set_waiter ::
  "waiter_id \<Rightarrow> ('v, 'e) waiter_value \<Rightarrow> ('k, 'v, 'e) value_initializer \<Rightarrow> ('k, 'v, 'e) value_initializer" where
  "set_waiter w x vi = vi\<lparr>vi_values := (vi_values vi)(w := x)\<rparr>"

text \<open>The lock of a new waiter is taken before the waiter is shared, and released when the call
  returns or panics.\<close>

definition new_waiter :: "waiter_id \<Rightarrow> ('k, 'v, 'e) value_initializer \<Rightarrow> ('k, 'v, 'e) value_initializer" where
  "new_waiter w vi = vi\<lparr>vi_values := (vi_values vi)(w := Computing), vi_locked := (vi_locked vi)(w := True)\<rparr>"

definition unlock_waiter :: "waiter_id \<Rightarrow> ('k, 'v, 'e) value_initializer \<Rightarrow> ('k, 'v, 'e) value_initializer" where
  "unlock_waiter w vi = vi\<lparr>vi_locked := (vi_locked vi)(w := False)\<rparr>"

section \<open>\<open>try_init_or_read\<close>\<close>

definition MAX_RETRIES :: nat where "MAX_RETRIES = 200"

text \<open>The arguments of a call. \<open>ic_init\<close> is what the closure \<open>init\<close> followed by \<open>post_init\<close> returns;
  \<open>ic_ignore_if\<close> is the argument of the closure \<open>get\<close>; \<open>ic_error_type\<close> is the type \<open>E\<close>.\<close>

record ('k, 'v, 'e) init_call =
  ic_key :: 'k
  ic_type_id :: type_id
  ic_error_type :: type_id
  ic_ignore_if :: "('v \<Rightarrow> bool) option"
  ic_init :: "('e + 'v) or_panic"

text \<open>Where a call is: at the head of the loop, waiting for another thread, with its waiter in the
  map and about to look into the cache, to call \<open>init\<close>, to insert the value, to publish the
  result, or about to drop its lock. A result of \<open>None\<close> is a panic.\<close>

datatype ('v, 'e) init_pc =
    InitStart nat
  | InitWait waiter_id nat
  | InitGet
  | InitEval
  | InitInsert 'v
  | InitFinish "('v, 'e) waiter_value" "('v, 'e) init_result or_panic"
  | InitUnlock "('v, 'e) init_result or_panic"
  | InitDone "('v, 'e) init_result or_panic"

fun read_waiter :: "type_id \<Rightarrow> nat \<Rightarrow> ('v, 'e) waiter_value \<Rightarrow> ('v, 'e) init_pc" where
  "read_waiter t retries (Ready (Inr v)) = InitUnlock (Some (ReadExisting v))"
| "read_waiter t retries (Ready (Inl e)) = InitUnlock (map_option InitErr (downcast t e))"
| "read_waiter t retries InitClosurePanicked =
     (let retries = retries + 1 in if retries < MAX_RETRIES then InitStart retries else InitUnlock None)"
| "read_waiter t retries Computing = InitUnlock None"
| "read_waiter t retries ReadyNone = InitUnlock None"

fun init_step ::
  "('c \<Rightarrow> ('c \<times> 'v option) or_panic) \<Rightarrow> ('v \<Rightarrow> 'c \<Rightarrow> 'c or_panic) \<Rightarrow> ('k, 'v, 'e) init_call \<Rightarrow> waiter_id \<Rightarrow>
    ('v, 'e) init_pc \<Rightarrow> ('k, 'v, 'e) value_initializer \<Rightarrow> 'c \<Rightarrow>
    (('v, 'e) init_pc \<times> ('k, 'v, 'e) value_initializer \<times> 'c) option" where
  "init_step get_v insert_v c w (InitStart retries) vi cache =
     (let (vi, existing) = try_insert_waiter (ic_key c, ic_type_id c) w vi
      in Some (case existing of None \<Rightarrow> InitGet | Some w' \<Rightarrow> InitWait w' retries, vi, cache))"
| "init_step get_v insert_v c w (InitWait w' retries) vi cache =
     (if vi_locked vi w' then None
      else Some (read_waiter (ic_error_type c) retries (vi_values vi w'), vi, cache))"
| "init_step get_v insert_v c w InitGet vi cache =
     Some (case get_v cache of
             Some (cache, Some v) \<Rightarrow> (InitFinish (Ready (Inr v)) (Some (ReadExisting v)), vi, cache)
           | Some (cache, None) \<Rightarrow> (InitEval, vi, cache)
           | None \<Rightarrow> (InitUnlock None, vi, cache))"
| "init_step get_v insert_v c w InitEval vi cache =
     Some (case ic_init c of
             Some (Inr v) \<Rightarrow> InitInsert v
           | Some (Inl e) \<Rightarrow>
               InitFinish (Ready (Inl \<lparr>eo_type = ic_error_type c, eo_error = e\<rparr>)) (Some (InitErr e))
           | None \<Rightarrow> InitFinish InitClosurePanicked None, vi, cache)"
| "init_step get_v insert_v c w (InitInsert v) vi cache =
     Some (case insert_v v cache of
             Some cache \<Rightarrow> (InitFinish (Ready (Inr v)) (Some (Initialized v)), vi, cache)
           | None \<Rightarrow> (InitUnlock None, vi, cache))"
| "init_step get_v insert_v c w (InitFinish x r) vi cache =
     Some (InitUnlock r, remove_waiter (ic_key c, ic_type_id c) (set_waiter w x vi), cache)"
| "init_step get_v insert_v c w (InitUnlock r) vi cache = Some (InitDone r, unlock_waiter w vi, cache)"
| "init_step get_v insert_v c w (InitDone r) vi cache = None"

section \<open>\<open>try_compute\<close>\<close>

datatype 'v comp_op = Nop | Put 'v | RemoveOp

datatype ('k, 'v) comp_result =
    StillNone 'k
  | Unchanged "('k, 'v) entry"
  | Inserted "('k, 'v) entry"
  | ReplacedWith "('k, 'v) entry"
  | Removed "('k, 'v) entry"

fun into_entry :: "('k, 'v) comp_result \<Rightarrow> ('k, 'v) entry option" where
  "into_entry (StillNone k) = None"
| "into_entry (Unchanged e) = Some e"
| "into_entry (Inserted e) = Some e"
| "into_entry (ReplacedWith e) = Some e"
| "into_entry (Removed e) = Some e"

fun comp_result_unwrap :: "('k, 'v) comp_result \<Rightarrow> ('k, 'v) entry or_panic" where
  "comp_result_unwrap (StillNone k) = None"
| "comp_result_unwrap (Unchanged e) = Some e"
| "comp_result_unwrap (Inserted e) = Some e"
| "comp_result_unwrap (ReplacedWith e) = Some e"
| "comp_result_unwrap (Removed e) = Some e"

text \<open>\<open>cc_f\<close> is the closure \<open>f\<close> followed by \<open>post_init\<close>.\<close>

record ('k, 'v, 'e) comp_call =
  cc_key :: 'k
  cc_f :: "('k, 'v) entry option \<Rightarrow> ('e + 'v comp_op) or_panic"
  cc_allow_nop :: bool

datatype ('k, 'v, 'e) comp_pc =
    CompStart
  | CompWait waiter_id
  | CompGet
  | CompEval "('k, 'v) entry option"
  | CompApply "'v comp_op" "('k, 'v) entry option"
  | CompFinish "('e + ('k, 'v) comp_result) or_panic"
  | CompUnlock "('e + ('k, 'v) comp_result) or_panic"
  | CompDone "('e + ('k, 'v) comp_result) or_panic"

definition entry_new :: "'k option \<Rightarrow> 'v \<Rightarrow> bool \<Rightarrow> bool \<Rightarrow> ('k, 'v) entry" where
  "entry_new key v is_fresh is_value_replaced =
     \<lparr>en_key = key, en_value = v, en_is_fresh = is_fresh, en_is_old_value_replaced = is_value_replaced\<rparr>"

definition apply_comp_op ::
  "('k, 'v) config \<Rightarrow> 'k \<Rightarrow> bool \<Rightarrow> 'v comp_op \<Rightarrow> ('k, 'v) entry option \<Rightarrow> ('k, 'v) base_cache \<Rightarrow>
    (('k, 'v) base_cache \<times> ('k, 'v) comp_result) or_panic" where
  "apply_comp_op cf key allow_nop op maybe_entry bc =
     (case op of
        Nop \<Rightarrow>
          (let maybe_value = (if allow_nop then map_option en_value maybe_entry else None)
           in Some (bc, case maybe_value of
                          Some v \<Rightarrow> Unchanged (entry_new (Some key) v False False)
                        | None \<Rightarrow> StillNone key))
      | Put v \<Rightarrow>
          do { bc \<leftarrow> insert_with_hash cf key (cf_hash cf key) v bc;
               Some (bc, if maybe_entry \<noteq> None then ReplacedWith (entry_new (Some key) v True True)
                         else Inserted (entry_new (Some key) v True False)) }
      | RemoveOp \<Rightarrow>
          do { (bc, maybe_prev_v) \<leftarrow> invalidate_with_hash cf key (cf_hash cf key) True bc;
               Some (bc, case maybe_prev_v of
                           Some prev_v \<Rightarrow> Removed (entry_new (Some key) prev_v False False)
                         | None \<Rightarrow> StillNone key) })"

fun comp_step ::
  "('k, 'v) config \<Rightarrow> ('k, 'v, 'e) comp_call \<Rightarrow> waiter_id \<Rightarrow> ('k, 'v, 'e) comp_pc \<Rightarrow>
    ('k, 'v, 'e) value_initializer \<Rightarrow> ('k, 'v) base_cache \<Rightarrow>
    (('k, 'v, 'e) comp_pc \<times> ('k, 'v, 'e) value_initializer \<times> ('k, 'v) base_cache) option" where
  "comp_step cf c w CompStart vi bc =
     (let (vi, existing) = try_insert_waiter (cc_key c, TypeComputeNone) w vi
      in Some (case existing of None \<Rightarrow> CompGet | Some w' \<Rightarrow> CompWait w', vi, bc))"
| "comp_step cf c w (CompWait w') vi bc =
     (if vi_locked vi w' then None
      else Some (if vi_values vi w' = Computing then CompUnlock None else CompStart, vi, bc))"
| "comp_step cf c w CompGet vi bc =
     Some (case get_with_hash_and_ignore_if cf None True (cc_key c) (cf_hash cf (cc_key c)) bc of
             Some (bc, maybe_entry) \<Rightarrow> (CompEval maybe_entry, vi, bc)
           | None \<Rightarrow> (CompUnlock None, vi, bc))"
| "comp_step cf c w (CompEval maybe_entry) vi bc =
     Some (case cc_f c maybe_entry of
             Some (Inr op) \<Rightarrow> (CompApply op maybe_entry, set_waiter w ReadyNone vi, bc)
           | Some (Inl e) \<Rightarrow> (CompFinish (Some (Inl e)), set_waiter w ReadyNone vi, bc)
           | None \<Rightarrow> (CompFinish None, set_waiter w InitClosurePanicked vi, bc))"
| "comp_step cf c w (CompApply op maybe_entry) vi bc =
     Some (case apply_comp_op cf (cc_key c) (cc_allow_nop c) op maybe_entry bc of
             Some (bc, r) \<Rightarrow> (CompFinish (Some (Inr r)), vi, bc)
           | None \<Rightarrow> (CompUnlock None, vi, bc))"
| "comp_step cf c w (CompFinish r) vi bc =
     Some (CompUnlock r, remove_waiter (cc_key c, TypeComputeNone) vi, bc)"
| "comp_step cf c w (CompUnlock r) vi bc = Some (CompDone r, unlock_waiter w vi, bc)"
| "comp_step cf c w (CompDone r) vi bc = None"

section \<open>The calls of a cache\<close>

definition post_init_for_get_with :: "'v \<Rightarrow> 'e + 'v" where
  "post_init_for_get_with value = Inr value"

definition post_init_for_optionally_get_with :: "'e \<Rightarrow> 'v option \<Rightarrow> 'e + 'v" where
  "post_init_for_optionally_get_with optionally_none value =
     (case value of Some v \<Rightarrow> Inr v | None \<Rightarrow> Inl optionally_none)"

definition post_init_for_try_get_with :: "'e + 'v \<Rightarrow> 'e + 'v" where
  "post_init_for_try_get_with result = result"

definition post_init_for_upsert_with :: "'v \<Rightarrow> 'e + 'v comp_op" where
  "post_init_for_upsert_with value = Inr (Put value)"

definition post_init_for_compute_with :: "'v comp_op \<Rightarrow> 'e + 'v comp_op" where
  "post_init_for_compute_with op = Inr op"

definition post_init_for_try_compute_with :: "'e + 'v comp_op \<Rightarrow> 'e + 'v comp_op" where
  "post_init_for_try_compute_with op = op"

definition type_id_for_get_with :: type_id where "type_id_for_get_with = TypeUnit"

definition type_id_for_optionally_get_with :: type_id where "type_id_for_optionally_get_with = TypeOptionallyNone"

definition type_id_for_try_get_with :: "type_id \<Rightarrow> type_id" where "type_id_for_try_get_with E = E"

text \<open>The closures \<open>get\<close> and \<open>insert\<close> that the functions below pass to \<open>try_init_or_read\<close>.\<close>

definition init_thread_step ::
  "('k, 'v) config \<Rightarrow> ('k, 'v, 'e) init_call \<Rightarrow> waiter_id \<Rightarrow> ('v, 'e) init_pc \<Rightarrow>
    ('k, 'v, 'e) value_initializer \<Rightarrow> ('k, 'v) base_cache \<Rightarrow>
    (('v, 'e) init_pc \<times> ('k, 'v, 'e) value_initializer \<times> ('k, 'v) base_cache) option" where
  "init_thread_step cf c =
     init_step (get_with_hash_without_recording cf (ic_ignore_if c) (ic_key c) (cf_hash cf (ic_key c)))
       (insert_with_hash cf (ic_key c) (cf_hash cf (ic_key c))) c"

text \<open>A function that finds no entry goes on with a call of \<open>try_init_or_read\<close>; its result is
  turned into the function's by the \<open>..._result\<close>.\<close>

definition insert_with_hash_and_fun ::
  "'k \<Rightarrow> 'v or_panic \<Rightarrow> ('v \<Rightarrow> bool) option \<Rightarrow> ('k, 'v, 'e) init_call" where
  "insert_with_hash_and_fun key init replace_if =
     \<lparr>ic_key = key, ic_type_id = type_id_for_get_with, ic_error_type = TypeUnit, ic_ignore_if = replace_if,
      ic_init = map_option post_init_for_get_with init\<rparr>"

definition insert_with_hash_and_fun_result ::
  "'k \<Rightarrow> bool \<Rightarrow> ('v, 'e) init_result \<Rightarrow> ('k, 'v) entry or_panic" where
  "insert_with_hash_and_fun_result key need_key r =
     (let k = (if need_key then Some key else None)
      in case r of
           Initialized v \<Rightarrow> Some (entry_new k v True False)
         | ReadExisting v \<Rightarrow> Some (entry_new k v False False)
         | InitErr _ \<Rightarrow> None)"

definition get_or_insert_with_hash_and_fun ::
  "('k, 'v) config \<Rightarrow> 'k \<Rightarrow> 'v or_panic \<Rightarrow> ('v \<Rightarrow> bool) option \<Rightarrow> bool \<Rightarrow> ('k, 'v) base_cache \<Rightarrow>
    (('k, 'v) base_cache \<times> (('k, 'v) entry + ('k, 'v, 'e) init_call)) or_panic" where
  "get_or_insert_with_hash_and_fun cf key init replace_if need_key bc =
     do { (bc, e) \<leftarrow> get_with_hash_and_ignore_if cf replace_if need_key key (cf_hash cf key) bc;
          Some (bc, case e of Some e \<Rightarrow> Inl e | None \<Rightarrow> Inr (insert_with_hash_and_fun key init replace_if)) }"

definition optionally_insert_with_hash_and_fun ::
  "'e \<Rightarrow> 'k \<Rightarrow> 'v option or_panic \<Rightarrow> ('k, 'v, 'e) init_call" where
  "optionally_insert_with_hash_and_fun optionally_none key init =
     \<lparr>ic_key = key, ic_type_id = type_id_for_optionally_get_with, ic_error_type = TypeArcOptionallyNone,
      ic_ignore_if = None, ic_init = map_option (post_init_for_optionally_get_with optionally_none) init\<rparr>"

definition optionally_insert_with_hash_and_fun_result ::
  "'k \<Rightarrow> bool \<Rightarrow> ('v, 'e) init_result \<Rightarrow> ('k, 'v) entry option" where
  "optionally_insert_with_hash_and_fun_result key need_key r =
     (let k = (if need_key then Some key else None)
      in case r of
           Initialized v \<Rightarrow> Some (entry_new k v True False)
         | ReadExisting v \<Rightarrow> Some (entry_new k v False False)
         | InitErr _ \<Rightarrow> None)"

definition get_or_optionally_insert_with_hash_and_fun ::
  "('k, 'v) config \<Rightarrow> 'e \<Rightarrow> 'k \<Rightarrow> 'v option or_panic \<Rightarrow> bool \<Rightarrow> ('k, 'v) base_cache \<Rightarrow>
    (('k, 'v) base_cache \<times> (('k, 'v) entry + ('k, 'v, 'e) init_call)) or_panic" where
  "get_or_optionally_insert_with_hash_and_fun cf optionally_none key init need_key bc =
     do { (bc, e) \<leftarrow> get_with_hash cf need_key key (cf_hash cf key) bc;
          Some (bc, case e of Some e \<Rightarrow> Inl e
                    | None \<Rightarrow> Inr (optionally_insert_with_hash_and_fun optionally_none key init)) }"

definition try_insert_with_hash_and_fun :: "type_id \<Rightarrow> 'k \<Rightarrow> ('e + 'v) or_panic \<Rightarrow> ('k, 'v, 'e) init_call" where
  "try_insert_with_hash_and_fun E key init =
     \<lparr>ic_key = key, ic_type_id = type_id_for_try_get_with E, ic_error_type = E, ic_ignore_if = None,
      ic_init = map_option post_init_for_try_get_with init\<rparr>"

definition try_insert_with_hash_and_fun_result ::
  "'k \<Rightarrow> bool \<Rightarrow> ('v, 'e) init_result \<Rightarrow> 'e + ('k, 'v) entry" where
  "try_insert_with_hash_and_fun_result key need_key r =
     (let k = (if need_key then Some key else None)
      in case r of
           Initialized v \<Rightarrow> Inr (entry_new k v True False)
         | ReadExisting v \<Rightarrow> Inr (entry_new k v False False)
         | InitErr e \<Rightarrow> Inl e)"

definition get_or_try_insert_with_hash_and_fun ::
  "('k, 'v) config \<Rightarrow> type_id \<Rightarrow> 'k \<Rightarrow> ('e + 'v) or_panic \<Rightarrow> bool \<Rightarrow> ('k, 'v) base_cache \<Rightarrow>
    (('k, 'v) base_cache \<times> (('k, 'v) entry + ('k, 'v, 'e) init_call)) or_panic" where
  "get_or_try_insert_with_hash_and_fun cf E key init need_key bc =
     do { (bc, e) \<leftarrow> get_with_hash cf need_key key (cf_hash cf key) bc;
          Some (bc, case e of Some e \<Rightarrow> Inl e | None \<Rightarrow> Inr (try_insert_with_hash_and_fun E key init)) }"

text \<open>The variant for a key that is passed by reference looks the entry up without its key,
  whatever \<open>need_key\<close> is.\<close>

definition get_or_try_insert_with_hash_by_ref_and_fun ::
  "('k, 'v) config \<Rightarrow> type_id \<Rightarrow> 'k \<Rightarrow> ('e + 'v) or_panic \<Rightarrow> bool \<Rightarrow> ('k, 'v) base_cache \<Rightarrow>
    (('k, 'v) base_cache \<times> (('k, 'v) entry + ('k, 'v, 'e) init_call)) or_panic" where
  "get_or_try_insert_with_hash_by_ref_and_fun cf E key init need_key bc =
     do { (bc, e) \<leftarrow> get_with_hash cf False key (cf_hash cf key) bc;
          Some (bc, case e of Some e \<Rightarrow> Inl e | None \<Rightarrow> Inr (try_insert_with_hash_and_fun E key init)) }"

text \<open>\<open>or_insert\<close> and \<open>or_default\<close> insert without a waiter.\<close>

definition get_or_insert_with_hash ::
  "('k, 'v) config \<Rightarrow> 'k \<Rightarrow> 'v or_panic \<Rightarrow> ('k, 'v) base_cache \<Rightarrow> (('k, 'v) base_cache \<times> ('k, 'v) entry) or_panic" where
  "get_or_insert_with_hash cf key init bc =
     do { (bc, e) \<leftarrow> get_with_hash cf True key (cf_hash cf key) bc;
          case e of
            Some e \<Rightarrow> Some (bc, e)
          | None \<Rightarrow>
              do { v \<leftarrow> init;
                   bc \<leftarrow> insert_with_hash cf key (cf_hash cf key) v bc;
                   Some (bc, entry_new (Some key) v True False) } }"

definition compute_with_hash_and_fun ::
  "'k \<Rightarrow> (('k, 'v) entry option \<Rightarrow> 'v comp_op or_panic) \<Rightarrow> ('k, 'v, 'e) comp_call" where
  "compute_with_hash_and_fun key f =
     \<lparr>cc_key = key, cc_f = (\<lambda>e. map_option post_init_for_compute_with (f e)), cc_allow_nop = True\<rparr>"

definition compute_with_hash_and_fun_result :: "'e + ('k, 'v) comp_result \<Rightarrow> ('k, 'v) comp_result or_panic" where
  "compute_with_hash_and_fun_result r = (case r of Inr result \<Rightarrow> Some result | Inl _ \<Rightarrow> None)"

definition try_compute_with_hash_and_fun ::
  "'k \<Rightarrow> (('k, 'v) entry option \<Rightarrow> ('e + 'v comp_op) or_panic) \<Rightarrow> ('k, 'v, 'e) comp_call" where
  "try_compute_with_hash_and_fun key f =
     \<lparr>cc_key = key, cc_f = (\<lambda>e. map_option post_init_for_try_compute_with (f e)), cc_allow_nop = True\<rparr>"

definition upsert_with_hash_and_fun ::
  "'k \<Rightarrow> (('k, 'v) entry option \<Rightarrow> 'v or_panic) \<Rightarrow> ('k, 'v, 'e) comp_call" where
  "upsert_with_hash_and_fun key f =
     \<lparr>cc_key = key, cc_f = (\<lambda>e. map_option post_init_for_upsert_with (f e)), cc_allow_nop = False\<rparr>"

definition upsert_with_hash_and_fun_result :: "'e + ('k, 'v) comp_result \<Rightarrow> ('k, 'v) entry or_panic" where
  "upsert_with_hash_and_fun_result r =
     (case r of Inr (Inserted e) \<Rightarrow> Some e | Inr (ReplacedWith e) \<Rightarrow> Some e | _ \<Rightarrow> None)"

text \<open>The variants for keys that are passed by reference differ only in making the key when it is
  needed, but for the one above.\<close>

definition get_or_insert_with_hash_by_ref_and_fun ::
  "('k, 'v) config \<Rightarrow> 'k \<Rightarrow> 'v or_panic \<Rightarrow> ('v \<Rightarrow> bool) option \<Rightarrow> bool \<Rightarrow> ('k, 'v) base_cache \<Rightarrow>
    (('k, 'v) base_cache \<times> (('k, 'v) entry + ('k, 'v, 'e) init_call)) or_panic" where
  "get_or_insert_with_hash_by_ref_and_fun cf key init replace_if need_key bc =
     do { (bc, e) \<leftarrow> get_with_hash_and_ignore_if cf replace_if need_key key (cf_hash cf key) bc;
          Some (bc, case e of Some e \<Rightarrow> Inl e | None \<Rightarrow> Inr (insert_with_hash_and_fun key init replace_if)) }"

definition get_or_optionally_insert_with_hash_by_ref_and_fun ::
  "('k, 'v) config \<Rightarrow> 'e \<Rightarrow> 'k \<Rightarrow> 'v option or_panic \<Rightarrow> bool \<Rightarrow> ('k, 'v) base_cache \<Rightarrow>
    (('k, 'v) base_cache \<times> (('k, 'v) entry + ('k, 'v, 'e) init_call)) or_panic" where
  "get_or_optionally_insert_with_hash_by_ref_and_fun cf optionally_none key init need_key bc =
     do { (bc, e) \<leftarrow> get_with_hash cf need_key key (cf_hash cf key) bc;
          Some (bc, case e of Some e \<Rightarrow> Inl e
                    | None \<Rightarrow> Inr (optionally_insert_with_hash_and_fun optionally_none key init)) }"

definition get_or_insert_with_hash_by_ref ::
  "('k, 'v) config \<Rightarrow> 'k \<Rightarrow> 'v or_panic \<Rightarrow> ('k, 'v) base_cache \<Rightarrow> (('k, 'v) base_cache \<times> ('k, 'v) entry) or_panic" where
  "get_or_insert_with_hash_by_ref cf key init bc =
     do { (bc, e) \<leftarrow> get_with_hash cf True key (cf_hash cf key) bc;
          case e of
            Some e \<Rightarrow> Some (bc, e)
          | None \<Rightarrow>
              do { v \<leftarrow> init;
                   bc \<leftarrow> insert_with_hash cf key (cf_hash cf key) v bc;
                   Some (bc, entry_new (Some key) v True False) } }"

section \<open>Entry selectors\<close>

text \<open>\<open>OwnedKeyEntrySelector\<close> and \<open>RefKeyEntrySelector\<close>: a key with its hash. The cache that the
  selector refers to is an argument.\<close>

record 'k entry_selector =
  sel_key :: 'k
  sel_hash :: u64

definition cache_entry :: "('k, 'v) config \<Rightarrow> 'k \<Rightarrow> 'k entry_selector" where
  "cache_entry cf key = \<lparr>sel_key = key, sel_hash = cf_hash cf key\<rparr>"

definition cache_entry_by_ref :: "('k, 'v) config \<Rightarrow> 'k \<Rightarrow> 'k entry_selector" where
  "cache_entry_by_ref cf key = \<lparr>sel_key = key, sel_hash = cf_hash cf key\<rparr>"

definition and_compute_with ::
  "'k entry_selector \<Rightarrow> (('k, 'v) entry option \<Rightarrow> 'v comp_op or_panic) \<Rightarrow> ('k, 'v, 'e) comp_call" where
  "and_compute_with sel f = compute_with_hash_and_fun (sel_key sel) f"

definition and_try_compute_with ::
  "'k entry_selector \<Rightarrow> (('k, 'v) entry option \<Rightarrow> ('e + 'v comp_op) or_panic) \<Rightarrow> ('k, 'v, 'e) comp_call" where
  "and_try_compute_with sel f = try_compute_with_hash_and_fun (sel_key sel) f"

definition and_upsert_with ::
  "'k entry_selector \<Rightarrow> (('k, 'v) entry option \<Rightarrow> 'v or_panic) \<Rightarrow> ('k, 'v, 'e) comp_call" where
  "and_upsert_with sel f = upsert_with_hash_and_fun (sel_key sel) f"

definition or_insert ::
  "('k, 'v) config \<Rightarrow> 'k entry_selector \<Rightarrow> 'v \<Rightarrow> ('k, 'v) base_cache \<Rightarrow> (('k, 'v) base_cache \<times> ('k, 'v) entry) or_panic" where
  "or_insert cf sel value bc = get_or_insert_with_hash cf (sel_key sel) (Some value) bc"

definition or_insert_with ::
  "('k, 'v) config \<Rightarrow> 'k entry_selector \<Rightarrow> 'v or_panic \<Rightarrow> ('k, 'v) base_cache \<Rightarrow>
    (('k, 'v) base_cache \<times> (('k, 'v) entry + ('k, 'v, 'e) init_call)) or_panic" where
  "or_insert_with cf sel init bc = get_or_insert_with_hash_and_fun cf (sel_key sel) init None True bc"

definition or_insert_with_if ::
  "('k, 'v) config \<Rightarrow> 'k entry_selector \<Rightarrow> 'v or_panic \<Rightarrow> ('v \<Rightarrow> bool) \<Rightarrow> ('k, 'v) base_cache \<Rightarrow>
    (('k, 'v) base_cache \<times> (('k, 'v) entry + ('k, 'v, 'e) init_call)) or_panic" where
  "or_insert_with_if cf sel init replace_if bc = get_or_insert_with_hash_and_fun cf (sel_key sel) init (Some replace_if) True bc"

definition or_optionally_insert_with ::
  "('k, 'v) config \<Rightarrow> 'e \<Rightarrow> 'k entry_selector \<Rightarrow> 'v option or_panic \<Rightarrow> ('k, 'v) base_cache \<Rightarrow>
    (('k, 'v) base_cache \<times> (('k, 'v) entry + ('k, 'v, 'e) init_call)) or_panic" where
  "or_optionally_insert_with cf optionally_none sel init bc =
     get_or_optionally_insert_with_hash_and_fun cf optionally_none (sel_key sel) init True bc"

definition or_try_insert_with ::
  "('k, 'v) config \<Rightarrow> type_id \<Rightarrow> 'k entry_selector \<Rightarrow> ('e + 'v) or_panic \<Rightarrow> ('k, 'v) base_cache \<Rightarrow>
    (('k, 'v) base_cache \<times> (('k, 'v) entry + ('k, 'v, 'e) init_call)) or_panic" where
  "or_try_insert_with cf E sel init bc = get_or_try_insert_with_hash_and_fun cf E (sel_key sel) init True bc"

definition ref_or_insert ::
  "('k, 'v) config \<Rightarrow> 'k entry_selector \<Rightarrow> 'v \<Rightarrow> ('k, 'v) base_cache \<Rightarrow> (('k, 'v) base_cache \<times> ('k, 'v) entry) or_panic" where
  "ref_or_insert cf sel value bc = get_or_insert_with_hash_by_ref cf (sel_key sel) (Some value) bc"

definition ref_or_insert_with ::
  "('k, 'v) config \<Rightarrow> 'k entry_selector \<Rightarrow> 'v or_panic \<Rightarrow> ('k, 'v) base_cache \<Rightarrow>
    (('k, 'v) base_cache \<times> (('k, 'v) entry + ('k, 'v, 'e) init_call)) or_panic" where
  "ref_or_insert_with cf sel init bc = get_or_insert_with_hash_by_ref_and_fun cf (sel_key sel) init None True bc"

definition ref_or_insert_with_if ::
  "('k, 'v) config \<Rightarrow> 'k entry_selector \<Rightarrow> 'v or_panic \<Rightarrow> ('v \<Rightarrow> bool) \<Rightarrow> ('k, 'v) base_cache \<Rightarrow>
    (('k, 'v) base_cache \<times> (('k, 'v) entry + ('k, 'v, 'e) init_call)) or_panic" where
  "ref_or_insert_with_if cf sel init replace_if bc =
     get_or_insert_with_hash_by_ref_and_fun cf (sel_key sel) init (Some replace_if) True bc"

definition ref_or_optionally_insert_with ::
  "('k, 'v) config \<Rightarrow> 'e \<Rightarrow> 'k entry_selector \<Rightarrow> 'v option or_panic \<Rightarrow> ('k, 'v) base_cache \<Rightarrow>
    (('k, 'v) base_cache \<times> (('k, 'v) entry + ('k, 'v, 'e) init_call)) or_panic" where
  "ref_or_optionally_insert_with cf optionally_none sel init bc =
     get_or_optionally_insert_with_hash_by_ref_and_fun cf optionally_none (sel_key sel) init True bc"

definition ref_or_try_insert_with ::
  "('k, 'v) config \<Rightarrow> type_id \<Rightarrow> 'k entry_selector \<Rightarrow> ('e + 'v) or_panic \<Rightarrow> ('k, 'v) base_cache \<Rightarrow>
    (('k, 'v) base_cache \<times> (('k, 'v) entry + ('k, 'v, 'e) init_call)) or_panic" where
  "ref_or_try_insert_with cf E sel init bc = get_or_try_insert_with_hash_by_ref_and_fun cf E (sel_key sel) init True bc"

section \<open>The methods of the cache\<close>

definition get_with ::
  "('k, 'v) config \<Rightarrow> 'k \<Rightarrow> 'v or_panic \<Rightarrow> ('k, 'v) base_cache \<Rightarrow>
    (('k, 'v) base_cache \<times> (('k, 'v) entry + ('k, 'v, 'e) init_call)) or_panic" where
  "get_with cf key init bc = get_or_insert_with_hash_and_fun cf key init None False bc"

definition get_with_by_ref ::
  "('k, 'v) config \<Rightarrow> 'k \<Rightarrow> 'v or_panic \<Rightarrow> ('k, 'v) base_cache \<Rightarrow>
    (('k, 'v) base_cache \<times> (('k, 'v) entry + ('k, 'v, 'e) init_call)) or_panic" where
  "get_with_by_ref cf key init bc = get_or_insert_with_hash_by_ref_and_fun cf key init None False bc"

definition get_with_if ::
  "('k, 'v) config \<Rightarrow> 'k \<Rightarrow> 'v or_panic \<Rightarrow> ('v \<Rightarrow> bool) \<Rightarrow> ('k, 'v) base_cache \<Rightarrow>
    (('k, 'v) base_cache \<times> (('k, 'v) entry + ('k, 'v, 'e) init_call)) or_panic" where
  "get_with_if cf key init replace_if bc = get_or_insert_with_hash_and_fun cf key init (Some replace_if) False bc"

definition optionally_get_with ::
  "('k, 'v) config \<Rightarrow> 'e \<Rightarrow> 'k \<Rightarrow> 'v option or_panic \<Rightarrow> ('k, 'v) base_cache \<Rightarrow>
    (('k, 'v) base_cache \<times> (('k, 'v) entry + ('k, 'v, 'e) init_call)) or_panic" where
  "optionally_get_with cf optionally_none key init bc = get_or_optionally_insert_with_hash_and_fun cf optionally_none key init False bc"

definition optionally_get_with_by_ref ::
  "('k, 'v) config \<Rightarrow> 'e \<Rightarrow> 'k \<Rightarrow> 'v option or_panic \<Rightarrow> ('k, 'v) base_cache \<Rightarrow>
    (('k, 'v) base_cache \<times> (('k, 'v) entry + ('k, 'v, 'e) init_call)) or_panic" where
  "optionally_get_with_by_ref cf optionally_none key init bc =
     get_or_optionally_insert_with_hash_by_ref_and_fun cf optionally_none key init False bc"

definition try_get_with ::
  "('k, 'v) config \<Rightarrow> type_id \<Rightarrow> 'k \<Rightarrow> ('e + 'v) or_panic \<Rightarrow> ('k, 'v) base_cache \<Rightarrow>
    (('k, 'v) base_cache \<times> (('k, 'v) entry + ('k, 'v, 'e) init_call)) or_panic" where
  "try_get_with cf E key init bc = get_or_try_insert_with_hash_and_fun cf E key init False bc"

definition try_get_with_by_ref ::
  "('k, 'v) config \<Rightarrow> type_id \<Rightarrow> 'k \<Rightarrow> ('e + 'v) or_panic \<Rightarrow> ('k, 'v) base_cache \<Rightarrow>
    (('k, 'v) base_cache \<times> (('k, 'v) entry + ('k, 'v, 'e) init_call)) or_panic" where
  "try_get_with_by_ref cf E key init bc = get_or_try_insert_with_hash_by_ref_and_fun cf E key init False bc"

end
