(* ===== verification/Cache_Inv.thy ===== *)
theory Cache_Inv
  imports Base_Cache Timer_Advance
begin

text \<open>
  The invariant of a cache, and that the maintenance keeps it.

  The invariant ties the hash table, the deques, the timer wheel and the operations that are
  still to be applied together. \<open>ops\<close> are the write operations that were produced and not yet
  applied, in the channel or still with their threads. \<open>X\<close> are entries that the running step has
  taken out of the table and not yet out of the deques, \<open>Y\<close> those whose operation it is applying;
  both are empty between steps.
\<close>

section \<open>The flags of an entry\<close>

lemma flags_sel [simp]:
  "ei_key_hash (retire i) = ei_key_hash i" "ei_is_admitted (retire i) = ei_is_admitted i"
  "ei_entry_gen (retire i) = ei_entry_gen i" "last_modified (retire i) = last_modified i"
  "last_accessed (retire i) = last_accessed i" "\<not> is_alive (retire i)"
  "ei_key_hash (set_admitted b i) = ei_key_hash i" "ei_is_admitted (set_admitted b i) = b"
  "ei_entry_gen (set_admitted b i) = ei_entry_gen i" "last_modified (set_admitted b i) = last_modified i"
  "last_accessed (set_admitted b i) = last_accessed i" "is_alive (set_admitted b i) = is_alive i"
  "ei_key_hash (set_policy_gen g i) = ei_key_hash i" "ei_is_admitted (set_policy_gen g i) = ei_is_admitted i"
  "last_modified (set_policy_gen g i) = last_modified i"
  "last_accessed (set_policy_gen g i) = last_accessed i" "is_alive (set_policy_gen g i) = is_alive i"
  by (simp_all add: retire_def set_admitted_def set_policy_gen_def is_alive_def last_modified_def
      last_accessed_def Let_def)

section \<open>The invariant\<close>

definition ve_ok :: "'k store \<Rightarrow> 'v value_entry \<Rightarrow> bool" where
  "ve_ok st e \<longleftrightarrow> ve_nodes e = Suc (ve_info e) \<and> ve_nodes e < st_next_id st"

abbreviation alive :: "'k store \<Rightarrow> info_id \<Rightarrow> bool" where
  "alive st i \<equiv> is_alive (st_infos st i)"

abbreviation info_key :: "'k store \<Rightarrow> info_id \<Rightarrow> 'k" where
  "info_key st i \<equiv> kh_key (ei_key_hash (st_infos st i))"

text \<open>The table holds the entry \<open>i\<close>.\<close>

definition holds :: "('k \<rightharpoonup> 'v value_entry) \<Rightarrow> 'k store \<Rightarrow> info_id \<Rightarrow> bool" where
  "holds C st i \<longleftrightarrow> (\<exists>e. C (info_key st i) = Some e \<and> ve_info e = i)"

definition tbl_ok :: "('k, 'v) config \<Rightarrow> ('k \<rightharpoonup> 'v value_entry) \<Rightarrow> 'k store \<Rightarrow> bool" where
  "tbl_ok cf C st \<longleftrightarrow> finite (dom C) \<and>
     (\<forall>k e. C k = Some e \<longrightarrow> ve_ok st e \<and> alive st (ve_info e) \<and>
        ei_key_hash (info_of st e) = \<lparr>kh_key = k, kh_hash = cf_hash cf k\<rparr> \<and>
        last_modified (info_of st e) \<noteq> None)"

fun op_ok :: "('k \<rightharpoonup> 'v value_entry) \<Rightarrow> 'k store \<Rightarrow> ('k, 'v) write_op \<Rightarrow> bool" where
  "op_ok C st (Upsert kh e gen old_weight new_weight) \<longleftrightarrow>
     ve_ok st e \<and> kh = ei_key_hash (info_of st e) \<and> (alive st (ve_info e) \<longrightarrow> holds C st (ve_info e))"
| "op_ok C st (Remove kv gen) \<longleftrightarrow> ve_ok st (kv_entry kv) \<and> \<not> alive st (ve_info (kv_entry kv))"

definition has_remove :: "('k, 'v) write_op set \<Rightarrow> info_id \<Rightarrow> bool" where
  "has_remove ops i \<longleftrightarrow> (\<exists>kv g. Remove kv g \<in> ops \<and> ve_info (kv_entry kv) = i)"

definition has_upsert :: "('k, 'v) write_op set \<Rightarrow> info_id \<Rightarrow> u16 \<Rightarrow> bool" where
  "has_upsert ops i g \<longleftrightarrow> (\<exists>kh e w w'. Upsert kh e g w w' \<in> ops \<and> ve_info e = i)"

text \<open>An admitted entry is in the table, or an operation that removes it is on its way; an entry of
  the table is admitted, or the operation for its newest generation is on its way.\<close>

definition pend_ok ::
  "('k, 'v) write_op set \<Rightarrow> info_id set \<Rightarrow> info_id set \<Rightarrow> ('k \<rightharpoonup> 'v value_entry) \<Rightarrow> 'k store \<Rightarrow> bool" where
  "pend_ok ops X Y C st \<longleftrightarrow>
     (\<forall>op \<in> ops. op_ok C st op) \<and>
     (\<forall>i. adm st i \<and> alive st i \<longrightarrow> holds C st i) \<and>
     (\<forall>i. adm st i \<and> \<not> alive st i \<and> i \<notin> X \<longrightarrow> has_remove ops i) \<and>
     (\<forall>k e. C k = Some e \<and> ve_info e \<notin> Y \<longrightarrow>
        adm st (ve_info e) \<or> has_upsert ops (ve_info e) (ei_entry_gen (info_of st e)))"

text \<open>Only entries that exist have timers.\<close>

definition timers_fresh :: "'k store \<Rightarrow> bool" where
  "timers_fresh st \<longleftrightarrow> (\<forall>n. dns_timer_node (st_nodes st n) \<noteq> None \<longrightarrow> n < st_next_id st)"

definition cinv ::
  "('k, 'v) config \<Rightarrow> ('k, 'v) write_op set \<Rightarrow> info_id set \<Rightarrow> info_id set \<Rightarrow> ('k \<rightharpoonup> 'v value_entry) \<Rightarrow>
    'k store \<Rightarrow> deques \<Rightarrow> timer_wheel \<Rightarrow> bool" where
  "cinv cf ops X Y C st dqs tw \<longleftrightarrow>
     deqs_ok st dqs \<and> wheel_ok st tw \<and> tbl_ok cf C st \<and> pend_ok ops X Y C st \<and> timers_fresh st"

definition cache_inv ::
  "('k, 'v) config \<Rightarrow> ('k, 'v) write_op set \<Rightarrow> info_id set \<Rightarrow> info_id set \<Rightarrow> ('k, 'v, 'z) inner_scheme \<Rightarrow> bool" where
  "cache_inv cf ops X Y s \<longleftrightarrow>
     cinv cf ops X Y (in_cache s) (in_store s) (in_deques s) (in_timer_wheel s) \<and>
     sketch_ok (in_frequency_sketch s) \<and>
     tw_current (in_timer_wheel s) \<le> cf_clock cf (in_ticks s) \<and>
     (\<forall>e m. Hit e m \<in> set (in_read_op_ch s) \<longrightarrow> ve_ok (in_store s) e)"

text \<open>The counter of a maintenance run counts the nodes of the probation deque.\<close>

definition maint_inv ::
  "('k, 'v) config \<Rightarrow> ('k, 'v) write_op set \<Rightarrow> info_id set \<Rightarrow> info_id set \<Rightarrow> ('k, 'v) maint \<Rightarrow> bool" where
  "maint_inv cf ops X Y s \<longleftrightarrow>
     cache_inv cf ops X Y s \<and> ec_entry_count (es_counters s) = word_of_nat (length (prob (in_deques s)))"

text \<open>What a step of the maintenance may change: it removes entries from the table, and only then
  counts an eviction; it touches no entry's key, generation, weight or times.\<close>

definition same_data :: "'k entry_info \<Rightarrow> 'k entry_info \<Rightarrow> bool" where
  "same_data i i' \<longleftrightarrow>
     ei_key_hash i' = ei_key_hash i \<and> ei_entry_gen i' = ei_entry_gen i \<and>
     ei_expiration_state i' = ei_expiration_state i \<and> ei_last_accessed i' = ei_last_accessed i \<and>
     ei_last_modified i' = ei_last_modified i \<and> ei_policy_weight i' = ei_policy_weight i"

definition same_infos :: "'k store \<Rightarrow> 'k store \<Rightarrow> bool" where
  "same_infos st st' \<longleftrightarrow> st_next_id st' = st_next_id st \<and> (\<forall>i. same_data (st_infos st i) (st_infos st' i))"

definition evicts :: "('k, 'v) maint \<Rightarrow> ('k, 'v) maint \<Rightarrow> bool" where
  "evicts s s' \<longleftrightarrow>
     in_read_op_ch s' = in_read_op_ch s \<and> in_write_op_ch s' = in_write_op_ch s \<and>
     in_valid_after s' = in_valid_after s \<and> in_ticks s \<le> in_ticks s' \<and>
     in_cache s' \<subseteq>\<^sub>m in_cache s \<and>
     (in_cache s' = in_cache s \<longrightarrow> ec_eviction_count (es_counters s') = ec_eviction_count (es_counters s)) \<and>
     (in_invalidator s' = None \<longleftrightarrow> in_invalidator s = None) \<and>
     same_infos (in_store s) (in_store s')"

lemma same_data_refl [simp]: "same_data i i"
  by (simp add: same_data_def)

lemma same_data_trans: "same_data i j \<Longrightarrow> same_data j k \<Longrightarrow> same_data i k"
  by (simp add: same_data_def)

lemma same_infos_refl [simp]: "same_infos st st"
  by (simp add: same_infos_def)

lemma same_infos_trans: "same_infos st st' \<Longrightarrow> same_infos st' st'' \<Longrightarrow> same_infos st st''"
  unfolding same_infos_def using same_data_trans by (metis (no_types, lifting))

lemma evicts_refl [simp]: "evicts s s"
  by (simp add: evicts_def)

lemma evicts_trans [trans]: "evicts s s' \<Longrightarrow> evicts s' s'' \<Longrightarrow> evicts s s''"
  unfolding evicts_def
  using same_infos_trans[of "in_store s" "in_store s'" "in_store s''"]
    map_le_trans[of "in_cache s''" "in_cache s'" "in_cache s"]
    map_le_antisym[of "in_cache s'" "in_cache s"]
  by auto

section \<open>Changes that the invariant does not notice\<close>

text \<open>Two versions of the metadata of an entry that agree on what the invariant reads.\<close>

definition core_eq :: "'k entry_info \<Rightarrow> 'k entry_info \<Rightarrow> bool" where
  "core_eq i i' \<longleftrightarrow>
     ei_key_hash i' = ei_key_hash i \<and> ei_entry_gen i' = ei_entry_gen i \<and> ei_is_admitted i' = ei_is_admitted i \<and>
     ei_is_retired i' = ei_is_retired i \<and> (last_modified i \<noteq> None \<longrightarrow> last_modified i' \<noteq> None)"

lemma core_eq_refl [simp]: "core_eq i i"
  by (simp add: core_eq_def)

lemma core_eq_policy_gen [simp]: "core_eq i (set_policy_gen g i)"
  by (simp add: core_eq_def set_policy_gen_def last_modified_def Let_def)

lemma same_data_flags [simp]:
  "same_data i (set_policy_gen g i)" "same_data i (set_admitted b i)" "same_data i (retire i)"
  by (simp_all add: same_data_def set_policy_gen_def set_admitted_def retire_def Let_def)

lemma holds_frame:
  assumes "\<And>i. core_eq (st_infos st i) (st_infos st' i)"
  shows "holds C st' i \<longleftrightarrow> holds C st i"
  using assms[of i] by (simp add: holds_def core_eq_def)

lemma tbl_ok_frame:
  assumes "tbl_ok cf C st" "\<And>i. core_eq (st_infos st i) (st_infos st' i)" "st_next_id st \<le> st_next_id st'"
  shows "tbl_ok cf C st'"
  using assms unfolding tbl_ok_def core_eq_def ve_ok_def info_of_def is_alive_def
  by (metis order_less_le_trans)

lemma op_ok_frame:
  assumes "op_ok C st op" "\<And>i. core_eq (st_infos st i) (st_infos st' i)" "st_next_id st \<le> st_next_id st'"
  shows "op_ok C st' op"
  using assms holds_frame[OF assms(2), of C] assms(2)[unfolded core_eq_def]
  by (cases op) (auto simp: ve_ok_def info_of_def is_alive_def)

lemma pend_ok_frame:
  assumes "pend_ok ops X Y C st" "\<And>i. core_eq (st_infos st i) (st_infos st' i)" "st_next_id st \<le> st_next_id st'"
  shows "pend_ok ops X Y C st'"
proof -
  have c: "adm st' i = adm st i" "alive st' i = alive st i" "ei_entry_gen (st_infos st' i) = ei_entry_gen (st_infos st i)" for i
    using assms(2)[of i] by (simp_all add: core_eq_def is_alive_def)
  show ?thesis using assms(1) op_ok_frame[OF _ assms(2,3), of C]
    unfolding pend_ok_def c info_of_def holds_frame[OF assms(2)] by blast
qed

lemma cinvD:
  assumes "cinv cf ops X Y C st dqs tw"
  shows "deqs_ok st dqs" "wheel_ok st tw" "tbl_ok cf C st" "pend_ok ops X Y C st" "timers_fresh st"
  using assms by (simp_all add: cinv_def)

lemma timers_fresh_frame:
  "timers_fresh st \<Longrightarrow> (\<And>n. dns_timer_node (st_nodes st' n) \<noteq> None \<Longrightarrow> dns_timer_node (st_nodes st n) \<noteq> None) \<Longrightarrow>
   st_next_id st \<le> st_next_id st' \<Longrightarrow> timers_fresh st'"
  unfolding timers_fresh_def by (meson order_less_le_trans)

lemma cinv_perm: "cinv cf ops X Y C st dqs tw \<Longrightarrow> deqs_perm dqs dqs' \<Longrightarrow> cinv cf ops X Y C st dqs' tw"
  by (auto simp: cinv_def intro: deqs_ok_perm)

lemma cinv_timer:
  assumes "cinv cf ops X Y C st dqs tw" "timer_frame st st'" "wheel_ok st' tw'" "timers_fresh st \<longrightarrow> timers_fresh st'"
  shows "cinv cf ops X Y C st' dqs tw'"
proof -
  note f = assms(2)[unfolded timer_frame_def]
  have "deqs_ok st' dqs" by (rule deqs_ok_frame[OF cinvD(1)[OF assms(1)]]) (use f in auto)
  moreover have "tbl_ok cf C st'" by (rule tbl_ok_frame[OF cinvD(3)[OF assms(1)]]) (use f in auto)
  moreover have "pend_ok ops X Y C st'" by (rule pend_ok_frame[OF cinvD(4)[OF assms(1)]]) (use f in auto)
  ultimately show ?thesis using assms(3,4) cinvD(5)[OF assms(1)] by (simp add: cinv_def)
qed

lemma cinv_info:
  assumes "cinv cf ops X Y C st dqs tw" "\<And>j. core_eq j (f j)"
  shows "cinv cf ops X Y C (upd_info i f st) dqs tw"
proof -
  have c: "core_eq (st_infos st j) (st_infos (upd_info i f st) j)" for j using assms(2) by simp
  have "deqs_ok (upd_info i f st) dqs"
    by (rule deqs_ok_frame[OF cinvD(1)[OF assms(1)]]) (use c in \<open>auto simp: core_eq_def\<close>)
  moreover have "tbl_ok cf C (upd_info i f st)" by (rule tbl_ok_frame[OF cinvD(3)[OF assms(1)] c]) simp
  moreover have "pend_ok ops X Y C (upd_info i f st)" by (rule pend_ok_frame[OF cinvD(4)[OF assms(1)] c]) simp
  moreover have "wheel_ok (upd_info i f st) tw" by (rule wheel_inv_frame[OF cinvD(2)[OF assms(1)]]) auto
  moreover have "timers_fresh (upd_info i f st)" by (rule timers_fresh_frame[OF cinvD(5)[OF assms(1)]]) auto
  ultimately show ?thesis by (simp add: cinv_def)
qed

section \<open>Changes that it does notice\<close>

lemma tbl_okD:
  assumes "tbl_ok cf C st"
  shows "finite (dom C)"
    and "C k = Some e \<Longrightarrow> ve_ok st e"
    and "C k = Some e \<Longrightarrow> alive st (ve_info e)"
    and "C k = Some e \<Longrightarrow> ei_key_hash (info_of st e) = \<lparr>kh_key = k, kh_hash = cf_hash cf k\<rparr>"
    and "C k = Some e \<Longrightarrow> last_modified (info_of st e) \<noteq> None"
  using assms unfolding tbl_ok_def by blast+

lemma pend_okD:
  assumes "pend_ok ops X Y C st"
  shows "op \<in> ops \<Longrightarrow> op_ok C st op"
    and "adm st i \<Longrightarrow> alive st i \<Longrightarrow> holds C st i"
    and "adm st i \<Longrightarrow> \<not> alive st i \<Longrightarrow> i \<notin> X \<Longrightarrow> has_remove ops i"
    and "C k = Some e \<Longrightarrow> ve_info e \<notin> Y \<Longrightarrow>
      adm st (ve_info e) \<or> has_upsert ops (ve_info e) (ei_entry_gen (info_of st e))"
  using assms unfolding pend_ok_def by blast+

lemma pend_okI:
  assumes "\<And>op. op \<in> ops \<Longrightarrow> op_ok C st op"
    and "\<And>i. adm st i \<Longrightarrow> alive st i \<Longrightarrow> holds C st i"
    and "\<And>i. adm st i \<Longrightarrow> \<not> alive st i \<Longrightarrow> i \<notin> X \<Longrightarrow> has_remove ops i"
    and "\<And>k e. C k = Some e \<Longrightarrow> ve_info e \<notin> Y \<Longrightarrow>
      adm st (ve_info e) \<or> has_upsert ops (ve_info e) (ei_entry_gen (info_of st e))"
  shows "pend_ok ops X Y C st"
  unfolding pend_ok_def using assms by blast

text \<open>Setting or clearing the admission flag of an entry.\<close>

lemma flag_frame:
  assumes "st_infos st' = (st_infos st)(i := set_admitted b (st_infos st i))" "st_next_id st' = st_next_id st"
  shows "alive st' j = alive st j" "holds C st' j = holds C st j"
    "ei_entry_gen (st_infos st' j) = ei_entry_gen (st_infos st j)" "op_ok C st' op = op_ok C st op"
    "tbl_ok cf C st' = tbl_ok cf C st" "adm st' j = (if j = i then b else adm st j)" "ve_ok st' e = ve_ok st e"
    "same_infos st st'"
proof -
  have eq: "ei_key_hash (st_infos st' j) = ei_key_hash (st_infos st j)" "alive st' j = alive st j"
    "last_modified (st_infos st' j) = last_modified (st_infos st j)"
    "ei_entry_gen (st_infos st' j) = ei_entry_gen (st_infos st j)" for j
    by (simp_all add: assms)
  then show "alive st' j = alive st j" "ei_entry_gen (st_infos st' j) = ei_entry_gen (st_infos st j)" by blast+
  show "ve_ok st' e = ve_ok st e" by (simp add: ve_ok_def assms)
  show h: "holds C st' j = holds C st j" for j by (simp add: holds_def eq)
  show "op_ok C st' op = op_ok C st op" by (cases op) (simp_all add: ve_ok_def assms(2) h eq info_of_def)
  show "tbl_ok cf C st' = tbl_ok cf C st" by (simp add: tbl_ok_def ve_ok_def assms(2) eq info_of_def)
  show "adm st' j = (if j = i then b else adm st j)" by (simp add: assms)
  show "same_infos st st'" by (simp add: same_infos_def assms)
qed

lemma pend_ok_removed:
  assumes "pend_ok ops X Y C st" "tbl_ok cf C st" "\<not> alive st i"
    "st_infos st' = (st_infos st)(i := set_admitted False (st_infos st i))" "st_next_id st' = st_next_id st"
  shows "pend_ok ops (X - {i}) Y C st'"
proof (rule pend_okI)
  note f = flag_frame[OF assms(4,5)]
  show "op_ok C st' op" if "op \<in> ops" for op using pend_okD(1)[OF assms(1) that] by (simp add: f)
  show "holds C st' j" if "adm st' j" "alive st' j" for j
    using pend_okD(2)[OF assms(1), of j] that by (simp add: f split: if_splits)
  show "has_remove ops j" if "adm st' j" "\<not> alive st' j" "j \<notin> X - {i}" for j
    using pend_okD(3)[OF assms(1), of j] that by (simp add: f split: if_splits)
  show "adm st' (ve_info e) \<or> has_upsert ops (ve_info e) (ei_entry_gen (info_of st' e))"
    if "C k = Some e" "ve_info e \<notin> Y" for k e
  proof -
    have "ve_info e \<noteq> i" using tbl_okD(3)[OF assms(2) that(1)] assms(3) by auto
    with pend_okD(4)[OF assms(1) that] show ?thesis by (simp add: f info_of_def)
  qed
qed

lemma pend_ok_added:
  assumes "pend_ok ops X Y C st" "alive st i" "holds C st i"
    "st_infos st' = (st_infos st)(i := set_admitted True (st_infos st i))" "st_next_id st' = st_next_id st"
  shows "pend_ok ops X (Y - {i}) C st'"
proof (rule pend_okI)
  note f = flag_frame[OF assms(4,5)]
  show "op_ok C st' op" if "op \<in> ops" for op using pend_okD(1)[OF assms(1) that] by (simp add: f)
  show "holds C st' j" if "adm st' j" "alive st' j" for j
    using pend_okD(2)[OF assms(1), of j] that assms(3) by (simp add: f split: if_splits)
  show "has_remove ops j" if "adm st' j" "\<not> alive st' j" "j \<notin> X" for j
    using pend_okD(3)[OF assms(1), of j] that assms(2) by (auto simp: f split: if_splits)
  show "adm st' (ve_info e) \<or> has_upsert ops (ve_info e) (ei_entry_gen (info_of st' e))"
    if "C k = Some e" "ve_info e \<notin> Y - {i}" for k e
    using pend_okD(4)[OF assms(1) that(1)] that(2) by (auto simp: f info_of_def)
qed

text \<open>Taking an entry out of the table and retiring it.\<close>

lemma retire_frame:
  "adm (upd_info i retire st) j = adm st j" "alive (upd_info i retire st) j = (j \<noteq> i \<and> alive st j)"
  "info_key (upd_info i retire st) j = info_key st j"
  "ei_key_hash (st_infos (upd_info i retire st) j) = ei_key_hash (st_infos st j)"
  "ei_entry_gen (st_infos (upd_info i retire st) j) = ei_entry_gen (st_infos st j)"
  "last_modified (st_infos (upd_info i retire st) j) = last_modified (st_infos st j)"
  "same_infos st (upd_info i retire st)"
  by (simp_all add: same_infos_def)

lemma cinv_retire:
  assumes inv: "cinv cf ops X Y C st dqs tw" and k: "C k = Some e"
  shows "cinv cf ops (insert (ve_info e) X) Y (C(k := None)) (upd_info (ve_info e) retire st) dqs tw"
    (is "cinv _ _ _ _ ?C ?st _ _")
proof -
  note c = cinvD[OF inv]
  have key: "info_key st (ve_info e) = k" using tbl_okD(4)[OF c(3) k] by (simp add: info_of_def)
  have uniq: "ve_info e' \<noteq> ve_info e" if "C k' = Some e'" "k' \<noteq> k" for k' e'
    using tbl_okD(4)[OF c(3) that(1)] that(2) key by (auto simp: info_of_def)
  have h: "holds ?C ?st j" if "holds C st j" "j \<noteq> ve_info e" for j
    using that k uniq by (auto simp: holds_def retire_frame)
  have v: "ve_ok ?st e' = ve_ok st e'" for e' :: "'b value_entry" by (simp add: ve_ok_def)
  have "deqs_ok ?st dqs" by (rule deqs_ok_frame[OF c(1)]) simp_all
  moreover have "wheel_ok ?st tw" by (rule wheel_inv_frame[OF c(2)]) simp_all
  moreover have "timers_fresh ?st" by (rule timers_fresh_frame[OF c(5)]) simp_all
  moreover have "tbl_ok cf ?C ?st"
    unfolding tbl_ok_def
  proof (intro conjI allI impI)
    show "finite (dom ?C)" using tbl_okD(1)[OF c(3)] by simp
    fix k' e' assume "?C k' = Some e'"
    then have e': "C k' = Some e'" "k' \<noteq> k" by (auto split: if_splits)
    show "ve_ok ?st e'" "alive ?st (ve_info e')" "last_modified (info_of ?st e') \<noteq> None"
      "ei_key_hash (info_of ?st e') = \<lparr>kh_key = k', kh_hash = cf_hash cf k'\<rparr>"
      using tbl_okD(2-5)[OF c(3) e'(1)] uniq[OF e'] unfolding v info_of_def retire_frame by auto
  qed
  moreover have "pend_ok ops (insert (ve_info e) X) Y ?C ?st"
  proof (rule pend_okI)
    show "op_ok ?C ?st op" if "op \<in> ops" for op
      using pend_okD(1)[OF c(4) that] h by (cases op) (auto simp: v info_of_def retire_frame)
    show "holds ?C ?st j" if "adm ?st j" "alive ?st j" for j
      using pend_okD(2)[OF c(4), of j] that h unfolding retire_frame by blast
    show "has_remove ops j" if "adm ?st j" "\<not> alive ?st j" "j \<notin> insert (ve_info e) X" for j
      using pend_okD(3)[OF c(4), of j] that unfolding retire_frame by blast
    show "adm ?st (ve_info e') \<or> has_upsert ops (ve_info e') (ei_entry_gen (info_of ?st e'))"
      if "?C k' = Some e'" "ve_info e' \<notin> Y" for k' e'
      using pend_okD(4)[OF c(4), of k' e'] that by (auto simp: info_of_def retire_frame split: if_splits)
  qed
  ultimately show ?thesis by (simp add: cinv_def)
qed

lemma cinv_removed:
  assumes "cinv cf ops X Y C st dqs tw" "\<not> alive st i" "deqs_ok st' dqs'" "deq_frame i False st st'"
  shows "cinv cf ops (X - {i}) Y C st' dqs' tw"
proof -
  note c = cinvD[OF assms(1)] and f = assms(4)[unfolded deq_frame_def]
  have "wheel_ok st' tw" by (rule wheel_inv_frame[OF c(2)]) (use f in auto)
  moreover have "timers_fresh st'" by (rule timers_fresh_frame[OF c(5)]) (use f in auto)
  moreover have "tbl_ok cf C st'" using flag_frame(5)[of st' st] f c(3) by blast
  moreover have "pend_ok ops (X - {i}) Y C st'" using pend_ok_removed[OF c(4,3) assms(2)] f by blast
  ultimately show ?thesis using assms(3) by (simp add: cinv_def)
qed

lemma cinv_added:
  assumes "cinv cf ops X Y C st dqs tw" "alive st i" "holds C st i" "deqs_ok st' dqs'" "deq_frame i True st st'"
  shows "cinv cf ops X (Y - {i}) C st' dqs' tw"
proof -
  note c = cinvD[OF assms(1)] and f = assms(5)[unfolded deq_frame_def]
  have "wheel_ok st' tw" by (rule wheel_inv_frame[OF c(2)]) (use f in auto)
  moreover have "timers_fresh st'" by (rule timers_fresh_frame[OF c(5)]) (use f in auto)
  moreover have "tbl_ok cf C st'" using flag_frame(5)[of st' st] f c(3) by blast
  moreover have "pend_ok ops X (Y - {i}) C st'" using pend_ok_added[OF c(4) assms(2,3)] f by blast
  ultimately show ?thesis using assms(4) by (simp add: cinv_def)
qed

section \<open>Steps on the state\<close>

lemma cache_invD:
  assumes "cache_inv cf ops X Y s"
  shows "cinv cf ops X Y (in_cache s) (in_store s) (in_deques s) (in_timer_wheel s)"
    "sketch_ok (in_frequency_sketch s)" "tw_current (in_timer_wheel s) \<le> cf_clock cf (in_ticks s)"
    "Hit e m \<in> set (in_read_op_ch s) \<Longrightarrow> ve_ok (in_store s) e"
  using assms unfolding cache_inv_def by blast+

lemma ve_ok_next_id: "st_next_id st' = st_next_id st \<Longrightarrow> ve_ok st' e = ve_ok st e"
  by (simp add: ve_ok_def)

text \<open>A step that only exchanges the store, the deques and the wheel.\<close>

lemma cache_inv_upd:
  assumes "cache_inv cf ops X Y s" "cinv cf ops' X' Y' (in_cache s) st dqs tw"
    "tw_current tw = tw_current (in_timer_wheel s)" "st_next_id st = st_next_id (in_store s)"
  shows "cache_inv cf ops' X' Y' (s\<lparr>in_store := st, in_deques := dqs, in_timer_wheel := tw\<rparr>)"
  using assms by (auto simp: cache_inv_def ve_ok_def)

lemma upd_self [simp]:
  "s\<lparr>in_timer_wheel := in_timer_wheel s\<rparr> = s" "s\<lparr>in_deques := in_deques s\<rparr> = s" "s\<lparr>in_store := in_store s\<rparr> = s"
  "s\<lparr>in_store := st, in_timer_wheel := in_timer_wheel s\<rparr> = s\<lparr>in_store := st\<rparr>"
  "s\<lparr>in_store := st, in_deques := in_deques s\<rparr> = s\<lparr>in_store := st\<rparr>"
  "s\<lparr>in_store := st, in_deques := dqs, in_timer_wheel := in_timer_wheel s\<rparr> = s\<lparr>in_store := st, in_deques := dqs\<rparr>"
  "s\<lparr>in_store := st, in_deques := in_deques s, in_timer_wheel := tw\<rparr> = s\<lparr>in_store := st, in_timer_wheel := tw\<rparr>"
  by (cases s; simp)+

lemma upd_deques_swap:
  "s\<lparr>in_deques := dqs\<rparr> = s\<lparr>in_store := in_store s, in_deques := dqs, in_timer_wheel := in_timer_wheel s\<rparr>"
  by (cases s) simp

lemma cache_inv_perm:
  assumes "cache_inv cf ops X Y s" "deqs_perm (in_deques s) dqs"
  shows "cache_inv cf ops X Y (s\<lparr>in_deques := dqs\<rparr>)"
  using cache_inv_upd[OF assms(1) cinv_perm[OF cache_invD(1)[OF assms(1)] assms(2)]] by simp

lemma cache_inv_info:
  assumes "cache_inv cf ops X Y s" "\<And>j. core_eq j (f j)"
  shows "cache_inv cf ops X Y (s\<lparr>in_store := upd_info i f (in_store s)\<rparr>)"
  using cache_inv_upd[OF assms(1) cinv_info[OF cache_invD(1)[OF assms(1)], of f i, OF assms(2)]] by simp

lemma timer_frame_infos: "timer_frame st st' \<Longrightarrow> same_infos st st'"
  by (simp add: timer_frame_def same_infos_def)

lemma cache_inv_timer:
  assumes "cache_inv cf ops X Y s" "timer_frame (in_store s) st" "wheel_ok st tw"
    "tw_current tw = tw_current (in_timer_wheel s)" "timers_fresh (in_store s) \<longrightarrow> timers_fresh st"
  shows "cache_inv cf ops X Y (s\<lparr>in_store := st, in_timer_wheel := tw\<rparr>)"
  using cache_inv_upd[OF assms(1) cinv_timer[OF cache_invD(1)[OF assms(1)] assms(2,3,5)] assms(4)] assms(2)
  by (simp add: timer_frame_def)

subsection \<open>The timer of an entry\<close>

text \<open>A step of the timer wheel: it exchanges the wheel and the timers of the store.\<close>

definition timer_step :: "('k, 'v, 'z) inner_scheme \<Rightarrow> 'k store \<Rightarrow> timer_wheel \<Rightarrow> bool" where
  "timer_step s st tw \<longleftrightarrow> timer_frame (in_store s) st \<and> wheel_ok st tw \<and>
     tw_current tw = tw_current (in_timer_wheel s) \<and> (timers_fresh (in_store s) \<longrightarrow> timers_fresh st)"

lemma remove_timer_ok:
  assumes "wheel_ok (in_store s) (in_timer_wheel s)"
  shows "\<exists>st tw. remove_timer e s = Some (s\<lparr>in_store := st, in_timer_wheel := tw\<rparr>) \<and> timer_step s st tw"
proof (cases "dns_timer_node (st_nodes (in_store s) (ve_nodes e))")
  case None
  let ?st = "upd_nodes (ve_nodes e) (dns_set_timer_node None 0) (in_store s)"
  have "wheel_ok ?st (in_timer_wheel s)"
  proof (rule wheel_invI)
    note w = wheel_invD[OF assms]
    have at: "timer_at ?st a l i info = timer_at (in_store s) a l i info" for a l i info
      using None by (auto simp: timer_at_def dns_set_timer_node_def)
    have "bucket_ok ?st l i q = bucket_ok (in_store s) l i q" for l i q by (simp add: bucket_ok_def at)
    with w(2) show "bucket_ok ?st l i (bkt (in_timer_wheel s) l i)"
      if "tw_is_enabled (in_timer_wheel s)" "in_range l i" for l i using that by simp
    show "tw_is_enabled (in_timer_wheel s) \<and> (\<exists>l i info. n = Suc info \<and> in_range l i \<and>
        timer_at ?st a l i info \<and> a \<in> set (ad_nodes (bkt (in_timer_wheel s) l i)))"
      if "dns_timer_node (st_nodes ?st n) = Some a" "n \<notin> {}" for n a
      using that(1) w(3)[of n a] unfolding at by (auto simp: dns_set_timer_node_def split: if_splits)
  qed (use wheel_invD[OF assms] in auto)
  moreover have "timers_fresh (in_store s) \<Longrightarrow> timers_fresh ?st"
    by (erule timers_fresh_frame) (auto simp: dns_set_timer_node_def split: if_splits)
  ultimately show ?thesis using None
    by (intro exI[of _ ?st] exI[of _ "in_timer_wheel s"])
      (simp add: remove_timer_def take_timer_node_def timer_step_def)
next
  case (Some a)
  from deschedule_ok[OF assms Some refl, of 0] obtain st tw where
    "deschedule a (dns_timer_node_expiry_gen (st_nodes (in_store s) (ve_nodes e)))
       (upd_nodes (ve_nodes e) (dns_set_timer_node None 0) (in_store s)) (in_timer_wheel s) = Some (st, tw, True)"
    "wheel_ok st tw" "timer_frame (in_store s) st" "tw_current tw = tw_current (in_timer_wheel s)"
    and n: "st_nodes st = st_nodes (upd_nodes (ve_nodes e) (dns_set_timer_node None 0) (in_store s))" by blast
  moreover have "timers_fresh (in_store s) \<Longrightarrow> timers_fresh st"
    by (erule timers_fresh_frame)
      (use n \<open>timer_frame (in_store s) st\<close> in \<open>auto simp: dns_set_timer_node_def timer_frame_def split: if_splits\<close>)
  ultimately show ?thesis using Some
    by (intro exI[of _ st] exI[of _ tw]) (simp add: remove_timer_def take_timer_node_def timer_step_def)
qed

lemma update_timer_wheel_ok:
  assumes w: "wheel_ok (in_store s) (in_timer_wheel s)" and e: "ve_nodes e = Suc (ve_info e)" "ve_nodes e < st_next_id (in_store s)"
  shows "\<exists>st tw. update_timer_wheel e s = Some (s\<lparr>in_store := st, in_timer_wheel := tw\<rparr>) \<and> timer_step s st tw"
proof -
  obtain x g where x: "expiration_state (info_of (in_store s) e) = (x, g)" by fastforce
  have "\<exists>st1 tw1. (if x \<noteq> None \<and> \<not> tw_is_enabled (in_timer_wheel s)
      then tw_enable (in_store s) (in_timer_wheel s) else Some (in_store s, in_timer_wheel s)) = Some (st1, tw1) \<and>
      timer_step s st1 tw1 \<and> st_nodes st1 = st_nodes (in_store s) \<and> (x \<noteq> None \<longrightarrow> tw_is_enabled tw1)"
  proof (cases "x \<noteq> None \<and> \<not> tw_is_enabled (in_timer_wheel s)")
    case True
    obtain st' tw' where "tw_enable (in_store s) (in_timer_wheel s) = Some (st', tw')" "wheel_ok st' tw'" "tw_is_enabled tw'"
      "timer_frame (in_store s) st'" "st_nodes st' = st_nodes (in_store s)" "tw_current tw' = tw_current (in_timer_wheel s)"
      using tw_enable_ok[OF w] True by blast
    then show ?thesis using True by (auto simp: timer_step_def timers_fresh_def timer_frame_def)
  next
    case False
    then show ?thesis using w by (auto simp: timer_step_def)
  qed
  then obtain st1 tw1 where 1: "(if x \<noteq> None \<and> \<not> tw_is_enabled (in_timer_wheel s)
      then tw_enable (in_store s) (in_timer_wheel s) else Some (in_store s, in_timer_wheel s)) = Some (st1, tw1)"
    and step1: "timer_step s st1 tw1" and en: "x \<noteq> None \<Longrightarrow> tw_is_enabled tw1" by blast
  have inf: "st_infos st1 = st_infos (in_store s)" using step1 by (simp add: timer_step_def timer_frame_def)
  have w1: "wheel_ok st1 tw1" using step1 by (simp add: timer_step_def)
  define g1 where "g1 = dns_timer_node_expiry_gen (st_nodes st1 (ve_nodes e))"
  have step: "timer_step s st tw" if "timer_frame st1 st" "wheel_ok st tw" "tw_current tw = tw_current tw1"
      "\<And>n. dns_timer_node (st_nodes st n) \<noteq> None \<Longrightarrow> dns_timer_node (st_nodes st1 n) \<noteq> None \<or> n = ve_nodes e" for st tw
  proof -
    note t = that
    have "timers_fresh st" if f: "timers_fresh st1"
      unfolding timers_fresh_def
    proof (intro allI impI)
      fix n assume "dns_timer_node (st_nodes st n) \<noteq> None"
      from t(4)[OF this] show "n < st_next_id st"
        using f e(2) step1 t(1) by (auto simp: timers_fresh_def timer_step_def timer_frame_def)
    qed
    with t(1-3) step1 timer_frame_trans[of "in_store s" st1 st] show ?thesis by (simp add: timer_step_def)
  qed
  note en1 = 1
  consider (1) "x = None" "dns_timer_node (st_nodes st1 (ve_nodes e)) = None"
    | (2) t where "x = Some t" "dns_timer_node (st_nodes st1 (ve_nodes e)) = None"
    | (3) t a where "x = Some t" "dns_timer_node (st_nodes st1 (ve_nodes e)) = Some a"
    | (4) a where "x = None" "dns_timer_node (st_nodes st1 (ve_nodes e)) = Some a"
    by (cases x; cases "dns_timer_node (st_nodes st1 (ve_nodes e))") auto
  then show ?thesis
  proof cases
    case 1
    with en1 x step1 show ?thesis
      by (intro exI[of _ st1] exI[of _ tw1]) (simp add: update_timer_wheel_def timer_node_with_expiry_gen_def)
  next
    case (2 t)
    have "expiration_state (st_infos st1 (ve_info e)) = (Some t, g)" using x 2(1) inf by (simp add: info_of_def)
    from schedule_ok[OF w1 en _ this] 2 e obtain st tw a where
      sc: "schedule (ve_info e) (ve_nodes e) g st1 tw1 = Some (st, tw, Some a)"
      "wheel_ok (set_timer_node e (Some a) g st) tw" "timer_frame st1 st" "tw_current tw = tw_current tw1" "st_nodes st = st_nodes st1"
      unfolding set_timer_node_def by auto
    have "timer_step s (set_timer_node e (Some a) g st) tw"
      by (rule step) (use sc in \<open>auto simp: set_timer_node_def split: if_splits\<close>)
    with en1 x 2 sc(1) show ?thesis
      by (intro exI[of _ "set_timer_node e (Some a) g st"] exI[of _ tw])
        (simp add: update_timer_wheel_def timer_node_with_expiry_gen_def)
  next
    case (3 t a)
    have "fst (expiration_state (st_infos st1 (ve_info e))) = Some t" using x 3(1) inf by (simp add: info_of_def)
    from reschedule_ok[OF w1 _ _ this, of a g1] 3(2) e(1) g1_def obtain st tw where
      r: "reschedule a g1 st1 tw1 = Some (st, tw, Some RRescheduled)" "wheel_ok st tw" "timer_frame st1 st"
      "st_nodes st = st_nodes st1" "tw_current tw = tw_current tw1" by auto
    have "timer_step s st tw" by (rule step[OF r(3,2,5)]) (simp add: r(4))
    with r(1) en1 x 3 show ?thesis
      by (intro exI[of _ st] exI[of _ tw])
        (simp add: update_timer_wheel_def timer_node_with_expiry_gen_def g1_def)
  next
    case (4 a)
    from deschedule_ok[OF w1 4(2), of g1 g] g1_def obtain st tw where
      d: "deschedule a g1 (set_timer_node e None g st1) tw1 = Some (st, tw, True)" "wheel_ok st tw" "timer_frame st1 st"
      "st_nodes st = st_nodes (upd_nodes (ve_nodes e) (dns_set_timer_node None g) st1)" "tw_current tw = tw_current tw1"
      unfolding set_timer_node_def by auto
    have "timer_step s st tw" by (rule step[OF d(3,2,5)]) (auto simp: d(4) split: if_splits)
    with d(1) en1 x 4 show ?thesis
      by (intro exI[of _ st] exI[of _ tw])
        (simp add: update_timer_wheel_def timer_node_with_expiry_gen_def g1_def)
  qed
qed

end
