(* ===== verification/Maint_Inv.thy ===== *)
theory Maint_Inv
  imports Cache_Inv
begin

text \<open>
  Every handler of the maintenance returns and keeps the invariant: removals, admission, reads
  and writes, expiration, invalidation and size-based eviction, and the maintenance run as a whole.
\<close>

section \<open>Removals\<close>

text \<open>A handler that does not change the table and admits no entry.\<close>

definition handles :: "('k, 'v) maint \<Rightarrow> ('k, 'v) maint \<Rightarrow> bool" where
  "handles s s' \<longleftrightarrow> evicts s s' \<and> in_cache s' = in_cache s \<and>
     (\<forall>i. alive (in_store s') i = alive (in_store s) i \<and> (adm (in_store s') i \<longrightarrow> adm (in_store s) i))"

lemma handles_refl [simp]: "handles s s"
  by (simp add: handles_def)

lemma handles_trans [trans]: "handles s s' \<Longrightarrow> handles s' s'' \<Longrightarrow> handles s s''"
  by (auto simp: handles_def intro: evicts_trans)

lemma handles_evicts: "handles s s' \<Longrightarrow> evicts s s'"
  by (simp add: handles_def)

lemma maint_invD:
  assumes "maint_inv cf ops X Y s"
  shows "cache_inv cf ops X Y s" "cinv cf ops X Y (in_cache s) (in_store s) (in_deques s) (in_timer_wheel s)"
    "deqs_ok (in_store s) (in_deques s)" "wheel_ok (in_store s) (in_timer_wheel s)"
    "tbl_ok cf (in_cache s) (in_store s)" "pend_ok ops X Y (in_cache s) (in_store s)"
    "ec_entry_count (es_counters s) = word_of_nat (length (prob (in_deques s)))"
  using assms cinvD[OF cache_invD(1)] unfolding maint_inv_def by (auto dest: cache_invD)

lemma handles_timer:
  assumes "maint_inv cf ops X Y s" "timer_step s st tw"
  shows "maint_inv cf ops X Y (s\<lparr>in_store := st, in_timer_wheel := tw\<rparr>)"
    "handles s (s\<lparr>in_store := st, in_timer_wheel := tw\<rparr>)"
  using cache_inv_timer[OF maint_invD(1)[OF assms(1)]] maint_invD(7)[OF assms(1)] assms(2)
    timer_frame_infos[of "in_store s" st]
  by (simp_all add: timer_step_def maint_inv_def handles_def evicts_def timer_frame_def)

lemma handles_perm:
  assumes "maint_inv cf ops X Y s" "deqs_perm (in_deques s) dqs"
  shows "maint_inv cf ops X Y (s\<lparr>in_deques := dqs\<rparr>)" "handles s (s\<lparr>in_deques := dqs\<rparr>)"
  using cache_inv_perm[OF maint_invD(1)[OF assms(1)] assms(2)] maint_invD(7)[OF assms(1)] assms(2)
  by (simp_all add: maint_inv_def handles_def evicts_def deqs_perm_def deq_perm_def)

lemma handles_policy_gen:
  assumes "maint_inv cf ops X Y s"
  shows "maint_inv cf ops X Y (apply_policy_gen e g s)" "handles s (apply_policy_gen e g s)"
  using cache_inv_info[OF maint_invD(1)[OF assms], of "set_policy_gen g"] maint_invD(7)[OF assms]
  by (simp_all add: maint_inv_def handles_def evicts_def apply_policy_gen_def same_infos_def)

lemma upd_counters_sel [simp]:
  "in_cache (upd_counters f s) = in_cache s" "in_store (upd_counters f s) = in_store s"
  "in_deques (upd_counters f s) = in_deques s" "in_timer_wheel (upd_counters f s) = in_timer_wheel s"
  "in_frequency_sketch (upd_counters f s) = in_frequency_sketch s" "in_ticks (upd_counters f s) = in_ticks s"
  "in_read_op_ch (upd_counters f s) = in_read_op_ch s" "in_write_op_ch (upd_counters f s) = in_write_op_ch s"
  "in_valid_after (upd_counters f s) = in_valid_after s" "in_invalidator (upd_counters f s) = in_invalidator s"
  "es_counters (upd_counters f s) = f (es_counters s)" "es_notifier (upd_counters f s) = es_notifier s"
  "in_removal_notifier (upd_counters f s) = in_removal_notifier s"
  by (simp_all add: upd_counters_def)

lemma cache_inv_counters [simp]: "cache_inv cf ops X Y (upd_counters f s) = cache_inv cf ops X Y s"
  by (simp add: cache_inv_def)

lemma counters_sel [simp]:
  "ec_eviction_count (counters_saturating_sub n w c) = ec_eviction_count c"
  "ec_eviction_count (counters_saturating_add n w c) = ec_eviction_count c"
  "ec_entry_count (counters_saturating_sub n w c) = ec_entry_count c - n"
  "ec_entry_count (counters_saturating_add n w c) = ec_entry_count c + n"
  "ec_entry_count (incr_eviction_count c) = ec_entry_count c"
  "ec_weighted_size (incr_eviction_count c) = ec_weighted_size c"
  by (simp_all add: counters_saturating_sub_def counters_saturating_add_def incr_eviction_count_def)

lemma handles_weights:
  "maint_inv cf ops X Y (upd_counters (counters_saturating_sub 0 w) s) = maint_inv cf ops X Y s"
  "maint_inv cf ops X Y (upd_counters (counters_saturating_add 0 w) s) = maint_inv cf ops X Y s"
  "handles s (upd_counters (counters_saturating_sub 0 w) s)" "handles s (upd_counters (counters_saturating_add 0 w) s)"
  by (simp_all add: maint_inv_def handles_def evicts_def)

text \<open>What the removal handlers have in common: the entry leaves the deques.\<close>

definition remove_nodes :: "'v value_entry \<Rightarrow> ('k, 'v) maint \<Rightarrow> ('k, 'v) maint or_panic" where
  "remove_nodes e s =
     (if ve_is_admitted (in_store s) e then
        do { (st, dqs) \<leftarrow> remove_from_deques e (in_store s) (in_deques s);
             Some ((upd_counters (counters_saturating_sub 1 (ve_policy_weight (in_store s) e)) s)
                     \<lparr>in_store := st, in_deques := dqs\<rparr>) }
      else Some (s\<lparr>in_store := unset_q_nodes e (in_store s)\<rparr>))"

lemma remove_nodes_ok:
  assumes inv: "maint_inv cf ops X Y s" and e: "ve_ok (in_store s) e" "\<not> alive (in_store s) (ve_info e)"
  shows "\<exists>s'. remove_nodes e s = Some s' \<and> maint_inv cf ops (X - {ve_info e}) Y s' \<and> handles s s' \<and>
    in_timer_wheel s' = in_timer_wheel s \<and> st_timers (in_store s') = st_timers (in_store s)"
proof (cases "adm (in_store s) (ve_info e)")
  case True
  note i = maint_invD[OF inv]
  from remove_from_deques_ok[OF i(3) _ True] e obtain st dqs where
    r: "remove_from_deques e (in_store s) (in_deques s) = Some (st, dqs)" "deqs_ok st dqs"
    "deq_frame (ve_info e) False (in_store s) st" "Suc (length (prob dqs)) = length (prob (in_deques s))"
    by (auto simp: ve_ok_def)
  note f = r(3)[unfolded deq_frame_def]
  let ?s = "(upd_counters (counters_saturating_sub 1 (ve_policy_weight (in_store s) e)) s)\<lparr>in_store := st, in_deques := dqs\<rparr>"
  have "cinv cf ops (X - {ve_info e}) Y (in_cache s) st dqs (in_timer_wheel s)"
    by (rule cinv_removed[OF i(2) e(2) r(2,3)])
  then have "cache_inv cf ops (X - {ve_info e}) Y ?s"
    using cache_inv_upd[of cf ops X Y "upd_counters (counters_saturating_sub 1 (ve_policy_weight (in_store s) e)) s"
        ops "X - {ve_info e}" Y st dqs "in_timer_wheel s"] i(1) f upd_self(6) by (metis cache_inv_counters upd_counters_sel(1,2,4))
  moreover have "(word_of_nat (length (prob dqs)) :: u64) = word_of_nat (length (prob (in_deques s))) - 1"
    unfolding r(4)[symmetric] by simp
  moreover have "same_infos (in_store s) st" "alive st j = alive (in_store s) j" "adm st j \<Longrightarrow> adm (in_store s) j" for j
    using flag_frame(1,6,8)[of st "in_store s" "ve_info e" False] f by (metis (full_types))+
  ultimately have "maint_inv cf ops (X - {ve_info e}) Y ?s \<and> handles s ?s"
    using i(7) by (simp add: maint_inv_def handles_def evicts_def)
  moreover have "remove_nodes e s = Some ?s"
    using True r(1) by (simp add: remove_nodes_def ve_is_admitted_def info_of_def)
  ultimately show ?thesis using f by auto
next
  case False
  note i = maint_invD[OF inv]
  let ?st = "unset_q_nodes e (in_store s)"
  have none: "ao_ptr (in_store s) (ve_nodes e) = None" "wo_ptr (in_store s) (ve_nodes e) = None"
    using deqs_ok_not_adm[OF i(3) False] e by (simp_all add: ve_ok_def)
  then have "unset_q_nodes e (in_store s) = in_store s"
    by (cases "st_nodes (in_store s) (ve_nodes e)") (simp add: unset_q_nodes_def upd_nodes_def fun_upd_idem)
  then have "remove_nodes e s = Some s"
    using False by (simp add: remove_nodes_def ve_is_admitted_def info_of_def)
  moreover have "cinv cf ops (X - {ve_info e}) Y (in_cache s) (in_store s) (in_deques s) (in_timer_wheel s)"
    using i(2) False unfolding cinv_def pend_ok_def by blast
  ultimately show ?thesis using inv by (auto simp: maint_inv_def cache_inv_def)
qed

lemma handle_remove_without_timer_wheel_eq:
  "handle_remove_without_timer_wheel e gen s =
     do { s \<leftarrow> remove_nodes e s; Some (case gen of Some g \<Rightarrow> apply_policy_gen e g s | None \<Rightarrow> s) }"
proof -
  have w: "ve_policy_weight (ve_set_admitted False e (in_store s)) e = ve_policy_weight (in_store s) e"
    by (simp add: ve_policy_weight_def ve_set_admitted_def info_of_def set_admitted_def)
  show ?thesis
    by (auto simp: handle_remove_without_timer_wheel_def remove_nodes_def remove_from_deques_def w Let_def
        apply_policy_gen_def split: option.splits Option.bind_split)
qed

lemma handle_remove_without_ok:
  assumes "maint_inv cf ops X Y s" "ve_ok (in_store s) e" "\<not> alive (in_store s) (ve_info e)"
  shows "\<exists>s'. handle_remove_without_timer_wheel e gen s = Some s' \<and> maint_inv cf ops (X - {ve_info e}) Y s' \<and>
    handles s s' \<and> in_timer_wheel s' = in_timer_wheel s \<and> st_timers (in_store s') = st_timers (in_store s)"
proof -
  obtain s1 where s1: "remove_nodes e s = Some s1" "maint_inv cf ops (X - {ve_info e}) Y s1" "handles s s1"
    "in_timer_wheel s1 = in_timer_wheel s" "st_timers (in_store s1) = st_timers (in_store s)"
    using remove_nodes_ok[OF assms] by blast
  show ?thesis
  proof (cases gen)
    case None
    with s1 show ?thesis by (simp add: handle_remove_without_timer_wheel_eq)
  next
    case (Some g)
    with s1 handles_policy_gen[OF s1(2), of e g] handles_trans[OF s1(3)] show ?thesis
      by (simp add: handle_remove_without_timer_wheel_eq) (simp add: apply_policy_gen_def)
  qed
qed

lemma handle_remove_ok:
  assumes "maint_inv cf ops X Y s" "ve_ok (in_store s) e" "\<not> alive (in_store s) (ve_info e)"
  shows "\<exists>s'. handle_remove e gen s = Some s' \<and> maint_inv cf ops (X - {ve_info e}) Y s' \<and> handles s s'"
proof -
  obtain st tw where t: "remove_timer e s = Some (s\<lparr>in_store := st, in_timer_wheel := tw\<rparr>)" "timer_step s st tw"
    using remove_timer_ok[OF maint_invD(4)[OF assms(1)]] by blast
  let ?s = "s\<lparr>in_store := st, in_timer_wheel := tw\<rparr>"
  note h = handles_timer[OF assms(1) t(2)]
  have "ve_ok (in_store ?s) e" "\<not> alive (in_store ?s) (ve_info e)"
    using assms(2,3) t(2) by (simp_all add: ve_ok_def timer_step_def timer_frame_def)
  from handle_remove_without_ok[OF h(1) this, of gen] handles_trans[OF h(2)] t(1) show ?thesis
    by (simp add: handle_remove_def) blast
qed

lemma handle_remove_with_deques_eq:
  assumes "maint_inv cf ops X Y s" "ve_ok (in_store s) e"
  shows "handle_remove_with_deques MainProbation e s = handle_remove e None s"
proof -
  obtain st tw where t: "remove_timer e s = Some (s\<lparr>in_store := st, in_timer_wheel := tw\<rparr>)" "timer_step s st tw"
    using remove_timer_ok[OF maint_invD(4)[OF assms(1)]] by blast
  let ?s = "s\<lparr>in_store := st, in_timer_wheel := tw\<rparr>"
  have ok: "deqs_ok st (in_deques s)" using maint_invD(3)[OF handles_timer(1)[OF assms(1) t(2)]] by simp
  have e: "ve_nodes e = Suc (ve_info e)" using assms(2) by (simp add: ve_ok_def)
  show ?thesis
  proof (cases "adm st (ve_info e)")
    case True
    have u: "unlink_ao e (ve_set_admitted False e st) (in_deques s) =
        do { (st, q) \<leftarrow> unlink_ao_from_deque e (ve_set_admitted False e st) (dqs_probation (in_deques s));
             Some (st, (in_deques s)\<lparr>dqs_probation := q\<rparr>) }"
      by (rule unlink_ao_from_deque_eq[OF ok True e])
    show ?thesis
      using True t(1)
      by (auto simp: handle_remove_with_deques_def handle_remove_def handle_remove_without_timer_wheel_def
          ve_is_admitted_def info_of_def select_mut_def u Let_def split: Option.bind_split)
  next
    case False
    then show ?thesis using t(1)
      by (simp add: handle_remove_with_deques_def handle_remove_def handle_remove_without_timer_wheel_def
          ve_is_admitted_def info_of_def)
  qed
qed

section \<open>Evictions\<close>

lemma maint_inv_mono:
  "maint_inv cf ops X Y s \<Longrightarrow> X \<subseteq> X' \<Longrightarrow> Y \<subseteq> Y' \<Longrightarrow> maint_inv cf ops X' Y' s"
  unfolding maint_inv_def cache_inv_def cinv_def pend_ok_def by blast

lemma cht_remove_None: "cht_remove_if_and_retire k c s = (s1, None) \<Longrightarrow> s1 = s"
  by (auto simp: cht_remove_if_and_retire_def split: option.splits if_splits)

lemma cht_remove_Some:
  "cht_remove_if_and_retire k c s = (s1, Some e) \<Longrightarrow> in_cache s k = Some e \<and> c e \<and>
     s1 = s\<lparr>in_cache := (in_cache s)(k := None), in_store := upd_info (ve_info e) retire (in_store s)\<rparr>"
  by (auto simp: cht_remove_if_and_retire_def split: option.splits if_splits)

lemma notify_and_count_eq:
  "\<exists>rn. notify_and_count k e cause s = Some (upd_counters incr_eviction_count (s\<lparr>in_removal_notifier := rn\<rparr>))"
proof (cases "es_notifier s")
  case True
  then show ?thesis
    by (auto simp: notify_and_count_def notify_entry_removal_def notify_single_removal_def)
next
  case False
  then show ?thesis
    by (intro exI[of _ "in_removal_notifier s"]) (simp add: notify_and_count_def)
qed

lemma cache_inv_retire:
  assumes "cache_inv cf ops X Y s" "in_cache s k = Some e"
  shows "cache_inv cf ops (insert (ve_info e) X) Y
    (s\<lparr>in_cache := (in_cache s)(k := None), in_store := upd_info (ve_info e) retire (in_store s)\<rparr>)"
  using assms cinv_retire[OF cache_invD(1)[OF assms(1)] assms(2)] by (auto simp: cache_inv_def ve_ok_def)

lemma evict_ok:
  assumes inv: "maint_inv cf ops X Y s" and r: "cht_remove_if_and_retire k c s = (s1, Some e)"
  shows "\<exists>s2. notify_and_count k e cause s1 = Some s2 \<and> maint_inv cf ops (insert (ve_info e) X) Y s2 \<and>
    evicts s s2 \<and> in_cache s2 = (in_cache s)(k := None) \<and> in_deques s2 = in_deques s \<and>
    in_store s2 = upd_info (ve_info e) retire (in_store s) \<and> in_timer_wheel s2 = in_timer_wheel s \<and>
    ve_ok (in_store s2) e \<and> \<not> alive (in_store s2) (ve_info e)"
proof -
  note c = cht_remove_Some[OF r]
  obtain rn where n: "notify_and_count k e cause s1 = Some (upd_counters incr_eviction_count (s1\<lparr>in_removal_notifier := rn\<rparr>))"
    using notify_and_count_eq[of k e cause s1] by blast
  let ?s = "upd_counters incr_eviction_count (s1\<lparr>in_removal_notifier := rn\<rparr>)"
  have "cache_inv cf ops (insert (ve_info e) X) Y s1"
    using cache_inv_retire[OF maint_invD(1)[OF inv], of k e] c by simp
  then have "maint_inv cf ops (insert (ve_info e) X) Y ?s"
    using maint_invD(7)[OF inv] c by (simp add: maint_inv_def cache_inv_def)
  moreover have "(in_cache s)(k := None) \<noteq> in_cache s" using c by (metis fun_upd_same option.distinct(1))
  then have "evicts s ?s" using c retire_frame(7) by (simp add: evicts_def map_le_def)
  moreover have "ve_ok (in_store s) e" using tbl_okD(2)[OF maint_invD(5)[OF inv]] c by blast
  then have "ve_ok (in_store ?s) e" using c by (simp add: ve_ok_def)
  ultimately show ?thesis using n c by simp
qed

text \<open>An eviction followed by the removal from the deques.\<close>

lemma evict_and_remove_ok:
  assumes "maint_inv cf ops X Y s" "cht_remove_if_and_retire k c s = (s1, Some e)"
  shows "\<exists>s2. do { s \<leftarrow> notify_and_count k e cause s1; handle_remove e None s } = Some s2 \<and>
    maint_inv cf ops X Y s2 \<and> evicts s s2"
proof -
  obtain s2 where s2: "notify_and_count k e cause s1 = Some s2" "maint_inv cf ops (insert (ve_info e) X) Y s2"
    "evicts s s2" "ve_ok (in_store s2) e" "\<not> alive (in_store s2) (ve_info e)"
    using evict_ok[OF assms, of cause] by blast
  obtain s3 where "handle_remove e None s2 = Some s3" "maint_inv cf ops (insert (ve_info e) X - {ve_info e}) Y s3"
    "handles s2 s3" using handle_remove_ok[OF s2(2,4,5), of None] by blast
  with s2 maint_inv_mono[of cf ops _ Y s3 X Y] evicts_trans[OF s2(3) handles_evicts] show ?thesis by auto
qed

lemma deqs_shapeD:
  "deqs_ok st dqs \<Longrightarrow> ad_ok (dqs_probation dqs)" "deqs_ok st dqs \<Longrightarrow> ad_ok (dqs_write_order dqs)"
  "deqs_ok st dqs \<Longrightarrow> dqs_window dqs = ad_new Window" "deqs_ok st dqs \<Longrightarrow> dqs_protected dqs = ad_new MainProtected"
  using deqs_okD(1)[of st dqs] by (auto simp: deqs_shape_def)

lemma skip_ao_ok:
  assumes inv: "maint_inv cf ops X Y s"
  shows "\<exists>s'. skip_updated_entry_ao key MainProbation s = Some s' \<and> maint_inv cf ops X Y s' \<and> handles s s'"
proof -
  note ok = maint_invD(3)[OF inv]
  have "\<exists>dqs. skip_updated_entry_ao key MainProbation s = Some (s\<lparr>in_deques := dqs\<rparr>) \<and> deqs_perm (in_deques s) dqs"
  proof (cases "in_cache s key")
    case None
    obtain q where q: "ad_move_front_to_back (dqs_probation (in_deques s)) = Some q" "deq_perm (dqs_probation (in_deques s)) q"
      using deq_perm_move_front[OF deqs_shapeD(1)[OF ok]] by blast
    let ?d = "(in_deques s)\<lparr>dqs_probation := q\<rparr>"
    have "deqs_perm (in_deques s) ?d" using q deqs_shapeD(2)[OF ok] by (simp add: deqs_perm_def deq_perm_refl)
    with None q show ?thesis by (auto simp: skip_updated_entry_ao_def select_mut_def)
  next
    case (Some e)
    obtain q where q: "move_to_back_ao_in_deque e (in_store s) (dqs_probation (in_deques s)) = Some q"
      "deq_perm (dqs_probation (in_deques s)) q" using move_to_back_ao_in_deque_ok[OF ok] by blast
    obtain w where w: "(if is_dirty (info_of (in_store s) e)
        then move_to_back_wo_in_deque e (in_store s) (dqs_write_order (in_deques s))
        else Some (dqs_write_order (in_deques s))) = Some w" "deq_perm (dqs_write_order (in_deques s)) w"
      using move_to_back_wo_in_deque_ok[OF ok deq_perm_refl[OF deqs_shapeD(2)[OF ok]]]
        deq_perm_refl[OF deqs_shapeD(2)[OF ok]] by (cases "is_dirty (info_of (in_store s) e)") auto
    let ?d = "(in_deques s)\<lparr>dqs_probation := q, dqs_write_order := w\<rparr>"
    have "skip_updated_entry_ao key MainProbation s = Some (s\<lparr>in_deques := ?d\<rparr>)"
      using Some q w by (simp add: skip_updated_entry_ao_def select_mut_def)
    moreover have "deqs_perm (in_deques s) ?d" using q w by (simp add: deqs_perm_def)
    ultimately show ?thesis by blast
  qed
  with handles_perm[OF inv] show ?thesis by blast
qed

lemma skip_wo_ok:
  assumes inv: "maint_inv cf ops X Y s"
  shows "\<exists>s'. skip_updated_entry_wo key s = Some s' \<and> maint_inv cf ops X Y s' \<and> handles s s'"
proof -
  note ok = maint_invD(3)[OF inv]
  have "\<exists>dqs. skip_updated_entry_wo key s = Some (s\<lparr>in_deques := dqs\<rparr>) \<and> deqs_perm (in_deques s) dqs"
  proof (cases "in_cache s key")
    case None
    obtain q where q: "ad_move_front_to_back (dqs_write_order (in_deques s)) = Some q" "deq_perm (dqs_write_order (in_deques s)) q"
      using deq_perm_move_front[OF deqs_shapeD(2)[OF ok]] by blast
    let ?d = "(in_deques s)\<lparr>dqs_write_order := q\<rparr>"
    have "deqs_perm (in_deques s) ?d" using q deqs_shapeD(1)[OF ok] by (simp add: deqs_perm_def deq_perm_refl)
    with None q show ?thesis by (auto simp: skip_updated_entry_wo_def)
  next
    case (Some e)
    obtain d where d: "move_to_back_ao e (in_store s) (in_deques s) = Some d" "deqs_perm (in_deques s) d"
      using move_to_back_ao_ok[OF ok] by blast
    obtain d' where "move_to_back_wo e (in_store s) d = Some d'" "deqs_perm d d'"
      using move_to_back_wo_ok[OF deqs_ok_perm[OF ok d(2)]] by blast
    with Some d deqs_perm_trans[OF d(2)] show ?thesis by (auto simp: skip_updated_entry_wo_def)
  qed
  with handles_perm[OF inv] show ?thesis by blast
qed

lemma front_info_ok:
  assumes "deqs_ok st dqs"
  shows "\<exists>x. front_info st (dqs_probation dqs) = Some x" "\<exists>x. front_info st (dqs_write_order dqs) = Some x"
proof -
  show "\<exists>x. front_info st (dqs_probation dqs) = Some x"
    using deqs_okD(4)[OF assms] by (cases "prob dqs") (fastforce simp: front_info_def ad_peek_front_def)+
  show "\<exists>x. front_info st (dqs_write_order dqs) = Some x"
    using deqs_okD(5)[OF assms] by (cases "wrts dqs") (fastforce simp: front_info_def ad_peek_front_def)+
qed

text \<open>One iteration of an eviction loop.\<close>

lemma remove_front_ok:
  assumes inv: "maint_inv cf ops X Y s"
    and handle: "\<And>e s. maint_inv cf ops (insert (ve_info e) X) Y s \<Longrightarrow> ve_ok (in_store s) e \<Longrightarrow> handle e s = handle_remove e None s"
    and skip: "\<And>s. maint_inv cf ops X Y s \<Longrightarrow> \<exists>s'. skip s = Some s' \<and> maint_inv cf ops X Y s' \<and> handles s s'"
  shows "\<exists>s' m r. remove_front key cause condition handle skip more_to_evict s = Some (s', m, r) \<and> maint_inv cf ops X Y s' \<and>
    evicts s s'"
proof -
  obtain s1 r where r: "cht_remove_if_and_retire key condition s = (s1, r)" by fastforce
  show ?thesis
  proof (cases r)
    case None
    have "s1 = s" using cht_remove_None[of key condition s s1] r None by simp
    moreover obtain s' where "skip s = Some s'" "maint_inv cf ops X Y s'" "handles s s'" using skip[OF inv] by blast
    ultimately show ?thesis using r None handles_evicts[of s s'] by (auto simp: remove_front_def)
  next
    case (Some e)
    from evict_ok[OF inv r[unfolded Some], of cause] obtain s2 where
      s2: "notify_and_count key e cause s1 = Some s2" "maint_inv cf ops (insert (ve_info e) X) Y s2" "ve_ok (in_store s2) e"
      by blast
    from evict_and_remove_ok[OF inv r[unfolded Some], of cause] obtain s3 where
      s3: "do { s \<leftarrow> notify_and_count key e cause s1; handle_remove e None s } = Some s3" "maint_inv cf ops X Y s3" "evicts s s3"
      by blast
    have "handle e s2 = Some s3" using s3(1) s2(1) handle[OF s2(2,3)] by simp
    then have "remove_front key cause condition handle skip more_to_evict s =
        Some (s3, more_to_evict, Some e)"
      using r Some s2(1) by (simp add: remove_front_def)
    with s3 show ?thesis by blast
  qed
qed

lemma remove_front_ao_ok:
  assumes "maint_inv cf ops X Y s"
  shows "\<exists>s' m r. remove_front key cause condition (handle_remove_with_deques MainProbation)
      (skip_updated_entry_ao key MainProbation) more_to_evict s = Some (s', m, r) \<and> maint_inv cf ops X Y s' \<and> evicts s s'"
  by (rule remove_front_ok[OF assms]) (rule handle_remove_with_deques_eq skip_ao_ok, assumption+)+

lemma remove_front_wo_ok:
  assumes "maint_inv cf ops X Y s"
  shows "\<exists>s' m r. remove_front key cause condition (\<lambda>e. handle_remove e None)
      (skip_updated_entry_wo key) more_to_evict s = Some (s', m, r) \<and> maint_inv cf ops X Y s' \<and> evicts s s'"
  by (rule remove_front_ok[OF assms]) (rule refl skip_wo_ok, assumption?)+

end
