(* ===== verification/Maint_Evict.thy ===== *)
theory Maint_Evict
  imports Maint_Inv
begin

text \<open>
  The eviction steps of the maintenance return and keep the invariant: the loops that remove
  expired, invalidated and excess entries from the deques, the timer events, and the batches of
  the invalidation predicates. All of them only remove entries from the table.
\<close>

section \<open>The loops over the deques\<close>

definition keeps ::
  "('k, 'v) config \<Rightarrow> ('k, 'v) write_op set \<Rightarrow> info_id set \<Rightarrow> info_id set \<Rightarrow> ('k, 'v) maint \<Rightarrow> ('k, 'v) maint \<Rightarrow> bool" where
  "keeps cf ops X Y s s' \<longleftrightarrow> maint_inv cf ops X Y s' \<and> evicts s s'"

lemma keepsD: "keeps cf ops X Y s s' \<Longrightarrow> maint_inv cf ops X Y s'" "keeps cf ops X Y s s' \<Longrightarrow> evicts s s'"
  by (simp_all add: keeps_def)

lemma keeps_refl: "maint_inv cf ops X Y s \<Longrightarrow> keeps cf ops X Y s s"
  by (simp add: keeps_def)

lemma keeps_trans: "keeps cf ops X Y s s' \<Longrightarrow> keeps cf ops X' Y' s' s'' \<Longrightarrow> keeps cf ops X' Y' s s''"
  by (auto simp: keeps_def intro: evicts_trans)

lemma keeps_more [simp]:
  "keeps cf ops X Y s (s'\<lparr>es_more_entries_to_evict := b\<rparr>) = keeps cf ops X Y s s'"
  "maint_inv cf ops X Y (s'\<lparr>es_more_entries_to_evict := b\<rparr>) = maint_inv cf ops X Y s'"
  "evicts s (s'\<lparr>es_more_entries_to_evict := b\<rparr>) = evicts s s'"
  "keeps cf ops X Y (s\<lparr>es_more_entries_to_evict := b\<rparr>) s' = keeps cf ops X Y s s'"
  by (simp_all add: keeps_def maint_inv_def cache_inv_def evicts_def)

text \<open>A computation that starts with a step that keeps the invariant.\<close>

lemma keeps_step:
  assumes "yields (\<lambda>x. keeps cf ops X Y s (g x)) r"
    and "\<And>x. maint_inv cf ops X Y (g x) \<Longrightarrow> yields (\<lambda>y. keeps cf ops X' Y' (g x) (h y)) (f x)"
  shows "yields (\<lambda>y. keeps cf ops X' Y' s (h y)) (r \<bind> f)"
proof -
  obtain x where x: "r = Some x" "keeps cf ops X Y s (g x)" using assms(1) by (rule yieldsE)
  show ?thesis
    unfolding x(1) by (simp, rule yields_mono[OF assms(2)[OF keepsD(1)[OF x(2)]]]) (rule keeps_trans[OF x(2)])
qed

lemma remove_front_yields:
  assumes "maint_inv cf ops X Y s"
  shows "yields (\<lambda>x. keeps cf ops X Y s (fst x))
      (remove_front key cause condition (handle_remove_with_deques MainProbation)
         (skip_updated_entry_ao key MainProbation) more_to_evict s)"
    and "yields (\<lambda>x. keeps cf ops X Y s (fst x))
      (remove_front key cause condition (\<lambda>e. handle_remove e None) (skip_updated_entry_wo key) more_to_evict s)"
  using remove_front_ao_ok[OF assms, of key cause condition more_to_evict]
    remove_front_wo_ok[OF assms, of key cause condition more_to_evict]
  unfolding yields_def keeps_def by fastforce+

lemma skip_yields:
  assumes "maint_inv cf ops X Y s"
  shows "yields (keeps cf ops X Y s) (skip_updated_entry_ao key MainProbation s)"
    and "yields (keeps cf ops X Y s) (skip_updated_entry_wo key s)"
  using skip_ao_ok[OF assms, of key] skip_wo_ok[OF assms, of key] unfolding yields_def keeps_def
  by (meson handles_evicts)+

lemma empty_region_front:
  assumes "deqs_ok st dqs" "region = Window \<or> region = MainProtected"
  shows "\<exists>q. select_mut region dqs = Some (q, dqs_write_order dqs) \<and> front_info st q = Some None"
  using assms(2) deqs_shapeD(3,4)[OF assms(1)]
  by (auto simp: select_mut_def front_info_def ad_peek_front_def ad_new_def)

lemma remove_expired_ao_loop_empty:
  assumes "maint_inv cf ops X Y s" "region = Window \<or> region = MainProtected"
  shows "yields (\<lambda>x. keeps cf ops X Y s (fst x)) (remove_expired_ao_loop cf region now n b s)"
  using empty_region_front[OF maint_invD(3)[OF assms(1)] assms(2)] keeps_refl[OF assms(1)]
  by (cases n) auto

lemma remove_expired_ao_loop_yields:
  assumes "maint_inv cf ops X Y s"
  shows "yields (\<lambda>x. keeps cf ops X Y s (fst x)) (remove_expired_ao_loop cf MainProbation now n b s)"
  using assms
proof (induction n arbitrary: b s)
  case (Suc n)
  note inv = Suc.prems
  obtain x where x: "front_info (in_store s) (dqs_probation (in_deques s)) = Some x"
    using front_info_ok(1)[OF maint_invD(3)[OF inv]] by blast
  have skip: "yields (\<lambda>x. keeps cf ops X Y s (fst x))
      (skip_updated_entry_ao k MainProbation s \<bind> remove_expired_ao_loop cf MainProbation now n False)" for k
    by (rule keeps_step[OF skip_yields(1)[OF inv]]) (rule Suc.IH)
  have rem: "yields (\<lambda>x. keeps cf ops X Y s (fst x))
      (remove_front k cause c (handle_remove_with_deques MainProbation) (skip_updated_entry_ao k MainProbation) b s
         \<bind> (\<lambda>(s, b, _). remove_expired_ao_loop cf MainProbation now n b s))" for k cause c
    by (rule keeps_step[OF remove_front_yields(1)[OF inv]]) (auto intro: Suc.IH)
  show ?case
    using skip rem x keeps_refl[OF inv]
    by (simp add: select_mut_def Let_def split: option.split bool.split prod.split del: yields_bind)
qed (simp add: keeps_refl)

lemma remove_expired_wo_loop_yields:
  assumes "maint_inv cf ops X Y s"
  shows "yields (\<lambda>x. keeps cf ops X Y s (fst x)) (remove_expired_wo_loop cf now n b s)"
  using assms
proof (induction n arbitrary: b s)
  case (Suc n)
  note inv = Suc.prems
  obtain x where x: "front_info (in_store s) (dqs_write_order (in_deques s)) = Some x"
    using front_info_ok(2)[OF maint_invD(3)[OF inv]] by blast
  have skip: "yields (\<lambda>x. keeps cf ops X Y s (fst x))
      (skip_updated_entry_wo k s \<bind> remove_expired_wo_loop cf now n False)" for k
    by (rule keeps_step[OF skip_yields(2)[OF inv]]) (rule Suc.IH)
  have rem: "yields (\<lambda>x. keeps cf ops X Y s (fst x))
      (remove_front k cause c (\<lambda>e. handle_remove e None) (skip_updated_entry_wo k) b s
         \<bind> (\<lambda>(s, b, _). remove_expired_wo_loop cf now n b s))" for k cause c
    by (rule keeps_step[OF remove_front_yields(2)[OF inv]]) (auto intro: Suc.IH)
  show ?case
    using skip rem x keeps_refl[OF inv]
    by (simp add: Let_def split: option.split bool.split prod.split del: yields_bind)
qed (simp add: keeps_refl)

lemma evict_lru_loop_yields:
  assumes "maint_inv cf ops X Y s"
  shows "yields (\<lambda>x. keeps cf ops X Y s (fst x)) (evict_lru_loop n to_evict evicted b s)"
  using assms
proof (induction n arbitrary: evicted b s)
  case (Suc n)
  note inv = Suc.prems
  obtain x where x: "front_info (in_store s) (dqs_probation (in_deques s)) = Some x"
    using front_info_ok(1)[OF maint_invD(3)[OF inv]] by blast
  have skip: "yields (\<lambda>x. keeps cf ops X Y s (fst x))
      (skip_updated_entry_ao k MainProbation s \<bind> evict_lru_loop n to_evict evicted False)" for k
    by (rule keeps_step[OF skip_yields(1)[OF inv]]) (rule Suc.IH)
  have rem: "yields (\<lambda>x. keeps cf ops X Y s (fst x))
      (remove_front k cause c (handle_remove_with_deques MainProbation) (skip_updated_entry_ao k MainProbation) b s
         \<bind> (\<lambda>(s', b, removed). evict_lru_loop n to_evict (f removed) b s'))" for k cause c f
    by (rule keeps_step[OF remove_front_yields(1)[OF inv]]) (auto intro: Suc.IH)
  show ?case
    using skip rem x keeps_refl[OF inv]
    by (simp add: select_mut_def Let_def split: option.split bool.split prod.split del: yields_bind)
qed (simp add: keeps_refl)

text \<open>The batch steps.\<close>

lemma more_flag_yields:
  assumes "yields (\<lambda>x. keeps cf ops X Y s (fst x)) r"
  shows "yields (keeps cf ops X Y s)
    (do { (s, b) \<leftarrow> r; Some (if b then s\<lparr>es_more_entries_to_evict := True\<rparr> else s) })"
  using assms by (auto elim!: yields_mono)

lemma remove_expired_yields:
  assumes "maint_inv cf ops X Y s"
  shows "yields (keeps cf ops X Y s) (remove_expired_wo cf batch_size now s)"
    and "region \<noteq> Other \<Longrightarrow> yields (keeps cf ops X Y s) (remove_expired_ao cf region batch_size now s)"
    and "yields (keeps cf ops X Y s) (evict_lru_entries batch_size to_evict s)"
  unfolding remove_expired_wo_def remove_expired_ao_def evict_lru_entries_def
  using remove_expired_wo_loop_yields[OF assms] remove_expired_ao_loop_yields[OF assms]
    remove_expired_ao_loop_empty[OF assms] evict_lru_loop_yields[OF assms]
  by (cases region; blast intro!: more_flag_yields)+

lemma current_time_ok:
  assumes "maint_inv cf ops X Y s" "mono (cf_clock cf)"
  shows "keeps cf ops X Y s (fst (current_time cf s))"
    "tw_current (in_timer_wheel s) \<le> snd (current_time cf s)"
  using assms monoD[OF assms(2), of "in_ticks s" "Suc (in_ticks s)"]
  by (auto simp: keeps_def maint_inv_def cache_inv_def evicts_def current_time_def)

lemma evict_expired_entries_using_deqs_yields:
  assumes "maint_inv cf ops X Y s" "mono (cf_clock cf)"
  shows "yields (keeps cf ops X Y s) (evict_expired_entries_using_deqs cf batch_size s)"
proof -
  obtain s1 now where t: "current_time cf s = (s1, now)" by fastforce
  have k: "keeps cf ops X Y s s1" using current_time_ok(1)[OF assms] t by simp
  have ao: "yields (keeps cf ops X Y s') (do { s \<leftarrow> remove_expired_ao cf Window batch_size now s';
              s \<leftarrow> remove_expired_ao cf MainProbation batch_size now s; remove_expired_ao cf MainProtected batch_size now s })"
    if "maint_inv cf ops X Y s'" for s'
    by (intro keeps_step[where g = id and h = id, unfolded id_apply] remove_expired_yields) (use that in auto)
  have "yields (keeps cf ops X Y s1)
     (do { s \<leftarrow> (if is_write_order_queue_enabled cf s1 then remove_expired_wo cf batch_size now s1 else Some s1);
              if time_to_idle cf \<noteq> None \<or> has_valid_after s then
                do { s \<leftarrow> remove_expired_ao cf Window batch_size now s;
                     s \<leftarrow> remove_expired_ao cf MainProbation batch_size now s;
                     remove_expired_ao cf MainProtected batch_size now s }
              else Some s })"
    by (intro keeps_step[where g = id and h = id, unfolded id_apply] yields_if ao remove_expired_yields)
      (use keepsD(1)[OF k] keeps_refl in auto)
  then show ?thesis
    unfolding evict_expired_entries_using_deqs_def t Let_def prod.case
    by (rule yields_mono) (rule keeps_trans[OF k])
qed

section \<open>The timer events\<close>

text \<open>The eviction of the entry of an expired timer leaves the wheel and its nodes alone.\<close>

lemma evict_expired_node_yields:
  assumes inv: "maint_inv cf ops X Y s" and a: "st_timers (in_store s) a = Some (TimerEntry p g i n)"
  shows "yields (\<lambda>s'. keeps cf ops X Y s s' \<and> in_timer_wheel s' = in_timer_wheel s \<and>
      st_timers (in_store s') = st_timers (in_store s)) (evict_expired_node now a s)"
proof -
  let ?k = "kh_key (ei_key_hash (st_infos (in_store s) i))"
  let ?c = "\<lambda>e. is_expired_by_per_entry_ttl (info_of (in_store s) e) now"
  obtain s1 r where r: "cht_remove_if_and_retire ?k ?c s = (s1, r)" by fastforce
  show ?thesis
  proof (cases r)
    case None
    then have "s1 = s" using cht_remove_None[of ?k ?c s s1] r by simp
    with a r None keeps_refl[OF inv] show ?thesis by (simp add: evict_expired_node_def Let_def)
  next
    case (Some e)
    obtain s2 where s2: "notify_and_count ?k e CauseExpired s1 = Some s2" "maint_inv cf ops (insert (ve_info e) X) Y s2"
      "evicts s s2" "in_store s2 = upd_info (ve_info e) retire (in_store s)" "in_timer_wheel s2 = in_timer_wheel s"
      "ve_ok (in_store s2) e" "\<not> alive (in_store s2) (ve_info e)"
      using evict_ok[OF inv r[unfolded Some], of CauseExpired] by blast
    obtain s3 where s3: "handle_remove_without_timer_wheel e None s2 = Some s3"
      "maint_inv cf ops (insert (ve_info e) X - {ve_info e}) Y s3" "handles s2 s3"
      "in_timer_wheel s3 = in_timer_wheel s2" "st_timers (in_store s3) = st_timers (in_store s2)"
      using handle_remove_without_ok[OF s2(2,6,7), of None] by blast
    have "keeps cf ops X Y s s3"
      using maint_inv_mono[OF s3(2), of X Y] evicts_trans[OF s2(3) handles_evicts[OF s3(3)]] by (auto simp: keeps_def)
    with a r Some s2(1,4,5) s3(1,4,5) keeps_refl[OF inv] show ?thesis
      by (simp add: evict_expired_node_def Let_def)
  qed
qed

text \<open>The events that the iterator yields are all handled, and the iterator comes to its end.\<close>

lemma timer_events_loop_yields:
  assumes "maint_inv cf ops X Y s" "loop_pre (in_store s) (in_timer_wheel s) it"
  shows "yields (keeps cf ops X Y s) (timer_events_loop now it s)"
  using assms
proof (induction "iter_measure (in_store s) (in_timer_wheel s) it" arbitrary: s it rule: wf_induct_rule[OF measure_wf])
  case 1
  note inv = 1(2) and pre = 1(3)
  obtain st tw it1 ev where l: "iter_loop (in_store s, in_timer_wheel s, it) = Some ((st, tw, it1), ev)"
    "iter_post (in_store s) (in_timer_wheel s) it st tw it1 (Return ev)" using iter_loop_ok[OF pre] by blast
  have nx: "timer_next (in_store s, in_timer_wheel s, it) = Some ((st, tw, it1), ev)"
    using l(1) pre by (simp add: timer_next_def loop_pre_def)
  let ?s = "s\<lparr>in_store := st, in_timer_wheel := tw\<rparr>"
  note post = l(2)[unfolded iter_post_def]
  have "timers_fresh (in_store s) \<Longrightarrow> timers_fresh st"
    by (erule timers_fresh_frame) (use post in \<open>auto simp: timer_frame_def\<close>)
  then have step: "timer_step s st tw" using post by (simp add: timer_step_def)
  have inv1: "maint_inv cf ops X Y ?s" by (rule handles_timer(1)[OF inv step])
  have k1: "keeps cf ops X Y s ?s"
    using inv1 handles_evicts[OF handles_timer(2)[OF inv step]] by (simp add: keeps_def)
  show ?case
  proof (cases ev)
    case None
    then have "it_is_done it1" using l(2) by (simp add: iter_post_def)
    with None nx k1 show ?thesis by (subst timer_events_loop.simps) (simp add: drop_timer_events_iter_def)
  next
    case (Some x)
    have pre1: "loop_pre st tw it1" using iter_post_pre[OF pre l(2)] Some by simp
    have m: "measure_less (iter_measure st tw it1) (iter_measure (in_store s) (in_timer_wheel s) it)"
      using l(2) pre1 by (simp add: iter_post_def loop_pre_def)
    have plain: "yields (keeps cf ops X Y s) (timer_events_loop now it1 ?s)"
      by (rule yields_mono[OF 1(1)[OF _ inv1]]) (use m pre1 keeps_trans[OF k1] in auto)
    show ?thesis
    proof (cases x)
      case (Expired a)
      then obtain g i where t: "st_timers (in_store ?s) a = Some (TimerEntry None g i (Suc i))"
        using l(2) Some by (auto simp: iter_post_def expired_node_def)
      from evict_expired_node_yields[OF inv1 t, of now] obtain s2 where
        e: "evict_expired_node now a ?s = Some s2" and k2: "keeps cf ops X Y ?s s2"
        and tw: "in_timer_wheel s2 = tw" and tm: "st_timers (in_store s2) = st_timers st"
        by (auto elim: yieldsE)
      have w2: "wheel_ok (in_store s2) (in_timer_wheel s2)" using maint_invD(4)[OF keepsD(1)[OF k2]] .
      let ?s3 = "s2\<lparr>in_store := free_timer a (in_store s2)\<rparr>"
      have t2: "st_timers (in_store s2) a = Some (TimerEntry None g i (Suc i))" using t tm by simp
      have en: "tw_is_enabled tw" "it_level it1 < 5" using pre1 by (auto simp: loop_pre_def iter_wf_def)
      note fe = free_expired[OF w2 t2, unfolded tw]
      have f3: "timer_step s2 (free_timer a (in_store s2)) (in_timer_wheel s2)"
        using fe(1) tw by (simp add: timer_step_def timer_frame_def timers_fresh_def)
      have k3: "keeps cf ops X Y s2 ?s3"
        using handles_timer[OF keepsD(1)[OF k2] f3] by (simp add: keeps_def handles_evicts)
      have "front (in_store s2) q = front st q" for q by (rule front_frame) (simp add: tm)
      then have "iter_measure (in_store s2) tw it1 = iter_measure st tw it1" by (simp add: iter_measure_def)
      then have m3: "measure_less (iter_measure (in_store ?s3) (in_timer_wheel ?s3) it1)
          (iter_measure (in_store s) (in_timer_wheel s) it)" using m fe(2)[OF en] tw by simp
      have "loop_pre (in_store ?s3) (in_timer_wheel ?s3) it1" using pre1 fe(1) tw by (simp add: loop_pre_def)
      from 1(1)[OF _ keepsD(1)[OF k3] this] m3
      have "yields (keeps cf ops X Y ?s3) (timer_events_loop now it1 ?s3)" by simp
      then have "yields (keeps cf ops X Y s) (timer_events_loop now it1 ?s3)"
        by (rule yields_mono) (rule keeps_trans[OF keeps_trans[OF k1 keeps_trans[OF k2 k3]]])
      with nx Some Expired e show ?thesis by (subst timer_events_loop.simps) simp
    qed (use nx Some plain in \<open>subst timer_events_loop.simps, simp\<close>)+
  qed
qed

lemma evict_expired_entries_using_timers_yields:
  assumes "maint_inv cf ops X Y s" "mono (cf_clock cf)" "tw_is_enabled (in_timer_wheel s)"
  shows "yields (keeps cf ops X Y s) (evict_expired_entries_using_timers cf s)"
proof -
  obtain s1 now where t: "current_time cf s = (s1, now)" by fastforce
  obtain tw it where ad: "advance now (in_timer_wheel s1) = (tw, it)" by fastforce
  have s1: "in_timer_wheel s1 = in_timer_wheel s" "in_store s1 = in_store s" "in_ticks s1 = Suc (in_ticks s)"
    "now = cf_clock cf (in_ticks s)"
    using t by (auto simp: current_time_def)
  have k: "keeps cf ops X Y s s1" "tw_current (in_timer_wheel s1) \<le> now"
    using current_time_ok[OF assms(1,2)] t s1 by simp_all
  note p = advance_pre[OF maint_invD(4)[OF keepsD(1)[OF k(1)]] _ k(2) ad]
  let ?s = "s1\<lparr>in_timer_wheel := tw\<rparr>"
  have pre: "loop_pre (in_store s1) tw it" "tw_current tw = now" using p(1,3) assms(3) s1(1) by simp_all
  have "cinv cf ops X Y (in_cache s1) (in_store s1) (in_deques s1) tw"
    using maint_invD(2)[OF keepsD(1)[OF k(1)]] pre(1) by (simp add: cinv_def loop_pre_def)
  moreover have "now \<le> cf_clock cf (in_ticks s1)" using s1 monoD[OF assms(2), of "in_ticks s" "in_ticks s1"] by simp
  ultimately have "keeps cf ops X Y s1 ?s"
    using keepsD(1)[OF k(1)] pre(2) by (simp add: keeps_def maint_inv_def cache_inv_def evicts_def)
  note k' = keeps_trans[OF k(1) this]
  have "yields (keeps cf ops X Y ?s) (timer_events_loop now it ?s)"
    by (rule timer_events_loop_yields[OF keepsD(1)[OF k']]) (use pre in simp)
  then show ?thesis
    unfolding evict_expired_entries_using_timers_def t Let_def prod.case ad
    by (rule yields_mono) (rule keeps_trans[OF k'])
qed

section \<open>Invalidation predicates\<close>

text \<open>The nodes that the cursor of a deque has still to visit.\<close>

definition ad_rest :: "adeq \<Rightarrow> addr list" where
  "ad_rest q =
     (case ad_cursor q of
        None \<Rightarrow> ad_nodes q
      | Some (CNode a) \<Rightarrow> dropWhile (\<lambda>b. b \<noteq> a) (ad_nodes q)
      | Some CDone \<Rightarrow> [])"

lemma ad_rest_nodes: "set (ad_rest q) \<subseteq> set (ad_nodes q)"
  by (auto simp: ad_rest_def split: option.splits deq_cursor.splits dest: set_dropWhileD)

lemma ad_next_Cons:
  assumes "ad_ok q" "ad_rest q = x # xs"
  shows "\<exists>q'. ad_next q = (q', Some x) \<and> ad_rest q' = xs \<and> deq_perm q q' \<and> ad_nodes q' = ad_nodes q"
proof -
  obtain ys where ys: "ad_nodes q = ys @ x # xs" "ad_cursor q = Some (CNode x) \<or> ad_cursor q = None \<and> ys = []"
  proof (cases "ad_cursor q")
    case None
    then show ?thesis using that[of "[]"] assms(2) by (simp add: ad_rest_def)
  next
    case (Some c)
    with assms(2) obtain a where a: "c = CNode a" "dropWhile (\<lambda>b. b \<noteq> a) (ad_nodes q) = x # xs"
      by (cases c) (auto simp: ad_rest_def)
    then have "x = a" using hd_dropWhile[of "\<lambda>b. b \<noteq> a" "ad_nodes q"] by simp
    with a Some that[of "takeWhile (\<lambda>b. b \<noteq> a) (ad_nodes q)"] takeWhile_dropWhile_id[of "\<lambda>b. b \<noteq> a" "ad_nodes q"]
    show ?thesis by simp
  qed
  let ?q = "q\<lparr>ad_cursor := Some (case xs of [] \<Rightarrow> CDone | z # _ \<Rightarrow> CNode z)\<rparr>"
  have d: "x \<notin> set ys" "\<And>z zs. xs = z # zs \<Longrightarrow> z \<notin> set (ys @ [x])" "distinct (ad_nodes q)"
    using assms(1) ys(1) by (auto simp: ad_ok_def)
  have "ad_next q = (?q, Some x)"
    using ys d(1) succ_in_append[of x ys xs] by (auto simp: ad_next_def ad_advance_cursor_def split: list.splits)
  moreover have "ad_rest ?q = xs"
  proof (cases xs)
    case (Cons z zs)
    then have "dropWhile (\<lambda>b. b \<noteq> z) ((ys @ [x]) @ z # zs) = z # zs"
      using d(2) by (subst dropWhile_append2) auto
    with Cons ys(1) show ?thesis by (simp add: ad_rest_def)
  qed (simp add: ad_rest_def)
  moreover have "deq_perm q ?q" using d(3) ys(1) by (auto simp: deq_perm_def ad_ok_def split: list.splits)
  ultimately show ?thesis by simp
qed

lemma ad_next_Nil:
  assumes "ad_ok q" "ad_rest q = []"
  shows "ad_next q = (q\<lparr>ad_cursor := None\<rparr>, None)" "deq_perm q (q\<lparr>ad_cursor := None\<rparr>)"
proof -
  have "ad_cursor q = Some CDone \<or> ad_cursor q = None \<and> ad_nodes q = []"
    using assms by (auto simp: ad_rest_def ad_ok_def split: option.splits deq_cursor.splits)
  then show "ad_next q = (q\<lparr>ad_cursor := None\<rparr>, None)" by (auto simp: ad_next_def ad_advance_cursor_def)
  show "deq_perm q (q\<lparr>ad_cursor := None\<rparr>)" using assms(1) by (simp add: deq_perm_def ad_ok_def)
qed

lemma deq_perm_trans: "deq_perm q q' \<Longrightarrow> deq_perm q' q'' \<Longrightarrow> deq_perm q q''"
  by (simp add: deq_perm_def)

lemma deq_perm_ok: "deq_perm q q' \<Longrightarrow> ad_ok q'"
  by (simp add: deq_perm_def)

lemma deq_perm_next: "ad_ok q \<Longrightarrow> deq_perm q (fst (ad_next q))"
  using ad_next_Cons[of q] ad_next_Nil[of q] by (cases "ad_rest q") auto

lemma deq_perm_reset: "ad_ok q \<Longrightarrow> deq_perm q (ad_reset_cursor q)"
  by (simp add: deq_perm_def ad_ok_def ad_reset_cursor_def)

lemma collect_candidates_yields:
  assumes "ad_ok q" "\<And>a. a \<in> set (ad_nodes q) \<Longrightarrow> st_khds st a \<noteq> None"
  shows "yields (\<lambda>(q', cs'). deq_perm q q' \<and> length cs' \<le> length cs + room) (collect_candidates cf st room q cs)"
  using assms
proof (induction "ad_rest q" arbitrary: q room cs)
  case Nil
  note n = ad_next_Nil[OF Nil.prems(1) Nil.hyps[symmetric]]
  show ?case
  proof (cases "room = 0")
    case True
    then show ?thesis using Nil.prems by (subst collect_candidates.simps) (simp add: deq_perm_refl)
  next
    case False
    then show ?thesis using n by (subst collect_candidates.simps) simp
  qed
next
  case (Cons x xs)
  note q = Cons.prems
  obtain q' where n: "ad_next q = (q', Some x)" "ad_rest q' = xs" "deq_perm q q'" "ad_nodes q' = ad_nodes q"
    using ad_next_Cons[OF q(1) Cons.hyps(2)[symmetric]] by blast
  have "x \<in> set (ad_nodes q)" using ad_rest_nodes[of q] Cons.hyps(2) by (metis list.set_intros(1) subsetD)
  then obtain i where i: "st_khds st x = Some i" using q(2) by blast
  have rec: "yields (\<lambda>(q'', cs''). deq_perm q q'' \<and> length cs'' \<le> length cs' + room') (collect_candidates cf st room' q' cs')" for room' cs'
    by (rule yields_mono[OF Cons.hyps(1)]) (use n q deq_perm_ok[OF n(3)] deq_perm_trans[OF n(3)] in auto)
  show ?case
  proof (cases room)
    case 0
    then show ?thesis using q by (subst collect_candidates.simps) (simp add: deq_perm_refl)
  next
    case (Suc r)
    have "yields (\<lambda>(q'', cs''). deq_perm q q'' \<and> length cs'' \<le> length cs + Suc r) (collect_candidates cf st r q' (cs @ [c]))" for c
      using rec[of "cs @ [c]" r] by simp
    with Suc n(1) i rec[of cs "Suc r"] show ?thesis
      by (subst collect_candidates.simps) (simp add: Let_def split: option.split)
  qed
qed

text \<open>Scanning the candidates: the entries that it takes out of the table are retired.\<close>

lemma maint_inv_retired:
  assumes "maint_inv cf ops X Y s" "in_cache s k = Some e"
  shows "keeps cf ops (insert (ve_info e) X) Y s
      (s\<lparr>in_cache := (in_cache s)(k := None), in_store := upd_info (ve_info e) retire (in_store s),
         in_removal_notifier := rn\<rparr>)"
proof -
  have "(in_cache s)(k := None) \<noteq> in_cache s" using assms(2) by (metis fun_upd_same option.distinct(1))
  moreover have "(in_cache s)(k := None) \<subseteq>\<^sub>m in_cache s" by (simp add: map_le_def)
  ultimately show ?thesis
    using cache_inv_retire[OF maint_invD(1)[OF assms(1)] assms(2)] maint_invD(7)[OF assms(1)]
    by (simp add: keeps_def maint_inv_def evicts_def cache_inv_def retire_frame(7))
qed

lemma iv_invalidate_Some:
  assumes "iv_invalidate k ts s = (s1, Some e)"
  shows "in_cache s k = Some e" "\<exists>rn. s1 =
    s\<lparr>in_cache := (in_cache s)(k := None), in_store := upd_info (ve_info e) retire (in_store s),
      in_removal_notifier := rn\<rparr>"
proof -
  show c: "in_cache s k = Some e" using assms
    by (auto simp: iv_invalidate_def Let_def cht_remove_if_and_retire_def split: option.splits if_splits)
  let ?s = "s\<lparr>in_cache := (in_cache s)(k := None), in_store := upd_info (ve_info e) retire (in_store s)\<rparr>"
  have "s1 = ?s \<or> s1 = notify_single_removal k e CauseExplicit ?s" using assms c
    by (auto simp: iv_invalidate_def Let_def cht_remove_if_and_retire_def split: option.splits if_splits)
  moreover have "?s = ?s\<lparr>in_removal_notifier := in_removal_notifier s\<rparr>" by simp
  ultimately show "\<exists>rn. s1 = ?s\<lparr>in_removal_notifier := rn\<rparr>" unfolding notify_single_removal_def by metis
qed

definition retired :: "('k, 'v) maint \<Rightarrow> ('k, 'v) kv_entry list \<Rightarrow> bool" where
  "retired s kvs \<longleftrightarrow> (\<forall>kv \<in> set kvs. ve_ok (in_store s) (kv_entry kv) \<and> \<not> alive (in_store s) (ve_info (kv_entry kv)))"

abbreviation kv_infos :: "('k, 'v) kv_entry list \<Rightarrow> info_id set" where
  "kv_infos kvs \<equiv> (\<lambda>kv. ve_info (kv_entry kv)) ` set kvs"

lemma scan_candidates_keeps:
  assumes "maint_inv cf ops X Y s" "scan_candidates preds cs s = (s', kvs)"
  shows "keeps cf ops (kv_infos kvs \<union> X) Y s s' \<and> retired s' kvs \<and>
    (\<forall>i. alive (in_store s') i \<longrightarrow> alive (in_store s) i) \<and> in_deques s' = in_deques s \<and>
    in_invalidator s' = in_invalidator s"
  using assms
proof (induction cs arbitrary: X s s' kvs)
  case Nil
  then show ?case by (simp add: keeps_refl retired_def)
next
  case (Cons c cs)
  note inv = Cons.prems(1)
  show ?case
  proof (cases "iv_apply preds (kd_key c) (kd_timestamp c) s")
    case False
    with Cons show ?thesis by simp
  next
    case True
    obtain s1 r where i: "iv_invalidate (kd_key c) (kd_timestamp c) s = (s1, r)" by fastforce
    obtain kvs1 where sc: "scan_candidates preds cs s1 = (s', kvs1)"
      and kvs: "kvs = (case r of Some e \<Rightarrow> [\<lparr>kv_key = kd_key c, kv_entry = e\<rparr>] | None \<Rightarrow> []) @ kvs1"
      using Cons.prems(2) True i by (auto split: prod.splits)
    show ?thesis
    proof (cases r)
      case None
      then have "s1 = s" using i
        by (auto simp: iv_invalidate_def Let_def cht_remove_if_and_retire_def split: prod.splits option.splits if_splits)
      with Cons.IH[OF inv] sc kvs None show ?thesis by simp
    next
      case (Some e)
      obtain rn where e: "in_cache s (kd_key c) = Some e" and s1: "s1 =
          s\<lparr>in_cache := (in_cache s)(kd_key c := None), in_store := upd_info (ve_info e) retire (in_store s),
            in_removal_notifier := rn\<rparr>"
        using iv_invalidate_Some i Some by metis
      note k = maint_inv_retired[OF inv e, of rn, folded s1]
      from Cons.IH[OF keepsD(1)[OF k] sc] have ih: "keeps cf ops (kv_infos kvs1 \<union> insert (ve_info e) X) Y s1 s'"
        "retired s' kvs1" "\<And>i. alive (in_store s') i \<Longrightarrow> alive (in_store s1) i" "in_deques s' = in_deques s1"
        "in_invalidator s' = in_invalidator s1" by blast+
      have "ve_ok (in_store s) e" using tbl_okD(2)[OF maint_invD(5)[OF inv] e] .
      moreover have "st_next_id (in_store s') = st_next_id (in_store s)"
        using keepsD(2)[OF keeps_trans[OF k ih(1)]] by (simp add: evicts_def same_infos_def)
      ultimately have ve: "ve_ok (in_store s') e" by (simp add: ve_ok_def)
      have "\<not> alive (in_store s1) (ve_info e)" by (simp add: s1)
      then have "\<not> alive (in_store s') (ve_info e)" using ih(3) by blast
      with ve ih(2) have "retired s' kvs" by (simp add: kvs Some retired_def)
      moreover have "keeps cf ops (kv_infos kvs \<union> X) Y s s'"
        using keeps_trans[OF k ih(1)] by (simp add: kvs Some Un_insert_right)
      moreover have "alive (in_store s) i" if "alive (in_store s') i" for i
        using ih(3)[OF that] by (auto simp: s1 retire_frame split: if_splits)
      ultimately show ?thesis using ih(4,5) by (simp add: s1)
    qed
  qed
qed

lemma remove_retired_yields:
  assumes "maint_inv cf ops (kv_infos kvs \<union> X) Y s" "retired s kvs"
  shows "yields (keeps cf ops X Y s) (mfold (\<lambda>kv. handle_remove (kv_entry kv) None) kvs s)"
  using assms
proof (induction kvs arbitrary: s)
  case Nil
  then show ?case by (simp add: keeps_refl)
next
  case (Cons kv kvs)
  let ?e = "kv_entry kv"
  have e: "ve_ok (in_store s) ?e" "\<not> alive (in_store s) (ve_info ?e)" using Cons.prems(2) by (simp_all add: retired_def)
  from handle_remove_ok[OF Cons.prems(1) e, of None] obtain s1 where
    s1: "handle_remove ?e None s = Some s1" "maint_inv cf ops (kv_infos (kv # kvs) \<union> X - {ve_info ?e}) Y s1" "handles s s1"
    by blast
  have m: "maint_inv cf ops (kv_infos kvs \<union> X) Y s1" by (rule maint_inv_mono[OF s1(2)]) auto
  have r: "retired s1 kvs"
    using Cons.prems(2) s1(3) by (auto simp: retired_def handles_def evicts_def same_infos_def ve_ok_def)
  have "evicts s s1" by (rule handles_evicts[OF s1(3)])
  then show ?case using s1(1) Cons.IH[OF m r] by (auto simp: keeps_def elim!: yields_mono intro: evicts_trans)
qed

lemma keeps_invalidator:
  assumes "maint_inv cf ops X Y s" "in_invalidator s \<noteq> None"
  shows "keeps cf ops X Y s (s\<lparr>in_invalidator := Some iv\<rparr>)"
  using assms by (simp add: keeps_def maint_inv_def cache_inv_def evicts_def)

lemma scan_and_invalidate_yields:
  assumes inv: "maint_inv cf ops X Y s" and "cs \<noteq> []"
  shows "yields (\<lambda>(s', iv', kvs, _). keeps cf ops (kv_infos kvs \<union> X) Y s s' \<and> retired s' kvs \<and>
      in_invalidator s' = in_invalidator s) (scan_and_invalidate iv cs b s)"
proof -
  define preds where "preds = (if iv_scan_context iv = [] then map snd (iv_predicates iv) else iv_scan_context iv)"
  obtain s' kvs where sc: "scan_candidates preds cs s = (s', kvs)" by fastforce
  obtain iv' where "remove_finished_predicates b (Some (kd_timestamp (last cs))) (iv\<lparr>iv_scan_context := preds\<rparr>) = Some iv'"
    by (cases b) (auto simp: remove_finished_predicates_def Let_def split: prod.splits)
  with sc scan_candidates_keeps[OF inv sc] assms(2) show ?thesis
    by (simp add: scan_and_invalidate_def Let_def flip: preds_def)
qed

lemma apply_scan_yields:
  assumes inv: "maint_inv cf ops X Y s" and "cs \<noteq> []" "in_invalidator s \<noteq> None"
  shows "yields (keeps cf ops X Y s) (do {
      (s, iv, invalidated, is_done) \<leftarrow> scan_and_invalidate iv cs b s;
      s \<leftarrow> mfold (\<lambda>kv. handle_remove (kv_entry kv) None) invalidated (s\<lparr>in_invalidator := Some iv\<rparr>);
      let s = (if is_done
               then s\<lparr>in_deques := (in_deques s)\<lparr>dqs_write_order := ad_reset_cursor (dqs_write_order (in_deques s))\<rparr>\<rparr>
               else s);
      Some (if \<not> iv_is_empty iv then s\<lparr>es_more_entries_to_evict := True\<rparr> else s) })"
proof -
  from scan_and_invalidate_yields[OF inv assms(2), of iv b] obtain s1 iv1 kvs d where
    sc: "scan_and_invalidate iv cs b s = Some (s1, iv1, kvs, d)" "keeps cf ops (kv_infos kvs \<union> X) Y s s1" "retired s1 kvs"
    "in_invalidator s1 = in_invalidator s" by (auto elim: yieldsE)
  let ?s = "s1\<lparr>in_invalidator := Some iv1\<rparr>"
  have k: "keeps cf ops (kv_infos kvs \<union> X) Y s1 ?s" by (rule keeps_invalidator[OF keepsD(1)[OF sc(2)]]) (use sc assms in simp)
  have "retired ?s kvs" using sc(3) by (simp add: retired_def)
  from remove_retired_yields[OF keepsD(1)[OF k] this] obtain s2 where
    s2: "mfold (\<lambda>kv. handle_remove (kv_entry kv) None) kvs ?s = Some s2" "keeps cf ops X Y ?s s2" by (rule yieldsE)
  let ?d = "(in_deques s2)\<lparr>dqs_write_order := ad_reset_cursor (dqs_write_order (in_deques s2))\<rparr>"
  note ok = maint_invD(3)[OF keepsD(1)[OF s2(2)]]
  have "deqs_perm (in_deques s2) ?d"
    using deq_perm_reset[OF deqs_shapeD(2)[OF ok]] deqs_shapeD(1)[OF ok] by (simp add: deqs_perm_def deq_perm_refl)
  note h = handles_perm[OF keepsD(1)[OF s2(2)] this]
  have "keeps cf ops X Y s2 (s2\<lparr>in_deques := ?d\<rparr>)" using h by (simp add: keeps_def handles_evicts)
  moreover note keeps_trans[OF keeps_trans[OF sc(2) k] s2(2)]
  ultimately show ?thesis using sc(1) s2(1) by (simp add: Let_def) (blast intro: keeps_trans)
qed

lemma invalidate_entries_yields:
  assumes inv: "maint_inv cf ops X Y s" and mono: "mono (cf_clock cf)" and some: "in_invalidator s \<noteq> None"
  shows "yields (keeps cf ops X Y s) (invalidate_entries cf iv batch_size s)"
proof -
  obtain s1 now where t: "current_time cf s = (s1, now)" by fastforce
  have k: "keeps cf ops X Y s s1" using current_time_ok(1)[OF inv mono] t by simp
  have iv1: "in_invalidator s1 \<noteq> None" using t some by (auto simp: current_time_def)
  note ok = maint_invD(3)[OF keepsD(1)[OF k]]
  let ?q = "dqs_write_order (in_deques s1)"
  have khd: "st_khds (in_store s1) a \<noteq> None" if "a \<in> set (ad_nodes ?q)" for a
    using deqs_okD(5)[OF ok that] by auto
  obtain q1 cs where c: "collect_candidates cf (in_store s1) (unat batch_size) ?q [] = Some (q1, cs)" "deq_perm ?q q1"
    using collect_candidates_yields[OF deqs_shapeD(2)[OF ok] khd, of "[]" "unat batch_size" cf] by (auto elim: yieldsE)
  obtain q2 p where n: "ad_next q1 = (q2, p)" by fastforce
  let ?s2 = "s1\<lparr>in_deques := (in_deques s1)\<lparr>dqs_write_order := q2\<rparr>\<rparr>"
  have "deqs_perm (in_deques s1) ((in_deques s1)\<lparr>dqs_write_order := q2\<rparr>)"
    using deq_perm_trans[OF c(2) deq_perm_next[OF deq_perm_ok[OF c(2)]]] n deqs_shapeD(1)[OF ok]
    by (simp add: deqs_perm_def deq_perm_refl)
  then have k2: "keeps cf ops X Y s1 ?s2"
    using handles_perm[OF keepsD(1)[OF k]] by (simp add: keeps_def handles_evicts)
  have scan: "yields (keeps cf ops X Y ?s2) (do {
      (s, iv, invalidated, is_done) \<leftarrow> scan_and_invalidate iv cs b ?s2;
      s \<leftarrow> mfold (\<lambda>kv. handle_remove (kv_entry kv) None) invalidated (s\<lparr>in_invalidator := Some iv\<rparr>);
      let s = (if is_done
               then s\<lparr>in_deques := (in_deques s)\<lparr>dqs_write_order := ad_reset_cursor (dqs_write_order (in_deques s))\<rparr>\<rparr>
               else s);
      Some (if \<not> iv_is_empty iv then s\<lparr>es_more_entries_to_evict := True\<rparr> else s) })" if "cs \<noteq> []" for b
    by (rule apply_scan_yields[OF keepsD(1)[OF k2] that]) (use iv1 in simp)
  have "yields (keeps cf ops X Y s1) (invalidate_entries cf iv batch_size s)"
  proof (cases "ad_len ?q = 0")
    case True
    then show ?thesis using t keeps_invalidator[OF keepsD(1)[OF k] iv1] by (simp add: invalidate_entries_def)
  next
    case False
    then show ?thesis
      using t c(1) n k2 yields_mono[OF scan keeps_trans[OF k2]]
      by (cases "cs = []") (simp_all add: invalidate_entries_def Let_def del: yields_bind)
  qed
  then show ?thesis by (rule yields_mono) (rule keeps_trans[OF k])
qed

section \<open>Batches of the scan for predicates\<close>

text \<open>The nodes that a batch takes as candidates, and the candidate that it makes of a node.\<close>

definition clean_node :: "'k store \<Rightarrow> addr \<Rightarrow> bool" where
  "clean_node st a \<longleftrightarrow> (\<exists>i t. st_khds st a = Some i \<and> \<not> is_dirty (st_infos st i) \<and> last_modified (st_infos st i) = Some t)"

definition candidate_of :: "('k, 'v) config \<Rightarrow> 'k store \<Rightarrow> addr \<Rightarrow> 'k key_date_lite" where
  "candidate_of cf st a =
     (let info = st_infos st (the (st_khds st a)); key = kh_key (ei_key_hash info)
      in \<lparr>kd_key = key, kd_hash = cf_hash cf key, kd_timestamp = the (last_modified info)\<rparr>)"

text \<open>A batch takes the clean nodes from the cursor on, until it is full or the deque ends.\<close>

lemma collect_candidates_clean:
  assumes "ad_ok q" "ad_rest q = xs @ rest" "\<forall>a \<in> set xs. clean_node st a" "length xs = room \<or> rest = [] \<and> length xs \<le> room"
  shows "\<exists>q'. collect_candidates cf st room q cs = Some (q', cs @ map (candidate_of cf st) xs) \<and> ad_ok q' \<and>
    (length xs = room \<longrightarrow> ad_rest q' = rest)"
  using assms
proof (induction xs arbitrary: q cs room)
  case Nil
  then show ?case using ad_next_Nil[of q] deq_perm_ok[OF ad_next_Nil(2)[of q]]
    by (cases "room = 0") (auto simp: collect_candidates.simps[of _ _ _ q])
next
  case (Cons x xs)
  then obtain r where r: "room = Suc r" by (cases room) auto
  obtain q' where n: "ad_next q = (q', Some x)" "ad_rest q' = xs @ rest" "deq_perm q q'"
    using ad_next_Cons[OF Cons.prems(1), of x "xs @ rest"] Cons.prems(2) by auto
  obtain i t where i: "st_khds st x = Some i" "\<not> is_dirty (st_infos st i)" "last_modified (st_infos st i) = Some t"
    using Cons.prems(3) by (auto simp: clean_node_def)
  have "\<exists>q''. collect_candidates cf st r q' (cs @ [candidate_of cf st x]) = Some (q'', (cs @ [candidate_of cf st x]) @ map (candidate_of cf st) xs) \<and>
      ad_ok q'' \<and> (length xs = r \<longrightarrow> ad_rest q'' = rest)"
    using Cons.prems(3,4) r by (intro Cons.IH[OF deq_perm_ok[OF n(3)] n(2)]) auto
  with n(1) i r show ?case
    by (subst collect_candidates.simps) (simp add: Let_def candidate_of_def)
qed

lemma iv_apply_cong: "in_cache s' = in_cache s \<Longrightarrow> in_store s' = in_store s \<Longrightarrow> iv_apply preds key ts s' = iv_apply preds key ts s"
  by (auto simp: iv_apply_def split: option.split)

lemma scan_candidates_none:
  "\<forall>c \<in> set cs. \<not> iv_apply preds (kd_key c) (kd_timestamp c) s \<Longrightarrow> scan_candidates preds cs s = (s, [])"
  by (induction cs) auto

text \<open>A batch in which no predicate matches: nothing is removed, and only the cursor and the invalidator change.\<close>

lemma invalidate_entries_none:
  assumes "ad_ok (dqs_write_order (in_deques s))" "ad_rest (dqs_write_order (in_deques s)) = xs @ rest" "xs \<noteq> []"
    and "\<forall>a \<in> set xs. clean_node (in_store s) a" "length xs = unat batch_size \<or> rest = [] \<and> length xs \<le> unat batch_size"
    and "preds = (if iv_scan_context iv = [] then map snd (iv_predicates iv) else iv_scan_context iv)"
    and "\<forall>c \<in> candidate_of cf (in_store s) ` set xs. \<not> iv_apply preds (kd_key c) (kd_timestamp c) s"
    and "remove_finished_predicates (rest \<noteq> []) (Some (kd_timestamp (candidate_of cf (in_store s) (last xs)))) (iv\<lparr>iv_scan_context := preds\<rparr>) = Some iv'"
  shows "\<exists>s' q. invalidate_entries cf iv batch_size s = Some s' \<and> in_invalidator s' = Some iv' \<and> in_cache s' = in_cache s \<and>
    in_store s' = in_store s \<and> dqs_write_order (in_deques s') = q \<and> (rest \<noteq> [] \<longrightarrow> iv_predicates iv' \<noteq> [] \<longrightarrow> ad_ok q \<and> ad_rest q = tl rest)"
proof -
  let ?q = "dqs_write_order (in_deques s)"
  obtain q1 where q1: "collect_candidates cf (in_store s) (unat batch_size) ?q [] = Some (q1, map (candidate_of cf (in_store s)) xs)"
    "ad_ok q1" "length xs = unat batch_size \<longrightarrow> ad_rest q1 = rest"
    using collect_candidates_clean[OF assms(1,2,4,5), of cf "[]"] by auto
  obtain q2 p where q2: "ad_next q1 = (q2, p)" by fastforce
  have trunc: "(length xs = unat batch_size \<and> p \<noteq> None) = (rest \<noteq> [])"
    and q2_ok: "rest \<noteq> [] \<longrightarrow> ad_ok q2 \<and> ad_rest q2 = tl rest"
    using assms(5) q1(2,3) q2 ad_next_Nil(1)[OF q1(2)] ad_next_Cons[OF q1(2), of "hd rest" "tl rest"] deq_perm_ok[of q1 q2]
    by (cases rest; auto)+
  let ?s = "s\<lparr>in_ticks := in_ticks s + 1, in_deques := (in_deques s)\<lparr>dqs_write_order := q2\<rparr>\<rparr>"
  have "\<forall>c \<in> set (map (candidate_of cf (in_store s)) xs). \<not> iv_apply preds (kd_key c) (kd_timestamp c) ?s"
    using assms(7) iv_apply_cong[of ?s s] by simp
  then have scan: "scan_and_invalidate iv (map (candidate_of cf (in_store s)) xs) (rest \<noteq> []) ?s = Some (?s, iv', [], iv_predicates iv' = [])"
    using scan_candidates_none[of "map (candidate_of cf (in_store s)) xs" preds ?s] assms(3,6,8)
    by (simp add: scan_and_invalidate_def Let_def last_map)
  have "ad_len ?q \<noteq> 0" using ad_rest_nodes[of ?q] assms(2,3) by (cases xs) (auto simp: ad_len_def)
  then have "invalidate_entries cf iv batch_size s =
      (let s' = ?s\<lparr>in_invalidator := Some iv'\<rparr>;
           s' = (if iv_predicates iv' = [] then s'\<lparr>in_deques := (in_deques s')\<lparr>dqs_write_order := ad_reset_cursor (dqs_write_order (in_deques s'))\<rparr>\<rparr> else s')
       in Some (if \<not> iv_is_empty iv' then s'\<lparr>es_more_entries_to_evict := True\<rparr> else s'))"
    using q1(1) q2 trunc scan assms(3) by (simp add: invalidate_entries_def current_time_def Let_def del: length_greater_0_conv)
  with q2_ok show ?thesis by (simp add: Let_def)
qed

end
