(* ===== verification/Maint_Admit.thy ===== *)
theory Maint_Admit
  imports Maint_Evict
begin

text \<open>
  The admission of new entries: the search for victims ends and chooses entries from the front
  of the probation deque, and applying the recorded reads and writes returns and keeps the
  invariant.
\<close>

section \<open>The search for victims\<close>

lemma frequency_returns: "sketch_ok s \<Longrightarrow> \<exists>f. frequency s hash = Some f"
  using frequency_estimate[of s hash] by (cases "fs_table s = []") (auto simp: frequency_def)

text \<open>The key and the time of the last access of the entry of a node, and the weight and frequency
  of a list of victims.\<close>

definition victim_of :: "'k store \<Rightarrow> addr \<Rightarrow> 'k key_hash \<times> instant option" where
  "victim_of st a = (let info = st_infos st (the (st_khds st a)) in (ei_key_hash info, last_accessed info))"

definition victims_sum ::
  "('k \<rightharpoonup> 'v value_entry) \<Rightarrow> 'k store \<Rightarrow> frequency_sketch \<Rightarrow> ('k key_hash \<times> instant option) list \<Rightarrow>
    entry_size_and_frequency" where
  "victims_sum cache st freq vks =
     \<lparr>sf_policy_weight = (\<Sum>(kh, _) \<leftarrow> vks. ucast (ve_policy_weight st (the (cache (kh_key kh))))),
      sf_freq = (\<Sum>(kh, _) \<leftarrow> vks. ucast (the (frequency freq (kh_hash kh))))\<rparr>"

definition victim_ok :: "('k \<rightharpoonup> 'v value_entry) \<Rightarrow> 'k store \<Rightarrow> addr \<Rightarrow> bool" where
  "victim_ok cache st a \<longleftrightarrow>
     (\<exists>i. st_khds st a = Some i \<and> \<not> is_dirty (st_infos st i) \<and> is_alive (st_infos st i) \<and>
        cache (kh_key (ei_key_hash (st_infos st i))) \<noteq> None)"

text \<open>The state of the search: the nodes before the next victim are the victims.\<close>

definition admit_inv ::
  "('k \<rightharpoonup> 'v value_entry) \<Rightarrow> 'k store \<Rightarrow> frequency_sketch \<Rightarrow> adeq \<Rightarrow> addr list \<Rightarrow> addr list \<Rightarrow> 'k admit_state \<Rightarrow> bool" where
  "admit_inv cache st freq q0 vs rest z \<longleftrightarrow>
     (case z of (deq, next_victim, retries, victims, victim_keys) \<Rightarrow>
        deq_perm q0 deq \<and> ad_nodes deq = vs @ rest \<and> next_victim = (case rest of [] \<Rightarrow> None | a # _ \<Rightarrow> Some a) \<and>
        victim_keys = map (victim_of st) vs \<and> victims = victims_sum cache st freq victim_keys \<and>
        (\<forall>a \<in> set vs. victim_ok cache st a))"

definition admit_found ::
  "('k \<rightharpoonup> 'v value_entry) \<Rightarrow> 'k store \<Rightarrow> frequency_sketch \<Rightarrow> adeq \<Rightarrow> 'k admit_state \<Rightarrow> bool" where
  "admit_found cache st freq q0 z \<longleftrightarrow>
     (case z of (deq, _, _, victims, victim_keys) \<Rightarrow>
        deq_perm q0 deq \<and> victims = victims_sum cache st freq victim_keys \<and>
        (\<exists>vs rest. ad_nodes deq = vs @ rest \<and> victim_keys = map (victim_of st) vs \<and>
           (\<forall>a \<in> set vs. victim_ok cache st a)))"

lemma admit_inv_found: "admit_inv cache st freq q0 vs rest z \<Longrightarrow> admit_found cache st freq q0 z"
  by (auto simp: admit_inv_def admit_found_def split: prod.splits)

lemma admit_found_end: "admit_found cache st freq q0 (q, nv, r, v, vks) \<Longrightarrow> admit_found cache st freq q0 (q, nv', r', v, vks)"
  by (simp add: admit_found_def)

lemma victims_sum_snoc:
  "victims_sum cache st freq (vks @ [(kh, la)]) =
     \<lparr>sf_policy_weight = sf_policy_weight (victims_sum cache st freq vks) + ucast (ve_policy_weight st (the (cache (kh_key kh)))),
      sf_freq = sf_freq (victims_sum cache st freq vks) + ucast (the (frequency freq (kh_hash kh)))\<rparr>"
  by (simp add: victims_sum_def)

lemma admit_skip:
  assumes "admit_inv cache st freq q0 vs (a # rest) (deq, nv, r, v, vks)"
  shows "\<exists>deq'. ad_move_to_back a deq = Some deq' \<and>
    (rest \<noteq> [] \<longrightarrow> admit_inv cache st freq q0 vs (rest @ [a]) (deq', succ_in (ad_nodes deq) a, r', v, vks)) \<and>
    (rest = [] \<longrightarrow> succ_in (ad_nodes deq) a = None \<and> admit_found cache st freq q0 (deq', None, r', v, vks))"
proof -
  have p: "deq_perm q0 deq" "ad_nodes deq = vs @ a # rest" using assms by (auto simp: admit_inv_def)
  note ok = deq_perm_ok[OF p(1)]
  have nin: "a \<notin> set vs" using ok p(2) by (auto simp: ad_ok_def)
  obtain deq' where m: "ad_move_to_back a deq = Some deq'" "deq_perm deq deq'"
    using deq_perm_move[OF ok, of a] p(2) by auto
  have n: "ad_nodes deq' = vs @ rest @ [a]"
    using ad_move_to_back_nodes[OF ok m(1)] p(2) nin by (simp add: remove1_append)
  have s: "succ_in (ad_nodes deq) a = (case rest of [] \<Rightarrow> None | b # _ \<Rightarrow> Some b)"
    unfolding p(2) by (rule succ_in_append[OF nin])
  have "deq_perm q0 deq'" by (rule deq_perm_trans[OF p(1) m(2)])
  moreover have "admit_found cache st freq q0 (deq', None, r', v, vks)"
    unfolding admit_found_def prod.case
    by (intro conjI exI[of _ vs] exI[of _ "rest @ [a]"]) (use assms n calculation in \<open>auto simp: admit_inv_def\<close>)
  ultimately show ?thesis using assms n s m(1) by (cases rest) (auto simp: admit_inv_def)
qed

lemma admit_take:
  assumes inv: "admit_inv cache st freq q0 vs (a # rest) (deq, nv, r, v, vks)" and i: "st_khds st a = Some i"
    and ok: "\<not> is_dirty (st_infos st i)" "is_alive (st_infos st i)"
    and e: "cache (kh_key (ei_key_hash (st_infos st i))) = Some e" and f: "sketch_ok freq"
  shows "\<exists>v'. add_frequency freq (kh_hash (ei_key_hash (st_infos st i))) (add_policy_weight (ve_policy_weight st e) v) = Some v' \<and>
    admit_inv cache st freq q0 (vs @ [a]) rest
      (deq, succ_in (ad_nodes deq) a, r', v', vks @ [(ei_key_hash (st_infos st i), last_accessed (st_infos st i))])"
proof -
  have p: "deq_perm q0 deq" "ad_nodes deq = vs @ a # rest" using inv by (auto simp: admit_inv_def)
  have nin: "a \<notin> set vs" using deq_perm_ok[OF p(1)] p(2) by (auto simp: ad_ok_def)
  have s: "succ_in (ad_nodes deq) a = (case rest of [] \<Rightarrow> None | b # _ \<Rightarrow> Some b)"
    unfolding p(2) by (rule succ_in_append[OF nin])
  obtain n where n: "frequency freq (kh_hash (ei_key_hash (st_infos st i))) = Some n" using frequency_returns[OF f] by blast
  have "victim_of st a = (ei_key_hash (st_infos st i), last_accessed (st_infos st i))" using i by (simp add: victim_of_def Let_def)
  moreover have "victim_ok cache st a" using i ok e by (simp add: victim_ok_def)
  moreover have "v = victims_sum cache st freq vks" using inv by (simp add: admit_inv_def)
  ultimately show ?thesis
    using inv n e s by (auto simp: admit_inv_def add_frequency_def add_policy_weight_def victims_sum_snoc)
qed

lemma admit_loop_yields:
  assumes "admit_inv cache st freq q0 vs rest z" "sketch_ok freq"
    "\<And>a. a \<in> set (ad_nodes q0) \<Longrightarrow> st_khds st a \<noteq> None"
  shows "yields (admit_found cache st freq q0) (admit_loop candidate cache st freq z)"
  using assms(1)
proof (induction "(length rest, Suc MAX_CONSECUTIVE_RETRIES - fst (snd (snd z)))" arbitrary: vs rest z
    rule: wf_induct_rule[OF wf_lex_prod[OF wf_less_than wf_less_than]])
  case 1
  obtain deq nv r v vks where z: "z = (deq, nv, r, v, vks)" by (cases z)
  note inv = 1(2)[unfolded z]
  note found = admit_inv_found[OF inv]
  let ?guard = "sf_policy_weight v < sf_policy_weight candidate \<and> sf_freq v \<le> sf_freq candidate \<and> r \<le> MAX_CONSECUTIVE_RETRIES"
  show ?case
  proof (cases "?guard \<and> rest \<noteq> []")
    case False
    then consider "\<not> ?guard" | "?guard" "nv = None" using inv by (auto simp: admit_inv_def)
    then show ?thesis
    proof cases
      case 1
      then have "admit_loop candidate cache st freq z = Some z"
        unfolding z by (subst admit_loop.simps) (simp only: Let_def prod.case if_False)
      with found show ?thesis by (simp add: z)
    next
      case 2
      then have "admit_loop candidate cache st freq z = Some (deq, None, r, v, vks)"
        unfolding z by (subst admit_loop.simps) simp
      with admit_found_end[OF found, of None r] show ?thesis by simp
    qed
  next
    case True
    then obtain a as where rest: "rest = a # as" and g: ?guard by (cases rest) auto
    have nv: "nv = Some a" using inv rest by (simp add: admit_inv_def)
    have "a \<in> set (ad_nodes q0)" using inv rest by (auto simp: admit_inv_def deq_perm_def)
    then obtain i where i: "st_khds st a = Some i" using assms(3) by blast
    let ?info = "st_infos st i"
    let ?e = "cache (kh_key (ei_key_hash ?info))"
    have skip: "yields (admit_found cache st freq q0)
        (do { deq' \<leftarrow> ad_move_to_back a deq; admit_loop candidate cache st freq (deq', succ_in (ad_nodes deq) a, r + 1, v, vks) })"
    proof -
      obtain deq' where m: "ad_move_to_back a deq = Some deq'"
        "as \<noteq> [] \<Longrightarrow> admit_inv cache st freq q0 vs (as @ [a]) (deq', succ_in (ad_nodes deq) a, r + 1, v, vks)"
        "as = [] \<Longrightarrow> succ_in (ad_nodes deq) a = None \<and> admit_found cache st freq q0 (deq', None, r + 1, v, vks)"
        using admit_skip[OF inv[unfolded rest], of "r + 1"] by blast
      show ?thesis
      proof (cases "as = []")
        case True
        then show ?thesis using m(1,3) by (simp, subst admit_loop.simps) simp
      next
        case False
        have "yields (admit_found cache st freq q0) (admit_loop candidate cache st freq (deq', succ_in (ad_nodes deq) a, r + 1, v, vks))"
          by (rule 1(1)[OF _ m(2)[OF False]]) (use g in \<open>auto simp: rest z\<close>)
        then show ?thesis using m(1) by simp
      qed
    qed
    have take: "yields (admit_found cache st freq q0)
        (do { v' \<leftarrow> add_frequency freq (kh_hash (ei_key_hash ?info)) (add_policy_weight (ve_policy_weight st e) v);
              admit_loop candidate cache st freq
                (deq, succ_in (ad_nodes deq) a, 0, v', vks @ [(ei_key_hash ?info, last_accessed ?info)]) })"
      if vic: "\<not> is_dirty ?info" "is_alive ?info" "?e = Some e" for e
    proof -
      obtain v' where v': "add_frequency freq (kh_hash (ei_key_hash ?info)) (add_policy_weight (ve_policy_weight st e) v) = Some v'"
        "admit_inv cache st freq q0 (vs @ [a]) as
          (deq, succ_in (ad_nodes deq) a, 0, v', vks @ [(ei_key_hash ?info, last_accessed ?info)])"
        using admit_take[OF inv[unfolded rest] i vic assms(2), of 0] by blast
      have "yields (admit_found cache st freq q0) (admit_loop candidate cache st freq
          (deq, succ_in (ad_nodes deq) a, 0, v', vks @ [(ei_key_hash ?info, last_accessed ?info)]))"
        by (rule 1(1)[OF _ v'(2)]) (simp add: rest)
      with v'(1) show ?thesis by simp
    qed
    show ?thesis
      using skip take g i nv z
      by (subst admit_loop.simps) (simp add: Let_def del: yields_bind split: option.split)
  qed
qed

lemma admit_yields:
  assumes ok: "ad_ok q" and khd: "\<And>a. a \<in> set (ad_nodes q) \<Longrightarrow> st_khds st a \<noteq> None" and f: "sketch_ok freq"
  shows "yields (\<lambda>(q', r). deq_perm q q' \<and>
      (\<forall>vks. r = Admitted vks \<longrightarrow>
         (\<exists>vs rest. ad_nodes q' = vs @ rest \<and> vks = map (victim_of st) vs \<and> (\<forall>a \<in> set vs. victim_ok cache st a)) \<and>
         sf_policy_weight candidate \<le> sf_policy_weight (victims_sum cache st freq vks) \<and>
         sf_freq (victims_sum cache st freq vks) < sf_freq candidate))
    (admit candidate cache st freq q)"
proof -
  let ?z = "(q, ad_peek_front q, 0, \<lparr>sf_policy_weight = 0, sf_freq = 0\<rparr>, [])"
  have "admit_inv cache st freq q [] (ad_nodes q) ?z"
    using ok by (simp add: admit_inv_def deq_perm_refl ad_peek_front_def victims_sum_def)
  from admit_loop_yields[OF this f khd, of candidate] show ?thesis
    by (auto simp: admit_def admit_found_def elim!: yields_mono)
qed

section \<open>Victims and admissions\<close>

lemma evict_victim_yields:
  assumes inv: "maint_inv cf ops X Y s"
  shows "yields (\<lambda>s'. keeps cf ops X Y s s' \<and> (\<forall>i. adm (in_store s') i \<longrightarrow> adm (in_store s) i)) (evict_victim vic s)"
proof -
  obtain kh la where vic: "vic = (kh, la)" by (cases vic)
  let ?c = "\<lambda>e. last_accessed (info_of (in_store s) e) = la"
  obtain s1 r where r: "cht_remove_if_and_retire (kh_key kh) ?c s = (s1, r)" by fastforce
  show ?thesis
  proof (cases r)
    case (Some e)
    obtain s2 where s2: "notify_and_count (kh_key kh) e CauseSize s1 = Some s2" "maint_inv cf ops (insert (ve_info e) X) Y s2"
      "evicts s s2" "in_store s2 = upd_info (ve_info e) retire (in_store s)" "ve_ok (in_store s2) e" "\<not> alive (in_store s2) (ve_info e)"
      using evict_ok[OF inv r[unfolded Some], of CauseSize] by blast
    obtain s3 where s3: "handle_remove e None s2 = Some s3"
      "maint_inv cf ops (insert (ve_info e) X - {ve_info e}) Y s3" "handles s2 s3"
      using handle_remove_ok[OF s2(2,5,6), of None] by blast
    have "maint_inv cf ops X Y s3" by (rule maint_inv_mono[OF s3(2)]) auto
    moreover have "adm (in_store s) i" if "adm (in_store s3) i" for i
      using that s3(3) by (auto simp: handles_def s2(4) split: if_splits)
    ultimately show ?thesis using vic r Some s2(1) s3(1) evicts_trans[OF s2(3) handles_evicts[OF s3(3)]]
      by (simp add: evict_victim_def keeps_def)
  next
    case None
    then have s1: "s1 = s" using cht_remove_None[of "kh_key kh" ?c s s1] r by simp
    note ok = maint_invD(3)[OF inv]
    let ?q = "dqs_probation (in_deques s)"
    obtain q where q: "ad_move_front_to_back ?q = Some q" "deq_perm ?q q"
      using deq_perm_move_front[OF deqs_shapeD(1)[OF ok]] by blast
    have "deqs_perm (in_deques s) ((in_deques s)\<lparr>dqs_probation := q\<rparr>)"
      using q(2) deqs_shapeD(2)[OF ok] by (simp add: deqs_perm_def deq_perm_refl)
    note h = handles_perm[OF inv this]
    have "keeps cf ops X Y s (s\<lparr>in_deques := (in_deques s)\<lparr>dqs_probation := q\<rparr>\<rparr>)"
      using h by (simp add: keeps_def handles_evicts)
    moreover have "\<exists>i. st_khds (in_store s) a = Some i" if "ad_peek_front ?q = Some a" for a
      using that deqs_okD(4)[OF ok, of a] by (auto simp: ad_peek_front_def split: list.splits)
    ultimately show ?thesis using vic r None s1 q(1) keeps_refl[OF inv]
      by (auto simp: evict_victim_def split: option.split)
  qed
qed

lemma evict_victims_yields:
  assumes "maint_inv cf ops X Y s"
  shows "yields (\<lambda>s'. keeps cf ops X Y s s' \<and> (\<forall>i. adm (in_store s') i \<longrightarrow> adm (in_store s) i)) (mfold evict_victim vks s)"
  by (rule yields_mfold) (use keeps_refl[OF assms] in \<open>auto intro!: yields_mono[OF evict_victim_yields] dest: keepsD(1) keeps_trans\<close>)

lemma handle_admit_eq:
  "handle_admit cf e w s =
     (if \<not> alive (in_store s) (ve_info e) then Some s
      else do { s \<leftarrow> update_timer_wheel e (upd_counters (counters_saturating_add 1 w) s);
                (st, dqs) \<leftarrow> add_to_deques (is_write_order_queue_enabled cf s) e (in_store s) (in_deques s);
                Some (s\<lparr>in_store := st, in_deques := dqs\<rparr>) })"
  by (auto simp: handle_admit_def add_to_deques_def info_of_def Let_def split: prod.splits Option.bind_split)

lemma handle_admit_yields:
  assumes inv: "maint_inv cf ops X Y s" and e: "ve_ok (in_store s) e" "\<not> adm (in_store s) (ve_info e)"
    and h: "alive (in_store s) (ve_info e) \<Longrightarrow> holds (in_cache s) (in_store s) (ve_info e)"
  shows "yields (\<lambda>s'. keeps cf ops X Y s s' \<and>
      (adm (in_store s') (ve_info e) \<or> \<not> alive (in_store s') (ve_info e))) (handle_admit cf e w s)"
proof (cases "alive (in_store s) (ve_info e)")
  case False
  then show ?thesis using keeps_refl[OF inv] by (simp add: handle_admit_def info_of_def)
next
  case True
  note i = maint_invD[OF inv]
  let ?s = "upd_counters (counters_saturating_add 1 w) s"
  have n: "ve_nodes e = Suc (ve_info e)" using e(1) by (simp add: ve_ok_def)
  obtain st tw where u: "update_timer_wheel e ?s = Some (?s\<lparr>in_store := st, in_timer_wheel := tw\<rparr>)" "timer_step ?s st tw"
    using update_timer_wheel_ok[of ?s e] i(4) n e(1) by (auto simp: ve_ok_def)
  have c: "cache_inv cf ops X Y (?s\<lparr>in_store := st, in_timer_wheel := tw\<rparr>)"
    using cache_inv_timer[of cf ops X Y ?s st tw] i(1) u(2) by (simp add: timer_step_def)
  let ?s1 = "?s\<lparr>in_store := st, in_timer_wheel := tw\<rparr>"
  have fr: "timer_frame (in_store s) st" using u(2) by (simp add: timer_step_def)
  then have st: "st_infos st = st_infos (in_store s)" "st_next_id st = st_next_id (in_store s)" by (simp_all add: timer_frame_def)
  have c1: "cinv cf ops X Y (in_cache s) st (in_deques s) tw" using cache_invD(1)[OF c] by simp
  from add_to_deques_ok[OF cinvD(1)[OF c1], of e "is_write_order_queue_enabled cf ?s1"] e n st obtain st' dqs where
    a: "add_to_deques (is_write_order_queue_enabled cf ?s1) e st (in_deques s) = Some (st', dqs)" "deqs_ok st' dqs"
    "deq_frame (ve_info e) True st st'" "prob dqs = prob (in_deques s) @ [st_next_addr st]"
    by (auto simp: ve_ok_def)
  note f = a(3)[unfolded deq_frame_def]
  have hs: "holds (in_cache s) st (ve_info e)" "alive st (ve_info e)" using h[OF True] True st by (simp_all add: holds_def)
  have "cinv cf ops X (Y - {ve_info e}) (in_cache s) st' dqs tw" by (rule cinv_added[OF c1 hs(2,1) a(2,3)])
  then have "cinv cf ops X Y (in_cache s) st' dqs tw" unfolding cinv_def pend_ok_def by blast
  let ?s2 = "?s1\<lparr>in_store := st', in_deques := dqs\<rparr>"
  have "cache_inv cf ops X Y ?s2"
    using c \<open>cinv cf ops X Y (in_cache s) st' dqs tw\<close> f by (auto simp: cache_inv_def ve_ok_def)
  moreover have "same_infos st st'" "adm st' (ve_info e)"
    using flag_frame(6,8)[of st' st "ve_info e" True] f by auto
  moreover have "same_infos (in_store s) st" by (rule timer_frame_infos[OF fr])
  ultimately have "keeps cf ops X Y s ?s2"
    using i(7) a(4) same_infos_trans[of "in_store s" st st'] by (simp add: keeps_def maint_inv_def evicts_def)
  with u(1) a(1) True \<open>adm st' (ve_info e)\<close> show ?thesis by (simp add: handle_admit_eq)
qed

section \<open>Writes\<close>

text \<open>An operation stays among the pending ones until its handler is done. It may then be dropped:
  that of an insertion when the entry is admitted, retired or has a newer generation, that of a
  removal when the entry is not admitted.\<close>

lemma maint_inv_ops:
  assumes "maint_inv cf ops X Y s" "pend_ok ops X Y (in_cache s) (in_store s) \<Longrightarrow> pend_ok ops' X' Y' (in_cache s) (in_store s)"
  shows "maint_inv cf ops' X' Y' s"
  using assms by (simp add: maint_inv_def cache_inv_def cinv_def)

lemma drop_upsert:
  assumes "maint_inv cf (insert (Upsert kh e gen w w') ops) X Y s"
    and "adm (in_store s) (ve_info e) \<or> \<not> alive (in_store s) (ve_info e) \<or> ei_entry_gen (st_infos (in_store s) (ve_info e)) \<noteq> gen"
  shows "maint_inv cf ops X Y s"
proof (rule maint_inv_ops[OF assms(1)], rule pend_okI)
  let ?ops = "insert (Upsert kh e gen w w') ops"
  assume p: "pend_ok ?ops X Y (in_cache s) (in_store s)"
  show "op_ok (in_cache s) (in_store s) op" if "op \<in> ops" for op using pend_okD(1)[OF p, of op] that by blast
  show "holds (in_cache s) (in_store s) i" if "adm (in_store s) i" "alive (in_store s) i" for i
    using pend_okD(2)[OF p that] .
  show "has_remove ops i" if "adm (in_store s) i" "\<not> alive (in_store s) i" "i \<notin> X" for i
    using pend_okD(3)[OF p that] by (auto simp: has_remove_def)
  show "adm (in_store s) (ve_info e') \<or> has_upsert ops (ve_info e') (ei_entry_gen (info_of (in_store s) e'))"
    if k: "in_cache s k = Some e'" "ve_info e' \<notin> Y" for k e'
  proof (cases "ve_info e' = ve_info e")
    case True
    have "alive (in_store s) (ve_info e')" by (rule tbl_okD(3)[OF maint_invD(5)[OF assms(1)] k(1)])
    with True assms(2) pend_okD(4)[OF p k] show ?thesis by (auto simp: has_upsert_def info_of_def)
  next
    case False
    with pend_okD(4)[OF p k] show ?thesis by (auto simp: has_upsert_def)
  qed
qed

lemma drop_remove:
  assumes "maint_inv cf (insert (Remove kv gen) ops) X Y s"
  shows "maint_inv cf ops (insert (ve_info (kv_entry kv)) X) Y s"
proof (rule maint_inv_ops[OF assms])
  have "has_remove (insert (Remove kv gen) ops) i \<longleftrightarrow> i = ve_info (kv_entry kv) \<or> has_remove ops i"
    "has_upsert (insert (Remove kv gen) ops) i g = has_upsert ops i g" for i g
    by (auto simp: has_remove_def has_upsert_def)
  then show "pend_ok ops (insert (ve_info (kv_entry kv)) X) Y (in_cache s) (in_store s)"
    if "pend_ok (insert (Remove kv gen) ops) X Y (in_cache s) (in_store s)"
    using that unfolding pend_ok_def by blast
qed

lemma not_admitted_X:
  "maint_inv cf ops (insert i X) Y s \<Longrightarrow> \<not> adm (in_store s) i \<Longrightarrow> maint_inv cf ops X Y s"
  by (erule maint_inv_ops) (auto simp: pend_ok_def)

text \<open>The removal of a candidate.\<close>

lemma remove_candidate_yields:
  assumes inv: "maint_inv cf ops X Y s" and a: "\<not> adm (in_store s) (ve_info e)"
    and h: "holds (in_cache s) (in_store s) (ve_info e)" and k: "kh_key kh = info_key (in_store s) (ve_info e)"
    and r: "remove_candidate (kh_key kh) e gen s = (s1, r)"
  shows "(r = None \<and> s1 = s \<and> ei_entry_gen (st_infos (in_store s) (ve_info e)) \<noteq> gen) \<or>
    (\<exists>e' s2. r = Some e' \<and> ve_info e' = ve_info e \<and> notify_and_count (kh_key kh) e' CauseSize s1 = Some s2 \<and>
       keeps cf ops X Y s s2 \<and> \<not> alive (in_store s2) (ve_info e))"
proof (cases r)
  case None
  obtain e' where "in_cache s (kh_key kh) = Some e'" "ve_info e' = ve_info e" using h k by (auto simp: holds_def)
  with None r show ?thesis
    by (auto simp: remove_candidate_def cht_remove_if_and_retire_def info_of_def split: if_splits)
next
  case (Some e')
  note r' = r[unfolded remove_candidate_def Some]
  have e': "ve_info e' = ve_info e" using cht_remove_Some[OF r'] by simp
  obtain s2 where s2: "notify_and_count (kh_key kh) e' CauseSize s1 = Some s2" "maint_inv cf ops (insert (ve_info e') X) Y s2"
    "evicts s s2" "in_store s2 = upd_info (ve_info e') retire (in_store s)" "\<not> alive (in_store s2) (ve_info e')"
    using evict_ok[OF inv r', of CauseSize] by blast
  have "\<not> adm (in_store s2) (ve_info e')" using a e' by (simp add: s2(4))
  from not_admitted_X[OF s2(2) this] s2 e' Some show ?thesis by (simp add: keeps_def)
qed

lemma keeps_policy_gen:
  assumes "keeps cf ops X Y s s'"
  shows "keeps cf ops X Y s (apply_policy_gen e g s')"
  using handles_policy_gen[OF keepsD(1)[OF assms], of e g] keeps_trans[OF assms, of X Y]
  by (simp add: keeps_def handles_evicts)

lemma apply_policy_gen_infos [simp]:
  "adm (in_store (apply_policy_gen e g s)) i = adm (in_store s) i"
  "alive (in_store (apply_policy_gen e g s)) i = alive (in_store s) i"
  "in_cache (apply_policy_gen e g s) = in_cache s"
  by (simp_all add: apply_policy_gen_def)

text \<open>The update of an entry that is already admitted.\<close>

lemma keeps_handles: "maint_inv cf ops X Y s' \<Longrightarrow> handles s s' \<Longrightarrow> keeps cf ops X Y s s'"
  by (simp add: keeps_def handles_evicts)

lemma update_timer_wheel_yields:
  assumes "maint_inv cf ops X Y s" "ve_ok (in_store s) e"
  shows "yields (\<lambda>s'. maint_inv cf ops X Y s' \<and> handles s s' \<and> st_infos (in_store s') = st_infos (in_store s))
    (update_timer_wheel e s)"
proof -
  obtain st tw where u: "update_timer_wheel e s = Some (s\<lparr>in_store := st, in_timer_wheel := tw\<rparr>)" "timer_step s st tw"
    using update_timer_wheel_ok[OF maint_invD(4)[OF assms(1)], of e] assms(2) by (auto simp: ve_ok_def)
  with handles_timer[OF assms(1) u(2)] show ?thesis by (simp add: timer_step_def timer_frame_def)
qed

lemma update_admitted_yields:
  assumes inv: "maint_inv cf ops X Y s" and e: "ve_ok (in_store s) e" "adm (in_store s) (ve_info e)"
  shows "yields (\<lambda>s'. keeps cf ops X Y s s' \<and> adm (in_store s') (ve_info e)) (do {
      s \<leftarrow> update_timer_wheel e s;
      dqs \<leftarrow> move_to_back_ao e (in_store s) (in_deques s);
      dqs \<leftarrow> move_to_back_wo e (in_store s) dqs;
      Some (apply_policy_gen e gen (s\<lparr>in_deques := dqs\<rparr>)) })"
proof -
  from update_timer_wheel_yields[OF inv e(1)] obtain s1 where
    s1: "update_timer_wheel e s = Some s1" "maint_inv cf ops X Y s1" "handles s s1" "st_infos (in_store s1) = st_infos (in_store s)"
    by (auto elim: yieldsE)
  note ok = maint_invD(3)[OF s1(2)]
  obtain d where d: "move_to_back_ao e (in_store s1) (in_deques s1) = Some d" "deqs_perm (in_deques s1) d"
    using move_to_back_ao_ok[OF ok] by blast
  obtain d' where d': "move_to_back_wo e (in_store s1) d = Some d'" "deqs_perm d d'"
    using move_to_back_wo_ok[OF deqs_ok_perm[OF ok d(2)]] by blast
  note h = handles_perm[OF s1(2) deqs_perm_trans[OF d(2) d'(2)]]
  have "keeps cf ops X Y s (apply_policy_gen e gen (s1\<lparr>in_deques := d'\<rparr>))"
    by (rule keeps_policy_gen[OF keeps_handles[OF h(1) handles_trans[OF s1(3) h(2)]]])
  with s1(1,4) d(1) d'(1) e(2) show ?thesis by (simp add: apply_policy_gen_def)
qed

text \<open>The admission of a candidate, after the victims are chosen.\<close>

lemma admit_candidate_yields:
  assumes inv: "maint_inv cf ops X Y s" and op: "Upsert kh e gen w w' \<in> ops" and a: "\<not> adm (in_store s) (ve_info e)"
  shows "yields (\<lambda>s'. keeps cf ops X Y s s' \<and> (adm (in_store s') (ve_info e) \<or> \<not> alive (in_store s') (ve_info e)))
    (do { s \<leftarrow> mfold evict_victim vks s; s \<leftarrow> handle_admit cf e weight s; Some (apply_policy_gen e gen s) })"
proof -
  from evict_victims_yields[OF inv, of vks] obtain s1 where
    s1: "mfold evict_victim vks s = Some s1" "keeps cf ops X Y s s1" "\<And>i. adm (in_store s1) i \<Longrightarrow> adm (in_store s) i"
    by (auto elim: yieldsE)
  have "op_ok (in_cache s1) (in_store s1) (Upsert kh e gen w w')"
    using pend_okD(1)[OF maint_invD(6)[OF keepsD(1)[OF s1(2)]] op] .
  then have o: "ve_ok (in_store s1) e" "alive (in_store s1) (ve_info e) \<Longrightarrow> holds (in_cache s1) (in_store s1) (ve_info e)"
    by simp_all
  have "\<not> adm (in_store s1) (ve_info e)" using s1(3) a by blast
  from handle_admit_yields[OF keepsD(1)[OF s1(2)] o(1) this o(2), of weight] obtain s2 where
    s2: "handle_admit cf e weight s1 = Some s2" "keeps cf ops X Y s1 s2"
    "adm (in_store s2) (ve_info e) \<or> \<not> alive (in_store s2) (ve_info e)" by (auto elim: yieldsE)
  with s1(1) keeps_policy_gen[OF keeps_trans[OF s1(2) s2(2)], of e gen] show ?thesis by simp
qed

text \<open>The post-condition of the handler of an insertion.\<close>

abbreviation upsert_done :: "('k, 'v) config \<Rightarrow> ('k, 'v) write_op set \<Rightarrow> ('k, 'v) maint \<Rightarrow> 'v value_entry \<Rightarrow> u16 \<Rightarrow> ('k, 'v) maint \<Rightarrow> bool" where
  "upsert_done cf ops s e gen s' \<equiv> keeps cf ops {} {} s s' \<and>
     (adm (in_store s') (ve_info e) \<or> \<not> alive (in_store s') (ve_info e) \<or>
      ei_entry_gen (st_infos (in_store s') (ve_info e)) \<noteq> gen)"

lemma gen_of_keeps:
  "keeps cf ops X Y s s' \<Longrightarrow> ei_entry_gen (st_infos (in_store s') i) = ei_entry_gen (st_infos (in_store s) i)"
  by (simp add: keeps_def evicts_def same_infos_def same_data_def)

lemma reject_candidate_yields:
  assumes inv: "maint_inv cf ops {} {} s" and op: "Upsert kh e gen w w' \<in> ops"
    and a: "\<not> adm (in_store s) (ve_info e)" "alive (in_store s) (ve_info e)"
  shows "yields (upsert_done cf ops s e gen)
      (let (s, removed) = remove_candidate (kh_key kh) e gen s
         in do { s \<leftarrow> (case removed of Some e \<Rightarrow> notify_and_count (kh_key kh) e CauseSize s | None \<Rightarrow> Some s);
                 Some (apply_policy_gen e gen s) })"
    and "yields (upsert_done cf ops s e gen)
      (let (s, removed) = remove_candidate (kh_key kh) e gen s
         in case removed of
              Some e \<Rightarrow> notify_and_count (kh_key kh) e CauseSize (apply_policy_gen e gen s)
            | None \<Rightarrow> Some s)"
proof -
  have "op_ok (in_cache s) (in_store s) (Upsert kh e gen w w')" by (rule pend_okD(1)[OF maint_invD(6)[OF inv] op])
  then have h: "holds (in_cache s) (in_store s) (ve_info e)" "kh_key kh = info_key (in_store s) (ve_info e)"
    using a(2) by (auto simp: info_of_def)
  obtain s1 r where r: "remove_candidate (kh_key kh) e gen s = (s1, r)" by fastforce
  note rc = remove_candidate_yields[OF inv a(1) h r]
  have ng: "notify_and_count k e' c (apply_policy_gen e' gen s1) = map_option (apply_policy_gen e' gen) (notify_and_count k e' c s1)" for k e' c
    by (simp add: notify_and_count_def notify_entry_removal_def apply_policy_gen_def notify_single_removal_def upd_counters_def)
  have gen: "ei_entry_gen (st_infos (in_store (apply_policy_gen e gen s)) (ve_info e)) = ei_entry_gen (st_infos (in_store s) (ve_info e))"
    by (rule gen_of_keeps[OF keeps_policy_gen[OF keeps_refl[OF inv]]])
  show "yields (upsert_done cf ops s e gen)
      (let (s, removed) = remove_candidate (kh_key kh) e gen s
         in do { s \<leftarrow> (case removed of Some e \<Rightarrow> notify_and_count (kh_key kh) e CauseSize s | None \<Rightarrow> Some s);
                 Some (apply_policy_gen e gen s) })"
    using rc r gen keeps_policy_gen keeps_policy_gen[OF keeps_refl[OF inv]] by auto
  show "yields (upsert_done cf ops s e gen)
      (let (s, removed) = remove_candidate (kh_key kh) e gen s
         in case removed of
              Some e \<Rightarrow> notify_and_count (kh_key kh) e CauseSize (apply_policy_gen e gen s)
            | None \<Rightarrow> Some s)"
    using rc r ng keeps_policy_gen keeps_refl[OF inv] by auto
qed

lemma search_victims_yields:
  assumes inv: "maint_inv cf ops X Y s"
  shows "yields (\<lambda>(s', _). maint_inv cf ops X Y s' \<and> handles s s')
     (case cf_eviction_policy cf of
        TinyLfu \<Rightarrow> do { candidate \<leftarrow> add_frequency (in_frequency_sketch s) hash (size_and_frequency_new w);
                       (q, r) \<leftarrow> admit candidate (in_cache s) (in_store s) (in_frequency_sketch s) (dqs_probation (in_deques s));
                       Some (s\<lparr>in_deques := (in_deques s)\<lparr>dqs_probation := q\<rparr>\<rparr>, r) }
      | Lru \<Rightarrow> Some (s, Admitted []))"
proof -
  note ok = maint_invD(3)[OF inv] and f = cache_invD(2)[OF maint_invD(1)[OF inv]]
  let ?q = "dqs_probation (in_deques s)"
  obtain c where c: "add_frequency (in_frequency_sketch s) hash (size_and_frequency_new w) = Some c"
    using frequency_returns[OF f, of hash] by (auto simp: add_frequency_def)
  have khd: "st_khds (in_store s) a \<noteq> None" if "a \<in> set (ad_nodes ?q)" for a using deqs_okD(4)[OF ok that] by auto
  obtain q r where q: "admit c (in_cache s) (in_store s) (in_frequency_sketch s) ?q = Some (q, r)" "deq_perm ?q q"
    using admit_yields[OF deqs_shapeD(1)[OF ok] khd f, where candidate = c and cache = "in_cache s"] by (auto elim: yieldsE)
  have "deqs_perm (in_deques s) ((in_deques s)\<lparr>dqs_probation := q\<rparr>)"
    using q(2) deqs_shapeD(2)[OF ok] by (simp add: deqs_perm_def deq_perm_refl)
  with handles_perm[OF inv] c q(1) inv show ?thesis by (cases "cf_eviction_policy cf") auto
qed

lemma handle_upsert_done:
  assumes inv: "maint_inv cf ops {} {} s" and op: "Upsert kh e gen ow nw \<in> ops"
  shows "yields (upsert_done cf ops s e gen) (handle_upsert cf kh e gen ow nw s)"
proof -
  have "op_ok (in_cache s) (in_store s) (Upsert kh e gen ow nw)" by (rule pend_okD(1)[OF maint_invD(6)[OF inv] op])
  then have o: "ve_ok (in_store s) e" by simp
  consider (dead) "\<not> alive (in_store s) (ve_info e)" | (adm) "alive (in_store s) (ve_info e)" "adm (in_store s) (ve_info e)"
    | (new) "alive (in_store s) (ve_info e)" "\<not> adm (in_store s) (ve_info e)" by blast
  then show ?thesis
  proof cases
    case dead
    then show ?thesis using keeps_policy_gen[OF keeps_refl[OF inv], of e gen] by (simp add: handle_upsert_def info_of_def)
  next
    case adm
    let ?s = "upd_counters (counters_saturating_add 0 nw) (upd_counters (counters_saturating_sub 0 ow) s)"
    have w: "maint_inv cf ops {} {} ?s" using inv by (simp add: handles_weights)
    have k: "keeps cf ops {} {} s ?s"
      by (rule keeps_handles[OF w handles_trans[OF handles_weights(3) handles_weights(4)]])
    from update_admitted_yields[OF w, of e gen] o adm(2)
    have "yields (upsert_done cf ops s e gen) (do {
      s \<leftarrow> update_timer_wheel e ?s;
      dqs \<leftarrow> move_to_back_ao e (in_store s) (in_deques s);
      dqs \<leftarrow> move_to_back_wo e (in_store s) dqs;
      Some (apply_policy_gen e gen (s\<lparr>in_deques := dqs\<rparr>)) })"
      by (auto elim!: yields_mono intro: keeps_trans[OF k])
    then show ?thesis using adm
      by (simp add: handle_upsert_def ve_is_admitted_def info_of_def Let_def del: yields_bind)
  next
    case new
    note rej = reject_candidate_yields[OF inv op new(2,1)]
    have admit: "yields (upsert_done cf ops s e gen)
        (do { s \<leftarrow> mfold evict_victim vks s'; s \<leftarrow> handle_admit cf e nw s; Some (apply_policy_gen e gen s) })"
      if "maint_inv cf ops {} {} s'" "handles s s'" for s' vks
    proof -
      have "\<not> adm (in_store s') (ve_info e)" using that(2) new(2) by (auto simp: handles_def)
      from admit_candidate_yields[OF that(1) op this] show ?thesis
        by (rule yields_mono) (use keeps_trans[OF keeps_handles[OF that]] in blast)
    qed
    from search_victims_yields[OF inv, of "kh_hash kh" nw] obtain s' r where
      sr: "(case cf_eviction_policy cf of
          TinyLfu \<Rightarrow> do { candidate \<leftarrow> add_frequency (in_frequency_sketch s) (kh_hash kh) (size_and_frequency_new nw);
                         (q, r) \<leftarrow> admit candidate (in_cache s) (in_store s) (in_frequency_sketch s) (dqs_probation (in_deques s));
                         Some (s\<lparr>in_deques := (in_deques s)\<lparr>dqs_probation := q\<rparr>\<rparr>, r) }
        | Lru \<Rightarrow> Some (s, Admitted [])) = Some (s', r)" and h: "maint_inv cf ops {} {} s'" "handles s s'"
      by (auto elim!: yieldsE)
    have rej': "yields (upsert_done cf ops s e gen) (let (s, removed) = remove_candidate (kh_key kh) e gen s'
         in case removed of Some e \<Rightarrow> notify_and_count (kh_key kh) e CauseSize (apply_policy_gen e gen s) | None \<Rightarrow> Some s)"
      by (rule yields_mono[OF reject_candidate_yields(2)[OF h(1) op]])
        (use new h(2) keeps_trans[OF keeps_handles[OF h]] in \<open>auto simp: handles_def\<close>)
    have "yields (upsert_done cf ops s e gen)
       (case r of
          Admitted vks \<Rightarrow> do { s \<leftarrow> mfold evict_victim vks s'; s \<leftarrow> handle_admit cf e nw s; Some (apply_policy_gen e gen s) }
        | Rejected \<Rightarrow>
            (let (s, removed) = remove_candidate (kh_key kh) e gen s'
             in case removed of
                  Some e \<Rightarrow> notify_and_count (kh_key kh) e CauseSize (apply_policy_gen e gen s)
                | None \<Rightarrow> Some s))"
      using admit[OF h] rej' by (cases r) (simp_all del: yields_bind)
    moreover have "yields (upsert_done cf ops s e gen) (do { s \<leftarrow> handle_admit cf e nw s; Some (apply_policy_gen e gen s) })"
      using admit[OF inv handles_refl, of "[]"] by simp
    ultimately show ?thesis unfolding handle_upsert_def
      using new rej(1) by (cases r) (simp_all add: ve_is_admitted_def info_of_def Let_def sr del: yields_bind)
  qed
qed

lemma apply_write_op_yields:
  assumes inv: "maint_inv cf (insert op ops) {} {} s"
  shows "yields (keeps cf ops {} {} s) (apply_write_op cf op s)"
proof (cases op)
  case (Upsert kh e gen ow nw)
  have "yields (keeps cf ops {} {} s) (handle_upsert cf kh e gen ow nw s)"
    by (rule yields_mono[OF handle_upsert_done[OF inv]])
      (use Upsert drop_upsert[of cf kh e gen ow nw ops] in \<open>auto simp: keeps_def\<close>)
  with Upsert show ?thesis by (simp add: apply_write_op_def)
next
  case (Remove kv gen)
  let ?e = "kv_entry kv"
  have "op_ok (in_cache s) (in_store s) op" by (rule pend_okD(1)[OF maint_invD(6)[OF inv]]) simp
  then have e: "ve_ok (in_store s) ?e" "\<not> alive (in_store s) (ve_info ?e)" using Remove by simp_all
  obtain s1 where "handle_remove ?e (Some gen) s = Some s1" "maint_inv cf ops (insert (ve_info ?e) {} - {ve_info ?e}) {} s1"
    "handles s s1" using handle_remove_ok[OF drop_remove[OF inv[unfolded Remove]] e, of "Some gen"] by blast
  with Remove show ?thesis by (simp add: apply_write_op_def keeps_def handles_evicts)
qed

end
