(* ===== verification/Maint_Run.thy ===== *)
theory Maint_Run
  imports Maint_Admit
begin

text \<open>
  A maintenance run as a whole: it returns, empties both channels, keeps the invariant and only
  removes entries from the table.
\<close>

section \<open>The channels\<close>

text \<open>What a run may change, besides receiving operations from the channels.\<close>

definition runs :: "('k, 'v) maint \<Rightarrow> ('k, 'v) maint \<Rightarrow> bool" where
  "runs s s' \<longleftrightarrow> evicts s (s'\<lparr>in_read_op_ch := in_read_op_ch s, in_write_op_ch := in_write_op_ch s\<rparr>)"

lemma evicts_runs: "evicts s s' \<Longrightarrow> runs s s'"
  by (simp add: runs_def evicts_def)

lemma runs_trans: "runs s s' \<Longrightarrow> runs s' s'' \<Longrightarrow> runs s s''"
  using evicts_trans[of s "s'\<lparr>in_read_op_ch := in_read_op_ch s, in_write_op_ch := in_write_op_ch s\<rparr>"
      "s''\<lparr>in_read_op_ch := in_read_op_ch s, in_write_op_ch := in_write_op_ch s\<rparr>"]
  by (simp add: runs_def) (simp add: evicts_def)

lemma runs_refl: "runs s s"
  by (simp add: runs_def evicts_def)

lemma runs_receive: "runs (s\<lparr>in_read_op_ch := r, in_write_op_ch := w\<rparr>) s' = runs s s'"
  "runs s (s'\<lparr>in_read_op_ch := r, in_write_op_ch := w\<rparr>) = runs s s'"
  by (simp_all add: runs_def evicts_def)

lemma runs_receive1 [simp]: "runs (s\<lparr>in_read_op_ch := r\<rparr>) s' = runs s s'" "runs (s\<lparr>in_write_op_ch := w\<rparr>) s' = runs s s'"
  "runs s (s'\<lparr>in_read_op_ch := r\<rparr>) = runs s s'" "runs s (s'\<lparr>in_write_op_ch := w\<rparr>) = runs s s'"
  by (simp_all add: runs_def evicts_def)

lemma maint_inv_write_ch [simp]: "maint_inv cf ops X Y (s\<lparr>in_write_op_ch := w\<rparr>) = maint_inv cf ops X Y s"
  by (simp add: maint_inv_def cache_inv_def)

lemma maint_inv_read_ch: "maint_inv cf ops X Y s \<Longrightarrow> set r \<subseteq> set (in_read_op_ch s) \<Longrightarrow> maint_inv cf ops X Y (s\<lparr>in_read_op_ch := r\<rparr>)"
  by (auto simp: maint_inv_def cache_inv_def)

lemma keeps_runs: "keeps cf ops X Y s s' \<Longrightarrow> runs s s'"
  by (simp add: keeps_def evicts_runs)

lemma keeps_channels: "keeps cf ops X Y s s' \<Longrightarrow> in_read_op_ch s' = in_read_op_ch s \<and> in_write_op_ch s' = in_write_op_ch s"
  by (simp add: keeps_def evicts_def)

section \<open>Reads\<close>

lemma keeps_sketch:
  "maint_inv cf ops X Y s \<Longrightarrow> sketch_ok f \<Longrightarrow> keeps cf ops X Y s (s\<lparr>in_frequency_sketch := f\<rparr>)"
  by (simp add: keeps_def maint_inv_def cache_inv_def evicts_def)

lemma apply_read_op_yields:
  assumes inv: "maint_inv cf ops X Y s" and op: "\<And>e m. op = Hit e m \<Longrightarrow> ve_ok (in_store s) e"
  shows "yields (keeps cf ops X Y s) (apply_read_op op s)"
proof -
  have inc: "\<exists>f. increment (in_frequency_sketch s) h = Some f \<and> keeps cf ops X Y s (s\<lparr>in_frequency_sketch := f\<rparr>)" for h
    using increment_ok[OF cache_invD(2)[OF maint_invD(1)[OF inv]], of h] keeps_sketch[OF inv] by blast
  show ?thesis
  proof (cases op)
    case (Miss h)
    with inc[of h] show ?thesis by (auto simp: apply_read_op_def)
  next
    case (Hit e m)
    let ?h = "kh_hash (ei_key_hash (info_of (in_store s) e))"
    obtain f where f: "increment (in_frequency_sketch s) ?h = Some f" "keeps cf ops X Y s (s\<lparr>in_frequency_sketch := f\<rparr>)"
      using inc by blast
    let ?s = "s\<lparr>in_frequency_sketch := f\<rparr>"
    have "yields (keeps cf ops X Y ?s) (if m then update_timer_wheel e ?s else Some ?s)"
      using update_timer_wheel_yields[OF keepsD(1)[OF f(2)], of e] op[OF Hit] keeps_refl[OF keepsD(1)[OF f(2)]]
      by (auto elim!: yields_mono simp: keeps_handles)
    then obtain s1 where s1: "(if m then update_timer_wheel e ?s else Some ?s) = Some s1" "keeps cf ops X Y ?s s1"
      by (rule yieldsE)
    obtain d where d: "move_to_back_ao e (in_store s1) (in_deques s1) = Some d" "deqs_perm (in_deques s1) d"
      using move_to_back_ao_ok[OF maint_invD(3)[OF keepsD(1)[OF s1(2)]]] by blast
    note h = handles_perm[OF keepsD(1)[OF s1(2)] d(2)]
    have "keeps cf ops X Y s (s1\<lparr>in_deques := d\<rparr>)"
      by (rule keeps_trans[OF f(2) keeps_trans[OF s1(2) keeps_handles[OF h]]])
    with Hit f s1(1) d(1) show ?thesis by (simp add: apply_read_op_def Let_def)
  qed
qed

lemma apply_reads_yields:
  assumes "maint_inv cf ops X Y s"
  shows "yields (\<lambda>s'. maint_inv cf ops X Y s' \<and> runs s s' \<and> in_read_op_ch s' = drop n (in_read_op_ch s) \<and>
      in_write_op_ch s' = in_write_op_ch s) (apply_reads n s)"
  using assms
proof (induction n arbitrary: s)
  case 0
  then show ?case by (simp add: runs_refl)
next
  case (Suc n)
  show ?case
  proof (cases "in_read_op_ch s")
    case Nil
    then show ?thesis using Suc.prems by (simp add: runs_refl)
  next
    case (Cons op rest)
    let ?s = "s\<lparr>in_read_op_ch := rest\<rparr>"
    have inv: "maint_inv cf ops X Y ?s" by (rule maint_inv_read_ch[OF Suc.prems]) (auto simp: Cons)
    have ve: "ve_ok (in_store ?s) e" if "op = Hit e m" for e m
      using cache_invD(4)[OF maint_invD(1)[OF Suc.prems], of e m] Cons that by simp
    have "yields (keeps cf ops X Y ?s) (apply_read_op op ?s)" by (rule apply_read_op_yields[OF inv]) (rule ve)
    then obtain s1 where s1: "apply_read_op op ?s = Some s1" "keeps cf ops X Y ?s s1" by (rule yieldsE)
    have "runs s s1" using keeps_runs[OF s1(2)] by simp
    with Suc.IH[OF keepsD(1)[OF s1(2)]] s1(1) Cons keeps_channels[OF s1(2)] show ?thesis
      by (auto elim!: yields_mono intro: runs_trans)
  qed
qed

section \<open>Writes\<close>

text \<open>\<open>F\<close> are the operations that are still with their threads.\<close>

lemma apply_writes_yields:
  assumes "maint_inv cf (set (in_write_op_ch s) \<union> F) {} {} s"
  shows "yields (\<lambda>s'. maint_inv cf (set (in_write_op_ch s') \<union> F) {} {} s' \<and> runs s s' \<and>
      in_write_op_ch s' = drop n (in_write_op_ch s) \<and> in_read_op_ch s' = in_read_op_ch s) (apply_writes cf n s)"
  using assms
proof (induction n arbitrary: s)
  case 0
  then show ?case by (simp add: runs_refl)
next
  case (Suc n)
  show ?case
  proof (cases "in_write_op_ch s")
    case Nil
    then show ?thesis using Suc.prems by (simp add: runs_refl)
  next
    case (Cons op rest)
    let ?s = "s\<lparr>in_write_op_ch := rest\<rparr>"
    have "maint_inv cf (insert op (set rest \<union> F)) {} {} ?s" using Suc.prems Cons by simp
    from apply_write_op_yields[OF this] obtain s1 where
      s1: "apply_write_op cf op ?s = Some s1" "keeps cf (set rest \<union> F) {} {} ?s s1" by (rule yieldsE)
    have c: "in_write_op_ch s1 = rest" "in_read_op_ch s1 = in_read_op_ch s" using keeps_channels[OF s1(2)] by simp_all
    have "runs s s1" using keeps_runs[OF s1(2)] by simp
    moreover have "maint_inv cf (set (in_write_op_ch s1) \<union> F) {} {} s1" using keepsD(1)[OF s1(2)] c by simp
    ultimately show ?thesis using Suc.IH[of s1] s1(1) Cons c by (auto elim!: yields_mono intro: runs_trans)
  qed
qed

lemma sketch_ok_enable:
  "sketch_ok (in_frequency_sketch s) \<Longrightarrow> sketch_ok (in_frequency_sketch (enable_frequency_sketch cf c s))"
  using ensure_capacity_table by (auto simp: enable_frequency_sketch_def do_enable_frequency_sketch_def Let_def split: option.split)

lemma enable_frequency_sketch_eq:
  "\<exists>f b. enable_frequency_sketch cf c s = s\<lparr>in_frequency_sketch := f, in_frequency_sketch_enabled := b\<rparr>"
proof (cases "cf_max_capacity cf")
  case None
  then show ?thesis
    by (intro exI[of _ "in_frequency_sketch s"] exI[of _ "in_frequency_sketch_enabled s"])
      (simp add: enable_frequency_sketch_def)
qed (auto simp: enable_frequency_sketch_def do_enable_frequency_sketch_def Let_def)

lemma keeps_enable:
  assumes "maint_inv cf ops X Y s"
  shows "keeps cf ops X Y s (enable_frequency_sketch cf c s)"
proof -
  obtain f b where f: "enable_frequency_sketch cf c s = s\<lparr>in_frequency_sketch := f, in_frequency_sketch_enabled := b\<rparr>"
    using enable_frequency_sketch_eq by blast
  have "sketch_ok f" using sketch_ok_enable[OF cache_invD(2)[OF maint_invD(1)[OF assms]], of cf c] f by simp
  with assms show ?thesis unfolding f by (simp add: keeps_def maint_inv_def cache_inv_def evicts_def)
qed

lemma apply_logs_eq:
  "apply_logs cf s =
     do { s \<leftarrow> apply_reads (length (in_read_op_ch s)) s;
          s \<leftarrow> apply_writes cf (length (in_write_op_ch s)) s;
          Some (if cf_eviction_policy cf = TinyLfu \<and> should_enable_frequency_sketch cf (es_counters s) s
                then enable_frequency_sketch cf (es_counters s) s else s) }"
proof -
  have w: "(if length (in_write_op_ch s) > 0 then apply_writes cf (length (in_write_op_ch s)) s else Some s) =
      apply_writes cf (length (in_write_op_ch s)) s" for s
    by simp
  show ?thesis unfolding apply_logs_def Let_def w by simp
qed

lemma apply_logs_yields:
  assumes "maint_inv cf (set (in_write_op_ch s) \<union> F) {} {} s"
  shows "yields (\<lambda>s'. maint_inv cf F {} {} s' \<and> runs s s' \<and> in_read_op_ch s' = [] \<and> in_write_op_ch s' = []) (apply_logs cf s)"
proof -
  obtain s1 where s1: "apply_reads (length (in_read_op_ch s)) s = Some s1"
    "maint_inv cf (set (in_write_op_ch s1) \<union> F) {} {} s1" "runs s s1" "in_read_op_ch s1 = []"
    by (rule yieldsE[OF apply_reads_yields[OF assms, of "length (in_read_op_ch s)"]]) simp
  obtain s2 where s2: "apply_writes cf (length (in_write_op_ch s1)) s1 = Some s2"
    "maint_inv cf F {} {} s2" "runs s1 s2" "in_write_op_ch s2 = []" "in_read_op_ch s2 = []"
    by (rule yieldsE[OF apply_writes_yields[OF s1(2), of "length (in_write_op_ch s1)"]]) (auto simp: s1(4))
  note k = keeps_enable[OF s2(2), of "es_counters s2"]
  note k' = keepsD(1)[OF k] keeps_channels[OF k] runs_trans[OF s1(3) s2(3)] runs_trans[OF runs_trans[OF s1(3) s2(3)] keeps_runs[OF k]]
  show ?thesis
    by (simp add: apply_logs_eq s1(1) s2 k')
qed

section \<open>Eviction rounds\<close>

lemma evict_round_yields:
  assumes inv: "maint_inv cf ops X Y s" and mono: "mono (cf_clock cf)"
  shows "yields (keeps cf ops X Y s) (evict_round cf batch_size s)"
proof -
  let ?s = "s\<lparr>es_more_entries_to_evict := False\<rparr>"
  have iv: "yields (keeps cf ops X Y s') (case in_invalidator s' of
       Some iv \<Rightarrow> if \<not> iv_is_empty iv then invalidate_entries cf iv batch_size s' else Some s' | None \<Rightarrow> Some s')"
    if "maint_inv cf ops X Y s'" for s'
    using invalidate_entries_yields[OF that mono] keeps_refl[OF that] by (auto split: option.split)
  have "yields (keeps cf ops X Y ?s) (evict_round cf batch_size s)"
    unfolding evict_round_def Let_def
    by (intro keeps_step[where g = id and h = id, unfolded id_apply] iv yields_if
        evict_expired_entries_using_timers_yields evict_expired_entries_using_deqs_yields remove_expired_yields(3))
      (use inv mono keeps_refl iv in auto)
  then show ?thesis by (rule yields_mono) (use keeps_trans[of cf ops X Y s ?s X Y] keeps_refl[OF inv] in auto)
qed

lemma timeout_reached_keeps:
  assumes "maint_inv cf ops X Y s" "mono (cf_clock cf)"
  shows "keeps cf ops X Y s (fst (timeout_reached cf timeout started_at s))"
  using current_time_ok(1)[OF assms] keeps_refl[OF assms(1)]
  by (auto simp: timeout_reached_def split: option.split prod.split)

text \<open>A round that evicts nothing is the last one, so the number of further rounds is bounded by
  the number of entries in the table.\<close>

lemma evicts_shrinks:
  assumes "evicts s s'" "finite (dom (in_cache s))" "ec_eviction_count (es_counters s') \<noteq> ec_eviction_count (es_counters s)"
  shows "card (dom (in_cache s')) < card (dom (in_cache s))"
proof -
  have le: "in_cache s' \<subseteq>\<^sub>m in_cache s" "in_cache s' \<noteq> in_cache s" using assms(1,3) by (auto simp: evicts_def)
  then have "dom (in_cache s') \<subseteq> dom (in_cache s)" by (simp add: map_le_implies_dom_le)
  moreover have "dom (in_cache s') \<noteq> dom (in_cache s)"
    using le map_le_antisym[of "in_cache s'" "in_cache s"] by (auto simp: map_le_def)
  ultimately show ?thesis by (simp add: assms(2) psubset_card_mono psubsetI)
qed

lemma flush_points: "READ_LOG_FLUSH_POINT > 0" "WRITE_LOG_FLUSH_POINT > 0"
  by (simp_all add: READ_LOG_FLUSH_POINT_def WRITE_LOG_FLUSH_POINT_def)

text \<open>After the first round the channels are empty, so the logs are not processed again.\<close>

lemma run_loop_yields:
  assumes "maint_inv cf F {} {} s" "mono (cf_clock cf)" "in_read_op_ch s = []" "in_write_op_ch s = []"
  shows "yields (\<lambda>s'. maint_inv cf F {} {} s' \<and> runs s s' \<and> in_read_op_ch s' = [] \<and> in_write_op_ch s' = [])
    (run_loop cf timeout started_at max_repeats batch_size False n_calls s)"
  using assms
proof (induction "card (dom (in_cache s))" arbitrary: s n_calls rule: less_induct)
  case less
  obtain s1 where s1: "evict_round cf batch_size s = Some s1" "keeps cf F {} {} s s1"
    by (rule yieldsE[OF evict_round_yields[OF less.prems(1,2), of batch_size]])
  have c: "in_read_op_ch s1 = []" "in_write_op_ch s1 = []" using keeps_channels[OF s1(2)] less.prems(3,4) by simp_all
  obtain s2 reached where t: "timeout_reached cf timeout started_at s1 = (s2, reached)" by fastforce
  have k2: "keeps cf F {} {} s s2"
    using keeps_trans[OF s1(2) timeout_reached_keeps[OF keepsD(1)[OF s1(2)] less.prems(2), of timeout started_at]] t by simp
  have c2: "in_read_op_ch s2 = []" "in_write_op_ch s2 = []" using keeps_channels[OF k2] less.prems(3,4) by simp_all
  have more: "yields (\<lambda>s'. maint_inv cf F {} {} s' \<and> runs s s' \<and> in_read_op_ch s' = [] \<and> in_write_op_ch s' = [])
      (run_loop cf timeout started_at max_repeats batch_size False n_calls s2)"
    if "ec_eviction_count (es_counters s1) \<noteq> ec_eviction_count (es_counters s)"
  proof -
    have "card (dom (in_cache s1)) < card (dom (in_cache s))"
      by (rule evicts_shrinks[OF keepsD(2)[OF s1(2)] tbl_okD(1)[OF maint_invD(5)[OF less.prems(1)]] that])
    moreover have "in_cache s2 = in_cache s1" using t by (auto simp: timeout_reached_def current_time_def split: option.splits)
    ultimately have "card (dom (in_cache s2)) < card (dom (in_cache s))" by simp
    from less.hyps[OF this keepsD(1)[OF k2] less.prems(2) c2, of n_calls] show ?thesis
      by (rule yields_mono) (use runs_trans[OF keeps_runs[OF k2]] in blast)
  qed
  have e: "ec_eviction_count (es_counters s1) - ec_eviction_count (es_counters s) > 0 \<longleftrightarrow>
      ec_eviction_count (es_counters s1) \<noteq> ec_eviction_count (es_counters s)"
    by (metis right_minus_eq word_gt_0)
  show ?case
    using s1(1) t c c2 flush_points more keepsD(1)[OF s1(2)] keeps_runs[OF s1(2)] keepsD(1)[OF k2] keeps_runs[OF k2]
    by (subst run_loop.simps) (simp add: Let_def e del: word_gt_0)
qed

lemma run_loop_first_yields:
  assumes "maint_inv cf (set (in_write_op_ch s) \<union> F) {} {} s" "mono (cf_clock cf)"
  shows "yields (\<lambda>s'. maint_inv cf F {} {} s' \<and> runs s s' \<and> in_read_op_ch s' = [] \<and> in_write_op_ch s' = [])
    (run_loop cf timeout started_at max_repeats batch_size True n_calls s)"
proof -
  obtain s0 where s0: "apply_logs cf s = Some s0" "maint_inv cf F {} {} s0" "runs s s0" "in_read_op_ch s0 = []" "in_write_op_ch s0 = []"
    by (rule yieldsE[OF apply_logs_yields[OF assms(1)]]) blast
  have eq: "run_loop cf timeout started_at max_repeats batch_size True n_calls s =
      run_loop cf timeout started_at max_repeats batch_size False (n_calls + 1) s0"
    unfolding run_loop.simps[of _ _ _ _ _ True] run_loop.simps[of _ _ _ _ _ False] by (simp add: s0(1))
  show ?thesis
    unfolding eq by (rule yields_mono[OF run_loop_yields[OF s0(2) assms(2) s0(4,5)]]) (use runs_trans[OF s0(3)] in blast)
qed

section \<open>The run\<close>

text \<open>The state of a cache between two steps: the counter of the entries counts the nodes of the
  probation deque.\<close>

definition inner_inv :: "('k, 'v) config \<Rightarrow> ('k, 'v) write_op set \<Rightarrow> ('k, 'v) inner \<Rightarrow> bool" where
  "inner_inv cf ops s \<longleftrightarrow> cache_inv cf ops {} {} s \<and> in_entry_count s = word_of_nat (length (prob (in_deques s)))"

lemma inner_inv_start: "inner_inv cf ops s \<Longrightarrow> maint_inv cf ops {} {} (eviction_state_new s)"
  by (simp add: inner_inv_def maint_inv_def cache_inv_def eviction_state_new_def eviction_counters_new_def
      inner.extend_def maint.fields_def)

text \<open>What a run does to the cache.\<close>

definition run_post :: "('k, 'v) config \<Rightarrow> ('k, 'v) write_op set \<Rightarrow> ('k, 'v) inner \<Rightarrow> ('k, 'v) inner \<Rightarrow> bool" where
  "run_post cf F s s' \<longleftrightarrow>
     inner_inv cf F s' \<and> in_read_op_ch s' = [] \<and> in_write_op_ch s' = [] \<and>
     in_cache s' \<subseteq>\<^sub>m in_cache s \<and> in_valid_after s' = in_valid_after s \<and> in_ticks s \<le> in_ticks s' \<and>
     (in_invalidator s' = None \<longleftrightarrow> in_invalidator s = None) \<and> same_infos (in_store s) (in_store s')"

lemma do_run_pending_tasks_yields:
  assumes inv: "inner_inv cf (set (in_write_op_ch s) \<union> F) s" and mono: "mono (cf_clock cf)" and cap: "cf_max_capacity cf \<noteq> Some 0"
  shows "yields (\<lambda>(s', _). run_post cf F s s') (do_run_pending_tasks cf timeout max_repeats batch_size s)"
proof -
  define s0 where "s0 = (if timeout \<noteq> None then fst (current_time cf s) else s)"
  define started where "started = (if timeout \<noteq> None then Some (snd (current_time cf s)) else None)"
  have s0: "(if timeout \<noteq> None then let (s, now) = current_time cf s in (s, Some now) else (s, None)) = (s0, started)"
    by (simp add: s0_def started_def split: prod.split)
  have "tw_current (in_timer_wheel s) \<le> cf_clock cf (Suc (in_ticks s))"
    using inv monoD[OF mono, of "in_ticks s" "Suc (in_ticks s)"] by (auto simp: inner_inv_def cache_inv_def)
  then have i0: "inner_inv cf (set (in_write_op_ch s0) \<union> F) s0"
    using inv by (auto simp: s0_def current_time_def inner_inv_def cache_inv_def)
  have "maint_inv cf (set (in_write_op_ch (eviction_state_new s0)) \<union> F) {} {} (eviction_state_new s0)"
    using inner_inv_start[OF i0] by (simp add: eviction_state_new_def inner.extend_def)
  from run_loop_first_yields[OF this mono, of timeout started max_repeats batch_size 0] obtain s1 where
    s1: "run_loop cf timeout started max_repeats batch_size True 0 (eviction_state_new s0) = Some s1"
    "maint_inv cf F {} {} s1" "runs (eviction_state_new s0) s1" "in_read_op_ch s1 = []" "in_write_op_ch s1 = []"
    by (auto elim!: yieldsE)
  let ?s = "inner.truncate (s1\<lparr>in_entry_count := ec_entry_count (es_counters s1), in_weighted_size := ec_weighted_size (es_counters s1)\<rparr>)"
  have "run_post cf F s ?s"
    using s1(2-5) unfolding run_post_def
    by (simp add: inner_inv_def maint_inv_def cache_inv_def runs_def evicts_def eviction_state_new_def inner.extend_def
        inner.truncate_def s0_def current_time_def split: if_splits)
  then show ?thesis using cap s1(1) unfolding do_run_pending_tasks_def s0 by simp
qed

end
