(* ===== verification/Cache_Ops.thy ===== *)
theory Cache_Ops
  imports Maint_Run Sync_Cache
begin

text \<open>
  The operations that user threads call return and keep the invariant, and what they do to the
  hash table.
\<close>

section \<open>The clock\<close>

text \<open>The instants that a clock returns never decrease and are never \<open>u64::MAX\<close>, the marker of an
  instant that is not set.\<close>

definition clock_ok :: "('k, 'v) config \<Rightarrow> bool" where
  "clock_ok cf \<longleftrightarrow> mono (cf_clock cf) \<and> (\<forall>t. proper_instant (cf_clock cf t))"

lemma clock_okD: "clock_ok cf \<Longrightarrow> mono (cf_clock cf)" "clock_ok cf \<Longrightarrow> proper_instant (cf_clock cf t)"
  by (simp_all add: clock_ok_def)

lemma inner_invD:
  assumes "inner_inv cf ops s"
  shows "cache_inv cf ops {} {} s" "cinv cf ops {} {} (in_cache s) (in_store s) (in_deques s) (in_timer_wheel s)"
    "tbl_ok cf (in_cache s) (in_store s)" "deqs_ok (in_store s) (in_deques s)"
    "pend_ok ops {} {} (in_cache s) (in_store s)"
    "in_entry_count s = word_of_nat (length (prob (in_deques s)))"
  using assms cinvD[OF cache_invD(1)[of cf ops "{}" "{}" s]] by (auto simp: inner_inv_def dest: cache_invD)

lemma inner_inv_frame [simp]:
  "inner_inv cf ops (s\<lparr>in_removal_notifier := rn\<rparr>) = inner_inv cf ops s"
  "inner_inv cf ops (s\<lparr>in_valid_after := va\<rparr>) = inner_inv cf ops s"
  "inner_inv cf ops (s\<lparr>in_invalidator := iv\<rparr>) = inner_inv cf ops s"
  "inner_inv cf ops (s\<lparr>in_write_op_ch := w\<rparr>) = inner_inv cf ops s"
  by (simp_all add: inner_inv_def cache_inv_def)

lemma inner_inv_tick:
  assumes "inner_inv cf ops s" "mono (cf_clock cf)"
  shows "inner_inv cf ops (s\<lparr>in_ticks := Suc (in_ticks s)\<rparr>)"
  using assms monoD[OF assms(2), of "in_ticks s" "Suc (in_ticks s)"] by (auto simp: inner_inv_def cache_inv_def)

lemma inner_inv_info:
  assumes "inner_inv cf ops s" "\<And>j. core_eq j (f j)"
  shows "inner_inv cf ops (s\<lparr>in_store := upd_info i f (in_store s)\<rparr>)"
  using cache_inv_info[of cf ops "{}" "{}" s f i] assms by (simp add: inner_inv_def)

lemma inner_inv_read:
  assumes "inner_inv cf ops s" "\<And>e m. op = Hit e m \<Longrightarrow> ve_ok (in_store s) e"
  shows "inner_inv cf ops (s\<lparr>in_read_op_ch := in_read_op_ch s @ [op]\<rparr>)"
  using assms by (auto simp: inner_inv_def cache_inv_def)

lemma core_eq_times [simp]:
  "core_eq i (set_last_accessed t i)" "core_eq i (fst (set_expiration_time x i))" "core_eq i (set_policy_weight w i)"
  by (simp_all add: core_eq_def set_last_accessed_def set_expiration_time_def set_policy_weight_def last_modified_def Let_def)

section \<open>A new cache\<close>

lemma deqs_ok_new: "deqs_ok (new_store kh) deques_default"
  by (rule deqs_okI) (simp_all add: deqs_shape_def deques_default_def new_store_def deq_nodes_default_def ad_new_def ad_ok_def
      entry_info_new_def)

lemma inner_inv_new:
  assumes "clock_ok cf"
  shows "inner_inv cf {} (inner_new kh cf l b t)"
proof -
  have "wheel_ok (new_store kh) (tw_new (cf_clock cf t))"
    by (rule wheel_invI) (auto simp: tw_new_def tw_is_enabled_def new_store_def deq_nodes_default_def)
  moreover have "cf_clock cf t \<le> cf_clock cf (Suc t)" using clock_okD(1)[OF assms] by (simp add: monoD)
  ultimately show ?thesis using deqs_ok_new[of kh]
    by (simp add: inner_inv_def cache_inv_def cinv_def inner_new_def tbl_ok_def pend_ok_def timers_fresh_def
        tw_new_def new_store_def deq_nodes_default_def entry_info_new_def deques_default_def ad_new_def)
qed

section \<open>Insertion\<close>

text \<open>A key that is not in the table gets an entry of its own: metadata and node pointers with new
  identifiers.\<close>

definition alloc_entry :: "'k entry_info \<Rightarrow> 'k store \<Rightarrow> 'k store" where
  "alloc_entry info st =
     st\<lparr>st_infos := (st_infos st)(st_next_id st := info),
        st_nodes := (st_nodes st)(Suc (st_next_id st) := deq_nodes_default), st_next_id := Suc (Suc (st_next_id st))\<rparr>"

lemma has_op_insert:
  "has_upsert ops i g \<Longrightarrow> has_upsert (insert op ops) i g" "has_remove ops i \<Longrightarrow> has_remove (insert op ops) i"
  by (auto simp: has_upsert_def has_remove_def)

lemma alloc_entry_frame:
  assumes "deqs_ok st dqs" "timers_fresh st" "\<not> ei_is_admitted info"
  shows "ao_ptr (alloc_entry info st) n = ao_ptr st n" "wo_ptr (alloc_entry info st) n = wo_ptr st n"
    "dns_timer_node (st_nodes (alloc_entry info st) n) = dns_timer_node (st_nodes st n)"
    "adm (alloc_entry info st) j = adm st j" "adm st j \<Longrightarrow> j \<noteq> st_next_id st"
    "timer_at (alloc_entry info st) a l b j = timer_at st a l b j"
proof -
  have new: "ao_ptr st (Suc (st_next_id st)) = None" "wo_ptr st (Suc (st_next_id st)) = None"
    "dns_timer_node (st_nodes st (Suc (st_next_id st))) = None" "\<not> adm st (st_next_id st)"
    using deqs_okD(2,3)[OF assms(1), of "Suc (st_next_id st)"] assms(2) deqs_ok_adm[OF assms(1), of "st_next_id st"]
    by (fastforce simp: timers_fresh_def)+
  show "ao_ptr (alloc_entry info st) n = ao_ptr st n" "wo_ptr (alloc_entry info st) n = wo_ptr st n"
    "dns_timer_node (st_nodes (alloc_entry info st) n) = dns_timer_node (st_nodes st n)"
    "adm (alloc_entry info st) j = adm st j" "adm st j \<Longrightarrow> j \<noteq> st_next_id st"
    "timer_at (alloc_entry info st) a l b j = timer_at st a l b j"
    using new assms(3) by (auto simp: alloc_entry_def deq_nodes_default_def timer_at_def)
qed

lemma alloc_entry_sel [simp]:
  "st_timers (alloc_entry info st) = st_timers st" "st_khds (alloc_entry info st) = st_khds st"
  "st_next_addr (alloc_entry info st) = st_next_addr st" "st_next_id (alloc_entry info st) = Suc (Suc (st_next_id st))"
  "st_infos (alloc_entry info st) j = (if j = st_next_id st then info else st_infos st j)"
  by (simp_all add: alloc_entry_def)

lemma alloc_entry_structs:
  assumes "deqs_ok st dqs" "wheel_ok st tw" "timers_fresh st" "\<not> ei_is_admitted info"
  shows "deqs_ok (alloc_entry info st) dqs" "wheel_ok (alloc_entry info st) tw" "timers_fresh (alloc_entry info st)"
proof -
  note f = alloc_entry_frame[OF assms(1,3,4)]
  show "deqs_ok (alloc_entry info st) dqs" by (rule deqs_ok_frame[OF assms(1)]) (use f in simp_all)
  show "timers_fresh (alloc_entry info st)" by (rule timers_fresh_frame[OF assms(3)]) (use f in simp_all)
  show "wheel_ok (alloc_entry info st) tw"
  proof (rule wheel_invI)
    note wd = wheel_invD[OF assms(2)]
    have "bucket_ok (alloc_entry info st) l b q = bucket_ok st l b q" for l b q by (simp add: bucket_ok_def f)
    with wd(2) show "tw_is_enabled tw \<Longrightarrow> in_range l b \<Longrightarrow> bucket_ok (alloc_entry info st) l b (bkt tw l b)" for l b by simp
    show "tw_is_enabled tw \<and>
        (\<exists>l b j. n = Suc j \<and> in_range l b \<and> timer_at (alloc_entry info st) a l b j \<and> a \<in> set (ad_nodes (bkt tw l b)))"
      if "dns_timer_node (st_nodes (alloc_entry info st) n) = Some a" "n \<notin> {}" for n a
      using wd(3)[of n a] that unfolding f by simp
  qed (use wheel_invD[OF assms(2)] in auto)
qed

lemma cinv_new:
  fixes e :: "'v value_entry"
  assumes inv: "cinv cf ops {} {} C st dqs tw" and k: "C k = None"
    and info: "ei_key_hash info = \<lparr>kh_key = k, kh_hash = cf_hash cf k\<rparr>" "is_alive info" "\<not> ei_is_admitted info"
      "last_modified info \<noteq> None" "ei_entry_gen info = gen"
    and e: "ve_info e = st_next_id st" "ve_nodes e = Suc (st_next_id st)"
  shows "cinv cf (insert (Upsert \<lparr>kh_key = k, kh_hash = cf_hash cf k\<rparr> e gen w w') ops) {} {} (C(k \<mapsto> e))
      (alloc_entry info st) dqs tw" (is "cinv _ (insert ?op ops) _ _ ?C ?st _ _")
proof -
  note c = cinvD[OF inv]
  note f = alloc_entry_frame[OF c(1,5) info(3)]
  have old: "ve_info e' \<noteq> st_next_id st" if "ve_ok st e'" for e' :: "'v value_entry" using that by (auto simp: ve_ok_def)
  have v: "ve_ok ?st e'" if "ve_ok st e'" for e' :: "'v value_entry" using that by (simp add: ve_ok_def)
  have h: "holds ?C ?st j" if "holds C st j" "j \<noteq> st_next_id st" for j using that k by (auto simp: holds_def)
  have new: "ve_ok ?st e" "info_of ?st e = info" "holds ?C ?st (st_next_id st)"
    using e info(1) by (simp_all add: ve_ok_def info_of_def holds_def)
  have tbl: "ve_ok ?st e' \<and> info_of ?st e' = info_of st e'" if "C k' = Some e'" for k' e'
    using v old tbl_okD(2)[OF c(3) that] by (simp add: info_of_def)
  have "tbl_ok cf ?C ?st" using new tbl c(3) info unfolding tbl_ok_def info_of_def by auto
  moreover have "pend_ok (insert ?op ops) {} {} ?C ?st"
  proof (rule pend_okI)
    show "op_ok ?C ?st op" if "op \<in> insert ?op ops" for op
    proof (cases "op \<in> ops")
      case True
      have "op_ok C st op" by (rule pend_okD(1)[OF c(4) True])
      then show ?thesis using v h old by (cases op) (fastforce simp: info_of_def)+
    next
      case False
      with that show ?thesis using new e info by (simp add: info_of_def)
    qed
    show "holds ?C ?st j" if "adm ?st j" "alive ?st j" for j
      using h pend_okD(2)[OF c(4), of j] that unfolding f(4) using f(5)[of j] by auto
    show "has_remove (insert ?op ops) j" if "adm ?st j" "\<not> alive ?st j" "j \<notin> {}" for j
      using has_op_insert(2)[OF pend_okD(3)[OF c(4), of j]] that unfolding f(4) using f(5)[of j] by auto
    show "adm ?st (ve_info e') \<or> has_upsert (insert ?op ops) (ve_info e') (ei_entry_gen (info_of ?st e'))"
      if "?C k' = Some e'" "ve_info e' \<notin> {}" for k' e'
    proof (cases "k' = k")
      case True
      then have "has_upsert (insert ?op ops) (ve_info e') (ei_entry_gen (info_of ?st e'))"
        using that(1) new(2) info(5) by (auto simp: has_upsert_def)
      then show ?thesis ..
    next
      case False
      with that(1) have "C k' = Some e'" by simp
      from pend_okD(4)[OF c(4) this] tbl[OF this] show ?thesis unfolding f(4) by (auto intro: has_op_insert)
    qed
  qed
  ultimately show ?thesis using alloc_entry_structs[OF c(1,2,5) info(3)] by (simp add: cinv_def)
qed

text \<open>An entry that is in the table gets a new value and a new generation; its metadata and its
  nodes stay.\<close>

lemma cinv_update:
  assumes inv: "cinv cf ops {} {} C st dqs tw" and k: "C k = Some old"
    and e: "ve_info e = ve_info old" "ve_nodes e = ve_nodes old"
    and info: "ei_key_hash info = ei_key_hash (info_of st old)" "ei_is_admitted info = ei_is_admitted (info_of st old)"
      "ei_is_retired info = ei_is_retired (info_of st old)" "last_modified info \<noteq> None" "ei_entry_gen info = gen"
  shows "cinv cf (insert (Upsert \<lparr>kh_key = k, kh_hash = cf_hash cf k\<rparr> e gen w w') ops) {} {} (C(k \<mapsto> e))
      (upd_info (ve_info old) (\<lambda>_. info) st) dqs tw" (is "cinv _ (insert ?op ops) _ _ ?C ?st _ _")
proof -
  note c = cinvD[OF inv]
  have same: "ei_key_hash (st_infos ?st j) = ei_key_hash (st_infos st j)" "adm ?st j = adm st j" "alive ?st j = alive st j" for j
    using info by (simp_all add: info_of_def is_alive_def)
  have key: "ei_key_hash (info_of st old) = \<lparr>kh_key = k, kh_hash = cf_hash cf k\<rparr>" by (rule tbl_okD(4)[OF c(3) k])
  have ok: "ve_ok st e" "alive st (ve_info old)" using tbl_okD(2,3)[OF c(3) k] e by (simp_all add: ve_ok_def)
  have v: "ve_ok ?st e' = ve_ok st e'" for e' :: "'b value_entry" by (simp add: ve_ok_def)
  have h: "holds ?C ?st j \<longleftrightarrow> holds C st j" for j
    unfolding holds_def same using k e by auto
  have ot: "st_infos ?st (ve_info e') = st_infos st (ve_info e')" if "C k' = Some e'" "k' \<noteq> k" for k' e'
    using tbl_okD(4)[OF c(3) that(1)] that(2) key by (auto simp: info_of_def)
  have ho: "holds ?C ?st (ve_info old)" unfolding h using k key by (simp add: holds_def info_of_def)
  have "deqs_ok ?st dqs" by (rule deqs_ok_frame[OF c(1)]) (use same in simp_all)
  moreover have "wheel_ok ?st tw" by (rule wheel_inv_frame[OF c(2)]) simp_all
  moreover have "timers_fresh ?st" by (rule timers_fresh_frame[OF c(5)]) simp_all
  moreover have "tbl_ok cf ?C ?st"
    unfolding tbl_ok_def
  proof (intro conjI allI impI)
    show "finite (dom ?C)" using tbl_okD(1)[OF c(3)] by simp
    fix k' e' assume k': "?C k' = Some e'"
    show "ve_ok ?st e'" "alive ?st (ve_info e')" "last_modified (info_of ?st e') \<noteq> None"
      "ei_key_hash (info_of ?st e') = \<lparr>kh_key = k', kh_hash = cf_hash cf k'\<rparr>"
      using k' e ok key info tbl_okD(2-5)[OF c(3), of k' e'] ot[of k' e'] unfolding v same info_of_def
      by (auto simp: info_of_def split: if_splits)
  qed
  moreover have "pend_ok (insert ?op ops) {} {} ?C ?st"
  proof (rule pend_okI)
    show "op_ok ?C ?st op" if "op \<in> insert ?op ops" for op
    proof (cases "op \<in> ops")
      case True
      have "op_ok C st op" by (rule pend_okD(1)[OF c(4) True])
      moreover have "op_ok ?C ?st op = op_ok C st op" by (cases op) (simp_all only: op_ok.simps v h info_of_def same)
      ultimately show ?thesis by simp
    next
      case False
      with that have op: "op = ?op" by simp
      show ?thesis unfolding op op_ok.simps v info_of_def same e(1) using ok ho key by (simp add: info_of_def)
    qed
    show "holds ?C ?st j" if "adm ?st j" "alive ?st j" for j
      using pend_okD(2)[OF c(4), of j] that unfolding h same by blast
    show "has_remove (insert ?op ops) j" if "adm ?st j" "\<not> alive ?st j" "j \<notin> {}" for j
      using has_op_insert(2)[OF pend_okD(3)[OF c(4), of j]] that unfolding same by blast
    show "adm ?st (ve_info e') \<or> has_upsert (insert ?op ops) (ve_info e') (ei_entry_gen (info_of ?st e'))"
      if k': "?C k' = Some e'" "ve_info e' \<notin> {}" for k' e'
    proof (cases "k' = k")
      case True
      then have "has_upsert (insert ?op ops) (ve_info e') (ei_entry_gen (info_of ?st e'))"
        using k'(1) e(1) info(5) by (auto simp: has_upsert_def info_of_def)
      then show ?thesis ..
    next
      case False
      with k'(1) have "C k' = Some e'" by simp
      from pend_okD(4)[OF c(4) this] ot[OF this False] show ?thesis
        unfolding same info_of_def by (auto intro: has_op_insert)
    qed
  qed
  ultimately show ?thesis by (simp add: cinv_def)
qed

text \<open>What the expiry callbacks may change.\<close>

definition times_eq :: "('k entry_info \<Rightarrow> 'k entry_info) \<Rightarrow> bool" where
  "times_eq f \<longleftrightarrow> (\<forall>j. core_eq j (f j) \<and> last_modified (f j) = last_modified j \<and> last_accessed (f j) = last_accessed j)"

lemma times_eq_simps [simp]: "times_eq (\<lambda>i. fst (set_expiration_time x i))" "times_eq (\<lambda>i. i)"
  by (simp_all add: times_eq_def) (simp add: set_expiration_time_def last_modified_def last_accessed_def Let_def)

lemma expire_after_create_eq:
  "\<exists>f. expire_after_create expiry key e ts st = upd_info (ve_info e) f st \<and> times_eq f"
  using times_eq_simps(1) by (auto simp: expire_after_create_def Let_def)

lemma expire_after_read_or_update_eq:
  "\<exists>f. fst (expire_after_read_or_update expiry key e ttl tti ts st) = upd_info (ve_info e) f st \<and> times_eq f"
proof -
  have "\<exists>x. fst (expire_after_read_or_update expiry key e ttl tti ts st) = upd_info (ve_info e) (\<lambda>i. fst (set_expiration_time x i)) st \<or>
      fst (expire_after_read_or_update expiry key e ttl tti ts st) = st"
    unfolding expire_after_read_or_update_def Let_def by auto
  moreover have "upd_info (ve_info e) (\<lambda>i. i) st = st" by (simp add: upd_info_def)
  ultimately show ?thesis using times_eq_simps by metis
qed

text \<open>The state after an insertion: the invariant holds with the new operation pending, the
  table maps the key to an entry with the new value that was just modified and accessed, and
  nothing else in the table changed.\<close>

definition insert_post ::
  "('k, 'v) config \<Rightarrow> 'k \<Rightarrow> 'v \<Rightarrow> ('k, 'v) write_op set \<Rightarrow> ('k, 'v) inner \<Rightarrow> ('k, 'v) inner \<Rightarrow> ('k, 'v) write_op \<Rightarrow> instant \<Rightarrow> bool" where
  "insert_post cf key value ops s s' op ts \<longleftrightarrow>
     inner_inv cf (insert op ops) s' \<and> ts = cf_clock cf (in_ticks s) \<and>
     in_read_op_ch s' = in_read_op_ch s \<and> in_write_op_ch s' = in_write_op_ch s \<and>
     in_valid_after s' = in_valid_after s \<and> in_invalidator s' = in_invalidator s \<and> in_ticks s < in_ticks s' \<and>
     (\<exists>e. in_cache s' = (in_cache s)(key \<mapsto> e) \<and> ve_value e = value \<and>
        last_modified (info_of (in_store s') e) = Some ts \<and> last_accessed (info_of (in_store s') e) = Some ts)"

lemma insert_post_info:
  assumes "insert_post cf key value ops s s' op ts"
    and "times_eq f"
  shows "insert_post cf key value ops s (s'\<lparr>in_store := upd_info i f (in_store s')\<rparr>) op ts"
  using assms inner_inv_info[of cf "insert op ops" s' f i] unfolding insert_post_def times_eq_def by (auto simp: info_of_def)

lemma insert_post_notify:
  assumes "insert_post cf key value ops s s' op ts" "mono (cf_clock cf)"
  shows "insert_post cf key value ops s (notify_upsert cf k old s') op ts"
proof -
  obtain rn where "notify_upsert cf k old s' = s'\<lparr>in_ticks := Suc (in_ticks s'), in_removal_notifier := rn\<rparr>"
    by (simp add: notify_upsert_def current_time_def notify_single_removal_def Let_def)
  with assms inner_inv_tick[of cf "insert op ops" s'] show ?thesis by (auto simp: insert_post_def)
qed

lemma insert_post_steps:
  assumes post: "insert_post cf key value ops s s' op ts" and mono: "mono (cf_clock cf)"
  shows "insert_post cf key value ops s (do_post_insert_steps cf ts' k e s') op ts"
    and "insert_post cf key value ops s (do_post_update_steps cf ts' k old e s') op ts"
proof -
  have create: "insert_post cf key value ops s (s'\<lparr>in_store := expire_after_create expiry k e ts' (in_store s')\<rparr>) op ts" for expiry
    using expire_after_create_eq[of expiry k e ts' "in_store s'"] insert_post_info[OF post] by fastforce
  have update: "insert_post cf key value ops s (s'\<lparr>in_store :=
      fst (expire_after_read_or_update f k e ttl tti ts' (in_store s'))\<rparr>) op ts" for f ttl tti
    using expire_after_read_or_update_eq[of f k e ttl tti ts' "in_store s'"] insert_post_info[OF post] by fastforce
  show "insert_post cf key value ops s (do_post_insert_steps cf ts' k e s') op ts"
    using post create by (cases "xp_expiry (cf_expiration_policy cf)") (simp_all add: do_post_insert_steps_def)
  let ?s = "case xp_expiry (cf_expiration_policy cf) of
      Some expiry \<Rightarrow>
        (let old_expired = (case fst (expiration_state (info_of (in_store s') (oe_entry old))) of Some t \<Rightarrow> t \<le> ts' | None \<Rightarrow> False)
         in if old_expired then s'\<lparr>in_store := expire_after_create expiry k e ts' (in_store s')\<rparr>
            else s'\<lparr>in_store := fst (expire_after_read_or_update (ex_after_update expiry) k e
                      (time_to_live cf) (time_to_idle cf) ts' (in_store s'))\<rparr>)
    | None \<Rightarrow> s'"
  have u: "do_post_update_steps cf ts' k old e s' = (if is_removal_notifier_enabled ?s then notify_upsert cf k old ?s else ?s)"
    unfolding do_post_update_steps_def Let_def by (rule refl)
  have "insert_post cf key value ops s ?s op ts"
    using post create update by (cases "xp_expiry (cf_expiration_policy cf)") (simp_all add: Let_def)
  then show "insert_post cf key value ops s (do_post_update_steps cf ts' k old e s') op ts"
    unfolding u using insert_post_notify[OF _ mono] by simp
qed

lemma insert_new_ok:
  assumes inv: "inner_inv cf ops s" and clk: "clock_ok cf" and None: "in_cache s key = None"
    and r: "do_insert_with_hash cf key (cf_hash cf key) value s = (s', op, ts)"
  shows "insert_post cf key value ops s s' op ts"
proof -
  let ?s = "s\<lparr>in_ticks := Suc (in_ticks s)\<rparr>" and ?ts = "cf_clock cf (in_ticks s)" and ?w = "weigh cf key value"
  let ?kh = "\<lparr>kh_key = key, kh_hash = cf_hash cf key\<rparr>"
  let ?info = "entry_info_new ?kh ?ts ?w"
  let ?e = "\<lparr>ve_value = value, ve_info = st_next_id (in_store s), ve_nodes = Suc (st_next_id (in_store s))\<rparr>"
  let ?op = "Upsert ?kh ?e 1 0 ?w"
  let ?s1 = "?s\<lparr>in_store := alloc_entry ?info (in_store s), in_cache := (in_cache s)(key \<mapsto> ?e)\<rparr>"
  have i1: "inner_inv cf ops ?s" by (rule inner_inv_tick[OF inv clock_okD(1)[OF clk]])
  have i: "last_modified ?info = Some ?ts" "last_accessed ?info = Some ?ts" "is_alive ?info"
    using clock_okD(2)[OF clk, of "in_ticks s"]
    by (simp_all add: entry_info_new_def last_modified_def last_accessed_def is_alive_def)
  have "cinv cf (insert ?op ops) {} {} ((in_cache s)(key \<mapsto> ?e)) (alloc_entry ?info (in_store s)) (in_deques s) (in_timer_wheel s)"
    by (rule cinv_new[OF inner_invD(2)[OF i1, simplified] None]) (use i in \<open>simp_all add: entry_info_new_def\<close>)
  then have "insert_post cf key value ops s ?s1 ?op ?ts"
    using i1 i by (auto simp: insert_post_def inner_inv_def cache_inv_def ve_ok_def info_of_def)
  moreover have "s' = do_post_insert_steps cf ?ts key ?e ?s1" "op = ?op" "ts = ?ts"
    using r None by (auto simp: do_insert_with_hash_def current_time_def new_value_entry_def alloc_info_def
        value_entry_new_def new_upsert_def alloc_entry_def Let_def entry_info_new_def)
  ultimately show ?thesis using insert_post_steps(1)[OF _ clock_okD(1)[OF clk]] by blast
qed

lemma insert_update_ok:
  assumes inv: "inner_inv cf ops s" and clk: "clock_ok cf" and Some: "in_cache s key = Some old"
    and r: "do_insert_with_hash cf key (cf_hash cf key) value s = (s', op, ts)"
  shows "insert_post cf key value ops s s' op ts"
proof -
  let ?s = "s\<lparr>in_ticks := Suc (in_ticks s)\<rparr>" and ?ts = "cf_clock cf (in_ticks s)" and ?w = "weigh cf key value"
  let ?i = "info_of (in_store s) old"
  let ?gen = "ei_entry_gen ?i + 1"
  let ?info = "set_policy_weight ?w (set_last_modified ?ts (set_last_accessed ?ts (?i\<lparr>ei_entry_gen := ?gen\<rparr>)))"
  let ?e = "\<lparr>ve_value = value, ve_info = ve_info old, ve_nodes = ve_nodes old\<rparr>"
  let ?op = "Upsert \<lparr>kh_key = key, kh_hash = cf_hash cf key\<rparr> ?e ?gen (ve_policy_weight (in_store s) old) ?w"
  let ?s1 = "?s\<lparr>in_store := upd_info (ve_info old) (\<lambda>_. ?info) (in_store s), in_cache := (in_cache s)(key \<mapsto> ?e)\<rparr>"
  have i1: "inner_inv cf ops ?s" by (rule inner_inv_tick[OF inv clock_okD(1)[OF clk]])
  have i: "last_modified ?info = Some ?ts" "last_accessed ?info = Some ?ts"
    using clock_okD(2)[OF clk, of "in_ticks s"]
    by (simp_all add: set_policy_weight_def set_last_modified_def set_last_accessed_def last_modified_def last_accessed_def)
  have "cinv cf (insert ?op ops) {} {} ((in_cache s)(key \<mapsto> ?e)) (upd_info (ve_info old) (\<lambda>_. ?info) (in_store s)) (in_deques s) (in_timer_wheel s)"
    by (rule cinv_update[OF inner_invD(2)[OF i1, simplified] Some])
      (use i in \<open>simp_all add: set_policy_weight_def set_last_modified_def set_last_accessed_def\<close>)
  then have "insert_post cf key value ops s ?s1 ?op ?ts"
    using i1 i by (auto simp: insert_post_def inner_inv_def cache_inv_def ve_ok_def info_of_def)
  moreover have "s' = do_post_update_steps cf ?ts key (old_entry_info_new (in_store s) old) ?e ?s1" "op = ?op" "ts = ?ts"
    using r Some by (auto simp: do_insert_with_hash_def current_time_def new_value_entry_from_def incr_entry_gen_def
        value_entry_new_from_def new_upsert_def Let_def info_of_def)
  ultimately show ?thesis using insert_post_steps(2)[OF _ clock_okD(1)[OF clk]] by blast
qed

lemma do_insert_ok:
  assumes "inner_inv cf ops s" "clock_ok cf" "do_insert_with_hash cf key (cf_hash cf key) value s = (s', op, ts)"
  shows "insert_post cf key value ops s s' op ts"
  using insert_new_ok[OF assms(1,2) _ assms(3)] insert_update_ok[OF assms(1,2) _ assms(3)]
  by (cases "in_cache s key") auto

section \<open>Removal\<close>

text \<open>The generation of an entry that was retired does not matter.\<close>

lemma cinv_dead_gen:
  assumes inv: "cinv cf ops X Y C st dqs tw" and d: "\<not> alive st i"
  shows "cinv cf ops X Y C (upd_info i (\<lambda>j. fst (incr_entry_gen j)) st) dqs tw" (is "cinv _ _ _ _ _ ?st _ _")
proof -
  note c = cinvD[OF inv]
  have same: "ei_key_hash (st_infos ?st j) = ei_key_hash (st_infos st j)" "adm ?st j = adm st j" "alive ?st j = alive st j"
    "last_modified (st_infos ?st j) = last_modified (st_infos st j)" for j
    by (simp_all add: incr_entry_gen_def is_alive_def last_modified_def)
  have v: "ve_ok ?st e' = ve_ok st e'" for e' :: "'b value_entry" by (simp add: ve_ok_def)
  have h: "holds C ?st j = holds C st j" for j unfolding holds_def same by (rule refl)
  have o: "op_ok C ?st op = op_ok C st op" for op by (cases op) (simp_all only: op_ok.simps v h info_of_def same)
  have g: "ei_entry_gen (info_of ?st e) = ei_entry_gen (info_of st e)" if "C k = Some e" for k e
    using tbl_okD(3)[OF c(3) that] d by (auto simp: info_of_def)
  have "deqs_ok ?st dqs" by (rule deqs_ok_frame[OF c(1)]) (use same in simp_all)
  moreover have "wheel_ok ?st tw" by (rule wheel_inv_frame[OF c(2)]) simp_all
  moreover have "timers_fresh ?st" by (rule timers_fresh_frame[OF c(5)]) simp_all
  moreover have "tbl_ok cf C ?st" using c(3) unfolding tbl_ok_def v info_of_def same .
  moreover have "pend_ok ops X Y C ?st"
  proof (rule pend_okI, unfold o h same)
    show "adm st (ve_info e) \<or> has_upsert ops (ve_info e) (ei_entry_gen (info_of ?st e))"
      if "C k = Some e" "ve_info e \<notin> Y" for k e
      using pend_okD(4)[OF c(4) that] unfolding g[OF that(1)] .
  qed (use pend_okD[OF c(4)] in blast)+
  ultimately show ?thesis by (simp add: cinv_def)
qed

lemma cinv_add_remove:
  assumes "cinv cf ops (insert i X) Y C st dqs tw" "ve_ok st (kv_entry kv)" "\<not> alive st i" "ve_info (kv_entry kv) = i"
  shows "cinv cf (insert (Remove kv g) ops) X Y C st dqs tw"
proof -
  have "has_remove (insert (Remove kv g) ops) i" using assms(4) by (auto simp: has_remove_def)
  moreover note p = cinvD(4)[OF assms(1)]
  ultimately have "pend_ok (insert (Remove kv g) ops) X Y C st"
  proof (intro pend_okI)
    show "op_ok C st op" if "op \<in> insert (Remove kv g) ops" for op
      using pend_okD(1)[OF p, of op] that assms(2-4) by auto
    show "has_remove (insert (Remove kv g) ops) j"
      if "has_remove (insert (Remove kv g) ops) i" "adm st j" "\<not> alive st j" "j \<notin> X" for j
      using pend_okD(3)[OF p, of j] that has_op_insert(2)[of ops j] by (cases "j = i") auto
    show "adm st (ve_info e) \<or> has_upsert (insert (Remove kv g) ops) (ve_info e) (ei_entry_gen (info_of st e))"
      if "C k = Some e" "ve_info e \<notin> Y" for k e
      using pend_okD(4)[OF p that] has_op_insert(1)[of ops] by blast
  qed (use pend_okD(2)[OF p] in blast)
  with assms(1) show ?thesis by (simp add: cinv_def)
qed

text \<open>The state after the first step of \<open>invalidate\<close> on a key that is in the table.\<close>

lemma begin_invalidate_ok:
  assumes inv: "inner_inv cf ops s" and clk: "clock_ok cf" and k: "in_cache s key = Some e"
  shows "\<exists>s' g now. begin_invalidate cf key s = (s', Some (\<lparr>kv_key = key, kv_entry = e\<rparr>, Remove \<lparr>kv_key = key, kv_entry = e\<rparr> g, now)) \<and>
    inner_inv cf (insert (Remove \<lparr>kv_key = key, kv_entry = e\<rparr> g) ops) s' \<and> in_cache s' = (in_cache s)(key := None) \<and>
    in_read_op_ch s' = in_read_op_ch s \<and> in_write_op_ch s' = in_write_op_ch s \<and> in_ticks s < in_ticks s' \<and>
    in_valid_after s' = in_valid_after s \<and> in_invalidator s' = in_invalidator s"
proof -
  let ?kv = "\<lparr>kv_key = key, kv_entry = e\<rparr>" and ?i = "ve_info e"
  let ?st = "upd_info ?i (\<lambda>j. fst (incr_entry_gen j)) (upd_info ?i retire (in_store s))"
  let ?g = "ei_entry_gen (info_of (in_store s) e) + 1"
  let ?s = "s\<lparr>in_cache := (in_cache s)(key := None), in_ticks := Suc (in_ticks s), in_store := ?st\<rparr>"
  have dead: "\<not> alive (upd_info ?i retire (in_store s)) ?i" "\<not> alive ?st ?i" by (simp_all add: incr_entry_gen_def is_alive_def retire_def)
  have ve: "ve_ok ?st e" using tbl_okD(2)[OF inner_invD(3)[OF inv] k] by (simp add: ve_ok_def)
  have "cinv cf (insert (Remove ?kv ?g) ops) {} {} ((in_cache s)(key := None)) ?st (in_deques s) (in_timer_wheel s)"
    by (rule cinv_add_remove[OF cinv_dead_gen[OF cinv_retire[OF inner_invD(2)[OF inv] k] dead(1)]]) (use ve dead in simp_all)
  then have i: "inner_inv cf (insert (Remove ?kv ?g) ops) ?s"
    using inner_inv_tick[OF inv clock_okD(1)[OF clk]] by (auto simp: inner_inv_def cache_inv_def ve_ok_def)
  obtain rn where n: "notify_invalidate cf key e ?s = ?s\<lparr>in_ticks := Suc (Suc (in_ticks s)), in_removal_notifier := rn\<rparr>"
    by (simp add: notify_invalidate_def current_time_def notify_single_removal_def Let_def)
  have st: "upd_info ?i (\<lambda>_. fst (incr_entry_gen (info_of (upd_info ?i retire (in_store s)) e))) (upd_info ?i retire (in_store s)) = ?st"
    by (simp add: upd_info_def info_of_def)
  have "begin_invalidate cf key s =
      (if is_removal_notifier_enabled ?s then notify_invalidate cf key e ?s else ?s, Some (?kv, Remove ?kv ?g, cf_clock cf (in_ticks s)))"
    using k st by (simp add: begin_invalidate_def remove_entry_def cht_remove_if_and_retire_def current_time_def Let_def
        incr_entry_gen_def info_of_def retire_def)
  then show ?thesis
    using i inner_inv_tick[OF i clock_okD(1)[OF clk]] unfolding n by (cases "is_removal_notifier_enabled ?s") simp_all
qed

section \<open>The cache with its housekeeper\<close>

text \<open>\<open>F\<close> are the operations that were made and not yet sent.\<close>

definition bc_inv :: "('k, 'v) config \<Rightarrow> ('k, 'v) write_op set \<Rightarrow> ('k, 'v) base_cache \<Rightarrow> bool" where
  "bc_inv cf F bc \<longleftrightarrow>
     inner_inv cf (set (in_write_op_ch (bc_inner bc)) \<union> F) (bc_inner bc) \<and>
     (\<exists>hk. bc_housekeeper bc = Some hk \<and> hk_ok hk \<and> \<not> hk_run_lock hk \<and> hk_auto_run_enabled hk)"

text \<open>What maintenance may do to the cache between the steps of an operation.\<close>

definition maintained :: "('k, 'v) inner \<Rightarrow> ('k, 'v) inner \<Rightarrow> bool" where
  "maintained s s' \<longleftrightarrow>
     in_cache s' \<subseteq>\<^sub>m in_cache s \<and> in_valid_after s' = in_valid_after s \<and> in_ticks s \<le> in_ticks s' \<and>
     (in_invalidator s' = None \<longleftrightarrow> in_invalidator s = None) \<and> same_infos (in_store s) (in_store s')"

lemma maintained_refl [simp]: "maintained s s"
  by (simp add: maintained_def)

lemma bc_run_pending_tasks_yields:
  assumes inv: "bc_inv cf F bc" and hk: "bc_housekeeper bc = Some hk" and clk: "clock_ok cf" and cap: "cf_max_capacity cf \<noteq> Some 0"
  shows "yields (\<lambda>bc'. bc_inv cf F bc' \<and> maintained (bc_inner bc) (bc_inner bc') \<and>
      in_read_op_ch (bc_inner bc') = [] \<and> in_write_op_ch (bc_inner bc') = []) (bc_run_pending_tasks cf hk bc)"
proof -
  let ?s = "(bc_inner bc)\<lparr>in_ticks := Suc (in_ticks (bc_inner bc))\<rparr>" and ?now = "cf_clock cf (in_ticks (bc_inner bc))"
  have i: "inner_inv cf (set (in_write_op_ch ?s) \<union> F) ?s"
    using inv inner_inv_tick[OF _ clock_okD(1)[OF clk]] by (simp add: bc_inv_def)
  let ?hk = "hk\<lparr>hk_run_after := set_instant (hk_run_after hk) (sync_after ?now)\<rparr>"
  obtain s' m where r: "do_run_pending_tasks cf (hk_maintenance_task_timeout ?hk) (hk_max_log_sync_repeats ?hk)
      (hk_eviction_batch_size ?hk) ?s = Some (s', m)" "run_post cf F ?s s'"
    by (rule yieldsE[OF do_run_pending_tasks_yields[OF i clock_okD(1)[OF clk] cap, of "hk_maintenance_task_timeout ?hk"
            "hk_max_log_sync_repeats ?hk" "hk_eviction_batch_size ?hk"]]) auto
  let ?hk' = "set_more_entries_to_evict m ?hk"
  have h: "hk_do_run_pending_tasks (do_run_pending_tasks cf) ?now hk ?s = Some (?hk', s')"
    unfolding hk_do_run_pending_tasks_def Let_def r(1) by simp
  have "hk_ok ?hk'" by (rule hk_ok_run[OF h])
  moreover have "\<not> hk_run_lock hk" "hk_auto_run_enabled hk" using inv hk by (auto simp: bc_inv_def)
  ultimately show ?thesis
    using h r(2) by (simp add: bc_run_pending_tasks_def current_time_def bc_inv_def run_post_def maintained_def
        set_more_entries_to_evict_def)
qed

lemma apply_if_needed_yields:
  assumes inv: "bc_inv cf F bc" and clk: "clock_ok cf" and cap: "cf_max_capacity cf \<noteq> Some 0"
  shows "yields (\<lambda>bc'. bc_inv cf F bc' \<and> maintained (bc_inner bc) (bc_inner bc')) (apply_reads_if_needed cf now bc)"
    and "yields (\<lambda>bc'. bc_inv cf F bc' \<and> maintained (bc_inner bc) (bc_inner bc') \<and>
      length (in_write_op_ch (bc_inner bc')) < WRITE_LOG_CH_SIZE) (apply_reads_writes_if_needed cf now bc)"
proof -
  obtain hk where hk: "bc_housekeeper bc = Some hk" "hk_ok hk" "\<not> hk_run_lock hk" "hk_auto_run_enabled hk"
    using inv by (auto simp: bc_inv_def)
  obtain r where r: "get_instant (hk_run_after hk) = Some r" using hk(2) by (auto simp: hk_ok_def is_set_iff)
  note run = bc_run_pending_tasks_yields[OF inv hk(1) clk cap]
  have "\<exists>b. should_apply_reads hk (length (in_read_op_ch (bc_inner bc))) now = Some b"
    using r by (simp add: should_apply_reads_def should_apply_def) blast
  then obtain b where b: "should_apply_reads hk (length (in_read_op_ch (bc_inner bc))) now = Some b" by blast
  show "yields (\<lambda>bc'. bc_inv cf F bc' \<and> maintained (bc_inner bc) (bc_inner bc')) (apply_reads_if_needed cf now bc)"
    using hk(1,3) b inv run by (auto simp: apply_reads_if_needed_def bc_try_run_pending_tasks_def elim!: yields_mono)
  have "\<exists>b. should_apply_writes hk (length (in_write_op_ch (bc_inner bc))) now = Some b \<and>
      (b \<or> length (in_write_op_ch (bc_inner bc)) < WRITE_LOG_FLUSH_POINT)"
    using r hk(4) by (auto simp: should_apply_writes_def should_apply_def not_less)
  then obtain b where b: "should_apply_writes hk (length (in_write_op_ch (bc_inner bc))) now = Some b"
    "b \<or> length (in_write_op_ch (bc_inner bc)) < WRITE_LOG_FLUSH_POINT" by blast
  have "WRITE_LOG_FLUSH_POINT < WRITE_LOG_CH_SIZE" by (simp add: WRITE_LOG_FLUSH_POINT_def WRITE_LOG_CH_SIZE_def DEFAULT_MAX_LOG_SYNC_REPEATS_def)
  with b(2) have "b \<or> length (in_write_op_ch (bc_inner bc)) < WRITE_LOG_CH_SIZE" "0 < WRITE_LOG_CH_SIZE" by auto
  then show "yields (\<lambda>bc'. bc_inv cf F bc' \<and> maintained (bc_inner bc) (bc_inner bc') \<and>
      length (in_write_op_ch (bc_inner bc')) < WRITE_LOG_CH_SIZE) (apply_reads_writes_if_needed cf now bc)"
    using hk(1,3) b(1) inv run by (auto simp: apply_reads_writes_if_needed_def bc_try_run_pending_tasks_def elim!: yields_mono)
qed

text \<open>Sending an operation returns: a full channel makes the thread run the maintenance, which
  empties it.\<close>

lemma schedule_write_op_yields:
  assumes inv: "bc_inv cf (insert op F) bc" and clk: "clock_ok cf" and cap: "cf_max_capacity cf \<noteq> Some 0"
  shows "yields (\<lambda>bc'. bc_inv cf F bc' \<and> maintained (bc_inner bc) (bc_inner bc')) (schedule_write_op cf op now bc)"
proof -
  from apply_if_needed_yields(2)[OF inv clk cap] obtain bc1 where
    bc1: "apply_reads_writes_if_needed cf now bc = Some bc1" "bc_inv cf (insert op F) bc1" "maintained (bc_inner bc) (bc_inner bc1)"
    "length (in_write_op_ch (bc_inner bc1)) < WRITE_LOG_CH_SIZE" by (auto elim: yieldsE)
  have "bc_inv cf F (bc1\<lparr>bc_inner := (bc_inner bc1)\<lparr>in_write_op_ch := in_write_op_ch (bc_inner bc1) @ [op]\<rparr>\<rparr>)"
    using bc1(2) by (simp add: bc_inv_def)
  with bc1 cap show ?thesis by (subst schedule_write_op.simps) (simp add: ch_sizes_def Let_def maintained_def)
qed

section \<open>The operations\<close>

lemma maintained_cache: "maintained s s' \<Longrightarrow> in_cache s' \<subseteq>\<^sub>m in_cache s"
  by (simp add: maintained_def)

lemma insert_with_hash_yields:
  assumes inv: "bc_inv cf F bc" and clk: "clock_ok cf" and cap: "cf_max_capacity cf \<noteq> Some 0"
  shows "yields (\<lambda>bc'. bc_inv cf F bc' \<and>
      (\<exists>s op ts. insert_post cf key value (set (in_write_op_ch (bc_inner bc)) \<union> F) (bc_inner bc) s op ts \<and> maintained s (bc_inner bc')))
    (insert_with_hash cf key (cf_hash cf key) value bc)"
proof -
  obtain s op ts where r: "do_insert_with_hash cf key (cf_hash cf key) value (bc_inner bc) = (s, op, ts)" by (cases "do_insert_with_hash cf key (cf_hash cf key) value (bc_inner bc)") auto
  have post: "insert_post cf key value (set (in_write_op_ch (bc_inner bc)) \<union> F) (bc_inner bc) s op ts"
    by (rule do_insert_ok[OF _ clk r]) (use inv in \<open>simp add: bc_inv_def\<close>)
  then have "bc_inv cf (insert op F) (bc\<lparr>bc_inner := s\<rparr>)" using inv by (simp add: bc_inv_def insert_post_def)
  from schedule_write_op_yields[OF this clk cap, of ts] show ?thesis
    using r cap post by (auto simp: insert_with_hash_def is_map_disabled_def elim!: yields_mono)
qed

lemma invalidate_with_hash_yields:
  assumes inv: "bc_inv cf F bc" and clk: "clock_ok cf" and cap: "cf_max_capacity cf \<noteq> Some 0"
  shows "yields (\<lambda>(bc', v). bc_inv cf F bc' \<and> in_cache (bc_inner bc') \<subseteq>\<^sub>m (in_cache (bc_inner bc))(key := None) \<and>
      v = (if need_value then map_option ve_value (in_cache (bc_inner bc) key) else None))
    (invalidate_with_hash cf key hash need_value bc)"
proof (cases "in_cache (bc_inner bc) key")
  case None
  then have "(in_cache (bc_inner bc))(key := None) = in_cache (bc_inner bc)" by (auto simp: fun_eq_iff)
  with None inv show ?thesis
    by (simp add: invalidate_with_hash_def begin_invalidate_def remove_entry_def cht_remove_if_and_retire_def)
next
  case (Some e)
  from begin_invalidate_ok[of cf "set (in_write_op_ch (bc_inner bc)) \<union> F" "bc_inner bc" key e] inv clk Some
  obtain s g now where r: "begin_invalidate cf key (bc_inner bc) =
      (s, Some (\<lparr>kv_key = key, kv_entry = e\<rparr>, Remove \<lparr>kv_key = key, kv_entry = e\<rparr> g, now))"
    "inner_inv cf (insert (Remove \<lparr>kv_key = key, kv_entry = e\<rparr> g) (set (in_write_op_ch (bc_inner bc)) \<union> F)) s"
    "in_cache s = (in_cache (bc_inner bc))(key := None)" "in_write_op_ch s = in_write_op_ch (bc_inner bc)"
    by (auto simp: bc_inv_def)
  have "bc_inv cf (insert (Remove \<lparr>kv_key = key, kv_entry = e\<rparr> g) F) (bc\<lparr>bc_inner := s\<rparr>)"
    using inv r(2,4) by (simp add: bc_inv_def)
  from schedule_write_op_yields[OF this clk cap, of now] show ?thesis
    using r(1,3) Some maintained_cache by (fastforce simp: invalidate_with_hash_def elim!: yields_mono)
qed

text \<open>What a lookup sees: the table's entry, if it is live at the time of the call and its value is
  not to be ignored.\<close>

definition lookup ::
  "('k, 'v) config \<Rightarrow> ('v \<Rightarrow> bool) option \<Rightarrow> 'k \<Rightarrow> instant \<Rightarrow> ('k, 'v) inner \<Rightarrow> 'v value_entry option" where
  "lookup cf ignore_if key now s =
     (case in_cache s key of
        Some e \<Rightarrow>
          if (case ignore_if of Some f \<Rightarrow> f (ve_value e) | None \<Rightarrow> False) \<or> \<not> is_live_entry cf key e now s
          then None else Some e
      | None \<Rightarrow> None)"

lemma is_live_entry_frame [simp]:
  "is_live_entry cf key e now (s\<lparr>in_ticks := t\<rparr>) = is_live_entry cf key e now s"
proof -
  have "is_invalidated_entry key e (s\<lparr>in_ticks := t\<rparr>) = is_invalidated_entry key e s"
    by (cases "in_invalidator s") (simp_all add: is_invalidated_entry_def)
  then show ?thesis by (simp add: is_live_entry_def valid_after_def Let_def)
qed

lemma do_get_with_hash_eq:
  fixes bc :: "('k, 'v) base_cache"
  assumes "cf_max_capacity cf \<noteq> Some 0" and s: "s = (bc_inner bc)\<lparr>in_ticks := Suc (in_ticks (bc_inner bc))\<rparr>"
    and now: "now = cf_clock cf (in_ticks (bc_inner bc))"
  shows "do_get_with_hash cf recorder ignore_if need_key key hash bc =
    (case lookup cf ignore_if key now (bc_inner bc) of
       Some e \<Rightarrow>
         do { (st, now, is_expiry_modified) \<leftarrow>
                (case xp_expiry (cf_expiration_policy cf) of
                   Some expiry \<Rightarrow>
                     do { lm \<leftarrow> last_modified (info_of (in_store s) e);
                          let now = max now lm;
                          let (st, modified) =
                            expire_after_read_or_update (\<lambda>k v t d. ex_after_read expiry k v t d lm)
                              (kh_key (ei_key_hash (info_of (in_store s) e))) e
                              (time_to_live cf) (time_to_idle cf) now (in_store s);
                          Some (st, now, modified) }
                 | None \<Rightarrow> Some (in_store s, now, False));
              bc \<leftarrow> recorder (Hit e is_expiry_modified) now
                     (bc\<lparr>bc_inner := s\<lparr>in_store := upd_info (ve_info e) (set_last_accessed now) st\<rparr>\<rparr>);
              Some (bc, Some \<lparr>en_key = (if need_key then Some key else None), en_value = ve_value e,
                              en_is_fresh = False, en_is_old_value_replaced = False\<rparr>) }
     | None \<Rightarrow> do { bc \<leftarrow> recorder (Miss hash) now (bc\<lparr>bc_inner := s\<rparr>); Some (bc, None) })"
proof -
  have t: "current_time cf (bc_inner bc) = (s, now)" by (simp add: current_time_def s now)
  have d: "\<not> is_map_disabled cf" using assms(1) by (simp add: is_map_disabled_def)
  show ?thesis
  proof (cases "lookup cf ignore_if key now (bc_inner bc)")
    case None
    then have M: "(case in_cache s key of None \<Rightarrow> None
      | Some e \<Rightarrow> if (case ignore_if of Some f \<Rightarrow> f (ve_value e) | None \<Rightarrow> False) then None
                  else if \<not> is_live_entry cf key e now s then None
                  else Some (if need_key then Some key else None, e)) = None"
    by (auto simp: lookup_def s split: option.splits if_splits)
  show ?thesis unfolding do_get_with_hash_def t Let_def prod.case M None option.case using d by simp
next
  case (Some e)
  then have M: "(case in_cache s key of None \<Rightarrow> None
      | Some e \<Rightarrow> if (case ignore_if of Some f \<Rightarrow> f (ve_value e) | None \<Rightarrow> False) then None
                  else if \<not> is_live_entry cf key e now s then None
                  else Some (if need_key then Some key else None, e)) = Some (if need_key then Some key else None, e)"
    by (auto simp: lookup_def s split: option.splits if_splits)
  show ?thesis unfolding do_get_with_hash_def t Let_def prod.case M Some option.case using d by simp
qed
qed

lemma record_read_op_yields:
  assumes inv: "bc_inv cf F bc" and clk: "clock_ok cf" and cap: "cf_max_capacity cf \<noteq> Some 0"
    and op: "\<And>e m. op = Hit e m \<Longrightarrow> ve_ok (in_store (bc_inner bc)) e"
  shows "yields (\<lambda>bc'. bc_inv cf F bc' \<and> maintained (bc_inner bc) (bc_inner bc')) (record_read_op cf op now bc)"
proof -
  from apply_if_needed_yields(1)[OF inv clk cap] obtain bc1 where
    bc1: "apply_reads_if_needed cf now bc = Some bc1" "bc_inv cf F bc1" "maintained (bc_inner bc) (bc_inner bc1)" by (auto elim: yieldsE)
  have ve: "ve_ok (in_store (bc_inner bc1)) e" if "op = Hit e m" for e m
    using op[OF that] bc1(3) by (simp add: maintained_def same_infos_def ve_ok_def)
  have "bc_inv cf F (bc1\<lparr>bc_inner := (bc_inner bc1)\<lparr>in_read_op_ch := in_read_op_ch (bc_inner bc1) @ [op]\<rparr>\<rparr>)"
    using bc1(2) inner_inv_read[of cf _ "bc_inner bc1" op] ve by (simp add: bc_inv_def)
  with bc1 show ?thesis by (simp add: record_read_op_def Let_def maintained_def)
qed

text \<open>The metadata of an entry that was found: the expiry callback may change its expiration time.\<close>

lemma after_read_yields:
  assumes "last_modified (info_of st e) = Some lm"
  shows "\<exists>f now2 m. (case xp of
      Some expiry \<Rightarrow>
        do { lm \<leftarrow> last_modified (info_of st e);
             let now = max now lm;
             let (st, modified) = expire_after_read_or_update (\<lambda>k v t d. ex_after_read expiry k v t d lm) key e ttl tti now st;
             Some (st, now, modified) }
    | None \<Rightarrow> Some (st, now, False)) = Some (upd_info (ve_info e) f st, now2, m) \<and> times_eq f"
proof (cases xp)
  case None
  moreover have "upd_info (ve_info e) (\<lambda>i. i) st = st" by (simp add: upd_info_def)
  ultimately show ?thesis by (intro exI[of _ "\<lambda>i. i"] exI[of _ now] exI[of _ False]) simp
next
  case (Some expiry)
  let ?r = "expire_after_read_or_update (\<lambda>k v t d. ex_after_read expiry k v t d lm) key e ttl tti (max now lm) st"
  obtain f where "fst ?r = upd_info (ve_info e) f st" "times_eq f"
    using expire_after_read_or_update_eq[of "\<lambda>k v t d. ex_after_read expiry k v t d lm" key e ttl tti "max now lm" st] by blast
  then show ?thesis
    by (intro exI[of _ f] exI[of _ "max now lm"] exI[of _ "snd ?r"]) (simp add: Some assms Let_def split_beta)
qed

lemma do_get_with_hash_yields:
  assumes inv: "bc_inv cf F bc" and clk: "clock_ok cf" and cap: "cf_max_capacity cf \<noteq> Some 0"
    and rec: "\<And>op now bc1. bc_inv cf F bc1 \<Longrightarrow> (\<And>e m. op = Hit e m \<Longrightarrow> ve_ok (in_store (bc_inner bc1)) e) \<Longrightarrow>
       yields (\<lambda>bc'. bc_inv cf F bc' \<and> maintained (bc_inner bc1) (bc_inner bc')) (recorder op now bc1)"
  shows "yields (\<lambda>(bc', r). bc_inv cf F bc' \<and> in_cache (bc_inner bc') \<subseteq>\<^sub>m in_cache (bc_inner bc) \<and>
      in_valid_after (bc_inner bc') = in_valid_after (bc_inner bc) \<and>
      map_option en_value r = map_option ve_value (lookup cf ignore_if key (cf_clock cf (in_ticks (bc_inner bc))) (bc_inner bc)))
    (do_get_with_hash cf recorder ignore_if need_key key hash bc)"
proof -
  let ?s = "(bc_inner bc)\<lparr>in_ticks := Suc (in_ticks (bc_inner bc))\<rparr>" and ?now = "cf_clock cf (in_ticks (bc_inner bc))"
  note eq = do_get_with_hash_eq[OF cap refl refl, of recorder ignore_if need_key key hash bc]
  have i: "bc_inv cf F (bc\<lparr>bc_inner := ?s\<rparr>)"
    using inv inner_inv_tick[OF _ clock_okD(1)[OF clk]] by (simp add: bc_inv_def)
  show ?thesis
  proof (cases "lookup cf ignore_if key ?now (bc_inner bc)")
    case None
    have "yields (\<lambda>bc'. bc_inv cf F bc' \<and> maintained (bc_inner (bc\<lparr>bc_inner := ?s\<rparr>)) (bc_inner bc'))
        (recorder (Miss hash) ?now (bc\<lparr>bc_inner := ?s\<rparr>))" by (rule rec[OF i]) simp
    then show ?thesis unfolding eq None by (auto simp: maintained_def elim!: yields_mono)
  next
    case (Some e)
    then have e: "in_cache (bc_inner bc) key = Some e" by (auto simp: lookup_def split: option.splits if_splits)
    have tbl: "tbl_ok cf (in_cache (bc_inner bc)) (in_store (bc_inner bc))" using inv inner_invD(3) by (auto simp: bc_inv_def)
    obtain lm where lm: "last_modified (info_of (in_store ?s) e) = Some lm" using tbl_okD(5)[OF tbl e] by auto
    obtain f now2 m where x: "(case xp_expiry (cf_expiration_policy cf) of
          Some expiry \<Rightarrow>
            do { lm \<leftarrow> last_modified (info_of (in_store ?s) e);
                 let now = max ?now lm;
                 let (st, modified) = expire_after_read_or_update (\<lambda>k v t d. ex_after_read expiry k v t d lm)
                     (kh_key (ei_key_hash (info_of (in_store ?s) e))) e (time_to_live cf) (time_to_idle cf) now (in_store ?s);
                 Some (st, now, modified) }
        | None \<Rightarrow> Some (in_store ?s, ?now, False)) = Some (upd_info (ve_info e) f (in_store ?s), now2, m)" "times_eq f"
      using after_read_yields[OF lm] by blast
    let ?bc = "bc\<lparr>bc_inner := ?s\<lparr>in_store := upd_info (ve_info e) (set_last_accessed now2) (upd_info (ve_info e) f (in_store ?s))\<rparr>\<rparr>"
    have f: "core_eq j (f j)" for j using x(2) by (simp add: times_eq_def)
    have i2: "bc_inv cf F ?bc"
      using i inner_inv_info[OF inner_inv_info[of cf _ ?s f "ve_info e"], of _ "set_last_accessed now2" "ve_info e"] f
      by (simp add: bc_inv_def)
    have "yields (\<lambda>bc'. bc_inv cf F bc' \<and> maintained (bc_inner ?bc) (bc_inner bc')) (recorder (Hit e m) now2 ?bc)"
      by (rule rec[OF i2]) (use tbl_okD(2)[OF tbl e] in \<open>auto simp: ve_ok_def\<close>)
    then show ?thesis unfolding eq Some option.case x(1) by (auto simp: maintained_def elim!: yields_mono)
  qed
qed

lemma get_yields:
  assumes "bc_inv cf F bc" "clock_ok cf" "cf_max_capacity cf \<noteq> Some 0"
  shows "yields (\<lambda>(bc', r). bc_inv cf F bc' \<and> in_cache (bc_inner bc') \<subseteq>\<^sub>m in_cache (bc_inner bc) \<and>
      r = map_option ve_value (lookup cf None key (cf_clock cf (in_ticks (bc_inner bc))) (bc_inner bc))) (get cf key bc)"
  unfolding get_def get_with_hash_def
  using do_get_with_hash_yields[OF assms, of "record_read_op cf" None key False "cf_hash cf key"] record_read_op_yields[OF _ assms(2,3)]
  by (fastforce elim!: yields_mono)

end
