(* ===== verification/Cache_System.thy ===== *)
theory Cache_System
  imports Cache_Ops
begin

text \<open>
  The cache as a transition system. A state is a cache together with the write operations that
  user threads have made and not yet sent; a step is what a thread does without another thread
  in between: changing the table, sending an operation (which may run the maintenance), reading,
  running the maintenance, invalidating.
\<close>

section \<open>Steps\<close>

datatype ('k, 'v) action =
    AInsert 'k 'v
  | AInvalidate 'k "'v option"
  | AGet 'k "'v option"
  | AInternal

type_synonym ('k, 'v) system = "('k, 'v) base_cache \<times> ('k, 'v) write_op list"

inductive cstep :: "('k, 'v) config \<Rightarrow> ('k, 'v) system \<Rightarrow> ('k, 'v) action \<Rightarrow> ('k, 'v) system \<Rightarrow> bool"
  for cf :: "('k, 'v) config" where
  begin_insert:
    "do_insert_with_hash cf key (cf_hash cf key) value (bc_inner bc) = (s, op, ts) \<Longrightarrow>
     cstep cf (bc, F) (AInsert key value) (bc\<lparr>bc_inner := s\<rparr>, op # F)"
| begin_invalidate_hit:
    "begin_invalidate cf key (bc_inner bc) = (s, Some (kv, op, now)) \<Longrightarrow>
     cstep cf (bc, F) (AInvalidate key (Some (ve_value (kv_entry kv)))) (bc\<lparr>bc_inner := s\<rparr>, op # F)"
| begin_invalidate_miss:
    "begin_invalidate cf key (bc_inner bc) = (s, None) \<Longrightarrow>
     cstep cf (bc, F) (AInvalidate key None) (bc\<lparr>bc_inner := s\<rparr>, F)"
| send:
    "op \<in> set F \<Longrightarrow> schedule_write_op cf op now bc = Some bc' \<Longrightarrow>
     cstep cf (bc, F) AInternal (bc', remove1 op F)"
| get:
    "get cf key bc = Some (bc', r) \<Longrightarrow> cstep cf (bc, F) (AGet key r) (bc', F)"
| maintain:
    "run_pending_tasks cf bc = Some bc' \<Longrightarrow> cstep cf (bc, F) AInternal (bc', F)"
| invalidate_all:
    "cstep cf (bc, F) AInternal (invalidate_all cf bc, F)"
| invalidate_if:
    "invalidate_entries_if cf uuid predicate bc = Some (bc', r) \<Longrightarrow> cstep cf (bc, F) AInternal (bc', F)"

inductive_cases cstepE: "cstep cf st a st'"

inductive reachable :: "('k, 'v) config \<Rightarrow> ('k, 'v) system \<Rightarrow> bool" for cf :: "('k, 'v) config" where
  init: "reachable cf (base_cache_new kh cf listener hk_config invalidator_enabled, [])"
| step: "reachable cf st \<Longrightarrow> cstep cf st a st' \<Longrightarrow> reachable cf st'"

section \<open>The invariant of reachable states\<close>

definition sys_inv :: "('k, 'v) config \<Rightarrow> ('k, 'v) system \<Rightarrow> bool" where
  "sys_inv cf st \<longleftrightarrow> bc_inv cf (set (snd st)) (fst st)"

lemma sys_inv_init:
  "clock_ok cf \<Longrightarrow> sys_inv cf (base_cache_new kh cf l hc b, [])"
proof -
  assume "clock_ok cf"
  moreover have "in_write_op_ch (inner_new kh cf l b 0) = []" by (simp add: inner_new_def)
  ultimately show ?thesis
    using inner_inv_new[of cf kh l b 0] hk_ok_new
    by (simp add: sys_inv_def bc_inv_def base_cache_new_def housekeeper_new_def Let_def)
qed

text \<open>What a client may rely on: the cache is a map that may lose entries at any time. An insertion
  stores the value, an invalidation removes it and yields what it was, a lookup yields the
  stored value or nothing.\<close>

inductive lossy_step :: "('k \<rightharpoonup> 'v) \<Rightarrow> ('k, 'v) action \<Rightarrow> ('k \<rightharpoonup> 'v) \<Rightarrow> bool" where
  "m' \<subseteq>\<^sub>m m(k \<mapsto> v) \<Longrightarrow> lossy_step m (AInsert k v) m'"
| "m' \<subseteq>\<^sub>m m(k := None) \<Longrightarrow> r = m k \<Longrightarrow> lossy_step m (AInvalidate k r) m'"
| "m' \<subseteq>\<^sub>m m \<Longrightarrow> r = None \<or> r = m k \<Longrightarrow> lossy_step m (AGet k r) m'"
| "m' \<subseteq>\<^sub>m m \<Longrightarrow> lossy_step m AInternal m'"

inductive_simps lossy_step_simps [simp]:
  "lossy_step m (AInsert k v) m'" "lossy_step m (AInvalidate k r) m'" "lossy_step m (AGet k r) m'" "lossy_step m AInternal m'"

definition table :: "('k, 'v) system \<Rightarrow> ('k \<rightharpoonup> 'v)" where
  "table st = (\<lambda>k. map_option ve_value (in_cache (bc_inner (fst st)) k))"

lemma table_le: "in_cache (bc_inner (fst st')) \<subseteq>\<^sub>m C \<Longrightarrow> table st' \<subseteq>\<^sub>m (\<lambda>k. map_option ve_value (C k))"
  by (auto simp: map_le_def table_def dom_def)

lemma lookup_table: "lookup cf ign key now (bc_inner (fst st)) = Some e \<Longrightarrow> table st key = Some (ve_value e)"
  by (auto simp: lookup_def table_def split: option.splits if_splits)

text \<open>The theorems are about caches that store anything at all, on a clock that does not go back.\<close>

definition live :: "('k, 'v) config \<Rightarrow> bool" where
  "live cf \<longleftrightarrow> clock_ok cf \<and> cf_max_capacity cf \<noteq> Some 0"

lemma liveD: "live cf \<Longrightarrow> clock_ok cf" "live cf \<Longrightarrow> cf_max_capacity cf \<noteq> Some 0"
  by (simp_all add: live_def)

text \<open>Each step keeps the invariant and is a step of the lossy map.\<close>

lemma insert_step:
  assumes live: "live cf" and inv: "sys_inv cf (bc, F)" and r: "do_insert_with_hash cf key (cf_hash cf key) value (bc_inner bc) = (s, op, ts)"
  shows "sys_inv cf (bc\<lparr>bc_inner := s\<rparr>, op # F) \<and>
    lossy_step (table (bc, F)) (AInsert key value) (table (bc\<lparr>bc_inner := s\<rparr>, op # F))"
proof -
  have "insert_post cf key value (set (in_write_op_ch (bc_inner bc)) \<union> set F) (bc_inner bc) s op ts"
    by (rule do_insert_ok[OF _ liveD(1)[OF live] r]) (use inv in \<open>simp add: sys_inv_def bc_inv_def\<close>)
  then show ?thesis using inv by (auto simp: insert_post_def sys_inv_def bc_inv_def table_def map_le_def)
qed

lemma invalidate_step:
  assumes live: "live cf" and inv: "sys_inv cf (bc, F)" and r: "begin_invalidate cf key (bc_inner bc) = (s, x)"
  shows "case x of
      Some (kv, op, now) \<Rightarrow> sys_inv cf (bc\<lparr>bc_inner := s\<rparr>, op # F) \<and>
        lossy_step (table (bc, F)) (AInvalidate key (Some (ve_value (kv_entry kv)))) (table (bc\<lparr>bc_inner := s\<rparr>, op # F))
    | None \<Rightarrow> sys_inv cf (bc\<lparr>bc_inner := s\<rparr>, F) \<and>
        lossy_step (table (bc, F)) (AInvalidate key None) (table (bc\<lparr>bc_inner := s\<rparr>, F))"
proof (cases "in_cache (bc_inner bc) key")
  case None
  with r have "s = bc_inner bc" "x = None" by (auto simp: begin_invalidate_def remove_entry_def cht_remove_if_and_retire_def)
  with None inv show ?thesis by (auto simp: table_def map_le_def)
next
  case (Some e)
  have "inner_inv cf (set (in_write_op_ch (bc_inner bc)) \<union> set F) (bc_inner bc)" using inv by (simp add: sys_inv_def bc_inv_def)
  from begin_invalidate_ok[OF this liveD(1)[OF live] Some] r obtain g now where
    x: "x = Some (\<lparr>kv_key = key, kv_entry = e\<rparr>, Remove \<lparr>kv_key = key, kv_entry = e\<rparr> g, now)"
    "inner_inv cf (insert (Remove \<lparr>kv_key = key, kv_entry = e\<rparr> g) (set (in_write_op_ch (bc_inner bc)) \<union> set F)) s"
    "in_cache s = (in_cache (bc_inner bc))(key := None)" "in_write_op_ch s = in_write_op_ch (bc_inner bc)" by auto
  with inv Some show ?thesis by (auto simp: sys_inv_def bc_inv_def table_def map_le_def)
qed

lemma send_step:
  assumes live: "live cf" and inv: "sys_inv cf (bc, F)" and op: "op \<in> set F"
  shows "yields (\<lambda>bc'. sys_inv cf (bc', remove1 op F) \<and> lossy_step (table (bc, F)) AInternal (table (bc', remove1 op F)))
    (schedule_write_op cf op now bc)"
proof -
  have "set F = insert op (set (remove1 op F))"
    using op set_remove1_subset[of op F] in_set_remove1[of _ op F] by blast
  then have "bc_inv cf (insert op (set (remove1 op F))) bc" using inv by (simp add: sys_inv_def)
  from schedule_write_op_yields[OF this liveD[OF live], of now] show ?thesis
    by (rule yields_mono) (auto simp: sys_inv_def maintained_def table_def map_le_def dom_def)
qed

lemma get_step:
  assumes "live cf" "sys_inv cf (bc, F)"
  shows "yields (\<lambda>(bc', r). sys_inv cf (bc', F) \<and> lossy_step (table (bc, F)) (AGet key r) (table (bc', F))) (get cf key bc)"
  using get_yields[of cf "set F" bc key] assms liveD[of cf]
  by (auto simp: sys_inv_def table_def map_le_def dom_def lookup_def elim!: yields_mono split: option.splits if_splits)

lemma maintain_step:
  assumes "live cf" "sys_inv cf (bc, F)"
  shows "yields (\<lambda>bc'. sys_inv cf (bc', F) \<and> lossy_step (table (bc, F)) AInternal (table (bc', F)) \<and>
      in_read_op_ch (bc_inner bc') = [] \<and> in_write_op_ch (bc_inner bc') = []) (run_pending_tasks cf bc)"
proof -
  obtain hk where hk: "bc_housekeeper bc = Some hk" using assms(2) by (auto simp: sys_inv_def bc_inv_def)
  from bc_run_pending_tasks_yields[of cf "set F" bc hk] assms hk liveD[of cf] show ?thesis
    by (auto simp: sys_inv_def run_pending_tasks_def maintained_def table_def map_le_def dom_def elim!: yields_mono)
qed

lemma invalidate_all_step:
  assumes "live cf" "sys_inv cf (bc, F)"
  shows "sys_inv cf (Sync_Cache.invalidate_all cf bc, F) \<and> table (Sync_Cache.invalidate_all cf bc, F) = table (bc, F)"
  using assms inner_inv_tick[OF _ clock_okD(1)[OF liveD(1)], of cf "set (in_write_op_ch (bc_inner bc)) \<union> set F" "bc_inner bc"]
  by (auto simp: sys_inv_def bc_inv_def Sync_Cache.invalidate_all_def current_time_def set_valid_after_def table_def)

lemma invalidate_if_step:
  assumes "live cf" "sys_inv cf (bc, F)" "invalidate_entries_if cf uuid predicate bc = Some (bc', r)"
  shows "sys_inv cf (bc', F) \<and> table (bc', F) = table (bc, F)"
  using assms inner_inv_tick[OF _ clock_okD(1)[OF liveD(1)], of cf "set (in_write_op_ch (bc_inner bc)) \<union> set F" "bc_inner bc"]
  by (auto simp: sys_inv_def bc_inv_def invalidate_entries_if_def register_invalidation_predicate_def current_time_def table_def
      Option.bind_eq_Some_conv split: option.splits prod.splits)

lemma cstep_ok:
  assumes live: "live cf" and "cstep cf st a st'" "sys_inv cf st"
  shows "sys_inv cf st' \<and> lossy_step (table st) a (table st')"
  using assms(2,3)
proof (cases rule: cstep.cases)
  case (begin_insert key v bc s op ts F)
  with insert_step[OF live] assms(3) show ?thesis by simp
next
  case (begin_invalidate_hit key bc s kv op now F)
  with invalidate_step[OF live _ begin_invalidate_hit(4)] assms(3) show ?thesis by simp
next
  case (begin_invalidate_miss key bc s F)
  with invalidate_step[OF live _ begin_invalidate_miss(4)] assms(3) show ?thesis by simp
next
  case (send op F now bc bc')
  with send_step[OF live, of bc F op now] assms(3) show ?thesis by (simp add: yields_def)
next
  case (get key bc bc' r F)
  with get_step[OF live, of bc F key] assms(3) show ?thesis by (simp add: yields_def)
next
  case (maintain bc bc' F)
  with maintain_step[OF live, of bc F] assms(3) show ?thesis by (simp add: yields_def)
next
  case (invalidate_all bc F)
  with invalidate_all_step[OF live, of bc F] assms(3) show ?thesis by simp
next
  case (invalidate_if uuid predicate bc bc' r F)
  with invalidate_if_step[OF live, of bc F] assms(3) show ?thesis by simp
qed

lemma reachable_inv:
  assumes "reachable cf st" "live cf"
  shows "sys_inv cf st"
  using assms(1) by induction (use sys_inv_init[OF liveD(1)[OF assms(2)]] cstep_ok[OF assms(2)] in blast)+

section \<open>Quiescence\<close>

text \<open>With no operation on its way the deque of the entries and the table hold the same entries.\<close>

lemma quiescent_entries:
  assumes "cinv cf {} {} {} C st dqs tw"
  shows "(\<lambda>a. the (st_khds st a)) ` set (prob dqs) = ve_info ` ran C" "length (prob dqs) = card (dom C)"
proof -
  note c = cinvD[OF assms]
  have adm: "adm st i \<longleftrightarrow> i \<in> ve_info ` ran C" for i
    using pend_okD(2,3)[OF c(4), of i] pend_okD(4)[OF c(4)]
    by (fastforce simp: holds_def has_remove_def has_upsert_def ran_def)
  have node: "\<exists>i. st_khds st a = Some i \<and> adm st i \<and> ao_ptr st (Suc i) = Some (a, 1)" if "a \<in> set (prob dqs)" for a
    using deqs_okD(4)[OF c(1) that] deqs_okD(2)[OF c(1)] by fastforce
  have "\<exists>a \<in> set (prob dqs). st_khds st a = Some i" if "adm st i" for i
    using deqs_okD(6)[OF c(1) that] deqs_okD(2)[OF c(1), of "Suc i"] by fastforce
  with node have img: "(\<lambda>a. the (st_khds st a)) ` set (prob dqs) = {i. adm st i}" by force
  show "(\<lambda>a. the (st_khds st a)) ` set (prob dqs) = ve_info ` ran C" unfolding img using adm by blast
  have "inj_on (\<lambda>a. the (st_khds st a)) (set (prob dqs))"
    by (rule inj_onI) (use node in \<open>metis option.sel prod.inject\<close>)
  then have "card {i. adm st i} = card (set (prob dqs))" unfolding img[symmetric] by (rule card_image)
  moreover have "length (prob dqs) = card (set (prob dqs))"
    using deqs_okD(1)[OF c(1)] by (simp add: deqs_shape_def ad_ok_def distinct_card)
  moreover have "bij_betw (\<lambda>k. ve_info (the (C k))) (dom C) {i. adm st i}"
  proof (rule bij_betwI')
    show "ve_info (the (C x)) = ve_info (the (C y)) \<longleftrightarrow> x = y" if "x \<in> dom C" "y \<in> dom C" for x y
      using tbl_okD(4)[OF c(3), of x] tbl_okD(4)[OF c(3), of y] that by (auto simp: info_of_def)
    show "ve_info (the (C x)) \<in> {i. adm st i}" if "x \<in> dom C" for x using that adm by (auto intro: ranI)
    show "\<exists>x \<in> dom C. i = ve_info (the (C x))" if "i \<in> {i. adm st i}" for i using that adm by (force simp: ran_def)
  qed
  ultimately show "length (prob dqs) = card (dom C)" by (simp add: bij_betw_same_card)
qed

lemma dom_table: "dom (table st) = dom (in_cache (bc_inner (fst st)))"
  by (auto simp: table_def)

section \<open>Traces\<close>

text \<open>A system that implements the lossy map. Along every trace a lookup yields the value of the
  last insertion of its key, provided that the key was not invalidated since, or nothing.\<close>

inductive trace :: "('s \<Rightarrow> ('k, 'v) action \<Rightarrow> 's \<Rightarrow> bool) \<Rightarrow> 's \<Rightarrow> ('k, 'v) action list \<Rightarrow> 's \<Rightarrow> bool"
  for step :: "'s \<Rightarrow> ('k, 'v) action \<Rightarrow> 's \<Rightarrow> bool" where
  trace_Nil: "trace step st [] st"
| trace_snoc: "trace step st as st' \<Longrightarrow> step st' a st'' \<Longrightarrow> trace step st (as @ [a]) st''"

fun apply_action :: "('k, 'v) action \<Rightarrow> ('k \<rightharpoonup> 'v) \<Rightarrow> ('k \<rightharpoonup> 'v)" where
  "apply_action (AInsert k v) m = m(k \<mapsto> v)"
| "apply_action (AInvalidate k r) m = m(k := None)"
| "apply_action a m = m"

definition contents :: "('k, 'v) action list \<Rightarrow> ('k \<rightharpoonup> 'v)" where
  "contents as = fold apply_action as Map.empty"

locale lossy_map =
  fixes good :: "'s \<Rightarrow> bool"
    and step :: "'s \<Rightarrow> ('k, 'v) action \<Rightarrow> 's \<Rightarrow> bool"
    and abs :: "'s \<Rightarrow> ('k \<rightharpoonup> 'v)"
  assumes good_step: "good st \<Longrightarrow> step st a st' \<Longrightarrow> good st'"
    and simulates: "good st \<Longrightarrow> step st a st' \<Longrightarrow> lossy_step (abs st) a (abs st')"
begin

lemma lossy_apply: "lossy_step m a m' \<Longrightarrow> m \<subseteq>\<^sub>m c \<Longrightarrow> m' \<subseteq>\<^sub>m apply_action a c"
  by (cases a) (auto simp: map_le_def dom_def split: if_splits)

lemma trace_contents:
  assumes "trace step st as st'" "good st" "abs st = Map.empty"
  shows "good st' \<and> abs st' \<subseteq>\<^sub>m contents as"
  using assms
proof induction
  case (trace_snoc st as st' a st'')
  then show ?case using good_step simulates lossy_apply by (fastforce simp: contents_def)
qed (simp add: contents_def)

lemma lookup_last_write:
  assumes "trace step st as st'" "good st" "abs st = Map.empty" "step st' (AGet k (Some v)) st''"
  shows "contents as k = Some v"
proof -
  have t: "good st'" "abs st' \<subseteq>\<^sub>m contents as" using trace_contents[OF assms(1-3)] by auto
  have "abs st' k = Some v" using simulates[OF t(1) assms(4)] by auto
  with t(2) show ?thesis by (auto simp: map_le_def dom_def)
qed

lemma removed_last_write:
  assumes "trace step st as st'" "good st" "abs st = Map.empty" "step st' (AInvalidate k (Some v)) st''"
  shows "contents as k = Some v"
proof -
  have t: "good st'" "abs st' \<subseteq>\<^sub>m contents as" using trace_contents[OF assms(1-3)] by auto
  have "abs st' k = Some v" using simulates[OF t(1) assms(4)] by auto
  with t(2) show ?thesis by (auto simp: map_le_def dom_def)
qed

end

interpretation cache_lossy: lossy_map "\<lambda>st. live cf \<and> sys_inv cf st" "cstep cf" table for cf
  by unfold_locales (use cstep_ok in blast)+

end
