(* ===== verification/Waiter_Protocol.thy ===== *)
theory Waiter_Protocol
  imports Moka_Prelude
begin

text \<open>
  Calls that meet at waiters. The synchronous and the asynchronous cache compute missing values with the same
  protocol: a call puts its waiter into a map under its key, or waits for the lock of the one that is there. The
  locale says what the protocol relies on and proves once what both caches get from it.

  A call \<open>t\<close> may own the waiter of its key (\<open>owner\<close>), wait for another call (\<open>waits_on\<close>), be at its end
  (\<open>finished\<close>), or have announced its result in the value of its waiter (\<open>announced\<close>). \<open>M\<close> is the map of
  waiters, \<open>L\<close> tells which waiters are locked, \<open>V\<close> are their values, and \<open>T\<close> are the calls.
\<close>

locale waiter_protocol =
  fixes owner :: "'t \<Rightarrow> bool"
    and key :: "'t \<Rightarrow> 'wk"
    and waits_on :: "'t \<Rightarrow> nat option"
    and finished :: "'t \<Rightarrow> bool"
    and announced :: "'t \<Rightarrow> 'x \<Rightarrow> bool"
    and phase_ok :: "'t \<Rightarrow> 'x \<Rightarrow> bool"
  assumes owner_active: "owner t \<Longrightarrow> \<not> finished t"
    and owner_runs: "owner t \<Longrightarrow> waits_on t = None"
    and announced_runs: "announced t x \<Longrightarrow> waits_on t = None"
begin

definition protocol_ok :: "('wk \<rightharpoonup> nat) \<Rightarrow> (nat \<Rightarrow> bool) \<Rightarrow> (nat \<Rightarrow> 'x) \<Rightarrow> (nat \<rightharpoonup> 't) \<Rightarrow> bool" where
  "protocol_ok M L V T \<longleftrightarrow>
     (\<forall>wk w. M wk = Some w \<longleftrightarrow> (\<exists>t. T w = Some t \<and> owner t \<and> key t = wk)) \<and>
     (\<forall>w. L w \<longleftrightarrow> (\<exists>t. T w = Some t \<and> \<not> finished t)) \<and>
     (\<forall>w t. T w = Some t \<longrightarrow> phase_ok t (V w)) \<and>
     (\<forall>w t w'. T w = Some t \<longrightarrow> waits_on t = Some w' \<longrightarrow>
        (\<exists>t'. T w' = Some t' \<and> key t' = key t \<and> (owner t' \<or> announced t' (V w'))))"

lemma protocol_okD:
  assumes "protocol_ok M L V T"
  shows "M wk = Some w \<longleftrightarrow> (\<exists>t. T w = Some t \<and> owner t \<and> key t = wk)"
    and "L w \<longleftrightarrow> (\<exists>t. T w = Some t \<and> \<not> finished t)"
    and "T w = Some t \<Longrightarrow> phase_ok t (V w)"
    and "T w = Some t \<Longrightarrow> waits_on t = Some w' \<Longrightarrow>
      \<exists>t'. T w' = Some t' \<and> key t' = key t \<and> (owner t' \<or> announced t' (V w'))"
  using assms unfolding protocol_ok_def by blast+

lemma protocol_new: "protocol_ok Map.empty (\<lambda>_. False) V Map.empty"
  by (simp add: protocol_ok_def)

text \<open>A step of one call, as the others see it: the call keeps its key; its waiter is in the map
  exactly while it owns it, and locked until it ends; whoever waited for it still may.\<close>

lemma protocol_step:
  assumes inv: "protocol_ok M L V T" and t: "T w = Some t"
    and key: "key t' = key t"
    and map: "M' = (if owner t' then M(key t \<mapsto> w) else if owner t then M(key t := None) else M)"
      "owner t' \<Longrightarrow> owner t \<or> M (key t) = None"
    and lck: "L' = L(w := \<not> finished t')"
    and val: "\<And>w'. w' \<noteq> w \<Longrightarrow> V' w' = V w'" "phase_ok t' (V' w)"
    and wait: "\<And>w'. waits_on t' = Some w' \<Longrightarrow> M (key t) = Some w' \<and> \<not> owner t"
    and ann: "owner t \<Longrightarrow> \<not> owner t' \<Longrightarrow> announced t' (V' w)"
      "announced t (V w) \<Longrightarrow> announced t' (V' w)"
  shows "protocol_ok M' L' V' (T(w \<mapsto> t'))"
  unfolding protocol_ok_def
proof (intro conjI allI impI)
  note i = protocol_okD[OF inv]
  have own: "owner t \<Longrightarrow> M (key t) = Some w" using i(1) t by blast
  show "M' wk = Some x \<longleftrightarrow> (\<exists>u. (T(w \<mapsto> t')) x = Some u \<and> owner u \<and> key u = wk)" for wk x
  proof (cases "x = w")
    case True
    have "M wk = Some w \<longleftrightarrow> owner t \<and> key t = wk" using i(1) t by simp
    then show ?thesis using True map key own by (auto split: if_splits)
  next
    case False
    have "M' wk = Some x \<longleftrightarrow> M wk = Some x" using False map own by (auto split: if_splits)
    then show ?thesis using i(1)[of wk x] False by simp
  qed
  show "L' x \<longleftrightarrow> (\<exists>u. (T(w \<mapsto> t')) x = Some u \<and> \<not> finished u)" for x using i(2)[of x] lck by simp
  show "phase_ok u (V' x)" if "(T(w \<mapsto> t')) x = Some u" for x u
    using i(3)[of x u] val that by (cases "x = w") simp_all
  show "\<exists>u'. (T(w \<mapsto> t')) y = Some u' \<and> key u' = key u \<and> (owner u' \<or> announced u' (V' y))"
    if u: "(T(w \<mapsto> t')) x = Some u" "waits_on u = Some y" for x u y
  proof -
    have "\<exists>u'. T y = Some u' \<and> key u' = key u \<and> (owner u' \<or> announced u' (V y)) \<and> (x = w \<longrightarrow> y \<noteq> w)"
    proof (cases "x = w")
      case True
      then have "u = t'" "M (key t) = Some y" "\<not> owner t" using u wait by auto
      then obtain u' where "T y = Some u'" "owner u'" "key u' = key t" using i(1) by blast
      with \<open>\<not> owner t\<close> \<open>u = t'\<close> key t show ?thesis by auto
    qed (use i(4)[of x u y] u in auto)
    then obtain u' where u': "T y = Some u'" "key u' = key u" "owner u' \<or> announced u' (V y)" by blast
    show ?thesis
    proof (cases "y = w")
      case True
      with u' t key ann show ?thesis by (cases "owner t'") auto
    qed (use u' val in auto)
  qed
qed

text \<open>A call that starts.\<close>

lemma protocol_spawn:
  assumes inv: "protocol_ok M L V T" and w: "T w = None"
    and t: "\<not> owner t" "waits_on t = None" "\<not> finished t" "phase_ok t x"
  shows "protocol_ok M (L(w := True)) (V(w := x)) (T(w \<mapsto> t))"
proof -
  have "waits_on u \<noteq> Some w" if "T y = Some u" for y u using protocol_okD(4)[OF inv that, of w] w by auto
  with inv w t show ?thesis unfolding protocol_ok_def by (auto split: if_splits)
qed

lemma protocol_exclusive:
  assumes "protocol_ok M L V T" "T w = Some t" "T w' = Some t'" "owner t" "owner t'" "key t = key t'"
  shows "w = w'"
  using protocol_okD(1)[OF assms(1), of "key t"] assms(2-6) by (metis option.inject)

text \<open>A call that owns the waiter of its key has locked it, and no other call of the key owns a waiter.\<close>

lemma protocol_owned:
  assumes "protocol_ok M L V T" "T w = Some t" "owner t" "T w' = Some t'" "key t' = key t" "w \<noteq> w'"
  shows "\<not> owner t'" "M (key t) = Some w" "L w"
  using protocol_exclusive[OF assms(1,2,4,3)] protocol_okD(1,2)[OF assms(1)] assms(2-6) owner_active by metis+

text \<open>Whoever is waited for does not wait, and its waiter is unlocked when it ends.\<close>

lemma protocol_no_deadlock:
  assumes "protocol_ok M L V T" "T w = Some t" "waits_on t = Some w'"
  shows "\<exists>t'. T w' = Some t' \<and> waits_on t' = None \<and> (L w' \<longleftrightarrow> \<not> finished t')"
  using protocol_okD(4)[OF assms] protocol_okD(2)[OF assms(1), of w'] owner_runs announced_runs by fastforce

text \<open>A call that waits for an unlocked waiter finds the announced result.\<close>

lemma protocol_announced:
  assumes "protocol_ok M L V T" "T w = Some t" "waits_on t = Some w'" "\<not> L w'"
  shows "\<exists>t'. T w' = Some t' \<and> key t' = key t \<and> announced t' (V w')"
  using protocol_okD(4)[OF assms(1-3)] protocol_okD(2)[OF assms(1), of w'] assms(4) owner_active by blast

lemma protocol_owned_locked:
  assumes "protocol_ok M L V T" "M wk = Some w"
  shows "L w"
  using protocol_okD(1,2)[OF assms(1)] assms(2) owner_active by blast

text \<open>No waiter is left behind.\<close>

lemma protocol_released:
  assumes "protocol_ok M L V T" "\<forall>t \<in> ran T. finished t"
  shows "M = Map.empty" "\<not> L w"
proof -
  have "M wk \<noteq> Some w" for wk w
    using protocol_okD(1)[OF assms(1), of wk w] assms(2) owner_active by (auto simp: ran_def)
  then show "M = Map.empty" by (metis ext not_None_eq)
  show "\<not> L w" using protocol_okD(2)[OF assms(1), of w] assms(2) by (auto simp: ran_def)
qed

end

end
