(* ===== verification/Init_Protocol.thy ===== *)
theory Init_Protocol
  imports Value_Initializer Cache_System Waiter_Protocol
begin

text \<open>
  Threads that compute values on one cache: the calls of \<open>Value_Initializer\<close> as a transition
  system, with the other operations of the cache as its environment. At most one of the calls
  for a key is computing, every call that waits gets the result of the one that it waits for, and
  all calls end.
\<close>

section \<open>The system\<close>

datatype ('k, 'v, 'e) thread =
    InitThread "('k, 'v, 'e) init_call" "('v, 'e) init_pc"
  | CompThread "('k, 'v, 'e) comp_call" "('k, 'v, 'e) comp_pc"

record ('k, 'v, 'e) calls_state =
  cs_vi :: "('k, 'v, 'e) value_initializer"
  cs_cache :: "('k, 'v) base_cache"
  cs_ops :: "('k, 'v) write_op list"
  cs_threads :: "waiter_id \<rightharpoonup> ('k, 'v, 'e) thread"

fun thread_step ::
  "('k, 'v) config \<Rightarrow> waiter_id \<Rightarrow> ('k, 'v, 'e) thread \<Rightarrow> ('k, 'v, 'e) value_initializer \<Rightarrow> ('k, 'v) base_cache \<Rightarrow>
    (('k, 'v, 'e) thread \<times> ('k, 'v, 'e) value_initializer \<times> ('k, 'v) base_cache) option" where
  "thread_step cf w (InitThread c pc) vi bc =
     map_option (\<lambda>(pc, vi, bc). (InitThread c pc, vi, bc)) (init_thread_step cf c w pc vi bc)"
| "thread_step cf w (CompThread c pc) vi bc =
     map_option (\<lambda>(pc, vi, bc). (CompThread c pc, vi, bc)) (comp_step cf c w pc vi bc)"

text \<open>A call that starts. Only \<open>try_compute\<close> uses the type \<open>ComputeNone\<close>, which is private to the
  library. Otherwise any type identifier and error type is allowed, so that the system has the calls that the functions
  of the cache make and more.\<close>

fun initial :: "('k, 'v, 'e) thread \<Rightarrow> bool" where
  "initial (InitThread c pc) \<longleftrightarrow> pc = InitStart 0 \<and> ic_type_id c \<noteq> TypeComputeNone"
| "initial (CompThread c pc) \<longleftrightarrow> pc = CompStart"

inductive run_step :: "('k, 'v) config \<Rightarrow> ('k, 'v, 'e) calls_state \<Rightarrow> ('k, 'v, 'e) calls_state \<Rightarrow> bool"
  for cf :: "('k, 'v) config" where
  "cs_threads s w = Some t \<Longrightarrow> thread_step cf w t (cs_vi s) (cs_cache s) = Some (t', vi, bc) \<Longrightarrow>
   run_step cf s (s\<lparr>cs_vi := vi, cs_cache := bc, cs_threads := (cs_threads s)(w \<mapsto> t')\<rparr>)"

inductive calls_step :: "('k, 'v) config \<Rightarrow> ('k, 'v, 'e) calls_state \<Rightarrow> ('k, 'v, 'e) calls_state \<Rightarrow> bool"
  for cf :: "('k, 'v) config" where
  run: "run_step cf s s' \<Longrightarrow> calls_step cf s s'"
| spawn: "cs_threads s w = None \<Longrightarrow> initial t \<Longrightarrow>
    calls_step cf s (s\<lparr>cs_vi := new_waiter w (cs_vi s), cs_threads := (cs_threads s)(w \<mapsto> t)\<rparr>)"
| environment: "cstep cf (cs_cache s, cs_ops s) a (bc, F) \<Longrightarrow> calls_step cf s (s\<lparr>cs_cache := bc, cs_ops := F\<rparr>)"

inductive calls_reachable :: "('k, 'v) config \<Rightarrow> ('k, 'v, 'e) calls_state \<Rightarrow> bool" for cf :: "('k, 'v) config" where
  init: "calls_reachable cf
    \<lparr>cs_vi = vi_with_hasher, cs_cache = base_cache_new kh cf listener hk_config invalidator_enabled, cs_ops = [],
     cs_threads = Map.empty\<rparr>"
| step: "calls_reachable cf s \<Longrightarrow> calls_step cf s s' \<Longrightarrow> calls_reachable cf s'"

section \<open>The phases of a call\<close>

fun w_key :: "('k, 'v, 'e) thread \<Rightarrow> 'k \<times> type_id" where
  "w_key (InitThread c pc) = (ic_key c, ic_type_id c)"
| "w_key (CompThread c pc) = (cc_key c, TypeComputeNone)"

text \<open>The call has its waiter in the map.\<close>

fun owner :: "('k, 'v, 'e) thread \<Rightarrow> bool" where
  "owner (InitThread c pc) \<longleftrightarrow>
     (case pc of InitGet \<Rightarrow> True | InitEval \<Rightarrow> True | InitInsert v \<Rightarrow> True | InitFinish x r \<Rightarrow> True | _ \<Rightarrow> False)"
| "owner (CompThread c pc) \<longleftrightarrow>
     (case pc of CompGet \<Rightarrow> True | CompEval e \<Rightarrow> True | CompApply op e \<Rightarrow> True | CompFinish r \<Rightarrow> True | _ \<Rightarrow> False)"

fun waits_on :: "('k, 'v, 'e) thread \<Rightarrow> waiter_id option" where
  "waits_on (InitThread c pc) = (case pc of InitWait w n \<Rightarrow> Some w | _ \<Rightarrow> None)"
| "waits_on (CompThread c pc) = (case pc of CompWait w \<Rightarrow> Some w | _ \<Rightarrow> None)"

fun finished :: "('k, 'v, 'e) thread \<Rightarrow> bool" where
  "finished (InitThread c pc) \<longleftrightarrow> (case pc of InitDone r \<Rightarrow> True | _ \<Rightarrow> False)"
| "finished (CompThread c pc) \<longleftrightarrow> (case pc of CompDone r \<Rightarrow> True | _ \<Rightarrow> False)"

text \<open>The value of the waiter of a call with the result \<open>r\<close>.\<close>

fun announces :: "type_id \<Rightarrow> ('v, 'e) waiter_value \<Rightarrow> ('v, 'e) init_result or_panic \<Rightarrow> bool" where
  "announces E (Ready (Inr v)) r \<longleftrightarrow> r = Some (Initialized v) \<or> r = Some (ReadExisting v)"
| "announces E (Ready (Inl e)) r \<longleftrightarrow> eo_type e = E \<and> r = Some (InitErr (eo_error e))"
| "announces E InitClosurePanicked r \<longleftrightarrow> r = None"
| "announces E Computing r \<longleftrightarrow> False"
| "announces E ReadyNone r \<longleftrightarrow> False"

text \<open>The call has taken its waiter out of the map and announced its result.\<close>

fun announced :: "('k, 'v, 'e) thread \<Rightarrow> ('v, 'e) waiter_value \<Rightarrow> bool" where
  "announced (InitThread c pc) x \<longleftrightarrow>
     (case pc of InitUnlock r \<Rightarrow> announces (ic_error_type c) x r | InitDone r \<Rightarrow> announces (ic_error_type c) x r | _ \<Rightarrow> False)"
| "announced (CompThread c pc) x \<longleftrightarrow>
     (case pc of CompUnlock r \<Rightarrow> True | CompDone r \<Rightarrow> True | _ \<Rightarrow> False) \<and> (x = ReadyNone \<or> x = InitClosurePanicked)"

text \<open>What holds of the waiter of a call by the phase that the call is in.\<close>

fun phase_ok :: "('k, 'v, 'e) thread \<Rightarrow> ('v, 'e) waiter_value \<Rightarrow> bool" where
  "phase_ok (InitThread c pc) x \<longleftrightarrow> ic_type_id c \<noteq> TypeComputeNone \<and>
     (case pc of InitFinish y r \<Rightarrow> announces (ic_error_type c) y r | _ \<Rightarrow> True)"
| "phase_ok (CompThread c pc) x \<longleftrightarrow>
     (case pc of CompApply op e \<Rightarrow> x = ReadyNone | CompFinish r \<Rightarrow> x = ReadyNone \<or> x = InitClosurePanicked | _ \<Rightarrow> True)"

lemma owner_not_finished: "owner t \<Longrightarrow> \<not> finished t" "owner t \<Longrightarrow> waits_on t = None"
  by (cases t; auto split: init_pc.splits comp_pc.splits)+

lemma announced_not_waiting: "announced t x \<Longrightarrow> waits_on t = None"
  by (cases t) (auto split: init_pc.splits comp_pc.splits)

section \<open>The invariant\<close>

interpretation sync_protocol: waiter_protocol owner w_key waits_on finished announced phase_ok
  by unfold_locales (use owner_not_finished announced_not_waiting in blast)+

definition waiters_ok :: "('k, 'v, 'e) value_initializer \<Rightarrow> (waiter_id \<rightharpoonup> ('k, 'v, 'e) thread) \<Rightarrow> bool" where
  "waiters_ok vi T \<longleftrightarrow> sync_protocol.protocol_ok (vi_waiters vi) (vi_locked vi) (vi_values vi) T"

definition calls_inv :: "('k, 'v) config \<Rightarrow> ('k, 'v, 'e) calls_state \<Rightarrow> bool" where
  "calls_inv cf s \<longleftrightarrow>
     sys_inv cf (cs_cache s, cs_ops s) \<and> waiters_ok (cs_vi s) (cs_threads s) \<and> finite (dom (cs_threads s))"

lemmas waiters_okD = sync_protocol.protocol_okD[OF waiters_ok_def[THEN iffD1]]

lemma waiters_ok_step:
  assumes "waiters_ok vi T" "T w = Some t" "w_key t' = w_key t"
    and "vi_waiters vi' = (if owner t' then (vi_waiters vi)(w_key t \<mapsto> w)
        else if owner t then (vi_waiters vi)(w_key t := None) else vi_waiters vi)"
      "owner t' \<Longrightarrow> owner t \<or> vi_waiters vi (w_key t) = None"
    and "vi_locked vi' = (vi_locked vi)(w := \<not> finished t')"
    and "\<And>w'. w' \<noteq> w \<Longrightarrow> vi_values vi' w' = vi_values vi w'" "phase_ok t' (vi_values vi' w)"
    and "\<And>w'. waits_on t' = Some w' \<Longrightarrow> vi_waiters vi (w_key t) = Some w' \<and> \<not> owner t"
    and "owner t \<Longrightarrow> \<not> owner t' \<Longrightarrow> announced t' (vi_values vi' w)"
      "announced t (vi_values vi w) \<Longrightarrow> announced t' (vi_values vi' w)"
  shows "waiters_ok vi' (T(w \<mapsto> t'))"
  unfolding waiters_ok_def by (rule sync_protocol.protocol_step[OF assms(1)[unfolded waiters_ok_def] assms(2-)])

section \<open>The cache operations of a call\<close>

lemma get_without_recording_yields:
  assumes "bc_inv cf F bc" "clock_ok cf" "cf_max_capacity cf \<noteq> Some 0"
  shows "yields (\<lambda>(bc', r). bc_inv cf F bc' \<and> in_cache (bc_inner bc') \<subseteq>\<^sub>m in_cache (bc_inner bc) \<and>
      r = map_option ve_value (lookup cf ignore_if key (cf_clock cf (in_ticks (bc_inner bc))) (bc_inner bc)))
    (get_with_hash_without_recording cf ignore_if key hash bc)"
  unfolding get_with_hash_without_recording_def
  using do_get_with_hash_yields[OF assms, of "\<lambda>op now bc. Some bc" ignore_if key False hash]
  by (fastforce elim!: yields_mono)

lemma get_and_ignore_if_yields:
  assumes "bc_inv cf F bc" "clock_ok cf" "cf_max_capacity cf \<noteq> Some 0"
  shows "yields (\<lambda>(bc', r). bc_inv cf F bc' \<and> in_cache (bc_inner bc') \<subseteq>\<^sub>m in_cache (bc_inner bc) \<and>
      map_option en_value r = map_option ve_value (lookup cf ignore_if key (cf_clock cf (in_ticks (bc_inner bc))) (bc_inner bc)))
    (get_with_hash_and_ignore_if cf ignore_if need_key key hash bc)"
  unfolding get_with_hash_and_ignore_if_def
  using do_get_with_hash_yields[OF assms, of "record_read_op cf" ignore_if key need_key hash] record_read_op_yields[OF _ assms(2,3)]
  by (fastforce elim!: yields_mono)

lemma apply_comp_op_yields:
  assumes "bc_inv cf F bc" "clock_ok cf" "cf_max_capacity cf \<noteq> Some 0"
  shows "yields (\<lambda>(bc', r). bc_inv cf F bc') (apply_comp_op cf key allow_nop op e bc)"
proof (cases op)
  case Nop
  with assms show ?thesis by (simp add: apply_comp_op_def)
next
  case (Put v)
  with insert_with_hash_yields[OF assms, of key v] show ?thesis by (auto simp: apply_comp_op_def elim!: yields_mono)
next
  case RemoveOp
  with invalidate_with_hash_yields[OF assms, of key True "cf_hash cf key"] show ?thesis
    by (auto simp: apply_comp_op_def elim!: yields_mono)
qed

section \<open>Every step keeps the invariant\<close>

lemma vi_sel [simp]:
  "vi_waiters (set_waiter w x vi) = vi_waiters vi" "vi_locked (set_waiter w x vi) = vi_locked vi"
  "vi_values (set_waiter w x vi) = (vi_values vi)(w := x)"
  "vi_waiters (remove_waiter wk vi) = (vi_waiters vi)(wk := None)" "vi_locked (remove_waiter wk vi) = vi_locked vi"
  "vi_values (remove_waiter wk vi) = vi_values vi"
  "vi_waiters (unlock_waiter w vi) = vi_waiters vi" "vi_locked (unlock_waiter w vi) = (vi_locked vi)(w := False)"
  "vi_values (unlock_waiter w vi) = vi_values vi"
  "vi_waiters (new_waiter w vi) = vi_waiters vi" "vi_locked (new_waiter w vi) = (vi_locked vi)(w := True)"
  "vi_values (new_waiter w vi) = (vi_values vi)(w := Computing)"
  by (simp_all add: set_waiter_def remove_waiter_def unlock_waiter_def new_waiter_def)

lemma init_step_ok:
  assumes inv: "waiters_ok vi T" and t: "T w = Some (InitThread c pc)" and bc: "bc_inv cf F bc" and live: "live cf"
    and r: "init_thread_step cf c w pc vi bc = Some (pc', vi', bc')"
  shows "waiters_ok vi' (T(w \<mapsto> InitThread c pc')) \<and> bc_inv cf F bc'"
proof -
  note step = waiters_ok_step[OF inv t, of "InitThread c pc'" vi'] and r = r[unfolded init_thread_step_def]
  have l: "vi_locked vi w \<longleftrightarrow> \<not> finished (InitThread c pc)" using waiters_okD(2)[OF inv, of w] t by simp
  have p: "phase_ok (InitThread c pc) (vi_values vi w)" by (rule waiters_okD(3)[OF inv t])
  have o: "vi_waiters vi (ic_key c, ic_type_id c) = Some w" if "owner (InitThread c pc)"
    using waiters_okD(1)[OF inv, of "(ic_key c, ic_type_id c)" w] t that by simp
  show ?thesis
  proof (cases pc)
    case (InitStart n)
    then show ?thesis using r step l p bc
      by (cases "vi_waiters vi (ic_key c, ic_type_id c)") (auto simp: try_insert_waiter_def fun_eq_iff)
  next
    case (InitWait w' n)
    then have "vi' = vi" "bc' = bc" "pc' = read_waiter (ic_error_type c) n (vi_values vi w')" using r by (auto split: if_splits)
    moreover have "(\<exists>n. pc' = InitStart n) \<or> (\<exists>r. pc' = InitUnlock r)"
      using calculation(3) by (cases "(ic_error_type c, n, vi_values vi w')" rule: read_waiter.cases) (auto simp: Let_def)
    ultimately show ?thesis using step l p bc InitWait by (auto simp: fun_eq_iff)
  next
    case InitGet
    from get_without_recording_yields[OF bc liveD[OF live], of "ic_ignore_if c" "ic_key c" "cf_hash cf (ic_key c)"] obtain bc1 v where
      g: "get_with_hash_without_recording cf (ic_ignore_if c) (ic_key c) (cf_hash cf (ic_key c)) bc = Some (bc1, v)" "bc_inv cf F bc1"
      by (auto elim!: yieldsE)
    then show ?thesis using r step l p o InitGet by (cases v) (auto simp: fun_eq_iff)
  next
    case InitEval
    then show ?thesis using r step l p o bc by (auto simp: fun_eq_iff split: option.splits sum.splits)
  next
    case (InitInsert v)
    from insert_with_hash_yields[OF bc liveD[OF live], of "ic_key c" v] obtain bc1 where
      "insert_with_hash cf (ic_key c) (cf_hash cf (ic_key c)) v bc = Some bc1" "bc_inv cf F bc1" by (auto elim!: yieldsE)
    then show ?thesis using r step l p o InitInsert by (auto simp: fun_eq_iff)
  next
    case (InitFinish x res)
    then show ?thesis using r step l p o bc by (auto simp: fun_eq_iff)
  next
    case (InitUnlock res)
    then show ?thesis using r step l p bc by (auto simp: fun_eq_iff)
  next
    case (InitDone res)
    with r show ?thesis by simp
  qed
qed

lemma comp_step_ok:
  assumes inv: "waiters_ok vi T" and t: "T w = Some (CompThread c pc)" and bc: "bc_inv cf F bc" and live: "live cf"
    and r: "comp_step cf c w pc vi bc = Some (pc', vi', bc')"
  shows "waiters_ok vi' (T(w \<mapsto> CompThread c pc')) \<and> bc_inv cf F bc'"
proof -
  note step = waiters_ok_step[OF inv t, of "CompThread c pc'" vi']
  have l: "vi_locked vi w \<longleftrightarrow> \<not> finished (CompThread c pc)" using waiters_okD(2)[OF inv, of w] t by simp
  have p: "phase_ok (CompThread c pc) (vi_values vi w)" by (rule waiters_okD(3)[OF inv t])
  have o: "vi_waiters vi (cc_key c, TypeComputeNone) = Some w" if "owner (CompThread c pc)"
    using waiters_okD(1)[OF inv, of "(cc_key c, TypeComputeNone)" w] t that by simp
  show ?thesis
  proof (cases pc)
    case CompStart
    then show ?thesis using r step l p bc
      by (cases "vi_waiters vi (cc_key c, TypeComputeNone)") (auto simp: try_insert_waiter_def fun_eq_iff)
  next
    case (CompWait w')
    then show ?thesis using r step l p bc by (auto simp: fun_eq_iff split: if_splits)
  next
    case CompGet
    from get_and_ignore_if_yields[OF bc liveD[OF live], of None "cc_key c" True "cf_hash cf (cc_key c)"] obtain bc1 e where
      "get_with_hash_and_ignore_if cf None True (cc_key c) (cf_hash cf (cc_key c)) bc = Some (bc1, e)" "bc_inv cf F bc1"
      by (auto elim!: yieldsE)
    then show ?thesis using r step l p o CompGet by (auto simp: fun_eq_iff)
  next
    case (CompEval e)
    then show ?thesis using r step l p o bc by (auto simp: fun_eq_iff split: option.splits sum.splits)
  next
    case (CompApply op e)
    from apply_comp_op_yields[OF bc liveD[OF live], of "cc_key c" "cc_allow_nop c" op e] obtain bc1 res where
      "apply_comp_op cf (cc_key c) (cc_allow_nop c) op e bc = Some (bc1, res)" "bc_inv cf F bc1" by (auto elim!: yieldsE)
    then show ?thesis using r step l p o CompApply by (auto simp: fun_eq_iff)
  next
    case (CompFinish res)
    then show ?thesis using r step l p o bc by (auto simp: fun_eq_iff)
  next
    case (CompUnlock res)
    then show ?thesis using r step l p bc by (auto simp: fun_eq_iff)
  next
    case (CompDone res)
    with r show ?thesis by simp
  qed
qed

lemma run_step_ok:
  assumes "run_step cf s s'" "calls_inv cf s" "live cf"
  shows "calls_inv cf s' \<and> cs_ops s' = cs_ops s"
  using assms(1)
proof cases
  case (1 w t t' vi bc)
  then show ?thesis using assms(2,3) init_step_ok[of "cs_vi s" "cs_threads s" w _ _ cf "set (cs_ops s)" "cs_cache s"]
      comp_step_ok[of "cs_vi s" "cs_threads s" w _ _ cf "set (cs_ops s)" "cs_cache s"]
    by (cases t) (auto simp: calls_inv_def sys_inv_def)
qed

lemma calls_step_ok:
  assumes "calls_step cf s s'" "calls_inv cf s" "live cf"
  shows "calls_inv cf s'"
  using assms(1)
proof cases
  case run
  with run_step_ok assms show ?thesis by blast
next
  case (spawn w t)
  have "\<not> owner t" "waits_on t = None" "\<not> finished t" "phase_ok t Computing" using spawn(3) by (cases t; simp)+
  with assms(2) have "waiters_ok (new_waiter w (cs_vi s)) ((cs_threads s)(w \<mapsto> t))"
    using sync_protocol.protocol_spawn[where T = "cs_threads s", of "vi_waiters (cs_vi s)" "vi_locked (cs_vi s)" "vi_values (cs_vi s)" w t Computing] spawn(2)
    by (simp add: calls_inv_def waiters_ok_def)
  with spawn(1) assms(2) show ?thesis by (simp add: calls_inv_def)
next
  case (environment a bc F)
  with cstep_ok[OF assms(3)] assms(2) show ?thesis by (auto simp: calls_inv_def)
qed

lemma calls_reachable_inv:
  assumes "calls_reachable cf s" "live cf"
  shows "calls_inv cf s"
  using assms(1)
proof induction
  case (init kh listener hk_config invalidator_enabled)
  then show ?case using sys_inv_init[OF liveD(1)[OF assms(2)]]
    by (simp add: calls_inv_def waiters_ok_def vi_with_hasher_def sync_protocol.protocol_new)
qed (use calls_step_ok assms(2) in blast)

section \<open>All calls end\<close>

fun phase_rank :: "('k, 'v, 'e) thread \<Rightarrow> nat" where
  "phase_rank (InitThread c pc) =
     (case pc of InitStart n \<Rightarrow> 6 | InitWait w n \<Rightarrow> 5 | InitGet \<Rightarrow> 4 | InitEval \<Rightarrow> 3 | InitInsert v \<Rightarrow> 2 | InitFinish x r \<Rightarrow> 1
      | InitUnlock r \<Rightarrow> 0 | InitDone r \<Rightarrow> 0)"
| "phase_rank (CompThread c pc) =
     (case pc of CompStart \<Rightarrow> 6 | CompWait w \<Rightarrow> 5 | CompGet \<Rightarrow> 4 | CompEval e \<Rightarrow> 3 | CompApply op e \<Rightarrow> 2 | CompFinish r \<Rightarrow> 1
      | CompUnlock r \<Rightarrow> 0 | CompDone r \<Rightarrow> 0)"

text \<open>A call that may go on waiting has two steps less to do than one that has been woken.\<close>

definition call_rank :: "nat \<Rightarrow> ('k, 'v, 'e) value_initializer \<Rightarrow> ('k, 'v, 'e) thread \<Rightarrow> nat" where
  "call_rank n vi t =
     (if finished t then 0
      else 2 * n + 1 + phase_rank t + (case waits_on t of Some w \<Rightarrow> if vi_locked vi w then 0 else 2 | None \<Rightarrow> 0))"

definition calls_rank :: "('k, 'v, 'e) calls_state \<Rightarrow> nat" where
  "calls_rank s =
     (let n = card (dom (cs_threads s)) in \<Sum>w \<in> dom (cs_threads s). call_rank n (cs_vi s) (the (cs_threads s w)))"

text \<open>A step that does not end the call brings it closer to its end; the last step unlocks its waiter.\<close>

definition moves_on ::
  "nat \<Rightarrow> waiter_id \<Rightarrow> ('k, 'v, 'e) value_initializer \<Rightarrow> ('k, 'v, 'e) thread \<Rightarrow> ('k, 'v, 'e) value_initializer \<Rightarrow> ('k, 'v, 'e) thread \<Rightarrow> bool" where
  "moves_on n w vi t vi' t' \<longleftrightarrow>
     call_rank n vi' t' < call_rank n vi t \<and>
     (if finished t' then vi_locked vi' = (vi_locked vi)(w := False) \<and> call_rank n vi t = 2 * n + 1 else vi_locked vi' = vi_locked vi)"

lemma owned_locked: "waiters_ok vi T \<Longrightarrow> vi_waiters vi wk = Some w \<Longrightarrow> vi_locked vi w"
  unfolding waiters_ok_def by (rule sync_protocol.protocol_owned_locked)

lemma read_waiter_cases: "(\<exists>n. read_waiter E m x = InitStart n) \<or> (\<exists>r. read_waiter E m x = InitUnlock r)"
  by (cases "(E, m, x)" rule: read_waiter.cases) (auto simp: Let_def)

lemma init_step_moves_on:
  assumes inv: "waiters_ok vi T" and r: "init_thread_step cf c w pc vi bc = Some (pc', vi', bc')"
  shows "moves_on n w vi (InitThread c pc) vi' (InitThread c pc')"
proof (cases pc)
  case (InitStart m)
  then show ?thesis using r owned_locked[OF inv, of "(ic_key c, ic_type_id c)"]
    by (cases "vi_waiters vi (ic_key c, ic_type_id c)") (auto simp: init_thread_step_def try_insert_waiter_def moves_on_def call_rank_def)
next
  case (InitWait w' m)
  then show ?thesis using r read_waiter_cases[of "ic_error_type c" m "vi_values vi w'"]
    by (auto simp: init_thread_step_def moves_on_def call_rank_def split: if_splits)
next
  case InitGet
  then show ?thesis using r by (auto simp: init_thread_step_def moves_on_def call_rank_def split: option.splits)
next
  case InitEval
  then show ?thesis using r by (auto simp: init_thread_step_def moves_on_def call_rank_def split: option.splits sum.splits)
next
  case (InitInsert v)
  then show ?thesis using r by (auto simp: init_thread_step_def moves_on_def call_rank_def split: option.splits)
qed (use r in \<open>auto simp: init_thread_step_def moves_on_def call_rank_def\<close>)

lemma comp_step_moves_on:
  assumes inv: "waiters_ok vi T" and r: "comp_step cf c w pc vi bc = Some (pc', vi', bc')"
  shows "moves_on n w vi (CompThread c pc) vi' (CompThread c pc')"
proof (cases pc)
  case CompStart
  then show ?thesis using r owned_locked[OF inv, of "(cc_key c, TypeComputeNone)"]
    by (cases "vi_waiters vi (cc_key c, TypeComputeNone)") (auto simp: try_insert_waiter_def moves_on_def call_rank_def)
next
  case (CompWait w')
  then show ?thesis using r by (auto simp: moves_on_def call_rank_def split: if_splits)
next
  case CompGet
  then show ?thesis using r by (auto simp: moves_on_def call_rank_def split: option.splits)
next
  case (CompEval e)
  then show ?thesis using r by (auto simp: moves_on_def call_rank_def split: option.splits sum.splits)
next
  case (CompApply op e)
  then show ?thesis using r by (auto simp: moves_on_def call_rank_def split: option.splits)
qed (use r in \<open>auto simp: moves_on_def call_rank_def\<close>)

lemma thread_step_moves_on:
  assumes "waiters_ok vi T" "thread_step cf w t vi bc = Some (t', vi', bc')"
  shows "moves_on n w vi t vi' t'"
  using assms init_step_moves_on comp_step_moves_on by (cases t) fastforce+

lemma run_step_rank:
  assumes "run_step cf s s'" "calls_inv cf s"
  shows "calls_rank s' < calls_rank s"
  using assms(1)
proof cases
  case (1 w t t' vi bc)
  let ?T = "cs_threads s" and ?vi = "cs_vi s" let ?n = "card (dom ?T)" and ?D = "dom ?T - {w}"
  let ?r = "\<lambda>vi x. call_rank ?n vi (the (?T x))"
  have inv: "waiters_ok ?vi ?T" "finite (dom ?T)" using assms(2) by (simp_all add: calls_inv_def)
  have m: "moves_on ?n w ?vi t vi t'" by (rule thread_step_moves_on[OF inv(1) 1(3)])
  have w: "w \<in> dom ?T" "insert w (dom ?T) = dom ?T" using 1(2) by auto
  have eq: "calls_rank s = call_rank ?n ?vi t + (\<Sum>x \<in> ?D. ?r ?vi x)" "calls_rank s' = call_rank ?n vi t' + (\<Sum>x \<in> ?D. ?r vi x)"
    using sum.remove[OF inv(2) w(1), of "?r ?vi"] sum.remove[OF inv(2) w(1), of "\<lambda>x. call_rank ?n vi (the ((?T(w \<mapsto> t')) x))"]
      1 w(2) by (simp_all add: calls_rank_def Let_def)
  show ?thesis
  proof (cases "finished t'")
    case False
    with m have "vi_locked vi = vi_locked ?vi" by (simp add: moves_on_def)
    then have "?r vi x = ?r ?vi x" for x by (simp add: call_rank_def split: option.split)
    with m eq show ?thesis by (simp add: moves_on_def)
  next
    case True
    with m have l: "vi_locked vi = (vi_locked ?vi)(w := False)" "call_rank ?n ?vi t = 2 * ?n + 1" by (simp_all add: moves_on_def)
    have "(\<Sum>x \<in> ?D. ?r vi x) \<le> (\<Sum>x \<in> ?D. ?r ?vi x + 2)"
      by (rule sum_mono) (simp add: call_rank_def l(1) split: option.splits)
    also have "\<dots> = (\<Sum>x \<in> ?D. ?r ?vi x) + 2 * card ?D" by (simp only: sum.distrib sum_constant) simp
    also have "card ?D \<le> ?n" by (rule card_mono[OF inv(2)]) blast
    finally show ?thesis using eq l(2) True by (simp add: call_rank_def)
  qed
qed

lemma run_steps_bounded:
  assumes "(run_step cf ^^ n) s s'" "calls_inv cf s" "live cf"
  shows "n + calls_rank s' \<le> calls_rank s"
  using assms
proof (induction n arbitrary: s')
  case (Suc n)
  obtain s1 where s1: "(run_step cf ^^ n) s s1" "run_step cf s1 s'" using Suc.prems(1) by auto
  have "calls_inv cf s1" using s1(1) assms(2,3)
  proof (induction n arbitrary: s1)
    case (Suc n)
    then show ?case using run_step_ok by (metis relpowp_Suc_E)
  qed simp
  with Suc.IH[OF s1(1) assms(2,3)] run_step_rank[OF s1(2)] show ?case by simp
qed simp

text \<open>A call that has not ended can take a step, unless it waits for one that can.\<close>

lemma thread_enabled:
  assumes "\<not> finished t" "\<And>w'. waits_on t = Some w' \<Longrightarrow> \<not> vi_locked vi w'"
  shows "thread_step cf w t vi bc \<noteq> None"
proof (cases t)
  case (InitThread c pc)
  with assms show ?thesis by (cases pc) (auto simp: init_thread_step_def split: prod.splits)
next
  case (CompThread c pc)
  with assms show ?thesis by (cases pc) (auto split: prod.splits)
qed

lemma calls_progress:
  assumes inv: "calls_inv cf s" and t: "cs_threads s w = Some t" "\<not> finished t"
  shows "\<exists>s'. run_step cf s s'"
proof -
  have enabled: "\<exists>s'. run_step cf s s'" if "cs_threads s x = Some u" "thread_step cf x u (cs_vi s) (cs_cache s) \<noteq> None" for x u
    using that run_step.intros[of s x u cf] by (cases "thread_step cf x u (cs_vi s) (cs_cache s)") auto
  show ?thesis
  proof (cases "\<exists>w'. waits_on t = Some w' \<and> vi_locked (cs_vi s) w'")
    case False
    with thread_enabled t enabled show ?thesis by blast
  next
    case True
    then obtain w' where w': "waits_on t = Some w'" "vi_locked (cs_vi s) w'" by blast
    have ok: "waiters_ok (cs_vi s) (cs_threads s)" using inv by (simp add: calls_inv_def)
    from waiters_okD(4)[OF ok t(1) w'(1)] obtain t' where
      t': "cs_threads s w' = Some t'" "owner t' \<or> announced t' (vi_values (cs_vi s) w')" by blast
    have "waits_on t' = None" using t'(2) owner_not_finished announced_not_waiting by blast
    moreover have "\<not> finished t'" using waiters_okD(2)[OF ok, of w'] w'(2) t'(1) by simp
    ultimately show ?thesis using enabled[OF t'(1)] thread_enabled[of t' "cs_vi s"] by simp
  qed
qed

section \<open>No call panics\<close>

text \<open>A call whose closures return, and whose error type is the one that its type identifier
  stands for.\<close>

fun well_behaved :: "(type_id \<Rightarrow> type_id) \<Rightarrow> ('k, 'v, 'e) thread \<Rightarrow> bool" where
  "well_behaved error_type (InitThread c pc) \<longleftrightarrow> ic_init c \<noteq> None \<and> ic_error_type c = error_type (ic_type_id c)"
| "well_behaved error_type (CompThread c pc) \<longleftrightarrow> (\<forall>e. cc_f c e \<noteq> None)"

fun panicked :: "('k, 'v, 'e) thread \<Rightarrow> bool" where
  "panicked (InitThread c pc) \<longleftrightarrow>
     (case pc of InitFinish x r \<Rightarrow> r = None | InitUnlock r \<Rightarrow> r = None | InitDone r \<Rightarrow> r = None | _ \<Rightarrow> False)"
| "panicked (CompThread c pc) \<longleftrightarrow>
     (case pc of CompFinish r \<Rightarrow> r = None | CompUnlock r \<Rightarrow> r = None | CompDone r \<Rightarrow> r = None | _ \<Rightarrow> False)"

lemma init_step_no_panic:
  assumes inv: "waiters_ok vi T" and t: "T w = Some (InitThread c pc)" and bc: "bc_inv cf F bc" and live: "live cf"
    and r: "init_thread_step cf c w pc vi bc = Some (pc', vi', bc')"
    and ok: "\<forall>u \<in> ran T. well_behaved E u \<and> \<not> panicked u"
  shows "\<not> panicked (InitThread c pc')"
proof -
  note r = r[unfolded init_thread_step_def]
  have b: "well_behaved E (InitThread c pc)" "\<not> panicked (InitThread c pc)" using bspec[OF ok ranI[of T, OF t]] by blast+
  show ?thesis
  proof (cases pc)
    case (InitStart n)
    then show ?thesis using r by (auto simp: try_insert_waiter_def split: option.splits)
  next
    case (InitWait w' n)
    have "waits_on (InitThread c pc) = Some w'" using InitWait by simp
    from waiters_okD(4)[OF inv t this] obtain t' where t': "T w' = Some t'" "w_key t' = (ic_key c, ic_type_id c)"
      "owner t' \<or> announced t' (vi_values vi w')" by auto
    have "finished t'" using r InitWait waiters_okD(2)[OF inv, of w'] t'(1) by (auto split: if_splits)
    then have a: "announced t' (vi_values vi w')" using t'(3) owner_not_finished by blast
    have "ic_type_id c \<noteq> TypeComputeNone" using waiters_okD(3)[OF inv t] by simp
    then obtain c' pc0 where c': "t' = InitThread c' pc0" using t'(2) by (cases t') auto
    have "well_behaved E t'" "\<not> panicked t'" using bspec[OF ok ranI[of T, OF t'(1)]] by blast+
    then have e: "ic_error_type c' = ic_error_type c" using b(1) t'(2) c' by simp
    obtain res where res: "announces (ic_error_type c) (vi_values vi w') res" "res \<noteq> None"
      using a \<open>\<not> panicked t'\<close> e unfolding c' by (auto split: init_pc.splits)
    have "pc' = read_waiter (ic_error_type c) n (vi_values vi w')" using r InitWait by (auto split: if_splits)
    then show ?thesis using res
      by (cases "(ic_error_type c, vi_values vi w', res)" rule: announces.cases) (auto simp: downcast_def)
  next
    case InitGet
    from get_without_recording_yields[OF bc liveD[OF live], of "ic_ignore_if c" "ic_key c" "cf_hash cf (ic_key c)"] obtain bc1 v where
      "get_with_hash_without_recording cf (ic_ignore_if c) (ic_key c) (cf_hash cf (ic_key c)) bc = Some (bc1, v)"
      by (auto elim!: yieldsE)
    then show ?thesis using r InitGet by (cases v) auto
  next
    case InitEval
    then show ?thesis using r b(1) by (auto split: option.splits sum.splits)
  next
    case (InitInsert v)
    from insert_with_hash_yields[OF bc liveD[OF live], of "ic_key c" v] obtain bc1 where
      "insert_with_hash cf (ic_key c) (cf_hash cf (ic_key c)) v bc = Some bc1" by (auto elim!: yieldsE)
    then show ?thesis using r InitInsert by auto
  qed (use r b(2) in auto)
qed

lemma comp_step_no_panic:
  assumes inv: "waiters_ok vi T" and t: "T w = Some (CompThread c pc)" and bc: "bc_inv cf F bc" and live: "live cf"
    and r: "comp_step cf c w pc vi bc = Some (pc', vi', bc')"
    and ok: "\<forall>u \<in> ran T. well_behaved E u \<and> \<not> panicked u"
  shows "\<not> panicked (CompThread c pc')"
proof -
  have b: "well_behaved E (CompThread c pc)" "\<not> panicked (CompThread c pc)" using bspec[OF ok ranI[of T, OF t]] by blast+
  show ?thesis
  proof (cases pc)
    case CompStart
    then show ?thesis using r by (auto simp: try_insert_waiter_def split: option.splits)
  next
    case (CompWait w')
    have "waits_on (CompThread c pc) = Some w'" using CompWait by simp
    from waiters_okD(4)[OF inv t this] obtain t' where t': "T w' = Some t'" "w_key t' = (cc_key c, TypeComputeNone)"
      "owner t' \<or> announced t' (vi_values vi w')" by auto
    have "finished t'" using r CompWait waiters_okD(2)[OF inv, of w'] t'(1) by (auto split: if_splits)
    then have "announced t' (vi_values vi w')" using t'(3) owner_not_finished by blast
    then have "vi_values vi w' \<noteq> Computing" by (cases t') (auto split: init_pc.splits)
    then show ?thesis using r CompWait by (auto split: if_splits)
  next
    case CompGet
    from get_and_ignore_if_yields[OF bc liveD[OF live], of None "cc_key c" True "cf_hash cf (cc_key c)"] obtain bc1 e where
      "get_with_hash_and_ignore_if cf None True (cc_key c) (cf_hash cf (cc_key c)) bc = Some (bc1, e)"
      by (auto elim!: yieldsE)
    then show ?thesis using r CompGet by auto
  next
    case (CompEval e)
    obtain out where "cc_f c e = Some out" using b(1) by auto
    then show ?thesis using r CompEval by (cases out) auto
  next
    case (CompApply op e)
    from apply_comp_op_yields[OF bc liveD[OF live], of "cc_key c" "cc_allow_nop c" op e] obtain bc1 res where
      "apply_comp_op cf (cc_key c) (cc_allow_nop c) op e bc = Some (bc1, res)" by (auto elim!: yieldsE)
    then show ?thesis using r CompApply by auto
  qed (use r b(2) in auto)
qed

text \<open>A call keeps its arguments.\<close>

lemma well_behaved_step:
  "thread_step cf w t vi bc = Some (t', vi', bc') \<Longrightarrow> well_behaved E t' \<longleftrightarrow> well_behaved E t"
  by (cases t) auto

lemma calls_no_panic:
  assumes "calls_reachable cf s" "live cf" "\<forall>t \<in> ran (cs_threads s). well_behaved E t"
  shows "\<forall>t \<in> ran (cs_threads s). \<not> panicked t"
  using assms(1,3)
proof induction
  case (step s s')
  note inv = calls_reachable_inv[OF step.hyps(1) assms(2)]
  show ?case
    using step.hyps(2)
  proof cases
    case run
    then show ?thesis
    proof cases
      case (1 w t t' vi bc)
      have wb: "well_behaved E u" if mem: "u \<in> ran (cs_threads s)" for u
      proof -
        obtain x where x: "cs_threads s x = Some u" using mem by (auto simp: ran_def)
        have "(cs_threads s') x = Some (if x = w then t' else u)" using 1(1) x by simp
        with step.prems have "well_behaved E (if x = w then t' else u)" by (metis ranI)
        then show ?thesis using well_behaved_step[OF 1(3), of E] x 1(2) by (auto split: if_splits)
      qed
      then have np: "\<forall>u \<in> ran (cs_threads s). well_behaved E u \<and> \<not> panicked u" using step.IH by blast
      have "\<not> panicked t'"
        using init_step_no_panic[OF _ _ _ assms(2) _ np, of "cs_vi s" w _ _ "set (cs_ops s)" "cs_cache s"]
          comp_step_no_panic[OF _ _ _ assms(2) _ np, of "cs_vi s" w _ _ "set (cs_ops s)" "cs_cache s"] 1(2,3) inv
        by (cases t) (auto simp: calls_inv_def sys_inv_def)
      then show ?thesis using np 1(1) by (auto simp: ran_def split: if_splits)
    qed
  next
    case (spawn w t)
    have "\<not> panicked t" using spawn(3) by (cases t) auto
    moreover have "ran (cs_threads s') = insert t (ran (cs_threads s))"
      unfolding spawn(1) using ran_map_upd[of "cs_threads s" w t, OF spawn(2)] by (simp del: fun_upd_apply)
    ultimately show ?thesis using step.IH step.prems by simp
  next
    case (environment a bc F)
    then show ?thesis using step by simp
  qed
qed simp

section \<open>A call without contention\<close>

fun run_init ::
  "('k, 'v) config \<Rightarrow> ('k, 'v, 'e) init_call \<Rightarrow> waiter_id \<Rightarrow> nat \<Rightarrow> ('v, 'e) init_pc \<Rightarrow> ('k, 'v, 'e) value_initializer \<Rightarrow>
    ('k, 'v) base_cache \<Rightarrow> (('v, 'e) init_result or_panic \<times> ('k, 'v, 'e) value_initializer \<times> ('k, 'v) base_cache) option" where
  "run_init cf c w fuel (InitDone r) vi bc = Some (r, vi, bc)"
| "run_init cf c w 0 pc vi bc = None"
| "run_init cf c w (Suc fuel) pc vi bc =
     do { (pc, vi, bc) \<leftarrow> init_thread_step cf c w pc vi bc; run_init cf c w fuel pc vi bc }"

lemma run_init_alone:
  assumes bc: "bc_inv cf F bc" and live: "live cf"
    and alone: "vi_waiters vi (ic_key c, ic_type_id c) = None" and init: "ic_init c = Some out"
  shows "\<exists>r vi' bc'. run_init cf c w 6 (InitStart 0) (new_waiter w vi) bc = Some (Some r, vi', bc') \<and> bc_inv cf F bc' \<and>
    vi_waiters vi' = vi_waiters vi \<and>
    r = (case lookup cf (ic_ignore_if c) (ic_key c) (cf_clock cf (in_ticks (bc_inner bc))) (bc_inner bc) of
           Some e \<Rightarrow> ReadExisting (ve_value e)
         | None \<Rightarrow> (case out of Inr v \<Rightarrow> Initialized v | Inl e \<Rightarrow> InitErr e))"
proof -
  let ?key = "ic_key c" let ?hash = "cf_hash cf ?key" and ?wk = "(?key, ic_type_id c)"
  let ?L = "lookup cf (ic_ignore_if c) ?key (cf_clock cf (in_ticks (bc_inner bc))) (bc_inner bc)"
  obtain bc1 where g: "get_with_hash_without_recording cf (ic_ignore_if c) ?key ?hash bc = Some (bc1, map_option ve_value ?L)"
    "bc_inv cf F bc1"
    using get_without_recording_yields[OF bc liveD[OF live], of "ic_ignore_if c" ?key ?hash] by (auto elim!: yieldsE)
  have m: "(vi_waiters vi)(?wk := None) = vi_waiters vi" using alone by (simp add: fun_eq_iff)
  show ?thesis
  proof (cases ?L)
    case (Some e)
    then show ?thesis using g m alone by (simp add: eval_nat_numeral init_thread_step_def try_insert_waiter_def)
  next
    case None
    show ?thesis
    proof (cases out)
      case (Inl e)
      then show ?thesis using g m alone init None by (simp add: eval_nat_numeral init_thread_step_def try_insert_waiter_def)
    next
      case (Inr v)
      from insert_with_hash_yields[OF g(2) liveD[OF live], of ?key v] obtain bc2 where
        "insert_with_hash cf ?key ?hash v bc1 = Some bc2" "bc_inv cf F bc2" by (auto elim!: yieldsE)
      then show ?thesis using g m alone init None Inr by (simp add: eval_nat_numeral init_thread_step_def try_insert_waiter_def)
    qed
  qed
qed

end
