(* ===== verification/Cache_Lookup.thy ===== *)
theory Cache_Lookup
  imports Cache_System
begin

text \<open>
  What lookups see of the table: when an entry is live, that an insertion is visible at once, and
  what a mass invalidation hides. The last section has the cache that the examples of the
  development use.
\<close>

section \<open>Live entries\<close>

lemma is_live_entry_iff:
  "is_live_entry cf key e now s \<longleftrightarrow> \<not> is_invalidated_entry key e s \<and>
     (\<forall>t. fst (expiration_state (info_of (in_store s) e)) = Some t \<longrightarrow> now < t) \<and>
     (\<forall>t. last_modified (info_of (in_store s) e) = Some t \<longrightarrow>
        (\<forall>ttl. time_to_live cf = Some ttl \<longrightarrow> now < saturating_add t ttl) \<and> (\<forall>va. valid_after s = Some va \<longrightarrow> va \<le> t)) \<and>
     (\<forall>t. last_accessed (info_of (in_store s) e) = Some t \<longrightarrow>
        (\<forall>tti. time_to_idle cf = Some tti \<longrightarrow> now < saturating_add t tti) \<and> (\<forall>va. valid_after s = Some va \<longrightarrow> va \<le> t))"
proof -
  let ?i = "info_of (in_store s) e"
  have "\<not> is_expired_by_per_entry_ttl ?i now \<longleftrightarrow> (\<forall>t. fst (expiration_state ?i) = Some t \<longrightarrow> now < t)"
    by (auto simp: is_expired_by_per_entry_ttl_def not_le split: option.splits)
  moreover have "\<not> is_expired_entry_wo (time_to_live cf) (valid_after s) ?i now \<longleftrightarrow>
      (\<forall>t. last_modified ?i = Some t \<longrightarrow>
        (\<forall>ttl. time_to_live cf = Some ttl \<longrightarrow> now < saturating_add t ttl) \<and> (\<forall>va. valid_after s = Some va \<longrightarrow> va \<le> t))"
    by (auto simp: is_expired_entry_wo_def is_expired_by_ttl_def is_invalid_entry_def not_le not_less split: option.splits)
  moreover have "\<not> is_expired_entry_ao (time_to_idle cf) (valid_after s) ?i now \<longleftrightarrow>
      (\<forall>t. last_accessed ?i = Some t \<longrightarrow>
        (\<forall>tti. time_to_idle cf = Some tti \<longrightarrow> now < saturating_add t tti) \<and> (\<forall>va. valid_after s = Some va \<longrightarrow> va \<le> t))"
    by (auto simp: is_expired_entry_ao_def is_expired_by_tti_def is_invalid_entry_def not_le not_less split: option.splits)
  ultimately show ?thesis unfolding is_live_entry_def Let_def by blast
qed

lemma lookup_Some_iff:
  "map_option ve_value (lookup cf None key now s) = Some v \<longleftrightarrow>
     (\<exists>e. in_cache s key = Some e \<and> ve_value e = v \<and> is_live_entry cf key e now s)"
  by (auto simp: lookup_def split: option.splits)

lemma get_lookup:
  assumes "reachable cf (bc, F)" "live cf"
  shows "\<exists>bc'. get cf key bc =
    Some (bc', map_option ve_value (lookup cf None key (cf_clock cf (in_ticks (bc_inner bc))) (bc_inner bc)))"
proof -
  have "bc_inv cf (set F) bc" using reachable_inv[OF assms] by (simp add: sys_inv_def)
  from get_yields[OF this liveD[OF assms(2)], of key] show ?thesis by (auto simp: yields_def)
qed

section \<open>An insertion is visible at once\<close>

lemma do_insert_reachable:
  assumes "reachable cf (bc, F)" "live cf" "do_insert_with_hash cf key (cf_hash cf key) v (bc_inner bc) = (s, op, ts)"
  shows "reachable cf (bc\<lparr>bc_inner := s\<rparr>, op # F)"
    and "\<exists>e. in_cache s key = Some e \<and> ve_value e = v \<and>
      last_modified (info_of (in_store s) e) = Some ts \<and> last_accessed (info_of (in_store s) e) = Some ts"
    and "ts = cf_clock cf (in_ticks (bc_inner bc))" "in_valid_after s = in_valid_after (bc_inner bc)"
    "in_invalidator s = in_invalidator (bc_inner bc)" "in_ticks (bc_inner bc) < in_ticks s"
proof -
  show "reachable cf (bc\<lparr>bc_inner := s\<rparr>, op # F)" by (rule reachable.step[OF assms(1) cstep.begin_insert[OF assms(3)]])
  have "insert_post cf key v (set (in_write_op_ch (bc_inner bc)) \<union> set F) (bc_inner bc) s op ts"
    by (rule do_insert_ok[OF _ liveD(1)[OF assms(2)] assms(3)]) (use reachable_inv[OF assms(1,2)] in \<open>simp add: sys_inv_def bc_inv_def\<close>)
  then show "\<exists>e. in_cache s key = Some e \<and> ve_value e = v \<and>
      last_modified (info_of (in_store s) e) = Some ts \<and> last_accessed (info_of (in_store s) e) = Some ts"
    "ts = cf_clock cf (in_ticks (bc_inner bc))" "in_valid_after s = in_valid_after (bc_inner bc)"
    "in_invalidator s = in_invalidator (bc_inner bc)" "in_ticks (bc_inner bc) < in_ticks s"
    by (auto simp: insert_post_def)
qed

text \<open>An entry that was modified and accessed at \<open>ts\<close> outlives \<open>now\<close>.\<close>

definition outlives :: "('k, 'v) config \<Rightarrow> instant \<Rightarrow> instant \<Rightarrow> bool" where
  "outlives cf ts now \<longleftrightarrow>
     (\<forall>d. time_to_live cf = Some d \<longrightarrow> now < saturating_add ts d) \<and> (\<forall>d. time_to_idle cf = Some d \<longrightarrow> now < saturating_add ts d)"

lemma fresh_lookup:
  assumes "in_cache s key = Some e" "last_modified (info_of (in_store s) e) = Some ts"
    "last_accessed (info_of (in_store s) e) = Some ts" "outlives cf ts now"
    "\<not> is_expired_by_per_entry_ttl (info_of (in_store s) e) now" "\<not> is_invalidated_entry key e s"
    "\<And>va. valid_after s = Some va \<Longrightarrow> va \<le> ts"
  shows "lookup cf None key now s = Some e"
  using assms unfolding lookup_def is_live_entry_iff
  by (auto simp: outlives_def is_expired_by_per_entry_ttl_def not_le split: option.splits)

lemma insert_visible:
  assumes "reachable cf (bc, F)" "live cf" "do_insert_with_hash cf key (cf_hash cf key) v (bc_inner bc) = (s, op, ts)"
    and "outlives cf ts (cf_clock cf (in_ticks s))"
    and "\<And>e. in_cache s key = Some e \<Longrightarrow> \<not> is_expired_by_per_entry_ttl (info_of (in_store s) e) (cf_clock cf (in_ticks s)) \<and>
      \<not> is_invalidated_entry key e s"
    and "\<And>va. valid_after s = Some va \<Longrightarrow> va \<le> ts"
  shows "\<exists>bc'. get cf key (bc\<lparr>bc_inner := s\<rparr>) = Some (bc', Some v)"
proof -
  obtain e where e: "in_cache s key = Some e" "ve_value e = v"
    "last_modified (info_of (in_store s) e) = Some ts" "last_accessed (info_of (in_store s) e) = Some ts"
    using do_insert_reachable(2)[OF assms(1-3)] by auto
  from fresh_lookup[OF e(1,3,4) assms(4)] assms(5)[OF e(1)] assms(6)
  have "lookup cf None key (cf_clock cf (in_ticks s)) s = Some e" by blast
  with get_lookup[OF do_insert_reachable(1)[OF assms(1-3)] assms(2), of key] e(2) show ?thesis by simp
qed

section \<open>Invalidation of all entries\<close>

lemma valid_after_set [simp]: "proper_instant i \<Longrightarrow> valid_after (set_valid_after i s) = Some i"
  by (simp add: valid_after_def set_valid_after_def)

lemma invalidate_all_inner:
  fixes bc :: "('k, 'v) base_cache"
  assumes "clock_ok cf"
  shows "in_cache (bc_inner (invalidate_all cf bc)) = in_cache (bc_inner bc)"
    "in_store (bc_inner (invalidate_all cf bc)) = in_store (bc_inner bc)"
    "in_invalidator (bc_inner (invalidate_all cf bc)) = in_invalidator (bc_inner bc)"
    "valid_after (bc_inner (invalidate_all cf bc)) = Some (cf_clock cf (in_ticks (bc_inner bc)))"
  using clock_okD(2)[OF assms, of "in_ticks (bc_inner bc)"]
  by (simp_all add: invalidate_all_def current_time_def) (simp_all add: set_valid_after_def)

lemma reachable_invalidate_all: "reachable cf (bc, F) \<Longrightarrow> reachable cf (invalidate_all cf bc, F)"
  using reachable.step cstep.invalidate_all by blast

section \<open>Quiescence and new caches\<close>

lemma deqs_ok_distinct: "deqs_ok st dqs \<Longrightarrow> distinct (prob dqs)"
  using deqs_okD(1)[of st dqs] by (simp add: deqs_shape_def ad_ok_def)

lemma quiescent_nodes:
  assumes "cinv cf {} {} {} C st dqs tw"
  shows "ran (st_khds st) = ve_info ` ran C"
proof -
  note c = cinvD[OF assms]
  have "adm st i" if "st_khds st a = Some i" for a i
    using deqs_okD(7)[OF c(1) that] deqs_okD(4,5)[OF c(1), of a] deqs_okD(2,3)[OF c(1)] that by fastforce
  moreover have "i \<in> ve_info ` ran C" if "adm st i" for i
    using pend_okD(2,3)[OF c(4), of i] that by (fastforce simp: holds_def has_remove_def ran_def)
  ultimately have "ran (st_khds st) \<subseteq> ve_info ` ran C" by (force simp: ran_def)
  moreover have "the (st_khds st a) \<in> ran (st_khds st)" if "a \<in> set (prob dqs)" for a
    using deqs_okD(4)[OF c(1) that] by (auto simp: ran_def)
  then have "ve_info ` ran C \<subseteq> ran (st_khds st)" unfolding quiescent_entries(1)[OF assms, symmetric] by blast
  ultimately show ?thesis by (rule equalityI)
qed

lemma table_new [simp]: "table (base_cache_new kh cf l hc b, F) = Map.empty"
  by (simp add: table_def base_cache_new_def inner_new_def Let_def)

section \<open>Whole operations\<close>

lemma reachable_run:
  assumes "reachable cf (bc, F)" "live cf"
  shows "\<exists>bc'. run_pending_tasks cf bc = Some bc' \<and> reachable cf (bc', F)"
  using maintain_step[OF assms(2) reachable_inv[OF assms]] reachable.step[OF assms(1) cstep.maintain] by (auto simp: yields_def)

lemma reachable_send:
  assumes "reachable cf (bc, F)" "live cf" "op \<in> set F"
  shows "\<exists>bc'. schedule_write_op cf op now bc = Some bc' \<and> reachable cf (bc', remove1 op F)"
  using send_step[OF assms(2) reachable_inv[OF assms(1,2)] assms(3), of now] reachable.step[OF assms(1) cstep.send[OF assms(3)]]
  by (auto simp: yields_def)

lemma reachable_insert:
  assumes "reachable cf (bc, F)" "live cf"
  shows "\<exists>bc'. cache_insert cf key v bc = Some bc' \<and> reachable cf (bc', F)"
proof -
  obtain s op ts where r: "do_insert_with_hash cf key (cf_hash cf key) v (bc_inner bc) = (s, op, ts)"
    by (cases "do_insert_with_hash cf key (cf_hash cf key) v (bc_inner bc)") auto
  have "reachable cf (bc\<lparr>bc_inner := s\<rparr>, op # F)" by (rule reachable.step[OF assms(1) cstep.begin_insert[OF r]])
  from reachable_send[OF this assms(2), of op ts] r liveD(2)[OF assms(2)] show ?thesis
    by (simp add: cache_insert_def insert_with_hash_def is_map_disabled_def)
qed

lemma reachable_remove:
  assumes "reachable cf (bc, F)" "live cf"
  shows "\<exists>bc'. cache_remove cf key bc = Some (bc', table (bc, F) key) \<and> reachable cf (bc', F)"
proof -
  obtain s x where r: "begin_invalidate cf key (bc_inner bc) = (s, x)" by (cases "begin_invalidate cf key (bc_inner bc)") auto
  note inv = invalidate_step[OF assms(2) reachable_inv[OF assms] r]
  show ?thesis
  proof (cases x)
    case None
    with r inv reachable.step[OF assms(1) cstep.begin_invalidate_miss] show ?thesis
      by (simp add: cache_remove_def invalidate_with_hash_def Let_def)
  next
    case (Some y)
    obtain kv op now where y: "y = (kv, op, now)" by (cases y)
    have "reachable cf (bc\<lparr>bc_inner := s\<rparr>, op # F)"
      using r Some y by (intro reachable.step[OF assms(1) cstep.begin_invalidate_hit]) simp
    from reachable_send[OF this assms(2), of op now] r inv Some y show ?thesis
      by (auto simp: cache_remove_def invalidate_with_hash_def Let_def)
  qed
qed

section \<open>A cache for the examples\<close>

text \<open>A cache of at most ten units of weight, in which a value weighs itself, on a clock that stands
  still.\<close>

definition demo_config :: "(nat, nat) config" where
  "demo_config =
     \<lparr>cf_max_capacity = Some 10, cf_hash = word_of_nat, cf_weigher = Some (\<lambda>k v. word_of_nat v),
      cf_eviction_policy = TinyLfu, cf_expiration_policy = expiration_policy_default,
      cf_clock = (\<lambda>_. Instant 5), cf_fast_now = (\<lambda>_. Instant 5), cf_initial_capacity = None, cf_pointer_width = 64\<rparr>"

definition demo_cache :: "(nat, nat) base_cache" where
  "demo_cache = base_cache_new \<lparr>kh_key = 0, kh_hash = 0\<rparr> demo_config None housekeeper_config_default True"

lemma demo_live [simp]: "live demo_config"
  by (simp add: live_def clock_ok_def demo_config_def mono_def proper_instant_def MAX_NANOS_def)

lemma demo_reachable [simp]: "reachable demo_config (demo_cache, [])"
  unfolding demo_cache_def by (rule reachable.init)

lemma demo_empty: "in_cache (bc_inner demo_cache) k = None"
  by (simp add: demo_cache_def base_cache_new_def inner_new_def Let_def)

text \<open>The same cache on a clock that moves on after the second reading.\<close>

definition ticking_config :: "(nat, nat) config" where
  "ticking_config = demo_config\<lparr>cf_clock := \<lambda>t. if t < 2 then Instant 5 else Instant 6\<rparr>"

definition ticking_cache :: "(nat, nat) base_cache" where
  "ticking_cache = base_cache_new \<lparr>kh_key = 0, kh_hash = 0\<rparr> ticking_config None housekeeper_config_default True"

lemma ticking_live [simp]: "live ticking_config"
  by (simp add: live_def clock_ok_def ticking_config_def demo_config_def mono_def proper_instant_def MAX_NANOS_def less_eq_instant_def)

lemma ticking_reachable [simp]: "reachable ticking_config (ticking_cache, [])"
  unfolding ticking_cache_def by (rule reachable.init)

lemma ticking_times: "in_ticks (bc_inner ticking_cache) = 1" "Instant 5 < Instant 6"
  by (simp_all add: ticking_cache_def base_cache_new_def inner_new_def less_instant_def Let_def)

lemma expiration_state_new: "fst (expiration_state (entry_info_new kh t w)) = None"
  unfolding expiration_state_def entry_info_new_def by code_simp

lemma new_entry_no_expiration:
  assumes "do_insert_with_hash cf key h v s0 = (s, op, ts)" "in_cache s0 key = None"
    "xp_expiry (cf_expiration_policy cf) = None" "in_cache s key = Some e"
  shows "\<not> is_expired_by_per_entry_ttl (info_of (in_store s) e) now"
  using assms
  by (auto simp: do_insert_with_hash_def current_time_def new_value_entry_def alloc_info_def value_entry_new_def
      do_post_insert_steps_def info_of_def expiration_state_new is_expired_by_per_entry_ttl_def Let_def)

lemma demo_insert:
  assumes "do_insert_with_hash demo_config key (cf_hash demo_config key) v (bc_inner demo_cache) = (s, op, ts)"
  shows "time_to_live demo_config = None" "time_to_idle demo_config = None" "valid_after s = None"
    "ts = Instant 5" "\<not> is_invalidated_entry key e s"
    "in_cache s key = Some e \<Longrightarrow> \<not> is_expired_by_per_entry_ttl (info_of (in_store s) e) now"
proof -
  note post = do_insert_reachable[OF demo_reachable demo_live assms]
  have x: "xp_expiry (cf_expiration_policy demo_config) = None" by (simp add: demo_config_def expiration_policy_default_def)
  show "time_to_live demo_config = None" "time_to_idle demo_config = None"
    by (simp_all add: demo_config_def expiration_policy_default_def time_to_live_def time_to_idle_def)
  show "valid_after s = None" "ts = Instant 5" using post(3,4)
    by (simp_all add: demo_cache_def demo_config_def base_cache_new_def inner_new_def valid_after_def Let_def)
  show "\<not> is_invalidated_entry key e s" using post(5)
    by (simp add: demo_cache_def base_cache_new_def inner_new_def is_invalidated_entry_def apply_predicates_def
        invalidator_new_def Let_def)
  show "in_cache s key = Some e \<Longrightarrow> \<not> is_expired_by_per_entry_ttl (info_of (in_store s) e) now"
    by (rule new_entry_no_expiration[OF assms demo_empty x])
qed

lemma demo_clock: "cf_clock demo_config t = Instant 5"
  by (simp add: demo_config_def)

lemma demo_insert_get:
  "\<exists>s op ts bc'. do_insert_with_hash demo_config 1 (cf_hash demo_config 1) 7 (bc_inner demo_cache) = (s, op, ts) \<and>
     get demo_config 1 (demo_cache\<lparr>bc_inner := s\<rparr>) = Some (bc', Some 7)"
proof -
  obtain s op ts where r: "do_insert_with_hash demo_config 1 (cf_hash demo_config 1) 7 (bc_inner demo_cache) = (s, op, ts)"
    by (cases "do_insert_with_hash demo_config 1 (cf_hash demo_config 1) 7 (bc_inner demo_cache)") auto
  with insert_visible[OF demo_reachable demo_live r] demo_insert[OF r] show ?thesis by (simp add: outlives_def)
qed

end
