(* ===== verification/Init_Results.thy ===== *)
theory Init_Results
  imports Init_Protocol Cache_Lookup
begin

text \<open>
  What the calls that compute missing values promise.
\<close>

section \<open>Calls for the examples\<close>

definition demo_calls :: "(nat, nat, nat) calls_state" where
  "demo_calls = \<lparr>cs_vi = vi_with_hasher, cs_cache = demo_cache, cs_ops = [], cs_threads = Map.empty\<rparr>"

lemma demo_calls_reachable: "calls_reachable demo_config demo_calls"
  unfolding demo_calls_def demo_cache_def by (rule calls_reachable.init)

text \<open>One thread calls \<open>try_get_with\<close> with the error type \<open>()\<close> and an \<open>init\<close> that fails, another one
  \<open>get_with\<close>.\<close>

definition failing_call :: "(nat, nat, nat) init_call" where
  "failing_call = try_insert_with_hash_and_fun TypeUnit 1 (Some (Inl 0))"

definition plain_call :: "(nat, nat, nat) init_call" where
  "plain_call = insert_with_hash_and_fun 1 (Some 7) None"

lemma calls_reachable_run:
  assumes "calls_reachable cf s" "cs_threads s w = Some t" "thread_step cf w t (cs_vi s) (cs_cache s) = Some (t', vi, bc)"
  shows "calls_reachable cf (s\<lparr>cs_vi := vi, cs_cache := bc, cs_threads := (cs_threads s)(w \<mapsto> t')\<rparr>)"
  using calls_reachable.step[OF assms(1) calls_step.run[OF run_step.intros[OF assms(2,3)]]] .

lemma calls_reachable_spawn:
  assumes "calls_reachable cf s" "cs_threads s w = None" "initial t"
  shows "calls_reachable cf (s\<lparr>cs_vi := new_waiter w (cs_vi s), cs_threads := (cs_threads s)(w \<mapsto> t)\<rparr>)"
  using calls_reachable.step[OF assms(1) calls_step.spawn[OF assms(2,3)]] .

lemma demo_miss:
  "\<exists>bc. get_with_hash_without_recording demo_config None 1 (cf_hash demo_config 1) demo_cache = Some (bc, None)"
proof -
  have "bc_inv demo_config {} demo_cache" using reachable_inv[OF demo_reachable demo_live] by (simp add: sys_inv_def)
  from get_without_recording_yields[OF this liveD[OF demo_live], of None 1 "cf_hash demo_config 1"] show ?thesis
    by (auto simp: lookup_def demo_empty elim!: yieldsE)
qed

text \<open>The two calls as a system.\<close>

definition two_calls ::
  "(nat, nat, nat) value_initializer \<Rightarrow> (nat, nat) base_cache \<Rightarrow> (nat, nat) init_pc \<Rightarrow> (nat, nat) init_pc \<Rightarrow>
    (nat, nat, nat) calls_state" where
  "two_calls vi bc p q =
     \<lparr>cs_vi = vi, cs_cache = bc, cs_ops = [],
      cs_threads = [0 \<mapsto> InitThread failing_call p, 1 \<mapsto> InitThread plain_call q]\<rparr>"

lemma two_calls_start:
  "calls_reachable demo_config (two_calls (new_waiter 1 (new_waiter 0 vi_with_hasher)) demo_cache (InitStart 0) (InitStart 0))"
proof -
  let ?s = "demo_calls\<lparr>cs_vi := new_waiter 0 (cs_vi demo_calls),
      cs_threads := (cs_threads demo_calls)(0 \<mapsto> InitThread failing_call (InitStart 0))\<rparr>"
  have "calls_reachable demo_config ?s"
    by (rule calls_reachable_spawn[OF demo_calls_reachable])
      (simp_all add: demo_calls_def failing_call_def try_insert_with_hash_and_fun_def type_id_for_try_get_with_def)
  from calls_reachable_spawn[OF this, of 1 "InitThread plain_call (InitStart 0)"] show ?thesis
    by (simp add: demo_calls_def plain_call_def insert_with_hash_and_fun_def type_id_for_get_with_def two_calls_def)
qed

lemma two_calls_run:
  assumes "calls_reachable demo_config (two_calls vi bc p q)"
  shows "init_thread_step demo_config failing_call 0 p vi bc = Some (p', vi', bc') \<Longrightarrow>
      calls_reachable demo_config (two_calls vi' bc' p' q)"
    and "init_thread_step demo_config plain_call 1 q vi bc = Some (q', vi', bc') \<Longrightarrow>
      calls_reachable demo_config (two_calls vi' bc' p q')"
proof -
  assume "init_thread_step demo_config failing_call 0 p vi bc = Some (p', vi', bc')"
  with calls_reachable_run[OF assms, of 0 "InitThread failing_call p" "InitThread failing_call p'" vi' bc']
  show "calls_reachable demo_config (two_calls vi' bc' p' q)" by (simp add: two_calls_def fun_upd_twist)
next
  assume "init_thread_step demo_config plain_call 1 q vi bc = Some (q', vi', bc')"
  with calls_reachable_run[OF assms, of 1 "InitThread plain_call q" "InitThread plain_call q'" vi' bc']
  show "calls_reachable demo_config (two_calls vi' bc' p q')" by (simp add: two_calls_def)
qed

lemmas demo_call_defs = failing_call_def plain_call_def try_insert_with_hash_and_fun_def type_id_for_try_get_with_def
  insert_with_hash_and_fun_def type_id_for_get_with_def post_init_for_try_get_with_def post_init_for_get_with_def init_thread_step_def

definition met_vi :: "(nat, nat, nat) value_initializer" where
  "met_vi = (new_waiter 1 (new_waiter 0 vi_with_hasher))\<lparr>vi_waiters := [(1, TypeUnit) \<mapsto> 0]\<rparr>"

definition failed_vi :: "(nat, nat, nat) value_initializer" where
  "failed_vi = remove_waiter (1, TypeUnit) (set_waiter 0 (Ready (Inl \<lparr>eo_type = TypeUnit, eo_error = 0\<rparr>)) met_vi)"

text \<open>The first call gets the waiter, the second one waits for it, and the first one fails.\<close>

lemma two_calls_first: "calls_reachable demo_config (two_calls met_vi demo_cache InitGet (InitStart 0))"
  by (rule two_calls_run(1)[OF two_calls_start]) (simp add: demo_call_defs try_insert_waiter_def met_vi_def vi_with_hasher_def)

lemma two_calls_met: "calls_reachable demo_config (two_calls met_vi demo_cache InitGet (InitWait 0 0))"
  by (rule two_calls_run(2)[OF two_calls_first]) (simp add: demo_call_defs try_insert_waiter_def met_vi_def)

lemma two_calls_failed:
  "\<exists>bc. calls_reachable demo_config (two_calls (unlock_waiter 0 failed_vi) bc (InitDone (Some (InitErr 0))) (InitWait 0 0))"
proof -
  obtain bc where bc: "get_with_hash_without_recording demo_config None 1 (cf_hash demo_config 1) demo_cache = Some (bc, None)"
    using demo_miss by blast
  let ?e = "Ready (Inl \<lparr>eo_type = TypeUnit, eo_error = 0\<rparr>)"
  have "calls_reachable demo_config (two_calls met_vi bc InitEval (InitWait 0 0))"
    by (rule two_calls_run(1)[OF two_calls_met]) (use bc in \<open>simp add: demo_call_defs\<close>)
  then have "calls_reachable demo_config (two_calls met_vi bc (InitFinish ?e (Some (InitErr 0))) (InitWait 0 0))"
    by (rule two_calls_run(1)) (simp add: demo_call_defs)
  then have "calls_reachable demo_config (two_calls failed_vi bc (InitUnlock (Some (InitErr 0))) (InitWait 0 0))"
    by (rule two_calls_run(1)) (simp add: demo_call_defs failed_vi_def)
  then show ?thesis using two_calls_run(1) by (fastforce simp: demo_call_defs)
qed

section \<open>Exclusion\<close>

text \<open>C11: Of the calls for the same key and of the same kind at most one is computing: it alone looks into the cache,
  evaluates its closure and writes the cache, until it has announced its result. Calls are of the same kind when they
  have the same type identifier: calls of \<open>get_with\<close>, of \<open>try_get_with\<close> with the same error type, of the
  \<open>compute\<close> functions; calls of different kinds do not exclude each other. While the call \<open>w\<close> is computing, it
  holds the lock of the waiter that is in the map, no other call of the kind is computing, and such a call that
  starts goes to wait for \<open>w\<close>.\<close>

theorem init_exclusive:
  assumes "calls_reachable cf s" "live cf" "cs_threads s w = Some t" "cs_threads s w' = Some t'"
    and "w \<noteq> w'" "w_key t' = w_key t" "owner t"
  shows "\<not> owner t' \<and> vi_waiters (cs_vi s) (w_key t) = Some w \<and> vi_locked (cs_vi s) w \<and>
    (\<forall>c n. t' = InitThread c (InitStart n) \<longrightarrow>
       init_thread_step cf c w' (InitStart n) (cs_vi s) (cs_cache s) = Some (InitWait w n, cs_vi s, cs_cache s)) \<and>
    (\<forall>c. t' = CompThread c CompStart \<longrightarrow>
       comp_step cf c w' CompStart (cs_vi s) (cs_cache s) = Some (CompWait w, cs_vi s, cs_cache s))"
proof -
  have "sync_protocol.protocol_ok (vi_waiters (cs_vi s)) (vi_locked (cs_vi s)) (vi_values (cs_vi s)) (cs_threads s)"
    using calls_reachable_inv[OF assms(1,2)] by (simp add: calls_inv_def waiters_ok_def)
  from sync_protocol.protocol_owned[OF this assms(3,7,4,6,5)] assms(6) show ?thesis
    by (auto simp: init_thread_step_def try_insert_waiter_def)
qed

lemma init_exclusive_witness:
  "init_thread_step demo_config plain_call 1 (InitStart 0) met_vi demo_cache = Some (InitWait 0 0, met_vi, demo_cache)"
  using init_exclusive[OF two_calls_first demo_live, of 0 "InitThread failing_call InitGet" 1 "InitThread plain_call (InitStart 0)"]
  by (simp add: two_calls_def failing_call_def plain_call_def try_insert_with_hash_and_fun_def insert_with_hash_and_fun_def
      type_id_for_try_get_with_def type_id_for_get_with_def)

text \<open>C27: A call that has waited gets the result of the call that it waited for. That call has ended and is of the same key
  and kind. When it has found or computed a value, the waiting call goes on to return that value; when its closure
  failed, to return that error, or to panic when it expects errors of another type; when it panicked, the waiting
  call starts again, and after 200 times it panics.\<close>

theorem init_shares_result:
  assumes "calls_reachable cf s" "live cf" "cs_threads s w = Some (InitThread c (InitWait w' n))" "\<not> vi_locked (cs_vi s) w'"
  shows "\<exists>c' r pc. cs_threads s w' = Some (InitThread c' (InitDone r)) \<and>
    ic_key c' = ic_key c \<and> ic_type_id c' = ic_type_id c \<and>
    init_thread_step cf c w (InitWait w' n) (cs_vi s) (cs_cache s) = Some (pc, cs_vi s, cs_cache s) \<and>
    pc = (case r of
            Some (Initialized v) \<Rightarrow> InitUnlock (Some (ReadExisting v))
          | Some (ReadExisting v) \<Rightarrow> InitUnlock (Some (ReadExisting v))
          | Some (InitErr e) \<Rightarrow> InitUnlock (if ic_error_type c = ic_error_type c' then Some (InitErr e) else None)
          | None \<Rightarrow> if n + 1 < 200 then InitStart (n + 1) else InitUnlock None)"
proof -
  have ok: "waiters_ok (cs_vi s) (cs_threads s)" using calls_reachable_inv[OF assms(1,2)] by (simp add: calls_inv_def)
  from waiters_okD(4)[OF ok assms(3), of w'] obtain t' where t': "cs_threads s w' = Some t'"
    "w_key t' = (ic_key c, ic_type_id c)" "owner t' \<or> announced t' (vi_values (cs_vi s) w')" by auto
  have f: "finished t'" using waiters_okD(2)[OF ok, of w'] assms(4) t'(1) by auto
  then have a: "announced t' (vi_values (cs_vi s) w')" using t'(3) owner_not_finished by blast
  have "ic_type_id c \<noteq> TypeComputeNone" using waiters_okD(3)[OF ok assms(3)] by simp
  then obtain c' pc where c': "t' = InitThread c' pc" using t'(2) by (cases t') auto
  obtain r where r: "pc = InitDone r" using f c' by (auto split: init_pc.splits)
  have "announces (ic_error_type c') (vi_values (cs_vi s) w') r" using a c' r by simp
  then show ?thesis using t'(1,2) c' r assms(4)
    by (cases "(ic_error_type c', vi_values (cs_vi s) w', r)" rule: announces.cases)
      (auto simp: init_thread_step_def downcast_def MAX_RETRIES_def)
qed

lemma init_shares_result_witness:
  "\<exists>bc. init_thread_step demo_config plain_call 1 (InitWait 0 0) (unlock_waiter 0 failed_vi) bc =
     Some (InitUnlock (Some (InitErr 0)), unlock_waiter 0 failed_vi, bc)"
proof -
  obtain bc where r: "calls_reachable demo_config (two_calls (unlock_waiter 0 failed_vi) bc (InitDone (Some (InitErr 0))) (InitWait 0 0))"
    using two_calls_failed by blast
  have "cs_threads (two_calls (unlock_waiter 0 failed_vi) bc (InitDone (Some (InitErr 0))) (InitWait 0 0)) 1 =
      Some (InitThread plain_call (InitWait 0 0))"
    "\<not> vi_locked (cs_vi (two_calls (unlock_waiter 0 failed_vi) bc (InitDone (Some (InitErr 0))) (InitWait 0 0))) 0"
    by (simp_all add: two_calls_def)
  from init_shares_result[OF r demo_live this] show ?thesis
    by (intro exI[of _ bc]) (auto simp: two_calls_def failing_call_def plain_call_def try_insert_with_hash_and_fun_def insert_with_hash_and_fun_def)
qed

text \<open>C12: All calls end. Whatever the schedule, the calls of a state take at most \<open>calls_rank\<close> steps
  together, which is quadratic in their number, and as long as one of them has not ended, one of
  them can take a step: there is no deadlock.\<close>

theorem calls_end:
  assumes "calls_reachable cf s" "live cf"
  shows "(\<forall>n s'. (run_step cf ^^ n) s s' \<longrightarrow> n \<le> calls_rank s) \<and>
    ((\<exists>t \<in> ran (cs_threads s). \<not> finished t) \<longrightarrow> (\<exists>s'. run_step cf s s'))"
  using run_steps_bounded[OF _ calls_reachable_inv[OF assms] assms(2)] calls_progress[OF calls_reachable_inv[OF assms]]
  by (auto simp: ran_def dest: add_leD1)

lemma calls_end_witness: "\<exists>s'. run_step demo_config (two_calls met_vi demo_cache InitGet (InitWait 0 0)) s'"
proof -
  have "InitThread failing_call InitGet \<in> ran (cs_threads (two_calls met_vi demo_cache InitGet (InitWait 0 0)))"
    by (rule ranI[of _ 0]) (simp add: two_calls_def)
  moreover have "\<not> finished (InitThread failing_call InitGet)" by simp
  ultimately show ?thesis using calls_end[OF two_calls_met demo_live] by blast
qed

text \<open>No call panics, if no closure of the callers does and each type identifier is used with
  one error type: a call never finds a waiter in an unexpected state, every error object is of
  the type that the call expects, and the cache operations return.\<close>

theorem calls_never_panic:
  assumes "calls_reachable cf s" "live cf" "\<forall>t \<in> ran (cs_threads s). well_behaved error_type t"
  shows "\<forall>t \<in> ran (cs_threads s). \<not> panicked t"
  using calls_no_panic[OF assms] .

lemma calls_never_panic_witness: "InitThread plain_call (InitWait 0 0) \<in> {t. \<not> panicked t}"
proof -
  let ?s = "two_calls met_vi demo_cache InitGet (InitWait 0 0)"
  have "\<forall>t \<in> ran (cs_threads ?s). well_behaved id t"
    by (auto simp: two_calls_def ran_def demo_call_defs split: if_splits)
  from calls_never_panic[OF two_calls_met demo_live this] have "\<forall>t \<in> ran (cs_threads ?s). \<not> panicked t" .
  moreover have "InitThread plain_call (InitWait 0 0) \<in> ran (cs_threads ?s)"
    by (rule ranI[of _ 1]) (simp add: two_calls_def)
  ultimately show ?thesis by blast
qed

text \<open>A call of \<open>get_with\<close> that meets no other call ends after six steps. It returns the live value
  of the cache if there is one, and otherwise the value of \<open>init\<close>, which it has inserted; the map
  of waiters is as before.\<close>

theorem get_with_alone:
  assumes "reachable cf (bc, F)" "live cf" "vi_waiters vi (key, TypeUnit) = None"
  shows "\<exists>r vi' bc'. run_init cf (insert_with_hash_and_fun key (Some v) replace_if) w 6 (InitStart 0) (new_waiter w vi) bc =
      Some (Some r, vi', bc') \<and> vi_waiters vi' = vi_waiters vi \<and>
    insert_with_hash_and_fun_result key need_key r =
      (case lookup cf replace_if key (cf_clock cf (in_ticks (bc_inner bc))) (bc_inner bc) of
         Some e \<Rightarrow> Some (entry_new (if need_key then Some key else None) (ve_value e) False False)
       | None \<Rightarrow> Some (entry_new (if need_key then Some key else None) v True False))"
proof -
  let ?c = "insert_with_hash_and_fun key (Some v) replace_if"
  have "bc_inv cf (set F) bc" using reachable_inv[OF assms(1,2)] by (simp add: sys_inv_def)
  from run_init_alone[OF this assms(2), of vi ?c "post_init_for_get_with v" w] assms(3) show ?thesis
    by (auto simp: insert_with_hash_and_fun_def insert_with_hash_and_fun_result_def type_id_for_get_with_def
        post_init_for_get_with_def Let_def split: option.splits)
qed

lemma get_with_alone_witness:
  "\<exists>r vi' bc'. run_init demo_config (insert_with_hash_and_fun 1 (Some 7) None) 0 6 (InitStart 0)
       (new_waiter 0 (vi_with_hasher :: (nat, nat, nat) value_initializer)) demo_cache = Some (Some r, vi', bc') \<and>
     insert_with_hash_and_fun_result (1 :: nat) False r = Some (entry_new None 7 True False)"
proof -
  have "vi_waiters (vi_with_hasher :: (nat, nat, nat) value_initializer) (1, TypeUnit) = None" by (simp add: vi_with_hasher_def)
  from get_with_alone[OF demo_reachable demo_live this, of 7 None 0 False] show ?thesis
    by (auto simp: lookup_def demo_empty)
qed

section \<open>Two defects\<close>

lemma do_get_with_hash_key:
  assumes "cf_max_capacity cf \<noteq> Some 0"
    and "do_get_with_hash cf recorder ignore_if need_key key hash bc = Some (bc', Some en)"
  shows "en_key en = (if need_key then Some key else None)"
  using assms(2) unfolding do_get_with_hash_eq[OF assms(1) refl refl]
  by (auto simp: Option.bind_eq_Some_conv split: option.splits)

text \<open>The calls \<open>c\<close> and \<open>c'\<close> of two threads beside the ones of a state.\<close>

definition pair_calls ::
  "('k, 'v, 'e) calls_state \<Rightarrow> waiter_id \<Rightarrow> ('k, 'v, 'e) init_call \<Rightarrow> waiter_id \<Rightarrow> ('k, 'v, 'e) init_call \<Rightarrow>
    ('k, 'v, 'e) value_initializer \<Rightarrow> ('k, 'v) base_cache \<Rightarrow> ('v, 'e) init_pc \<Rightarrow> ('v, 'e) init_pc \<Rightarrow> ('k, 'v, 'e) calls_state" where
  "pair_calls s w c w' c' vi bc p q =
     s\<lparr>cs_vi := vi, cs_cache := bc, cs_threads := (cs_threads s)(w \<mapsto> InitThread c p, w' \<mapsto> InitThread c' q)\<rparr>"

lemma pair_run:
  assumes "w \<noteq> w'"
  shows "init_thread_step cf c w p vi bc = Some (p', vi', bc') \<Longrightarrow>
      run_step cf (pair_calls s w c w' c' vi bc p q) (pair_calls s w c w' c' vi' bc' p' q)"
    and "init_thread_step cf c' w' q vi bc = Some (q', vi', bc') \<Longrightarrow>
      run_step cf (pair_calls s w c w' c' vi bc p q) (pair_calls s w c w' c' vi' bc' p q')"
proof -
  let ?s = "pair_calls s w c w' c' vi bc p q"
  assume "init_thread_step cf c w p vi bc = Some (p', vi', bc')"
  with assms run_step.intros[of ?s w "InitThread c p" cf "InitThread c p'" vi' bc']
  show "run_step cf ?s (pair_calls s w c w' c' vi' bc' p' q)" by (simp add: pair_calls_def fun_upd_twist)
next
  let ?s = "pair_calls s w c w' c' vi bc p q"
  assume "init_thread_step cf c' w' q vi bc = Some (q', vi', bc')"
  with run_step.intros[of ?s w' "InitThread c' q" cf "InitThread c' q'" vi' bc']
  show "run_step cf ?s (pair_calls s w c w' c' vi' bc' p q')" by (simp add: pair_calls_def)
qed

text \<open>A call that fails while another one of its kind and error type waits for it: both end with the error.\<close>

lemma failed_call_shared:
  assumes "w \<noteq> w'" "ic_key c = key" "ic_key c' = key" "ic_type_id c = T" "ic_type_id c' = T" "ic_error_type c = ic_error_type c'"
    and "vi_waiters vi (key, T) = None" "vi_locked vi w" "ic_init c = Some (Inl e)"
    and "get_with_hash_without_recording cf (ic_ignore_if c) key (cf_hash cf key) bc = Some (bc', None)"
  shows "\<exists>vi'. (run_step cf)\<^sup>*\<^sup>* (pair_calls s w c w' c' vi bc (InitStart 0) (InitStart 0))
    (pair_calls s w c w' c' vi' bc' (InitDone (Some (InitErr e))) (InitDone (Some (InitErr e))))"
proof -
  let ?e = "Ready (Inl \<lparr>eo_type = ic_error_type c, eo_error = e\<rparr>)"
  let ?vi1 = "vi\<lparr>vi_waiters := (vi_waiters vi)((key, T) \<mapsto> w)\<rparr>"
  let ?vi2 = "remove_waiter (key, T) (set_waiter w ?e ?vi1)"
  let ?p = "pair_calls s w c w' c'" and ?r = "Some (InitErr e)"
  let ?R = "(run_step cf)\<^sup>*\<^sup>*"
  note run = r_into_rtranclp[of "run_step cf", OF pair_run(1)[OF assms(1)]] r_into_rtranclp[of "run_step cf", OF pair_run(2)[OF assms(1)]]
    and [trans] = rtranclp_trans and d = init_thread_step_def try_insert_waiter_def downcast_def
  have "?R (?p vi bc (InitStart 0) (InitStart 0)) (?p ?vi1 bc InitGet (InitStart 0))"
    by (rule run(1)) (use assms in \<open>simp add: d\<close>)
  also have "?R (?p ?vi1 bc InitGet (InitStart 0)) (?p ?vi1 bc InitGet (InitWait w 0))"
    by (rule run(2)) (use assms in \<open>simp add: d\<close>)
  also have "?R (?p ?vi1 bc InitGet (InitWait w 0)) (?p ?vi1 bc' InitEval (InitWait w 0))"
    by (rule run(1)) (use assms in \<open>simp add: d\<close>)
  also have "?R (?p ?vi1 bc' InitEval (InitWait w 0)) (?p ?vi1 bc' (InitFinish ?e ?r) (InitWait w 0))"
    by (rule run(1)) (use assms in \<open>simp add: d\<close>)
  also have "?R (?p ?vi1 bc' (InitFinish ?e ?r) (InitWait w 0)) (?p ?vi2 bc' (InitUnlock ?r) (InitWait w 0))"
    by (rule run(1)) (use assms in \<open>simp add: d\<close>)
  also have "?R (?p ?vi2 bc' (InitUnlock ?r) (InitWait w 0)) (?p (unlock_waiter w ?vi2) bc' (InitDone ?r) (InitWait w 0))"
    by (rule run(1)) (simp add: d)
  also have "?R (?p (unlock_waiter w ?vi2) bc' (InitDone ?r) (InitWait w 0)) (?p (unlock_waiter w ?vi2) bc' (InitDone ?r) (InitUnlock ?r))"
    by (rule run(2)) (use assms(6) in \<open>simp add: d unlock_waiter_def remove_waiter_def set_waiter_def\<close>)
  also have "?R (?p (unlock_waiter w ?vi2) bc' (InitDone ?r) (InitUnlock ?r))
      (?p (unlock_waiter w' (unlock_waiter w ?vi2)) bc' (InitDone ?r) (InitDone ?r))"
    by (rule run(2)) (simp add: d)
  finally show ?thesis by blast
qed

text \<open>C28: \<open>try_get_with\<close> with the error type \<open>()\<close> uses the same waiters as \<open>get_with\<close>. Take any reachable state in which the
  cache has no live value of the key and no call has the waiter that the two would use, and let a call of
  \<open>try_get_with\<close> with the error type \<open>()\<close>, whose \<open>init\<close> fails, and a call of \<open>get_with\<close> start for the key. There is a
  schedule of these two calls after which both have got the error. Such a result is impossible for the code of
  \<open>get_with\<close>, which panics, whatever its own \<open>init\<close> is.\<close>

theorem get_with_gets_error:
  assumes "calls_reachable cf s" "live cf" "vi_waiters (cs_vi s) (key, type_id_for_get_with) = None"
    and "cs_threads s w = None" "cs_threads s w' = None" "w \<noteq> w'"
    and "lookup cf None key (cf_clock cf (in_ticks (bc_inner (cs_cache s)))) (bc_inner (cs_cache s)) = None"
    and "try_get_with cf TypeUnit key (Some (Inl e)) bc1 = Some (bc1', Inr c)" "get_with cf key init bc2 = Some (bc2', Inr c')"
  shows "\<exists>s0 s'. s0 = s\<lparr>cs_vi := new_waiter w' (new_waiter w (cs_vi s)),
        cs_threads := (cs_threads s)(w \<mapsto> InitThread c (InitStart 0), w' \<mapsto> InitThread c' (InitStart 0))\<rparr> \<and>
    calls_reachable cf s0 \<and> (run_step cf)\<^sup>*\<^sup>* s0 s' \<and>
    cs_threads s' w = Some (InitThread c (InitDone (Some (InitErr e)))) \<and>
    try_insert_with_hash_and_fun_result key False (InitErr e :: ('v, 'e) init_result) = Inl e \<and>
    cs_threads s' w' = Some (InitThread c' (InitDone (Some (InitErr e)))) \<and>
    insert_with_hash_and_fun_result key False (InitErr e :: ('v, 'e) init_result) = None"
proof -
  have c: "c = try_insert_with_hash_and_fun TypeUnit key (Some (Inl e))" "c' = insert_with_hash_and_fun key init None"
    using assms(8,9) by (auto simp: try_get_with_def get_or_try_insert_with_hash_and_fun_def get_with_def
        get_or_insert_with_hash_and_fun_def Option.bind_eq_Some_conv split: option.splits)
  note call_defs = c try_insert_with_hash_and_fun_def insert_with_hash_and_fun_def type_id_for_try_get_with_def type_id_for_get_with_def
    post_init_for_try_get_with_def
  let ?s0 = "s\<lparr>cs_vi := new_waiter w' (new_waiter w (cs_vi s)),
        cs_threads := (cs_threads s)(w \<mapsto> InitThread c (InitStart 0), w' \<mapsto> InitThread c' (InitStart 0))\<rparr>"
  have "calls_reachable cf (s\<lparr>cs_vi := new_waiter w (cs_vi s), cs_threads := (cs_threads s)(w \<mapsto> InitThread c (InitStart 0))\<rparr>)"
    by (rule calls_reachable_spawn[OF assms(1,4)]) (simp add: call_defs)
  from calls_reachable_spawn[OF this, of w' "InitThread c' (InitStart 0)"] assms(5,6) have r: "calls_reachable cf ?s0"
    by (simp add: call_defs)
  have "bc_inv cf (set (cs_ops s)) (cs_cache s)" using calls_reachable_inv[OF assms(1,2)] by (simp add: calls_inv_def sys_inv_def)
  from get_without_recording_yields[OF this liveD[OF assms(2)], of None key "cf_hash cf key"] assms(7) obtain bc' where
    "get_with_hash_without_recording cf None key (cf_hash cf key) (cs_cache s) = Some (bc', None)" by (auto elim!: yieldsE)
  then have "\<exists>vi'. (run_step cf)\<^sup>*\<^sup>* (pair_calls s w c w' c' (new_waiter w' (new_waiter w (cs_vi s))) (cs_cache s) (InitStart 0) (InitStart 0))
      (pair_calls s w c w' c' vi' bc' (InitDone (Some (InitErr e))) (InitDone (Some (InitErr e))))"
    using assms(3,6) by (intro failed_call_shared[where key = key and T = TypeUnit]) (simp_all add: call_defs new_waiter_def)
  moreover have "pair_calls s w c w' c' (new_waiter w' (new_waiter w (cs_vi s))) (cs_cache s) (InitStart 0) (InitStart 0) = ?s0"
    by (simp add: pair_calls_def)
  ultimately obtain vi' where "(run_step cf)\<^sup>*\<^sup>* ?s0 (pair_calls s w c w' c' vi' bc' (InitDone (Some (InitErr e))) (InitDone (Some (InitErr e))))"
    by auto
  with r assms(6) show ?thesis
    by (intro exI[of _ ?s0] exI[of _ "pair_calls s w c w' c' vi' bc' (InitDone (Some (InitErr e))) (InitDone (Some (InitErr e)))"])
      (simp add: pair_calls_def insert_with_hash_and_fun_result_def try_insert_with_hash_and_fun_result_def)
qed

lemma get_with_gets_error_witness:
  "\<exists>s :: (nat, nat, nat) calls_state. calls_reachable demo_config s \<and> cs_threads s 1 = Some (InitThread plain_call (InitDone (Some (InitErr 0)))) \<and>
     insert_with_hash_and_fun_result (1 :: nat) False (InitErr 0 :: (nat, nat) init_result) = None"
proof -
  have i: "bc_inv demo_config {} demo_cache" using reachable_inv[OF demo_reachable demo_live] by (simp add: sys_inv_def)
  have "lookup demo_config None 1 now (bc_inner demo_cache) = None" for now by (simp add: lookup_def demo_empty)
  then obtain bc where g: "get_with_hash demo_config False 1 (cf_hash demo_config 1) demo_cache = Some (bc, None)"
    using get_and_ignore_if_yields[OF i liveD[OF demo_live], of None 1 False "cf_hash demo_config 1"]
    by (fastforce simp: get_with_hash_def get_with_hash_and_ignore_if_def yields_def)
  then have c: "try_get_with demo_config TypeUnit 1 (Some (Inl (0 :: nat))) demo_cache = Some (bc, Inr failing_call)"
    "get_with demo_config 1 (Some 7) demo_cache = Some (bc, Inr plain_call)"
    by (simp_all add: try_get_with_def get_or_try_insert_with_hash_and_fun_def get_with_def get_or_insert_with_hash_and_fun_def
        failing_call_def plain_call_def get_with_hash_def get_with_hash_and_ignore_if_def)
  have "\<exists>s0 s'. s0 = demo_calls\<lparr>cs_vi := new_waiter 1 (new_waiter 0 (cs_vi demo_calls)),
        cs_threads := (cs_threads demo_calls)(0 \<mapsto> InitThread failing_call (InitStart 0), 1 \<mapsto> InitThread plain_call (InitStart 0))\<rparr> \<and>
    calls_reachable demo_config s0 \<and> (run_step demo_config)\<^sup>*\<^sup>* s0 s' \<and>
    cs_threads s' 0 = Some (InitThread failing_call (InitDone (Some (InitErr 0)))) \<and>
    try_insert_with_hash_and_fun_result (1 :: nat) False (InitErr 0 :: (nat, nat) init_result) = Inl 0 \<and>
    cs_threads s' 1 = Some (InitThread plain_call (InitDone (Some (InitErr 0)))) \<and>
    insert_with_hash_and_fun_result (1 :: nat) False (InitErr 0 :: (nat, nat) init_result) = None"
    by (rule get_with_gets_error[OF demo_calls_reachable demo_live _ _ _ _ _ c])
      (simp_all add: demo_calls_def vi_with_hasher_def lookup_def demo_empty)
  then obtain s0 s' where s: "calls_reachable demo_config s0" "(run_step demo_config)\<^sup>*\<^sup>* s0 s'"
    "cs_threads s' 1 = Some (InitThread plain_call (InitDone (Some (InitErr 0))))"
    "insert_with_hash_and_fun_result (1 :: nat) False (InitErr 0 :: (nat, nat) init_result) = None" by blast
  have "calls_reachable demo_config s'" using s(2,1)
    by (induction rule: rtranclp_induct) (auto intro: calls_reachable.step calls_step.run)
  with s(3,4) show ?thesis by blast
qed

text \<open>C29: \<open>or_try_insert_with\<close> of an entry selector with a borrowed key asks for an entry with its
  key. When the cache has a live value the lookup leaves the key out, so \<open>Entry::key\<close> panics on
  the result; with an owned key it does not.\<close>

theorem try_insert_by_ref_no_key:
  assumes "reachable cf (bc, F)" "live cf"
    and "lookup cf None key (cf_clock cf (in_ticks (bc_inner bc))) (bc_inner bc) = Some e"
  shows "(\<exists>bc' en. ref_or_try_insert_with cf E (cache_entry_by_ref cf key) init bc = Some (bc', Inl en) \<and>
      en_value en = ve_value e \<and> entry_key en = None) \<and>
    (\<exists>bc' en. or_try_insert_with cf E (cache_entry cf key) init bc = Some (bc', Inl en) \<and>
      en_value en = ve_value e \<and> entry_key en = Some key)"
proof -
  have i: "bc_inv cf (set F) bc" using reachable_inv[OF assms(1,2)] by (simp add: sys_inv_def)
  have "\<exists>bc' en. get_with_hash cf need_key key (cf_hash cf key) bc = Some (bc', Some en) \<and>
      en_value en = ve_value e \<and> en_key en = (if need_key then Some key else None)" for need_key
    using get_and_ignore_if_yields[OF i liveD[OF assms(2)], of None key need_key "cf_hash cf key"]
      do_get_with_hash_key[OF liveD(2)[OF assms(2)], of "record_read_op cf" None need_key key "cf_hash cf key" bc] assms(3)
    by (fastforce simp: get_with_hash_def get_with_hash_and_ignore_if_def yields_def)
  from this[of False] this[of True] show ?thesis
    by (auto simp: ref_or_try_insert_with_def or_try_insert_with_def cache_entry_def cache_entry_by_ref_def
        get_or_try_insert_with_hash_by_ref_and_fun_def get_or_try_insert_with_hash_and_fun_def entry_key_def)
qed

lemma try_insert_by_ref_no_key_witness:
  "\<exists>bc bc' en. ref_or_try_insert_with demo_config TypeUnit (cache_entry_by_ref demo_config 1) (Some (Inl ())) bc = Some (bc', Inl en) \<and>
     en_value en = 7 \<and> entry_key en = None"
proof -
  obtain s op ts where r: "do_insert_with_hash demo_config 1 (cf_hash demo_config 1) 7 (bc_inner demo_cache) = (s, op, ts)"
    by (cases "do_insert_with_hash demo_config 1 (cf_hash demo_config 1) 7 (bc_inner demo_cache)") auto
  note d = do_insert_reachable[OF demo_reachable demo_live r] and x = demo_insert[OF r]
  obtain e where e: "in_cache s 1 = Some e" "ve_value e = 7" "last_modified (info_of (in_store s) e) = Some ts"
    "last_accessed (info_of (in_store s) e) = Some ts" using d(2) by auto
  have "lookup demo_config None 1 now s = Some e" for now
    by (rule fresh_lookup[OF e(1,3,4)]) (use x e in \<open>auto simp: outlives_def\<close>)
  from try_insert_by_ref_no_key[OF d(1) demo_live, of 1 e TypeUnit "Some (Inl ())"] this e(2) show ?thesis by auto
qed

end
