(* ===== verification/Cht_Bucket.thy ===== *)
theory Cht_Bucket
  imports Moka_Prelude
begin

text \<open>
  The bucket array of the concurrent hash table (\<open>src/src/cht/map/bucket.rs\<close>): open addressing with
  linear probing. A bucket is a pointer with three tag bits. A removed entry stays as a
  tombstone that keeps its key; a bucket whose entry was moved to the next array holds the sentinel.

  An operation runs without interference here: its first compare-and-exchange succeeds and the
  rehash lock is free. The array that a rehash fills is the result of the rehash.
\<close>

section \<open>Data\<close>

text \<open>\<open>Shared<Bucket>\<close>: null, the sentinel, or the address and the contents of a bucket with its tags.\<close>

datatype ('k, 'v) bucket_ptr =
    Null
  | Sentinel
  | Ptr nat 'k 'v bool bool

fun is_sentinel :: "('k, 'v) bucket_ptr \<Rightarrow> bool" where
  "is_sentinel p \<longleftrightarrow> (case p of Sentinel \<Rightarrow> True | _ \<Rightarrow> False)"

fun is_tombstone :: "('k, 'v) bucket_ptr \<Rightarrow> bool" where
  "is_tombstone p \<longleftrightarrow> (case p of Ptr a k v t b \<Rightarrow> t | _ \<Rightarrow> False)"

fun is_borrowed :: "('k, 'v) bucket_ptr \<Rightarrow> bool" where
  "is_borrowed p \<longleftrightarrow> (case p of Ptr a k v t b \<Rightarrow> b | _ \<Rightarrow> False)"

record ('k, 'v) bucket_array =
  ba_buckets :: "('k, 'v) bucket_ptr list"
  ba_epoch :: nat
  ba_tombstone_count :: nat

definition BUCKET_ARRAY_DEFAULT_LENGTH :: nat where "BUCKET_ARRAY_DEFAULT_LENGTH = 128"

definition is_power_of_two :: "nat \<Rightarrow> bool" where
  "is_power_of_two n \<longleftrightarrow> n \<noteq> 0 \<and> and n (n - 1) = 0"

definition with_length :: "nat \<Rightarrow> nat \<Rightarrow> ('k, 'v) bucket_array or_panic" where
  "with_length epoch len =
     (if is_power_of_two len
      then Some \<lparr>ba_buckets = replicate len Null, ba_epoch = epoch, ba_tombstone_count = 0\<rparr>
      else None)"

definition bucket_array_default :: "('k, 'v) bucket_array or_panic" where
  "bucket_array_default = with_length 0 BUCKET_ARRAY_DEFAULT_LENGTH"

definition ba_capacity :: "('k, 'v) bucket_array \<Rightarrow> nat or_panic" where
  "ba_capacity arr =
     (if is_power_of_two (length (ba_buckets arr)) then Some (length (ba_buckets arr) div 2) else None)"

section \<open>Probing\<close>

text \<open>The indices that \<open>Probe\<close> goes through: the home bucket of the hash, then the other ones in order.\<close>

definition probe :: "nat \<Rightarrow> u64 \<Rightarrow> nat list" where
  "probe len hash =
     (let max = len - 1; offset = and (unat hash) max
      in map (\<lambda>i. and (i + offset) max) [0..<Suc max])"

text \<open>\<open>BucketArray::get\<close>. The left side of the result is \<open>RelocatedError\<close>.\<close>

fun get_probe :: "('k, 'v) bucket_ptr list \<Rightarrow> ('k \<Rightarrow> bool) \<Rightarrow> nat list \<Rightarrow> unit + ('k, 'v) bucket_ptr" where
  "get_probe bs eq [] = Inr Null"
| "get_probe bs eq (i # is) =
     (case bs ! i of
        Sentinel \<Rightarrow> Inl ()
      | Null \<Rightarrow> Inr Null
      | Ptr a k v t b \<Rightarrow>
          if \<not> eq k then get_probe bs eq is
          else if t then Inr Null
          else Inr (Ptr a k v t b))"

definition ba_get :: "('k, 'v) bucket_array \<Rightarrow> u64 \<Rightarrow> ('k \<Rightarrow> bool) \<Rightarrow> unit + ('k, 'v) bucket_ptr" where
  "ba_get arr hash eq = get_probe (ba_buckets arr) eq (probe (length (ba_buckets arr)) hash)"

text \<open>\<open>BucketArray::remove_if\<close>: the new tag of the bucket is the tombstone's alone.\<close>

fun remove_if_probe ::
  "('k, 'v) bucket_ptr list \<Rightarrow> ('k \<Rightarrow> bool) \<Rightarrow> ('k \<Rightarrow> 'v \<Rightarrow> bool) \<Rightarrow> nat list \<Rightarrow>
    unit + ('k, 'v) bucket_ptr list \<times> ('k, 'v) bucket_ptr" where
  "remove_if_probe bs eq condition [] = Inr (bs, Null)"
| "remove_if_probe bs eq condition (i # is) =
     (case bs ! i of
        Sentinel \<Rightarrow> Inl ()
      | Null \<Rightarrow> Inr (bs, Null)
      | Ptr a k v t b \<Rightarrow>
          if \<not> eq k then remove_if_probe bs eq condition is
          else if t then Inr (bs, Null)
          else if \<not> condition k v then Inr (bs, Null)
          else Inr (bs[i := Ptr a k v True False], Ptr a k v True False))"

definition ba_remove_if ::
  "('k, 'v) bucket_array \<Rightarrow> u64 \<Rightarrow> ('k \<Rightarrow> bool) \<Rightarrow> ('k \<Rightarrow> 'v \<Rightarrow> bool) \<Rightarrow>
    unit + ('k, 'v) bucket_array \<times> ('k, 'v) bucket_ptr" where
  "ba_remove_if arr hash eq condition =
     map_sum id (\<lambda>(bs, p). (arr\<lparr>ba_buckets := bs\<rparr>, p))
       (remove_if_probe (ba_buckets arr) eq condition (probe (length (ba_buckets arr)) hash))"

datatype ('k, 'v) insertion_result =
    AlreadyPresent "('k, 'v) bucket_ptr"
  | InsertedNew
  | ReplacedTombstone "('k, 'v) bucket_ptr"

text \<open>\<open>insert_if_not_present\<close>: both the sentinel and the end of the probe are errors. \<open>a\<close> is the address
  of the new bucket.\<close>

fun insert_if_not_present_probe ::
  "('k, 'v) bucket_ptr list \<Rightarrow> 'k \<Rightarrow> 'v \<Rightarrow> nat \<Rightarrow> nat list \<Rightarrow>
    unit + ('k, 'v) bucket_ptr list \<times> ('k, 'v) insertion_result" where
  "insert_if_not_present_probe bs key value a [] = Inl ()"
| "insert_if_not_present_probe bs key value a (i # is) =
     (case bs ! i of
        Sentinel \<Rightarrow> Inl ()
      | Null \<Rightarrow> Inr (bs[i := Ptr a key value False False], InsertedNew)
      | Ptr a' k v t b \<Rightarrow>
          if k \<noteq> key then insert_if_not_present_probe bs key value a is
          else if \<not> t then Inr (bs, AlreadyPresent (Ptr a' k v t b))
          else Inr (bs[i := Ptr a key value False False], ReplacedTombstone (Ptr a' k v t b)))"

definition ba_insert_if_not_present ::
  "('k, 'v) bucket_array \<Rightarrow> u64 \<Rightarrow> 'k \<Rightarrow> 'v \<Rightarrow> nat \<Rightarrow> unit + ('k, 'v) bucket_array \<times> ('k, 'v) insertion_result" where
  "ba_insert_if_not_present arr hash key value a =
     map_sum id (\<lambda>(bs, r). (arr\<lparr>ba_buckets := bs\<rparr>, r))
       (insert_if_not_present_probe (ba_buckets arr) key value a (probe (length (ba_buckets arr)) hash))"

text \<open>\<open>insert_or_modify\<close>: the result is the pointer that was in the bucket before.\<close>

fun insert_or_modify_probe ::
  "('k, 'v) bucket_ptr list \<Rightarrow> 'k \<Rightarrow> 'v \<Rightarrow> ('k \<Rightarrow> 'v \<Rightarrow> 'v) \<Rightarrow> nat \<Rightarrow> nat list \<Rightarrow>
    unit + ('k, 'v) bucket_ptr list \<times> ('k, 'v) bucket_ptr" where
  "insert_or_modify_probe bs key value modifier a [] = Inl ()"
| "insert_or_modify_probe bs key value modifier a (i # is) =
     (case bs ! i of
        Sentinel \<Rightarrow> Inl ()
      | Null \<Rightarrow> Inr (bs[i := Ptr a key value False False], Null)
      | Ptr a' k v t b \<Rightarrow>
          if k \<noteq> key then insert_or_modify_probe bs key value modifier a is
          else if t then Inr (bs[i := Ptr a key value False False], Ptr a' k v t b)
          else Inr (bs[i := Ptr a key (modifier k v) False False], Ptr a' k v t b))"

definition ba_insert_or_modify ::
  "('k, 'v) bucket_array \<Rightarrow> u64 \<Rightarrow> 'k \<Rightarrow> 'v \<Rightarrow> ('k \<Rightarrow> 'v \<Rightarrow> 'v) \<Rightarrow> nat \<Rightarrow>
    unit + ('k, 'v) bucket_array \<times> ('k, 'v) bucket_ptr" where
  "ba_insert_or_modify arr hash key value modifier a =
     map_sum id (\<lambda>(bs, p). (arr\<lparr>ba_buckets := bs\<rparr>, p))
       (insert_or_modify_probe (ba_buckets arr) key value modifier a (probe (length (ba_buckets arr)) hash))"

section \<open>Rehashing\<close>

datatype rehash_op = Expand | Shrink | GcOnly | Skip

text \<open>\<open>RehashOp::new\<close>. The source compares floating-point numbers; its divisions are by powers of two and
  exact, and neither 0.1 nor 0.7 times a power of two is an integer, so the comparisons are those
  of the integers below. A division by zero gives infinity or, for 0 / 0, a number that is not
  comparable.\<close>

definition rehash_op_new :: "nat \<Rightarrow> nat \<Rightarrow> nat \<Rightarrow> rehash_op" where
  "rehash_op_new cap tbc len =
     (let real_cap = cap * 2
      in if tbc \<ge> 25000 \<or> (if real_cap = 0 then tbc > 0 else 10 * tbc \<ge> real_cap) then
           if 4 * len < real_cap + 4 * tbc \<and> real_cap div 4 \<ge> BUCKET_ARRAY_DEFAULT_LENGTH then Shrink else GcOnly
         else if 10 * len > 7 * real_cap then Expand
         else Skip)"

definition is_skip :: "rehash_op \<Rightarrow> bool" where
  "is_skip op \<longleftrightarrow> op = Skip"

fun new_len :: "rehash_op \<Rightarrow> nat \<Rightarrow> nat or_panic" where
  "new_len Expand current_len = Some (current_len * 2)"
| "new_len Shrink current_len = Some (current_len div 2)"
| "new_len GcOnly current_len = Some current_len"
| "new_len Skip current_len = None"

text \<open>\<open>insert_for_grow\<close>: the index at which the pointer was put, if it was.\<close>

fun insert_for_grow_probe ::
  "('k, 'v) bucket_ptr list \<Rightarrow> ('k, 'v) bucket_ptr \<Rightarrow> 'k \<Rightarrow> nat list \<Rightarrow> ('k, 'v) bucket_ptr list \<times> nat option" where
  "insert_for_grow_probe bs ptr key [] = (bs, None)"
| "insert_for_grow_probe bs ptr key (i # is) =
     (case bs ! i of
        Sentinel \<Rightarrow> (bs, None)
      | Null \<Rightarrow> if is_tombstone ptr then (bs, None) else (bs[i := ptr], Some i)
      | Ptr a k v t b \<Rightarrow>
          if Ptr a k v t b = ptr then (bs, None)
          else if k \<noteq> key then insert_for_grow_probe bs ptr key is
          else if \<not> b then (bs, None)
          else (bs[i := ptr], Some i))"

text \<open>The body of the loop of \<open>rehash\<close> on the pointer of one bucket; the bucket itself becomes a sentinel.\<close>

definition rehash_bucket ::
  "('k \<Rightarrow> u64) \<Rightarrow> ('k, 'v) bucket_ptr \<Rightarrow> ('k, 'v) bucket_ptr list \<Rightarrow> ('k, 'v) bucket_ptr list" where
  "rehash_bucket hash p next =
     (case p of
        Ptr a k v t b \<Rightarrow> fst (insert_for_grow_probe next (Ptr a k v t True) k (probe (length next) (hash k)))
      | _ \<Rightarrow> next)"

fun rehash_loop ::
  "('k \<Rightarrow> u64) \<Rightarrow> ('k, 'v) bucket_ptr list \<Rightarrow> ('k, 'v) bucket_ptr list \<Rightarrow> ('k, 'v) bucket_ptr list" where
  "rehash_loop hash [] next = next"
| "rehash_loop hash (p # ps) next = rehash_loop hash ps (rehash_bucket hash p next)"

definition next_array :: "rehash_op \<Rightarrow> ('k, 'v) bucket_array \<Rightarrow> ('k, 'v) bucket_array or_panic" where
  "next_array op arr = do { n \<leftarrow> new_len op (length (ba_buckets arr)); with_length (ba_epoch arr + 1) n }"

definition rehash :: "('k \<Rightarrow> u64) \<Rightarrow> rehash_op \<Rightarrow> ('k, 'v) bucket_array \<Rightarrow> ('k, 'v) bucket_array or_panic" where
  "rehash hash op arr =
     do { next \<leftarrow> next_array op arr;
          Some (next\<lparr>ba_buckets := rehash_loop hash (ba_buckets arr) (ba_buckets next)\<rparr>) }"

text \<open>\<open>BucketArray::keys\<close>.\<close>

fun keys_loop :: "('k \<Rightarrow> 'a) \<Rightarrow> ('k, 'v) bucket_ptr list \<Rightarrow> unit + 'a list" where
  "keys_loop with_key [] = Inr []"
| "keys_loop with_key (p # ps) =
     (case p of
        Sentinel \<Rightarrow> Inl ()
      | Null \<Rightarrow> keys_loop with_key ps
      | Ptr a k v t b \<Rightarrow>
          if t then keys_loop with_key ps else map_sum id ((#) (with_key k)) (keys_loop with_key ps))"

definition ba_keys :: "('k \<Rightarrow> 'a) \<Rightarrow> ('k, 'v) bucket_array \<Rightarrow> unit + 'a list" where
  "ba_keys with_key arr = keys_loop with_key (ba_buckets arr)"

end
