(* ===== verification/Cht_Slots.thy ===== *)
theory Cht_Slots
  imports Cht_Bucket
begin

text \<open>
  The bucket array as a map. The slot of a key is the first bucket on the key's probe that is
  empty or has the key. All operations work on the slot, and the invariant says that a bucket
  with a key is the key's slot.
\<close>

section \<open>The probe visits every bucket once\<close>

lemma and_mask_mod: "and x (2 ^ n - Suc 0) = x mod 2 ^ n" for x :: nat
  using take_bit_eq_mask[of n x] take_bit_eq_mod[of n x] mask_eq_exp_minus_1[where ?'a = nat and n = n] by simp

lemma is_power_of_two_exp [simp]: "is_power_of_two (2 ^ n)"
  by (simp add: is_power_of_two_def and_mask_mod)

lemma mod_shift_inj:
  assumes "x < L" "y < L" "(x + c) mod L = (y + c) mod L" "x \<le> y"
  shows "x = (y :: nat)"
proof -
  have "L dvd (y + c) - (x + c)" using assms(3,4) by (metis add_le_mono1 mod_eq_dvd_iff_nat)
  then show ?thesis using assms by (cases "y - x = 0") (auto dest!: dvd_imp_le)
qed

lemma set_probe:
  assumes "L = 2 ^ n"
  shows "set (probe L h) = {..<L}" "distinct (probe L h)" "length (probe L h) = L"
proof -
  let ?o = "unat h mod L"
  have L: "0 < L" using assms by simp
  have "Suc (L - 1) = L" using L by simp
  then have p: "probe L h = map (\<lambda>i. (i + ?o) mod L) [0..<L]"
    unfolding probe_def Let_def by (simp add: assms and_mask_mod)
  have inj: "inj_on (\<lambda>i. (i + ?o) mod L) {..<L}"
  proof (rule inj_onI)
    fix x y assume xy: "x \<in> {..<L}" "y \<in> {..<L}" "(x + ?o) mod L = (y + ?o) mod L"
    then show "x = y" using mod_shift_inj[of x L y ?o] mod_shift_inj[of y L x ?o] by (cases "x \<le> y") auto
  qed
  show "distinct (probe L h)" using inj by (simp add: p distinct_map atLeast0LessThan)
  show "length (probe L h) = L" by (simp add: p)
  have "(\<lambda>i. (i + ?o) mod L) ` {..<L} \<subseteq> {..<L}" using L by auto
  with endo_inj_surj[OF _ this inj] show "set (probe L h) = {..<L}" by (simp add: p atLeast0LessThan)
qed

section \<open>Slots\<close>

fun slot :: "('k, 'v) bucket_ptr list \<Rightarrow> 'k \<Rightarrow> nat list \<Rightarrow> nat option" where
  "slot bs key [] = None"
| "slot bs key (i # is) = (case bs ! i of Ptr a k v t b \<Rightarrow> if k = key then Some i else slot bs key is | _ \<Rightarrow> Some i)"

lemma slot_probe:
  "get_probe bs ((=) key) is =
     (case slot bs key is of
        None \<Rightarrow> Inr Null
      | Some i \<Rightarrow> (case bs ! i of Sentinel \<Rightarrow> Inl () | Null \<Rightarrow> Inr Null | Ptr a k v t b \<Rightarrow> Inr (if t then Null else bs ! i)))"
  "remove_if_probe bs ((=) key) condition is =
     (case slot bs key is of
        None \<Rightarrow> Inr (bs, Null)
      | Some i \<Rightarrow>
          (case bs ! i of
             Sentinel \<Rightarrow> Inl () | Null \<Rightarrow> Inr (bs, Null)
           | Ptr a k v t b \<Rightarrow>
               Inr (if t \<or> \<not> condition k v then (bs, Null) else (bs[i := Ptr a k v True False], Ptr a k v True False))))"
  "insert_if_not_present_probe bs key value a is =
     (case slot bs key is of
        None \<Rightarrow> Inl ()
      | Some i \<Rightarrow>
          (case bs ! i of
             Sentinel \<Rightarrow> Inl ()
           | Null \<Rightarrow> Inr (bs[i := Ptr a key value False False], InsertedNew)
           | Ptr a' k v t b \<Rightarrow>
               Inr (if t then (bs[i := Ptr a key value False False], ReplacedTombstone (bs ! i))
                    else (bs, AlreadyPresent (bs ! i)))))"
  "insert_or_modify_probe bs key value modifier a is =
     (case slot bs key is of
        None \<Rightarrow> Inl ()
      | Some i \<Rightarrow>
          (case bs ! i of
             Sentinel \<Rightarrow> Inl ()
           | Null \<Rightarrow> Inr (bs[i := Ptr a key value False False], Null)
           | Ptr a' k v t b \<Rightarrow> Inr (bs[i := Ptr a key (if t then value else modifier k v) False False], bs ! i)))"
  by (induction "is") (auto split: bucket_ptr.split)

lemma slot_Some:
  assumes "slot bs key is = Some i"
  shows "i \<in> set is" "(\<exists>a v t b. bs ! i = Ptr a key v t b) \<or> bs ! i = Null \<or> bs ! i = Sentinel"
  using assms by (induction "is") (auto split: bucket_ptr.splits if_splits)

lemma slot_None: "slot bs key is = None \<Longrightarrow> j \<in> set is \<Longrightarrow> \<exists>a k v t b. bs ! j = Ptr a k v t b \<and> k \<noteq> key"
  by (induction "is") (auto split: bucket_ptr.splits if_splits)

text \<open>Writing the key into its slot keeps the slots of the keys that are in the array.\<close>

lemma slot_upd_same:
  assumes "slot bs key is = Some i" "i < length bs"
  shows "slot (bs[i := Ptr a key v t b]) key is = Some i"
  using assms by (induction "is") (auto split: bucket_ptr.splits if_splits simp: nth_list_update)

lemma slot_upd_other:
  assumes "slot bs k is = Some j" "j \<noteq> i" "bs ! i \<noteq> Null \<Longrightarrow> \<exists>a v t b. bs ! i = Ptr a key v t b" "k \<noteq> key" "i < length bs"
  shows "slot (bs[i := Ptr a key v t b]) k is = Some j"
  using assms by (induction "is") (auto split: bucket_ptr.splits if_splits simp: nth_list_update)

section \<open>The invariant and the map\<close>

definition slots_ok :: "('k \<Rightarrow> u64) \<Rightarrow> ('k, 'v) bucket_ptr list \<Rightarrow> bool" where
  "slots_ok H bs \<longleftrightarrow> (\<exists>n. length bs = 2 ^ n) \<and> Sentinel \<notin> set bs \<and>
     (\<forall>i < length bs. \<forall>a k v t b. bs ! i = Ptr a k v t b \<longrightarrow> slot bs k (probe (length bs) (H k)) = Some i)"

definition bucket_map :: "('k \<Rightarrow> u64) \<Rightarrow> ('k, 'v) bucket_ptr list \<Rightarrow> 'k \<rightharpoonup> 'v" where
  "bucket_map H bs key =
     (case slot bs key (probe (length bs) (H key)) of
        Some i \<Rightarrow> (case bs ! i of Ptr a k v t b \<Rightarrow> if t then None else Some v | _ \<Rightarrow> None)
      | None \<Rightarrow> None)"

lemma slots_okD:
  assumes "slots_ok H bs"
  shows "\<exists>n. length bs = 2 ^ n" "i < length bs \<Longrightarrow> bs ! i \<noteq> Sentinel"
    "i < length bs \<Longrightarrow> bs ! i = Ptr a k v t b \<Longrightarrow> slot bs k (probe (length bs) (H k)) = Some i"
    "slot bs key (probe (length bs) h) = Some i \<Longrightarrow> i < length bs"
proof -
  show "\<exists>n. length bs = 2 ^ n" using assms by (simp add: slots_ok_def)
  then obtain n where n: "length bs = 2 ^ n" by blast
  show "i < length bs \<Longrightarrow> bs ! i \<noteq> Sentinel" using assms by (metis slots_ok_def nth_mem)
  show "i < length bs \<Longrightarrow> bs ! i = Ptr a k v t b \<Longrightarrow> slot bs k (probe (length bs) (H k)) = Some i"
    using assms by (simp add: slots_ok_def)
  show "slot bs key (probe (length bs) h) = Some i \<Longrightarrow> i < length bs"
    using slot_Some(1)[of bs key "probe (length bs) h" i] set_probe(1)[OF n] by simp
qed

lemma bucket_map_iff:
  assumes "slots_ok H bs"
  shows "bucket_map H bs key = Some v \<longleftrightarrow> (\<exists>i < length bs. \<exists>a b. bs ! i = Ptr a key v False b)"
proof
  assume "bucket_map H bs key = Some v"
  then obtain i where i: "slot bs key (probe (length bs) (H key)) = Some i" "\<exists>a k b. bs ! i = Ptr a k v False b"
    by (auto simp: bucket_map_def split: option.splits bucket_ptr.splits if_splits)
  with slot_Some(2)[OF i(1)] slots_okD(4)[OF assms i(1)] show "\<exists>i < length bs. \<exists>a b. bs ! i = Ptr a key v False b" by auto
next
  assume "\<exists>i < length bs. \<exists>a b. bs ! i = Ptr a key v False b"
  then obtain i a b where i: "i < length bs" "bs ! i = Ptr a key v False b" by blast
  with slots_okD(3)[OF assms i] show "bucket_map H bs key = Some v" by (simp add: bucket_map_def)
qed

text \<open>Writing a bucket with the key into the slot of the key.\<close>

lemma slots_ok_upd:
  assumes ok: "slots_ok H bs" and i: "slot bs key (probe (length bs) (H key)) = Some i"
  shows "slots_ok H (bs[i := Ptr a key v t b])" (is "slots_ok H ?bs")
    and "bucket_map H (bs[i := Ptr a key v t b]) = (bucket_map H bs)(key := if t then None else Some v)"
proof -
  note d = slots_okD[OF ok]
  have il: "i < length bs" by (rule d(4)[OF i])
  have w: "bs ! i \<noteq> Null \<Longrightarrow> \<exists>a v t b. bs ! i = Ptr a key v t b" using slot_Some(2)[OF i] d(2)[OF il] by auto
  show okn: "slots_ok H ?bs"
    unfolding slots_ok_def
  proof (intro conjI allI impI)
    show "\<exists>n. length ?bs = 2 ^ n" using d(1) by simp
    show "Sentinel \<notin> set ?bs" using ok by (auto simp: slots_ok_def dest!: set_update_subset_insert[THEN subsetD])
    fix j a' k v' t' b' assume j: "j < length ?bs" "?bs ! j = Ptr a' k v' t' b'"
    show "slot ?bs k (probe (length ?bs) (H k)) = Some j"
    proof (cases "j = i")
      case True
      with j il have "k = key" by simp
      with True slot_upd_same[OF i il] show ?thesis by simp
    next
      case False
      with j have bj: "bs ! j = Ptr a' k v' t' b'" "j < length bs" by simp_all
      have s: "slot bs k (probe (length bs) (H k)) = Some j" by (rule d(3)[OF bj(2,1)])
      have "k \<noteq> key" using s i False by auto
      with slot_upd_other[OF s False w this il] show ?thesis by simp
    qed
  qed
  show "bucket_map H ?bs = (bucket_map H bs)(key := if t then None else Some v)"
  proof
    fix k
    show "bucket_map H ?bs k = ((bucket_map H bs)(key := if t then None else Some v)) k"
    proof (cases "k = key")
      case True
      then show ?thesis using slot_upd_same[OF i il] il by (simp add: bucket_map_def)
    next
      case False
      have "?bs ! j = Ptr a' k x False b' \<longleftrightarrow> bs ! j = Ptr a' k x False b'" for j a' x b'
        using False il w by (cases "j = i") auto
      then have "bucket_map H ?bs k = Some x \<longleftrightarrow> bucket_map H bs k = Some x" for x
        unfolding bucket_map_iff[OF ok] bucket_map_iff[OF okn] by simp
      with False show ?thesis by (cases "bucket_map H bs k") auto
    qed
  qed
qed

end
