(* ===== verification/Cht_Rehash.thy ===== *)
theory Cht_Rehash
  imports Cht_Slots
begin

text \<open>
  How full a bucket array is, and that a rehash moves all entries to the next array.
\<close>

section \<open>Counting buckets\<close>

fun is_live :: "('k, 'v) bucket_ptr \<Rightarrow> bool" where
  "is_live (Ptr a k v t b) \<longleftrightarrow> \<not> t"
| "is_live p \<longleftrightarrow> False"

definition live_count :: "('k, 'v) bucket_ptr list \<Rightarrow> nat" where
  "live_count bs = length (filter is_live bs)"

definition tombstones :: "('k, 'v) bucket_ptr list \<Rightarrow> nat" where
  "tombstones bs = length (filter is_tombstone bs)"

lemma count_upd:
  assumes "i < length bs"
  shows "length (filter P (bs[i := x])) + (if P (bs ! i) then 1 else 0) = length (filter P bs) + (if P x then 1 else 0)"
  using assms
proof (induction bs arbitrary: i)
  case (Cons b bs)
  then show ?case using Cons.IH[of "i - 1"] by (cases i) auto
qed simp

lemma live_count_upd:
  "i < length bs \<Longrightarrow> live_count (bs[i := x]) + (if is_live (bs ! i) then 1 else 0) = live_count bs + (if is_live x then 1 else 0)"
  unfolding live_count_def by (rule count_upd)

lemma tombstones_upd:
  "i < length bs \<Longrightarrow> tombstones (bs[i := x]) + (if is_tombstone (bs ! i) then 1 else 0) = tombstones bs + (if is_tombstone x then 1 else 0)"
  unfolding tombstones_def by (rule count_upd)

lemma live_count_le: "live_count bs \<le> length bs"
  by (simp add: live_count_def)

lemma live_count_dom:
  assumes "slots_ok H bs"
  shows "live_count bs = card (dom (bucket_map H bs))" "finite (dom (bucket_map H bs))"
proof -
  let ?I = "{i. i < length bs \<and> is_live (bs ! i)}" and ?key = "\<lambda>i. case bs ! i of Ptr a k v t b \<Rightarrow> k"
  have live: "is_live p \<longleftrightarrow> (\<exists>a k v b. p = Ptr a k v False b)" for p :: "('a, 'b) bucket_ptr" by (cases p) auto
  have "bij_betw ?key ?I (dom (bucket_map H bs))"
  proof (rule bij_betwI')
    show "?key i = ?key j \<longleftrightarrow> i = j" if ij: "i \<in> ?I" "j \<in> ?I" for i j
      using ij slots_okD(3)[OF assms, of i] slots_okD(3)[OF assms, of j] by (fastforce simp: live)
    show "?key i \<in> dom (bucket_map H bs)" if "i \<in> ?I" for i
      using that by (force simp: dom_def bucket_map_iff[OF assms] live)
    show "\<exists>i \<in> ?I. k = ?key i" if "k \<in> dom (bucket_map H bs)" for k
      using that by (fastforce simp: dom_def bucket_map_iff[OF assms] live)
  qed
  moreover have "finite ?I" by simp
  ultimately show "live_count bs = card (dom (bucket_map H bs))" "finite (dom (bucket_map H bs))"
    by (simp_all add: live_count_def length_filter_conv_card bij_betw_same_card bij_betw_finite)
qed

text \<open>An array that is not full has a slot for every key.\<close>

lemma slot_exists:
  assumes ok: "slots_ok H bs" and room: "live_count bs + tombstones bs < length bs"
  shows "\<exists>i. slot bs key (probe (length bs) h) = Some i"
proof (rule ccontr)
  assume "\<not> ?thesis"
  then have none: "slot bs key (probe (length bs) h) = None" by simp
  obtain n where n: "length bs = 2 ^ n" using slots_okD(1)[OF ok] by blast
  have "is_live p \<or> is_tombstone p" if p: "p \<in> set bs" for p
  proof -
    obtain j where j: "j < length bs" "p = bs ! j" using p by (metis in_set_conv_nth)
    then have "j \<in> set (probe (length bs) h)" using set_probe(1)[OF n] by simp
    from slot_None[OF none this] j show ?thesis by auto
  qed
  moreover have "is_live p \<Longrightarrow> \<not> is_tombstone p" for p :: "('a, 'b) bucket_ptr" by (cases p) simp_all
  ultimately have "\<not> is_live p \<longleftrightarrow> is_tombstone p" if "p \<in> set bs" for p using that by blast
  then have "filter (\<lambda>p. \<not> is_live p) bs = filter is_tombstone bs" by (simp cong: filter_cong)
  then have "length bs = live_count bs + tombstones bs"
    using sum_length_filter_compl[of is_live bs] by (simp add: live_count_def tombstones_def)
  with room show False by simp
qed

section \<open>Moving the entries\<close>

fun ptr_keys :: "('k, 'v) bucket_ptr list \<Rightarrow> 'k list" where
  "ptr_keys [] = []"
| "ptr_keys (p # ps) = (case p of Ptr a k v t b \<Rightarrow> k # ptr_keys ps | _ \<Rightarrow> ptr_keys ps)"

lemma set_ptr_keys: "k \<in> set (ptr_keys ps) \<longleftrightarrow> (\<exists>a v t b. Ptr a k v t b \<in> set ps)"
  by (induction ps) (auto split: bucket_ptr.split)

lemma distinct_ptr_keys:
  assumes "\<And>i j a v t b a' v' t' b' k. i < length ps \<Longrightarrow> j < length ps \<Longrightarrow> ps ! i = Ptr a k v t b \<Longrightarrow> ps ! j = Ptr a' k v' t' b' \<Longrightarrow> i = j"
  shows "distinct (ptr_keys ps)"
  using assms
proof (induction ps)
  case (Cons p ps)
  have "distinct (ptr_keys ps)"
  proof (rule Cons.IH)
    fix i j a v t b a' v' t' b' k
    assume "i < length ps" "j < length ps" "ps ! i = Ptr a k v t b" "ps ! j = Ptr a' k v' t' b'"
    then show "i = j" using Cons.prems[of "Suc i" "Suc j" a k v t b] by simp
  qed
  moreover have "k \<notin> set (ptr_keys ps)" if p: "p = Ptr a k v t b" for a k v t b
  proof
    assume "k \<in> set (ptr_keys ps)"
    then obtain a' v' t' b' j where "j < length ps" "ps ! j = Ptr a' k v' t' b'"
      unfolding set_ptr_keys by (metis in_set_conv_nth)
    then show False using Cons.prems[of 0 "Suc j" a k v t b] p by simp
  qed
  ultimately show ?case by (auto split: bucket_ptr.split)
qed simp

lemma slots_ok_distinct:
  assumes "slots_ok H bs"
  shows "distinct (ptr_keys bs)"
proof (rule distinct_ptr_keys)
  fix i j a v t b a' v' t' b' k
  assume "i < length bs" "j < length bs" "bs ! i = Ptr a k v t b" "bs ! j = Ptr a' k v' t' b'"
  then show "i = j" using slots_okD(3)[OF assms, of i] slots_okD(3)[OF assms, of j] by fastforce
qed

lemma slot_insert_for_grow:
  "insert_for_grow_probe bs (Ptr a0 key v0 t0 b0) key is =
     (case slot bs key is of
        None \<Rightarrow> (bs, None)
      | Some i \<Rightarrow>
          (case bs ! i of
             Sentinel \<Rightarrow> (bs, None)
           | Null \<Rightarrow> if t0 then (bs, None) else (bs[i := Ptr a0 key v0 t0 b0], Some i)
           | Ptr a k v t b \<Rightarrow>
               if bs ! i = Ptr a0 key v0 t0 b0 \<or> \<not> b then (bs, None) else (bs[i := Ptr a0 key v0 t0 b0], Some i)))"
  by (induction "is") (auto split: bucket_ptr.split)

text \<open>Moving one entry whose key the next array does not have.\<close>

lemma rehash_bucket_ok:
  assumes ok: "slots_ok H nx" and t: "tombstones nx = 0" and room: "is_live p \<longrightarrow> live_count nx < length nx"
    and new: "\<forall>a k v t b. p = Ptr a k v t b \<longrightarrow> k \<notin> set (ptr_keys nx)"
  shows "slots_ok H (rehash_bucket H p nx)" "tombstones (rehash_bucket H p nx) = 0"
    "length (rehash_bucket H p nx) = length nx"
    "live_count (rehash_bucket H p nx) = live_count nx + (if is_live p then 1 else 0)"
    "bucket_map H (rehash_bucket H p nx) = (case p of Ptr a k v False b \<Rightarrow> (bucket_map H nx)(k \<mapsto> v) | _ \<Rightarrow> bucket_map H nx)"
    "set (ptr_keys (rehash_bucket H p nx)) \<subseteq> set (ptr_keys nx) \<union> set (ptr_keys [p])"
proof -
  have "slots_ok H (rehash_bucket H p nx) \<and> tombstones (rehash_bucket H p nx) = 0 \<and>
    length (rehash_bucket H p nx) = length nx \<and>
    live_count (rehash_bucket H p nx) = live_count nx + (if is_live p then 1 else 0) \<and>
    bucket_map H (rehash_bucket H p nx) = (case p of Ptr a k v False b \<Rightarrow> (bucket_map H nx)(k \<mapsto> v) | _ \<Rightarrow> bucket_map H nx) \<and>
    set (ptr_keys (rehash_bucket H p nx)) \<subseteq> set (ptr_keys nx) \<union> set (ptr_keys [p])"
  proof (cases p)
    case (Ptr a k v d b)
    have free: "nx ! i = Null" if "slot nx k (probe (length nx) (H k)) = Some i" for i
      using slot_Some(2)[OF that] slots_okD(2,4)[OF ok] that new[rule_format, OF Ptr] set_ptr_keys[of k nx] by (metis nth_mem)
    show ?thesis
    proof (cases d)
      case True
      then have "rehash_bucket H p nx = nx"
        using Ptr free by (auto simp: rehash_bucket_def slot_insert_for_grow split: option.split)
      with True Ptr ok t show ?thesis by (simp add: subset_insertI)
    next
      case False
      obtain i where i: "slot nx k (probe (length nx) (H k)) = Some i"
        using slot_exists[OF ok, of k "H k"] room t Ptr False by auto
      have il: "i < length nx" by (rule slots_okD(4)[OF ok i])
      have eq: "rehash_bucket H p nx = nx[i := Ptr a k v False True]"
        using Ptr False i free[OF i] by (simp add: rehash_bucket_def slot_insert_for_grow)
      have keys: "set (ptr_keys (nx[i := Ptr a k v False True])) \<subseteq> insert k (set (ptr_keys nx))"
        using set_update_subset_insert[of nx i "Ptr a k v False True"] unfolding subset_iff insert_iff set_ptr_keys by blast
      show ?thesis unfolding eq
        using slots_ok_upd[OF ok i, of a v False True] live_count_upd[OF il, of "Ptr a k v False True"]
          tombstones_upd[OF il, of "Ptr a k v False True"] free[OF i] t Ptr False keys by auto
    qed
  qed (use ok t in \<open>auto simp: rehash_bucket_def\<close>)
  then show "slots_ok H (rehash_bucket H p nx)" "tombstones (rehash_bucket H p nx) = 0"
    "length (rehash_bucket H p nx) = length nx"
    "live_count (rehash_bucket H p nx) = live_count nx + (if is_live p then 1 else 0)"
    "bucket_map H (rehash_bucket H p nx) = (case p of Ptr a k v False b \<Rightarrow> (bucket_map H nx)(k \<mapsto> v) | _ \<Rightarrow> bucket_map H nx)"
    "set (ptr_keys (rehash_bucket H p nx)) \<subseteq> set (ptr_keys nx) \<union> set (ptr_keys [p])" by auto
qed

text \<open>Moving all entries of a list of buckets with different keys, when the next array has room for them.\<close>

lemma rehash_loop_ok:
  assumes "slots_ok H nx" "tombstones nx = 0" "distinct (ptr_keys ps)" "set (ptr_keys ps) \<inter> set (ptr_keys nx) = {}"
    "live_count nx + live_count ps \<le> length nx"
  shows "slots_ok H (rehash_loop H ps nx) \<and> tombstones (rehash_loop H ps nx) = 0 \<and>
    length (rehash_loop H ps nx) = length nx \<and> live_count (rehash_loop H ps nx) = live_count nx + live_count ps \<and>
    (\<forall>k v. bucket_map H (rehash_loop H ps nx) k = Some v \<longleftrightarrow>
       bucket_map H nx k = Some v \<or> (\<exists>a b. Ptr a k v False b \<in> set ps))"
  using assms
proof (induction ps arbitrary: nx)
  case Nil
  then show ?case by (simp add: live_count_def)
next
  case (Cons p ps)
  let ?nx = "rehash_bucket H p nx"
  have lc: "live_count (p # ps) = (if is_live p then 1 else 0) + live_count ps" by (simp add: live_count_def)
  have new: "\<forall>a k v t b. p = Ptr a k v t b \<longrightarrow> k \<notin> set (ptr_keys nx)" using Cons.prems(4) by (cases p) auto
  have room: "is_live p \<longrightarrow> live_count nx < length nx" using Cons.prems(5) lc by auto
  note r = rehash_bucket_ok[OF Cons.prems(1,2) room new]
  have sub: "set (ptr_keys ps) \<subseteq> set (ptr_keys (p # ps))"
    and dis: "distinct (ptr_keys ps)" "set (ptr_keys [p]) \<inter> set (ptr_keys ps) = {}"
    using Cons.prems(3) by (cases p; auto)+
  have "set (ptr_keys ps) \<inter> set (ptr_keys nx) = {}" using sub Cons.prems(4) by blast
  then have "set (ptr_keys ps) \<inter> set (ptr_keys ?nx) = {}" using r(6) dis(2) by blast
  moreover have "live_count ?nx + live_count ps \<le> length ?nx" using r(3,4) lc Cons.prems(5) by simp
  ultimately have ih: "slots_ok H (rehash_loop H ps ?nx) \<and> tombstones (rehash_loop H ps ?nx) = 0 \<and>
    length (rehash_loop H ps ?nx) = length ?nx \<and> live_count (rehash_loop H ps ?nx) = live_count ?nx + live_count ps \<and>
    (\<forall>k v. bucket_map H (rehash_loop H ps ?nx) k = Some v \<longleftrightarrow>
       bucket_map H ?nx k = Some v \<or> (\<exists>a b. Ptr a k v False b \<in> set ps))"
    by (intro Cons.IH) (use r dis in simp_all)
  have "\<forall>a k v t b. p = Ptr a k v t b \<longrightarrow> bucket_map H nx k = None"
  proof (intro allI impI, rule ccontr)
    fix a k v t b assume that: "p = Ptr a k v t b"
    assume "bucket_map H nx k \<noteq> None"
    then obtain i a' v' b' where "i < length nx" "nx ! i = Ptr a' k v' False b'"
      using bucket_map_iff[OF Cons.prems(1)] by fastforce
    with new that show False unfolding set_ptr_keys by (metis nth_mem)
  qed
  then have "bucket_map H ?nx k = Some v \<longleftrightarrow> bucket_map H nx k = Some v \<or> (\<exists>a b. p = Ptr a k v False b)" for k v
    unfolding r(5) by (cases p) (auto split: bool.split)
  with ih r(3,4) lc show ?case by auto
qed

section \<open>A rehash keeps the map\<close>

lemma slots_ok_empty:
  "slots_ok H (replicate (2 ^ n) Null)" "bucket_map H (replicate (2 ^ n) Null) = Map.empty"
  "live_count (replicate m Null) = 0" "tombstones (replicate m Null) = 0" "ptr_keys (replicate m Null) = []"
proof -
  show ok: "slots_ok H (replicate (2 ^ n) Null)" by (auto simp: slots_ok_def)
  show "bucket_map H (replicate (2 ^ n) Null) = Map.empty"
    using slot_Some(1)[of "replicate (2 ^ n) Null"] set_probe(1)[OF refl, of n]
    by (fastforce simp: bucket_map_def fun_eq_iff split: option.split)
  show "ptr_keys (replicate m Null) = []" by (induction m) simp_all
qed (simp_all add: live_count_def tombstones_def)

lemma rehash_loop_empty:
  assumes ok: "slots_ok H bs" and fits: "live_count bs \<le> 2 ^ n"
  defines "bs' \<equiv> rehash_loop H bs (replicate (2 ^ n) Null)"
  shows "slots_ok H bs'" "tombstones bs' = 0" "length bs' = 2 ^ n" "live_count bs' = live_count bs"
    "bucket_map H bs' = bucket_map H bs"
proof -
  note e = slots_ok_empty
  have "slots_ok H bs' \<and> tombstones bs' = 0 \<and> length bs' = length (replicate (2 ^ n) (Null :: ('a, 'b) bucket_ptr)) \<and>
    live_count bs' = live_count (replicate (2 ^ n) (Null :: ('a, 'b) bucket_ptr)) + live_count bs \<and>
    (\<forall>k v. bucket_map H bs' k = Some v \<longleftrightarrow>
       bucket_map H (replicate (2 ^ n) Null) k = Some v \<or> (\<exists>a b. Ptr a k v False b \<in> set bs))"
    unfolding bs'_def using fits by (intro rehash_loop_ok) (simp_all add: e slots_ok_distinct[OF ok])
  then have r: "slots_ok H bs'" "tombstones bs' = 0" "length bs' = 2 ^ n" "live_count bs' = live_count bs"
    "\<And>k v. bucket_map H bs' k = Some v \<longleftrightarrow> (\<exists>a b. Ptr a k v False b \<in> set bs)"
    by (simp_all add: e)
  then show "slots_ok H bs'" "tombstones bs' = 0" "length bs' = 2 ^ n" "live_count bs' = live_count bs" by simp_all
  show "bucket_map H bs' = bucket_map H bs"
  proof
    fix k
    have "bucket_map H bs' k = Some v \<longleftrightarrow> bucket_map H bs k = Some v" for v
      unfolding r(5) bucket_map_iff[OF ok] in_set_conv_nth by blast
    then show "bucket_map H bs' k = bucket_map H bs k" by (cases "bucket_map H bs k") auto
  qed
qed

end
