(* ===== verification/Kv_Table.thy ===== *)
theory Kv_Table
  imports Moka_Prelude
begin

text \<open>
  The interface of a key-value table: what the clients of a hash table rely on. A table that keeps
  its invariant answers any sequence of calls as a map does.
\<close>

section \<open>Calls and their meaning on a map\<close>

datatype ('k, 'v) table_call =
    Lookup 'k
  | Upsert 'k "unit \<Rightarrow> 'v" "'k \<Rightarrow> 'v \<Rightarrow> 'v"
  | InsertNew 'k 'v
  | RemoveIf 'k "'k \<Rightarrow> 'v \<Rightarrow> bool"

fun map_call :: "('k \<rightharpoonup> 'v) \<Rightarrow> ('k, 'v) table_call \<Rightarrow> 'k \<rightharpoonup> 'v" where
  "map_call m (Lookup k) = m"
| "map_call m (Upsert k ins modify) = m(k \<mapsto> case m k of Some v \<Rightarrow> modify k v | None \<Rightarrow> ins ())"
| "map_call m (InsertNew k v) = (case m k of Some _ \<Rightarrow> m | None \<Rightarrow> m(k \<mapsto> v))"
| "map_call m (RemoveIf k cond) = (case m k of Some v \<Rightarrow> if cond k v then m(k := None) else m | None \<Rightarrow> m)"

fun map_answer :: "('k \<rightharpoonup> 'v) \<Rightarrow> ('k, 'v) table_call \<Rightarrow> 'v option" where
  "map_answer m (Lookup k) = m k"
| "map_answer m (Upsert k ins modify) = m k"
| "map_answer m (InsertNew k v) = m k"
| "map_answer m (RemoveIf k cond) = (case m k of Some v \<Rightarrow> if cond k v then Some v else None | None \<Rightarrow> None)"

fun map_answers :: "('k \<rightharpoonup> 'v) \<Rightarrow> ('k, 'v) table_call list \<Rightarrow> 'v option list" where
  "map_answers m [] = []"
| "map_answers m (c # cs) = map_answer m c # map_answers (map_call m c) cs"

fun run_calls :: "('s \<Rightarrow> 'c \<Rightarrow> ('s \<times> 'r) option) \<Rightarrow> 's \<Rightarrow> 'c list \<Rightarrow> ('s \<times> 'r list) option" where
  "run_calls exec s [] = Some (s, [])"
| "run_calls exec s (c # cs) =
     do { (s', r) \<leftarrow> exec s c; (s'', rs) \<leftarrow> run_calls exec s' cs; Some (s'', r # rs) }"

section \<open>The interface\<close>

locale kv_table =
  fixes ok :: "'s \<Rightarrow> bool"
    and contents :: "'s \<Rightarrow> 'k \<rightharpoonup> 'v"
    and exec :: "'s \<Rightarrow> ('k, 'v) table_call \<Rightarrow> ('s \<times> 'v option) option"
  assumes exec_ok: "ok s \<Longrightarrow> \<exists>s'. exec s c = Some (s', map_answer (contents s) c) \<and> ok s' \<and> contents s' = map_call (contents s) c"
begin

lemma run_ok:
  "ok s \<Longrightarrow> \<exists>s'. run_calls exec s cs = Some (s', map_answers (contents s) cs) \<and> ok s' \<and> contents s' = foldl map_call (contents s) cs"
proof (induction cs arbitrary: s)
  case (Cons c cs)
  obtain s' where s': "exec s c = Some (s', map_answer (contents s) c)" "ok s'" "contents s' = map_call (contents s) c"
    using exec_ok[OF Cons.prems, of c] by blast
  obtain s'' where "run_calls exec s' cs = Some (s'', map_answers (contents s') cs)" "ok s''"
    "contents s'' = foldl map_call (contents s') cs"
    using Cons.IH[OF s'(2)] by blast
  with s' show ?case by simp
qed simp

lemma lookup_after_upsert:
  assumes "ok s" "exec s (Upsert k ins modify) = Some (s', r)"
  shows "\<exists>s''. exec s' (Lookup k) = Some (s'', Some (case r of Some v \<Rightarrow> modify k v | None \<Rightarrow> ins ())) \<and> ok s''"
  using exec_ok[OF assms(1), of "Upsert k ins modify"] exec_ok[of s' "Lookup k"] assms(2) by auto

lemma lookup_after_remove:
  assumes "ok s" "exec s (RemoveIf k (\<lambda>_ _. True)) = Some (s', r)"
  shows "\<exists>s''. exec s' (Lookup k) = Some (s'', None) \<and> ok s''"
  using exec_ok[OF assms(1), of "RemoveIf k (\<lambda>_ _. True)"] exec_ok[of s' "Lookup k"] assms(2)
  by (auto split: option.splits)

end

end
