(* ===== verification/Cht_Segment.thy ===== *)
theory Cht_Segment
  imports Cht_Rehash Kv_Table
begin

text \<open>
  One segment of the concurrent hash table: a pointer to a bucket array and the number of entries
  (\<open>Segment\<close> of \<open>src/src/cht/segment.rs\<close>), with the operations of \<open>BucketArrayRef\<close>
  (\<open>src/src/cht/map/bucket_array_ref.rs\<close>). An operation ends by swinging the segment's pointer to
  the array it ended with, which is the array of the segment when no rehash happened. The functions
  below return the segment with that array. The loops are partial functions: \<open>None\<close> is a panic or a
  loop that does not end, and the lemmas show that neither happens.
\<close>

section \<open>Operations\<close>

record ('k, 'v) segment =
  seg_array :: "('k, 'v) bucket_array option"
  seg_len :: nat

text \<open>The length is an atomic \<open>usize\<close>: a decrement at zero wraps around. Increments stay below the
  number of buckets, which fits into memory.\<close>

definition fetch_sub_one :: "nat \<Rightarrow> nat" where
  "fetch_sub_one n = (if n = 0 then 2 ^ 64 - 1 else n - 1)"

text \<open>\<open>BucketArrayRef::get\<close>: the array of the segment, or a new one in its place.\<close>

definition ref_get :: "('k, 'v) segment \<Rightarrow> ('k, 'v) bucket_array or_panic" where
  "ref_get s = (case seg_array s of Some arr \<Rightarrow> Some arr | None \<Rightarrow> bucket_array_default)"

text \<open>The inner loop of the operations that write.\<close>

partial_function (option) rehash_until_skip ::
  "('k \<Rightarrow> u64) \<Rightarrow> nat \<Rightarrow> ('k, 'v) bucket_array \<Rightarrow> ('k, 'v) bucket_array option" where
  "rehash_until_skip H len arr =
     do { cap \<leftarrow> ba_capacity arr;
          let op = rehash_op_new cap (ba_tombstone_count arr) len;
          if is_skip op then Some arr
          else do { arr' \<leftarrow> rehash H op arr; rehash_until_skip H len arr' } }"

partial_function (option) get_loop ::
  "('k \<Rightarrow> u64) \<Rightarrow> u64 \<Rightarrow> ('k \<Rightarrow> bool) \<Rightarrow> ('k, 'v) bucket_array \<Rightarrow> (('k, 'v) bucket_array \<times> ('k, 'v) bucket_ptr) option" where
  "get_loop H hash eq arr =
     (case ba_get arr hash eq of
        Inr p \<Rightarrow> Some (arr, p)
      | Inl _ \<Rightarrow> do { arr' \<leftarrow> rehash H Expand arr; get_loop H hash eq arr' })"

definition ref_get_key_value_and_then ::
  "('k \<Rightarrow> u64) \<Rightarrow> ('k, 'v) segment \<Rightarrow> u64 \<Rightarrow> ('k \<Rightarrow> bool) \<Rightarrow> ('k \<Rightarrow> 'v \<Rightarrow> 'a option) \<Rightarrow>
    (('k, 'v) segment \<times> 'a option) option" where
  "ref_get_key_value_and_then H s hash eq with_entry =
     do { current \<leftarrow> ref_get s;
          (arr, p) \<leftarrow> get_loop H hash eq current;
          Some (s\<lparr>seg_array := Some arr\<rparr>, case p of Ptr a k v t b \<Rightarrow> with_entry k v | _ \<Rightarrow> None) }"

partial_function (option) remove_loop ::
  "('k \<Rightarrow> u64) \<Rightarrow> nat \<Rightarrow> u64 \<Rightarrow> ('k \<Rightarrow> bool) \<Rightarrow> ('k \<Rightarrow> 'v \<Rightarrow> bool) \<Rightarrow> ('k, 'v) bucket_array \<Rightarrow>
    (('k, 'v) bucket_array \<times> ('k, 'v) bucket_ptr) option" where
  "remove_loop H len hash eq condition arr =
     do { arr \<leftarrow> rehash_until_skip H len arr;
          (case ba_remove_if arr hash eq condition of
             Inr r \<Rightarrow> Some r
           | Inl _ \<Rightarrow> do { arr' \<leftarrow> rehash H Expand arr; remove_loop H len hash eq condition arr' }) }"

definition ref_remove_entry_if_and ::
  "('k \<Rightarrow> u64) \<Rightarrow> ('k, 'v) segment \<Rightarrow> u64 \<Rightarrow> ('k \<Rightarrow> bool) \<Rightarrow> ('k \<Rightarrow> 'v \<Rightarrow> bool) \<Rightarrow> ('k \<Rightarrow> 'v \<Rightarrow> 'a) \<Rightarrow>
    (('k, 'v) segment \<times> 'a option) option" where
  "ref_remove_entry_if_and H s hash eq condition with_previous_entry =
     do { current \<leftarrow> ref_get s;
          (arr, p) \<leftarrow> remove_loop H (seg_len s) hash eq condition current;
          Some (case p of
                  Ptr a k v t b \<Rightarrow>
                    (\<lparr>seg_array = Some (arr\<lparr>ba_tombstone_count := ba_tombstone_count arr + 1\<rparr>),
                      seg_len = fetch_sub_one (seg_len s)\<rparr>, Some (with_previous_entry k v))
                | _ \<Rightarrow> (s\<lparr>seg_array := Some arr\<rparr>, None)) }"

partial_function (option) insert_new_loop ::
  "('k \<Rightarrow> u64) \<Rightarrow> nat \<Rightarrow> u64 \<Rightarrow> 'k \<Rightarrow> 'v \<Rightarrow> nat \<Rightarrow> ('k, 'v) bucket_array \<Rightarrow>
    (('k, 'v) bucket_array \<times> ('k, 'v) insertion_result) option" where
  "insert_new_loop H len hash key value a arr =
     do { arr \<leftarrow> rehash_until_skip H len arr;
          (case ba_insert_if_not_present arr hash key value a of
             Inr r \<Rightarrow> Some r
           | Inl _ \<Rightarrow> do { arr' \<leftarrow> rehash H Expand arr; insert_new_loop H len hash key value a arr' }) }"

definition ref_insert_if_not_present_and ::
  "('k \<Rightarrow> u64) \<Rightarrow> ('k, 'v) segment \<Rightarrow> 'k \<Rightarrow> u64 \<Rightarrow> (unit \<Rightarrow> 'v) \<Rightarrow> ('k \<Rightarrow> 'v \<Rightarrow> 'a) \<Rightarrow> nat \<Rightarrow>
    (('k, 'v) segment \<times> 'a option) option" where
  "ref_insert_if_not_present_and H s key hash on_insert with_existing_entry a =
     do { current \<leftarrow> ref_get s;
          (arr, r) \<leftarrow> insert_new_loop H (seg_len s) hash key (on_insert ()) a current;
          (case r of
             AlreadyPresent p \<Rightarrow>
               (case p of
                  Ptr a k v t b \<Rightarrow> if t then None else Some (s\<lparr>seg_array := Some arr\<rparr>, Some (with_existing_entry k v))
                | _ \<Rightarrow> None)
           | InsertedNew \<Rightarrow> Some (\<lparr>seg_array = Some arr, seg_len = seg_len s + 1\<rparr>, None)
           | ReplacedTombstone p \<Rightarrow>
               if is_tombstone p then Some (\<lparr>seg_array = Some arr, seg_len = seg_len s + 1\<rparr>, None) else None) }"

partial_function (option) insert_modify_loop ::
  "('k \<Rightarrow> u64) \<Rightarrow> nat \<Rightarrow> u64 \<Rightarrow> 'k \<Rightarrow> 'v \<Rightarrow> ('k \<Rightarrow> 'v \<Rightarrow> 'v) \<Rightarrow> nat \<Rightarrow> ('k, 'v) bucket_array \<Rightarrow>
    (('k, 'v) bucket_array \<times> ('k, 'v) bucket_ptr) option" where
  "insert_modify_loop H len hash key value on_modify a arr =
     do { arr \<leftarrow> rehash_until_skip H len arr;
          (case ba_insert_or_modify arr hash key value on_modify a of
             Inr r \<Rightarrow> Some r
           | Inl _ \<Rightarrow> do { arr' \<leftarrow> rehash H Expand arr; insert_modify_loop H len hash key value on_modify a arr' }) }"

definition ref_insert_with_or_modify_entry_and ::
  "('k \<Rightarrow> u64) \<Rightarrow> ('k, 'v) segment \<Rightarrow> 'k \<Rightarrow> u64 \<Rightarrow> (unit \<Rightarrow> 'v) \<Rightarrow> ('k \<Rightarrow> 'v \<Rightarrow> 'v) \<Rightarrow> ('k \<Rightarrow> 'v \<Rightarrow> 'a) \<Rightarrow> nat \<Rightarrow>
    (('k, 'v) segment \<times> 'a option) option" where
  "ref_insert_with_or_modify_entry_and H s key hash on_insert on_modify with_old_entry a =
     do { current \<leftarrow> ref_get s;
          (arr, p) \<leftarrow> insert_modify_loop H (seg_len s) hash key (on_insert ()) on_modify a current;
          Some (case p of
                  Ptr a k v t b \<Rightarrow>
                    if t then (\<lparr>seg_array = Some arr, seg_len = seg_len s + 1\<rparr>, None)
                    else (s\<lparr>seg_array := Some arr\<rparr>, Some (with_old_entry k v))
                | _ \<Rightarrow> (\<lparr>seg_array = Some arr, seg_len = seg_len s + 1\<rparr>, None)) }"

partial_function (option) keys_rehash_loop ::
  "('k \<Rightarrow> u64) \<Rightarrow> ('k \<Rightarrow> 'a) \<Rightarrow> ('k, 'v) bucket_array \<Rightarrow> (('k, 'v) bucket_array \<times> 'a list) option" where
  "keys_rehash_loop H with_key arr =
     (case ba_keys with_key arr of
        Inr ks \<Rightarrow> Some (arr, ks)
      | Inl _ \<Rightarrow> do { arr' \<leftarrow> rehash H Expand arr; keys_rehash_loop H with_key arr' })"

definition ref_keys :: "('k \<Rightarrow> u64) \<Rightarrow> ('k, 'v) segment \<Rightarrow> ('k \<Rightarrow> 'a) \<Rightarrow> (('k, 'v) segment \<times> 'a list) option" where
  "ref_keys H s with_key =
     do { current \<leftarrow> ref_get s;
          (arr, ks) \<leftarrow> keys_rehash_loop H with_key current;
          Some (s\<lparr>seg_array := Some arr\<rparr>, ks) }"

section \<open>The load of an array\<close>

text \<open>The number of buckets that the load is measured against, and the invariant of an array between
  two operations: the table may exceed the thresholds of \<open>RehashOp::new\<close> by the last operation.\<close>

definition real_cap :: "('k, 'v) bucket_array \<Rightarrow> nat" where
  "real_cap arr = length (ba_buckets arr) div 2 * 2"

definition load_ok :: "('k \<Rightarrow> u64) \<Rightarrow> nat \<Rightarrow> ('k, 'v) bucket_array \<Rightarrow> bool" where
  "load_ok H len arr \<longleftrightarrow> slots_ok H (ba_buckets arr) \<and> tombstones (ba_buckets arr) \<le> ba_tombstone_count arr \<and>
     live_count (ba_buckets arr) = len \<and> 10 * len \<le> 7 * real_cap arr + 10 \<and>
     (ba_tombstone_count arr = 0 \<or> 0 < real_cap arr \<and> 10 * ba_tombstone_count arr < real_cap arr + 10)"

definition has_room :: "nat \<Rightarrow> ('k, 'v) bucket_array \<Rightarrow> bool" where
  "has_room len arr \<longleftrightarrow> 10 * len \<le> 7 * real_cap arr \<and>
     (ba_tombstone_count arr = 0 \<or> 10 * ba_tombstone_count arr < real_cap arr)"

lemma load_okD:
  assumes "load_ok H len arr"
  shows "slots_ok H (ba_buckets arr)" "tombstones (ba_buckets arr) \<le> ba_tombstone_count arr"
    "live_count (ba_buckets arr) = len" "10 * len \<le> 7 * real_cap arr + 10"
    "ba_tombstone_count arr = 0 \<or> 0 < real_cap arr \<and> 10 * ba_tombstone_count arr < real_cap arr + 10"
    "ba_capacity arr = Some (length (ba_buckets arr) div 2)"
  using assms slots_okD(1)[of H "ba_buckets arr"] by (auto simp: load_ok_def ba_capacity_def)

lemma rehash_to:
  assumes ok: "load_ok H len arr" and n: "new_len op (length (ba_buckets arr)) = Some (2 ^ n)"
    and fits: "len \<le> 2 ^ n" "10 * len \<le> 7 * (2 ^ n div 2 * 2) + 10"
  shows "\<exists>arr'. rehash H op arr = Some arr' \<and> load_ok H len arr' \<and> ba_tombstone_count arr' = 0 \<and>
    length (ba_buckets arr') = 2 ^ n \<and> bucket_map H (ba_buckets arr') = bucket_map H (ba_buckets arr)"
proof -
  note d = load_okD[OF ok]
  have "live_count (ba_buckets arr) \<le> 2 ^ n" using d(3) fits by simp
  note r = rehash_loop_empty[OF d(1) this]
  show ?thesis using n r d(3) fits
    by (simp add: rehash_def next_array_def with_length_def load_ok_def real_cap_def)
qed

text \<open>A rehash by the operation that \<open>RehashOp::new\<close> chose. After an expansion nothing is left to do.\<close>

lemma rehash_chosen:
  assumes ok: "load_ok H len arr" and op: "rehash_op_new (length (ba_buckets arr) div 2) (ba_tombstone_count arr) len = op" "op \<noteq> Skip"
  shows "\<exists>arr'. rehash H op arr = Some arr' \<and> load_ok H len arr' \<and> ba_tombstone_count arr' = 0 \<and>
    bucket_map H (ba_buckets arr') = bucket_map H (ba_buckets arr) \<and> (op = Expand \<longrightarrow> has_room len arr')"
proof -
  note d = load_okD[OF ok]
  obtain n where n: "length (ba_buckets arr) = 2 ^ n" using slots_okD(1)[OF d(1)] by blast
  have le: "len \<le> 2 ^ n" using live_count_le[of "ba_buckets arr"] d(3) n by simp
  have rc: "real_cap arr = 2 ^ n div 2 * 2" by (simp add: real_cap_def n)
  have dbl: "2 ^ Suc m div 2 * 2 = (2 :: nat) ^ Suc m" for m by simp
  show ?thesis
  proof (cases op)
    case Expand
    have nl: "new_len op (length (ba_buckets arr)) = Some (2 ^ Suc n)" using Expand n by simp
    have b: "10 * len \<le> 7 * 2 ^ Suc n"
    proof (cases n)
      case (Suc m)
      have "10 * len \<le> 14 * 2 ^ m + 10" using d(4) rc Suc by simp
      moreover have "1 \<le> (2 :: nat) ^ m" by simp
      ultimately have "10 * len \<le> 28 * 2 ^ m" by linarith
      with Suc show ?thesis by simp
    qed (use d(4) rc in simp)
    obtain arr' where a: "rehash H op arr = Some arr'" "load_ok H len arr'" "ba_tombstone_count arr' = 0"
      "length (ba_buckets arr') = 2 ^ Suc n" "bucket_map H (ba_buckets arr') = bucket_map H (ba_buckets arr)"
      using rehash_to[OF ok nl] le b dbl[of n] by auto
    moreover have "has_room len arr'" using a(3,4) b dbl[of n] by (simp add: has_room_def real_cap_def)
    ultimately show ?thesis by blast
  next
    case GcOnly
    have nl: "new_len op (length (ba_buckets arr)) = Some (2 ^ n)" using GcOnly n by simp
    show ?thesis using rehash_to[OF ok nl] le d(4) rc GcOnly by auto
  next
    case Shrink
    then have s: "4 * len < 2 ^ n div 2 * 2 + 4 * ba_tombstone_count arr" "128 \<le> (2 ^ n div 2 * 2) div (4 :: nat)"
      using op(1) n by (auto simp: rehash_op_new_def Let_def BUCKET_ARRAY_DEFAULT_LENGTH_def split: if_splits)
    then obtain m where m: "n = Suc (Suc m)" by (cases n; cases "n - 1") simp_all
    have nl: "new_len op (length (ba_buckets arr)) = Some (2 ^ Suc m)" using Shrink n m by simp
    have b: "40 * len < 14 * 2 ^ n + 36" "10 * ba_tombstone_count arr < 2 ^ n + 10" "(512 :: nat) \<le> 2 ^ n"
      using s d(5) rc m by auto
    have "len \<le> 2 ^ Suc m" "10 * len \<le> 7 * 2 ^ Suc m + 10" using b(1,3) m by simp_all
    then show ?thesis using rehash_to[OF ok nl] dbl[of m] Shrink by auto
  qed (use op in simp)
qed

lemma rehash_op_skip:
  "rehash_op_new (length (ba_buckets arr) div 2) (ba_tombstone_count arr) len = Skip \<Longrightarrow> has_room len arr"
  "has_room len arr \<Longrightarrow> ba_tombstone_count arr = 0 \<Longrightarrow> rehash_op_new (length (ba_buckets arr) div 2) (ba_tombstone_count arr) len = Skip"
  "ba_tombstone_count arr = 0 \<Longrightarrow> rehash_op_new (length (ba_buckets arr) div 2) (ba_tombstone_count arr) len \<in> {Skip, Expand}"
  by (auto simp: rehash_op_new_def Let_def has_room_def real_cap_def split: if_splits)

text \<open>The inner loop ends, after two rehashes at most, with an array that has room for an entry.\<close>

lemma rehash_until_skip_ok:
  assumes ok: "load_ok H len arr"
  shows "\<exists>arr'. rehash_until_skip H len arr = Some arr' \<and> load_ok H len arr' \<and> has_room len arr' \<and>
    bucket_map H (ba_buckets arr') = bucket_map H (ba_buckets arr)"
proof -
  let ?op = "\<lambda>a. rehash_op_new (length (ba_buckets a) div 2) (ba_tombstone_count a) len"
  have skip: "rehash_until_skip H len a = Some a \<and> has_room len a" if "load_ok H len a" "?op a = Skip" for a
    using that load_okD(6)[of H len a] rehash_op_skip(1)[of a len]
    by (simp add: rehash_until_skip.simps[of H len a] is_skip_def)
  have one: "\<exists>a'. rehash_until_skip H len a = rehash_until_skip H len a' \<and> load_ok H len a' \<and> ba_tombstone_count a' = 0 \<and>
      bucket_map H (ba_buckets a') = bucket_map H (ba_buckets a) \<and> (?op a = Expand \<longrightarrow> ?op a' = Skip)"
    if a: "load_ok H len a" "?op a \<noteq> Skip" for a
  proof -
    obtain a' where r: "rehash H (?op a) a = Some a'" "load_ok H len a'" "ba_tombstone_count a' = 0"
      "bucket_map H (ba_buckets a') = bucket_map H (ba_buckets a)" "?op a = Expand \<longrightarrow> has_room len a'"
      using rehash_chosen[OF a(1) refl a(2)] by blast
    then have "rehash_until_skip H len a = rehash_until_skip H len a'"
      using a load_okD(6)[of H len a] by (simp add: rehash_until_skip.simps[of H len a] is_skip_def)
    with r rehash_op_skip(2)[of len a'] show ?thesis by blast
  qed
  have two: "\<exists>arr'. rehash_until_skip H len a = Some arr' \<and> load_ok H len arr' \<and> has_room len arr' \<and>
      bucket_map H (ba_buckets arr') = bucket_map H (ba_buckets a)"
    if "load_ok H len a" "ba_tombstone_count a = 0" for a
    using skip one[of a] rehash_op_skip(3)[of a len] that by (metis insertE singletonD)
  show ?thesis using two one[of arr] skip ok by (metis (no_types, lifting))
qed

section \<open>Operations on an array with room\<close>

lemma room_slot:
  assumes ok: "load_ok H len arr" and room: "has_room len arr"
  shows "\<exists>i. slot (ba_buckets arr) key (probe (length (ba_buckets arr)) h) = Some i"
proof (rule slot_exists)
  note d = load_okD[OF ok]
  show "slots_ok H (ba_buckets arr)" by (rule d(1))
  obtain n where n: "length (ba_buckets arr) = 2 ^ n" using slots_okD(1)[OF d(1)] by blast
  have rc: "real_cap arr \<le> length (ba_buckets arr)" by (simp add: real_cap_def)
  have pos: "0 < length (ba_buckets arr)" using n by simp
  have "len + ba_tombstone_count arr < length (ba_buckets arr)"
    using room pos rc unfolding has_room_def by linarith
  with d(2,3) show "live_count (ba_buckets arr) + tombstones (ba_buckets arr) < length (ba_buckets arr)" by simp
qed

text \<open>What a write into the slot of the key makes of the array.\<close>

lemma load_ok_write:
  assumes ok: "load_ok H len arr" and room: "has_room len arr"
    and i: "slot (ba_buckets arr) key (probe (length (ba_buckets arr)) (H key)) = Some i"
  defines "p \<equiv> ba_buckets arr ! i" and "put \<equiv> \<lambda>q. (ba_buckets arr)[i := q]"
  shows "is_live p \<Longrightarrow> load_ok H len (arr\<lparr>ba_buckets := put (Ptr a key v False b)\<rparr>)"
    and "\<not> is_live p \<Longrightarrow> load_ok H (len + 1) (arr\<lparr>ba_buckets := put (Ptr a key v False b)\<rparr>)"
    and "is_live p \<Longrightarrow> load_ok H (fetch_sub_one len) (arr\<lparr>ba_buckets := put (Ptr a key v True b), ba_tombstone_count := ba_tombstone_count arr + 1\<rparr>)"
    and "bucket_map H (put (Ptr a key v t b)) = (bucket_map H (ba_buckets arr))(key := if t then None else Some v)"
proof -
  note d = load_okD[OF ok]
  have il: "i < length (ba_buckets arr)" by (rule slots_okD(4)[OF d(1) i])
  note u = slots_ok_upd[OF d(1) i] and l = live_count_upd[OF il] and c = tombstones_upd[OF il]
  have nt: "is_live p \<Longrightarrow> \<not> is_tombstone p" by (cases p) simp_all
  show "bucket_map H (put (Ptr a key v t b)) = (bucket_map H (ba_buckets arr))(key := if t then None else Some v)"
    using u(2) by (simp add: put_def)
  have l1: "live_count (put (Ptr a key v False b)) = (if is_live p then len else len + 1)"
    using l[of "Ptr a key v False b"] d(3) by (simp add: put_def p_def split: if_splits)
  have c1: "tombstones (put (Ptr a key v False b)) \<le> ba_tombstone_count arr"
    using c[of "Ptr a key v False b"] d(2) by (simp add: put_def split: if_splits)
  have rc: "real_cap (arr\<lparr>ba_buckets := put q\<rparr>) = real_cap arr" for q by (simp add: real_cap_def put_def)
  show "load_ok H len (arr\<lparr>ba_buckets := put (Ptr a key v False b)\<rparr>)" if "is_live p"
    using that l1 c1 d(4,5) u(1) by (simp add: load_ok_def rc) (simp add: put_def)
  show "load_ok H (len + 1) (arr\<lparr>ba_buckets := put (Ptr a key v False b)\<rparr>)" if "\<not> is_live p"
    using that l1 c1 d(5) u(1) room by (simp add: load_ok_def rc has_room_def) (simp add: put_def)
  show "load_ok H (fetch_sub_one len) (arr\<lparr>ba_buckets := put (Ptr a key v True b), ba_tombstone_count := ba_tombstone_count arr + 1\<rparr>)"
    if live: "is_live p"
  proof -
    let ?bs = "put (Ptr a key v True b)"
    have l2: "live_count ?bs + 1 = len"
      using l[of "Ptr a key v True b"] d(3) live by (simp add: put_def p_def)
    have c2: "tombstones ?bs \<le> ba_tombstone_count arr + 1"
      using c[of "Ptr a key v True b"] d(2) live nt by (simp add: put_def p_def)
    have "0 < real_cap arr" using room l2 unfolding has_room_def by linarith
    then show ?thesis using l2 c2 room d(4) u(1)[of a v True b]
      by (simp add: load_ok_def real_cap_def put_def fetch_sub_one_def has_room_def) linarith
  qed
qed

section \<open>A segment implements a map\<close>

definition seg_ok :: "('k \<Rightarrow> u64) \<Rightarrow> ('k, 'v) segment \<Rightarrow> bool" where
  "seg_ok H s \<longleftrightarrow> (case seg_array s of None \<Rightarrow> seg_len s = 0 | Some arr \<Rightarrow> load_ok H (seg_len s) arr)"

definition seg_map :: "('k \<Rightarrow> u64) \<Rightarrow> ('k, 'v) segment \<Rightarrow> 'k \<rightharpoonup> 'v" where
  "seg_map H s = (case seg_array s of None \<Rightarrow> Map.empty | Some arr \<Rightarrow> bucket_map H (ba_buckets arr))"

lemma load_ok_new:
  "with_length e (2 ^ n) = Some \<lparr>ba_buckets = replicate (2 ^ n) Null, ba_epoch = e, ba_tombstone_count = 0\<rparr>"
  "load_ok H 0 \<lparr>ba_buckets = replicate (2 ^ n) Null, ba_epoch = e, ba_tombstone_count = 0\<rparr>"
  by (simp_all add: with_length_def load_ok_def slots_ok_empty)

lemma ref_get_ok:
  assumes "seg_ok H s"
  shows "\<exists>arr. ref_get s = Some arr \<and> load_ok H (seg_len s) arr \<and> bucket_map H (ba_buckets arr) = seg_map H s"
proof (cases "seg_array s")
  case None
  then show ?thesis using assms
    by (simp add: ref_get_def bucket_array_default_def BUCKET_ARRAY_DEFAULT_LENGTH_def seg_ok_def seg_map_def
      load_ok_new(1)[of 0 7, simplified] load_ok_new(2)[of H 7 0, simplified] slots_ok_empty(2)[of H 7, simplified])
qed (use assms in \<open>simp add: ref_get_def seg_ok_def seg_map_def\<close>)

lemma load_ok_get:
  assumes "load_ok H len arr"
  shows "ba_get arr (H key) ((=) key) =
    Inr (case slot (ba_buckets arr) key (probe (length (ba_buckets arr)) (H key)) of
           None \<Rightarrow> Null | Some i \<Rightarrow> if is_live (ba_buckets arr ! i) then ba_buckets arr ! i else Null)"
  using slots_okD(2,4)[OF load_okD(1)[OF assms]]
  by (auto simp: ba_get_def slot_probe split: option.split bucket_ptr.split)

lemma get_key_value_ok:
  assumes ok: "seg_ok H s"
  shows "\<exists>s'. ref_get_key_value_and_then H s (H key) ((=) key) f =
      Some (s', case seg_map H s key of None \<Rightarrow> None | Some v \<Rightarrow> f key v) \<and>
    seg_ok H s' \<and> seg_map H s' = seg_map H s \<and> seg_len s' = seg_len s"
proof -
  obtain arr where a: "ref_get s = Some arr" "load_ok H (seg_len s) arr" "bucket_map H (ba_buckets arr) = seg_map H s"
    using ref_get_ok[OF ok] by blast
  note g = load_ok_get[OF a(2), of key]
  have "seg_map H s key = (case ba_get arr (H key) ((=) key) of Inr (Ptr a k v t b) \<Rightarrow> Some v | _ \<Rightarrow> None)"
    unfolding g a(3)[symmetric] by (auto simp: bucket_map_def split: option.split bucket_ptr.split)
  moreover have "ba_get arr (H key) ((=) key) = Inr (Ptr a' k v t b) \<Longrightarrow> k = key" for a' k v t b
    unfolding g using slot_Some(2)[of "ba_buckets arr" key] by (fastforce split: option.splits if_splits)
  ultimately show ?thesis using a g
    by (auto simp: ref_get_key_value_and_then_def get_loop.simps[of H "H key" "(=) key" arr] seg_ok_def seg_map_def
      split: bucket_ptr.splits)
qed

text \<open>All operations that write start alike: they rehash until the array has room, and the key has a slot.\<close>

lemma write_start:
  assumes ok: "seg_ok H s"
  obtains arr arr' i where "ref_get s = Some arr" "rehash_until_skip H (seg_len s) arr = Some arr'"
    "load_ok H (seg_len s) arr'" "has_room (seg_len s) arr'" "bucket_map H (ba_buckets arr') = seg_map H s"
    "slot (ba_buckets arr') key (probe (length (ba_buckets arr')) (H key)) = Some i" "ba_buckets arr' ! i \<noteq> Sentinel"
proof -
  obtain arr where a: "ref_get s = Some arr" "load_ok H (seg_len s) arr" "bucket_map H (ba_buckets arr) = seg_map H s"
    using ref_get_ok[OF ok] by blast
  obtain arr' where r: "rehash_until_skip H (seg_len s) arr = Some arr'" "load_ok H (seg_len s) arr'"
    "has_room (seg_len s) arr'" "bucket_map H (ba_buckets arr') = bucket_map H (ba_buckets arr)"
    using rehash_until_skip_ok[OF a(2)] by blast
  obtain i where i: "slot (ba_buckets arr') key (probe (length (ba_buckets arr')) (H key)) = Some i"
    using room_slot[OF r(2,3)] by blast
  note d = slots_okD[OF load_okD(1)[OF r(2)]]
  show ?thesis using that[OF a(1) r(1,2,3) _ i d(2)[OF d(4)[OF i]]] r(4) a(3) by simp
qed

lemma slot_map:
  assumes "slot (ba_buckets arr) key (probe (length (ba_buckets arr)) (H key)) = Some i"
  shows "bucket_map H (ba_buckets arr) key = (case ba_buckets arr ! i of Ptr a k v t b \<Rightarrow> if t then None else Some v | _ \<Rightarrow> None)"
    "ba_buckets arr ! i = Ptr a k v t b \<Longrightarrow> k = key"
  using assms slot_Some(2)[OF assms] by (auto simp: bucket_map_def)

lemma remove_entry_if_ok:
  assumes ok: "seg_ok H s"
  shows "\<exists>s'. ref_remove_entry_if_and H s (H key) ((=) key) cond f =
      Some (s', case seg_map H s key of Some v \<Rightarrow> if cond key v then Some (f key v) else None | None \<Rightarrow> None) \<and>
    seg_ok H s' \<and>
    seg_map H s' = (case seg_map H s key of
        Some v \<Rightarrow> if cond key v then (seg_map H s)(key := None) else seg_map H s
      | None \<Rightarrow> seg_map H s)"
proof -
  obtain arr arr' i where w: "ref_get s = Some arr" "rehash_until_skip H (seg_len s) arr = Some arr'"
    "load_ok H (seg_len s) arr'" "has_room (seg_len s) arr'" "bucket_map H (ba_buckets arr') = seg_map H s"
    "slot (ba_buckets arr') key (probe (length (ba_buckets arr')) (H key)) = Some i" "ba_buckets arr' ! i \<noteq> Sentinel"
    using write_start[OF ok] .
  note m = slot_map[where H = H, OF w(6)] and l = load_ok_write[OF w(3,4,6)]
  show ?thesis
  proof (cases "ba_buckets arr' ! i")
    case (Ptr a k v t b)
    then have [simp]: "k = key" using m(2) by simp
    show ?thesis using w Ptr m(1) l(3,4)
      by (auto simp: ref_remove_entry_if_and_def remove_loop.simps[of H "seg_len s" "H key" "(=) key" cond arr]
        ba_remove_if_def slot_probe seg_ok_def seg_map_def)
  qed (use w m in \<open>simp_all add: ref_remove_entry_if_and_def remove_loop.simps[of H "seg_len s" "H key" "(=) key" cond arr]
        ba_remove_if_def slot_probe seg_ok_def seg_map_def\<close>)
qed

lemma insert_if_not_present_ok:
  assumes ok: "seg_ok H s"
  shows "\<exists>s'. ref_insert_if_not_present_and H s key (H key) on_insert f a =
      Some (s', case seg_map H s key of Some v \<Rightarrow> Some (f key v) | None \<Rightarrow> None) \<and>
    seg_ok H s' \<and>
    seg_map H s' = (case seg_map H s key of Some v \<Rightarrow> seg_map H s | None \<Rightarrow> (seg_map H s)(key \<mapsto> on_insert ()))"
proof -
  obtain arr arr' i where w: "ref_get s = Some arr" "rehash_until_skip H (seg_len s) arr = Some arr'"
    "load_ok H (seg_len s) arr'" "has_room (seg_len s) arr'" "bucket_map H (ba_buckets arr') = seg_map H s"
    "slot (ba_buckets arr') key (probe (length (ba_buckets arr')) (H key)) = Some i" "ba_buckets arr' ! i \<noteq> Sentinel"
    using write_start[OF ok] .
  note m = slot_map[where H = H, OF w(6)] and l = load_ok_write[OF w(3,4,6)]
  show ?thesis
  proof (cases "ba_buckets arr' ! i")
    case (Ptr a k v t b)
    then have [simp]: "k = key" using m(2) by simp
    show ?thesis using w Ptr m(1) l(2,4)
      by (auto simp: ref_insert_if_not_present_and_def insert_new_loop.simps[of H "seg_len s" "H key" key "on_insert ()" _ arr]
        ba_insert_if_not_present_def slot_probe seg_ok_def seg_map_def)
  qed (use w m l(2,4) in \<open>auto simp: ref_insert_if_not_present_and_def
        insert_new_loop.simps[of H "seg_len s" "H key" key "on_insert ()" _ arr]
        ba_insert_if_not_present_def slot_probe seg_ok_def seg_map_def\<close>)
qed

lemma insert_with_or_modify_ok:
  assumes ok: "seg_ok H s"
  shows "\<exists>s'. ref_insert_with_or_modify_entry_and H s key (H key) on_insert on_modify f a =
      Some (s', case seg_map H s key of Some v \<Rightarrow> Some (f key v) | None \<Rightarrow> None) \<and>
    seg_ok H s' \<and>
    seg_map H s' = (seg_map H s)(key \<mapsto> case seg_map H s key of Some v \<Rightarrow> on_modify key v | None \<Rightarrow> on_insert ())"
proof -
  obtain arr arr' i where w: "ref_get s = Some arr" "rehash_until_skip H (seg_len s) arr = Some arr'"
    "load_ok H (seg_len s) arr'" "has_room (seg_len s) arr'" "bucket_map H (ba_buckets arr') = seg_map H s"
    "slot (ba_buckets arr') key (probe (length (ba_buckets arr')) (H key)) = Some i" "ba_buckets arr' ! i \<noteq> Sentinel"
    using write_start[OF ok] .
  note m = slot_map[where H = H, OF w(6)] and l = load_ok_write[OF w(3,4,6)]
  show ?thesis
  proof (cases "ba_buckets arr' ! i")
    case (Ptr a k v t b)
    then have [simp]: "k = key" using m(2) by simp
    show ?thesis using w Ptr m(1) l(1,2,4)
      by (auto simp: ref_insert_with_or_modify_entry_and_def insert_modify_loop.simps[of H "seg_len s" "H key" key "on_insert ()" on_modify _ arr]
        ba_insert_or_modify_def slot_probe seg_ok_def seg_map_def)
  qed (use w m l(2,4) in \<open>auto simp: ref_insert_with_or_modify_entry_and_def
        insert_modify_loop.simps[of H "seg_len s" "H key" key "on_insert ()" on_modify _ arr]
        ba_insert_or_modify_def slot_probe seg_ok_def seg_map_def\<close>)
qed

text \<open>\<open>keys\<close> lists every key of the segment once, and the length counts them.\<close>

lemma keys_loop_ok:
  "Sentinel \<notin> set ps \<Longrightarrow> \<exists>ks. keys_loop f ps = Inr (map f ks) \<and> set ks = {k. \<exists>a v b. Ptr a k v False b \<in> set ps} \<and> length ks = live_count ps"
proof (induction ps)
  case (Cons p ps)
  then obtain ks where ks: "keys_loop f ps = Inr (map f ks)" "set ks = {k. \<exists>a v b. Ptr a k v False b \<in> set ps}" "length ks = live_count ps"
    by auto
  show ?case
  proof (cases "is_live p")
    case True
    then obtain a k v b where "p = Ptr a k v False b" by (cases p) auto
    with ks show ?thesis by (intro exI[of _ "k # ks"]) (auto simp: live_count_def)
  next
    case False
    with ks Cons.prems show ?thesis by (intro exI[of _ ks]) (cases p; auto simp: live_count_def)
  qed
qed (simp add: live_count_def)

lemma seg_len_card:
  assumes "seg_ok H s"
  shows "seg_len s = card (dom (seg_map H s))" "finite (dom (seg_map H s))"
proof -
  have "seg_len s = card (dom (seg_map H s)) \<and> finite (dom (seg_map H s))"
  proof (cases "seg_array s")
    case (Some arr)
    with assms have "load_ok H (seg_len s) arr" by (simp add: seg_ok_def)
    note d = load_okD(1,3)[OF this]
    show ?thesis using Some live_count_dom[OF d(1)] d(2) by (simp add: seg_map_def)
  qed (use assms in \<open>simp add: seg_ok_def seg_map_def\<close>)
  then show "seg_len s = card (dom (seg_map H s))" "finite (dom (seg_map H s))" by simp_all
qed

lemma ref_keys_ok:
  assumes ok: "seg_ok H s"
  shows "\<exists>s' ks. ref_keys H s f = Some (s', map f ks) \<and> distinct ks \<and> set ks = dom (seg_map H s) \<and>
    seg_ok H s' \<and> seg_map H s' = seg_map H s \<and> seg_len s' = seg_len s"
proof -
  obtain arr where a: "ref_get s = Some arr" "load_ok H (seg_len s) arr" "bucket_map H (ba_buckets arr) = seg_map H s"
    using ref_get_ok[OF ok] by blast
  note so = load_okD(1)[OF a(2)]
  have "Sentinel \<notin> set (ba_buckets arr)" using so by (simp add: slots_ok_def)
  from keys_loop_ok[OF this, of f] obtain ks where
    ks: "ba_keys f arr = Inr (map f ks)" "set ks = {k. \<exists>a v b. Ptr a k v False b \<in> set (ba_buckets arr)}"
      "length ks = live_count (ba_buckets arr)"
    by (auto simp: ba_keys_def)
  have dom: "set ks = dom (seg_map H s)"
    unfolding ks(2) a(3)[symmetric] dom_def using bucket_map_iff[OF so] by (auto simp: in_set_conv_nth; metis)
  then have "card (set ks) = length ks" using live_count_dom(1)[OF so] ks(3) a(3) by simp
  then have "distinct ks" by (rule card_distinct)
  with dom ks a ok show ?thesis
    by (auto simp: ref_keys_def keys_rehash_loop.simps[of H f arr] seg_ok_def seg_map_def)
qed

section \<open>The segment provides the interface of a table\<close>

fun seg_exec ::
  "('k \<Rightarrow> u64) \<Rightarrow> nat \<Rightarrow> ('k, 'v) segment \<Rightarrow> ('k, 'v) table_call \<Rightarrow> (('k, 'v) segment \<times> 'v option) option" where
  "seg_exec H a s (Lookup k) = ref_get_key_value_and_then H s (H k) ((=) k) (\<lambda>_ v. Some v)"
| "seg_exec H a s (Upsert k ins modify) = ref_insert_with_or_modify_entry_and H s k (H k) ins modify (\<lambda>_ v. v) a"
| "seg_exec H a s (InsertNew k v) = ref_insert_if_not_present_and H s k (H k) (\<lambda>_. v) (\<lambda>_ v. v) a"
| "seg_exec H a s (RemoveIf k cond) = ref_remove_entry_if_and H s (H k) ((=) k) cond (\<lambda>_ v. v)"

lemma case_option_id: "(case x of None \<Rightarrow> None | Some v \<Rightarrow> Some v) = x"
  by (cases x) simp_all

interpretation seg_table: kv_table "seg_ok H" "seg_map H" "seg_exec H a" for H :: "'k \<Rightarrow> u64" and a
proof
  fix s :: "('k, 'v) segment" and c assume ok: "seg_ok H s"
  show "\<exists>s'. seg_exec H a s c = Some (s', map_answer (seg_map H s) c) \<and> seg_ok H s' \<and> seg_map H s' = map_call (seg_map H s) c"
  proof (cases c)
    case (Lookup k)
    then show ?thesis using get_key_value_ok[OF ok, of k "\<lambda>_ v. Some v"] by (auto simp: case_option_id)
  next
    case (Upsert k ins modify)
    then show ?thesis using insert_with_or_modify_ok[OF ok, of k ins modify "\<lambda>_ v. v" a] by (auto simp: case_option_id)
  next
    case (InsertNew k v)
    then show ?thesis using insert_if_not_present_ok[OF ok, of k "\<lambda>_. v" "\<lambda>_ v. v" a] by (auto simp: case_option_id)
  next
    case (RemoveIf k cond)
    then show ?thesis using remove_entry_if_ok[OF ok, of k cond "\<lambda>_ v. v"] by auto
  qed
qed

end
