(* ===== verification/Cht_Map.thy ===== *)
theory Cht_Map
  imports Cht_Segment
begin

text \<open>
  The segmented hash map (\<open>HashMap\<close> of \<open>src/src/cht/segment.rs\<close>), the table of the cache, of the
  waiters, of the predicates and of the key locks. The most significant bits of a hash choose the segment.
  The hasher is a parameter; callers pass \<open>hash\<close> of the key and an equality test. \<open>hm_addr\<close> is
  the address that the next allocation of a bucket returns.
\<close>

section \<open>State and operations\<close>

record ('k, 'v) hash_map =
  hm_segments :: "('k, 'v) segment list"
  hm_len :: nat
  hm_segment_shift :: nat
  hm_addr :: nat

fun trailing_zeros_usize :: "nat \<Rightarrow> nat" where
  "trailing_zeros_usize n = (if n = 0 then 64 else if odd n then 0 else Suc (trailing_zeros_usize (n div 2)))"

declare trailing_zeros_usize.simps [simp del]

text \<open>Rust's \<open>usize::next_power_of_two\<close> panics on overflow (with overflow checks).\<close>

definition next_power_of_two_usize :: "nat \<Rightarrow> nat or_panic" where
  "next_power_of_two_usize n = (if n \<le> 2 ^ 63 then Some (next_power_of_two n) else None)"

definition usize_double :: "nat \<Rightarrow> nat or_panic" where
  "usize_double n = (if n * 2 < 2 ^ 64 then Some (n * 2) else None)"

definition with_num_segments_capacity_and_hasher :: "nat \<Rightarrow> nat \<Rightarrow> ('k, 'v) hash_map or_panic" where
  "with_num_segments_capacity_and_hasher num_segments capacity =
     (if num_segments = 0 then None
      else do {
        actual_num_segments \<leftarrow> next_power_of_two_usize num_segments;
        let segment_shift = 64 - trailing_zeros_usize actual_num_segments;
        arr \<leftarrow> (if capacity = 0 then Some None
                else do { twice \<leftarrow> usize_double capacity;
                          actual_capacity \<leftarrow> next_power_of_two_usize (twice div actual_num_segments);
                          arr \<leftarrow> with_length 0 actual_capacity;
                          Some (Some arr) });
        Some \<lparr>hm_segments = replicate actual_num_segments \<lparr>seg_array = arr, seg_len = 0\<rparr>,
              hm_len = 0, hm_segment_shift = segment_shift, hm_addr = 0\<rparr> })"

definition with_num_segments_and_hasher :: "nat \<Rightarrow> ('k, 'v) hash_map or_panic" where
  "with_num_segments_and_hasher num_segments = with_num_segments_capacity_and_hasher num_segments 0"

definition actual_num_segments :: "('k, 'v) hash_map \<Rightarrow> nat" where
  "actual_num_segments h = length (hm_segments h)"

definition hm_is_empty :: "('k, 'v) hash_map \<Rightarrow> bool" where
  "hm_is_empty h \<longleftrightarrow> hm_len h = 0"

fun capacity_loop :: "('k, 'v) segment list \<Rightarrow> nat or_panic" where
  "capacity_loop [] = Some 0"
| "capacity_loop (s # ss) =
     do { c \<leftarrow> (case seg_array s of None \<Rightarrow> Some 0 | Some arr \<Rightarrow> ba_capacity arr);
          rest \<leftarrow> capacity_loop ss;
          Some (c + rest) }"

definition hm_capacity :: "('k, 'v) hash_map \<Rightarrow> nat or_panic" where
  "hm_capacity h = capacity_loop (hm_segments h)"

definition segment_index_from_hash :: "('k, 'v) hash_map \<Rightarrow> u64 \<Rightarrow> nat" where
  "segment_index_from_hash h hash =
     (if hm_segment_shift h = 64 then 0 else unat (drop_bit (hm_segment_shift h) hash))"

text \<open>\<open>self.bucket_array_ref(hash)\<close> with an operation of the segment; an index out of range panics.\<close>

definition bucket_array_ref ::
  "('k, 'v) hash_map \<Rightarrow> u64 \<Rightarrow> (('k, 'v) segment \<Rightarrow> (('k, 'v) segment \<times> 'a) option) \<Rightarrow>
    (('k, 'v) hash_map \<times> 'a) option" where
  "bucket_array_ref h hash op =
     (let i = segment_index_from_hash h hash
      in if i < length (hm_segments h)
         then do { (s, r) \<leftarrow> op (hm_segments h ! i); Some (h\<lparr>hm_segments := (hm_segments h)[i := s]\<rparr>, r) }
         else None)"

definition hm_get_key_value_and_then ::
  "('k \<Rightarrow> u64) \<Rightarrow> ('k, 'v) hash_map \<Rightarrow> u64 \<Rightarrow> ('k \<Rightarrow> bool) \<Rightarrow> ('k \<Rightarrow> 'v \<Rightarrow> 'a option) \<Rightarrow>
    (('k, 'v) hash_map \<times> 'a option) option" where
  "hm_get_key_value_and_then H h hash eq with_entry =
     bucket_array_ref h hash (\<lambda>s. ref_get_key_value_and_then H s hash eq with_entry)"

definition hm_get_key_value_and ::
  "('k \<Rightarrow> u64) \<Rightarrow> ('k, 'v) hash_map \<Rightarrow> u64 \<Rightarrow> ('k \<Rightarrow> bool) \<Rightarrow> ('k \<Rightarrow> 'v \<Rightarrow> 'a) \<Rightarrow>
    (('k, 'v) hash_map \<times> 'a option) option" where
  "hm_get_key_value_and H h hash eq with_entry = hm_get_key_value_and_then H h hash eq (\<lambda>k v. Some (with_entry k v))"

definition hm_get ::
  "('k \<Rightarrow> u64) \<Rightarrow> ('k, 'v) hash_map \<Rightarrow> u64 \<Rightarrow> ('k \<Rightarrow> bool) \<Rightarrow> (('k, 'v) hash_map \<times> 'v option) option" where
  "hm_get H h hash eq = hm_get_key_value_and H h hash eq (\<lambda>_ v. v)"

definition hm_contains_key ::
  "('k \<Rightarrow> u64) \<Rightarrow> ('k, 'v) hash_map \<Rightarrow> u64 \<Rightarrow> ('k \<Rightarrow> bool) \<Rightarrow> (('k, 'v) hash_map \<times> bool) option" where
  "hm_contains_key H h hash eq =
     do { (h', r) \<leftarrow> hm_get_key_value_and_then H h hash eq (\<lambda>_ _. Some ()); Some (h', r \<noteq> None) }"

text \<open>The tail of the operations that may insert: a result \<open>None\<close> is a new entry.\<close>

definition count_new :: "('k, 'v) hash_map \<times> 'a option \<Rightarrow> ('k, 'v) hash_map \<times> 'a option" where
  "count_new = (\<lambda>(h, r). (if r = None then h\<lparr>hm_len := hm_len h + 1\<rparr> else h, r))"

definition hm_insert_with_or_modify_entry_and ::
  "('k \<Rightarrow> u64) \<Rightarrow> ('k, 'v) hash_map \<Rightarrow> 'k \<Rightarrow> u64 \<Rightarrow> (unit \<Rightarrow> 'v) \<Rightarrow> ('k \<Rightarrow> 'v \<Rightarrow> 'v) \<Rightarrow> ('k \<Rightarrow> 'v \<Rightarrow> 'a) \<Rightarrow>
    (('k, 'v) hash_map \<times> 'a option) option" where
  "hm_insert_with_or_modify_entry_and H h key hash on_insert on_modify with_old_entry =
     do { r \<leftarrow> bucket_array_ref (h\<lparr>hm_addr := hm_addr h + 1\<rparr>) hash
                 (\<lambda>s. ref_insert_with_or_modify_entry_and H s key hash on_insert on_modify with_old_entry (hm_addr h));
          Some (count_new r) }"

definition hm_insert_with_or_modify ::
  "('k \<Rightarrow> u64) \<Rightarrow> ('k, 'v) hash_map \<Rightarrow> 'k \<Rightarrow> u64 \<Rightarrow> (unit \<Rightarrow> 'v) \<Rightarrow> ('k \<Rightarrow> 'v \<Rightarrow> 'v) \<Rightarrow>
    (('k, 'v) hash_map \<times> 'v option) option" where
  "hm_insert_with_or_modify H h key hash on_insert on_modify =
     hm_insert_with_or_modify_entry_and H h key hash on_insert on_modify (\<lambda>_ v. v)"

definition hm_insert_entry_and ::
  "('k \<Rightarrow> u64) \<Rightarrow> ('k, 'v) hash_map \<Rightarrow> 'k \<Rightarrow> u64 \<Rightarrow> 'v \<Rightarrow> ('k \<Rightarrow> 'v \<Rightarrow> 'a) \<Rightarrow> (('k, 'v) hash_map \<times> 'a option) option" where
  "hm_insert_entry_and H h key hash value with_previous_entry =
     do { r \<leftarrow> bucket_array_ref (h\<lparr>hm_addr := hm_addr h + 1\<rparr>) hash
                 (\<lambda>s. ref_insert_with_or_modify_entry_and H s key hash (\<lambda>_. value) (\<lambda>_ v. v) with_previous_entry (hm_addr h));
          Some (count_new r) }"

definition hm_insert_if_not_present ::
  "('k \<Rightarrow> u64) \<Rightarrow> ('k, 'v) hash_map \<Rightarrow> 'k \<Rightarrow> u64 \<Rightarrow> 'v \<Rightarrow> (('k, 'v) hash_map \<times> 'v option) option" where
  "hm_insert_if_not_present H h key hash value =
     do { r \<leftarrow> bucket_array_ref (h\<lparr>hm_addr := hm_addr h + 1\<rparr>) hash
                 (\<lambda>s. ref_insert_if_not_present_and H s key hash (\<lambda>_. value) (\<lambda>_ v. v) (hm_addr h));
          Some (count_new r) }"

definition hm_remove_entry_if_and ::
  "('k \<Rightarrow> u64) \<Rightarrow> ('k, 'v) hash_map \<Rightarrow> u64 \<Rightarrow> ('k \<Rightarrow> bool) \<Rightarrow> ('k \<Rightarrow> 'v \<Rightarrow> bool) \<Rightarrow> ('k \<Rightarrow> 'v \<Rightarrow> 'a) \<Rightarrow>
    (('k, 'v) hash_map \<times> 'a option) option" where
  "hm_remove_entry_if_and H h hash eq condition with_previous_entry =
     do { (h', r) \<leftarrow> bucket_array_ref h hash (\<lambda>s. ref_remove_entry_if_and H s hash eq condition with_previous_entry);
          Some (if r = None then h' else h'\<lparr>hm_len := fetch_sub_one (hm_len h')\<rparr>, r) }"

definition hm_remove ::
  "('k \<Rightarrow> u64) \<Rightarrow> ('k, 'v) hash_map \<Rightarrow> u64 \<Rightarrow> ('k \<Rightarrow> bool) \<Rightarrow> (('k, 'v) hash_map \<times> 'v option) option" where
  "hm_remove H h hash eq = hm_remove_entry_if_and H h hash eq (\<lambda>_ _. True) (\<lambda>_ v. v)"

definition hm_remove_entry ::
  "('k \<Rightarrow> u64) \<Rightarrow> ('k, 'v) hash_map \<Rightarrow> u64 \<Rightarrow> ('k \<Rightarrow> bool) \<Rightarrow> (('k, 'v) hash_map \<times> ('k \<times> 'v) option) option" where
  "hm_remove_entry H h hash eq = hm_remove_entry_if_and H h hash eq (\<lambda>_ _. True) (\<lambda>k v. (k, v))"

definition hm_remove_if ::
  "('k \<Rightarrow> u64) \<Rightarrow> ('k, 'v) hash_map \<Rightarrow> u64 \<Rightarrow> ('k \<Rightarrow> bool) \<Rightarrow> ('k \<Rightarrow> 'v \<Rightarrow> bool) \<Rightarrow>
    (('k, 'v) hash_map \<times> 'v option) option" where
  "hm_remove_if H h hash eq condition = hm_remove_entry_if_and H h hash eq condition (\<lambda>_ v. v)"

definition hm_keys ::
  "('k \<Rightarrow> u64) \<Rightarrow> ('k, 'v) hash_map \<Rightarrow> nat \<Rightarrow> ('k \<Rightarrow> 'a) \<Rightarrow> (('k, 'v) hash_map \<times> 'a list option) option" where
  "hm_keys H h segment with_key =
     (if segment \<ge> length (hm_segments h) then Some (h, None)
      else do { (s, ks) \<leftarrow> ref_keys H (hm_segments h ! segment) with_key;
                Some (h\<lparr>hm_segments := (hm_segments h)[segment := s]\<rparr>, Some ks) })"

definition hm_scanning_get :: "('k \<Rightarrow> u64) \<Rightarrow> ('k, 'v) hash_map \<Rightarrow> 'k \<Rightarrow> (('k, 'v) hash_map \<times> 'v option) option" where
  "hm_scanning_get H h key =
     (let hash = H key in hm_get_key_value_and_then H h hash ((=) key) (\<lambda>_ v. Some v))"

section \<open>The invariant and the contents\<close>

definition hm_ok :: "('k \<Rightarrow> u64) \<Rightarrow> ('k, 'v) hash_map \<Rightarrow> bool" where
  "hm_ok H h \<longleftrightarrow> (\<exists>n \<le> 64. length (hm_segments h) = 2 ^ n \<and> hm_segment_shift h = 64 - n) \<and>
     (\<forall>i < length (hm_segments h). seg_ok H (hm_segments h ! i) \<and>
        (\<forall>k \<in> dom (seg_map H (hm_segments h ! i)). segment_index_from_hash h (H k) = i)) \<and>
     hm_len h = sum_list (map seg_len (hm_segments h))"

definition hm_map :: "('k \<Rightarrow> u64) \<Rightarrow> ('k, 'v) hash_map \<Rightarrow> 'k \<rightharpoonup> 'v" where
  "hm_map H h k = seg_map H (hm_segments h ! segment_index_from_hash h (H k)) k"

text \<open>The most significant bits of a hash are the index of one of \<open>2 ^ n\<close> segments.\<close>

lemma top_bits_less:
  fixes hash :: u64
  assumes "n \<le> 64"
  shows "unat (drop_bit (64 - n) hash) < 2 ^ n"
proof -
  have "unat hash < 2 ^ 64" using unsigned_less[of hash] by simp
  then have "unat hash < 2 ^ n * 2 ^ (64 - n)" using assms by (simp flip: power_add)
  moreover have "unat (drop_bit (64 - n) hash) = unat hash div 2 ^ (64 - n)"
    unfolding unat_drop_bit_eq by (rule drop_bit_eq_div)
  ultimately show ?thesis by (simp add: less_mult_imp_div_less)
qed

lemma segment_index_less:
  assumes "length (hm_segments h) = 2 ^ n" "hm_segment_shift h = 64 - n" "n \<le> 64"
  shows "segment_index_from_hash h hash < length (hm_segments h)"
  using top_bits_less[OF assms(3), of hash] assms by (simp add: segment_index_from_hash_def)

lemma hm_okD:
  assumes "hm_ok H h"
  shows "segment_index_from_hash h hash < length (hm_segments h)"
    "i < length (hm_segments h) \<Longrightarrow> seg_ok H (hm_segments h ! i)"
    "i < length (hm_segments h) \<Longrightarrow> k \<in> dom (seg_map H (hm_segments h ! i)) \<Longrightarrow> segment_index_from_hash h (H k) = i"
    "hm_len h = sum_list (map seg_len (hm_segments h))"
  using assms segment_index_less[of h _ hash] unfolding hm_ok_def by blast+

text \<open>Replacing the segment of a key by one that differs in this key at most.\<close>

lemma hm_replace:
  assumes ok: "hm_ok H h" and i: "i = segment_index_from_hash h (H k)"
    and s: "seg_ok H s" "seg_map H s = (seg_map H (hm_segments h ! i))(k := x)"
    and len: "l + seg_len (hm_segments h ! i) = hm_len h + seg_len s"
    and h'_def: "h' = h\<lparr>hm_segments := (hm_segments h)[i := s], hm_addr := a, hm_len := l\<rparr>"
  shows "hm_ok H h'" "hm_map H h' = (hm_map H h)(k := x)"
proof -
  note d = hm_okD[OF ok]
  have il: "i < length (hm_segments h)" using d(1) i by simp
  have ix: "segment_index_from_hash h' = segment_index_from_hash h"
    by (simp add: h'_def segment_index_from_hash_def fun_eq_iff)
  have segs: "hm_segments h' = (hm_segments h)[i := s]" by (simp add: h'_def)
  have "sum_list (map seg_len ((hm_segments h)[i := s])) + seg_len (hm_segments h ! i) = sum_list (map seg_len (hm_segments h)) + seg_len s"
    using il member_le_sum_list[of "seg_len (hm_segments h ! i)" "map seg_len (hm_segments h)"]
    by (simp add: map_update sum_list_update)
  then have "l = sum_list (map seg_len ((hm_segments h)[i := s]))" using len d(4) by simp
  moreover have "\<forall>j < length (hm_segments h). seg_ok H ((hm_segments h)[i := s] ! j) \<and>
      (\<forall>k' \<in> dom (seg_map H ((hm_segments h)[i := s] ! j)). segment_index_from_hash h (H k') = j)"
    using d(2,3) il s i by (auto simp: nth_list_update split: if_splits)
  ultimately show "hm_ok H h'" using ok unfolding hm_ok_def ix by (simp add: h'_def)
  show "hm_map H h' = (hm_map H h)(k := x)"
    using il s i by (auto simp: hm_map_def ix segs fun_eq_iff nth_list_update)
qed

text \<open>The new map is empty and keeps the invariant.\<close>

lemma trailing_zeros_usize_pow: "n < 64 \<Longrightarrow> trailing_zeros_usize (2 ^ n) = n"
  by (induction n) (simp_all add: trailing_zeros_usize.simps)

lemma with_num_segments_ok:
  assumes "0 < num_segments" "num_segments \<le> 2 ^ 63" "capacity \<le> 2 ^ 62"
  shows "\<exists>h. with_num_segments_capacity_and_hasher num_segments capacity = Some h \<and> hm_ok H h \<and> hm_map H h = Map.empty"
proof -
  obtain n where n: "next_power_of_two num_segments = 2 ^ n" using next_power_of_two_pow by blast
  have "(2 :: nat) ^ n \<le> 2 ^ 63" using next_power_of_two_least[OF assms(2)] n by simp
  then have n63: "n \<le> 63" by (rule power_le_imp_le_exp[rotated]) simp
  have new: "hm_ok H \<lparr>hm_segments = replicate (2 ^ n) s, hm_len = 0, hm_segment_shift = 64 - n, hm_addr = 0\<rparr> \<and>
      hm_map H \<lparr>hm_segments = replicate (2 ^ n) s, hm_len = 0, hm_segment_shift = 64 - n, hm_addr = 0\<rparr> = Map.empty"
    (is "hm_ok H ?h \<and> _")
    if s: "seg_ok H s" "seg_map H s = Map.empty" "seg_len s = 0" for s :: "('a, 'b) segment"
  proof
    show ok: "hm_ok H ?h" using s n63 by (auto simp: hm_ok_def sum_list_replicate intro!: exI[of _ n])
    show "hm_map H ?h = Map.empty" using hm_okD(1)[OF ok] s by (simp add: hm_map_def fun_eq_iff)
  qed
  show ?thesis
  proof (cases "capacity = 0")
    case True
    then show ?thesis using assms n n63 new[of "\<lparr>seg_array = None, seg_len = 0\<rparr>"]
      by (simp add: with_num_segments_capacity_and_hasher_def next_power_of_two_usize_def trailing_zeros_usize_pow seg_ok_def seg_map_def)
  next
    case False
    obtain m where m: "next_power_of_two (capacity * 2 div 2 ^ n) = 2 ^ m" using next_power_of_two_pow by blast
    have c: "capacity * 2 div 2 ^ n \<le> 2 ^ 63"
      by (rule order_trans[OF div_le_dividend]) (use assms(3) in simp)
    show ?thesis using False assms n n63 m c new[of "\<lparr>seg_array = Some \<lparr>ba_buckets = replicate (2 ^ m) Null, ba_epoch = 0, ba_tombstone_count = 0\<rparr>, seg_len = 0\<rparr>"]
      by (simp add: with_num_segments_capacity_and_hasher_def next_power_of_two_usize_def usize_double_def trailing_zeros_usize_pow
        seg_ok_def seg_map_def load_ok_new slots_ok_empty)
  qed
qed

section \<open>The operations\<close>

text \<open>The segment of a key before and after an operation, and the lengths.\<close>

lemma seg_len_upd:
  assumes "seg_ok H s" "seg_ok H s'" "seg_map H s' = (seg_map H s)(k := x)"
  shows "seg_len s' + (if seg_map H s k = None then 0 else 1) = seg_len s + (if x = None then 0 else 1)"
proof -
  note c = seg_len_card[OF assms(1)] seg_len_card[OF assms(2)]
  have "dom (seg_map H s') = (if x = None then dom (seg_map H s) - {k} else insert k (dom (seg_map H s)))"
    using assms(3) by simp
  moreover have "seg_map H s k \<noteq> None \<Longrightarrow> 0 < card (dom (seg_map H s))" using c(2) by (auto simp: card_gt_0_iff)
  ultimately show ?thesis using c by (auto simp: card_Diff_singleton_if card_insert_if domIff)
qed

lemma bucket_array_ref_ok:
  assumes ok: "hm_ok H h" and s: "op (hm_segments h ! segment_index_from_hash h (H key)) = Some (s, r)" "seg_ok H s"
    "seg_map H s = (seg_map H (hm_segments h ! segment_index_from_hash h (H key)))(key := x)"
  defines "h' \<equiv> h\<lparr>hm_segments := (hm_segments h)[segment_index_from_hash h (H key) := s]\<rparr>"
  shows "bucket_array_ref (h\<lparr>hm_addr := a\<rparr>) (H key) op = Some (h'\<lparr>hm_addr := a\<rparr>, r)"
    and "l + (if hm_map H h key = None then 0 else 1) = hm_len h + (if x = None then 0 else 1) \<Longrightarrow>
      hm_ok H (h'\<lparr>hm_addr := a, hm_len := l\<rparr>) \<and> hm_map H (h'\<lparr>hm_addr := a, hm_len := l\<rparr>) = (hm_map H h)(key := x)"
proof -
  let ?s = "hm_segments h ! segment_index_from_hash h (H key)"
  note d = hm_okD[OF ok]
  have ix: "segment_index_from_hash (h\<lparr>hm_addr := a\<rparr>) = segment_index_from_hash h"
    by (simp add: segment_index_from_hash_def fun_eq_iff)
  show "bucket_array_ref (h\<lparr>hm_addr := a\<rparr>) (H key) op = Some (h'\<lparr>hm_addr := a\<rparr>, r)"
    using d(1)[of "H key"] s(1) by (simp add: bucket_array_ref_def ix h'_def)
  assume l: "l + (if hm_map H h key = None then 0 else 1) = hm_len h + (if x = None then 0 else 1)"
  have "l + seg_len ?s = hm_len h + seg_len s"
    using l seg_len_upd[OF d(2)[OF d(1)] s(2,3)] by (simp add: hm_map_def split: if_splits)
  from hm_replace[OF ok refl s(2,3) this refl]
  show "hm_ok H (h'\<lparr>hm_addr := a, hm_len := l\<rparr>) \<and> hm_map H (h'\<lparr>hm_addr := a, hm_len := l\<rparr>) = (hm_map H h)(key := x)"
    unfolding h'_def by simp
qed

lemma hm_get_key_value_ok:
  assumes ok: "hm_ok H h"
  shows "\<exists>h'. hm_get_key_value_and_then H h (H key) ((=) key) f =
      Some (h', case hm_map H h key of None \<Rightarrow> None | Some v \<Rightarrow> f key v) \<and> hm_ok H h' \<and> hm_map H h' = hm_map H h"
proof -
  let ?s = "hm_segments h ! segment_index_from_hash h (H key)"
  note d = hm_okD[OF ok]
  obtain s where s: "ref_get_key_value_and_then H ?s (H key) ((=) key) f = Some (s, case seg_map H ?s key of None \<Rightarrow> None | Some v \<Rightarrow> f key v)"
    "seg_ok H s" "seg_map H s = seg_map H ?s"
    using get_key_value_ok[OF d(2)[OF d(1)]] by blast
  have "seg_map H s = (seg_map H ?s)(key := hm_map H h key)" using s(3) by (simp add: hm_map_def)
  note b = bucket_array_ref_ok[where key = key and a = "hm_addr h" and op = "\<lambda>s. ref_get_key_value_and_then H s (H key) ((=) key) f", OF ok s(1,2) this]
  from b(2)[of "hm_len h"] b(1) show ?thesis by (simp add: hm_get_key_value_and_then_def flip: hm_map_def)
qed

lemma hm_upsert_ok:
  assumes ok: "hm_ok H h"
  shows "\<exists>h'. hm_insert_with_or_modify_entry_and H h key (H key) on_insert on_modify f =
      Some (h', case hm_map H h key of Some v \<Rightarrow> Some (f key v) | None \<Rightarrow> None) \<and> hm_ok H h' \<and>
    hm_map H h' = (hm_map H h)(key \<mapsto> case hm_map H h key of Some v \<Rightarrow> on_modify key v | None \<Rightarrow> on_insert ())"
proof -
  let ?s = "hm_segments h ! segment_index_from_hash h (H key)"
  note d = hm_okD[OF ok]
  obtain s where s: "ref_insert_with_or_modify_entry_and H ?s key (H key) on_insert on_modify f (hm_addr h) =
      Some (s, case seg_map H ?s key of Some v \<Rightarrow> Some (f key v) | None \<Rightarrow> None)"
    "seg_ok H s" "seg_map H s = (seg_map H ?s)(key \<mapsto> case seg_map H ?s key of Some v \<Rightarrow> on_modify key v | None \<Rightarrow> on_insert ())"
    using insert_with_or_modify_ok[OF d(2)[OF d(1)]] by blast
  note b = bucket_array_ref_ok[where key = key and a = "hm_addr h + 1" and
      op = "\<lambda>s. ref_insert_with_or_modify_entry_and H s key (H key) on_insert on_modify f (hm_addr h)", OF ok s]
  from b(2)[of "if hm_map H h key = None then hm_len h + 1 else hm_len h"] b(1) show ?thesis
    by (cases "hm_map H h key") (simp_all add: hm_insert_with_or_modify_entry_and_def count_new_def flip: hm_map_def)
qed

lemma hm_insert_if_not_present_ok:
  assumes ok: "hm_ok H h"
  shows "\<exists>h'. hm_insert_if_not_present H h key (H key) v = Some (h', hm_map H h key) \<and> hm_ok H h' \<and>
    hm_map H h' = (case hm_map H h key of Some _ \<Rightarrow> hm_map H h | None \<Rightarrow> (hm_map H h)(key \<mapsto> v))"
proof -
  let ?s = "hm_segments h ! segment_index_from_hash h (H key)"
  note d = hm_okD[OF ok]
  obtain s where s: "ref_insert_if_not_present_and H ?s key (H key) (\<lambda>_. v) (\<lambda>_ v. v) (hm_addr h) = Some (s, seg_map H ?s key)"
    "seg_ok H s" "seg_map H s = (case seg_map H ?s key of Some _ \<Rightarrow> seg_map H ?s | None \<Rightarrow> (seg_map H ?s)(key \<mapsto> v))"
    using insert_if_not_present_ok[OF d(2)[OF d(1)], of "H key" key "\<lambda>_. v" "\<lambda>_ v. v" "hm_addr h"] by (auto simp: case_option_id)
  have "seg_map H s = (seg_map H ?s)(key := Some (case hm_map H h key of Some v' \<Rightarrow> v' | None \<Rightarrow> v))"
    using s(3) by (auto simp: hm_map_def fun_eq_iff split: option.splits)
  note b = bucket_array_ref_ok[where key = key and a = "hm_addr h + 1" and
      op = "\<lambda>s. ref_insert_if_not_present_and H s key (H key) (\<lambda>_. v) (\<lambda>_ v. v) (hm_addr h)", OF ok s(1,2) this]
  from b(2)[of "if hm_map H h key = None then hm_len h + 1 else hm_len h"] b(1) show ?thesis
    by (cases "hm_map H h key") (simp_all add: hm_insert_if_not_present_def count_new_def map_upd_triv flip: hm_map_def)
qed

lemma hm_remove_entry_if_ok:
  assumes ok: "hm_ok H h"
  shows "\<exists>h'. hm_remove_entry_if_and H h (H key) ((=) key) cond f =
      Some (h', case hm_map H h key of Some v \<Rightarrow> if cond key v then Some (f key v) else None | None \<Rightarrow> None) \<and> hm_ok H h' \<and>
    hm_map H h' = (case hm_map H h key of Some v \<Rightarrow> if cond key v then (hm_map H h)(key := None) else hm_map H h | None \<Rightarrow> hm_map H h)"
proof -
  let ?s = "hm_segments h ! segment_index_from_hash h (H key)"
  let ?x = "case hm_map H h key of Some v \<Rightarrow> if cond key v then None else Some v | None \<Rightarrow> None"
  note d = hm_okD[OF ok]
  obtain s where s: "ref_remove_entry_if_and H ?s (H key) ((=) key) cond f =
      Some (s, case seg_map H ?s key of Some v \<Rightarrow> if cond key v then Some (f key v) else None | None \<Rightarrow> None)"
    "seg_ok H s" "seg_map H s = (case seg_map H ?s key of Some v \<Rightarrow> if cond key v then (seg_map H ?s)(key := None) else seg_map H ?s | None \<Rightarrow> seg_map H ?s)"
    using remove_entry_if_ok[OF d(2)[OF d(1)]] by blast
  have "seg_map H s = (seg_map H ?s)(key := ?x)"
    using s(3) by (auto simp: hm_map_def fun_eq_iff split: option.splits)
  note b = bucket_array_ref_ok[where key = key and a = "hm_addr h" and
      op = "\<lambda>s. ref_remove_entry_if_and H s (H key) ((=) key) cond f", OF ok s(1,2) this]
  have pos: "0 < hm_len h" if "hm_map H h key = Some v" for v
  proof -
    have "0 < seg_len ?s" using that seg_len_card[OF d(2)[OF d(1)]] by (auto simp: hm_map_def card_gt_0_iff)
    then show ?thesis using member_le_sum_list[of "seg_len ?s" "map seg_len (hm_segments h)"] d(1,4) by simp
  qed
  show ?thesis
  proof (cases "\<exists>v. hm_map H h key = Some v \<and> cond key v")
    case True
    then obtain v where v: "hm_map H h key = Some v" "cond key v" by blast
    from b(2)[of "hm_len h - 1"] b(1) v pos[OF v(1)] show ?thesis
      by (simp add: hm_remove_entry_if_and_def fetch_sub_one_def flip: hm_map_def)
  next
    case False
    from b(2)[of "hm_len h"] b(1) False show ?thesis
      by (cases "hm_map H h key") (simp_all add: hm_remove_entry_if_and_def map_upd_triv fun_upd_idem flip: hm_map_def)
  qed
qed

section \<open>The map provides the interface of a table\<close>

fun hm_exec ::
  "('k \<Rightarrow> u64) \<Rightarrow> ('k, 'v) hash_map \<Rightarrow> ('k, 'v) table_call \<Rightarrow> (('k, 'v) hash_map \<times> 'v option) option" where
  "hm_exec H h (Lookup k) = hm_get H h (H k) ((=) k)"
| "hm_exec H h (Upsert k ins modify) = hm_insert_with_or_modify H h k (H k) ins modify"
| "hm_exec H h (InsertNew k v) = hm_insert_if_not_present H h k (H k) v"
| "hm_exec H h (RemoveIf k cond) = hm_remove_if H h (H k) ((=) k) cond"

interpretation hm_table: kv_table "hm_ok H" "hm_map H" "hm_exec H" for H :: "'k \<Rightarrow> u64"
proof
  fix h :: "('k, 'v) hash_map" and c assume ok: "hm_ok H h"
  show "\<exists>h'. hm_exec H h c = Some (h', map_answer (hm_map H h) c) \<and> hm_ok H h' \<and> hm_map H h' = map_call (hm_map H h) c"
  proof (cases c)
    case (Lookup k)
    then show ?thesis using hm_get_key_value_ok[OF ok, of k "\<lambda>_ v. Some v"]
      by (auto simp: case_option_id hm_get_def hm_get_key_value_and_def)
  next
    case (Upsert k ins modify)
    then show ?thesis using hm_upsert_ok[OF ok, of k ins modify "\<lambda>_ v. v"]
      by (auto simp: case_option_id hm_insert_with_or_modify_def)
  next
    case (InsertNew k v)
    then show ?thesis using hm_insert_if_not_present_ok[OF ok, of k v] by auto
  next
    case (RemoveIf k cond)
    then show ?thesis using hm_remove_entry_if_ok[OF ok, of k cond "\<lambda>_ v. v"] by (auto simp: hm_remove_if_def)
  qed
qed

end
