(* ===== verification/Cht_Iter.thy ===== *)
theory Cht_Iter
  imports Cht_Map
begin

text \<open>
  The iterator over a hash map (\<open>src/src/cht/iter.rs\<close>). It reads the keys of one segment at a time and
  looks up the value of a key when it gets to it. The map is behind the trait \<open>ScanningGet\<close>: its two
  operations are arguments here, and the locale states what the iterator needs of them. Nothing else
  changes the map while the iterator runs.
\<close>

section \<open>The iterator\<close>

record 'k cht_iter =
  ci_keys :: "'k list option"
  ci_num_segments :: nat
  ci_seg_index :: nat
  ci_is_done :: bool

definition with_single_cache_segment :: "nat \<Rightarrow> 'k cht_iter" where
  "with_single_cache_segment num_segments =
     \<lparr>ci_keys = None, ci_num_segments = num_segments, ci_seg_index = 0, ci_is_done = False\<rparr>"

definition no_keys :: "'k list option \<Rightarrow> bool" where
  "no_keys ks \<longleftrightarrow> (case ks of None \<Rightarrow> True | Some l \<Rightarrow> l = [])"

text \<open>\<open>current_keys\<close>: the flag tells whether the iterator has keys.\<close>

partial_function (option) current_keys ::
  "('s \<Rightarrow> nat \<Rightarrow> ('s \<times> 'k list option) option) \<Rightarrow> 's \<Rightarrow> 'k cht_iter \<Rightarrow> ('s \<times> 'k cht_iter \<times> bool) option" where
  "current_keys keys s it =
     (if no_keys (ci_keys it) then
        if ci_seg_index it \<ge> ci_num_segments it then Some (s, it, False)
        else do { (s', ks) \<leftarrow> keys s (ci_seg_index it);
                  current_keys keys s' (it\<lparr>ci_keys := ks, ci_seg_index := ci_seg_index it + 1\<rparr>) }
      else Some (s, it, True))"

text \<open>\<open>next_key\<close> pops the last key of the vector.\<close>

partial_function (option) next_key ::
  "('s \<Rightarrow> nat \<Rightarrow> ('s \<times> 'k list option) option) \<Rightarrow> 's \<Rightarrow> 'k cht_iter \<Rightarrow> ('s \<times> 'k cht_iter \<times> 'k option) option" where
  "next_key keys s it =
     do { (s, it, more) \<leftarrow> current_keys keys s it;
          if more then
            (case ci_keys it of
               Some ks \<Rightarrow> if ks = [] then next_key keys s it
                          else Some (s, it\<lparr>ci_keys := Some (butlast ks)\<rparr>, Some (last ks))
             | None \<Rightarrow> None)
          else Some (s, it, None) }"

partial_function (option) cht_iter_loop ::
  "('s \<Rightarrow> nat \<Rightarrow> ('s \<times> 'k list option) option) \<Rightarrow> ('s \<Rightarrow> 'k \<Rightarrow> ('s \<times> 'v option) option) \<Rightarrow> 's \<Rightarrow> 'k cht_iter \<Rightarrow>
    ('s \<times> 'k cht_iter \<times> ('k \<times> 'v) option) option" where
  "cht_iter_loop keys scanning_get s it =
     do { (s, it, mk) \<leftarrow> next_key keys s it;
          (case mk of
             None \<Rightarrow> Some (s, it\<lparr>ci_is_done := True\<rparr>, None)
           | Some k \<Rightarrow>
               do { (s, mv) \<leftarrow> scanning_get s k;
                    (case mv of Some v \<Rightarrow> Some (s, it, Some (k, v)) | None \<Rightarrow> cht_iter_loop keys scanning_get s it) }) }"

definition iter_next ::
  "('s \<Rightarrow> nat \<Rightarrow> ('s \<times> 'k list option) option) \<Rightarrow> ('s \<Rightarrow> 'k \<Rightarrow> ('s \<times> 'v option) option) \<Rightarrow> 's \<Rightarrow> 'k cht_iter \<Rightarrow>
    ('s \<times> 'k cht_iter \<times> ('k \<times> 'v) option) option" where
  "iter_next keys scanning_get s it =
     (if ci_is_done it then Some (s, it, None) else cht_iter_loop keys scanning_get s it)"

text \<open>What a \<open>for\<close> loop over the iterator sees.\<close>

partial_function (option) iter_collect ::
  "('s \<Rightarrow> nat \<Rightarrow> ('s \<times> 'k list option) option) \<Rightarrow> ('s \<Rightarrow> 'k \<Rightarrow> ('s \<times> 'v option) option) \<Rightarrow> 's \<Rightarrow> 'k cht_iter \<Rightarrow>
    ('s \<times> ('k \<times> 'v) list) option" where
  "iter_collect keys scanning_get s it =
     do { (s, it, item) \<leftarrow> iter_next keys scanning_get s it;
          (case item of
             None \<Rightarrow> Some (s, [])
           | Some kv \<Rightarrow> do { (s, rest) \<leftarrow> iter_collect keys scanning_get s it; Some (s, kv # rest) }) }"

section \<open>The map behind the iterator\<close>

locale scanning_map =
  fixes ok :: "'s \<Rightarrow> bool" and contents :: "'s \<Rightarrow> 'k \<rightharpoonup> 'v" and seg_of :: "'k \<Rightarrow> nat" and n :: nat
    and keys :: "'s \<Rightarrow> nat \<Rightarrow> ('s \<times> 'k list option) option"
    and scanning_get :: "'s \<Rightarrow> 'k \<Rightarrow> ('s \<times> 'v option) option"
  assumes keys_ok: "ok s \<Longrightarrow> i < n \<Longrightarrow> \<exists>s' ks. keys s i = Some (s', Some ks) \<and> ok s' \<and> contents s' = contents s \<and>
      distinct ks \<and> set ks = {k \<in> dom (contents s). seg_of k = i}"
    and get_ok: "ok s \<Longrightarrow> \<exists>s'. scanning_get s k = Some (s', contents s k) \<and> ok s' \<and> contents s' = contents s"
    and finite_ok: "ok s \<Longrightarrow> finite (dom (contents s))"
    and seg_less: "ok s \<Longrightarrow> k \<in> dom (contents s) \<Longrightarrow> seg_of k < n"
begin

definition it_rest :: "('k \<rightharpoonup> 'v) \<Rightarrow> 'k cht_iter \<Rightarrow> 'k set" where
  "it_rest m it = (case ci_keys it of None \<Rightarrow> {} | Some ks \<Rightarrow> set ks) \<union> {k \<in> dom m. ci_seg_index it \<le> seg_of k}"

definition it_ok :: "('k \<rightharpoonup> 'v) \<Rightarrow> 'k cht_iter \<Rightarrow> bool" where
  "it_ok m it \<longleftrightarrow> ci_num_segments it = n \<and> \<not> ci_is_done it \<and>
     (\<forall>ks. ci_keys it = Some ks \<longrightarrow> distinct ks \<and> (\<forall>k \<in> set ks. k \<in> dom m \<and> seg_of k < ci_seg_index it))"

lemma current_keys_ok:
  assumes "ok s" "contents s = m" "it_ok m it"
  shows "\<exists>s' it' more. current_keys keys s it = Some (s', it', more) \<and> ok s' \<and> contents s' = m \<and> it_ok m it' \<and>
    it_rest m it' = it_rest m it \<and> (if more then \<not> no_keys (ci_keys it') else it_rest m it = {})"
  using assms
proof (induction "n - ci_seg_index it" arbitrary: s it rule: less_induct)
  case less
  note step = current_keys.simps[of keys s it]
  show ?case
  proof (cases "no_keys (ci_keys it)")
    case no: True
    have empty: "it_rest m it = {k \<in> dom m. ci_seg_index it \<le> seg_of k}"
      using no by (auto simp: it_rest_def no_keys_def split: option.splits)
    show ?thesis
    proof (cases "ci_seg_index it \<ge> n")
      case True
      then have "it_rest m it = {}" using seg_less[OF less.prems(1)] less.prems(2) empty by force
      then show ?thesis using True no less.prems step by (auto simp: it_ok_def)
    next
      case False
      then have lt: "ci_seg_index it < n" by simp
      obtain s' ks where k: "keys s (ci_seg_index it) = Some (s', Some ks)" "ok s'" "contents s' = m" "distinct ks"
        "set ks = {k \<in> dom m. seg_of k = ci_seg_index it}"
        using keys_ok[OF less.prems(1) lt] less.prems(2) by auto
      let ?it = "it\<lparr>ci_keys := Some ks, ci_seg_index := ci_seg_index it + 1\<rparr>"
      have it: "it_ok m ?it" using k(4,5) less.prems(3) by (auto simp: it_ok_def)
      have rest: "it_rest m it = it_rest m ?it" unfolding empty by (auto simp: it_rest_def k(5) Suc_le_eq order_le_less)
      have eq: "current_keys keys s it = current_keys keys s' ?it"
        unfolding step using k(1) no lt less.prems(3) by (simp add: it_ok_def)
      have "n - ci_seg_index ?it < n - ci_seg_index it" using lt by simp
      from less.hyps[OF this k(2,3) it] show ?thesis unfolding eq rest .
    qed
  qed (use less.prems step in auto)
qed

lemma next_key_ok:
  assumes "ok s" "contents s = m" "it_ok m it"
  shows "\<exists>s' it' mk. next_key keys s it = Some (s', it', mk) \<and> ok s' \<and> contents s' = m \<and> it_ok m it' \<and>
    (case mk of None \<Rightarrow> it_rest m it = {} | Some k \<Rightarrow> k \<in> it_rest m it \<and> k \<in> dom m \<and> it_rest m it' = it_rest m it - {k})"
proof -
  obtain s' it' more where c: "current_keys keys s it = Some (s', it', more)" "ok s'" "contents s' = m" "it_ok m it'"
    "it_rest m it' = it_rest m it" "if more then \<not> no_keys (ci_keys it') else it_rest m it = {}"
    using current_keys_ok[OF assms] by blast
  show ?thesis
  proof (cases more)
    case True
    then obtain ks where "ci_keys it' = Some ks" "ks \<noteq> []" using c(6) by (auto simp: no_keys_def split: option.splits)
    then obtain xs x where ks: "ci_keys it' = Some (xs @ [x])" by (cases ks rule: rev_cases) auto
    let ?it = "it'\<lparr>ci_keys := Some xs\<rparr>"
    have d: "x \<notin> set xs" "x \<in> dom m" "seg_of x < ci_seg_index it'" and it: "it_ok m ?it" using c(4) ks by (auto simp: it_ok_def)
    have "it_rest m it' = insert x (it_rest m ?it)" "x \<notin> it_rest m ?it" using ks d by (auto simp: it_rest_def)
    then have r: "it_rest m ?it = it_rest m it - {x}" "x \<in> it_rest m it" using c(5) by auto
    have "next_key keys s it = Some (s', ?it, Some x)" using c(1) True ks by (simp add: next_key.simps[of keys s it])
    with c(2,3) it r d(2) show ?thesis by auto
  qed (use c in \<open>simp add: next_key.simps[of keys s it]\<close>)
qed

lemma iter_next_ok:
  assumes "ok s" "contents s = m" "it_ok m it"
  shows "\<exists>s' it' item. iter_next keys scanning_get s it = Some (s', it', item) \<and> ok s' \<and> contents s' = m \<and>
    (case item of None \<Rightarrow> it_rest m it = {} \<and> ci_is_done it'
     | Some (k, v) \<Rightarrow> k \<in> it_rest m it \<and> m k = Some v \<and> it_rest m it' = it_rest m it - {k} \<and> it_ok m it')"
proof -
  obtain s' it' mk where k: "next_key keys s it = Some (s', it', mk)" "ok s'" "contents s' = m" "it_ok m it'"
    "case mk of None \<Rightarrow> it_rest m it = {} | Some k \<Rightarrow> k \<in> it_rest m it \<and> k \<in> dom m \<and> it_rest m it' = it_rest m it - {k}"
    using next_key_ok[OF assms] by blast
  have nd: "\<not> ci_is_done it" using assms(3) by (simp add: it_ok_def)
  show ?thesis
  proof (cases mk)
    case (Some k')
    obtain s'' where "scanning_get s' k' = Some (s'', m k')" "ok s''" "contents s'' = m" using get_ok[OF k(2), of k'] k(3) by auto
    with k Some nd show ?thesis by (auto simp: iter_next_def cht_iter_loop.simps[of keys scanning_get s it])
  qed (use k nd in \<open>simp add: iter_next_def cht_iter_loop.simps[of keys scanning_get s it]\<close>)
qed

lemma iter_collect_ok:
  assumes "ok s" "contents s = m" "it_ok m it"
  shows "\<exists>s' xs. iter_collect keys scanning_get s it = Some (s', xs) \<and> ok s' \<and> contents s' = m \<and>
    distinct (map fst xs) \<and> set xs = {(k, v). k \<in> it_rest m it \<and> m k = Some v}"
  using assms
proof (induction "card (it_rest m it)" arbitrary: s it rule: less_induct)
  case less
  obtain s' it' item where i: "iter_next keys scanning_get s it = Some (s', it', item)" "ok s'" "contents s' = m"
    "case item of None \<Rightarrow> it_rest m it = {} \<and> ci_is_done it'
     | Some (k, v) \<Rightarrow> k \<in> it_rest m it \<and> m k = Some v \<and> it_rest m it' = it_rest m it - {k} \<and> it_ok m it'"
    using iter_next_ok[OF less.prems] by blast
  have fin: "finite (it_rest m it)" using finite_ok[OF less.prems(1)] less.prems(2)
    by (auto simp: it_rest_def split: option.split)
  show ?case
  proof (cases item)
    case (Some kv)
    obtain k v where kv: "item = Some (k, v)" "k \<in> it_rest m it" "m k = Some v" "it_rest m it' = it_rest m it - {k}" "it_ok m it'"
      using i(4) Some by (cases kv) auto
    have "card (it_rest m it') < card (it_rest m it)" using fin kv(2,4) by (simp add: card_Diff1_less del: card_Diff_insert)
    from less.hyps[OF this i(2,3) kv(5)] obtain s'' xs where
      "iter_collect keys scanning_get s' it' = Some (s'', xs)" "ok s''" "contents s'' = m" "distinct (map fst xs)"
      "set xs = {(k, v). k \<in> it_rest m it' \<and> m k = Some v}" by blast
    then show ?thesis using i(1) kv
      by (intro exI[of _ s''] exI[of _ "(k, v) # xs"]) (auto simp: iter_collect.simps[of keys scanning_get s it])
  qed (use i in \<open>simp add: iter_collect.simps[of keys scanning_get s it]\<close>)
qed

lemma collect_all:
  assumes "ok s"
  shows "\<exists>s' xs. iter_collect keys scanning_get s (with_single_cache_segment n) = Some (s', xs) \<and> ok s' \<and>
    contents s' = contents s \<and> distinct (map fst xs) \<and> map_of xs = contents s"
proof -
  let ?it = "with_single_cache_segment n :: 'k cht_iter"
  have "it_ok (contents s) ?it" "it_rest (contents s) ?it = dom (contents s)"
    by (auto simp: it_ok_def it_rest_def with_single_cache_segment_def)
  then obtain s' xs where x: "iter_collect keys scanning_get s ?it = Some (s', xs)" "ok s'" "contents s' = contents s"
    "distinct (map fst xs)" "set xs = {(k, v). k \<in> dom (contents s) \<and> contents s k = Some v}"
    using iter_collect_ok[OF assms refl, of ?it] by auto
  have "map_of xs k = contents s k" for k
  proof (cases "contents s k")
    case None
    with x(5) have "k \<notin> fst ` set xs" by force
    with None show ?thesis by (simp add: map_of_eq_None_iff)
  next
    case (Some v)
    with x(5) have "(k, v) \<in> set xs" by auto
    with x(4) Some show ?thesis by simp
  qed
  with x show ?thesis by blast
qed

end

section \<open>The hash map behind the iterator\<close>

definition hm_iter :: "('k \<Rightarrow> u64) \<Rightarrow> ('k, 'v) hash_map \<Rightarrow> (('k, 'v) hash_map \<times> ('k \<times> 'v) list) option" where
  "hm_iter H h = iter_collect (\<lambda>h i. hm_keys H h i id) (hm_scanning_get H) h (with_single_cache_segment (actual_num_segments h))"

lemma hm_dom:
  assumes ok: "hm_ok H h"
  shows "dom (hm_map H h) = (\<Union>i < length (hm_segments h). dom (seg_map H (hm_segments h ! i)))"
    "i < length (hm_segments h) \<Longrightarrow> dom (seg_map H (hm_segments h ! i)) = {k \<in> dom (hm_map H h). segment_index_from_hash h (H k) = i}"
    "finite (dom (hm_map H h))"
proof -
  note d = hm_okD[OF ok]
  show e: "i < length (hm_segments h) \<Longrightarrow> dom (seg_map H (hm_segments h ! i)) = {k \<in> dom (hm_map H h). segment_index_from_hash h (H k) = i}" for i
    using d(3) by (auto simp: hm_map_def dom_def)
  then show u: "dom (hm_map H h) = (\<Union>i < length (hm_segments h). dom (seg_map H (hm_segments h ! i)))" using d(1) by auto
  show "finite (dom (hm_map H h))" unfolding u using seg_len_card(2)[OF d(2)] by auto
qed

text \<open>The length of the map is the number of its entries.\<close>

lemma hm_len_card:
  assumes ok: "hm_ok H h"
  shows "hm_len h = card (dom (hm_map H h))"
proof -
  note d = hm_okD[OF ok]
  have dis: "dom (seg_map H (hm_segments h ! i)) \<inter> dom (seg_map H (hm_segments h ! j)) = {}"
    if "i < length (hm_segments h)" "j < length (hm_segments h)" "i \<noteq> j" for i j
    using d(3)[OF that(1)] d(3)[OF that(2)] that(3) by blast
  have "card (dom (hm_map H h)) = (\<Sum>i < length (hm_segments h). card (dom (seg_map H (hm_segments h ! i))))"
    unfolding hm_dom(1)[OF ok] using seg_len_card(2)[OF d(2)] dis by (intro card_UN_disjoint) auto
  also have "\<dots> = (\<Sum>i < length (hm_segments h). seg_len (hm_segments h ! i))" using seg_len_card(1)[OF d(2)] by (intro sum.cong) auto
  also have "\<dots> = hm_len h" unfolding d(4) by (simp add: sum_list_sum_nth atLeast0LessThan)
  finally show ?thesis by simp
qed

lemma hm_keys_ok:
  assumes ok: "hm_ok H h" and i: "i < length (hm_segments h)"
  shows "\<exists>h' ks. hm_keys H h i f = Some (h', Some (map f ks)) \<and> hm_ok H h' \<and> hm_map H h' = hm_map H h \<and>
    distinct ks \<and> set ks = {k \<in> dom (hm_map H h). segment_index_from_hash h (H k) = i} \<and>
    length (hm_segments h') = length (hm_segments h) \<and> hm_segment_shift h' = hm_segment_shift h"
proof -
  note d = hm_okD[OF ok]
  obtain s ks where s: "ref_keys H (hm_segments h ! i) f = Some (s, map f ks)" "distinct ks" "set ks = dom (seg_map H (hm_segments h ! i))"
    "seg_ok H s" "seg_map H s = seg_map H (hm_segments h ! i)" "seg_len s = seg_len (hm_segments h ! i)"
    using ref_keys_ok[OF d(2)[OF i]] by blast
  let ?h = "h\<lparr>hm_segments := (hm_segments h)[i := s]\<rparr>"
  have ix: "segment_index_from_hash ?h = segment_index_from_hash h" by (simp add: segment_index_from_hash_def fun_eq_iff)
  have segs: "hm_segments ?h = (hm_segments h)[i := s]" by simp
  have "map seg_len ((hm_segments h)[i := s]) = map seg_len (hm_segments h)"
    using s(6) i by (simp add: map_update list_update_same_conv)
  moreover have "\<forall>j < length (hm_segments h). seg_ok H ((hm_segments h)[i := s] ! j) \<and>
      (\<forall>k' \<in> dom (seg_map H ((hm_segments h)[i := s] ! j)). segment_index_from_hash h (H k') = j)"
    using d(2,3) i s(4,5) by (auto simp: nth_list_update)
  ultimately have "hm_ok H ?h" using ok unfolding hm_ok_def ix segs by simp
  moreover have "hm_map H ?h = hm_map H h" using s(5) i by (auto simp: hm_map_def ix segs fun_eq_iff nth_list_update)
  ultimately show ?thesis using s(1,2,3) i hm_dom(2)[OF ok i] by (auto simp: hm_keys_def)
qed

lemma bucket_array_ref_shape:
  "bucket_array_ref h hash op = Some (h', r) \<Longrightarrow> length (hm_segments h') = length (hm_segments h) \<and> hm_segment_shift h' = hm_segment_shift h"
  by (auto simp: bucket_array_ref_def Let_def split: if_splits bind_splits)

interpretation hm_scan: scanning_map "\<lambda>h. hm_ok H h \<and> length (hm_segments h) = n \<and> hm_segment_shift h = sh" "hm_map H"
  "\<lambda>k. if sh = 64 then 0 else unat (drop_bit sh (H k))" n "\<lambda>h i. hm_keys H h i id" "hm_scanning_get H" for H :: "'k \<Rightarrow> u64" and n sh
proof
  fix h :: "('k, 'v) hash_map" and i
  assume ok: "hm_ok H h \<and> length (hm_segments h) = n \<and> hm_segment_shift h = sh"
  then have ix: "segment_index_from_hash h hash = (if sh = 64 then 0 else unat (drop_bit sh hash))" for hash
    by (simp add: segment_index_from_hash_def)
  show "\<exists>h' ks. hm_keys H h i id = Some (h', Some ks) \<and> (hm_ok H h' \<and> length (hm_segments h') = n \<and> hm_segment_shift h' = sh) \<and>
      hm_map H h' = hm_map H h \<and> distinct ks \<and> set ks = {k \<in> dom (hm_map H h). (if sh = 64 then 0 else unat (drop_bit sh (H k))) = i}"
    if "i < n" using hm_keys_ok[of H h i id] ok that unfolding ix by (auto simp: id_def)
  show "finite (dom (hm_map H h))" using hm_dom(3) ok by blast
  show "(if sh = 64 then 0 else unat (drop_bit sh (H k))) < n" for k using hm_okD(1)[of H h "H k"] ok unfolding ix by simp
next
  fix h :: "('k, 'v) hash_map" and k
  assume ok: "hm_ok H h \<and> length (hm_segments h) = n \<and> hm_segment_shift h = sh"
  then obtain h' where "hm_get_key_value_and_then H h (H k) ((=) k) (\<lambda>_ v. Some v) = Some (h', hm_map H h k)" "hm_ok H h'" "hm_map H h' = hm_map H h"
    using hm_get_key_value_ok[of H h k "\<lambda>_ v. Some v"] by (auto simp: case_option_id)
  then show "\<exists>h'. hm_scanning_get H h k = Some (h', hm_map H h k) \<and> (hm_ok H h' \<and> length (hm_segments h') = n \<and> hm_segment_shift h' = sh) \<and> hm_map H h' = hm_map H h"
    using ok by (auto simp: hm_scanning_get_def hm_get_key_value_and_then_def dest: bucket_array_ref_shape)
qed

section \<open>Properties of the hash table\<close>

lemma reachable_map:
  fixes H :: "'k \<Rightarrow> u64" and cs :: "('k, 'v) table_call list"
  assumes "0 < num_segments" "num_segments \<le> 2 ^ 63" "capacity \<le> 2 ^ 62"
  shows "\<exists>h h'. with_num_segments_capacity_and_hasher num_segments capacity = Some h \<and>
    run_calls (hm_exec H) h cs = Some (h', map_answers Map.empty cs) \<and> hm_ok H h' \<and> hm_map H h' = foldl map_call Map.empty cs"
proof -
  obtain h :: "('k, 'v) hash_map" where
    h: "with_num_segments_capacity_and_hasher num_segments capacity = Some h" "hm_ok H h" "hm_map H h = Map.empty"
    using with_num_segments_ok[OF assms, of H] by blast
  with hm_table.run_ok[OF h(2), of cs] show ?thesis by auto
qed

text \<open>C5: The hash map implements a map. A map made for any number of segments and any
  capacity answers every sequence of lookups, insertions, modifications and removals as a
  finite map does; all loops end, no assertion fails, and the length is the number of entries.\<close>

theorem hash_map_refines_map:
  fixes H :: "'k \<Rightarrow> u64" and cs :: "('k, 'v) table_call list"
  assumes "0 < num_segments" "num_segments \<le> 2 ^ 63" "capacity \<le> 2 ^ 62"
  shows "\<exists>h h'. with_num_segments_capacity_and_hasher num_segments capacity = Some h \<and>
    run_calls (hm_exec H) h cs = Some (h', map_answers Map.empty cs) \<and>
    hm_map H h' = foldl map_call Map.empty cs \<and> hm_len h' = card (dom (foldl map_call Map.empty cs))"
  using reachable_map[OF assms, of H cs] hm_len_card by metis

theorem hash_map_refines_map_witness:
  "\<exists>h h'. with_num_segments_capacity_and_hasher 3 1 = Some h \<and>
    run_calls (hm_exec (\<lambda>k :: nat. word_of_nat k)) h
      [InsertNew 7 (1 :: nat), Upsert 7 (\<lambda>_. 2) (\<lambda>_ v. v + 10), Upsert 9 (\<lambda>_. 3) (\<lambda>_ v. v), RemoveIf 9 (\<lambda>_ v. v = 3), Lookup 7] =
      Some (h', [None, Some 1, None, Some 3, Some 11]) \<and> hm_len h' = 1"
proof -
  define cs where "cs = [InsertNew (7 :: nat) (1 :: nat), Upsert 7 (\<lambda>_. 2) (\<lambda>_ v. v + 10), Upsert 9 (\<lambda>_. 3) (\<lambda>_ v. v),
    RemoveIf 9 (\<lambda>_ v. v = 3), Lookup 7]"
  have a: "map_answers Map.empty cs = [None, Some 1, None, Some 3, Some 11]" by (simp add: cs_def)
  have "foldl map_call Map.empty cs = [7 \<mapsto> 11]" by (auto simp: cs_def fun_eq_iff)
  with hash_map_refines_map[of 3 1 "\<lambda>k :: nat. word_of_nat k" cs] a show ?thesis unfolding cs_def[symmetric] by auto
qed

text \<open>Iterating over a hash map that nobody changes yields every entry exactly once, and
  leaves the contents of the map as they were.\<close>

theorem hash_map_iter_all:
  assumes "0 < num_segments" "num_segments \<le> 2 ^ 63" "capacity \<le> 2 ^ 62"
    and "with_num_segments_capacity_and_hasher num_segments capacity = Some h" "run_calls (hm_exec H) h cs = Some (h', rs)"
  shows "\<exists>h'' xs. hm_iter H h' = Some (h'', xs) \<and> distinct (map fst xs) \<and>
    map_of xs = foldl map_call Map.empty cs \<and> hm_map H h'' = hm_map H h'"
proof -
  have r: "hm_ok H h'" "hm_map H h' = foldl map_call Map.empty cs" using reachable_map[OF assms(1-3), of H cs] assms(4,5) by auto
  then show ?thesis using hm_scan.collect_all[of H h' "length (hm_segments h')" "hm_segment_shift h'"]
    unfolding hm_iter_def actual_num_segments_def by auto
qed

theorem hash_map_iter_all_witness:
  "\<exists>h h' rs h'' xs. with_num_segments_capacity_and_hasher 3 1 = Some h \<and>
    run_calls (hm_exec (\<lambda>k :: nat. word_of_nat k)) h [InsertNew 7 (1 :: nat), InsertNew 9 2, RemoveIf 7 (\<lambda>_ _. True)] = Some (h', rs) \<and>
    hm_iter (\<lambda>k :: nat. word_of_nat k) h' = Some (h'', xs) \<and> distinct (map fst xs) \<and> map_of xs = [9 \<mapsto> 2]"
proof -
  define cs where "cs = [InsertNew (7 :: nat) (1 :: nat), InsertNew 9 2, RemoveIf 7 (\<lambda>_ _. True)]"
  obtain h h' where h: "with_num_segments_capacity_and_hasher 3 1 = Some h"
    "run_calls (hm_exec (\<lambda>k :: nat. word_of_nat k)) h cs = Some (h', map_answers Map.empty cs)"
    using reachable_map[of 3 1 "\<lambda>k :: nat. word_of_nat k" cs] by auto
  have "foldl map_call Map.empty cs = [9 \<mapsto> 2]" by (auto simp: cs_def fun_eq_iff)
  with hash_map_iter_all[OF _ _ _ h] h show ?thesis unfolding cs_def[symmetric] by auto
qed

text \<open>A rehash loses nothing. Whenever \<open>RehashOp::new\<close> asks for an expansion, a
  shrinking or a garbage collection of an array that is not fuller than the operations leave
  it, \<open>rehash\<close> returns a new array with the same entries, no tombstones and room for all.\<close>

theorem rehash_keeps_entries:
  assumes "load_ok H len arr" "rehash_op_new (length (ba_buckets arr) div 2) (ba_tombstone_count arr) len = op" "op \<noteq> Skip"
  shows "\<exists>arr'. rehash H op arr = Some arr' \<and> load_ok H len arr' \<and> ba_tombstone_count arr' = 0 \<and>
    bucket_map H (ba_buckets arr') = bucket_map H (ba_buckets arr)"
  using rehash_chosen[OF assms] by blast

theorem rehash_keeps_entries_witness:
  "\<exists>arr' :: (nat, nat) bucket_array. rehash (\<lambda>_. 0) Expand \<lparr>ba_buckets = [Ptr 0 5 50 False False], ba_epoch = 0, ba_tombstone_count = 0\<rparr> = Some arr' \<and>
    bucket_map (\<lambda>_. 0) (ba_buckets arr') = bucket_map (\<lambda>_. 0) [Ptr 0 5 50 False False]"
proof -
  have "load_ok (\<lambda>_. 0) 1 \<lparr>ba_buckets = [Ptr 0 (5 :: nat) (50 :: nat) False False], ba_epoch = 0, ba_tombstone_count = 0\<rparr>"
    by (auto simp: load_ok_def slots_ok_def real_cap_def tombstones_def live_count_def probe_def intro!: exI[of _ 0])
  from rehash_keeps_entries[OF this, of Expand] show ?thesis by (auto simp: rehash_op_new_def)
qed

text \<open>\<open>insert_entry_and\<close> on a key that is present replaces the bucket by one with the old
  value: the new value is dropped, although the documentation says that key and value are updated.\<close>

theorem insert_entry_keeps_old_value:
  assumes "hm_ok H h" "hm_map H h key = Some old"
  shows "\<exists>h'. hm_insert_entry_and H h key (H key) new f = Some (h', Some (f key old)) \<and> hm_map H h' = hm_map H h"
  using hm_upsert_ok[OF assms(1), of key "\<lambda>_. new" "\<lambda>_ v. v" f] assms(2)
  by (auto simp: hm_insert_entry_and_def hm_insert_with_or_modify_entry_and_def map_upd_triv)

theorem insert_entry_keeps_old_value_witness:
  "\<exists>h h' h''. with_num_segments_capacity_and_hasher 1 0 = Some h \<and>
    hm_insert_entry_and (\<lambda>k :: nat. word_of_nat k) h 7 (word_of_nat 7) (1 :: nat) (\<lambda>_ v. v) = Some (h', None) \<and>
    hm_insert_entry_and (\<lambda>k :: nat. word_of_nat k) h' 7 (word_of_nat 7) 2 (\<lambda>_ v. v) = Some (h'', Some 1) \<and>
    hm_map (\<lambda>k :: nat. word_of_nat k) h'' 7 = Some 1"
proof -
  let ?H = "\<lambda>k :: nat. word_of_nat k :: u64"
  obtain h :: "(nat, nat) hash_map" where h: "with_num_segments_capacity_and_hasher 1 0 = Some h" "hm_ok ?H h" "hm_map ?H h = Map.empty"
    using with_num_segments_ok[of 1 0 ?H] by auto
  then obtain h' where h': "hm_insert_entry_and ?H h 7 (?H 7) (1 :: nat) (\<lambda>_ v. v) = Some (h', None)" "hm_ok ?H h'" "hm_map ?H h' 7 = Some 1"
    using hm_upsert_ok[OF h(2), of 7 "\<lambda>_. 1" "\<lambda>_ v. v" "\<lambda>_ v. v"]
    by (auto simp: hm_insert_entry_and_def hm_insert_with_or_modify_entry_and_def)
  from insert_entry_keeps_old_value[OF h'(2,3), of 2 "\<lambda>_ v. v"] h h' show ?thesis by auto
qed

end
