(* ===== verification/Cht_Concurrent.thy ===== *)
theory Cht_Concurrent
  imports Cht_Slots
begin

text \<open>
  The lock-free operations on a bucket array under interference: \<open>get\<close>, \<open>remove_if\<close>, \<open>insert_if_not_present\<close> and
  \<open>insert_or_modify\<close> of \<open>src/src/cht/map/bucket.rs\<close>. Each thread is a machine with a step for every load of a
  bucket and one for every \<open>compare_exchange_weak\<close>. Threads interleave in any way, and a weak exchange may fail
  although the bucket has not changed.

  An exchange compares addresses and tags. An address is not used again while a thread has the epoch pinned, so equal
  pointers have equal contents, and the model compares the pointers with their contents. No rehash is under way: the
  relocation of buckets to another array is in the sequential model (\<open>Cht_Rehash\<close>) only.
\<close>

section \<open>Operations as machines\<close>

datatype ('k, 'v) bucket_op =
    BGet 'k
  | BRemoveIf 'k "'k \<Rightarrow> 'v \<Rightarrow> bool"
  | BInsertNew 'k 'v
  | BModify 'k 'v "'k \<Rightarrow> 'v \<Rightarrow> 'v"

fun op_key :: "('k, 'v) bucket_op \<Rightarrow> 'k" where
  "op_key (BGet key) = key"
| "op_key (BRemoveIf key condition) = key"
| "op_key (BInsertNew key value) = key"
| "op_key (BModify key value modifier) = key"

datatype ('k, 'v) op_result =
    RelocatedError
  | FoundPtr "('k, 'v) bucket_ptr"
  | Insertion "('k, 'v) insertion_result"

text \<open>A thread is about to load the bucket at a place of its probe, or about to exchange the pointer that it has loaded
  there, or at its end.\<close>

datatype ('k, 'v) bucket_pc =
    BLoad nat
  | BExchange nat "('k, 'v) bucket_ptr" "('k, 'v) bucket_ptr"
  | BDone "('k, 'v) op_result"

text \<open>What an operation does with the pointer that it has loaded; \<open>a\<close> is the address of the bucket that it allocates.\<close>

fun bucket_load :: "('k, 'v) bucket_op \<Rightarrow> nat \<Rightarrow> nat \<Rightarrow> ('k, 'v) bucket_ptr \<Rightarrow> ('k, 'v) bucket_pc" where
  "bucket_load op a i Sentinel = BDone RelocatedError"
| "bucket_load (BGet key) a i Null = BDone (FoundPtr Null)"
| "bucket_load (BGet key) a i (Ptr a' k v t b) =
     (if k \<noteq> key then BLoad (i + 1) else BDone (FoundPtr (if t then Null else Ptr a' k v t b)))"
| "bucket_load (BRemoveIf key condition) a i Null = BDone (FoundPtr Null)"
| "bucket_load (BRemoveIf key condition) a i (Ptr a' k v t b) =
     (if k \<noteq> key then BLoad (i + 1)
      else if t \<or> \<not> condition k v then BDone (FoundPtr Null)
      else BExchange i (Ptr a' k v t b) (Ptr a' k v True False))"
| "bucket_load (BInsertNew key value) a i Null = BExchange i Null (Ptr a key value False False)"
| "bucket_load (BInsertNew key value) a i (Ptr a' k v t b) =
     (if k \<noteq> key then BLoad (i + 1)
      else if \<not> t then BDone (Insertion (AlreadyPresent (Ptr a' k v t b)))
      else BExchange i (Ptr a' k v t b) (Ptr a key value False False))"
| "bucket_load (BModify key value modifier) a i Null = BExchange i Null (Ptr a key value False False)"
| "bucket_load (BModify key value modifier) a i (Ptr a' k v t b) =
     (if k \<noteq> key then BLoad (i + 1)
      else BExchange i (Ptr a' k v t b) (Ptr a key (if t then value else modifier k v) False False))"

text \<open>The result at the end of the probe, and the one of an exchange that succeeds.\<close>

fun probe_end :: "('k, 'v) bucket_op \<Rightarrow> ('k, 'v) op_result" where
  "probe_end (BGet key) = FoundPtr Null"
| "probe_end (BRemoveIf key condition) = FoundPtr Null"
| "probe_end (BInsertNew key value) = RelocatedError"
| "probe_end (BModify key value modifier) = RelocatedError"

fun exchanged :: "('k, 'v) bucket_op \<Rightarrow> ('k, 'v) bucket_ptr \<Rightarrow> ('k, 'v) bucket_ptr \<Rightarrow> ('k, 'v) op_result" where
  "exchanged (BGet key) p q = FoundPtr p"
| "exchanged (BRemoveIf key condition) p q = FoundPtr q"
| "exchanged (BInsertNew key value) p q = Insertion (if p = Null then InsertedNew else ReplacedTombstone p)"
| "exchanged (BModify key value modifier) p q = FoundPtr p"

abbreviation op_probe :: "('k \<Rightarrow> u64) \<Rightarrow> ('k, 'v) bucket_ptr list \<Rightarrow> ('k, 'v) bucket_op \<Rightarrow> nat list" where
  "op_probe H bs op \<equiv> probe (length bs) (H (op_key op))"

fun bucket_step ::
  "('k \<Rightarrow> u64) \<Rightarrow> ('k, 'v) bucket_op \<Rightarrow> nat \<Rightarrow> bool \<Rightarrow> ('k, 'v) bucket_pc \<Rightarrow> ('k, 'v) bucket_ptr list \<Rightarrow>
    (('k, 'v) bucket_pc \<times> ('k, 'v) bucket_ptr list) option" where
  "bucket_step H op a spurious (BLoad i) bs =
     Some (if i < length (op_probe H bs op) then bucket_load op a i (bs ! (op_probe H bs op ! i)) else BDone (probe_end op), bs)"
| "bucket_step H op a spurious (BExchange i p q) bs =
     (let x = op_probe H bs op ! i
      in Some (if bs ! x = p \<and> \<not> spurious then (BDone (exchanged op p q), bs[x := q]) else (BLoad i, bs)))"
| "bucket_step H op a spurious (BDone r) bs = None"

type_synonym ('k, 'v) bucket_thread = "('k, 'v) bucket_op \<times> nat \<times> ('k, 'v) bucket_pc"

type_synonym ('k, 'v) bucket_system = "('k, 'v) bucket_ptr list \<times> ('k, 'v) bucket_thread list"

inductive conc_step :: "('k \<Rightarrow> u64) \<Rightarrow> bool \<Rightarrow> ('k, 'v) bucket_system \<Rightarrow> ('k, 'v) bucket_system \<Rightarrow> bool" for H spurious where
  conc_step: "bucket_step H op a spurious pc bs = Some (pc', bs') \<Longrightarrow>
    conc_step H spurious (bs, us @ (op, a, pc) # vs) (bs', us @ (op, a, pc') # vs)"

text \<open>A run is a sequence of steps of any threads. Its list says of each step whether a weak exchange in it fails although
  the bucket has not changed.\<close>

inductive conc_run :: "('k \<Rightarrow> u64) \<Rightarrow> bool list \<Rightarrow> ('k, 'v) bucket_system \<Rightarrow> ('k, 'v) bucket_system \<Rightarrow> bool" for H where
  conc_run_Nil: "conc_run H [] s s"
| conc_run_Cons: "conc_step H spurious s s' \<Longrightarrow> conc_run H fs s' s'' \<Longrightarrow> conc_run H (spurious # fs) s s''"

text \<open>The history has the operations in the order in which they ended, with their results.\<close>

inductive conc_reachable ::
  "('k \<Rightarrow> u64) \<Rightarrow> (('k, 'v) bucket_op \<times> ('k, 'v) op_result) list \<Rightarrow> ('k, 'v) bucket_system \<Rightarrow> bool" for H where
  conc_init: "conc_reachable H [] (replicate (2 ^ n) Null, [])"
| conc_spawn: "conc_reachable H h (bs, ts) \<Longrightarrow> conc_reachable H h (bs, ts @ [(op, a, BLoad 0)])"
| conc_move: "conc_reachable H h (bs, us @ (op, a, pc) # vs) \<Longrightarrow> bucket_step H op a spurious pc bs = Some (pc', bs') \<Longrightarrow>
    conc_reachable H (h @ (case pc' of BDone r \<Rightarrow> [(op, r)] | _ \<Rightarrow> [])) (bs', us @ (op, a, pc') # vs)"

section \<open>The atomic operations\<close>

fun map_effect :: "('k, 'v) bucket_op \<Rightarrow> ('k \<rightharpoonup> 'v) \<Rightarrow> ('k \<rightharpoonup> 'v)" where
  "map_effect (BGet key) M = M"
| "map_effect (BRemoveIf key condition) M =
     (case M key of Some v \<Rightarrow> if condition key v then M(key := None) else M | None \<Rightarrow> M)"
| "map_effect (BInsertNew key value) M = (case M key of Some v \<Rightarrow> M | None \<Rightarrow> M(key \<mapsto> value))"
| "map_effect (BModify key value modifier) M =
     M(key \<mapsto> (case M key of Some v \<Rightarrow> modifier key v | None \<Rightarrow> value))"

fun map_answer :: "('k, 'v) bucket_op \<Rightarrow> ('k \<rightharpoonup> 'v) \<Rightarrow> 'v option" where
  "map_answer (BRemoveIf key condition) M =
     (case M key of Some v \<Rightarrow> if condition key v then Some v else None | None \<Rightarrow> None)"
| "map_answer op M = M (op_key op)"

text \<open>What the caller reads from a result: the previous value, the removed one or the one that is present.\<close>

fun live_value :: "('k, 'v) bucket_ptr \<Rightarrow> 'v option" where
  "live_value (Ptr a k v t b) = (if t then None else Some v)"
| "live_value _ = None"

fun result_answer :: "('k, 'v) bucket_op \<Rightarrow> ('k, 'v) op_result \<Rightarrow> 'v option option" where
  "result_answer op RelocatedError = None"
| "result_answer (BRemoveIf key condition) (FoundPtr p) = Some (case p of Ptr a k v t b \<Rightarrow> Some v | _ \<Rightarrow> None)"
| "result_answer op (FoundPtr p) = Some (live_value p)"
| "result_answer op (Insertion (AlreadyPresent p)) = Some (live_value p)"
| "result_answer op (Insertion _) = Some None"

text \<open>A sequence of atomic operations explains a history: each has the result that it has on the map that the ones before it
  have made. An operation that found no place in the array has no effect.\<close>

fun explains :: "(('k, 'v) bucket_op \<times> ('k, 'v) op_result) list \<Rightarrow> ('k \<rightharpoonup> 'v) \<Rightarrow> ('k \<rightharpoonup> 'v) \<Rightarrow> bool" where
  "explains [] M M' \<longleftrightarrow> M' = M"
| "explains ((op, r) # h) M M' \<longleftrightarrow>
     (case result_answer op r of
        None \<Rightarrow> explains h M M'
      | Some x \<Rightarrow> x = map_answer op M \<and> explains h (map_effect op M) M')"

section \<open>The invariant\<close>

fun foreign :: "'k \<Rightarrow> ('k, 'v) bucket_ptr \<Rightarrow> bool" where
  "foreign key (Ptr a k v t b) \<longleftrightarrow> k \<noteq> key"
| "foreign key _ \<longleftrightarrow> False"

text \<open>The buckets that a thread has passed have other keys; that does not change, for a bucket keeps its key.\<close>

definition passed :: "('k \<Rightarrow> u64) \<Rightarrow> ('k, 'v) bucket_ptr list \<Rightarrow> ('k, 'v) bucket_op \<Rightarrow> nat \<Rightarrow> bool" where
  "passed H bs op i \<longleftrightarrow> i \<le> length (op_probe H bs op) \<and> (\<forall>j < i. foreign (op_key op) (bs ! (op_probe H bs op ! j)))"

fun thread_ok :: "('k \<Rightarrow> u64) \<Rightarrow> ('k, 'v) bucket_ptr list \<Rightarrow> ('k, 'v) bucket_thread \<Rightarrow> bool" where
  "thread_ok H bs (op, a, BLoad i) \<longleftrightarrow> passed H bs op i"
| "thread_ok H bs (op, a, BExchange i p q) \<longleftrightarrow>
     passed H bs op i \<and> i < length (op_probe H bs op) \<and> bucket_load op a i p = BExchange i p q"
| "thread_ok H bs (op, a, BDone r) \<longleftrightarrow> True"

definition conc_inv :: "('k \<Rightarrow> u64) \<Rightarrow> ('k, 'v) bucket_system \<Rightarrow> bool" where
  "conc_inv H s \<longleftrightarrow> slots_ok H (fst s) \<and> (\<forall>t \<in> set (snd s). thread_ok H (fst s) t)"

lemma slot_at:
  assumes "i < length is" "\<forall>j < i. foreign key (bs ! (is ! j))" "\<not> foreign key (bs ! (is ! i))"
  shows "slot bs key is = Some (is ! i)"
  using assms
proof (induction "is" arbitrary: i)
  case (Cons x xs)
  show ?case
  proof (cases i)
    case 0
    with Cons.prems show ?thesis by (cases "bs ! x") auto
  next
    case (Suc i')
    with Cons.prems(2) have "foreign key (bs ! x)" by auto
    moreover have "\<forall>j < i'. foreign key (bs ! (xs ! j))" using Cons.prems(2) Suc by auto
    ultimately show ?thesis using Cons.IH[of i'] Cons.prems Suc by (cases "bs ! x") auto
  qed
qed simp

lemma slot_end:
  assumes "\<forall>j < length is. foreign key (bs ! (is ! j))"
  shows "slot bs key is = None"
  using assms
proof (induction "is")
  case (Cons x xs)
  have "foreign key (bs ! x)" "\<forall>j < length xs. foreign key (bs ! (xs ! j))" using Cons.prems by auto
  then show ?case using Cons.IH by (cases "bs ! x") auto
qed simp

text \<open>Writing a bucket of a key into the slot of the key.\<close>

lemma foreign_upd:
  assumes "slot bs key is = Some x" "foreign k (bs ! y)"
  shows "foreign k (bs[x := Ptr a key v t b] ! y)"
proof (cases "y = x \<and> x < length bs")
  case True
  with assms(2) slot_Some(2)[OF assms(1)] show ?thesis by auto
next
  case False
  with assms(2) show ?thesis by (cases "x < length bs") (auto simp: nth_list_update list_update_beyond)
qed

lemma thread_ok_upd:
  assumes "slot bs key (probe (length bs) h) = Some x" "thread_ok H bs t"
  shows "thread_ok H (bs[x := Ptr a key v c b]) t"
proof -
  obtain op a' pc where t: "t = (op, a', pc)" by (cases t) auto
  show ?thesis using assms(2) foreign_upd[OF assms(1)] unfolding t by (cases pc) (auto simp: passed_def)
qed

lemma passed_next: "passed H bs op i \<Longrightarrow> i < length (op_probe H bs op) \<Longrightarrow> foreign (op_key op) (bs ! (op_probe H bs op ! i)) \<Longrightarrow> passed H bs op (i + 1)"
  by (auto simp: passed_def less_Suc_eq)

lemma bucket_load_exchange:
  assumes "bucket_load op a i p = BExchange j p' q"
  shows "j = i" "p' = p" "\<not> foreign (op_key op) p" "p \<noteq> Sentinel" "\<exists>a v t b. q = Ptr a (op_key op) v t b"
  using assms by (cases "(op, a, i, p)" rule: bucket_load.cases; auto split: if_splits)+

lemma bucket_load_next: "bucket_load op a i p = BLoad j \<longleftrightarrow> j = i + 1 \<and> foreign (op_key op) p"
  by (cases "(op, a, i, p)" rule: bucket_load.cases) auto

lemma load_done:
  assumes "bucket_load op a i p = BDone r" "p \<noteq> Sentinel" "M (op_key op) = live_value p"
  shows "result_answer op r = Some (map_answer op M)" "map_effect op M = M"
  using assms by (cases "(op, a, i, p)" rule: bucket_load.cases; auto split: if_splits)+

lemma exchange_done:
  assumes "bucket_load op a i p = BExchange j p q" "M (op_key op) = live_value p"
  shows "result_answer op (exchanged op p q) = Some (map_answer op M)" "map_effect op M = M(op_key op := live_value q)"
  using assms by (cases "(op, a, i, p)" rule: bucket_load.cases; auto split: if_splits)+

lemma bucket_map_slot:
  assumes "slots_ok H bs" "passed H bs op i" "i < length (op_probe H bs op)" "\<not> foreign (op_key op) (bs ! (op_probe H bs op ! i))"
  shows "slot bs (op_key op) (op_probe H bs op) = Some (op_probe H bs op ! i)" "op_probe H bs op ! i < length bs"
    "bs ! (op_probe H bs op ! i) \<noteq> Sentinel" "bucket_map H bs (op_key op) = live_value (bs ! (op_probe H bs op ! i))"
proof -
  show s: "slot bs (op_key op) (op_probe H bs op) = Some (op_probe H bs op ! i)"
    using assms by (intro slot_at) (auto simp: passed_def)
  show l: "op_probe H bs op ! i < length bs" by (rule slots_okD(4)[OF assms(1) s])
  show "bs ! (op_probe H bs op ! i) \<noteq> Sentinel" by (rule slots_okD(2)[OF assms(1) l])
  show "bucket_map H bs (op_key op) = live_value (bs ! (op_probe H bs op ! i))"
    using s by (cases "bs ! (op_probe H bs op ! i)") (simp_all add: bucket_map_def)
qed

lemma passed_all:
  assumes "slots_ok H bs" "passed H bs op i" "\<not> i < length (op_probe H bs op)"
  shows "bucket_map H bs (op_key op) = None" "Null \<notin> set bs"
proof -
  have all: "\<forall>j < length (op_probe H bs op). foreign (op_key op) (bs ! (op_probe H bs op ! j))"
    using assms(2,3) by (auto simp: passed_def)
  show "bucket_map H bs (op_key op) = None" using slot_end[OF all] by (simp add: bucket_map_def)
  obtain n where n: "length bs = 2 ^ n" using slots_okD(1)[OF assms(1)] by blast
  show "Null \<notin> set bs"
  proof
    assume "Null \<in> set bs"
    then obtain x where x: "x < length bs" "bs ! x = Null" by (metis in_set_conv_nth)
    then have "x \<in> set (op_probe H bs op)" using set_probe(1)[OF n] by simp
    then show False using all x by (metis foreign.simps(2) in_set_conv_nth)
  qed
qed

text \<open>What a step does to the map: it leaves it alone, or it ends the operation, which takes effect in this step.\<close>

definition linear_step :: "('k, 'v) bucket_op \<Rightarrow> ('k \<rightharpoonup> 'v) \<Rightarrow> ('k, 'v) bucket_pc \<Rightarrow> ('k \<rightharpoonup> 'v) \<Rightarrow> bool" where
  "linear_step op M pc M' \<longleftrightarrow>
     (case pc of
        BDone r \<Rightarrow> (case result_answer op r of Some x \<Rightarrow> x = map_answer op M \<and> M' = map_effect op M | None \<Rightarrow> M' = M \<and> M (op_key op) = None)
      | _ \<Rightarrow> M' = M)"

lemma bucket_step_ok:
  assumes ok: "slots_ok H bs" and t: "thread_ok H bs (op, a, pc)" and st: "bucket_step H op a spurious pc bs = Some (pc', bs')"
  shows "slots_ok H bs' \<and> thread_ok H bs' (op, a, pc') \<and> (\<forall>t. thread_ok H bs t \<longrightarrow> thread_ok H bs' t) \<and>
    linear_step op (bucket_map H bs) pc' (bucket_map H bs')"
proof (cases pc)
  case (BLoad i)
  let ?p = "bs ! (op_probe H bs op ! i)"
  have ps: "passed H bs op i" using t BLoad by simp
  show ?thesis
  proof (cases "i < length (op_probe H bs op)")
    case False
    with st BLoad passed_all[OF ok ps False] ok show ?thesis by (cases op) (auto simp: linear_step_def)
  next
    case True
    with st BLoad have r: "pc' = bucket_load op a i ?p" "bs' = bs" by auto
    note m = bucket_map_slot[OF ok ps True]
    show ?thesis
    proof (cases "bucket_load op a i ?p")
      case (BLoad j)
      with r passed_next[OF ps True] ok show ?thesis by (simp add: bucket_load_next linear_step_def)
    next
      case (BExchange j p q)
      with bucket_load_exchange[OF this] r ps True ok show ?thesis by (auto simp: linear_step_def)
    next
      case (BDone x)
      then have "\<not> foreign (op_key op) ?p" using bucket_load_next[of op a i ?p] by auto
      from load_done[where M = "bucket_map H bs", OF BDone m(3,4)[OF this]] r BDone ok show ?thesis by (simp add: linear_step_def)
    qed
  qed
next
  case (BExchange i p q)
  let ?x = "op_probe H bs op ! i"
  have ps: "passed H bs op i" "i < length (op_probe H bs op)" "bucket_load op a i p = BExchange i p q" using t BExchange by simp_all
  show ?thesis
  proof (cases "bs ! ?x = p \<and> \<not> spurious")
    case False
    with st BExchange ps ok show ?thesis by (auto simp: linear_step_def)
  next
    case True
    then have r: "pc' = BDone (exchanged op p q)" "bs' = bs[?x := q]" using st BExchange by auto
    note e = bucket_load_exchange[OF ps(3)]
    have nf: "\<not> foreign (op_key op) (bs ! ?x)" using True e(3) by simp
    note m = bucket_map_slot[OF ok ps(1,2) nf]
    obtain a' v c b where q: "q = Ptr a' (op_key op) v c b" using e(5) by blast
    have "M' = map_effect op (bucket_map H bs)" if "M' = (bucket_map H bs)(op_key op := live_value q)" for M'
      using that exchange_done(2)[OF ps(3), of "bucket_map H bs"] m(4) True by simp
    then show ?thesis
      using slots_ok_upd[OF ok m(1), of a' v c b] thread_ok_upd[OF m(1), of H _ a' v c b] r q
        exchange_done(1)[OF ps(3), of "bucket_map H bs"] m(4) True
      by (simp add: linear_step_def)
  qed
qed (use st in simp)

lemma explains_append: "explains (h @ h') M M' \<longleftrightarrow> (\<exists>M1. explains h M M1 \<and> explains h' M1 M')"
  by (induction h M M' rule: explains.induct) (auto split: option.splits)

lemma linear_explains: "linear_step op M pc M' \<Longrightarrow> explains (case pc of BDone r \<Rightarrow> [(op, r)] | _ \<Rightarrow> []) M M'"
  by (auto simp: linear_step_def split: bucket_pc.splits option.splits)

lemma conc_reachable_inv: "conc_reachable H h s \<Longrightarrow> conc_inv H s"
proof (induction rule: conc_reachable.induct)
  case (conc_init n)
  show ?case by (auto simp: conc_inv_def slots_ok_def)
next
  case (conc_spawn h bs ts op a)
  then show ?case by (simp add: conc_inv_def passed_def)
next
  case (conc_move h bs us op a pc vs spurious pc' bs')
  then show ?case using bucket_step_ok[of H bs op a pc spurious pc' bs'] by (auto simp: conc_inv_def)
qed

section \<open>Properties\<close>

text \<open>C6: The operations on a bucket array are linearizable. However the loads and exchanges of the threads interleave, and
  however often weak exchanges fail, the operations in the order in which they ended are a sequence of atomic
  operations on a map: each has the result that it would have if it ran alone at the moment at which it ended, and the array
  represents the map that results.\<close>

theorem bucket_ops_linearizable:
  assumes "conc_reachable H h (bs, ts)"
  shows "explains h Map.empty (bucket_map H bs)"
  using assms
proof (induction h "(bs, ts)" arbitrary: bs ts rule: conc_reachable.induct)
  case (conc_init n)
  have "slots_ok H (replicate (2 ^ n) Null :: ('a, 'b) bucket_ptr list)" by (auto simp: slots_ok_def)
  from bucket_map_iff[OF this] have "bucket_map H (replicate (2 ^ n) Null :: ('a, 'b) bucket_ptr list) = Map.empty"
    by (intro ext) (metis length_replicate nth_replicate bucket_ptr.distinct(3) option.exhaust)
  then show ?case by simp
next
  case (conc_move h bs us op a pc vs spurious pc' bs')
  have "conc_inv H (bs, us @ (op, a, pc) # vs)" by (rule conc_reachable_inv[OF conc_move(1)])
  then have "linear_step op (bucket_map H bs) pc' (bucket_map H bs')"
    using bucket_step_ok[OF _ _ conc_move(3)] by (auto simp: conc_inv_def)
  then show ?case using conc_move(2) linear_explains unfolding explains_append by blast
qed

text \<open>Two threads race for one bucket: the second one loads it before the first one has written it, fails, and then modifies the
  value of the first one.\<close>

lemma probe_1: "probe (Suc 0) h = [0]"
  by (simp add: probe_def)

lemma race_reachable:
  defines "A \<equiv> BInsertNew (1 :: nat) (10 :: nat)" and "B \<equiv> BModify (1 :: nat) (20 :: nat) (\<lambda>k v. v + 1)"
  shows "\<exists>bs ts. conc_reachable (\<lambda>_. 0) [(A, Insertion InsertedNew), (B, FoundPtr (Ptr 0 1 10 False False))] (bs, ts)"
proof -
  let ?R = "conc_reachable (\<lambda>_ :: nat. 0)" and ?p = "Ptr 0 1 10 False False" and ?q = "Ptr 1 1 20 False False"
  have "?R [] ([Null], [])" using conc_init[of "\<lambda>_. 0" 0] by simp
  from conc_spawn[OF conc_spawn[OF this, of A 0], of B 1]
  have "?R [] ([Null], [] @ (A, 0, BLoad 0) # [(B, 1, BLoad 0)])" by simp
  from conc_move[OF this, where spurious = False]
  have "?R [] ([Null], [(A, 0, BExchange 0 Null ?p)] @ (B, 1, BLoad 0) # [])" by (simp add: A_def probe_1)
  from conc_move[OF this, where spurious = False]
  have "?R [] ([Null], [] @ (A, 0, BExchange 0 Null ?p) # [(B, 1, BExchange 0 Null ?q)])" by (simp add: B_def probe_1)
  from conc_move[OF this, where spurious = False]
  have "?R [(A, Insertion InsertedNew)] ([?p], [(A, 0, BDone (Insertion InsertedNew))] @ (B, 1, BExchange 0 Null ?q) # [])"
    by (simp add: A_def probe_1)
  from conc_move[OF this, where spurious = False]
  have "?R [(A, Insertion InsertedNew)] ([?p], [(A, 0, BDone (Insertion InsertedNew))] @ (B, 1, BLoad 0) # [])"
    by (simp add: probe_1)
  from conc_move[OF this, where spurious = False]
  have "?R [(A, Insertion InsertedNew)] ([?p], [(A, 0, BDone (Insertion InsertedNew))] @ (B, 1, BExchange 0 ?p (Ptr 1 1 11 False False)) # [])"
    by (simp add: B_def probe_1)
  from conc_move[OF this, where spurious = False] show ?thesis by (auto simp: B_def probe_1)
qed

theorem bucket_ops_linearizable_witness:
  "\<exists>h bs ts. conc_reachable (\<lambda>_. 0) h (bs, ts) \<and> length h = 2 \<and> bucket_map (\<lambda>_. 0) bs (1 :: nat) = Some (11 :: nat)"
  using race_reachable bucket_ops_linearizable[where H = "\<lambda>_ :: nat. 0" and 'b = nat] by fastforce

section \<open>Lock freedom\<close>

text \<open>A load brings a thread nearer to its end; an exchange that fails was overtaken by one that succeeded and ended.\<close>

definition thread_weight :: "('k \<Rightarrow> u64) \<Rightarrow> ('k, 'v) bucket_ptr list \<Rightarrow> nat \<Rightarrow> ('k, 'v) bucket_thread \<Rightarrow> nat" where
  "thread_weight H bs n t =
     (case t of (op, a, pc) \<Rightarrow>
        case pc of
          BLoad i \<Rightarrow> 2 * n + 2 * (length (op_probe H bs op) - i) + 2
        | BExchange i p q \<Rightarrow> 2 * n + 2 * (length (op_probe H bs op) - i) + (if bs ! (op_probe H bs op ! i) = p then 1 else 3)
        | BDone r \<Rightarrow> 0)"

definition system_weight :: "('k \<Rightarrow> u64) \<Rightarrow> ('k, 'v) bucket_system \<Rightarrow> nat" where
  "system_weight H s = sum_list (map (thread_weight H (fst s) (length (snd s))) (snd s))"

lemma thread_weight_upd: "thread_weight H (bs[x := q]) n t \<le> thread_weight H bs n t + 2"
  by (auto simp: thread_weight_def split: bucket_pc.splits prod.splits)

lemma sum_weight_upd:
  "sum_list (map (thread_weight H (bs[x := q]) n) ts) \<le> sum_list (map (thread_weight H bs n) ts) + 2 * length ts"
proof (induction ts)
  case (Cons t ts)
  then show ?case using thread_weight_upd[of H bs x q n t] by simp
qed simp

lemma bucket_step_weight:
  assumes "bucket_step H op a False pc bs = Some (pc', bs')"
  shows "(bs' = bs \<and> thread_weight H bs n (op, a, pc') < thread_weight H bs n (op, a, pc)) \<or>
    ((\<exists>x q. bs' = bs[x := q]) \<and> thread_weight H bs' n (op, a, pc') + 2 * n < thread_weight H bs n (op, a, pc))"
proof (cases pc)
  case (BLoad i)
  show ?thesis
  proof (cases "i < length (op_probe H bs op)")
    case True
    then have r: "pc' = bucket_load op a i (bs ! (op_probe H bs op ! i))" "bs' = bs" using assms BLoad by auto
    have "thread_weight H bs n (op, a, pc') < thread_weight H bs n (op, a, pc)"
    proof (cases pc')
      case (BLoad j)
      have "j = i + 1" using bucket_load_next[of op a i "bs ! (op_probe H bs op ! i)" j] r(1) BLoad by simp
      with BLoad True \<open>pc = BLoad i\<close> show ?thesis by (simp add: thread_weight_def)
    next
      case (BExchange j p q)
      have "j = i" "p = bs ! (op_probe H bs op ! i)"
        using bucket_load_exchange(1,2)[of op a i "bs ! (op_probe H bs op ! i)" j p q] r(1) BExchange by simp_all
      with BExchange \<open>pc = BLoad i\<close> show ?thesis by (simp add: thread_weight_def)
    qed (use \<open>pc = BLoad i\<close> in \<open>simp add: thread_weight_def\<close>)
    then show ?thesis using r(2) by simp
  qed (use assms BLoad in \<open>auto simp: thread_weight_def\<close>)
qed (use assms in \<open>auto simp: thread_weight_def Let_def split: if_splits\<close>)

lemma conc_step_weight_False: "conc_step H False s s' \<Longrightarrow> system_weight H s' < system_weight H s"
proof (induction rule: conc_step.induct)
  case (conc_step op a pc bs pc' bs' us vs)
  let ?n = "length (us @ (op, a, pc) # vs)"
  from bucket_step_weight[OF conc_step, of ?n] show ?case
  proof
    assume "(\<exists>x q. bs' = bs[x := q]) \<and> thread_weight H bs' ?n (op, a, pc') + 2 * ?n < thread_weight H bs ?n (op, a, pc)"
    then obtain x q where b: "bs' = bs[x := q]" and w: "thread_weight H bs' ?n (op, a, pc') + 2 * ?n < thread_weight H bs ?n (op, a, pc)"
      by blast
    have "sum_list (map (thread_weight H bs' ?n) ts) \<le> sum_list (map (thread_weight H bs ?n) ts) + 2 * length ts" for ts
      unfolding b by (rule sum_weight_upd)
    from this[of us] this[of vs] w show ?thesis by (simp add: system_weight_def)
  qed (simp add: system_weight_def)
qed

text \<open>An exchange that fails although its bucket has not changed costs the thread a load and the next exchange.\<close>

lemma bucket_step_weight_spurious:
  assumes "bucket_step H op a True pc bs = Some (pc', bs')"
  shows "bs' = bs \<and> thread_weight H bs n (op, a, pc') < thread_weight H bs n (op, a, pc) + 2"
proof (cases pc)
  case (BLoad i)
  then have "bucket_step H op a False pc bs = Some (pc', bs')" "bs' = bs" using assms by auto
  then show ?thesis using bucket_step_weight[of H op a pc bs pc' bs' n] by auto
qed (use assms in \<open>auto simp: thread_weight_def Let_def\<close>)

lemma conc_step_weight_True: "conc_step H True s s' \<Longrightarrow> system_weight H s' < system_weight H s + 2"
proof (induction rule: conc_step.induct)
  case (conc_step op a pc bs pc' bs' us vs)
  from bucket_step_weight_spurious[OF conc_step, of "length (us @ (op, a, pc) # vs)"] show ?case by (simp add: system_weight_def)
qed

lemma conc_run_weight: "conc_run H fs s s' \<Longrightarrow> length fs + system_weight H s' \<le> system_weight H s + 2 * count_list fs True"
proof (induction rule: conc_run.induct)
  case (conc_run_Cons spurious s s' fs s'')
  then show ?case using conc_step_weight_False[of H s s'] conc_step_weight_True[of H s s'] by (cases spurious) auto
qed simp

lemma sum_weight_bound: "(\<And>t. t \<in> set ts \<Longrightarrow> f t \<le> B) \<Longrightarrow> sum_list (map f ts) \<le> length ts * (B :: nat)"
  by (induction ts) (auto simp: add_mono)

text \<open>C22: The operations are lock-free, with a bound. In every interleaving in which at most \<open>f\<close> weak exchanges fail although
  the bucket has not changed, \<open>n\<close> threads on an array of \<open>L\<close> buckets take at most \<open>n * (2 * n + 2 * L + 3) + 2 * f\<close>
  steps altogether; as long as a thread has not ended it can take a step.\<close>

theorem bucket_ops_end:
  assumes "conc_reachable H h (bs, ts)"
  shows "(conc_run H fs (bs, ts) s' \<longrightarrow> length fs \<le> length ts * (2 * length ts + 2 * length bs + 3) + 2 * count_list fs True) \<and>
    ((op, a, pc) \<in> set ts \<longrightarrow> (\<forall>r. pc \<noteq> BDone r) \<longrightarrow> bucket_step H op a spurious pc bs \<noteq> None)"
proof (intro conjI impI)
  obtain n where n: "length bs = 2 ^ n"
    using conc_reachable_inv[OF assms] slots_okD(1)[of H bs] by (auto simp: conc_inv_def)
  have "thread_weight H bs (length ts) t \<le> 2 * length ts + 2 * length bs + 3" for t :: "('a, 'b) bucket_thread"
    using set_probe(3)[OF n] by (auto simp: thread_weight_def split: bucket_pc.splits prod.splits)
  then have "system_weight H (bs, ts) \<le> length ts * (2 * length ts + 2 * length bs + 3)"
    by (simp add: system_weight_def sum_weight_bound)
  moreover assume "conc_run H fs (bs, ts) s'"
  ultimately show "length fs \<le> length ts * (2 * length ts + 2 * length bs + 3) + 2 * count_list fs True"
    using conc_run_weight[of H fs "(bs, ts)" s'] by linarith
next
  assume "\<forall>r. pc \<noteq> BDone r"
  then show "bucket_step H op a spurious pc bs \<noteq> None" by (cases pc) (simp_all add: Let_def)
qed

theorem bucket_ops_end_witness:
  "\<exists>s'. conc_run (\<lambda>_. 0) [False, True, False, False] ([Null], [(BInsertNew (1 :: nat) (10 :: nat), 0, BLoad 0)]) s' \<and>
     length [False, True, False, False] \<le> 7 + 2 * count_list [False, True, False, False] True"
proof -
  let ?op = "BInsertNew (1 :: nat) (10 :: nat)" and ?p = "Ptr 0 1 10 False False"
  have st: "conc_step (\<lambda>_. 0) sp (bs, [(?op, 0, pc)]) (bs', [(?op, 0, pc')])" if "bucket_step (\<lambda>_. 0) ?op 0 sp pc bs = Some (pc', bs')" for sp pc bs pc' bs'
    using conc_step[of "\<lambda>_. 0" ?op 0 sp pc bs pc' bs' "[]" "[]"] that by simp
  let ?s0 = "([Null], [(?op, 0, BLoad 0)])" and ?s1 = "([Null], [(?op, 0, BExchange 0 Null ?p)])"
    and ?s2 = "([?p], [(?op, 0, BDone (Insertion InsertedNew))])"
  have "conc_step (\<lambda>_. 0) False ?s0 ?s1" "conc_step (\<lambda>_. 0) True ?s1 ?s0" "conc_step (\<lambda>_. 0) False ?s1 ?s2"
    by (rule st, simp add: probe_1)+
  then have run: "conc_run (\<lambda>_. 0) [False, True, False, False] ?s0 ?s2" by (meson conc_run_Cons conc_run_Nil)
  have r: "conc_reachable (\<lambda>_. 0) [] ([Null], [(?op, 0, BLoad 0)])"
    using conc_spawn[OF conc_init[of "\<lambda>_. 0" 0], of ?op 0] by simp
  show ?thesis using bucket_ops_end[OF r, of "[False, True, False, False]"] run by fastforce
qed

end
