(* ===== verification/Segmented_Cache.thy ===== *)
theory Segmented_Cache
  imports Cache_Lookup Value_Initializer Cht_Map
begin

text \<open>
  The segmented cache (\<open>src/src/sync/segment.rs\<close>): independent caches, one of which the most
  significant bits of the hash of a key select. A segment is a cache together with its configuration;
  all segments have the same configuration but for the readings of the clock. The name is used for logging only
  and is left out.
\<close>

section \<open>State\<close>

record ('k, 'v) seg_cache =
  sc_desired_capacity :: "u64 option"
  sc_segments :: "(('k, 'v) config \<times> ('k, 'v) base_cache) list"
  sc_hash :: "'k \<Rightarrow> u64"
  sc_segment_shift :: nat

text \<open>The capacity of a segment: \<open>(n as f64 / actual_num_segments as f64).ceil() as u64\<close>.\<close>

definition f64_ceil :: "nat \<times> int \<Rightarrow> nat \<times> int" where
  "f64_ceil x = (if 0 \<le> snd x then x else ((fst x + 2 ^ nat (- snd x) - 1) div 2 ^ nat (- snd x), 0))"

definition seg_max_capacity :: "nat \<Rightarrow> u64 \<Rightarrow> u64" where
  "seg_max_capacity actual_num n =
     u64_of_f64 (f64_ceil (f64_div (f64_of_u64 n) (f64_of_u64 (word_of_nat actual_num))))"

definition seg_init_capacity :: "nat \<Rightarrow> nat \<Rightarrow> nat" where
  "seg_init_capacity actual_num cap =
     unat (u64_of_f64 (f64_ceil (f64_div (f64_of_u64 (word_of_nat cap)) (f64_of_u64 (word_of_nat actual_num)))))"

definition segment_config ::
  "('k, 'v) config \<Rightarrow> nat \<Rightarrow> (nat \<Rightarrow> nat \<Rightarrow> instant) \<Rightarrow> nat \<Rightarrow> ('k, 'v) config" where
  "segment_config cf actual_num clocks i =
     cf\<lparr>cf_max_capacity := map_option (seg_max_capacity actual_num) (cf_max_capacity cf), cf_clock := clocks i,
        cf_fast_now := (\<lambda>_. cf_fast_now cf i),
        cf_initial_capacity := map_option (seg_init_capacity actual_num) (cf_initial_capacity cf)\<rparr>"

text \<open>\<open>Inner::new\<close>. \<open>clocks i\<close> are the readings of the clock by the segment \<open>i\<close>.\<close>

definition seg_cache_new ::
  "'k key_hash \<Rightarrow> ('k, 'v) config \<Rightarrow> (nat \<Rightarrow> nat \<Rightarrow> instant) \<Rightarrow> ('k \<Rightarrow> 'v \<Rightarrow> removal_cause \<Rightarrow> bool) option \<Rightarrow>
    housekeeper_config \<Rightarrow> bool \<Rightarrow> nat \<Rightarrow> ('k, 'v) seg_cache or_panic" where
  "seg_cache_new kh cf clocks listener hk_config invalidator_enabled num_segments =
     (if num_segments = 0 then None
      else do {
        actual_num \<leftarrow> next_power_of_two_usize num_segments;
        Some \<lparr>sc_desired_capacity = cf_max_capacity cf,
              sc_segments = map (\<lambda>i. let c = segment_config cf actual_num clocks i
                                     in (c, base_cache_new kh c listener hk_config invalidator_enabled)) [0..<actual_num],
              sc_hash = cf_hash cf,
              sc_segment_shift = 64 - trailing_zeros_usize actual_num\<rparr> })"

definition sc_segment_index_from_hash :: "('k, 'v) seg_cache \<Rightarrow> u64 \<Rightarrow> nat" where
  "sc_segment_index_from_hash sc hash =
     (if sc_segment_shift sc = 64 then 0 else unat (drop_bit (sc_segment_shift sc) hash))"

text \<open>\<open>self.inner.select(self.inner.hash(key))\<close> with an operation of the segment; an index out of range panics.\<close>

definition select ::
  "('k, 'v) seg_cache \<Rightarrow> 'k \<Rightarrow> (('k, 'v) config \<Rightarrow> ('k, 'v) base_cache \<Rightarrow> (('k, 'v) base_cache \<times> 'a) or_panic) \<Rightarrow>
    (('k, 'v) seg_cache \<times> 'a) or_panic" where
  "select sc key op =
     (let i = sc_segment_index_from_hash sc (sc_hash sc key)
      in if i < length (sc_segments sc)
         then (let (cf, bc) = sc_segments sc ! i
               in do { (bc, r) \<leftarrow> op cf bc; Some (sc\<lparr>sc_segments := (sc_segments sc)[i := (cf, bc)]\<rparr>, r) })
         else None)"

section \<open>Operations on one key\<close>

definition sc_contains_key :: "('k, 'v) seg_cache \<Rightarrow> 'k \<Rightarrow> (('k, 'v) seg_cache \<times> bool) or_panic" where
  "sc_contains_key sc key = select sc key (\<lambda>cf bc. Some (contains_key_with_hash cf key bc))"

definition sc_get :: "('k, 'v) seg_cache \<Rightarrow> 'k \<Rightarrow> (('k, 'v) seg_cache \<times> 'v option) or_panic" where
  "sc_get sc key =
     select sc key (\<lambda>cf bc. do { (bc, e) \<leftarrow> get_with_hash cf False key (sc_hash sc key) bc; Some (bc, map_option en_value e) })"

definition sc_insert :: "('k, 'v) seg_cache \<Rightarrow> 'k \<Rightarrow> 'v \<Rightarrow> ('k, 'v) seg_cache or_panic" where
  "sc_insert sc key value =
     do { (sc, _) \<leftarrow> select sc key (\<lambda>cf bc. do { bc \<leftarrow> insert_with_hash cf key (sc_hash sc key) value bc; Some (bc, ()) });
          Some sc }"

definition sc_invalidate :: "('k, 'v) seg_cache \<Rightarrow> 'k \<Rightarrow> ('k, 'v) seg_cache or_panic" where
  "sc_invalidate sc key =
     do { (sc, _) \<leftarrow> select sc key (\<lambda>cf bc. invalidate_with_hash cf key (sc_hash sc key) False bc); Some sc }"

definition sc_remove :: "('k, 'v) seg_cache \<Rightarrow> 'k \<Rightarrow> (('k, 'v) seg_cache \<times> 'v option) or_panic" where
  "sc_remove sc key = select sc key (\<lambda>cf bc. invalidate_with_hash cf key (sc_hash sc key) True bc)"

text \<open>The functions that compute values: the segment looks the key up and, when it finds nothing, goes on with a
  call of its own \<open>ValueInitializer\<close>.\<close>

definition sc_get_with ::
  "('k, 'v) seg_cache \<Rightarrow> 'k \<Rightarrow> 'v or_panic \<Rightarrow> (('k, 'v) seg_cache \<times> (('k, 'v) entry + ('k, 'v, 'e) init_call)) or_panic" where
  "sc_get_with sc key init = select sc key (\<lambda>cf bc. get_or_insert_with_hash_and_fun cf key init None False bc)"

definition sc_get_with_by_ref ::
  "('k, 'v) seg_cache \<Rightarrow> 'k \<Rightarrow> 'v or_panic \<Rightarrow> (('k, 'v) seg_cache \<times> (('k, 'v) entry + ('k, 'v, 'e) init_call)) or_panic" where
  "sc_get_with_by_ref sc key init = select sc key (\<lambda>cf bc. get_or_insert_with_hash_by_ref_and_fun cf key init None False bc)"

definition sc_get_with_if ::
  "('k, 'v) seg_cache \<Rightarrow> 'k \<Rightarrow> 'v or_panic \<Rightarrow> ('v \<Rightarrow> bool) \<Rightarrow>
    (('k, 'v) seg_cache \<times> (('k, 'v) entry + ('k, 'v, 'e) init_call)) or_panic" where
  "sc_get_with_if sc key init replace_if =
     select sc key (\<lambda>cf bc. get_or_insert_with_hash_and_fun cf key init (Some replace_if) False bc)"

definition sc_optionally_get_with ::
  "('k, 'v) seg_cache \<Rightarrow> 'e \<Rightarrow> 'k \<Rightarrow> 'v option or_panic \<Rightarrow>
    (('k, 'v) seg_cache \<times> (('k, 'v) entry + ('k, 'v, 'e) init_call)) or_panic" where
  "sc_optionally_get_with sc optionally_none key init =
     select sc key (\<lambda>cf bc. get_or_optionally_insert_with_hash_and_fun cf optionally_none key init False bc)"

definition sc_optionally_get_with_by_ref ::
  "('k, 'v) seg_cache \<Rightarrow> 'e \<Rightarrow> 'k \<Rightarrow> 'v option or_panic \<Rightarrow>
    (('k, 'v) seg_cache \<times> (('k, 'v) entry + ('k, 'v, 'e) init_call)) or_panic" where
  "sc_optionally_get_with_by_ref sc optionally_none key init =
     select sc key (\<lambda>cf bc. get_or_optionally_insert_with_hash_by_ref_and_fun cf optionally_none key init False bc)"

definition sc_try_get_with ::
  "('k, 'v) seg_cache \<Rightarrow> type_id \<Rightarrow> 'k \<Rightarrow> ('e + 'v) or_panic \<Rightarrow>
    (('k, 'v) seg_cache \<times> (('k, 'v) entry + ('k, 'v, 'e) init_call)) or_panic" where
  "sc_try_get_with sc E key init = select sc key (\<lambda>cf bc. get_or_try_insert_with_hash_and_fun cf E key init False bc)"

definition sc_try_get_with_by_ref ::
  "('k, 'v) seg_cache \<Rightarrow> type_id \<Rightarrow> 'k \<Rightarrow> ('e + 'v) or_panic \<Rightarrow>
    (('k, 'v) seg_cache \<times> (('k, 'v) entry + ('k, 'v, 'e) init_call)) or_panic" where
  "sc_try_get_with_by_ref sc E key init = select sc key (\<lambda>cf bc. get_or_try_insert_with_hash_by_ref_and_fun cf E key init False bc)"

section \<open>Operations on all segments\<close>

fun each_segment ::
  "(('k, 'v) config \<Rightarrow> ('k, 'v) base_cache \<Rightarrow> ('k, 'v) base_cache or_panic) \<Rightarrow>
    (('k, 'v) config \<times> ('k, 'v) base_cache) list \<Rightarrow> (('k, 'v) config \<times> ('k, 'v) base_cache) list or_panic" where
  "each_segment op [] = Some []"
| "each_segment op ((cf, bc) # segs) =
     do { bc \<leftarrow> op cf bc; segs \<leftarrow> each_segment op segs; Some ((cf, bc) # segs) }"

definition sc_invalidate_all :: "('k, 'v) seg_cache \<Rightarrow> ('k, 'v) seg_cache or_panic" where
  "sc_invalidate_all sc =
     do { segs \<leftarrow> each_segment (\<lambda>cf bc. Some (Sync_Cache.invalidate_all cf bc)) (sc_segments sc); Some (sc\<lparr>sc_segments := segs\<rparr>) }"

definition sc_run_pending_tasks :: "('k, 'v) seg_cache \<Rightarrow> ('k, 'v) seg_cache or_panic" where
  "sc_run_pending_tasks sc =
     do { segs \<leftarrow> each_segment run_pending_tasks (sc_segments sc); Some (sc\<lparr>sc_segments := segs\<rparr>) }"

text \<open>\<open>invalidate_entries_if\<close>: the first error ends the loop.\<close>

fun invalidate_if_loop ::
  "(nat \<Rightarrow> string) \<Rightarrow> ('k \<Rightarrow> 'v \<Rightarrow> bool) \<Rightarrow> (('k, 'v) config \<times> ('k, 'v) base_cache) list \<Rightarrow>
    ((('k, 'v) config \<times> ('k, 'v) base_cache) list \<times> (predicate_error + unit)) or_panic" where
  "invalidate_if_loop uuid predicate [] = Some ([], Inr ())"
| "invalidate_if_loop uuid predicate ((cf, bc) # segs) =
     do { (bc, r) \<leftarrow> invalidate_entries_if cf uuid predicate bc;
          (case r of
             Inl e \<Rightarrow> Some ((cf, bc) # segs, Inl e)
           | Inr _ \<Rightarrow> do { (segs, r) \<leftarrow> invalidate_if_loop uuid predicate segs; Some ((cf, bc) # segs, r) }) }"

definition sc_invalidate_entries_if ::
  "(nat \<Rightarrow> string) \<Rightarrow> ('k \<Rightarrow> 'v \<Rightarrow> bool) \<Rightarrow> ('k, 'v) seg_cache \<Rightarrow> (('k, 'v) seg_cache \<times> (predicate_error + unit)) or_panic" where
  "sc_invalidate_entries_if uuid predicate sc =
     do { (segs, r) \<leftarrow> invalidate_if_loop uuid predicate (sc_segments sc); Some (sc\<lparr>sc_segments := segs\<rparr>, r) }"

definition sc_entry_count :: "('k, 'v) seg_cache \<Rightarrow> u64" where
  "sc_entry_count sc = sum_list (map (\<lambda>(cf, bc). in_entry_count (bc_inner bc)) (sc_segments sc))"

definition sc_weighted_size :: "('k, 'v) seg_cache \<Rightarrow> u64" where
  "sc_weighted_size sc = sum_list (map (\<lambda>(cf, bc). in_weighted_size (bc_inner bc)) (sc_segments sc))"

definition sc_policy :: "('k, 'v) seg_cache \<Rightarrow> policy or_panic" where
  "sc_policy sc =
     (case sc_segments sc of
        [] \<Rightarrow> None
      | (cf, _) # _ \<Rightarrow> Some ((inner_policy cf)\<lparr>po_max_capacity := sc_desired_capacity sc, po_num_segments := length (sc_segments sc)\<rparr>))"

section \<open>The invariant and the contents\<close>

definition sc_ok :: "('k, 'v) seg_cache \<Rightarrow> bool" where
  "sc_ok sc \<longleftrightarrow> (\<exists>n \<le> 64. length (sc_segments sc) = 2 ^ n \<and> sc_segment_shift sc = 64 - n) \<and>
     (\<forall>i < length (sc_segments sc). case sc_segments sc ! i of (cf, bc) \<Rightarrow>
        live cf \<and> bc_inv cf {} bc \<and> cf_hash cf = sc_hash sc \<and>
        (\<forall>k \<in> dom (table (bc, [])). sc_segment_index_from_hash sc (sc_hash sc k) = i))"

definition sc_table :: "('k, 'v) seg_cache \<Rightarrow> 'k \<rightharpoonup> 'v" where
  "sc_table sc k = table (snd (sc_segments sc ! sc_segment_index_from_hash sc (sc_hash sc k)), []) k"

lemma sc_okD:
  assumes "sc_ok sc"
  shows "sc_segment_index_from_hash sc hash < length (sc_segments sc)"
    "i < length (sc_segments sc) \<Longrightarrow> sc_segments sc ! i = (cf, bc) \<Longrightarrow>
      live cf \<and> bc_inv cf {} bc \<and> cf_hash cf = sc_hash sc \<and>
      (\<forall>k \<in> dom (table (bc, [])). sc_segment_index_from_hash sc (sc_hash sc k) = i)"
proof -
  show "sc_segment_index_from_hash sc hash < length (sc_segments sc)"
    using assms top_bits_less[of _ hash] by (auto simp: sc_ok_def sc_segment_index_from_hash_def)
  show "i < length (sc_segments sc) \<Longrightarrow> sc_segments sc ! i = (cf, bc) \<Longrightarrow>
      live cf \<and> bc_inv cf {} bc \<and> cf_hash cf = sc_hash sc \<and>
      (\<forall>k \<in> dom (table (bc, [])). sc_segment_index_from_hash sc (sc_hash sc k) = i)"
    using assms unfolding sc_ok_def by fastforce
qed

text \<open>Replacing the caches of the segments by ones whose tables have no keys of other segments.\<close>

lemma sc_ok_replace:
  assumes ok: "sc_ok sc" and len: "length segs = length (sc_segments sc)"
    and segs: "\<And>i cf bc. i < length segs \<Longrightarrow> segs ! i = (cf, bc) \<Longrightarrow>
      live cf \<and> bc_inv cf {} bc \<and> cf_hash cf = sc_hash sc \<and> (\<forall>k \<in> dom (table (bc, [])). sc_segment_index_from_hash sc (sc_hash sc k) = i)"
  shows "sc_ok (sc\<lparr>sc_segments := segs\<rparr>)"
proof -
  have "sc_segment_index_from_hash (sc\<lparr>sc_segments := segs\<rparr>) = sc_segment_index_from_hash sc"
    by (simp add: sc_segment_index_from_hash_def fun_eq_iff)
  moreover have "case segs ! i of (cf, bc) \<Rightarrow> live cf \<and> bc_inv cf {} bc \<and> cf_hash cf = sc_hash sc \<and>
      (\<forall>k \<in> dom (table (bc, [])). sc_segment_index_from_hash sc (sc_hash sc k) = i)" if "i < length segs" for i
    using segs[OF that] by (cases "segs ! i") simp
  ultimately show ?thesis using ok len unfolding sc_ok_def by simp
qed

lemma select_yields:
  assumes ok: "sc_ok sc"
    and op: "\<And>cf bc. live cf \<Longrightarrow> bc_inv cf {} bc \<Longrightarrow> cf_hash cf = sc_hash sc \<Longrightarrow>
      yields (\<lambda>(bc', r). bc_inv cf {} bc' \<and> table (bc', []) \<subseteq>\<^sub>m (table (bc, []))(key := upd (table (bc, []) key)) \<and>
        Q (table (bc, []) key) r) (op cf bc)"
  shows "yields (\<lambda>(sc', r). sc_ok sc' \<and> sc_table sc' \<subseteq>\<^sub>m (sc_table sc)(key := upd (sc_table sc key)) \<and> Q (sc_table sc key) r)
    (select sc key op)"
proof -
  let ?ix = "sc_segment_index_from_hash sc" and ?i = "sc_segment_index_from_hash sc (sc_hash sc key)"
  obtain cf bc where s: "sc_segments sc ! ?i = (cf, bc)" by (cases "sc_segments sc ! ?i")
  note i = sc_okD(1)[OF ok, of "sc_hash sc key"] and d = sc_okD(2)[OF ok _ s]
  obtain bc' r where r: "op cf bc = Some (bc', r)" "bc_inv cf {} bc'"
    "table (bc', []) \<subseteq>\<^sub>m (table (bc, []))(key := upd (table (bc, []) key))" "Q (table (bc, []) key) r"
    using op[of cf bc] d[OF i] by (auto simp: yields_def)
  let ?sc = "sc\<lparr>sc_segments := (sc_segments sc)[?i := (cf, bc')]\<rparr>"
  have tk: "sc_table sc key = table (bc, []) key" by (simp add: sc_table_def s)
  have home: "\<forall>k \<in> dom (table (bc', [])). ?ix (sc_hash sc k) = ?i"
  proof
    fix k assume "k \<in> dom (table (bc', []))"
    with map_le_implies_dom_le[OF r(3)] have "k = key \<or> k \<in> dom (table (bc, []))" by (auto split: if_splits)
    then show "?ix (sc_hash sc k) = ?i" using d[OF i] by auto
  qed
  have "sc_ok ?sc"
  proof (rule sc_ok_replace[OF ok])
    fix j cf' bc2 assume j: "j < length ((sc_segments sc)[?i := (cf, bc')])" "(sc_segments sc)[?i := (cf, bc')] ! j = (cf', bc2)"
    show "live cf' \<and> bc_inv cf' {} bc2 \<and> cf_hash cf' = sc_hash sc \<and> (\<forall>k \<in> dom (table (bc2, [])). ?ix (sc_hash sc k) = j)"
    proof (cases "j = ?i")
      case True
      then show ?thesis using j d[OF i] r(2) home by simp
    next
      case False
      then show ?thesis using j sc_okD(2)[OF ok, of j cf' bc2] by simp
    qed
  qed simp
  moreover have "sc_table ?sc \<subseteq>\<^sub>m (sc_table sc)(key := upd (sc_table sc key))"
    unfolding map_le_def
  proof
    have ix: "sc_segment_index_from_hash ?sc = ?ix" by (simp add: sc_segment_index_from_hash_def fun_eq_iff)
    fix k assume k: "k \<in> dom (sc_table ?sc)"
    show "sc_table ?sc k = ((sc_table sc)(key := upd (sc_table sc key))) k"
    proof (cases "?ix (sc_hash sc k) = ?i")
      case True
      then have t: "sc_table ?sc k = table (bc', []) k" "sc_table sc k = table (bc, []) k"
        using i s unfolding sc_table_def ix by simp_all
      then have "k \<in> dom (table (bc', []))" using k by (simp add: domIff)
      with r(3) show ?thesis unfolding t tk map_le_def by (auto simp: t)
    next
      case False
      then show ?thesis using i unfolding sc_table_def ix by auto
    qed
  qed
  ultimately show ?thesis using i s r(1,4) tk by (simp add: select_def Let_def yields_def)
qed

lemma each_segment_ok:
  assumes "\<And>cf bc. (cf, bc) \<in> set segs \<Longrightarrow> yields (\<lambda>bc'. P cf bc bc') (op cf bc)"
  shows "yields (\<lambda>segs'. length segs' = length segs \<and>
    (\<forall>i < length segs. fst (segs' ! i) = fst (segs ! i) \<and> P (fst (segs ! i)) (snd (segs ! i)) (snd (segs' ! i)))) (each_segment op segs)"
  using assms
proof (induction segs)
  case (Cons s segs)
  obtain cf bc where s: "s = (cf, bc)" by (cases s)
  have "yields (\<lambda>bc'. P cf bc bc') (op cf bc)" using Cons.prems[of cf bc] s by simp
  moreover have "yields (\<lambda>segs'. length segs' = length segs \<and>
      (\<forall>i < length segs. fst (segs' ! i) = fst (segs ! i) \<and> P (fst (segs ! i)) (snd (segs ! i)) (snd (segs' ! i)))) (each_segment op segs)"
    by (rule Cons.IH) (use Cons.prems in auto)
  ultimately show ?case unfolding s yields_def by (auto simp: nth_Cons less_Suc_eq_0_disj split: nat.split)
qed simp

text \<open>An operation on all segments that keeps the invariant of a cache and adds nothing to its table.\<close>

lemma segments_shrink:
  assumes ok: "sc_ok sc" and len: "length segs = length (sc_segments sc)"
    and segs: "\<forall>i < length segs. fst (segs ! i) = fst (sc_segments sc ! i) \<and>
      bc_inv (fst (segs ! i)) {} (snd (segs ! i)) \<and> table (snd (segs ! i), []) \<subseteq>\<^sub>m table (snd (sc_segments sc ! i), [])"
  shows "sc_ok (sc\<lparr>sc_segments := segs\<rparr>)" "sc_table (sc\<lparr>sc_segments := segs\<rparr>) \<subseteq>\<^sub>m sc_table sc"
proof -
  show "sc_ok (sc\<lparr>sc_segments := segs\<rparr>)"
  proof (rule sc_ok_replace[OF ok len])
    fix i cf bc assume i: "i < length segs" "segs ! i = (cf, bc)"
    obtain cf' bc' where s: "sc_segments sc ! i = (cf', bc')" by (cases "sc_segments sc ! i")
    note d = sc_okD(2)[OF ok _ s] and g = segs[rule_format, OF i(1)]
    have "dom (table (bc, [])) \<subseteq> dom (table (bc', []))" using g i(2) s map_le_implies_dom_le by fastforce
    then show "live cf \<and> bc_inv cf {} bc \<and> cf_hash cf = sc_hash sc \<and> (\<forall>k \<in> dom (table (bc, [])). sc_segment_index_from_hash sc (sc_hash sc k) = i)"
      using d g i s len by auto
  qed
  show "sc_table (sc\<lparr>sc_segments := segs\<rparr>) \<subseteq>\<^sub>m sc_table sc"
    unfolding map_le_def
  proof
    have ix: "sc_segment_index_from_hash (sc\<lparr>sc_segments := segs\<rparr>) = sc_segment_index_from_hash sc"
      by (simp add: sc_segment_index_from_hash_def fun_eq_iff)
    fix k assume k: "k \<in> dom (sc_table (sc\<lparr>sc_segments := segs\<rparr>))"
    note g = segs[rule_format, of "sc_segment_index_from_hash sc (sc_hash sc k)"]
    have "sc_segment_index_from_hash sc (sc_hash sc k) < length segs" using sc_okD(1)[OF ok] len by simp
    with g k show "sc_table (sc\<lparr>sc_segments := segs\<rparr>) k = sc_table sc k"
      unfolding sc_table_def ix by (auto simp: map_le_def sc_table_def ix)
  qed
qed

section \<open>The operations return and implement a lossy map\<close>

lemma bc_step_op:
  assumes "live cf" "bc_inv cf {} bc"
  shows "yields (\<lambda>bc'. bc_inv cf {} bc' \<and> table (bc', []) \<subseteq>\<^sub>m (table (bc, []))(key \<mapsto> value)) (insert_with_hash cf key (cf_hash cf key) value bc)"
    and "yields (\<lambda>(bc', r). bc_inv cf {} bc' \<and> table (bc', []) \<subseteq>\<^sub>m (table (bc, []))(key := None) \<and> r = (if need_value then table (bc, []) key else None))
      (invalidate_with_hash cf key hash need_value bc)"
    and "yields (\<lambda>(bc', r). bc_inv cf {} bc' \<and> table (bc', []) \<subseteq>\<^sub>m table (bc, []) \<and> (r = None \<or> r = table (bc, []) key)) (get cf key bc)"
    and "yields (\<lambda>bc'. bc_inv cf {} bc' \<and> table (bc', []) \<subseteq>\<^sub>m table (bc, []) \<and>
      in_read_op_ch (bc_inner bc') = [] \<and> in_write_op_ch (bc_inner bc') = []) (run_pending_tasks cf bc)"
    and "bc_inv cf {} (Sync_Cache.invalidate_all cf bc) \<and> table (Sync_Cache.invalidate_all cf bc, []) = table (bc, [])"
    and "invalidate_entries_if cf uuid predicate bc = Some (bc', r) \<Longrightarrow> bc_inv cf {} bc' \<and> table (bc', []) = table (bc, [])"
proof -
  have inv: "sys_inv cf (bc, [])" using assms(2) by (simp add: sys_inv_def)
  note l = liveD[OF assms(1)]
  show "yields (\<lambda>bc'. bc_inv cf {} bc' \<and> table (bc', []) \<subseteq>\<^sub>m (table (bc, []))(key \<mapsto> value)) (insert_with_hash cf key (cf_hash cf key) value bc)"
    using insert_with_hash_yields[OF assms(2) l, of key "value"]
    by (rule yields_mono) (auto simp: insert_post_def maintained_def table_def map_le_def dom_def split: if_splits)
  show "yields (\<lambda>(bc', r). bc_inv cf {} bc' \<and> table (bc', []) \<subseteq>\<^sub>m (table (bc, []))(key := None) \<and> r = (if need_value then table (bc, []) key else None))
      (invalidate_with_hash cf key hash need_value bc)"
    using invalidate_with_hash_yields[OF assms(2) l, of key need_value hash]
    by (rule yields_mono) (auto simp: table_def map_le_def dom_def split: if_splits)
  show "yields (\<lambda>(bc', r). bc_inv cf {} bc' \<and> table (bc', []) \<subseteq>\<^sub>m table (bc, []) \<and> (r = None \<or> r = table (bc, []) key)) (get cf key bc)"
    using get_step[OF assms(1) inv, of key] by (rule yields_mono) (auto simp: sys_inv_def)
  show "yields (\<lambda>bc'. bc_inv cf {} bc' \<and> table (bc', []) \<subseteq>\<^sub>m table (bc, []) \<and>
      in_read_op_ch (bc_inner bc') = [] \<and> in_write_op_ch (bc_inner bc') = []) (run_pending_tasks cf bc)"
    using maintain_step[OF assms(1) inv] by (rule yields_mono) (auto simp: sys_inv_def)
  show "bc_inv cf {} (Sync_Cache.invalidate_all cf bc) \<and> table (Sync_Cache.invalidate_all cf bc, []) = table (bc, [])"
    using invalidate_all_step[OF assms(1) inv] by (simp add: sys_inv_def)
  show "invalidate_entries_if cf uuid predicate bc = Some (bc', r) \<Longrightarrow> bc_inv cf {} bc' \<and> table (bc', []) = table (bc, [])"
    using invalidate_if_step[OF assms(1) inv, of uuid predicate bc' r] by (simp add: sys_inv_def)
qed

lemma sc_insert_yields:
  assumes "sc_ok sc"
  shows "yields (\<lambda>sc'. sc_ok sc' \<and> sc_table sc' \<subseteq>\<^sub>m (sc_table sc)(key \<mapsto> value)) (sc_insert sc key value)"
proof -
  have "yields (\<lambda>(sc', _). sc_ok sc' \<and> sc_table sc' \<subseteq>\<^sub>m (sc_table sc)(key := (\<lambda>_. Some value) (sc_table sc key)) \<and> (\<lambda>_ _. True) (sc_table sc key) ())
      (select sc key (\<lambda>cf bc. do { bc \<leftarrow> insert_with_hash cf key (sc_hash sc key) value bc; Some (bc, ()) }))"
  proof (rule select_yields[OF assms])
    fix cf :: "('a, 'b) config" and bc assume h: "live cf" "bc_inv cf {} bc" "cf_hash cf = sc_hash sc"
    from bc_step_op(1)[OF h(1,2), of key "value"]
    show "yields (\<lambda>(bc', r). bc_inv cf {} bc' \<and> table (bc', []) \<subseteq>\<^sub>m (table (bc, []))(key := (\<lambda>_. Some value) (table (bc, []) key)) \<and>
        (\<lambda>_ _. True) (table (bc, []) key) r) (do { bc \<leftarrow> insert_with_hash cf key (sc_hash sc key) value bc; Some (bc, ()) })"
      unfolding h(3) by simp
  qed
  then show ?thesis unfolding sc_insert_def by (auto elim!: yields_mono)
qed

lemma sc_remove_yields:
  assumes "sc_ok sc"
  shows "yields (\<lambda>(sc', r). sc_ok sc' \<and> sc_table sc' \<subseteq>\<^sub>m (sc_table sc)(key := None) \<and> r = sc_table sc key) (sc_remove sc key)"
  unfolding sc_remove_def
  by (rule select_yields[OF assms, where upd = "\<lambda>_. None" and Q = "\<lambda>v r. r = v"])
    (use bc_step_op(2)[of _ _ key True "sc_hash sc key"] in \<open>auto simp: yields_def\<close>)

lemma sc_get_yields:
  assumes "sc_ok sc"
  shows "yields (\<lambda>(sc', r). sc_ok sc' \<and> sc_table sc' \<subseteq>\<^sub>m sc_table sc \<and> (r = None \<or> r = sc_table sc key)) (sc_get sc key)"
proof -
  have "yields (\<lambda>(sc', r). sc_ok sc' \<and> sc_table sc' \<subseteq>\<^sub>m (sc_table sc)(key := id (sc_table sc key)) \<and> (r = None \<or> r = sc_table sc key)) (sc_get sc key)"
    unfolding sc_get_def
  proof (rule select_yields[OF assms])
    fix cf bc assume h: "live cf" "bc_inv cf {} bc" "cf_hash cf = sc_hash sc"
    from bc_step_op(3)[OF h(1,2), of key]
    show "yields (\<lambda>(bc', r). bc_inv cf {} bc' \<and> table (bc', []) \<subseteq>\<^sub>m (table (bc, []))(key := id (table (bc, []) key)) \<and> (r = None \<or> r = table (bc, []) key))
        (do { (bc, e) \<leftarrow> get_with_hash cf False key (sc_hash sc key) bc; Some (bc, map_option en_value e) })"
      unfolding get_def h(3) by simp
  qed
  then show ?thesis by simp
qed

lemma sc_invalidate_yields:
  assumes "sc_ok sc"
  shows "yields (\<lambda>sc'. sc_ok sc' \<and> sc_table sc' \<subseteq>\<^sub>m (sc_table sc)(key := None)) (sc_invalidate sc key)"
proof -
  have "yields (\<lambda>(sc', r). sc_ok sc' \<and> sc_table sc' \<subseteq>\<^sub>m (sc_table sc)(key := (\<lambda>_. None) (sc_table sc key)) \<and> (\<lambda>_ _. True) (sc_table sc key) r)
      (select sc key (\<lambda>cf bc. invalidate_with_hash cf key (sc_hash sc key) False bc))"
  proof (rule select_yields[OF assms])
    fix cf :: "('a, 'b) config" and bc assume h: "live cf" "bc_inv cf {} bc" "cf_hash cf = sc_hash sc"
    from bc_step_op(2)[OF h(1,2), of key False "sc_hash sc key"]
    show "yields (\<lambda>(bc', r). bc_inv cf {} bc' \<and> table (bc', []) \<subseteq>\<^sub>m (table (bc, []))(key := (\<lambda>_. None) (table (bc, []) key)) \<and>
        (\<lambda>_ _. True) (table (bc, []) key) r) (invalidate_with_hash cf key (sc_hash sc key) False bc)"
      by (rule yields_mono) auto
  qed
  then show ?thesis unfolding sc_invalidate_def by (auto elim!: yields_mono)
qed

lemma sc_contains_key_yields:
  assumes "sc_ok sc"
  shows "yields (\<lambda>(sc', b). sc_ok sc' \<and> sc_table sc' \<subseteq>\<^sub>m sc_table sc \<and> (b \<longrightarrow> key \<in> dom (sc_table sc))) (sc_contains_key sc key)"
proof -
  have "yields (\<lambda>(sc', b). sc_ok sc' \<and> sc_table sc' \<subseteq>\<^sub>m (sc_table sc)(key := id (sc_table sc key)) \<and> (\<lambda>v b. b \<longrightarrow> v \<noteq> None) (sc_table sc key) b)
      (sc_contains_key sc key)"
    unfolding sc_contains_key_def
  proof (rule select_yields[OF assms])
    fix cf :: "('a, 'b) config" and bc assume h: "live cf" "bc_inv cf {} bc" "cf_hash cf = sc_hash sc"
    note t = inner_inv_tick[OF _ clock_okD(1)[OF liveD(1)[OF h(1)]], of "set (in_write_op_ch (bc_inner bc))" "bc_inner bc"]
    show "yields (\<lambda>(bc', b). bc_inv cf {} bc' \<and> table (bc', []) \<subseteq>\<^sub>m (table (bc, []))(key := id (table (bc, []) key)) \<and>
        (\<lambda>v b. b \<longrightarrow> v \<noteq> None) (table (bc, []) key) b) (Some (contains_key_with_hash cf key bc))"
    proof (cases "in_cache (bc_inner bc) key")
      case (Some e)
      have "table (bc\<lparr>bc_inner := (bc_inner bc)\<lparr>in_ticks := Suc (in_ticks (bc_inner bc))\<rparr>\<rparr>, []) = table (bc, [])" by (simp add: table_def)
      with Some h(2) t show ?thesis by (auto simp: contains_key_with_hash_def current_time_def bc_inv_def) (simp add: table_def)
    qed (use h(2) in \<open>simp add: contains_key_with_hash_def\<close>)
  qed
  then show ?thesis by (auto simp: domIff elim!: yields_mono)
qed

lemma sc_run_pending_tasks_yields:
  assumes ok: "sc_ok sc"
  shows "yields (\<lambda>sc'. sc_ok sc' \<and> sc_table sc' \<subseteq>\<^sub>m sc_table sc \<and>
    (\<forall>(cf, bc) \<in> set (sc_segments sc'). in_read_op_ch (bc_inner bc) = [] \<and> in_write_op_ch (bc_inner bc) = [])) (sc_run_pending_tasks sc)"
proof -
  have "yields (\<lambda>segs. length segs = length (sc_segments sc) \<and>
      (\<forall>i < length (sc_segments sc). fst (segs ! i) = fst (sc_segments sc ! i) \<and>
        (\<lambda>cf bc bc'. bc_inv cf {} bc' \<and> table (bc', []) \<subseteq>\<^sub>m table (bc, []) \<and> in_read_op_ch (bc_inner bc') = [] \<and> in_write_op_ch (bc_inner bc') = [])
          (fst (sc_segments sc ! i)) (snd (sc_segments sc ! i)) (snd (segs ! i)))) (each_segment run_pending_tasks (sc_segments sc))"
  proof (rule each_segment_ok)
    fix cf bc assume "(cf, bc) \<in> set (sc_segments sc)"
    then obtain i where "i < length (sc_segments sc)" "sc_segments sc ! i = (cf, bc)" by (auto simp: in_set_conv_nth)
    from sc_okD(2)[OF ok this] bc_step_op(4)[of cf bc]
    show "yields (\<lambda>bc'. bc_inv cf {} bc' \<and> table (bc', []) \<subseteq>\<^sub>m table (bc, []) \<and> in_read_op_ch (bc_inner bc') = [] \<and> in_write_op_ch (bc_inner bc') = [])
      (run_pending_tasks cf bc)" by simp
  qed
  then obtain segs where s: "each_segment run_pending_tasks (sc_segments sc) = Some segs" "length segs = length (sc_segments sc)"
    "\<And>i. i < length segs \<Longrightarrow> fst (segs ! i) = fst (sc_segments sc ! i) \<and> bc_inv (fst (segs ! i)) {} (snd (segs ! i)) \<and>
      table (snd (segs ! i), []) \<subseteq>\<^sub>m table (snd (sc_segments sc ! i), []) \<and> in_read_op_ch (bc_inner (snd (segs ! i))) = [] \<and> in_write_op_ch (bc_inner (snd (segs ! i))) = []"
    by (auto simp: yields_def)
  have "\<forall>(cf, bc) \<in> set segs. in_read_op_ch (bc_inner bc) = [] \<and> in_write_op_ch (bc_inner bc) = []"
    using s(3) by (force simp: in_set_conv_nth)
  moreover have sh: "\<forall>i < length segs. fst (segs ! i) = fst (sc_segments sc ! i) \<and> bc_inv (fst (segs ! i)) {} (snd (segs ! i)) \<and>
      table (snd (segs ! i), []) \<subseteq>\<^sub>m table (snd (sc_segments sc ! i), [])" using s(3) by blast
  ultimately show ?thesis using s(1) segments_shrink[OF ok s(2) sh] by (simp add: sc_run_pending_tasks_def)
qed

lemma sc_invalidate_all_yields:
  assumes ok: "sc_ok sc"
  shows "yields (\<lambda>sc'. sc_ok sc' \<and> sc_table sc' \<subseteq>\<^sub>m sc_table sc) (sc_invalidate_all sc)"
proof -
  have "yields (\<lambda>segs. length segs = length (sc_segments sc) \<and>
      (\<forall>i < length (sc_segments sc). fst (segs ! i) = fst (sc_segments sc ! i) \<and>
        (\<lambda>cf bc bc'. bc_inv cf {} bc' \<and> table (bc', []) = table (bc, [])) (fst (sc_segments sc ! i)) (snd (sc_segments sc ! i)) (snd (segs ! i))))
      (each_segment (\<lambda>cf bc. Some (Sync_Cache.invalidate_all cf bc)) (sc_segments sc))"
  proof (rule each_segment_ok)
    fix cf bc assume "(cf, bc) \<in> set (sc_segments sc)"
    then obtain i where "i < length (sc_segments sc)" "sc_segments sc ! i = (cf, bc)" by (auto simp: in_set_conv_nth)
    from sc_okD(2)[OF ok this] bc_step_op(5)[of cf bc]
    show "yields (\<lambda>bc'. bc_inv cf {} bc' \<and> table (bc', []) = table (bc, [])) (Some (Sync_Cache.invalidate_all cf bc))" by simp
  qed
  then obtain segs where s: "each_segment (\<lambda>cf bc. Some (Sync_Cache.invalidate_all cf bc)) (sc_segments sc) = Some segs"
    "length segs = length (sc_segments sc)"
    "\<forall>i < length segs. fst (segs ! i) = fst (sc_segments sc ! i) \<and> bc_inv (fst (segs ! i)) {} (snd (segs ! i)) \<and>
      table (snd (segs ! i), []) \<subseteq>\<^sub>m table (snd (sc_segments sc ! i), [])"
    by (auto simp: yields_def)
  with segments_shrink[OF ok s(2,3)] show ?thesis by (simp add: sc_invalidate_all_def)
qed

lemma invalidate_if_loop_ok:
  assumes "invalidate_if_loop uuid predicate segs = Some (segs', r)"
    and "\<And>cf bc. (cf, bc) \<in> set segs \<Longrightarrow> live cf \<and> bc_inv cf {} bc"
  shows "length segs' = length segs \<and> (\<forall>i < length segs. fst (segs' ! i) = fst (segs ! i) \<and>
    bc_inv (fst (segs' ! i)) {} (snd (segs' ! i)) \<and> table (snd (segs' ! i), []) = table (snd (segs ! i), []))"
  using assms
proof (induction segs arbitrary: segs')
  case (Cons s segs)
  obtain cf bc where s: "s = (cf, bc)" by (cases s)
  have tail: "\<forall>i < length segs. bc_inv (fst (segs ! i)) {} (snd (segs ! i))" using Cons.prems(2) by (force simp: in_set_conv_nth)
  obtain bc' q where "invalidate_entries_if cf uuid predicate bc = Some (bc', q)"
    using Cons.prems(1) unfolding s by (cases "invalidate_entries_if cf uuid predicate bc") auto
  then have q: "invalidate_entries_if cf uuid predicate bc = Some (bc', q)"
    "case q of Inl e \<Rightarrow> (segs', r) = ((cf, bc') # segs, Inl e)
     | Inr _ \<Rightarrow> \<exists>segs2. invalidate_if_loop uuid predicate segs = Some (segs2, r) \<and> segs' = (cf, bc') # segs2"
    using Cons.prems(1) unfolding s by (cases q; auto simp: Option.bind_eq_Some_conv)+
  have b: "bc_inv cf {} bc' \<and> table (bc', []) = table (bc, [])" using bc_step_op(6)[OF _ _ q(1)] Cons.prems(2)[of cf bc] s by simp
  show ?case
  proof (cases q)
    case (Inl e)
    then show ?thesis using q(2) b tail s by (auto simp: nth_Cons less_Suc_eq_0_disj split: nat.split)
  next
    case (Inr u)
    then obtain segs2 where g: "invalidate_if_loop uuid predicate segs = Some (segs2, r)" "segs' = (cf, bc') # segs2" using q(2) by auto
    from Cons.IH[OF g(1)] Cons.prems(2) show ?thesis using g(2) b s by (auto simp: nth_Cons less_Suc_eq_0_disj split: nat.split)
  qed
qed simp

lemma sc_invalidate_if_ok:
  assumes ok: "sc_ok sc" and r: "sc_invalidate_entries_if uuid predicate sc = Some (sc', r)"
  shows "sc_ok sc' \<and> sc_table sc' \<subseteq>\<^sub>m sc_table sc"
proof -
  obtain segs where s: "invalidate_if_loop uuid predicate (sc_segments sc) = Some (segs, r)" "sc' = sc\<lparr>sc_segments := segs\<rparr>"
    using r by (auto simp: sc_invalidate_entries_if_def Option.bind_eq_Some_conv)
  have "\<And>cf bc. (cf, bc) \<in> set (sc_segments sc) \<Longrightarrow> live cf \<and> bc_inv cf {} bc"
    using sc_okD(2)[OF ok] by (auto simp: in_set_conv_nth)
  from invalidate_if_loop_ok[OF s(1) this] have
    "length segs = length (sc_segments sc)"
    "\<forall>i < length segs. fst (segs ! i) = fst (sc_segments sc ! i) \<and> bc_inv (fst (segs ! i)) {} (snd (segs ! i)) \<and>
      table (snd (segs ! i), []) \<subseteq>\<^sub>m table (snd (sc_segments sc ! i), [])" by auto
  from segments_shrink[OF ok this] show ?thesis unfolding s(2) by simp
qed

text \<open>Steps of the segmented cache. Invalidating a key yields no value; the action names the one that was removed.\<close>

inductive sc_step :: "('k, 'v) seg_cache \<Rightarrow> ('k, 'v) action \<Rightarrow> ('k, 'v) seg_cache \<Rightarrow> bool" where
  sc_insert: "sc_insert sc key value = Some sc' \<Longrightarrow> sc_step sc (AInsert key value) sc'"
| sc_remove: "sc_remove sc key = Some (sc', r) \<Longrightarrow> sc_step sc (AInvalidate key r) sc'"
| sc_invalidate: "sc_invalidate sc key = Some sc' \<Longrightarrow> sc_step sc (AInvalidate key (sc_table sc key)) sc'"
| sc_get: "sc_get sc key = Some (sc', r) \<Longrightarrow> sc_step sc (AGet key r) sc'"
| sc_contains_key: "sc_contains_key sc key = Some (sc', b) \<Longrightarrow> sc_step sc AInternal sc'"
| sc_maintain: "sc_run_pending_tasks sc = Some sc' \<Longrightarrow> sc_step sc AInternal sc'"
| sc_invalidate_all: "sc_invalidate_all sc = Some sc' \<Longrightarrow> sc_step sc AInternal sc'"
| sc_invalidate_if: "sc_invalidate_entries_if uuid predicate sc = Some (sc', r) \<Longrightarrow> sc_step sc AInternal sc'"

lemma sc_step_ok:
  assumes "sc_step sc a sc'" "sc_ok sc"
  shows "sc_ok sc' \<and> lossy_step (sc_table sc) a (sc_table sc')"
  using assms
proof (cases rule: sc_step.cases)
  case (sc_insert key v)
  with sc_insert_yields[OF assms(2), of key v] show ?thesis by simp
next
  case (sc_remove key r)
  with sc_remove_yields[OF assms(2), of key] show ?thesis by simp
next
  case (sc_invalidate key)
  with sc_invalidate_yields[OF assms(2), of key] show ?thesis by simp
next
  case (sc_get key r)
  with sc_get_yields[OF assms(2), of key] show ?thesis by simp
next
  case (sc_contains_key key b)
  with sc_contains_key_yields[OF assms(2), of key] show ?thesis by simp
next
  case sc_maintain
  with sc_run_pending_tasks_yields[OF assms(2)] show ?thesis by simp
next
  case sc_invalidate_all
  with sc_invalidate_all_yields[OF assms(2)] show ?thesis by simp
next
  case (sc_invalidate_if uuid predicate r)
  with sc_invalidate_if_ok[OF assms(2)] show ?thesis by simp
qed

interpretation seg_lossy: lossy_map sc_ok sc_step sc_table
  by unfold_locales (use sc_step_ok in blast)+

section \<open>The capacity of a segment\<close>

lemma bit_len_pow: "2 ^ k \<le> n \<Longrightarrow> n < 2 ^ Suc k \<Longrightarrow> bit_len n = Suc k"
proof (induction k arbitrary: n)
  case 0
  then have "n = 1" by simp
  then show ?case by (simp add: bit_len.simps)
next
  case (Suc k)
  have "2 ^ k \<le> n div 2" "n div 2 < 2 ^ Suc k" using Suc.prems by auto
  from Suc.IH[OF this] Suc.prems show ?case by (simp add: bit_len.simps[of n])
qed

text \<open>An integer below \<open>2 ^ 53\<close> is exact as an \<open>f64\<close>, and so is its quotient by a power of two.\<close>

lemma f64_round_exact:
  assumes "2 ^ k \<le> n" "n < 2 ^ Suc k" "k < 53"
  shows "f64_round n 1 = (n * 2 ^ (52 - k), int k - 52)"
proof -
  have b: "bit_len n = Suc k" "bit_len 1 = 1" using bit_len_pow[OF assms(1,2)] bit_len_pow[of 0 1] by simp_all
  have n0: "n \<noteq> 0" using assms(1) by (cases "n = 0") simp_all
  have "(2 :: nat) ^ 53 = 2 ^ k * 2 ^ (53 - k)" using assms(3) by (simp flip: power_add)
  then have big: "2 ^ 53 \<le> n * 2 ^ (53 - k)" using assms(1) by (metis mult_le_mono1)
  have s1: "scale n 1 (int k - 53) = (n * 2 ^ (53 - k), 1)" using assms(3) by (simp add: scale_def nat_diff_distrib' flip: of_nat_diff)
  have s2: "scale n 1 (int k - 52) = (n * 2 ^ (52 - k), 1)" using assms(3) by (cases "k = 52") (simp_all add: scale_def nat_diff_distrib')
  have e: "int (Suc k) - int 1 - 53 = int k - 53" by simp
  show ?thesis using n0 big unfolding f64_round_def b e Let_def s1 by (simp add: s2[unfolded One_nat_def])
qed

lemma f64_div_pow:
  assumes "2 ^ k \<le> n" "n < 2 ^ Suc k" "k < 53"
  shows "f64_div (n * 2 ^ (52 - k), int k - 52) (2 ^ 52, int j - 52) = (n * 2 ^ (52 - k), int k - 52 - int j)"
proof -
  let ?N = "n * 2 ^ (52 - k)"
  have p: "(2 :: nat) ^ 52 = 2 ^ k * 2 ^ (52 - k)" "(2 :: nat) ^ 53 = 2 ^ Suc k * 2 ^ (52 - k)"
    using assms(3) by (simp_all only: power_add[symmetric]) simp_all
  have "2 ^ k * 2 ^ (52 - k) \<le> ?N" "?N < 2 ^ Suc k * 2 ^ (52 - k)" using assms(1,2) by (intro mult_le_mono1 mult_less_mono1; simp)+
  then have N: "2 ^ 52 \<le> ?N" "?N < 2 ^ Suc 52" unfolding p(1,2)[symmetric] by simp_all
  have b: "bit_len ?N = 53" "bit_len (2 ^ 52) = 53" using bit_len_pow[OF N] bit_len_pow[of 52 "2 ^ 52"] by simp_all
  have "f64_round ?N (2 ^ 52) = (?N, - 52)"
    using N assms(1) unfolding f64_round_def b Let_def scale_def by (cases "n = 0") simp_all
  then show ?thesis by (simp add: f64_div_def)
qed

lemma quot_rem: "r < B \<Longrightarrow> (q * B + r) div B = (q :: nat)"
  by (subst div_mult_self3) simp_all

lemma ceil_div_scaled:
  assumes "0 < A"
  shows "(n * A + A * B - 1) div (A * B) = (n + B - 1) div (B :: nat)"
proof (cases "B = 0")
  case False
  obtain q r where q: "n + B - 1 = q * B + r" "r < B" "q = (n + B - 1) div B"
    using False mod_less_divisor[of B "n + B - 1"] div_mult_mod_eq[of "n + B - 1" B] by (metis gr0I)
  have n: "n + B = q * B + (r + 1)" using q(1) False by linarith
  have "n * A + A * B = A * (n + B)" by (simp add: algebra_simps)
  also have "\<dots> = q * (A * B) + A * (r + 1)" unfolding n by (simp add: algebra_simps)
  finally have e: "n * A + A * B - 1 = q * (A * B) + (A * (r + 1) - 1)" using assms by simp
  have "A * (r + 1) \<le> A * B" using q(2) by (intro mult_le_mono2) simp
  moreover have "0 < A * (r + 1)" using assms by simp
  ultimately have "A * (r + 1) - 1 < A * B" by linarith
  then show ?thesis unfolding e q(3)[symmetric] by (rule quot_rem)
qed simp

lemma div_le_dividend_ceil: "0 < n \<Longrightarrow> 0 < B \<Longrightarrow> (n + B - 1) div B \<le> (n :: nat)"
proof -
  assume "0 < n" "0 < B"
  then have "n + B - 1 \<le> n * B + (B - 1)" by (cases B) simp_all
  then have "(n + B - 1) div B \<le> (n * B + (B - 1)) div B" by (rule div_le_mono)
  with quot_rem[of "B - 1" B n] \<open>0 < B\<close> show ?thesis by simp
qed

lemma seg_max_capacity_eq:
  assumes "0 < unat n" "unat n < 2 ^ 53" "j < 53"
  shows "unat (seg_max_capacity (2 ^ j) n) = (unat n + 2 ^ j - 1) div 2 ^ j"
proof -
  obtain k where k: "2 ^ k \<le> unat n" "unat n < 2 ^ Suc k" using ex_power_ivl1[of 2 "unat n"] assms(1) by auto
  have "(2 :: nat) ^ k < 2 ^ 53" using k(1) assms(2) by linarith
  then have k53: "k < 53" by (rule power_less_imp_less_exp[rotated]) simp
  have j: "f64_of_u64 (word_of_nat (2 ^ j)) = (2 ^ 52, int j - 52)"
  proof -
    have "(2 :: nat) ^ j < 2 ^ 64" using assms(3) by (intro power_strict_increasing) simp_all
    then have "unat (word_of_nat (2 ^ j) :: u64) = 2 ^ j" by (intro unat_of_nat_small) simp
    moreover have "(2 :: nat) ^ j * 2 ^ (52 - j) = 2 ^ 52" using assms(3) by (simp flip: power_add)
    ultimately show ?thesis using f64_round_exact[of j "2 ^ j"] assms(3) by (simp add: f64_of_u64_def)
  qed
  let ?A = "2 ^ (52 - k) :: nat" and ?e = "int k - 52 - int j"
  have d: "f64_div (f64_of_u64 n) (f64_of_u64 (word_of_nat (2 ^ j))) = (unat n * ?A, ?e)"
    unfolding j f64_of_u64_def[of n] f64_round_exact[OF k k53] by (rule f64_div_pow[OF k k53])
  have e: "nat (- ?e) = 52 - k + j" "?e \<le> 0" using k53 by simp_all
  have c: "f64_ceil (unat n * ?A, ?e) = ((unat n * ?A + ?A * 2 ^ j - 1) div (?A * 2 ^ j), 0)"
  proof (cases "?e = 0")
    case True
    then have "k = 52" "j = 0" using k53 by linarith+
    then show ?thesis by (simp add: f64_ceil_def)
  next
    case False
    then have "\<not> 0 \<le> ?e" using e(2) by linarith
    then show ?thesis unfolding f64_ceil_def fst_conv snd_conv e(1) power_add by simp
  qed
  have "(unat n + 2 ^ j - 1) div 2 ^ j \<le> unat n"
    by (rule div_le_dividend_ceil[OF assms(1)]) simp
  with assms(2) have "(unat n + 2 ^ j - 1) div 2 ^ j < 2 ^ 64" by simp
  moreover have "0 < ?A" by simp
  ultimately show ?thesis unfolding seg_max_capacity_def d c ceil_div_scaled[OF \<open>0 < ?A\<close>]
    by (simp add: u64_of_f64_def scale_def unat_of_nat_small)
qed

text \<open>The initial capacity of a segment is not larger than the one of the cache.\<close>

lemma seg_init_capacity_le:
  assumes "cap < 2 ^ 53" "j < 53"
  shows "seg_init_capacity (2 ^ j) cap \<le> cap"
proof -
  have u: "unat (word_of_nat cap :: u64) = cap" using assms(1) by (intro unat_of_nat_small) simp
  have e: "seg_init_capacity (2 ^ j) cap = unat (seg_max_capacity (2 ^ j) (word_of_nat cap))"
    by (simp add: seg_init_capacity_def seg_max_capacity_def)
  show ?thesis
  proof (cases "cap = 0")
    case True
    have r: "f64_round 0 d = (0, 0)" for d by (simp add: f64_round_def)
    have "u64_of_f64 (f64_ceil (0, x)) = 0" for x by (simp add: f64_ceil_def u64_of_f64_def scale_def)
    with True show ?thesis by (simp add: seg_init_capacity_def f64_of_u64_def f64_div_def r)
  next
    case False
    then show ?thesis unfolding e
      using seg_max_capacity_eq[of "word_of_nat cap" j] div_le_dividend_ceil[of cap "2 ^ j"] assms by (simp add: u)
  qed
qed

section \<open>A new segmented cache\<close>

definition capacity_ok :: "u64 option \<Rightarrow> bool" where
  "capacity_ok c \<longleftrightarrow> (case c of None \<Rightarrow> True | Some n \<Rightarrow> 0 < unat n \<and> unat n < 2 ^ 53)"

definition clocks_ok :: "(nat \<Rightarrow> nat \<Rightarrow> instant) \<Rightarrow> bool" where
  "clocks_ok clocks \<longleftrightarrow> (\<forall>i. mono (clocks i) \<and> (\<forall>t. proper_instant (clocks i t)))"

lemma segment_live:
  assumes "capacity_ok (cf_max_capacity cf)" "clocks_ok clocks" "j < 53"
  shows "live (segment_config cf (2 ^ j) clocks i)"
proof (cases "cf_max_capacity cf")
  case None
  then show ?thesis using assms(2) by (simp add: live_def clock_ok_def segment_config_def clocks_ok_def)
next
  case (Some n)
  then have n: "0 < unat n" "unat n < 2 ^ 53" using assms(1) by (simp_all add: capacity_ok_def)
  have "0 < (unat n + 2 ^ j - 1) div 2 ^ j" using n(1) by (simp add: div_greater_zero_iff)
  then have "seg_max_capacity (2 ^ j) n \<noteq> 0" using seg_max_capacity_eq[OF n assms(3)] by (metis less_irrefl unsigned_0)
  with Some assms(2) show ?thesis by (simp add: live_def clock_ok_def segment_config_def clocks_ok_def)
qed

lemma seg_cache_new_ok:
  assumes "0 < num_segments" "num_segments \<le> 2 ^ 52" "capacity_ok (cf_max_capacity cf)" "clocks_ok clocks"
  shows "\<exists>sc. seg_cache_new kh cf clocks l hc b num_segments = Some sc \<and> sc_ok sc \<and> sc_table sc = Map.empty"
proof -
  obtain n where n: "next_power_of_two num_segments = 2 ^ n" using next_power_of_two_pow by blast
  have "(2 :: nat) ^ n \<le> 2 ^ 52" using next_power_of_two_least[OF assms(2)] n by simp
  then have n52: "n \<le> 52" by (rule power_le_imp_le_exp[rotated]) simp
  let ?c = "segment_config cf (2 ^ n) clocks"
  let ?sc = "\<lparr>sc_desired_capacity = cf_max_capacity cf, sc_segments = map (\<lambda>i. (?c i, base_cache_new kh (?c i) l hc b)) [0..<2 ^ n],
    sc_hash = cf_hash cf, sc_segment_shift = 64 - n\<rparr>"
  have new: "seg_cache_new kh cf clocks l hc b num_segments = Some ?sc"
    using assms(1,2) n n52 by (simp add: seg_cache_new_def next_power_of_two_usize_def trailing_zeros_usize_pow Let_def)
  have live: "live (?c i)" for i using segment_live[OF assms(3,4), of n i] n52 by simp
  have empty: "table (base_cache_new kh (?c i) l hc b, []) = Map.empty" for i by (rule table_new)
  have "sc_ok ?sc"
    unfolding sc_ok_def using live sys_inv_init[OF liveD(1)[OF live]] n52
    by (auto simp: empty sys_inv_def segment_config_def intro!: exI[of _ n])
  moreover have "sc_table ?sc = Map.empty"
    using sc_okD(1)[OF \<open>sc_ok ?sc\<close>] by (simp add: sc_table_def fun_eq_iff empty)
  ultimately show ?thesis using new by blast
qed

section \<open>Properties of the segmented cache\<close>

text \<open>C7: A segmented cache is one map that may lose entries: every operation is a step of the lossy map
  on the union of the tables of the segments, and the union has no other entries than the operations
  so far have put there, the last insertion of a key counting.\<close>

theorem segmented_refines_lossy_map:
  assumes "0 < num_segments" "num_segments \<le> 2 ^ 52" "capacity_ok (cf_max_capacity cf)" "clocks_ok clocks"
    and "seg_cache_new kh cf clocks l hc b num_segments = Some sc0" "trace sc_step sc0 as sc" "sc_step sc a sc'"
  shows "lossy_step (sc_table sc) a (sc_table sc') \<and> sc_table sc' \<subseteq>\<^sub>m contents (as @ [a])"
proof -
  have new: "sc_ok sc0" "sc_table sc0 = Map.empty" using seg_cache_new_ok[OF assms(1-4), of kh l hc b] assms(5) by auto
  show ?thesis
    using seg_lossy.trace_contents[OF assms(6) new] seg_lossy.trace_contents[OF trace_snoc[OF assms(6,7)] new]
      seg_lossy.simulates[of sc a sc'] assms(7) by blast
qed

definition demo_segmented :: "(nat, nat) seg_cache or_panic" where
  "demo_segmented = seg_cache_new \<lparr>kh_key = 0, kh_hash = 0\<rparr> demo_config (\<lambda>_ _. Instant 5) None housekeeper_config_default True 3"

lemma demo_segmented_ok:
  "capacity_ok (cf_max_capacity demo_config)" "clocks_ok (\<lambda>_ _. Instant 5)"
  "\<exists>sc. demo_segmented = Some sc \<and> sc_ok sc \<and> sc_table sc = Map.empty"
proof -
  show c: "capacity_ok (cf_max_capacity demo_config)" "clocks_ok (\<lambda>_ _. Instant 5)"
    by (simp_all add: capacity_ok_def demo_config_def clocks_ok_def mono_def proper_instant_def MAX_NANOS_def)
  show "\<exists>sc. demo_segmented = Some sc \<and> sc_ok sc \<and> sc_table sc = Map.empty"
    unfolding demo_segmented_def by (rule seg_cache_new_ok) (use c in simp_all)
qed

lemma segmented_refines_lossy_map_witness:
  "\<exists>sc sc'. demo_segmented = Some sc \<and> sc_step sc (AInsert 1 7) sc' \<and>
     lossy_step (sc_table sc) (AInsert 1 7) (sc_table sc') \<and> sc_table sc' \<subseteq>\<^sub>m [1 \<mapsto> 7]"
proof -
  obtain sc where sc: "demo_segmented = Some sc" "sc_ok sc" using demo_segmented_ok(3) by blast
  from sc_insert_yields[OF sc(2), of 1 7] obtain sc' where "sc_step sc (AInsert 1 7) sc'"
    by (auto simp: yields_def intro: sc_step.intros)
  with segmented_refines_lossy_map[OF _ _ demo_segmented_ok(1,2) sc(1)[unfolded demo_segmented_def] trace_Nil, of "AInsert 1 7" sc'] sc(1)
  show ?thesis by (auto simp: contents_def)
qed

text \<open>Every operation of a segmented cache that a sequence of operations has led to returns: no
  index is out of range, no loop runs for ever and nothing else panics. Removing yields what the
  table of the selected segment had.\<close>

theorem segmented_returns:
  assumes "0 < num_segments" "num_segments \<le> 2 ^ 52" "capacity_ok (cf_max_capacity cf)" "clocks_ok clocks"
    and "seg_cache_new kh cf clocks l hc b num_segments = Some sc0" "trace sc_step sc0 as sc"
  shows "(\<exists>sc' r. sc_get sc key = Some (sc', r)) \<and> (\<exists>sc' r. sc_contains_key sc key = Some (sc', r)) \<and>
    (\<exists>sc'. sc_insert sc key v = Some sc') \<and> (\<exists>sc'. sc_invalidate sc key = Some sc') \<and>
    (\<exists>sc'. sc_remove sc key = Some (sc', sc_table sc key)) \<and>
    (\<exists>sc'. sc_run_pending_tasks sc = Some sc') \<and> (\<exists>sc'. sc_invalidate_all sc = Some sc')"
proof -
  have ok: "sc_ok sc"
    using seg_lossy.trace_contents[OF assms(6)] seg_cache_new_ok[OF assms(1-4), of kh l hc b] assms(5) by simp
  show ?thesis
    using sc_get_yields[OF ok, of key] sc_contains_key_yields[OF ok, of key] sc_insert_yields[OF ok, of key v] sc_invalidate_yields[OF ok, of key]
      sc_remove_yields[OF ok, of key] sc_run_pending_tasks_yields[OF ok] sc_invalidate_all_yields[OF ok]
    unfolding yields_def by (intro conjI) (fast | force)+
qed

lemma segmented_returns_witness:
  "\<exists>sc sc'. demo_segmented = Some sc \<and> sc_insert sc 1 7 = Some sc'"
proof -
  obtain sc where sc: "demo_segmented = Some sc" using demo_segmented_ok(3) by blast
  from segmented_returns[OF _ _ demo_segmented_ok(1,2) sc[unfolded demo_segmented_def] trace_Nil, of 1 7] sc show ?thesis by auto
qed

lemma seg_capacity_total:
  assumes "0 < unat n" "unat n < 2 ^ 53" "j < 53"
  shows "unat n \<le> 2 ^ j * unat (seg_max_capacity (2 ^ j) n) \<and> 2 ^ j * unat (seg_max_capacity (2 ^ j) n) < unat n + 2 ^ j"
proof -
  let ?q = "(unat n + 2 ^ j - 1) div 2 ^ j" and ?r = "(unat n + 2 ^ j - 1) mod 2 ^ j"
  have "?q * 2 ^ j + ?r = unat n + 2 ^ j - 1" by (rule div_mult_mod_eq)
  moreover have "?r < 2 ^ j" by simp
  moreover have "1 \<le> (2 :: nat) ^ j" by simp
  ultimately have "unat n \<le> ?q * 2 ^ j" "?q * 2 ^ j < unat n + 2 ^ j" using assms(1) by linarith+
  then show ?thesis unfolding seg_max_capacity_eq[OF assms] by (simp_all add: mult.commute)
qed

text \<open>C34: A segmented cache for a capacity \<open>n\<close> with \<open>0 < n < 2 ^ 53\<close>, which \<open>f64\<close> holds exactly, and for at most \<open>2 ^ 52\<close>
  segments has as many segments as the next power of two says. The capacities of its segments add up to at
  least \<open>n\<close> and exceed it by less than one entry per segment.\<close>

theorem segment_capacity_bounds:
  assumes "cf_max_capacity cf = Some n" "0 < unat n" "unat n < 2 ^ 53" "num_segments \<le> 2 ^ 52"
    and "seg_cache_new kh cf clocks l hc b num_segments = Some sc"
  shows "\<exists>caps. map (\<lambda>(c, bc). cf_max_capacity c) (sc_segments sc) = map Some caps \<and> length caps = next_power_of_two num_segments \<and>
    unat n \<le> sum_list (map unat caps) \<and> sum_list (map unat caps) < unat n + length caps"
proof -
  obtain j where j: "next_power_of_two num_segments = 2 ^ j" using next_power_of_two_pow by blast
  have "(2 :: nat) ^ j \<le> 2 ^ 52" using next_power_of_two_least[OF assms(4)] j by simp
  then have "j \<le> 52" by (rule power_le_imp_le_exp[rotated]) simp
  then have j53: "j < 53" by simp
  have "map (\<lambda>(c, bc). cf_max_capacity c) (sc_segments sc) = map Some (replicate (2 ^ j) (seg_max_capacity (2 ^ j) n))"
    using assms(1,5) j by (auto simp: seg_cache_new_def next_power_of_two_usize_def segment_config_def Let_def map_replicate_trivial
        replicate_length_same comp_def intro!: nth_equalityI split: if_splits)
  with seg_capacity_total[OF assms(2,3) j53] j show ?thesis
    by (intro exI[of _ "replicate (2 ^ j) (seg_max_capacity (2 ^ j) n)"]) (simp add: sum_list_replicate)
qed

lemma segment_capacity_bounds_witness:
  "\<exists>sc caps. demo_segmented = Some sc \<and> map (\<lambda>(c, bc). cf_max_capacity c) (sc_segments sc) = map Some caps \<and>
     length caps = next_power_of_two 3 \<and> 10 \<le> sum_list (map unat caps) \<and> sum_list (map unat caps) < 10 + length caps"
proof -
  obtain sc where sc: "demo_segmented = Some sc" using demo_segmented_ok(3) by blast
  have "cf_max_capacity demo_config = Some 10" by (simp add: demo_config_def)
  from segment_capacity_bounds[OF this _ _ _ sc[unfolded demo_segmented_def]] sc show ?thesis by auto
qed

end
