(* ===== verification/Common_Iter.thy ===== *)
theory Common_Iter
  imports Moka_Prelude
begin

text \<open>
  The iterator over a cache (\<open>src/src/common/iter.rs\<close>), which may consist of several cache segments, each with a
  hash table of several segments. The cache segments are behind the trait \<open>ScanningGet\<close>: its operations
  are arguments here, with the index of the cache segment, and the locale states what the iterator
  needs of them. A lookup may find that an entry is not live any more.
\<close>

section \<open>The iterator\<close>

record 'k iter =
  ir_keys :: "'k list option"
  ir_cache_segments :: nat
  ir_num_cht_segments :: nat
  ir_cache_seg_index :: nat
  ir_cht_seg_index :: nat
  ir_is_done :: bool

definition with_multiple_cache_segments :: "nat \<Rightarrow> nat \<Rightarrow> 'k iter" where
  "with_multiple_cache_segments cache_segments num_cht_segments =
     \<lparr>ir_keys = None, ir_cache_segments = cache_segments, ir_num_cht_segments = num_cht_segments,
      ir_cache_seg_index = 0, ir_cht_seg_index = 0, ir_is_done = False\<rparr>"

definition iter_with_single_cache_segment :: "nat \<Rightarrow> 'k iter" where
  "iter_with_single_cache_segment num_cht_segments =
     \<lparr>ir_keys = None, ir_cache_segments = 1, ir_num_cht_segments = num_cht_segments,
      ir_cache_seg_index = 0, ir_cht_seg_index = 0, ir_is_done = False\<rparr>"

definition is_none_or_empty :: "'k list option \<Rightarrow> bool" where
  "is_none_or_empty ks \<longleftrightarrow> (case ks of None \<Rightarrow> True | Some l \<Rightarrow> l = [])"

text \<open>The indices at which \<open>current_keys\<close> reads the next keys, if any cache segment is left.\<close>

definition adjust_indices :: "'k iter \<Rightarrow> 'k iter" where
  "adjust_indices it =
     (if ir_cht_seg_index it \<ge> ir_num_cht_segments it
      then it\<lparr>ir_cache_seg_index := ir_cache_seg_index it + 1, ir_cht_seg_index := 0\<rparr>
      else it)"

text \<open>\<open>Iter::current_keys\<close>: the flag tells whether the iterator has keys. The bound check of the cache segment is
  done after a change of the index only; indexing panics out of range.\<close>

partial_function (option) iter_current_keys ::
  "('s \<Rightarrow> nat \<Rightarrow> nat \<Rightarrow> ('s \<times> 'k list option) option) \<Rightarrow> ('s \<Rightarrow> nat \<Rightarrow> nat) \<Rightarrow> 's \<Rightarrow> 'k iter \<Rightarrow>
    ('s \<times> 'k iter \<times> bool) option" where
  "iter_current_keys keys num_cht_segments s it =
     (if is_none_or_empty (ir_keys it) then
        (let adjusted = (ir_cht_seg_index it \<ge> ir_num_cht_segments it); it = adjust_indices it; c = ir_cache_seg_index it
         in if c \<ge> ir_cache_segments it then (if adjusted then Some (s, it, False) else None)
            else do { (s, ks) \<leftarrow> keys s c (ir_cht_seg_index it);
                      iter_current_keys keys num_cht_segments s
                        (it\<lparr>ir_keys := ks, ir_num_cht_segments := num_cht_segments s c,
                            ir_cht_seg_index := ir_cht_seg_index it + 1\<rparr>) })
      else Some (s, it, True))"

partial_function (option) iter_next_key ::
  "('s \<Rightarrow> nat \<Rightarrow> nat \<Rightarrow> ('s \<times> 'k list option) option) \<Rightarrow> ('s \<Rightarrow> nat \<Rightarrow> nat) \<Rightarrow> 's \<Rightarrow> 'k iter \<Rightarrow>
    ('s \<times> 'k iter \<times> 'k option) option" where
  "iter_next_key keys num_cht_segments s it =
     do { (s, it, more) \<leftarrow> iter_current_keys keys num_cht_segments s it;
          if more then
            (case ir_keys it of
               Some ks \<Rightarrow> if ks = [] then iter_next_key keys num_cht_segments s it
                          else Some (s, it\<lparr>ir_keys := Some (butlast ks)\<rparr>, Some (last ks))
             | None \<Rightarrow> None)
          else Some (s, it, None) }"

text \<open>The loop of \<open>Iter::next\<close>; \<open>self.cache()\<close> is the cache segment of the current index.\<close>

partial_function (option) iter_next_loop ::
  "('s \<Rightarrow> nat \<Rightarrow> nat \<Rightarrow> ('s \<times> 'k list option) option) \<Rightarrow> ('s \<Rightarrow> nat \<Rightarrow> nat) \<Rightarrow> ('s \<Rightarrow> nat \<Rightarrow> 'k \<Rightarrow> ('s \<times> 'v option) option) \<Rightarrow>
    's \<Rightarrow> 'k iter \<Rightarrow> ('s \<times> 'k iter \<times> ('k \<times> 'v) option) option" where
  "iter_next_loop keys num_cht_segments scanning_get s it =
     do { (s, it, mk) \<leftarrow> iter_next_key keys num_cht_segments s it;
          (case mk of
             None \<Rightarrow> Some (s, it\<lparr>ir_is_done := True\<rparr>, None)
           | Some k \<Rightarrow>
               if ir_cache_seg_index it \<ge> ir_cache_segments it then None
               else do { (s, mv) \<leftarrow> scanning_get s (ir_cache_seg_index it) k;
                         (case mv of
                            Some v \<Rightarrow> Some (s, it, Some (k, v))
                          | None \<Rightarrow> iter_next_loop keys num_cht_segments scanning_get s it) }) }"

definition iter_next_item ::
  "('s \<Rightarrow> nat \<Rightarrow> nat \<Rightarrow> ('s \<times> 'k list option) option) \<Rightarrow> ('s \<Rightarrow> nat \<Rightarrow> nat) \<Rightarrow> ('s \<Rightarrow> nat \<Rightarrow> 'k \<Rightarrow> ('s \<times> 'v option) option) \<Rightarrow>
    's \<Rightarrow> 'k iter \<Rightarrow> ('s \<times> 'k iter \<times> ('k \<times> 'v) option) option" where
  "iter_next_item keys num_cht_segments scanning_get s it =
     (if ir_is_done it then Some (s, it, None) else iter_next_loop keys num_cht_segments scanning_get s it)"

text \<open>What a \<open>for\<close> loop over the iterator sees.\<close>

partial_function (option) iter_items ::
  "('s \<Rightarrow> nat \<Rightarrow> nat \<Rightarrow> ('s \<times> 'k list option) option) \<Rightarrow> ('s \<Rightarrow> nat \<Rightarrow> nat) \<Rightarrow> ('s \<Rightarrow> nat \<Rightarrow> 'k \<Rightarrow> ('s \<times> 'v option) option) \<Rightarrow>
    's \<Rightarrow> 'k iter \<Rightarrow> ('s \<times> ('k \<times> 'v) list) option" where
  "iter_items keys num_cht_segments scanning_get s it =
     do { (s, it, item) \<leftarrow> iter_next_item keys num_cht_segments scanning_get s it;
          (case item of
             None \<Rightarrow> Some (s, [])
           | Some kv \<Rightarrow> do { (s, rest) \<leftarrow> iter_items keys num_cht_segments scanning_get s it; Some (s, kv # rest) }) }"

section \<open>The caches behind the iterator\<close>

text \<open>\<open>before s s'\<close> says that an iteration may lead from \<open>s\<close> to \<open>s'\<close>; \<open>sure s s' k\<close> that every lookup of \<open>k\<close> between these
  states finds the entry that the table has.\<close>

locale scanning_caches =
  fixes ok :: "'s \<Rightarrow> bool" and tbl :: "'s \<Rightarrow> 'k \<rightharpoonup> 'v" and cache_of :: "'k \<Rightarrow> nat" and seg_of :: "'k \<Rightarrow> nat"
    and N :: nat and M :: nat and before :: "'s \<Rightarrow> 's \<Rightarrow> bool" and sure :: "'s \<Rightarrow> 's \<Rightarrow> 'k \<Rightarrow> bool"
    and keys :: "'s \<Rightarrow> nat \<Rightarrow> nat \<Rightarrow> ('s \<times> 'k list option) option" and num_cht_segments :: "'s \<Rightarrow> nat \<Rightarrow> nat"
    and scanning_get :: "'s \<Rightarrow> nat \<Rightarrow> 'k \<Rightarrow> ('s \<times> 'v option) option"
  assumes M_pos: "0 < M"
    and keys_ok: "ok s \<Longrightarrow> c < N \<Longrightarrow> i < M \<Longrightarrow> \<exists>s' ks. keys s c i = Some (s', Some ks) \<and> ok s' \<and> tbl s' = tbl s \<and>
      before s s' \<and> distinct ks \<and> set ks = {k \<in> dom (tbl s). cache_of k = c \<and> seg_of k = i}"
    and num_ok: "ok s \<Longrightarrow> c < N \<Longrightarrow> num_cht_segments s c = M"
    and get_ok: "ok s \<Longrightarrow> k \<in> dom (tbl s) \<Longrightarrow> \<exists>s' r. scanning_get s (cache_of k) k = Some (s', r) \<and> ok s' \<and> tbl s' = tbl s \<and>
      before s s' \<and> (r = None \<or> r = tbl s k) \<and> (sure s s' k \<longrightarrow> r = tbl s k)"
    and before_refl: "before s s" and before_trans: "before s s' \<Longrightarrow> before s' s'' \<Longrightarrow> before s s''"
    and sure_sub: "before s s1 \<Longrightarrow> before s1 s2 \<Longrightarrow> before s2 s' \<Longrightarrow> sure s s' k \<Longrightarrow> sure s1 s2 k"
    and finite_ok: "ok s \<Longrightarrow> finite (dom (tbl s))"
    and home_ok: "ok s \<Longrightarrow> k \<in> dom (tbl s) \<Longrightarrow> cache_of k < N \<and> seg_of k < M"
begin

text \<open>The position of a key in the order in which the segments are visited.\<close>

definition pos :: "'k \<Rightarrow> nat" where
  "pos k = cache_of k * M + seg_of k"

definition it_pos :: "'k iter \<Rightarrow> nat" where
  "it_pos it = ir_cache_seg_index it * M + ir_cht_seg_index it"

definition cur_keys :: "'k iter \<Rightarrow> 'k set" where
  "cur_keys it = (case ir_keys it of None \<Rightarrow> {} | Some ks \<Rightarrow> set ks)"

definition to_visit :: "('k \<rightharpoonup> 'v) \<Rightarrow> 'k iter \<Rightarrow> 'k set" where
  "to_visit m it = cur_keys it \<union> {k \<in> dom m. it_pos it \<le> pos k}"

definition iter_ok :: "('k \<rightharpoonup> 'v) \<Rightarrow> 'k iter \<Rightarrow> bool" where
  "iter_ok m it \<longleftrightarrow> ir_cache_segments it = N \<and> ir_num_cht_segments it = M \<and> ir_cht_seg_index it \<le> M \<and>
     ir_cache_seg_index it < N \<and> \<not> ir_is_done it \<and> distinct (case ir_keys it of None \<Rightarrow> [] | Some ks \<Rightarrow> ks) \<and>
     (\<forall>k \<in> cur_keys it. k \<in> dom m \<and> cache_of k = ir_cache_seg_index it \<and> pos k < it_pos it)"

lemma adjust_ok:
  assumes "iter_ok m it"
  shows "it_pos (adjust_indices it) = it_pos it" "ir_cht_seg_index (adjust_indices it) < M"
    "ir_keys (adjust_indices it) = ir_keys it" "ir_cache_segments (adjust_indices it) = N" "\<not> ir_is_done (adjust_indices it)"
    "ir_num_cht_segments (adjust_indices it) = M"
    "ir_cache_seg_index (adjust_indices it) \<ge> N \<Longrightarrow> ir_cht_seg_index it \<ge> ir_num_cht_segments it \<and> N * M \<le> it_pos it"
proof -
  have a: "ir_cht_seg_index it \<le> M" "ir_num_cht_segments it = M" "ir_cache_segments it = N" "\<not> ir_is_done it" "ir_cache_seg_index it < N"
    using assms by (auto simp: iter_ok_def)
  show p: "it_pos (adjust_indices it) = it_pos it" using a by (auto simp: adjust_indices_def it_pos_def)
  show "ir_cht_seg_index (adjust_indices it) < M" "ir_keys (adjust_indices it) = ir_keys it"
    "ir_cache_segments (adjust_indices it) = N" "\<not> ir_is_done (adjust_indices it)" "ir_num_cht_segments (adjust_indices it) = M"
    using a M_pos by (auto simp: adjust_indices_def)
  assume n: "ir_cache_seg_index (adjust_indices it) \<ge> N"
  then have "ir_cache_seg_index (adjust_indices it) = N" "ir_cht_seg_index it \<ge> ir_num_cht_segments it"
    using a by (auto simp: adjust_indices_def split: if_splits)
  then show "ir_cht_seg_index it \<ge> ir_num_cht_segments it \<and> N * M \<le> it_pos it" unfolding p[symmetric] by (simp add: it_pos_def)
qed

lemma pos_less:
  assumes "ok s" "k \<in> dom (tbl s)"
  shows "pos k < N * M"
proof -
  have "cache_of k < N" "seg_of k < M" using home_ok[OF assms] by auto
  then have "pos k < Suc (cache_of k) * M" by (simp add: pos_def)
  also have "\<dots> \<le> N * M" using \<open>cache_of k < N\<close> by (intro mult_le_mono1) simp
  finally show ?thesis .
qed

lemma pos_eq:
  assumes "ok s" "k \<in> dom (tbl s)" "i < M"
  shows "pos k = c * M + i \<longleftrightarrow> cache_of k = c \<and> seg_of k = i"
proof -
  have "seg_of k < M" using home_ok[OF assms(1,2)] by simp
  have "pos k = c * M + i \<Longrightarrow> pos k div M = c \<and> pos k mod M = i" using assms(3) by (simp add: mult.commute)
  moreover have "pos k div M = cache_of k" "pos k mod M = seg_of k" using \<open>seg_of k < M\<close> by (simp_all add: pos_def mult.commute)
  ultimately show ?thesis by (auto simp: pos_def)
qed

lemma iter_current_keys_ok:
  assumes "ok s" "tbl s = m" "iter_ok m it"
  shows "\<exists>s' it' more. iter_current_keys keys num_cht_segments s it = Some (s', it', more) \<and> ok s' \<and> tbl s' = m \<and> before s s' \<and>
    (if more then iter_ok m it' \<and> to_visit m it' = to_visit m it \<and> \<not> is_none_or_empty (ir_keys it') else to_visit m it = {})"
  using assms
proof (induction "N * M - it_pos it" arbitrary: s it rule: less_induct)
  case less
  note step = iter_current_keys.simps[of keys num_cht_segments s it] and a = adjust_ok[OF less.prems(3)]
  let ?a = "adjust_indices it" and ?c = "ir_cache_seg_index (adjust_indices it)" and ?i = "ir_cht_seg_index (adjust_indices it)"
  show ?case
  proof (cases "is_none_or_empty (ir_keys it)")
    case no: True
    have empty: "to_visit m it = {k \<in> dom m. it_pos it \<le> pos k}"
      using no by (auto simp: to_visit_def cur_keys_def is_none_or_empty_def split: option.splits)
    show ?thesis
    proof (cases "?c \<ge> N")
      case True
      note fin = a(7)[OF True]
      have "to_visit m it = {}" using pos_less[OF less.prems(1)] less.prems(2) fin unfolding empty by fastforce
      then show ?thesis using fin True no less.prems step a(4) before_refl by (auto simp: Let_def)
    next
      case False
      then have c: "?c < N" by simp
      obtain s' ks where k: "keys s ?c ?i = Some (s', Some ks)" "ok s'" "tbl s' = m" "distinct ks"
        "set ks = {k \<in> dom m. cache_of k = ?c \<and> seg_of k = ?i}" "before s s'"
        using keys_ok[OF less.prems(1) c a(2)] less.prems(2) by auto
      let ?it = "?a\<lparr>ir_keys := Some ks, ir_num_cht_segments := num_cht_segments s' ?c, ir_cht_seg_index := ?i + 1\<rparr>"
      have p: "it_pos ?it = Suc (it_pos it)" using a(1) by (simp add: it_pos_def)
      have eqp: "\<And>k. k \<in> dom m \<Longrightarrow> cache_of k = ?c \<and> seg_of k = ?i \<longleftrightarrow> pos k = it_pos it"
        using pos_eq[OF less.prems(1) _ a(2), of _ ?c] less.prems(2) a(1) by (simp add: it_pos_def)
      have kd: "set ks = {k \<in> dom m. pos k = it_pos it}" unfolding k(5) using eqp by blast
      have "\<forall>k \<in> set ks. pos k < it_pos ?it" unfolding kd p by simp
      moreover have "\<forall>k \<in> set ks. k \<in> dom m \<and> cache_of k = ?c" unfolding k(5) by simp
      ultimately have it: "iter_ok m ?it"
        unfolding iter_ok_def using k(4) num_ok[OF k(2) c] c a(2,4,5) by (simp add: cur_keys_def)
      have "to_visit m ?it = {k \<in> dom m. it_pos it \<le> pos k}" unfolding to_visit_def p
        by (auto simp: cur_keys_def kd Suc_le_eq order_le_less)
      then have rest: "to_visit m it = to_visit m ?it" by (simp only: empty)
      have eq: "iter_current_keys keys num_cht_segments s it = iter_current_keys keys num_cht_segments s' ?it"
        unfolding step using k(1) no c a(4) by (simp add: Let_def)
      have "?c * M + ?i < N * M" using c a(2) by (metis add.commute add_less_mono1 less_le_trans mult_Suc mult_le_mono1 not_less_eq Suc_leI)
      then have "N * M - it_pos ?it < N * M - it_pos it" using p a(1) by (simp add: it_pos_def)
      from less.hyps[OF this k(2,3) it] show ?thesis unfolding eq rest using before_trans[OF k(6)] by blast
    qed
  qed (use less.prems step before_refl in auto)
qed

lemma iter_next_key_ok:
  assumes "ok s" "tbl s = m" "iter_ok m it"
  shows "\<exists>s' it' mk. iter_next_key keys num_cht_segments s it = Some (s', it', mk) \<and> ok s' \<and> tbl s' = m \<and> before s s' \<and>
    (case mk of None \<Rightarrow> to_visit m it = {}
     | Some k \<Rightarrow> iter_ok m it' \<and> k \<in> to_visit m it \<and> k \<in> dom m \<and> cache_of k = ir_cache_seg_index it' \<and> to_visit m it' = to_visit m it - {k})"
proof -
  obtain s' it' more where c: "iter_current_keys keys num_cht_segments s it = Some (s', it', more)" "ok s'" "tbl s' = m"
    "if more then iter_ok m it' \<and> to_visit m it' = to_visit m it \<and> \<not> is_none_or_empty (ir_keys it') else to_visit m it = {}" "before s s'"
    using iter_current_keys_ok[OF assms] by blast
  show ?thesis
  proof (cases more)
    case True
    then have i: "iter_ok m it'" "to_visit m it' = to_visit m it" using c(4) by simp_all
    obtain ks where "ir_keys it' = Some ks" "ks \<noteq> []" using True c(4) by (auto simp: is_none_or_empty_def split: option.splits)
    then obtain xs x where ks: "ir_keys it' = Some (xs @ [x])" by (cases ks rule: rev_cases) auto
    let ?it = "it'\<lparr>ir_keys := Some xs\<rparr>"
    have p: "it_pos ?it = it_pos it'" by (simp add: it_pos_def)
    have d: "x \<notin> set xs" "x \<in> dom m" "pos x < it_pos it'" "cache_of x = ir_cache_seg_index it'"
      using i(1) ks by (auto simp: iter_ok_def cur_keys_def)
    have it: "iter_ok m ?it" using i(1) ks unfolding iter_ok_def p by (simp add: cur_keys_def)
    have "to_visit m it' = insert x (to_visit m ?it)" "x \<notin> to_visit m ?it"
      unfolding to_visit_def p using ks d by (auto simp: cur_keys_def)
    then have r: "to_visit m ?it = to_visit m it - {x}" "x \<in> to_visit m it" using i(2) by auto
    have "iter_next_key keys num_cht_segments s it = Some (s', ?it, Some x)"
      using c(1) True ks by (simp add: iter_next_key.simps[of keys num_cht_segments s it])
    with c(2,3,5) it r d(2,4) show ?thesis by auto
  qed (use c in \<open>simp add: iter_next_key.simps[of keys num_cht_segments s it]\<close>)
qed

text \<open>The loop of \<open>next\<close>: a key that it passes over was not sure to be found meanwhile.\<close>

lemma iter_next_loop_ok:
  assumes "ok s" "tbl s = m" "iter_ok m it"
  shows "\<exists>s' it' item. iter_next_loop keys num_cht_segments scanning_get s it = Some (s', it', item) \<and> ok s' \<and> tbl s' = m \<and> before s s' \<and>
    (case item of None \<Rightarrow> (\<forall>k \<in> to_visit m it. \<not> sure s s' k)
     | Some (k, v) \<Rightarrow> iter_ok m it' \<and> k \<in> to_visit m it \<and> m k = Some v \<and> to_visit m it' \<subseteq> to_visit m it - {k} \<and>
         (\<forall>j \<in> to_visit m it - to_visit m it' - {k}. \<not> sure s s' j))"
  using assms
proof (induction "card (to_visit m it)" arbitrary: s it rule: less_induct)
  case less
  have fin: "finite (to_visit m it)" using finite_ok[OF less.prems(1)] less.prems(2)
    by (auto simp: to_visit_def cur_keys_def split: option.split)
  note step = iter_next_loop.simps[of keys num_cht_segments scanning_get s it]
  obtain s' it' mk where k: "iter_next_key keys num_cht_segments s it = Some (s', it', mk)" "ok s'" "tbl s' = m"
    "case mk of None \<Rightarrow> to_visit m it = {}
     | Some k \<Rightarrow> iter_ok m it' \<and> k \<in> to_visit m it \<and> k \<in> dom m \<and> cache_of k = ir_cache_seg_index it' \<and> to_visit m it' = to_visit m it - {k}"
    "before s s'"
    using iter_next_key_ok[OF less.prems] by blast
  show ?case
  proof (cases mk)
    case (Some j)
    then have j: "iter_ok m it'" "j \<in> to_visit m it" "j \<in> dom m" "cache_of j = ir_cache_seg_index it'" "to_visit m it' = to_visit m it - {j}"
      using k(4) by simp_all
    have seg: "ir_cache_seg_index it' < ir_cache_segments it'" using j(1) by (simp add: iter_ok_def)
    obtain s2 r where g: "scanning_get s' (cache_of j) j = Some (s2, r)" "ok s2" "tbl s2 = m" "r = None \<or> r = m j" "sure s' s2 j \<longrightarrow> r = m j"
      "before s' s2"
      using get_ok[OF k(2), of j] j(3) k(3) by auto
    show ?thesis
    proof (cases r)
      case None
      have ns: "\<not> sure s s3 j" if "before s2 s3" for s3 using g(5) j(3) None sure_sub[OF k(5) g(6) that] by auto
      have sub: "\<not> sure s s3 i" if "before s2 s3" "\<not> sure s2 s3 i" for s3 i
        using that sure_sub[OF before_trans[OF k(5) g(6)] that(1) before_refl] by blast
      have eq: "iter_next_loop keys num_cht_segments scanning_get s it = iter_next_loop keys num_cht_segments scanning_get s2 it'"
        unfolding step using k(1) Some g(1) None j(4) seg by simp
      have "card (to_visit m it') < card (to_visit m it)" using fin j(2) unfolding j(5) by (rule card_Diff1_less)
      from less.hyps[OF this g(2,3) j(1)] obtain s3 it3 item where h: "iter_next_loop keys num_cht_segments scanning_get s2 it' = Some (s3, it3, item)"
        "ok s3" "tbl s3 = m" "before s2 s3" "case item of None \<Rightarrow> (\<forall>k \<in> to_visit m it'. \<not> sure s2 s3 k)
         | Some (k, v) \<Rightarrow> iter_ok m it3 \<and> k \<in> to_visit m it' \<and> m k = Some v \<and> to_visit m it3 \<subseteq> to_visit m it' - {k} \<and>
             (\<forall>j \<in> to_visit m it' - to_visit m it3 - {k}. \<not> sure s2 s3 j)" by blast
      have "before s s3" using before_trans[OF before_trans[OF k(5) g(6)] h(4)] .
      with h ns[OF h(4)] sub[OF h(4)] j(2,5) show ?thesis unfolding eq by (fastforce split: option.splits)
    next
      case (Some v)
      have "iter_next_loop keys num_cht_segments scanning_get s it = Some (s2, it', Some (j, v))"
        unfolding step using k(1) \<open>mk = Some j\<close> g(1) Some j(4) seg by simp
      moreover have "before s s2" by (rule before_trans[OF k(5) g(6)])
      ultimately show ?thesis using g Some j by auto
    qed
  qed (use k step in simp)
qed

lemma iter_items_ok:
  assumes "ok s" "tbl s = m" "iter_ok m it"
  shows "\<exists>s' xs. iter_items keys num_cht_segments scanning_get s it = Some (s', xs) \<and> ok s' \<and> tbl s' = m \<and> before s s' \<and>
    distinct (map fst xs) \<and> (\<forall>(k, v) \<in> set xs. k \<in> to_visit m it \<and> m k = Some v) \<and>
    (\<forall>k \<in> to_visit m it. sure s s' k \<longrightarrow> k \<in> fst ` set xs)"
  using assms
proof (induction "card (to_visit m it)" arbitrary: s it rule: less_induct)
  case less
  have fin: "finite (to_visit m it)" using finite_ok[OF less.prems(1)] less.prems(2)
    by (auto simp: to_visit_def cur_keys_def split: option.split)
  have nd: "\<not> ir_is_done it" using less.prems(3) by (simp add: iter_ok_def)
  note step = iter_items.simps[of keys num_cht_segments scanning_get s it] iter_next_item_def
  obtain s' it' item where i: "iter_next_loop keys num_cht_segments scanning_get s it = Some (s', it', item)" "ok s'" "tbl s' = m"
    "case item of None \<Rightarrow> (\<forall>k \<in> to_visit m it. \<not> sure s s' k)
     | Some (k, v) \<Rightarrow> iter_ok m it' \<and> k \<in> to_visit m it \<and> m k = Some v \<and> to_visit m it' \<subseteq> to_visit m it - {k} \<and>
         (\<forall>j \<in> to_visit m it - to_visit m it' - {k}. \<not> sure s s' j)" "before s s'"
    using iter_next_loop_ok[OF less.prems] by blast
  show ?case
  proof (cases item)
    case (Some kv)
    obtain k v where kv: "item = Some (k, v)" "iter_ok m it'" "k \<in> to_visit m it" "m k = Some v" "to_visit m it' \<subseteq> to_visit m it - {k}"
      "\<forall>j \<in> to_visit m it - to_visit m it' - {k}. \<not> sure s s' j"
      using i(4) Some by (cases kv) auto
    have "card (to_visit m it') < card (to_visit m it)"
      by (rule psubset_card_mono[OF fin]) (use kv(3,5) in blast)
    from less.hyps[OF this i(2,3) kv(2)] obtain s'' xs where xs: "iter_items keys num_cht_segments scanning_get s' it' = Some (s'', xs)"
      "ok s''" "tbl s'' = m" "distinct (map fst xs)" "\<forall>(k, v) \<in> set xs. k \<in> to_visit m it' \<and> m k = Some v"
      "\<forall>k \<in> to_visit m it'. sure s' s'' k \<longrightarrow> k \<in> fst ` set xs" "before s' s''" by blast
    have "iter_items keys num_cht_segments scanning_get s it = Some (s'', (k, v) # xs)"
      using i(1) kv(1) xs(1) nd by (simp add: step)
    moreover have "k \<notin> fst ` set xs" using xs(5) kv(5) by fastforce
    moreover have "sure s s'' j \<Longrightarrow> sure s s' j \<and> sure s' s'' j" for j
      using sure_sub[OF before_refl i(5) xs(7)] sure_sub[OF i(5) xs(7) before_refl] by blast
    then have "\<forall>j \<in> to_visit m it. sure s s'' j \<longrightarrow> j = k \<or> j \<in> fst ` set xs" using xs(6) kv(6) by blast
    moreover have "before s s''" by (rule before_trans[OF i(5) xs(7)])
    moreover have "\<forall>(j, w) \<in> set xs. j \<in> to_visit m it \<and> m j = Some w" using xs(5) kv(5) by blast
    ultimately show ?thesis using xs(2,3,4) kv(3,4) by auto
  qed (use i nd in \<open>simp add: step\<close>)
qed

lemma items_all:
  assumes "ok s" "0 < N"
  shows "\<exists>s' xs. iter_items keys num_cht_segments scanning_get s (with_multiple_cache_segments N M) = Some (s', xs) \<and> ok s' \<and>
    tbl s' = tbl s \<and> distinct (map fst xs) \<and> (\<forall>(k, v) \<in> set xs. tbl s k = Some v) \<and>
    (\<forall>k \<in> dom (tbl s). sure s s' k \<longrightarrow> k \<in> fst ` set xs)"
proof -
  let ?it = "with_multiple_cache_segments N M :: 'k iter"
  have "iter_ok (tbl s) ?it" "to_visit (tbl s) ?it = dom (tbl s)"
    using assms(2) by (auto simp: iter_ok_def to_visit_def cur_keys_def it_pos_def with_multiple_cache_segments_def)
  then show ?thesis using iter_items_ok[OF assms(1) refl, of ?it] by fastforce
qed

end

end
