(* ===== verification/Segmented_Iter.thy ===== *)
theory Segmented_Iter
  imports Segmented_Cache Common_Iter Cht_Iter
begin

text \<open>
  Iterating over a cache and over a segmented cache (\<open>iter\<close> of \<open>src/src/sync/cache.rs\<close> and
  \<open>src/src/sync/segment.rs\<close>). The table of a cache is a map in its model, which says which entries a lookup finds; the
  keys of its segments are listed by the hash table, so an iteration works on the hash tables together with the
  caches. \<open>table_of\<close> says that a hash table implements the table of a cache.
\<close>

section \<open>The hash table of a cache\<close>

text \<open>The hash table that \<open>Inner::new\<close> makes.\<close>

definition cache_table_new :: "('k, 'v) config \<Rightarrow> ('k, 'v value_entry) hash_map or_panic" where
  "cache_table_new cf =
     (let (num_segments, initial_capacity) =
            (if cf_max_capacity cf = Some 0 then (1, 0)
             else (64, case cf_initial_capacity cf of Some cap \<Rightarrow> cap + WRITE_LOG_CH_SIZE | None \<Rightarrow> 0))
      in with_num_segments_capacity_and_hasher num_segments initial_capacity)"

definition table_of :: "('k, 'v) config \<Rightarrow> ('k, 'v) base_cache \<Rightarrow> ('k, 'v value_entry) hash_map \<Rightarrow> bool" where
  "table_of cf bc h \<longleftrightarrow> hm_ok (cf_hash cf) h \<and> hm_map (cf_hash cf) h = in_cache (bc_inner bc) \<and>
     length (hm_segments h) = (if cf_max_capacity cf = Some 0 then 1 else 64)"

section \<open>The trait \<open>ScanningGet\<close> of a cache\<close>

definition num_cht_segments :: "('k, 'v value_entry) hash_map \<Rightarrow> nat" where
  "num_cht_segments h = actual_num_segments h"

definition cache_keys ::
  "('k, 'v) config \<Rightarrow> ('k, 'v value_entry) hash_map \<Rightarrow> nat \<Rightarrow> (('k, 'v value_entry) hash_map \<times> 'k list option) or_panic" where
  "cache_keys cf h cht_segment = hm_keys (cf_hash cf) h cht_segment id"

section \<open>The iterators\<close>

definition sc_keys ::
  "('k, 'v value_entry) hash_map list \<times> ('k, 'v) seg_cache \<Rightarrow> nat \<Rightarrow> nat \<Rightarrow>
    ((('k, 'v value_entry) hash_map list \<times> ('k, 'v) seg_cache) \<times> 'k list option) or_panic" where
  "sc_keys s c i =
     (let (hs, sc) = s
      in if c < length (sc_segments sc)
         then do { (h, ks) \<leftarrow> cache_keys (fst (sc_segments sc ! c)) (hs ! c) i; Some ((hs[c := h], sc), ks) }
         else None)"

definition sc_num_cht_segments :: "('k, 'v value_entry) hash_map list \<times> ('k, 'v) seg_cache \<Rightarrow> nat \<Rightarrow> nat" where
  "sc_num_cht_segments s c = num_cht_segments (fst s ! c)"

definition sc_scanning_get ::
  "('k, 'v value_entry) hash_map list \<times> ('k, 'v) seg_cache \<Rightarrow> nat \<Rightarrow> 'k \<Rightarrow>
    ((('k, 'v value_entry) hash_map list \<times> ('k, 'v) seg_cache) \<times> 'v option) or_panic" where
  "sc_scanning_get s c key =
     (let (hs, sc) = s
      in if c < length (sc_segments sc)
         then (let (cf, bc) = sc_segments sc ! c; (bc, r) = scanning_get cf key bc
               in Some ((hs, sc\<lparr>sc_segments := (sc_segments sc)[c := (cf, bc)]\<rparr>), r))
         else None)"

text \<open>\<open>SegmentedCache::iter\<close>, run to its end.\<close>

definition sc_iter ::
  "('k, 'v value_entry) hash_map list \<times> ('k, 'v) seg_cache \<Rightarrow>
    ((('k, 'v value_entry) hash_map list \<times> ('k, 'v) seg_cache) \<times> ('k \<times> 'v) list) or_panic" where
  "sc_iter s =
     (if sc_segments (snd s) = [] then None
      else iter_items sc_keys sc_num_cht_segments sc_scanning_get s
             (with_multiple_cache_segments (length (sc_segments (snd s))) (sc_num_cht_segments s 0)))"

text \<open>\<open>Cache::iter\<close>, run to its end.\<close>

definition cache_iter ::
  "('k, 'v) config \<Rightarrow> ('k, 'v value_entry) hash_map \<times> ('k, 'v) base_cache \<Rightarrow>
    ((('k, 'v value_entry) hash_map \<times> ('k, 'v) base_cache) \<times> ('k \<times> 'v) list) or_panic" where
  "cache_iter cf s =
     iter_items (\<lambda>(h, bc) c i. do { (h, ks) \<leftarrow> cache_keys cf h i; Some ((h, bc), ks) }) (\<lambda>(h, bc) c. num_cht_segments h)
       (\<lambda>(h, bc) c k. let (bc, r) = scanning_get cf k bc in Some ((h, bc), r)) s
       (iter_with_single_cache_segment (num_cht_segments (fst s)))"

section \<open>The shape of a hash table\<close>

lemma hm_exec_shape: "hm_exec H h c = Some (h', r) \<Longrightarrow> length (hm_segments h') = length (hm_segments h)"
  by (cases c) (auto simp: hm_get_def hm_get_key_value_and_def hm_get_key_value_and_then_def hm_insert_with_or_modify_def
      hm_insert_with_or_modify_entry_and_def hm_insert_if_not_present_def hm_remove_if_def hm_remove_entry_if_and_def
      count_new_def dest!: bucket_array_ref_shape split: bind_splits if_splits)

lemma run_calls_shape: "run_calls (hm_exec H) h cs = Some (h', rs) \<Longrightarrow> length (hm_segments h') = length (hm_segments h)"
  by (induction cs arbitrary: h rs) (auto dest: hm_exec_shape split: bind_splits prod.splits)

text \<open>There is a hash table for every finite table.\<close>

lemma cache_table_new_ok:
  assumes "\<forall>cap. cf_initial_capacity cf = Some cap \<longrightarrow> cap < 2 ^ 53"
  shows "\<exists>h. cache_table_new cf = Some h \<and> hm_ok H h \<and> hm_map H h = Map.empty \<and>
    length (hm_segments h) = (if cf_max_capacity cf = Some 0 then 1 else 64)"
proof -
  have W: "WRITE_LOG_CH_SIZE \<le> 2 ^ 53" by (simp add: WRITE_LOG_CH_SIZE_def WRITE_LOG_FLUSH_POINT_def DEFAULT_MAX_LOG_SYNC_REPEATS_def)
  have c: "(case cf_initial_capacity cf of Some cap \<Rightarrow> cap + WRITE_LOG_CH_SIZE | None \<Rightarrow> 0) \<le> 2 ^ 62"
    using assms W by (fastforce split: option.split)
  have len: "length (hm_segments h) = next_power_of_two n" if "with_num_segments_capacity_and_hasher n c = Some h" for n c and h :: "('a, 'b value_entry) hash_map"
    using that by (auto simp: with_num_segments_capacity_and_hasher_def next_power_of_two_usize_def Let_def split: if_splits bind_splits)
  have p: "next_power_of_two 1 = 1" "next_power_of_two 64 = 64" by code_simp+
  show ?thesis
    using with_num_segments_ok[of 1 0 H] with_num_segments_ok[of 64 _ H, OF _ _ c] len p by (fastforce simp: cache_table_new_def)
qed

lemma foldl_inserts:
  assumes "distinct ks" "dom m \<inter> set ks = {}"
  shows "foldl map_call m (map (\<lambda>k. InsertNew k (f k)) ks) = (\<lambda>k. if k \<in> set ks then Some (f k) else m k)"
  using assms by (induction ks arbitrary: m) (auto simp: fun_eq_iff split: option.splits)

lemma table_exists:
  fixes bc :: "('k, 'v) base_cache"
  assumes "finite (dom (in_cache (bc_inner bc)))"
  shows "\<exists>h. table_of cf bc h"
proof -
  let ?H = "cf_hash cf" and ?m = "in_cache (bc_inner bc)" and ?cf = "cf\<lparr>cf_initial_capacity := None\<rparr>"
  obtain h :: "('k, 'v value_entry) hash_map" where h: "hm_ok ?H h" "hm_map ?H h = Map.empty" "length (hm_segments h) = (if cf_max_capacity cf = Some 0 then 1 else 64)"
    using cache_table_new_ok[of ?cf ?H] by auto
  obtain ks where ks: "set ks = dom ?m" "distinct ks" using finite_distinct_list[OF assms] by blast
  let ?cs = "map (\<lambda>k. InsertNew k (the (?m k))) ks"
  obtain h' where h': "run_calls (hm_exec ?H) h ?cs = Some (h', map_answers (hm_map ?H h) ?cs)" "hm_ok ?H h'" "hm_map ?H h' = foldl map_call (hm_map ?H h) ?cs"
    using hm_table.run_ok[OF h(1), of ?cs] by blast
  have "hm_map ?H h' = ?m" unfolding h'(3) h(2) using foldl_inserts[OF ks(2), of Map.empty "\<lambda>k. the (?m k)"] ks(1) by (auto simp: fun_eq_iff)
  with h' h(3) run_calls_shape[OF h'(1)] show ?thesis by (auto simp: table_of_def)
qed

section \<open>What an iteration yields\<close>

text \<open>The entry of a key is live whenever the clock is read between two counts of its readings.\<close>

definition live_between :: "('k, 'v) config \<Rightarrow> ('k, 'v) base_cache \<Rightarrow> nat \<Rightarrow> nat \<Rightarrow> 'k \<Rightarrow> bool" where
  "live_between cf bc t t' k \<longleftrightarrow>
     (\<exists>e. in_cache (bc_inner bc) k = Some e \<and> (\<forall>i. t \<le> i \<and> i < t' \<longrightarrow> is_live_entry cf k e (cf_clock cf i) (bc_inner bc)))"

abbreviation ticks :: "('k, 'v) base_cache \<Rightarrow> nat" where
  "ticks bc \<equiv> in_ticks (bc_inner bc)"

text \<open>Scanning only reads the clock.\<close>

definition same_but_ticks :: "('k, 'v) base_cache \<Rightarrow> ('k, 'v) base_cache \<Rightarrow> bool" where
  "same_but_ticks bc bc' \<longleftrightarrow> (\<exists>t. bc' = bc\<lparr>bc_inner := (bc_inner bc)\<lparr>in_ticks := t\<rparr>\<rparr>)"

lemma same_but_ticks_refl: "same_but_ticks bc bc"
  unfolding same_but_ticks_def by (rule exI[of _ "ticks bc"]) simp

lemma same_but_ticksD:
  assumes "same_but_ticks bc bc'"
  shows "in_cache (bc_inner bc') = in_cache (bc_inner bc)" "table (bc', []) = table (bc, [])"
    "is_live_entry cf k e now (bc_inner bc') = is_live_entry cf k e now (bc_inner bc)"
  using assms by (auto simp: same_but_ticks_def table_def)

lemma scanning_get_ok:
  assumes "same_but_ticks bc0 bc" "scanning_get cf k bc = (bc', r)"
  shows "same_but_ticks bc0 bc'" "ticks bc \<le> ticks bc'" "r = None \<or> r = table (bc0, []) k"
    "live_between cf bc0 (ticks bc) (ticks bc') k \<Longrightarrow> r = table (bc0, []) k"
proof -
  note s = same_but_ticksD[OF assms(1)]
  show "same_but_ticks bc0 bc'" "ticks bc \<le> ticks bc'" "r = None \<or> r = table (bc0, []) k"
    using assms by (auto simp: scanning_get_def current_time_def same_but_ticks_def table_def split: option.splits if_splits)
  show "live_between cf bc0 (ticks bc) (ticks bc') k \<Longrightarrow> r = table (bc0, []) k"
    using assms(2) s(1,3) by (auto simp: live_between_def scanning_get_def current_time_def table_def)
qed

lemma finite_table: "bc_inv cf F bc \<Longrightarrow> finite (dom (in_cache (bc_inner bc)))"
  using tbl_okD(1)[OF inner_invD(3)] by (auto simp: bc_inv_def)

definition cht_segment_of :: "('k, 'v) config \<Rightarrow> 'k \<Rightarrow> nat" where
  "cht_segment_of cf key = (if cf_max_capacity cf = Some 0 then 0 else unat (drop_bit 58 (cf_hash cf key)))"

lemma table_segment:
  assumes "table_of cf bc h"
  shows "segment_index_from_hash h (cf_hash cf k) = cht_segment_of cf k"
proof -
  obtain n where n: "n \<le> 64" "length (hm_segments h) = 2 ^ n" "hm_segment_shift h = 64 - n" using assms by (auto simp: table_of_def hm_ok_def)
  have "n = (if cf_max_capacity cf = Some 0 then 0 else 6)"
  proof (cases "cf_max_capacity cf = Some 0")
    case False
    then have "(2 :: nat) ^ n = 2 ^ 6" using assms n(2) by (simp add: table_of_def)
    then have "n = 6" by (rule power_inject_exp[THEN iffD1, rotated]) simp
    with False show ?thesis by simp
  qed (use assms n(2) in \<open>simp add: table_of_def\<close>)
  with n(3) show ?thesis by (simp add: segment_index_from_hash_def cht_segment_of_def)
qed

lemma cht_segment_less: "cht_segment_of cf k < (if cf_max_capacity cf = Some 0 then 1 else 64)"
  using top_bits_less[of 6 "cf_hash cf k"] by (simp add: cht_segment_of_def)

lemma cache_keys_ok:
  assumes h: "table_of cf bc h" and i: "i < num_cht_segments h"
  shows "\<exists>h' ks. cache_keys cf h i = Some (h', Some ks) \<and> table_of cf bc h' \<and> distinct ks \<and>
    set ks = {k \<in> dom (table (bc, [])). cht_segment_of cf k = i}"
proof -
  have ok: "hm_ok (cf_hash cf) h" using h by (simp add: table_of_def)
  have "i < length (hm_segments h)" using i by (simp add: num_cht_segments_def actual_num_segments_def)
  from hm_keys_ok[OF ok this, of id] h show ?thesis
    unfolding cache_keys_def table_segment[OF h] by (auto simp: table_of_def dom_table)
qed

lemma table_of_same: "same_but_ticks bc bc' \<Longrightarrow> table_of cf bc' h = table_of cf bc h"
  by (simp add: table_of_def same_but_ticksD(1))

lemma table_of_num: "table_of cf bc h \<Longrightarrow> num_cht_segments h = (if cf_max_capacity cf = Some 0 then 1 else 64)"
  by (simp add: table_of_def num_cht_segments_def actual_num_segments_def)

interpretation cache_scan: scanning_caches
  "\<lambda>(h, bc). table_of cf bc0 h \<and> finite (dom (in_cache (bc_inner bc0))) \<and> same_but_ticks bc0 bc"
  "\<lambda>_. table (bc0, [])" "\<lambda>_. 0" "cht_segment_of cf" 1 "if cf_max_capacity cf = Some 0 then 1 else 64"
  "\<lambda>(h, bc) (h', bc'). ticks bc \<le> ticks bc'" "\<lambda>(h, bc) (h', bc'). live_between cf bc0 (ticks bc) (ticks bc')"
  "\<lambda>(h, bc) c i. do { (h, ks) \<leftarrow> cache_keys cf h i; Some ((h, bc), ks) }" "\<lambda>(h, bc) c. num_cht_segments h"
  "\<lambda>(h, bc) c k. let (bc, r) = scanning_get cf k bc in Some ((h, bc), r)" for cf bc0
proof (unfold_locales, goal_cases)
  case (2 s c i)
  then obtain h bc where s: "s = (h, bc)" "table_of cf bc0 h" "finite (dom (in_cache (bc_inner bc0)))" "same_but_ticks bc0 bc" by (cases s) auto
  have "i < num_cht_segments h" using 2 table_of_num[OF s(2)] by (simp split: if_splits)
  from cache_keys_ok[OF s(2) this] obtain h' ks where "cache_keys cf h i = Some (h', Some ks)" "table_of cf bc0 h'" "distinct ks"
    "set ks = {k \<in> dom (table (bc0, [])). cht_segment_of cf k = i}" by blast
  with s 2 show ?case by auto
next
  case (4 s k)
  then obtain h bc where s: "s = (h, bc)" "table_of cf bc0 h" "finite (dom (in_cache (bc_inner bc0)))" "same_but_ticks bc0 bc" by (cases s) auto
  obtain bc' r where r: "scanning_get cf k bc = (bc', r)" by (cases "scanning_get cf k bc")
  from scanning_get_ok[OF s(4) r] s r show ?case by auto
qed (auto simp: table_of_num dom_table live_between_def cht_segment_less split: if_splits)

text \<open>The hash tables of a segmented cache, and the cache while it is scanned.\<close>

definition tables_of :: "('k, 'v) seg_cache \<Rightarrow> ('k, 'v value_entry) hash_map list \<Rightarrow> bool" where
  "tables_of sc hs \<longleftrightarrow> length hs = length (sc_segments sc) \<and>
     (\<forall>i < length (sc_segments sc). table_of (fst (sc_segments sc ! i)) (snd (sc_segments sc ! i)) (hs ! i))"

definition seg_ticks :: "('k, 'v) seg_cache \<Rightarrow> nat \<Rightarrow> nat" where
  "seg_ticks sc i = ticks (snd (sc_segments sc ! i))"

definition scanned :: "('k, 'v) seg_cache \<Rightarrow> ('k, 'v value_entry) hash_map list \<times> ('k, 'v) seg_cache \<Rightarrow> bool" where
  "scanned sc0 s \<longleftrightarrow> sc_ok sc0 \<and> tables_of sc0 (fst s) \<and> length (sc_segments (snd s)) = length (sc_segments sc0) \<and>
     (\<forall>i < length (sc_segments sc0). fst (sc_segments (snd s) ! i) = fst (sc_segments sc0 ! i) \<and>
        same_but_ticks (snd (sc_segments sc0 ! i)) (snd (sc_segments (snd s) ! i)))"

definition home_segment :: "('k, 'v) seg_cache \<Rightarrow> 'k \<Rightarrow> nat" where
  "home_segment sc k = sc_segment_index_from_hash sc (sc_hash sc k)"

text \<open>The entry of a key is live at every reading of the clock by its segment that leads from one state to another.\<close>

definition sc_live_between :: "('k, 'v) seg_cache \<Rightarrow> ('k, 'v) seg_cache \<Rightarrow> ('k, 'v) seg_cache \<Rightarrow> 'k \<Rightarrow> bool" where
  "sc_live_between sc0 sc sc' k \<longleftrightarrow>
     (let i = home_segment sc0 k; (cf, bc) = sc_segments sc0 ! i in live_between cf bc (seg_ticks sc i) (seg_ticks sc' i) k)"

definition ticks_le :: "('k, 'v) seg_cache \<Rightarrow> ('k, 'v) seg_cache \<Rightarrow> ('k, 'v) seg_cache \<Rightarrow> bool" where
  "ticks_le sc0 sc sc' \<longleftrightarrow> (\<forall>i < length (sc_segments sc0). seg_ticks sc i \<le> seg_ticks sc' i)"

lemma sc_live_between_sub:
  assumes "sc_ok sc0" "ticks_le sc0 sc sc1" "ticks_le sc0 sc2 sc'" "sc_live_between sc0 sc sc' k"
  shows "sc_live_between sc0 sc1 sc2 k"
proof -
  have "home_segment sc0 k < length (sc_segments sc0)" using sc_okD(1)[OF assms(1)] by (simp add: home_segment_def)
  then have "seg_ticks sc (home_segment sc0 k) \<le> seg_ticks sc1 (home_segment sc0 k)" "seg_ticks sc2 (home_segment sc0 k) \<le> seg_ticks sc' (home_segment sc0 k)"
    using assms(2,3) by (simp_all add: ticks_le_def)
  with assms(4) show ?thesis
    by (auto simp: sc_live_between_def live_between_def Let_def split: prod.splits)
qed

lemma segment_of_scanned:
  assumes "sc_ok sc" "i < length (sc_segments sc)" "sc_segments sc ! i = (cf, bc)"
  shows "cf_max_capacity cf \<noteq> Some 0" "cht_segment_of cf k = unat (drop_bit 58 (sc_hash sc k))" "finite (dom (in_cache (bc_inner bc)))"
    "{k \<in> dom (table (bc, [])). P k} = {k \<in> dom (sc_table sc). home_segment sc k = i \<and> P k}"
proof -
  note d = sc_okD(2)[OF assms]
  show n: "cf_max_capacity cf \<noteq> Some 0" using d liveD(2)[of cf] by simp
  show "cht_segment_of cf k = unat (drop_bit 58 (sc_hash sc k))" using d n by (simp add: cht_segment_of_def)
  show "finite (dom (in_cache (bc_inner bc)))" using d finite_table by blast
  have "k \<in> dom (table (bc, [])) \<longleftrightarrow> k \<in> dom (sc_table sc) \<and> home_segment sc k = i" for k
  proof (cases "home_segment sc k = i")
    case True
    then have "sc_table sc k = table (bc, []) k" using assms(3) by (simp add: home_segment_def sc_table_def)
    with True show ?thesis by (simp add: domIff)
  next
    case False
    then have "k \<notin> dom (table (bc, []))" using d unfolding home_segment_def by blast
    with False show ?thesis by blast
  qed
  then show "{k \<in> dom (table (bc, [])). P k} = {k \<in> dom (sc_table sc). home_segment sc k = i \<and> P k}" by auto
qed

lemma finite_sc_table:
  assumes "sc_ok sc"
  shows "finite (dom (sc_table sc))"
proof -
  have "dom (sc_table sc) \<subseteq> (\<Union>i < length (sc_segments sc). dom (table (snd (sc_segments sc ! i), [])))"
    using sc_okD(1)[OF assms] by (auto simp: sc_table_def dom_def)
  moreover have "finite (dom (table (snd (sc_segments sc ! i), [])))" if "i < length (sc_segments sc)" for i
    using segment_of_scanned(3)[OF assms that, of "fst (sc_segments sc ! i)" "snd (sc_segments sc ! i)"] by (simp add: dom_table)
  ultimately show ?thesis by (meson finite_UN_I finite_lessThan finite_subset lessThan_iff)
qed

lemma tables_exist:
  assumes "sc_ok sc"
  shows "\<exists>hs. tables_of sc hs"
proof -
  have "\<exists>h. table_of (fst (sc_segments sc ! i)) (snd (sc_segments sc ! i)) h" if "i < length (sc_segments sc)" for i
    by (rule table_exists, rule segment_of_scanned(3)[OF assms that, of "fst (sc_segments sc ! i)"]) simp
  then obtain f where "\<forall>i < length (sc_segments sc). table_of (fst (sc_segments sc ! i)) (snd (sc_segments sc ! i)) (f i)" by metis
  then have "tables_of sc (map f [0..<length (sc_segments sc)])" by (simp add: tables_of_def)
  then show ?thesis by blast
qed

lemma sc_keys_ok:
  assumes ok: "scanned sc0 s" and c: "c < length (sc_segments sc0)" and i: "i < 64"
  shows "\<exists>s' ks. sc_keys s c i = Some (s', Some ks) \<and> scanned sc0 s' \<and> snd s' = snd s \<and> distinct ks \<and>
    set ks = {k \<in> dom (sc_table sc0). home_segment sc0 k = c \<and> unat (drop_bit 58 (sc_hash sc0 k)) = i}"
proof -
  obtain hs sc where s: "s = (hs, sc)" by (cases s)
  obtain cf bc0 where s0: "sc_segments sc0 ! c = (cf, bc0)" by (cases "sc_segments sc0 ! c")
  have so: "sc_ok sc0" "tables_of sc0 hs" "length (sc_segments sc) = length (sc_segments sc0)" "fst (sc_segments sc ! c) = cf"
    using ok c s s0 by (auto simp: scanned_def)
  have h: "table_of cf bc0 (hs ! c)" using so(2) c s0 by (auto simp: tables_of_def)
  note g = segment_of_scanned[OF so(1) c s0]
  have "i < num_cht_segments (hs ! c)" using table_of_num[OF h] g(1) i by simp
  from cache_keys_ok[OF h this] obtain h' ks where k: "cache_keys cf (hs ! c) i = Some (h', Some ks)" "table_of cf bc0 h'" "distinct ks"
    "set ks = {k \<in> dom (table (bc0, [])). cht_segment_of cf k = i}" by blast
  have "scanned sc0 (hs[c := h'], sc)" using ok s k(2) s0 c so(2) by (auto simp: scanned_def tables_of_def nth_list_update)
  then show ?thesis using k c so(3,4) unfolding s by (auto simp: sc_keys_def g(2,4))
qed

lemma sc_scanning_get_ok:
  assumes ok: "scanned sc0 s"
  shows "\<exists>s' r. sc_scanning_get s (home_segment sc0 k) k = Some (s', r) \<and> scanned sc0 s' \<and> ticks_le sc0 (snd s) (snd s') \<and>
    (r = None \<or> r = sc_table sc0 k) \<and> (sc_live_between sc0 (snd s) (snd s') k \<longrightarrow> r = sc_table sc0 k)"
proof -
  obtain hs sc where s: "s = (hs, sc)" by (cases s)
  let ?c = "home_segment sc0 k"
  have so: "sc_ok sc0" "length (sc_segments sc) = length (sc_segments sc0)" using ok s by (simp_all add: scanned_def)
  have c: "?c < length (sc_segments sc0)" using sc_okD(1)[OF so(1)] by (simp add: home_segment_def)
  obtain cf bc0 bc where g: "sc_segments sc0 ! ?c = (cf, bc0)" "sc_segments sc ! ?c = (cf, bc)" "same_but_ticks bc0 bc"
    using ok c s by (cases "sc_segments sc0 ! ?c"; cases "sc_segments sc ! ?c") (fastforce simp: scanned_def)
  obtain bc' r where r: "scanning_get cf k bc = (bc', r)" by (cases "scanning_get cf k bc")
  note q = scanning_get_ok[OF g(3) r]
  let ?sc = "sc\<lparr>sc_segments := (sc_segments sc)[?c := (cf, bc')]\<rparr>"
  have "scanned sc0 (hs, ?sc)" using ok s q(1) g(1) c so(2) unfolding scanned_def by (auto simp: nth_list_update)
  moreover have "ticks_le sc0 sc ?sc" using q(2) g(2) so(2) c by (auto simp: ticks_le_def seg_ticks_def nth_list_update)
  moreover have "sc_table sc0 k = table (bc0, []) k" using g(1) by (simp add: sc_table_def home_segment_def)
  moreover have "sc_live_between sc0 sc ?sc k \<longleftrightarrow> live_between cf bc0 (ticks bc) (ticks bc') k"
    using g(1,2) c so(2) by (simp add: sc_live_between_def seg_ticks_def)
  ultimately show ?thesis using q(3,4) r g(2) c so(2) unfolding s by (simp add: sc_scanning_get_def)
qed

interpretation sc_scan: scanning_caches "scanned sc0" "\<lambda>_. sc_table sc0" "home_segment sc0" "\<lambda>k. unat (drop_bit 58 (sc_hash sc0 k))"
  "length (sc_segments sc0)" 64 "\<lambda>s s'. ticks_le sc0 (snd s) (snd s')" "\<lambda>s s' k. sc_ok sc0 \<and> sc_live_between sc0 (snd s) (snd s') k"
  sc_keys sc_num_cht_segments sc_scanning_get for sc0
proof (unfold_locales, goal_cases)
  case (2 s c i)
  from sc_keys_ok[OF this] show ?case by (fastforce simp: ticks_le_def)
next
  case (3 s c)
  obtain cf bc where "sc_segments sc0 ! c = (cf, bc)" by (cases "sc_segments sc0 ! c")
  with segment_of_scanned(1)[OF _ 3(2) this] 3 table_of_num[of cf bc "fst s ! c"] show ?case
    by (auto simp: sc_num_cht_segments_def scanned_def tables_of_def)
next
  case (4 s k)
  from sc_scanning_get_ok[OF 4(1), of k] show ?case by blast
next
  case (7 s s1 s2 s' k)
  then show ?case using sc_live_between_sub[of sc0 "snd s" "snd s1" "snd s2" "snd s'" k] by simp
next
  case (8 s)
  then show ?case by (simp add: scanned_def finite_sc_table)
next
  case (9 s k)
  then show ?case using sc_okD(1)[of sc0] top_bits_less[of 6 "sc_hash sc0 k"] by (simp add: scanned_def home_segment_def)
qed (auto simp: ticks_le_def intro: le_trans)

text \<open>C10: Iterating over a segmented cache visits all segments of all its hash tables. It ends, yields no key
  twice and no value that the cache does not have, and it yields every entry that is neither expired nor
  invalidated at any of the instants at which its segment reads the clock during the iteration.\<close>

theorem segmented_iter_all:
  assumes "0 < num_segments" "num_segments \<le> 2 ^ 52" "capacity_ok (cf_max_capacity cf)" "clocks_ok clocks"
    and "seg_cache_new kh cf clocks l hc b num_segments = Some sc0" "trace sc_step sc0 as sc" "tables_of sc hs"
  shows "\<exists>hs' sc' xs. sc_iter (hs, sc) = Some ((hs', sc'), xs) \<and> distinct (map fst xs) \<and> map_of xs \<subseteq>\<^sub>m sc_table sc \<and>
    (\<forall>k. sc_live_between sc sc sc' k \<longrightarrow> map_of xs k = sc_table sc k) \<and> tables_of sc hs'"
proof -
  have ok: "sc_ok sc" using seg_lossy.trace_contents[OF assms(6)] seg_cache_new_ok[OF assms(1-4), of kh l hc b] assms(5) by simp
  then have s: "scanned sc (hs, sc)" using assms(7) by (simp add: scanned_def same_but_ticks_refl)
  have pos: "0 < length (sc_segments sc)" by (rule le_less_trans[OF le0 sc_okD(1)[OF ok]])
  have m: "sc_num_cht_segments (hs, sc) 0 = 64" using sc_scan.num_ok[OF s pos] .
  obtain s' xs where x: "sc_iter (hs, sc) = Some (s', xs)" "scanned sc s'" "distinct (map fst xs)" "\<forall>(k, v) \<in> set xs. sc_table sc k = Some v"
    "\<forall>k \<in> dom (sc_table sc). sc_live_between sc sc (snd s') k \<longrightarrow> k \<in> fst ` set xs"
    using sc_scan.items_all[OF s pos] pos ok by (auto simp: sc_iter_def m)
  have le: "map_of xs \<subseteq>\<^sub>m sc_table sc" unfolding map_le_def using x(4) by (fastforce dest: map_of_SomeD)
  moreover have "map_of xs k = sc_table sc k" if st: "sc_live_between sc sc (snd s') k" for k
  proof -
    have "k \<in> dom (sc_table sc)"
      using st by (auto simp: sc_live_between_def live_between_def sc_table_def table_def home_segment_def Let_def split: prod.splits)
    then have "k \<in> dom (map_of xs)" using x(5) st by (simp add: dom_map_of_conv_image_fst)
    with le show ?thesis by (auto simp: map_le_def)
  qed
  ultimately show ?thesis using x(1,2,3) by (cases s') (auto simp: scanned_def)
qed

text \<open>The first insertion into a new cache with no expiration.\<close>

lemma first_insert:
  assumes "cf_expiration_policy cf = expiration_policy_default" "\<And>t. cf_clock cf t = Instant 5" "cf_fast_now cf 0 = Instant 5"
    "cf_max_capacity cf \<noteq> Some 0"
  shows "\<exists>bc e. insert_with_hash cf k h v (base_cache_new kh cf None housekeeper_config_default True) = Some bc \<and>
    in_cache (bc_inner bc) = [k \<mapsto> e] \<and> ve_value e = v \<and> is_live_entry cf k e (Instant 5) (bc_inner bc)"
proof -
  let ?bc = "base_cache_new kh cf None housekeeper_config_default True"
  obtain s op ts where i: "do_insert_with_hash cf k h v (bc_inner ?bc) = (s, op, ts)"
    by (cases "do_insert_with_hash cf k h v (bc_inner ?bc)")
  have x: "xp_expiry (cf_expiration_policy cf) = None" "time_to_live cf = None" "time_to_idle cf = None"
    using assms(1) by (simp_all add: expiration_policy_default_def time_to_live_def time_to_idle_def)
  have n: "in_cache (bc_inner ?bc) = Map.empty" "in_write_op_ch (bc_inner ?bc) = []" "in_valid_after (bc_inner ?bc) = atomic_instant_default"
    "in_invalidator (bc_inner ?bc) = Some invalidator_new"
    by (simp_all add: base_cache_new_def inner_new_def Let_def)
  obtain e where s: "in_cache s = [k \<mapsto> e]" "ve_value e = v" "ts = Instant 5" "in_write_op_ch s = []" "in_valid_after s = atomic_instant_default"
    "in_invalidator s = Some invalidator_new"
    using i n x(1) assms(2) by (auto simp: do_insert_with_hash_def current_time_def new_value_entry_def alloc_info_def value_entry_new_def
        do_post_insert_steps_def Let_def split: prod.splits)
  have "\<not> is_expired_by_per_entry_ttl (info_of (in_store s) e) (Instant 5)"
    by (rule new_entry_no_expiration[OF i _ x(1)]) (simp_all add: n s(1))
  then have l: "is_live_entry cf k e (Instant 5) s"
    using x s(5,6) by (simp add: is_live_entry_def is_expired_entry_wo_def is_expired_entry_ao_def is_invalid_entry_def is_expired_by_ttl_def is_expired_by_tti_def valid_after_def
        is_invalidated_entry_def apply_predicates_def invalidator_new_def Let_def split: option.splits)
  let ?b = "?bc\<lparr>bc_inner := s\<rparr>" and ?s = "s\<lparr>in_write_op_ch := [op]\<rparr>"
  have "\<not> saturating_add (Instant 5) 300000000 \<le> Instant 5" by (simp add: instant_le_unat unat_saturating_add)
  then have "apply_reads_writes_if_needed cf ts ?b = Some ?b"
    using s(3,4) assms(3) by (simp add: apply_reads_writes_if_needed_def base_cache_new_def housekeeper_new_def should_apply_writes_def should_apply_def
        hk_more_def sync_after_def LOG_SYNC_INTERVAL_MILLIS_def WRITE_LOG_FLUSH_POINT_def Let_def)
  then have "schedule_write_op cf op ts ?b = Some (?bc\<lparr>bc_inner := ?s\<rparr>)"
    using s(4) assms(4) by (subst schedule_write_op.simps) (simp add: ch_sizes_def WRITE_LOG_CH_SIZE_def WRITE_LOG_FLUSH_POINT_def DEFAULT_MAX_LOG_SYNC_REPEATS_def)
  then have "insert_with_hash cf k h v ?bc = Some (?bc\<lparr>bc_inner := ?s\<rparr>)"
    using i assms(4) by (simp add: insert_with_hash_def is_map_disabled_def)
  moreover have "is_live_entry cf k e (Instant 5) ?s" using l by (simp add: is_live_entry_def is_invalidated_entry_def valid_after_def Let_def split: option.splits)
  ultimately show ?thesis using s(1,2) by (intro exI[of _ "?bc\<lparr>bc_inner := ?s\<rparr>"] exI[of _ e]) simp
qed

text \<open>A segmented cache of four segments with one entry.\<close>

lemma demo_segmented_insert:
  "\<exists>sc sc1 cf bc e. demo_segmented = Some sc \<and> sc_insert sc 1 7 = Some sc1 \<and> sc_ok sc1 \<and> sc_segments sc1 ! home_segment sc1 1 = (cf, bc) \<and>
     in_cache (bc_inner bc) = [1 \<mapsto> e] \<and> ve_value e = 7 \<and> is_live_entry cf 1 e (Instant 5) (bc_inner bc) \<and> (\<forall>t. cf_clock cf t = Instant 5)"
proof -
  obtain sc where sc: "demo_segmented = Some sc" "sc_ok sc" using demo_segmented_ok(3) by blast
  let ?i = "home_segment sc 1"
  have i: "?i < length (sc_segments sc)" using sc_okD(1)[OF sc(2)] by (simp add: home_segment_def)
  obtain cf bc0 where s: "sc_segments sc ! ?i = (cf, bc0)" by (cases "sc_segments sc ! ?i")
  obtain n where cf: "cf = segment_config demo_config n (\<lambda>_ _. Instant 5) ?i"
    and bc0: "bc0 = base_cache_new \<lparr>kh_key = 0, kh_hash = 0\<rparr> cf None housekeeper_config_default True"
    using sc(1) s i by (auto simp: demo_segmented_def seg_cache_new_def Let_def split: if_splits bind_splits)
  have l: "live cf" using sc_okD(2)[OF sc(2) i s] by simp
  have c: "cf_expiration_policy cf = expiration_policy_default" "\<And>t. cf_clock cf t = Instant 5" "cf_fast_now cf 0 = Instant 5"
    by (simp_all add: cf segment_config_def demo_config_def)
  obtain bc e where b: "insert_with_hash cf 1 (sc_hash sc 1) 7 bc0 = Some bc" "in_cache (bc_inner bc) = [1 \<mapsto> e]" "ve_value e = 7"
    "is_live_entry cf 1 e (Instant 5) (bc_inner bc)"
    using first_insert[OF c liveD(2)[OF l]] bc0 by blast
  let ?sc = "sc\<lparr>sc_segments := (sc_segments sc)[?i := (cf, bc)]\<rparr>"
  have ins: "sc_insert sc 1 7 = Some ?sc" using b(1) s i by (simp add: sc_insert_def select_def home_segment_def)
  have "sc_ok ?sc" using sc_insert_yields[OF sc(2), of 1 7] ins by (simp add: yields_def)
  moreover have "home_segment ?sc 1 = ?i" by (simp add: home_segment_def sc_segment_index_from_hash_def)
  ultimately show ?thesis using sc(1) ins b c(2) i
    by (intro exI[of _ sc] exI[of _ ?sc] exI[of _ cf] exI[of _ bc] exI[of _ e]) simp
qed

lemma segmented_iter_all_witness:
  "\<exists>sc hs hs' sc' xs. tables_of sc hs \<and> sc_iter (hs, sc) = Some ((hs', sc'), xs) \<and> distinct (map fst xs) \<and> map_of xs (1 :: nat) = Some (7 :: nat)"
proof -
  obtain sc sc1 cf bc e where d: "demo_segmented = Some sc" "sc_insert sc 1 7 = Some sc1" "sc_ok sc1" "sc_segments sc1 ! home_segment sc1 1 = (cf, bc)"
    "in_cache (bc_inner bc) = [1 \<mapsto> e]" "ve_value e = 7" "is_live_entry cf 1 e (Instant 5) (bc_inner bc)" "\<forall>t. cf_clock cf t = Instant 5"
    using demo_segmented_insert by blast
  have "trace sc_step sc [AInsert 1 7] sc1" using trace_snoc[where step = sc_step, OF trace_Nil sc_step.sc_insert[OF d(2)]] by simp
  moreover obtain hs where hs: "tables_of sc1 hs" using tables_exist[OF d(3)] by blast
  ultimately obtain hs' sc' xs where r: "sc_iter (hs, sc1) = Some ((hs', sc'), xs)" "distinct (map fst xs)"
    "sc_live_between sc1 sc1 sc' 1 \<longrightarrow> map_of xs 1 = sc_table sc1 1"
    using segmented_iter_all[OF _ _ demo_segmented_ok(1,2) d(1)[unfolded demo_segmented_def]] by fastforce
  have "sc_live_between sc1 sc1 sc' 1" using d(4-8) by (simp add: sc_live_between_def live_between_def)
  moreover have "sc_table sc1 1 = Some 7" using d(4-6) by (simp add: sc_table_def home_segment_def table_def)
  ultimately show ?thesis using r hs by metis
qed

end
