(* ===== verification/Async_Base.thy ===== *)
theory Async_Base
  imports Sync_Cache
begin

text \<open>
  The bodies of the operations of \<open>BaseCache\<close> in \<open>src/src/future/base_cache.rs\<close>, up to the point at which they are
  suspended, translated from that file. They differ from the ones of \<open>src/src/sync/base_cache.rs\<close>: a lookup computes
  the expiration time inside the callback of the hash table and carries the operation to record out of it; an
  insertion tells insertion and update apart by the operations that the two closures left behind, and notifies
  through a future. The lemmas show that they have the effect of the synchronous bodies.

  What the two files share word for word, the tests for expired entries and the causes of notifications, is in
  \<open>Inner_Cache\<close> and \<open>Base_Cache\<close>.
\<close>

section \<open>Expiration times\<close>

definition async_expire_after_create ::
  "('k, 'v) expiry \<Rightarrow> 'k \<Rightarrow> 'v value_entry \<Rightarrow> instant \<Rightarrow> 'k store \<Rightarrow> 'k store" where
  "async_expire_after_create expiry key value_entry ts st =
     (let duration = ex_after_create expiry key (ve_value value_entry) ts;
          expiration_time = (case duration of Some duration \<Rightarrow> Some (saturating_add ts duration) | None \<Rightarrow> None)
      in upd_info (ve_info value_entry) (\<lambda>i. fst (set_expiration_time expiration_time i)) st)"

text \<open>\<open>into_iter(..).flatten().min()\<close>.\<close>

definition flatten_min :: "instant option list \<Rightarrow> instant option" where
  "flatten_min xs = (case List.map_filter id xs of [] \<Rightarrow> None | t # ts \<Rightarrow> Some (fold min ts t))"

definition async_expire_after_read_or_update ::
  "('k \<Rightarrow> 'v \<Rightarrow> instant \<Rightarrow> duration option \<Rightarrow> duration option) \<Rightarrow> 'k \<Rightarrow> 'v value_entry \<Rightarrow>
    duration option \<Rightarrow> duration option \<Rightarrow> instant \<Rightarrow> 'k store \<Rightarrow> 'k store \<times> bool" where
  "async_expire_after_read_or_update expiry key value_entry ttl tti ts st =
     (let ei = info_of st value_entry;
          current_per_entry_exp_time = fst (expiration_state ei);
          exp_time = flatten_min
            [current_per_entry_exp_time,
             do { dur \<leftarrow> ttl; t \<leftarrow> last_modified ei; Some (saturating_add t dur) },
             do { dur \<leftarrow> tti; t \<leftarrow> last_accessed ei; Some (saturating_add t dur) }];
          current_duration = do { time \<leftarrow> exp_time; Some (saturating_duration_since time ts) };
          duration = expiry key (ve_value value_entry) ts current_duration
      in if duration \<noteq> current_duration
         then (let expiration_time = do { duration \<leftarrow> duration; Some (saturating_add ts duration) }
               in (upd_info (ve_info value_entry) (\<lambda>i. fst (set_expiration_time expiration_time i)) st, True))
         else (st, False))"

section \<open>Reading\<close>

text \<open>The closure that \<open>get_with_hash\<close> passes to \<open>get_key_value_and_then\<close>: the entry, the operation to record, and the time.\<close>

definition async_get_callback ::
  "('k, 'v) config \<Rightarrow> ('v \<Rightarrow> bool) option \<Rightarrow> bool \<Rightarrow> bool \<Rightarrow> instant \<Rightarrow> 'k \<Rightarrow> 'v value_entry \<Rightarrow> ('k, 'v) inner \<Rightarrow>
    (('k, 'v) inner \<times> (('k, 'v) entry \<times> 'v read_op option \<times> instant) option) or_panic" where
  "async_get_callback cf ignore_if need_key record_read now k entry i =
     (if (case ignore_if of Some ignore_if \<Rightarrow> ignore_if (ve_value entry) | None \<Rightarrow> False) then Some (i, None)
      else
        (let info = info_of (in_store i) entry; ttl = time_to_live cf; tti = time_to_idle cf; va = valid_after i
         in if is_expired_by_per_entry_ttl info now \<or> is_expired_entry_wo ttl va info now \<or> is_expired_entry_ao tti va info now \<or>
               is_invalidated_entry k entry i
            then Some (i, None)
            else do {
              (i, now, is_expiry_modified) \<leftarrow>
                (case xp_expiry (cf_expiration_policy cf) of
                   Some expiry \<Rightarrow>
                     do { lm \<leftarrow> last_modified info;
                          let now = max now lm;
                          let (st, is_expiry_modified) =
                            async_expire_after_read_or_update (\<lambda>k v t d. ex_after_read expiry k v t d lm)
                              (kh_key (ei_key_hash info)) entry ttl tti now (in_store i);
                          Some (i\<lparr>in_store := st\<rparr>, now, is_expiry_modified) }
                 | None \<Rightarrow> Some (i, now, False));
              let i = i\<lparr>in_store := upd_info (ve_info entry) (set_last_accessed now) (in_store i)\<rparr>;
              let maybe_key = (if need_key then Some k else None);
              let ent = \<lparr>en_key = maybe_key, en_value = ve_value entry, en_is_fresh = False, en_is_old_value_replaced = False\<rparr>;
              let maybe_op = (if record_read then Some (Hit entry is_expiry_modified) else None);
              Some (i, Some (ent, maybe_op, now)) }))"

text \<open>\<open>get_with_hash\<close> after \<open>retry_interrupted_ops\<close>.\<close>

definition async_get_with_hash ::
  "('k, 'v) config \<Rightarrow> ('v \<Rightarrow> bool) option \<Rightarrow> bool \<Rightarrow> bool \<Rightarrow> 'k \<Rightarrow> u64 \<Rightarrow> ('k, 'v) base_cache \<Rightarrow>
    (('k, 'v) base_cache \<times> ('k, 'v) entry option) or_panic" where
  "async_get_with_hash cf ignore_if need_key record_read key hash bc =
     (if is_map_disabled cf then Some (bc, None)
      else
        (let (i, now) = current_time cf (bc_inner bc)
         in do {
           (i, maybe_kv_and_op) \<leftarrow>
             (case in_cache i key of
                Some entry \<Rightarrow> async_get_callback cf ignore_if need_key record_read now key entry i
              | None \<Rightarrow> Some (i, None));
           let bc = bc\<lparr>bc_inner := i\<rparr>;
           case maybe_kv_and_op of
             Some (ent, maybe_op, now) \<Rightarrow>
               (case maybe_op of
                  Some op \<Rightarrow> do { bc \<leftarrow> record_read_op cf op now bc; Some (bc, Some ent) }
                | None \<Rightarrow> Some (bc, Some ent))
           | None \<Rightarrow>
               if record_read then do { bc \<leftarrow> record_read_op cf (Miss hash) now bc; Some (bc, None) }
               else Some (bc, None) }))"

section \<open>Writing\<close>

definition async_new_value_entry ::
  "'k \<Rightarrow> u64 \<Rightarrow> 'v \<Rightarrow> instant \<Rightarrow> u32 \<Rightarrow> 'k store \<Rightarrow> 'k store \<times> 'v value_entry \<times> u16" where
  "async_new_value_entry key hash value timestamp policy_weight st =
     (let key_hash = \<lparr>kh_key = key, kh_hash = hash\<rparr>;
          (st, info) = alloc_info (entry_info_new key_hash timestamp policy_weight) st;
          gen = ei_entry_gen (st_infos st info);
          (st, entry) = value_entry_new value info st
      in (st, entry, gen))"

definition async_new_value_entry_from ::
  "'v \<Rightarrow> instant \<Rightarrow> u32 \<Rightarrow> 'v value_entry \<Rightarrow> 'k store \<Rightarrow> 'k store \<times> 'v value_entry \<times> u16" where
  "async_new_value_entry_from value timestamp policy_weight other st =
     (let info = ve_info other;
          gen = snd (incr_entry_gen (st_infos st info));
          st = upd_info info (\<lambda>i. fst (incr_entry_gen i)) st;
          st = upd_info info (set_last_accessed timestamp) st;
          st = upd_info info (set_last_modified timestamp) st;
          st = upd_info info (set_policy_weight policy_weight) st
      in (st, value_entry_new_from value info other, gen))"

definition async_do_post_insert_steps ::
  "('k, 'v) config \<Rightarrow> instant \<Rightarrow> 'k \<Rightarrow> ('k, 'v) write_op \<Rightarrow> ('k, 'v) inner \<Rightarrow> ('k, 'v) inner \<times> ('k, 'v) write_op \<times> instant" where
  "async_do_post_insert_steps cf ts key ins_op i =
     (let i = (case (xp_expiry (cf_expiration_policy cf), ins_op) of
                 (Some expiry, Upsert _ value_entry _ _ _) \<Rightarrow>
                   i\<lparr>in_store := async_expire_after_create expiry key value_entry ts (in_store i)\<rparr>
               | _ \<Rightarrow> i)
      in (i, ins_op, ts))"

text \<open>\<open>do_post_update_steps\<close> up to the first poll of the future that notifies the listener; is there one?\<close>

definition async_do_post_update_steps ::
  "('k, 'v) config \<Rightarrow> instant \<Rightarrow> 'k \<Rightarrow> 'v old_entry_info \<Rightarrow> ('k, 'v) write_op \<Rightarrow> ('k, 'v) inner \<Rightarrow>
    ('k, 'v) inner \<times> bool \<times> ('k, 'v) write_op \<times> instant" where
  "async_do_post_update_steps cf ts key old_info upd_op i =
     (let i = (case (xp_expiry (cf_expiration_policy cf), upd_op) of
                 (Some expiry, Upsert _ value_entry _ _ _) \<Rightarrow>
                   (let old_expired_by_per_entry_ttl =
                          (case fst (expiration_state (info_of (in_store i) (oe_entry old_info))) of
                             Some exp_time \<Rightarrow> exp_time \<le> ts
                           | None \<Rightarrow> False)
                    in if old_expired_by_per_entry_ttl
                       then i\<lparr>in_store := async_expire_after_create expiry key value_entry ts (in_store i)\<rparr>
                       else i\<lparr>in_store := fst (async_expire_after_read_or_update (\<lambda>k v t d. ex_after_update expiry k v t d)
                                key value_entry (time_to_live cf) (time_to_idle cf) ts (in_store i))\<rparr>)
               | _ \<Rightarrow> i)
      in if is_removal_notifier_enabled i then (notify_upsert cf key old_info i, True, upd_op, ts)
         else (i, False, upd_op, ts))"

text \<open>\<open>insert_with_or_modify\<close> with the closures \<open>on_insert\<close> and \<open>on_modify\<close>. Each leaves its operation behind together with a
  serial number; the hash table has called one of them, on the attempt that succeeded.\<close>

type_synonym ('k, 'v) insert_ops = "(8 word \<times> ('k, 'v) write_op) option \<times> (8 word \<times> 'v old_entry_info \<times> ('k, 'v) write_op) option"

definition async_insert_with_or_modify ::
  "'k \<Rightarrow> u64 \<Rightarrow> 'v \<Rightarrow> instant \<Rightarrow> u32 \<Rightarrow> ('k, 'v) inner \<Rightarrow> ('k, 'v) inner \<times> ('k, 'v) insert_ops" where
  "async_insert_with_or_modify key hash value ts weight i =
     (let op_cnt = 0
      in case in_cache i key of
           None \<Rightarrow>
             (let (st, entry, gen) = async_new_value_entry key hash value ts weight (in_store i);
                  ins_op = new_upsert key hash entry gen 0 weight;
                  cnt = op_cnt
              in (i\<lparr>in_store := st, in_cache := (in_cache i)(key \<mapsto> entry)\<rparr>, Some (cnt, ins_op), None))
         | Some old_entry \<Rightarrow>
             (let old_weight = ve_policy_weight (in_store i) old_entry;
                  old_info = old_entry_info_new (in_store i) old_entry;
                  (st, entry, gen) = async_new_value_entry_from value ts weight old_entry (in_store i);
                  upd_op = new_upsert key hash entry gen old_weight weight;
                  cnt = op_cnt
              in (i\<lparr>in_store := st, in_cache := (in_cache i)(key \<mapsto> entry)\<rparr>, None, Some (cnt, old_info, upd_op))))"

text \<open>\<open>do_insert_with_hash\<close> after \<open>retry_interrupted_ops\<close>, up to the first poll of the future that notifies the listener.\<close>

definition async_do_insert_with_hash ::
  "('k, 'v) config \<Rightarrow> 'k \<Rightarrow> u64 \<Rightarrow> 'v \<Rightarrow> ('k, 'v) inner \<Rightarrow>
    (('k, 'v) inner \<times> bool \<times> ('k, 'v) write_op \<times> instant) or_panic" where
  "async_do_insert_with_hash cf key hash value i =
     (let weight = weigh cf key value;
          (i, ts) = current_time cf i;
          (i, op1, op2) = async_insert_with_or_modify key hash value ts weight i;
          post_insert = (\<lambda>ins_op. let (i, op, ts) = async_do_post_insert_steps cf ts key ins_op i in Some (i, False, op, ts));
          post_update = (\<lambda>old_entry upd_op. Some (async_do_post_update_steps cf ts key old_entry upd_op i))
      in case (op1, op2) of
           (Some (_, ins_op), None) \<Rightarrow> post_insert ins_op
         | (Some (cnt1, ins_op), Some (cnt2, old_entry, upd_op)) \<Rightarrow>
             if cnt1 > cnt2 then post_insert ins_op else post_update old_entry upd_op
         | (None, Some (_, old_entry, upd_op)) \<Rightarrow> post_update old_entry upd_op
         | (None, None) \<Rightarrow> None)"

section \<open>The same effects\<close>

lemma async_expire_after_create_eq: "async_expire_after_create = expire_after_create"
  by (intro ext) (simp add: async_expire_after_create_def expire_after_create_def Let_def map_option_case)

lemma min_instant_None [simp]: "min_instant x None = x"
  by (cases x) simp_all

lemma flatten_min_eq: "flatten_min [x, y, z] = min_instant x (min_instant y z)"
  by (cases x; cases y; cases z) (simp_all add: flatten_min_def List.map_filter_simps min.commute min.left_commute min.assoc)

lemma bind_Some_map: "Option.bind x (\<lambda>y. Some (f y)) = map_option f x"
  by (cases x) simp_all

lemma async_expire_after_read_or_update_eq: "async_expire_after_read_or_update = expire_after_read_or_update"
  by (intro ext) (simp add: async_expire_after_read_or_update_def expire_after_read_or_update_def Let_def flatten_min_eq bind_Some_map)

lemmas async_expire_eqs = async_expire_after_create_eq async_expire_after_read_or_update_eq

text \<open>A lookup has the effect and the result of the synchronous one, with and without recording.\<close>

lemma async_get_with_hash_eq:
  "async_get_with_hash cf ignore_if need_key record_read key hash bc =
     do_get_with_hash cf (if record_read then record_read_op cf else (\<lambda>op now bc. Some bc)) ignore_if need_key key hash bc"
proof (cases "in_cache (bc_inner bc) key")
  case None
  then show ?thesis by (simp add: async_get_with_hash_def do_get_with_hash_def current_time_def Let_def)
next
  case (Some e)
  then show ?thesis
    by (cases "last_modified (info_of (in_store (bc_inner bc)) e)")
      (auto simp: async_get_with_hash_def do_get_with_hash_def async_get_callback_def current_time_def Let_def is_live_entry_def
        async_expire_eqs split: option.splits prod.splits)
qed

lemma async_new_value_entry_eq: "async_new_value_entry = new_value_entry"
  by (intro ext) (simp add: async_new_value_entry_def new_value_entry_def alloc_info_def Let_def)

lemma async_new_value_entry_from_eq: "async_new_value_entry_from = new_value_entry_from"
  by (intro ext) (simp add: async_new_value_entry_from_def new_value_entry_from_def upd_info_def incr_entry_gen_def Let_def)

lemma async_do_insert_with_hash_eq:
  "async_do_insert_with_hash cf key hash value i =
     (let (i', op, ts) = do_insert_with_hash cf key hash value i
      in Some (i', in_cache i key \<noteq> None \<and> is_removal_notifier_enabled i, op, ts))"
proof (cases "in_cache i key")
  case None
  then show ?thesis
    by (auto simp: async_do_insert_with_hash_def do_insert_with_hash_def async_insert_with_or_modify_def current_time_def Let_def
        async_new_value_entry_eq async_do_post_insert_steps_def do_post_insert_steps_def async_expire_eqs new_upsert_def
        split: option.splits prod.splits)
next
  case (Some e)
  then show ?thesis
    by (auto simp: async_do_insert_with_hash_def do_insert_with_hash_def async_insert_with_or_modify_def current_time_def Let_def
        async_new_value_entry_from_eq async_do_post_update_steps_def do_post_update_steps_def async_expire_eqs new_upsert_def
        is_removal_notifier_enabled_def split: option.splits prod.splits)
qed

end
