(* ===== verification/Async_Cache.thy ===== *)
theory Async_Cache
  imports Cache_System Async_Base
begin

text \<open>
  The asynchronous cache under cancellation: \<open>InterruptedOp\<close> and \<open>CancelGuard\<close> (\<open>src/src/future.rs\<close>),
  \<open>retry_interrupted_ops\<close>, \<open>do_insert_with_hash\<close> and \<open>do_post_update_steps\<close> (\<open>src/src/future/base_cache.rs\<close>),
  \<open>insert_with_hash\<close>, \<open>invalidate_with_hash\<close>, \<open>get\<close> and \<open>run_pending_tasks\<close> (\<open>src/src/future/cache.rs\<close>) and the notifier
  (\<open>src/src/future/notifier.rs\<close>).

  A call is a task, that is a state machine with one state for each point at which it may be suspended and
  dropped. Dropping a task runs the destructor of the \<open>CancelGuard\<close> it holds. Between two suspension points a task
  executes the bodies of \<open>Async_Base\<close>. Sending an operation to a channel and a maintenance run are single steps, the ones of
  the synchronous model. The lock of a key is not modelled, so more interleavings are covered than the code has.
\<close>

section \<open>Interrupted operations\<close>

text \<open>A shared future of the listener is named by its index in the list of all of them.\<close>

datatype ('k, 'v) interrupted_op =
    CallEvictionListener instant nat "('k, 'v) write_op"
  | SendWriteOp instant "('k, 'v) write_op"

record ('k, 'v) cancel_guard =
  cg_ts :: instant
  cg_future :: "nat option"
  cg_op :: "('k, 'v) write_op option"

definition cancel_guard_new :: "instant \<Rightarrow> ('k, 'v) cancel_guard" where
  "cancel_guard_new ts = \<lparr>cg_ts = ts, cg_future = None, cg_op = None\<rparr>"

definition set_future_and_op :: "nat \<Rightarrow> ('k, 'v) write_op \<Rightarrow> ('k, 'v) cancel_guard \<Rightarrow> ('k, 'v) cancel_guard" where
  "set_future_and_op future op g = g\<lparr>cg_future := Some future, cg_op := Some op\<rparr>"

definition set_op :: "('k, 'v) write_op \<Rightarrow> ('k, 'v) cancel_guard \<Rightarrow> ('k, 'v) cancel_guard" where
  "set_op op g = g\<lparr>cg_op := Some op\<rparr>"

definition unset_future :: "('k, 'v) cancel_guard \<Rightarrow> ('k, 'v) cancel_guard" where
  "unset_future g = g\<lparr>cg_future := None\<rparr>"

definition cancel_guard_clear :: "('k, 'v) cancel_guard \<Rightarrow> ('k, 'v) cancel_guard" where
  "cancel_guard_clear g = g\<lparr>cg_future := None, cg_op := None\<rparr>"

text \<open>\<open>CancelGuard::drop\<close> on the channel of interrupted operations.\<close>

definition cancel_guard_drop ::
  "('k, 'v) cancel_guard \<Rightarrow> ('k, 'v) interrupted_op list \<Rightarrow> ('k, 'v) interrupted_op list" where
  "cancel_guard_drop g ch =
     (case (cg_future g, cg_op g) of
        (Some future, Some op) \<Rightarrow> ch @ [CallEvictionListener (cg_ts g) future op]
      | (None, Some op) \<Rightarrow> ch @ [SendWriteOp (cg_ts g) op]
      | _ \<Rightarrow> ch)"

section \<open>Tasks\<close>

text \<open>A future of the listener is ready at the end of a number of polls; it may panic then.\<close>

datatype listener_future = Pending nat bool | Completed

datatype ('k, 'v) call =
    CInsert 'k 'v
  | CInvalidate 'k bool
  | CGet 'k
  | CRunPendingTasks

text \<open>Where a task is: in the loop of \<open>retry_interrupted_ops\<close>, waiting there for a listener or for room in the
  channel; at the body of its call; waiting for the listener or for room in the channel after it has changed the
  table; at its end; dropped.\<close>

datatype ('k, 'v) task =
    TRetry "('k, 'v) call"
  | TRetryNotify "('k, 'v) call" "('k, 'v) cancel_guard"
  | TRetrySend "('k, 'v) call" "('k, 'v) cancel_guard"
  | TStart "('k, 'v) call"
  | TNotify "('k, 'v) cancel_guard" "'v option"
  | TSend "('k, 'v) cancel_guard" "'v option"
  | TDone "'v option"
  | TDropped

record ('k, 'v) async_cache =
  ac_base :: "('k, 'v) base_cache"
  ac_interrupted_op_ch :: "('k, 'v) interrupted_op list"
  ac_futures :: "listener_future list"
  ac_tasks :: "('k, 'v) task list"

definition async_cache_new ::
  "'k key_hash \<Rightarrow> ('k, 'v) config \<Rightarrow> ('k \<Rightarrow> 'v \<Rightarrow> removal_cause \<Rightarrow> bool) option \<Rightarrow> housekeeper_config \<Rightarrow> bool \<Rightarrow>
    ('k, 'v) async_cache" where
  "async_cache_new kh cf listener hk_config invalidator_enabled =
     \<lparr>ac_base = base_cache_new kh cf listener hk_config invalidator_enabled, ac_interrupted_op_ch = [],
      ac_futures = [], ac_tasks = []\<rparr>"

text \<open>\<open>RemovalNotifier::notify\<close>. The first poll calls the listener, as in the synchronous notifier; unless it was
  disabled or panicked, the call has returned a future. \<open>fut key value cause\<close> says how that one behaves.\<close>

definition listener_future_new ::
  "('k \<Rightarrow> 'v \<Rightarrow> removal_cause \<Rightarrow> nat \<times> bool) \<Rightarrow> ('k, 'v) removal_notifier option \<Rightarrow> ('k, 'v) removal_notifier option \<Rightarrow>
    listener_future" where
  "listener_future_new fut before after =
     (case (before, after) of
        (Some rn, Some rn') \<Rightarrow>
          if \<not> rn_is_enabled rn \<or> \<not> rn_is_enabled rn' \<or> rn_calls rn' = [] then Completed
          else (case last (rn_calls rn') of (key, v, cause) \<Rightarrow> case fut key v cause of (n, panics) \<Rightarrow> Pending n panics)
      | _ \<Rightarrow> Completed)"

definition disable_notifier :: "('k, 'v) base_cache \<Rightarrow> ('k, 'v) base_cache" where
  "disable_notifier bc =
     bc\<lparr>bc_inner := (bc_inner bc)\<lparr>in_removal_notifier :=
       map_option (\<lambda>rn. rn\<lparr>rn_is_enabled := False\<rparr>) (in_removal_notifier (bc_inner bc))\<rparr>\<rparr>"

text \<open>A poll of a shared future: is it ready?\<close>

definition poll_future :: "nat \<Rightarrow> ('k, 'v) async_cache \<Rightarrow> ('k, 'v) async_cache \<times> bool" where
  "poll_future i ac =
     (case ac_futures ac ! i of
        Completed \<Rightarrow> (ac, True)
      | Pending (Suc n) panics \<Rightarrow> (ac\<lparr>ac_futures := (ac_futures ac)[i := Pending n panics]\<rparr>, False)
      | Pending 0 panics \<Rightarrow>
          (ac\<lparr>ac_futures := (ac_futures ac)[i := Completed],
              ac_base := if panics then disable_notifier (ac_base ac) else ac_base ac\<rparr>, True))"

text \<open>\<open>insert_with_hash\<close> and \<open>get_with_hash\<close> return at once when the cache stores nothing.\<close>

definition new_task :: "('k, 'v) config \<Rightarrow> ('k, 'v) call \<Rightarrow> ('k, 'v) task" where
  "new_task cf call =
     (if is_map_disabled cf \<and> (case call of CInsert _ _ \<Rightarrow> True | CGet _ \<Rightarrow> True | _ \<Rightarrow> False)
      then TDone None else TRetry call)"

text \<open>What follows the change of the table: the listener, when there is one to tell, then the channel.\<close>

definition notify_then_send ::
  "('k \<Rightarrow> 'v \<Rightarrow> removal_cause \<Rightarrow> nat \<times> bool) \<Rightarrow> bool \<Rightarrow> ('k, 'v) write_op \<Rightarrow> instant \<Rightarrow> 'v option \<Rightarrow> ('k, 'v) inner \<Rightarrow>
    ('k, 'v) async_cache \<Rightarrow> ('k, 'v) async_cache \<times> ('k, 'v) task" where
  "notify_then_send fut notified op ts result s ac =
     (let before = in_removal_notifier (bc_inner (ac_base ac));
          ac = ac\<lparr>ac_base := (ac_base ac)\<lparr>bc_inner := s\<rparr>\<rparr>
      in if notified
         then (ac\<lparr>ac_futures := ac_futures ac @ [listener_future_new fut before (in_removal_notifier s)]\<rparr>,
               TNotify (set_future_and_op (length (ac_futures ac)) op (cancel_guard_new ts)) result)
         else (ac, TSend (set_op op (cancel_guard_new ts)) result))"

text \<open>The bodies of the calls, up to their next suspension point.\<close>

definition begin_async_insert ::
  "('k, 'v) config \<Rightarrow> ('k \<Rightarrow> 'v \<Rightarrow> removal_cause \<Rightarrow> nat \<times> bool) \<Rightarrow> 'k \<Rightarrow> 'v \<Rightarrow> ('k, 'v) async_cache \<Rightarrow>
    (('k, 'v) async_cache \<times> ('k, 'v) task \<times> ('k, 'v) action) or_panic" where
  "begin_async_insert cf fut key value ac =
     do { (s, notified, op, ts) \<leftarrow> async_do_insert_with_hash cf key (cf_hash cf key) value (bc_inner (ac_base ac));
          let (ac, t) = notify_then_send fut notified op ts None s ac;
          Some (ac, t, AInsert key value) }"

definition begin_async_invalidate ::
  "('k, 'v) config \<Rightarrow> ('k \<Rightarrow> 'v \<Rightarrow> removal_cause \<Rightarrow> nat \<times> bool) \<Rightarrow> 'k \<Rightarrow> bool \<Rightarrow> ('k, 'v) async_cache \<Rightarrow>
    ('k, 'v) async_cache \<times> ('k, 'v) task \<times> ('k, 'v) action" where
  "begin_async_invalidate cf fut key need_value ac =
     (let base = ac_base ac
      in case remove_entry key (bc_inner base) of
           (s, None) \<Rightarrow> (ac\<lparr>ac_base := base\<lparr>bc_inner := s\<rparr>\<rparr>, TDone None, AInvalidate key None)
         | (s, Some kv) \<Rightarrow>
             (let (s, now) = current_time cf s;
                  maybe_v = (if need_value then Some (ve_value (kv_entry kv)) else None);
                  info = ve_info (kv_entry kv);
                  entry_gen = snd (incr_entry_gen (st_infos (in_store s) info));
                  s = s\<lparr>in_store := upd_info info (\<lambda>i. fst (incr_entry_gen i)) (in_store s)\<rparr>;
                  op = Remove kv entry_gen;
                  cancel_guard = cancel_guard_new now;
                  removed = AInvalidate key (Some (ve_value (kv_entry kv)))
              in if is_removal_notifier_enabled s
                 then (let before = in_removal_notifier s;
                           s = notify_invalidate cf (kv_key kv) (kv_entry kv) s;
                           future = length (ac_futures ac);
                           cancel_guard = set_future_and_op future op cancel_guard
                       in (ac\<lparr>ac_base := base\<lparr>bc_inner := s\<rparr>,
                              ac_futures := ac_futures ac @ [listener_future_new fut before (in_removal_notifier s)]\<rparr>,
                           TNotify cancel_guard maybe_v, removed))
                 else (ac\<lparr>ac_base := base\<lparr>bc_inner := s\<rparr>\<rparr>, TSend (set_op op cancel_guard) maybe_v, removed)))"

definition async_get ::
  "('k, 'v) config \<Rightarrow> 'k \<Rightarrow> ('k, 'v) async_cache \<Rightarrow> (('k, 'v) async_cache \<times> ('k, 'v) task \<times> ('k, 'v) action) or_panic" where
  "async_get cf key ac =
     do { (bc, e) \<leftarrow> async_get_with_hash cf None False True key (cf_hash cf key) (ac_base ac);
          let r = map_option en_value e;
          Some (ac\<lparr>ac_base := bc\<rparr>, TDone r, AGet key r) }"

definition async_run_pending_tasks ::
  "('k, 'v) config \<Rightarrow> ('k, 'v) async_cache \<Rightarrow> (('k, 'v) async_cache \<times> ('k, 'v) task \<times> ('k, 'v) action) or_panic" where
  "async_run_pending_tasks cf ac =
     do { bc \<leftarrow> run_pending_tasks cf (ac_base ac); Some (ac\<lparr>ac_base := bc\<rparr>, TDone None, AInternal) }"

definition start_call ::
  "('k, 'v) config \<Rightarrow> ('k \<Rightarrow> 'v \<Rightarrow> removal_cause \<Rightarrow> nat \<times> bool) \<Rightarrow> ('k, 'v) call \<Rightarrow> ('k, 'v) async_cache \<Rightarrow>
    (('k, 'v) async_cache \<times> ('k, 'v) task \<times> ('k, 'v) action) or_panic" where
  "start_call cf fut call ac =
     (case call of
        CInsert key value \<Rightarrow> begin_async_insert cf fut key value ac
      | CInvalidate key need_value \<Rightarrow> Some (begin_async_invalidate cf fut key need_value ac)
      | CGet key \<Rightarrow> async_get cf key ac
      | CRunPendingTasks \<Rightarrow> async_run_pending_tasks cf ac)"

text \<open>One round of \<open>retry_interrupted_ops\<close>, up to its suspension point.\<close>

definition retry_interrupted_op ::
  "('k, 'v) call \<Rightarrow> ('k, 'v) async_cache \<Rightarrow> ('k, 'v) async_cache \<times> ('k, 'v) task" where [simp]:
  "retry_interrupted_op call ac =
     (case ac_interrupted_op_ch ac of
        [] \<Rightarrow> (ac, TStart call)
      | CallEvictionListener ts future op # ch \<Rightarrow>
          (ac\<lparr>ac_interrupted_op_ch := ch\<rparr>, TRetryNotify call (set_future_and_op future op (cancel_guard_new ts)))
      | SendWriteOp ts op # ch \<Rightarrow>
          (ac\<lparr>ac_interrupted_op_ch := ch\<rparr>, TRetrySend call (set_op op (cancel_guard_new ts))))"

text \<open>Sending the operation that a guard holds: when that is done, the guard is cleared, and dropped.\<close>

definition send_guarded_op ::
  "('k, 'v) config \<Rightarrow> ('k, 'v) cancel_guard \<Rightarrow> ('k, 'v) async_cache \<Rightarrow> ('k, 'v) async_cache or_panic" where [simp]:
  "send_guarded_op cf g ac =
     do { op \<leftarrow> cg_op g;
          bc \<leftarrow> schedule_write_op cf op (cg_ts g) (ac_base ac);
          Some (ac\<lparr>ac_base := bc,
                   ac_interrupted_op_ch := cancel_guard_drop (cancel_guard_clear g) (ac_interrupted_op_ch ac)\<rparr>) }"

text \<open>Resuming a task.\<close>

fun poll_task ::
  "('k, 'v) config \<Rightarrow> ('k \<Rightarrow> 'v \<Rightarrow> removal_cause \<Rightarrow> nat \<times> bool) \<Rightarrow> ('k, 'v) task \<Rightarrow> ('k, 'v) async_cache \<Rightarrow>
    (('k, 'v) async_cache \<times> ('k, 'v) task \<times> ('k, 'v) action) or_panic" where
  "poll_task cf fut (TRetry call) ac =
     (let (ac, t) = retry_interrupted_op call ac in Some (ac, t, AInternal))"
| "poll_task cf fut (TRetryNotify call g) ac =
     do { future \<leftarrow> cg_future g;
          let (ac, ready) = poll_future future ac;
          Some (ac, if ready then TRetrySend call (unset_future g) else TRetryNotify call g, AInternal) }"
| "poll_task cf fut (TRetrySend call g) ac =
     do { ac \<leftarrow> send_guarded_op cf g ac; Some (ac, TRetry call, AInternal) }"
| "poll_task cf fut (TStart call) ac = start_call cf fut call ac"
| "poll_task cf fut (TNotify g result) ac =
     do { future \<leftarrow> cg_future g;
          let (ac, ready) = poll_future future ac;
          Some (ac, if ready then TSend (unset_future g) result else TNotify g result, AInternal) }"
| "poll_task cf fut (TSend g result) ac =
     do { ac \<leftarrow> send_guarded_op cf g ac; Some (ac, TDone result, AInternal) }"
| "poll_task cf fut (TDone result) ac = None"
| "poll_task cf fut TDropped ac = None"

text \<open>Dropping a task.\<close>

fun drop_task :: "('k, 'v) task \<Rightarrow> ('k, 'v) interrupted_op list \<Rightarrow> ('k, 'v) interrupted_op list" where
  "drop_task (TRetryNotify call g) ch = cancel_guard_drop g ch"
| "drop_task (TRetrySend call g) ch = cancel_guard_drop g ch"
| "drop_task (TNotify g result) ch = cancel_guard_drop g ch"
| "drop_task (TSend g result) ch = cancel_guard_drop g ch"
| "drop_task t ch = ch"

fun task_finished :: "('k, 'v) task \<Rightarrow> bool" where
  "task_finished (TDone result) = True"
| "task_finished TDropped = True"
| "task_finished t = False"

inductive astep ::
  "('k, 'v) config \<Rightarrow> ('k \<Rightarrow> 'v \<Rightarrow> removal_cause \<Rightarrow> nat \<times> bool) \<Rightarrow> ('k, 'v) async_cache \<Rightarrow> ('k, 'v) action \<Rightarrow>
    ('k, 'v) async_cache \<Rightarrow> bool"
  for cf :: "('k, 'v) config" and fut :: "'k \<Rightarrow> 'v \<Rightarrow> removal_cause \<Rightarrow> nat \<times> bool" where
  spawn: "astep cf fut ac AInternal (ac\<lparr>ac_tasks := ac_tasks ac @ [new_task cf call]\<rparr>)"
| poll:
    "ac_tasks ac = us @ t # vs \<Longrightarrow> poll_task cf fut t ac = Some (ac', t', a) \<Longrightarrow>
     astep cf fut ac a (ac'\<lparr>ac_tasks := us @ t' # vs\<rparr>)"
| cancel:
    "ac_tasks ac = us @ t # vs \<Longrightarrow> \<not> task_finished t \<Longrightarrow>
     astep cf fut ac AInternal
       (ac\<lparr>ac_interrupted_op_ch := drop_task t (ac_interrupted_op_ch ac), ac_tasks := us @ TDropped # vs\<rparr>)"
| async_invalidate_all:
    "astep cf fut ac AInternal (ac\<lparr>ac_base := invalidate_all cf (ac_base ac)\<rparr>)"
| async_invalidate_if:
    "invalidate_entries_if cf uuid predicate (ac_base ac) = Some (bc, r) \<Longrightarrow>
     astep cf fut ac AInternal (ac\<lparr>ac_base := bc\<rparr>)"

section \<open>The bodies over the synchronous ones\<close>

text \<open>The bodies change the cache as the ones of the synchronous cache do, by the lemmas of \<open>Async_Base\<close>.\<close>

lemma begin_async_insert_eq:
  "begin_async_insert cf fut key value ac =
     (let s = bc_inner (ac_base ac);
          notified = (in_cache s key \<noteq> None \<and> is_removal_notifier_enabled s);
          (s, op, ts) = do_insert_with_hash cf key (cf_hash cf key) value s;
          (ac, t) = notify_then_send fut notified op ts None s ac
      in Some (ac, t, AInsert key value))"
  by (auto simp: begin_async_insert_def async_do_insert_with_hash_eq Let_def split: prod.splits)

lemma begin_async_invalidate_eq:
  "begin_async_invalidate cf fut key need_value ac =
     (let bc = ac_base ac; s = bc_inner bc;
          notified = is_removal_notifier_enabled s
      in case begin_invalidate cf key s of
           (s, None) \<Rightarrow> (ac\<lparr>ac_base := bc\<lparr>bc_inner := s\<rparr>\<rparr>, TDone None, AInvalidate key None)
         | (s, Some (kv, op, now)) \<Rightarrow>
             (let maybe_v = (if need_value then Some (ve_value (kv_entry kv)) else None);
                  (ac, t) = notify_then_send fut notified op now maybe_v s ac
              in (ac, t, AInvalidate key (Some (ve_value (kv_entry kv))))))"
  by (cases "in_cache (bc_inner (ac_base ac)) key")
    (auto simp: begin_async_invalidate_def begin_invalidate_def remove_entry_def cht_remove_if_and_retire_def current_time_def
      notify_then_send_def incr_entry_gen_def upd_info_def info_of_def is_removal_notifier_enabled_def Let_def)

lemma async_get_eq: "async_get cf key ac = do { (bc, r) \<leftarrow> get cf key (ac_base ac); Some (ac\<lparr>ac_base := bc\<rparr>, TDone r, AGet key r) }"
  by (simp add: async_get_def get_def get_with_hash_def async_get_with_hash_eq Let_def case_prod_unfold)

lemmas start_call_defs =
  start_call_def begin_async_insert_eq begin_async_invalidate_eq async_get_eq async_run_pending_tasks_def

end
