(* ===== verification/Async_Cancel.thy ===== *)
theory Async_Cancel
  imports Async_Cache
begin

text \<open>
  Cancellation safety of the asynchronous cache. Every write operation that a task has made and not sent, and
  every listener that has not finished, is held by exactly one task or interrupted operation; so the steps of the
  asynchronous cache keep the invariant of the synchronous one, and what a dropped task has left is done by the
  next call.
\<close>

section \<open>What tasks and interrupted operations hold\<close>

fun iop_ops :: "('k, 'v) interrupted_op \<Rightarrow> ('k, 'v) write_op list" where
  "iop_ops (CallEvictionListener ts future op) = [op]"
| "iop_ops (SendWriteOp ts op) = [op]"

fun iop_futures :: "('k, 'v) interrupted_op \<Rightarrow> nat list" where
  "iop_futures (CallEvictionListener ts future op) = [future]"
| "iop_futures (SendWriteOp ts op) = []"

fun task_guard :: "('k, 'v) task \<Rightarrow> ('k, 'v) cancel_guard option" where
  "task_guard (TRetryNotify call g) = Some g"
| "task_guard (TRetrySend call g) = Some g"
| "task_guard (TNotify g result) = Some g"
| "task_guard (TSend g result) = Some g"
| "task_guard t = None"

definition list_of_option :: "'a option \<Rightarrow> 'a list" where
  "list_of_option x = (case x of None \<Rightarrow> [] | Some y \<Rightarrow> [y])"

lemma list_of_option_simps [simp]: "list_of_option None = []" "list_of_option (Some y) = [y]"
  by (simp_all add: list_of_option_def)

definition task_ops :: "('k, 'v) task \<Rightarrow> ('k, 'v) write_op list" where
  "task_ops t = list_of_option (Option.bind (task_guard t) cg_op)"

definition task_futures :: "('k, 'v) task \<Rightarrow> nat list" where
  "task_futures t = list_of_option (Option.bind (task_guard t) cg_future)"

definition wf_task :: "('k, 'v) task \<Rightarrow> bool" where
  "wf_task t \<longleftrightarrow>
     (case t of
        TRetryNotify _ g \<Rightarrow> cg_future g \<noteq> None \<and> cg_op g \<noteq> None
      | TNotify g _ \<Rightarrow> cg_future g \<noteq> None \<and> cg_op g \<noteq> None
      | TRetrySend _ g \<Rightarrow> cg_future g = None \<and> cg_op g \<noteq> None
      | TSend g _ \<Rightarrow> cg_future g = None \<and> cg_op g \<noteq> None
      | _ \<Rightarrow> True)"

lemmas task_defs = task_ops_def task_futures_def wf_task_def

abbreviation ch_ops :: "('k, 'v) interrupted_op list \<Rightarrow> ('k, 'v) write_op set" where
  "ch_ops ch \<equiv> \<Union>i \<in> set ch. set (iop_ops i)"

abbreviation ch_futures :: "('k, 'v) interrupted_op list \<Rightarrow> nat list" where
  "ch_futures ch \<equiv> concat (map iop_futures ch)"

lemmas guard_defs = cancel_guard_new_def set_future_and_op_def set_op_def unset_future_def cancel_guard_clear_def cancel_guard_drop_def

text \<open>Dropping a task moves what it holds to the channel.\<close>

lemma drop_task_ch:
  assumes "wf_task t"
  shows "\<exists>is. drop_task t ch = ch @ is \<and> ch_ops is = set (task_ops t) \<and> ch_futures is = task_futures t"
  using assms by (cases t) (auto simp: task_defs guard_defs intro: exI[of _ "[]"])

section \<open>The invariant\<close>

text \<open>The invariant seen from one task: \<open>U\<close> and \<open>H\<close> are the operations and futures of the other ones.\<close>

definition holding ::
  "('k, 'v) config \<Rightarrow> ('k, 'v) write_op set \<Rightarrow> nat list \<Rightarrow> ('k, 'v) async_cache \<Rightarrow> ('k, 'v) task \<Rightarrow> bool" where
  "holding cf U H ac t \<longleftrightarrow>
     bc_inv cf (ch_ops (ac_interrupted_op_ch ac) \<union> set (task_ops t) \<union> U) (ac_base ac) \<and> wf_task t \<and>
     distinct (ch_futures (ac_interrupted_op_ch ac) @ task_futures t @ H) \<and>
     set (ch_futures (ac_interrupted_op_ch ac) @ task_futures t @ H) \<subseteq> {..<length (ac_futures ac)} \<and>
     (\<forall>i < length (ac_futures ac). ac_futures ac ! i \<noteq> Completed \<longrightarrow>
        i \<in> set (ch_futures (ac_interrupted_op_ch ac) @ task_futures t @ H))"

abbreviation tasks_ops :: "('k, 'v) task list \<Rightarrow> ('k, 'v) write_op set" where
  "tasks_ops ts \<equiv> \<Union>t \<in> set ts. set (task_ops t)"

abbreviation tasks_futures :: "('k, 'v) task list \<Rightarrow> nat list" where
  "tasks_futures ts \<equiv> concat (map task_futures ts)"

definition async_inv :: "('k, 'v) config \<Rightarrow> ('k, 'v) async_cache \<Rightarrow> bool" where
  "async_inv cf ac \<longleftrightarrow>
     holding cf (tasks_ops (ac_tasks ac)) (tasks_futures (ac_tasks ac)) ac TDropped \<and> (\<forall>t \<in> set (ac_tasks ac). wf_task t)"

lemma holding_dropped [simp]: "task_ops TDropped = []" "task_futures TDropped = []" "wf_task TDropped"
  by (simp_all add: task_defs)

lemma holding_tasks [simp]: "holding cf U H (ac\<lparr>ac_tasks := ts\<rparr>) t = holding cf U H ac t"
  by (simp add: holding_def)

lemma async_inv_focus:
  "async_inv cf (ac\<lparr>ac_tasks := us @ t # vs\<rparr>) \<longleftrightarrow>
     holding cf (tasks_ops (us @ vs)) (tasks_futures (us @ vs)) ac t \<and> (\<forall>t \<in> set (us @ vs). wf_task t)"
  unfolding async_inv_def holding_def by (auto simp: Un_ac)

lemma async_inv_new: "clock_ok cf \<Longrightarrow> async_inv cf (async_cache_new kh cf l hc b)"
  using sys_inv_init[of cf kh l hc b] by (simp add: async_inv_def holding_def async_cache_new_def sys_inv_def)

abbreviation atable :: "('k, 'v) async_cache \<Rightarrow> ('k \<rightharpoonup> 'v)" where
  "atable ac \<equiv> table (ac_base ac, [])"

section \<open>Steps keep it\<close>

text \<open>A change of the base cache alone.\<close>

lemma holding_base:
  "holding cf U H ac t \<Longrightarrow> bc_inv cf (ch_ops (ac_interrupted_op_ch ac) \<union> set (task_ops t) \<union> U) bc \<Longrightarrow>
     holding cf U H (ac\<lparr>ac_base := bc\<rparr>) t"
  by (simp add: holding_def)

lemma disable_notifier_inv [simp]: "bc_inv cf F (disable_notifier bc) = bc_inv cf F bc"
  by (simp add: bc_inv_def disable_notifier_def)

lemma table_disable [simp]: "table (disable_notifier bc, F) = table (bc, F)"
  by (simp add: table_def disable_notifier_def)

lemma holding_futures:
  assumes "holding cf U H ac t" "length fs = length (ac_futures ac)"
    and "\<forall>j < length fs. fs ! j \<noteq> Completed \<longrightarrow> ac_futures ac ! j \<noteq> Completed"
  shows "holding cf U H (ac\<lparr>ac_futures := fs\<rparr>) t"
  using assms by (simp add: holding_def)

lemma poll_future_ok:
  assumes h: "holding cf U H ac t" and i: "task_futures t = [i]" and r: "poll_future i ac = (ac', ready)"
  shows "holding cf U H ac' t \<and> atable ac' = atable ac \<and> (ready \<longrightarrow> ac_futures ac' ! i = Completed)"
proof -
  have l: "i < length (ac_futures ac)" using h i by (simp add: holding_def)
  have keep: "holding cf U H (ac\<lparr>ac_futures := (ac_futures ac)[i := x]\<rparr>) t" if "ac_futures ac ! i \<noteq> Completed" for x
    by (rule holding_futures[OF h]) (use that l in \<open>auto simp: nth_list_update split: if_splits\<close>)
  show ?thesis
  proof (cases "ac_futures ac ! i")
    case (Pending n panics)
    show ?thesis
    proof (cases n)
      case 0
      have "ac' = ac\<lparr>ac_futures := (ac_futures ac)[i := Completed]\<rparr>\<lparr>ac_base := if panics then disable_notifier (ac_base ac) else ac_base ac\<rparr>"
        using r Pending 0 by (simp add: poll_future_def)
      moreover have "holding cf U H (ac\<lparr>ac_futures := (ac_futures ac)[i := Completed]\<rparr>\<lparr>ac_base := if panics then disable_notifier (ac_base ac) else ac_base ac\<rparr>) t"
        by (rule holding_base[OF keep]) (use Pending h in \<open>simp_all add: holding_def\<close>)
      ultimately show ?thesis using l by simp
    next
      case (Suc m)
      with r Pending keep[of "Pending m panics"] show ?thesis by (auto simp: poll_future_def)
    qed
  qed (use h r in \<open>auto simp: poll_future_def\<close>)
qed

text \<open>A task lets go of a finished future.\<close>

lemma holding_release:
  assumes "holding cf U H ac t" "task_futures t = [i]" "ac_futures ac ! i = Completed"
    and "task_futures t' = []" "task_ops t' = task_ops t" "wf_task t'"
  shows "holding cf U H ac t'"
  using assms by (auto simp: holding_def)

lemma yields_poll:
  assumes h: "holding cf U H ac t" and f: "task_futures t = [i]"
    and t': "task_futures t' = []" "task_ops t' = task_ops t" "wf_task t'"
  shows "case poll_future i ac of (ac', ready) \<Rightarrow>
    holding cf U H ac' (if ready then t' else t) \<and> lossy_step (atable ac) AInternal (atable ac')"
proof -
  obtain ac' ready where p: "poll_future i ac = (ac', ready)" by (cases "poll_future i ac")
  from poll_future_ok[OF h f p] holding_release[OF _ f _ t', of cf U H ac'] show ?thesis by (auto simp: p)
qed

lemma guarded_schedule_ok:
  assumes live: "live cf" and h: "holding cf U H ac t" and t: "task_ops t = [op]" "task_futures t = []"
    and t': "task_ops t' = []" "task_futures t' = []" "wf_task t'"
  shows "yields (\<lambda>bc. holding cf U H (ac\<lparr>ac_base := bc\<rparr>) t' \<and> lossy_step (atable ac) AInternal (table (bc, [])))
    (schedule_write_op cf op ts (ac_base ac))"
proof -
  have "bc_inv cf (insert op (ch_ops (ac_interrupted_op_ch ac) \<union> U)) (ac_base ac)" using h t by (simp add: holding_def)
  from schedule_write_op_yields[OF this liveD[OF live], of ts] show ?thesis
    by (rule yields_mono) (use h t t' in \<open>auto simp: holding_def maintained_def table_def map_le_def dom_def\<close>)
qed

text \<open>After the table has changed, the operation is held by the task.\<close>

lemma notify_then_send_ok:
  assumes h: "holding cf U H ac t" and t: "task_ops t = []" "task_futures t = []"
    and inv: "bc_inv cf (insert op (ch_ops (ac_interrupted_op_ch ac) \<union> U)) ((ac_base ac)\<lparr>bc_inner := s\<rparr>)"
    and r: "notify_then_send fut notified op ts result s ac = (ac', t')"
  shows "holding cf U H ac' t' \<and> ac_base ac' = (ac_base ac)\<lparr>bc_inner := s\<rparr>"
proof -
  define C where "C = ch_futures (ac_interrupted_op_ch ac)"
  let ?n = "length (ac_futures ac)"
  have d: "distinct (C @ H)" "set (C @ H) \<subseteq> {..<?n}" "\<forall>i < ?n. ac_futures ac ! i \<noteq> Completed \<longrightarrow> i \<in> set (C @ H)"
    using h t unfolding holding_def C_def[symmetric] by auto
  show ?thesis
  proof (cases notified)
    case True
    let ?g = "set_future_and_op ?n op (cancel_guard_new ts)"
    let ?f = "listener_future_new fut (in_removal_notifier (bc_inner (ac_base ac))) (in_removal_notifier s)"
    have e: "ac' = ac\<lparr>ac_base := (ac_base ac)\<lparr>bc_inner := s\<rparr>, ac_futures := ac_futures ac @ [?f]\<rparr>" "t' = TNotify ?g result"
      using r True by (simp_all add: notify_then_send_def Let_def)
    have k: "task_ops t' = [op]" "task_futures t' = [?n]" "wf_task t'" unfolding e(2) by (simp_all add: task_defs guard_defs)
    have "distinct (C @ [?n] @ H)" "set (C @ [?n] @ H) \<subseteq> {..<Suc ?n}" using d(1,2) by auto
    moreover have "\<forall>i < Suc ?n. (ac_futures ac @ [?f]) ! i \<noteq> Completed \<longrightarrow> i \<in> set (C @ [?n] @ H)"
      using d(3) by (auto simp: nth_append less_Suc_eq)
    ultimately show ?thesis using inv by (simp add: holding_def k e(1) C_def[symmetric])
  next
    case False
    then have e: "ac' = ac\<lparr>ac_base := (ac_base ac)\<lparr>bc_inner := s\<rparr>\<rparr>" "t' = TSend (set_op op (cancel_guard_new ts)) result"
      using r by (simp_all add: notify_then_send_def Let_def)
    have k: "task_ops t' = [op]" "task_futures t' = []" "wf_task t'" unfolding e(2) by (simp_all add: task_defs guard_defs)
    show ?thesis using inv d by (simp add: holding_def k e(1) C_def[symmetric])
  qed
qed

lemma start_call_ok:
  assumes live: "live cf" and h: "holding cf U H ac (TStart call)"
  shows "yields (\<lambda>(ac', t', a). holding cf U H ac' t' \<and> lossy_step (atable ac) a (atable ac')) (start_call cf fut call ac)"
proof -
  let ?F = "ch_ops (ac_interrupted_op_ch ac) \<union> U" and ?bc = "ac_base ac"
  have t: "task_ops (TStart call) = []" "task_futures (TStart call) = []" by (simp_all add: task_defs)
  have inv: "bc_inv cf ?F ?bc" using h t by (simp add: holding_def)
  have done_ok: "holding cf U H (ac\<lparr>ac_base := bc\<rparr>) (TDone r)" if "bc_inv cf ?F bc" for bc r
    using holding_base[OF h, of bc] that by (simp add: holding_def task_defs)
  show ?thesis
  proof (cases call)
    case (CInsert key v)
    obtain s op ts where r: "do_insert_with_hash cf key (cf_hash cf key) v (bc_inner ?bc) = (s, op, ts)"
      by (cases "do_insert_with_hash cf key (cf_hash cf key) v (bc_inner ?bc)") auto
    have "insert_post cf key v (set (in_write_op_ch (bc_inner ?bc)) \<union> ?F) (bc_inner ?bc) s op ts"
      by (rule do_insert_ok[OF _ liveD(1)[OF live] r]) (use inv in \<open>simp add: bc_inv_def\<close>)
    then have "bc_inv cf (insert op ?F) (?bc\<lparr>bc_inner := s\<rparr>)"
      "lossy_step (atable ac) (AInsert key v) (table (?bc\<lparr>bc_inner := s\<rparr>, []))"
      using inv by (auto simp: insert_post_def bc_inv_def table_def map_le_def)
    with notify_then_send_ok[OF h t, of op s] CInsert r show ?thesis
      by (auto simp: start_call_defs Let_def split: prod.splits)
  next
    case (CInvalidate key nv)
    show ?thesis
    proof (cases "in_cache (bc_inner ?bc) key")
      case None
      then have "begin_invalidate cf key (bc_inner ?bc) = (bc_inner ?bc, None)"
        by (auto simp: begin_invalidate_def remove_entry_def cht_remove_if_and_retire_def)
      with CInvalidate None inv done_ok[of ?bc None] show ?thesis
        by (auto simp: start_call_defs table_def map_le_def)
    next
      case (Some e)
      have "inner_inv cf (set (in_write_op_ch (bc_inner ?bc)) \<union> ?F) (bc_inner ?bc)" using inv by (simp add: bc_inv_def)
      from begin_invalidate_ok[OF this liveD(1)[OF live] Some] obtain s g now where
        x: "begin_invalidate cf key (bc_inner ?bc) = (s, Some (\<lparr>kv_key = key, kv_entry = e\<rparr>, Remove \<lparr>kv_key = key, kv_entry = e\<rparr> g, now))"
        "inner_inv cf (insert (Remove \<lparr>kv_key = key, kv_entry = e\<rparr> g) (set (in_write_op_ch (bc_inner ?bc)) \<union> ?F)) s"
        "in_cache s = (in_cache (bc_inner ?bc))(key := None)" "in_write_op_ch s = in_write_op_ch (bc_inner ?bc)" by auto
      then have "bc_inv cf (insert (Remove \<lparr>kv_key = key, kv_entry = e\<rparr> g) ?F) (?bc\<lparr>bc_inner := s\<rparr>)"
        "lossy_step (atable ac) (AInvalidate key (Some (ve_value e))) (table (?bc\<lparr>bc_inner := s\<rparr>, []))"
        using inv Some by (auto simp: bc_inv_def table_def map_le_def)
      with notify_then_send_ok[OF h t, of _ s] CInvalidate x(1) show ?thesis
        by (auto simp: start_call_defs Let_def split: prod.splits)
    qed
  next
    case (CGet key)
    from get_yields[of cf ?F ?bc key] inv liveD[OF live] obtain bc' r where
      "get cf key ?bc = Some (bc', r)" "bc_inv cf ?F bc'" "lossy_step (atable ac) (AGet key r) (table (bc', []))"
      by (auto simp: table_def map_le_def dom_def lookup_def elim!: yieldsE split: option.splits if_splits)
    with CGet done_ok show ?thesis by (simp add: start_call_defs)
  next
    case CRunPendingTasks
    obtain hk where hk: "bc_housekeeper ?bc = Some hk" using inv by (auto simp: bc_inv_def)
    from bc_run_pending_tasks_yields[of cf ?F ?bc hk] inv hk liveD[OF live] obtain bc' where
      "run_pending_tasks cf ?bc = Some bc'" "bc_inv cf ?F bc'" "lossy_step (atable ac) AInternal (table (bc', []))"
      by (auto simp: run_pending_tasks_def maintained_def table_def map_le_def dom_def elim!: yieldsE)
    with CRunPendingTasks done_ok show ?thesis by (simp add: start_call_defs)
  qed
qed

lemma poll_task_ok:
  assumes live: "live cf" and h: "holding cf U H ac t" and nf: "\<not> task_finished t"
  shows "yields (\<lambda>(ac', t', a). holding cf U H ac' t' \<and> lossy_step (atable ac) a (atable ac')) (poll_task cf fut t ac)"
proof (cases t)
  case (TRetry call)
  show ?thesis
  proof (cases "ac_interrupted_op_ch ac")
    case Nil
    then show ?thesis using h TRetry by (simp add: holding_def task_defs)
  next
    case (Cons i ch)
    then show ?thesis using h TRetry
      by (cases i) (auto simp: holding_def task_defs guard_defs Un_ac insert_commute)
  qed
next
  case (TRetryNotify call g)
  then obtain i op where g: "cg_future g = Some i" "cg_op g = Some op" using h by (auto simp: holding_def wf_task_def)
  from yields_poll[OF h, of i "TRetrySend call (unset_future g)"] TRetryNotify g show ?thesis
    by (simp add: task_defs guard_defs split: prod.splits if_splits)
next
  case (TRetrySend call g)
  then obtain op where g: "cg_future g = None" "cg_op g = Some op" using h by (auto simp: holding_def wf_task_def)
  from guarded_schedule_ok[OF live h, of op "TRetry call" "cg_ts g"] TRetrySend g show ?thesis
    by (simp add: task_defs guard_defs)
next
  case (TStart call)
  with start_call_ok[OF live, of U H ac call fut] h show ?thesis by simp
next
  case (TNotify g r)
  then obtain i op where g: "cg_future g = Some i" "cg_op g = Some op" using h by (auto simp: holding_def wf_task_def)
  from yields_poll[OF h, of i "TSend (unset_future g) r"] TNotify g show ?thesis
    by (simp add: task_defs guard_defs split: prod.splits if_splits)
next
  case (TSend g r)
  then obtain op where g: "cg_future g = None" "cg_op g = Some op" using h by (auto simp: holding_def wf_task_def)
  from guarded_schedule_ok[OF live h, of op "TDone r" "cg_ts g"] TSend g show ?thesis
    by (simp add: task_defs guard_defs)
qed (use nf in simp_all)

lemma holding_wf: "holding cf U H ac t \<Longrightarrow> wf_task t"
  by (simp add: holding_def)

lemma poll_step:
  assumes live: "live cf" and inv: "async_inv cf ac" and ts: "ac_tasks ac = us @ t # vs" and nf: "\<not> task_finished t"
  shows "yields (\<lambda>(ac', t', a). async_inv cf (ac'\<lparr>ac_tasks := us @ t' # vs\<rparr>) \<and> lossy_step (atable ac) a (atable ac')) (poll_task cf fut t ac)"
proof -
  have "async_inv cf (ac\<lparr>ac_tasks := us @ t # vs\<rparr>)" using inv ts[symmetric] by simp
  then have h: "holding cf (tasks_ops (us @ vs)) (tasks_futures (us @ vs)) ac t" "\<forall>t \<in> set (us @ vs). wf_task t"
    unfolding async_inv_focus by blast+
  from poll_task_ok[OF live h(1) nf, of fut] show ?thesis
    by (rule yields_mono) (use h(2) in \<open>auto simp: async_inv_focus\<close>)
qed

lemma cancel_step:
  assumes inv: "async_inv cf ac" and ts: "ac_tasks ac = us @ t # vs"
  shows "async_inv cf (ac\<lparr>ac_interrupted_op_ch := drop_task t (ac_interrupted_op_ch ac), ac_tasks := us @ TDropped # vs\<rparr>)"
proof -
  have "async_inv cf (ac\<lparr>ac_tasks := us @ t # vs\<rparr>)" using inv ts[symmetric] by simp
  then have h: "holding cf (tasks_ops (us @ vs)) (tasks_futures (us @ vs)) ac t" "\<forall>t \<in> set (us @ vs). wf_task t"
    unfolding async_inv_focus by blast+
  from drop_task_ch[OF holding_wf[OF h(1)]] obtain xs where
    xs: "drop_task t (ac_interrupted_op_ch ac) = ac_interrupted_op_ch ac @ xs" "ch_ops xs = set (task_ops t)" "ch_futures xs = task_futures t"
    by blast
  have "holding cf (tasks_ops (us @ vs)) (tasks_futures (us @ vs)) (ac\<lparr>ac_interrupted_op_ch := drop_task t (ac_interrupted_op_ch ac)\<rparr>) TDropped"
    using h(1) unfolding holding_def by (simp add: xs)
  with h(2) have "async_inv cf (ac\<lparr>ac_interrupted_op_ch := drop_task t (ac_interrupted_op_ch ac)\<rparr>\<lparr>ac_tasks := us @ TDropped # vs\<rparr>)"
    unfolding async_inv_focus by simp
  then show ?thesis by simp
qed

lemma async_inv_base:
  assumes "async_inv cf ac" "\<And>F. bc_inv cf F (ac_base ac) \<Longrightarrow> bc_inv cf F bc"
  shows "async_inv cf (ac\<lparr>ac_base := bc\<rparr>)"
  using assms by (simp add: async_inv_def holding_def)

lemma spawn_step:
  assumes "async_inv cf ac"
  shows "async_inv cf (ac\<lparr>ac_tasks := ac_tasks ac @ [new_task cf call]\<rparr>)"
proof -
  have "task_ops (new_task cf call) = []" "task_futures (new_task cf call) = []" "wf_task (new_task cf call)"
    by (simp_all add: new_task_def task_defs)
  with assms show ?thesis by (simp add: async_inv_def holding_def)
qed

lemma astep_ok:
  assumes live: "live cf" and step: "astep cf fut ac a ac'" and inv: "async_inv cf ac"
  shows "async_inv cf ac' \<and> lossy_step (atable ac) a (atable ac')"
  using step
proof cases
  case (spawn call)
  then show ?thesis using spawn_step[OF inv] by simp
next
  case (poll us t vs ac1 t')
  have "\<not> task_finished t" using poll(3) by (cases t) auto
  from poll_step[OF live inv poll(2) this, of fut] poll show ?thesis by (simp add: yields_def)
next
  case (cancel us t vs)
  then show ?thesis using cancel_step[OF inv cancel(3)] by simp
next
  case async_invalidate_all
  have "bc_inv cf F (ac_base ac) \<Longrightarrow> bc_inv cf F (invalidate_all cf (ac_base ac))" for F
    using inner_inv_tick[OF _ clock_okD(1)[OF liveD(1)[OF live]], of "set (in_write_op_ch (bc_inner (ac_base ac))) \<union> F" "bc_inner (ac_base ac)"]
    by (auto simp: bc_inv_def invalidate_all_def current_time_def set_valid_after_def)
  with async_inv_base[OF inv] async_invalidate_all show ?thesis
    by (auto simp: invalidate_all_def current_time_def set_valid_after_def table_def)
next
  case (async_invalidate_if uuid predicate bc r)
  have "bc_inv cf F (ac_base ac) \<Longrightarrow> bc_inv cf F bc" for F
    using inner_inv_tick[OF _ clock_okD(1)[OF liveD(1)[OF live]], of "set (in_write_op_ch (bc_inner (ac_base ac))) \<union> F" "bc_inner (ac_base ac)"] async_invalidate_if(3)
    by (auto simp: bc_inv_def invalidate_entries_if_def register_invalidation_predicate_def current_time_def
        Option.bind_eq_Some_conv split: option.splits prod.splits)
  moreover have "table (bc, []) = atable ac" using async_invalidate_if(3)
    by (auto simp: invalidate_entries_if_def register_invalidation_predicate_def current_time_def table_def
        Option.bind_eq_Some_conv split: option.splits prod.splits)
  ultimately show ?thesis using async_inv_base[OF inv] async_invalidate_if by simp
qed

interpretation async_lossy: lossy_map "\<lambda>ac. live cf \<and> async_inv cf ac" "astep cf fut" "\<lambda>ac. table (ac_base ac, [])" for cf fut
  by unfold_locales (use astep_ok in blast)+

end
