(* ===== verification/Async_Init.thy ===== *)
theory Async_Init
  imports Value_Initializer Async_Cancel Waiter_Protocol
begin

text \<open>
  Computing missing values in the asynchronous cache: \<open>src/src/future/value_initializer.rs\<close> and the functions of
  \<open>src/src/future/cache.rs\<close> and \<open>src/src/future/entry_selector.rs\<close> that call it.

  A call is a machine as in the synchronous cache. It may be dropped at the points at which the code awaits: while
  it waits for another call, for the future of the caller, or for an operation of the cache. An operation of the
  cache is a task of \<open>Async_Cache\<close>; the call knows the number of the task. A future of the caller is ready after a
  number of polls; its result is \<open>None\<close> when it panics.
\<close>

section \<open>Data\<close>

datatype ('v, 'e) async_waiter_value =
    AComputing
  | AReady "'e error_object + 'v"
  | AReadyNone
  | AInitFuturePanicked
  | AEnclosingFutureAborted

record ('k, 'v, 'e) async_vi =
  av_waiters :: "('k \<times> type_id) \<rightharpoonup> waiter_id"
  av_values :: "waiter_id \<Rightarrow> ('v, 'e) async_waiter_value"
  av_locked :: "waiter_id \<Rightarrow> bool"

definition async_vi_with_hasher :: "('k, 'v, 'e) async_vi" where
  "async_vi_with_hasher = \<lparr>av_waiters = Map.empty, av_values = (\<lambda>_. AComputing), av_locked = (\<lambda>_. False)\<rparr>"

definition async_try_insert_waiter ::
  "'k \<times> type_id \<Rightarrow> waiter_id \<Rightarrow> ('k, 'v, 'e) async_vi \<Rightarrow> ('k, 'v, 'e) async_vi \<times> waiter_id option" where
  "async_try_insert_waiter w_key w vi =
     (case av_waiters vi w_key of
        None \<Rightarrow> (vi\<lparr>av_waiters := (av_waiters vi)(w_key \<mapsto> w)\<rparr>, None)
      | Some existing \<Rightarrow> (vi, Some existing))"

definition async_remove_waiter :: "'k \<times> type_id \<Rightarrow> ('k, 'v, 'e) async_vi \<Rightarrow> ('k, 'v, 'e) async_vi" where
  "async_remove_waiter w_key vi = vi\<lparr>av_waiters := (av_waiters vi)(w_key := None)\<rparr>"

text \<open>\<open>WaiterGuard\<close>: the value of the waiter is set, and the waiter is taken out of the map. When the guard is
  dropped first, the value says that the enclosing future was aborted.\<close>

definition set_waiter_value ::
  "'k \<times> type_id \<Rightarrow> waiter_id \<Rightarrow> ('v, 'e) async_waiter_value \<Rightarrow> ('k, 'v, 'e) async_vi \<Rightarrow> ('k, 'v, 'e) async_vi" where
  "set_waiter_value w_key w v vi = async_remove_waiter w_key (vi\<lparr>av_values := (av_values vi)(w := v)\<rparr>)"

definition waiter_guard_drop :: "'k \<times> type_id \<Rightarrow> waiter_id \<Rightarrow> ('k, 'v, 'e) async_vi \<Rightarrow> ('k, 'v, 'e) async_vi" where
  "waiter_guard_drop w_key w vi = set_waiter_value w_key w AEnclosingFutureAborted vi"

definition finish_waiter ::
  "'k \<times> type_id \<Rightarrow> waiter_id \<Rightarrow> ('v, 'e) async_waiter_value \<Rightarrow> ('k, 'v, 'e) async_vi \<Rightarrow> ('k, 'v, 'e) async_vi" where
  "finish_waiter w_key w v vi =
     (case v of AEnclosingFutureAborted \<Rightarrow> waiter_guard_drop w_key w vi | _ \<Rightarrow> set_waiter_value w_key w v vi)"

definition async_new_waiter :: "waiter_id \<Rightarrow> ('k, 'v, 'e) async_vi \<Rightarrow> ('k, 'v, 'e) async_vi" where
  "async_new_waiter w vi = vi\<lparr>av_values := (av_values vi)(w := AComputing), av_locked := (av_locked vi)(w := True)\<rparr>"

definition async_unlock_waiter :: "waiter_id \<Rightarrow> ('k, 'v, 'e) async_vi \<Rightarrow> ('k, 'v, 'e) async_vi" where
  "async_unlock_waiter w vi = vi\<lparr>av_locked := (av_locked vi)(w := False)\<rparr>"

datatype 'r outcome = Returned 'r | Panicked | Dropped

section \<open>Awaiting an operation of the cache\<close>

definition spawn_task :: "('k, 'v) config \<Rightarrow> ('k, 'v) call \<Rightarrow> ('k, 'v) async_cache \<Rightarrow> ('k, 'v) async_cache \<times> nat" where
  "spawn_task cf call ac = (ac\<lparr>ac_tasks := ac_tasks ac @ [new_task cf call]\<rparr>, length (ac_tasks ac))"

definition task_result :: "nat \<Rightarrow> ('k, 'v) async_cache \<Rightarrow> 'v option option" where
  "task_result i ac = (case ac_tasks ac ! i of TDone r \<Rightarrow> Some r | _ \<Rightarrow> None)"

definition poll_at ::
  "('k, 'v) config \<Rightarrow> ('k \<Rightarrow> 'v \<Rightarrow> removal_cause \<Rightarrow> nat \<times> bool) \<Rightarrow> nat \<Rightarrow> ('k, 'v) async_cache \<Rightarrow> ('k, 'v) async_cache or_panic" where
  "poll_at cf fut i ac =
     do { (ac', t, a) \<leftarrow> poll_task cf fut (ac_tasks ac ! i) ac; Some (ac'\<lparr>ac_tasks := (ac_tasks ac)[i := t]\<rparr>) }"

definition cancel_at :: "nat \<Rightarrow> ('k, 'v) async_cache \<Rightarrow> ('k, 'v) async_cache" where
  "cancel_at i ac =
     ac\<lparr>ac_interrupted_op_ch := drop_task (ac_tasks ac ! i) (ac_interrupted_op_ch ac), ac_tasks := (ac_tasks ac)[i := TDropped]\<rparr>"

section \<open>\<open>try_init_or_read\<close>\<close>

text \<open>\<open>ac_polls\<close> is how often the future \<open>init\<close> is pending.\<close>

record ('k, 'v, 'e) async_init_call = "('k, 'v, 'e) init_call" +
  ac_polls :: nat

datatype ('v, 'e) async_init_pc =
    AInitStart nat
  | AInitWait waiter_id nat
  | AInitGet
  | AInitEval nat
  | AInitInsert 'v nat
  | AInitFinish "('v, 'e) async_waiter_value" "('v, 'e) init_result outcome"
  | AInitUnlock "('v, 'e) init_result outcome"
  | AInitDone "('v, 'e) init_result outcome"

fun async_read_waiter :: "type_id \<Rightarrow> nat \<Rightarrow> ('v, 'e) async_waiter_value \<Rightarrow> ('v, 'e) async_init_pc" where
  "async_read_waiter t retries (AReady (Inr v)) = AInitUnlock (Returned (ReadExisting v))"
| "async_read_waiter t retries (AReady (Inl e)) =
     AInitUnlock (case downcast t e of Some e \<Rightarrow> Returned (InitErr e) | None \<Rightarrow> Panicked)"
| "async_read_waiter t retries AInitFuturePanicked =
     (let retries = retries + 1 in if retries < MAX_RETRIES then AInitStart retries else AInitUnlock Panicked)"
| "async_read_waiter t retries AEnclosingFutureAborted =
     (let retries = retries + 1 in if retries < MAX_RETRIES then AInitStart retries else AInitUnlock Panicked)"
| "async_read_waiter t retries AComputing = AInitUnlock Panicked"
| "async_read_waiter t retries AReadyNone = AInitUnlock Panicked"

text \<open>The lookup by a call that has got the waiter: the read is not recorded.\<close>

definition async_get_without_recording ::
  "('k, 'v) config \<Rightarrow> ('v \<Rightarrow> bool) option \<Rightarrow> 'k \<Rightarrow> u64 \<Rightarrow> ('k, 'v) base_cache \<Rightarrow> (('k, 'v) base_cache \<times> 'v option) or_panic" where
  "async_get_without_recording cf ignore_if key hash bc =
     do { (bc, e) \<leftarrow> async_get_with_hash cf ignore_if False False key hash bc; Some (bc, map_option en_value e) }"

lemma async_get_without_recording_eq [simp]: "async_get_without_recording = get_with_hash_without_recording"
  by (intro ext) (simp add: async_get_without_recording_def get_with_hash_without_recording_def async_get_with_hash_eq)

text \<open>A step of a call that is resumed; \<open>None\<close> when it has to wait or has ended. The panic of a lookup or of a
  task of the cache drops the guard.\<close>

fun async_init_step ::
  "('k, 'v) config \<Rightarrow> ('k \<Rightarrow> 'v \<Rightarrow> removal_cause \<Rightarrow> nat \<times> bool) \<Rightarrow> ('k, 'v, 'e) async_init_call \<Rightarrow> waiter_id \<Rightarrow>
    ('v, 'e) async_init_pc \<Rightarrow> ('k, 'v, 'e) async_vi \<Rightarrow> ('k, 'v) async_cache \<Rightarrow>
    (('v, 'e) async_init_pc \<times> ('k, 'v, 'e) async_vi \<times> ('k, 'v) async_cache) option" where
  "async_init_step cf fut c w (AInitStart retries) vi ac =
     (let (vi, existing) = async_try_insert_waiter (ic_key c, ic_type_id c) w vi
      in Some (case existing of None \<Rightarrow> AInitGet | Some w' \<Rightarrow> AInitWait w' retries, vi, ac))"
| "async_init_step cf fut c w (AInitWait w' retries) vi ac =
     (if av_locked vi w' then None
      else Some (async_read_waiter (ic_error_type c) retries (av_values vi w'), vi, ac))"
| "async_init_step cf fut c w AInitGet vi ac =
     Some (case async_get_without_recording cf (ic_ignore_if c) (ic_key c) (cf_hash cf (ic_key c)) (ac_base ac) of
             Some (bc, Some v) \<Rightarrow> (AInitFinish (AReady (Inr v)) (Returned (ReadExisting v)), vi, ac\<lparr>ac_base := bc\<rparr>)
           | Some (bc, None) \<Rightarrow> (AInitEval (ac_polls c), vi, ac\<lparr>ac_base := bc\<rparr>)
           | None \<Rightarrow> (AInitFinish AEnclosingFutureAborted Panicked, vi, ac))"
| "async_init_step cf fut c w (AInitEval (Suc n)) vi ac = Some (AInitEval n, vi, ac)"
| "async_init_step cf fut c w (AInitEval 0) vi ac =
     Some (case ic_init c of
             Some (Inr v) \<Rightarrow> (let (ac, i) = spawn_task cf (CInsert (ic_key c) v) ac in (AInitInsert v i, vi, ac))
           | Some (Inl e) \<Rightarrow>
               (AInitFinish (AReady (Inl \<lparr>eo_type = ic_error_type c, eo_error = e\<rparr>)) (Returned (InitErr e)), vi, ac)
           | None \<Rightarrow> (AInitFinish AInitFuturePanicked Panicked, vi, ac))"
| "async_init_step cf fut c w (AInitInsert v i) vi ac =
     Some (case task_result i ac of
             Some r \<Rightarrow> (AInitFinish (AReady (Inr v)) (Returned (Initialized v)), vi, ac)
           | None \<Rightarrow> (case poll_at cf fut i ac of
                       Some ac \<Rightarrow> (AInitInsert v i, vi, ac)
                     | None \<Rightarrow> (AInitFinish AEnclosingFutureAborted Panicked, vi, ac)))"
| "async_init_step cf fut c w (AInitFinish x r) vi ac =
     Some (AInitUnlock r, finish_waiter (ic_key c, ic_type_id c) w x vi, ac)"
| "async_init_step cf fut c w (AInitUnlock r) vi ac = Some (AInitDone r, async_unlock_waiter w vi, ac)"
| "async_init_step cf fut c w (AInitDone r) vi ac = None"

text \<open>Dropping a call that is suspended: the guard of its waiter and the task that it awaits are dropped.\<close>

fun async_init_drop ::
  "('v, 'e) async_init_pc \<Rightarrow> ('k, 'v) async_cache \<Rightarrow> (('v, 'e) async_init_pc \<times> ('k, 'v) async_cache) option" where
  "async_init_drop (AInitWait w' retries) ac = Some (AInitUnlock Dropped, ac)"
| "async_init_drop (AInitEval n) ac = Some (AInitFinish AEnclosingFutureAborted Dropped, ac)"
| "async_init_drop (AInitInsert v i) ac =
     (if task_result i ac = None then Some (AInitFinish AEnclosingFutureAborted Dropped, cancel_at i ac) else None)"
| "async_init_drop pc ac = None"

section \<open>\<open>try_compute\<close> and \<open>try_compute_if_nobody_else\<close>\<close>

text \<open>\<open>acc_f\<close> is the closure \<open>f\<close>: \<open>None\<close> when it panics, else the future that it returns, followed by \<open>post_init\<close>.\<close>

record ('k, 'v, 'e) async_comp_call =
  acc_key :: 'k
  acc_f :: "('k, 'v) entry option \<Rightarrow> (nat \<times> ('e + 'v comp_op) or_panic) or_panic"
  acc_allow_nop :: bool
  acc_if_nobody_else :: bool

datatype ('k, 'v, 'e) async_comp_pc =
    ACompStart
  | ACompWait waiter_id
  | ACompPeek nat
  | ACompGet nat
  | ACompEval nat "('e + 'v comp_op) or_panic" "('k, 'v) entry option"
  | ACompApply "'v comp_op" nat bool
  | ACompFinish "('v, 'e) async_waiter_value" "('e + ('k, 'v) comp_result) outcome"
  | ACompUnlock "('e + ('k, 'v) comp_result) outcome"
  | ACompDone "('e + ('k, 'v) comp_result) outcome"

definition unchanged_or_none :: "'k \<Rightarrow> 'v option \<Rightarrow> ('k, 'v) comp_result" where
  "unchanged_or_none key maybe_value =
     (case maybe_value of Some v \<Rightarrow> Unchanged (entry_new (Some key) v False False) | None \<Rightarrow> StillNone key)"

text \<open>What a call makes of the result of its future.\<close>

definition async_comp_op ::
  "('k, 'v) config \<Rightarrow> ('k, 'v, 'e) async_comp_call \<Rightarrow> ('e + 'v comp_op) or_panic \<Rightarrow> ('k, 'v) entry option \<Rightarrow>
    ('k, 'v) async_cache \<Rightarrow> ('k, 'v, 'e) async_comp_pc \<times> ('k, 'v) async_cache" where
  "async_comp_op cf c output maybe_entry ac =
     (case output of
        None \<Rightarrow> (ACompFinish AInitFuturePanicked Panicked, ac)
      | Some (Inl e) \<Rightarrow> (ACompFinish AReadyNone (Returned (Inl e)), ac)
      | Some (Inr Nop) \<Rightarrow>
          (let maybe_value = (if acc_allow_nop c then map_option en_value maybe_entry else None)
           in (ACompFinish AReadyNone (Returned (Inr (unchanged_or_none (acc_key c) maybe_value))), ac))
      | Some (Inr (Put v)) \<Rightarrow>
          (let (ac, i) = spawn_task cf (CInsert (acc_key c) v) ac in (ACompApply (Put v) i (maybe_entry \<noteq> None), ac))
      | Some (Inr RemoveOp) \<Rightarrow>
          (let (ac, i) = spawn_task cf (CInvalidate (acc_key c) True) ac in (ACompApply RemoveOp i (maybe_entry \<noteq> None), ac)))"

fun applied_result :: "'k \<Rightarrow> 'v comp_op \<Rightarrow> bool \<Rightarrow> 'v option \<Rightarrow> ('k, 'v) comp_result" where
  "applied_result key (Put v) entry_existed r =
     (if entry_existed then ReplacedWith (entry_new (Some key) v True True) else Inserted (entry_new (Some key) v True False))"
| "applied_result key RemoveOp entry_existed r =
     (case r of Some prev_v \<Rightarrow> Removed (entry_new (Some key) prev_v False False) | None \<Rightarrow> StillNone key)"
| "applied_result key Nop entry_existed r = StillNone key"

text \<open>Awaiting the task \<open>i\<close> with the guard of the waiter held.\<close>

definition await_task ::
  "('k, 'v) config \<Rightarrow> ('k \<Rightarrow> 'v \<Rightarrow> removal_cause \<Rightarrow> nat \<times> bool) \<Rightarrow> nat \<Rightarrow> ('k, 'v, 'e) async_comp_pc \<Rightarrow>
    ('v option \<Rightarrow> ('k, 'v, 'e) async_comp_pc) \<Rightarrow> ('k, 'v, 'e) async_comp_pc \<Rightarrow> ('k, 'v) async_cache \<Rightarrow>
    ('k, 'v, 'e) async_comp_pc \<times> ('k, 'v) async_cache" where
  "await_task cf fut i pc ready panicked ac =
     (case task_result i ac of
        Some r \<Rightarrow> (ready r, ac)
      | None \<Rightarrow> (case poll_at cf fut i ac of Some ac \<Rightarrow> (pc, ac) | None \<Rightarrow> (panicked, ac)))"

fun async_comp_step ::
  "('k, 'v) config \<Rightarrow> ('k \<Rightarrow> 'v \<Rightarrow> removal_cause \<Rightarrow> nat \<times> bool) \<Rightarrow> ('k, 'v, 'e) async_comp_call \<Rightarrow> waiter_id \<Rightarrow>
    ('k, 'v, 'e) async_comp_pc \<Rightarrow> ('k, 'v, 'e) async_vi \<Rightarrow> ('k, 'v) async_cache \<Rightarrow>
    (('k, 'v, 'e) async_comp_pc \<times> ('k, 'v, 'e) async_vi \<times> ('k, 'v) async_cache) option" where
  "async_comp_step cf fut c w ACompStart vi ac =
     (let (vi, existing) = async_try_insert_waiter (acc_key c, TypeComputeNone) w vi;
          (ac', i) = spawn_task cf (CGet (acc_key c)) ac
      in Some (case existing of
                 None \<Rightarrow> (ACompGet i, vi, ac')
               | Some w' \<Rightarrow> if acc_if_nobody_else c then (ACompPeek i, vi, ac') else (ACompWait w', vi, ac)))"
| "async_comp_step cf fut c w (ACompWait w') vi ac =
     (if av_locked vi w' then None
      else Some (if av_values vi w' = AComputing then ACompUnlock Panicked else ACompStart, vi, ac))"
| "async_comp_step cf fut c w (ACompPeek i) vi ac =
     (let (pc, ac) = await_task cf fut i (ACompPeek i)
            (\<lambda>r. ACompUnlock (Returned (Inr (unchanged_or_none (acc_key c) r)))) (ACompUnlock Panicked) ac
      in Some (pc, vi, ac))"
| "async_comp_step cf fut c w (ACompGet i) vi ac =
     (let (pc, ac) = await_task cf fut i (ACompGet i)
            (\<lambda>r. let maybe_entry = map_option (\<lambda>v. entry_new (Some (acc_key c)) v False False) r
                 in case acc_f c maybe_entry of
                      Some (n, output) \<Rightarrow> ACompEval n output maybe_entry
                    | None \<Rightarrow> ACompFinish AInitFuturePanicked Panicked)
            (ACompFinish AEnclosingFutureAborted Panicked) ac
      in Some (pc, vi, ac))"
| "async_comp_step cf fut c w (ACompEval (Suc n) output maybe_entry) vi ac = Some (ACompEval n output maybe_entry, vi, ac)"
| "async_comp_step cf fut c w (ACompEval 0 output maybe_entry) vi ac =
     (let (pc, ac) = async_comp_op cf c output maybe_entry ac in Some (pc, vi, ac))"
| "async_comp_step cf fut c w (ACompApply op i entry_existed) vi ac =
     (let (pc, ac) = await_task cf fut i (ACompApply op i entry_existed)
            (\<lambda>r. ACompFinish AReadyNone (Returned (Inr (applied_result (acc_key c) op entry_existed r))))
            (ACompFinish AEnclosingFutureAborted Panicked) ac
      in Some (pc, vi, ac))"
| "async_comp_step cf fut c w (ACompFinish x r) vi ac =
     Some (ACompUnlock r, finish_waiter (acc_key c, TypeComputeNone) w x vi, ac)"
| "async_comp_step cf fut c w (ACompUnlock r) vi ac = Some (ACompDone r, async_unlock_waiter w vi, ac)"
| "async_comp_step cf fut c w (ACompDone r) vi ac = None"

fun async_comp_drop ::
  "('k, 'v, 'e) async_comp_pc \<Rightarrow> ('k, 'v) async_cache \<Rightarrow> (('k, 'v, 'e) async_comp_pc \<times> ('k, 'v) async_cache) option" where
  "async_comp_drop (ACompWait w') ac = Some (ACompUnlock Dropped, ac)"
| "async_comp_drop (ACompPeek i) ac =
     (if task_result i ac = None then Some (ACompUnlock Dropped, cancel_at i ac) else None)"
| "async_comp_drop (ACompGet i) ac =
     (if task_result i ac = None then Some (ACompFinish AEnclosingFutureAborted Dropped, cancel_at i ac) else None)"
| "async_comp_drop (ACompEval n output maybe_entry) ac = Some (ACompFinish AEnclosingFutureAborted Dropped, ac)"
| "async_comp_drop (ACompApply op i entry_existed) ac =
     (if task_result i ac = None then Some (ACompFinish AEnclosingFutureAborted Dropped, cancel_at i ac) else None)"
| "async_comp_drop pc ac = None"

end
