(* ===== verification/Async_Init_Protocol.thy ===== *)
theory Async_Init_Protocol
  imports Async_Init Cache_Lookup
begin

text \<open>
  Calls that compute values on one asynchronous cache, and that may be dropped. They follow the protocol of waiters,
  so at most one of the calls for a key computes, a call that was dropped leaves no waiter behind, and whoever
  waited for it goes on. The tasks of the cache that the calls await are among the tasks of \<open>Async_Cache\<close>, so its
  invariant and its refinement hold for them.
\<close>

section \<open>The system\<close>

datatype ('k, 'v, 'e) async_thread =
    AInitThread "('k, 'v, 'e) async_init_call" "('v, 'e) async_init_pc"
  | ACompThread "('k, 'v, 'e) async_comp_call" "('k, 'v, 'e) async_comp_pc"

record ('k, 'v, 'e) async_calls =
  as_vi :: "('k, 'v, 'e) async_vi"
  as_cache :: "('k, 'v) async_cache"
  as_threads :: "waiter_id \<rightharpoonup> ('k, 'v, 'e) async_thread"

fun async_thread_step ::
  "('k, 'v) config \<Rightarrow> ('k \<Rightarrow> 'v \<Rightarrow> removal_cause \<Rightarrow> nat \<times> bool) \<Rightarrow> waiter_id \<Rightarrow> ('k, 'v, 'e) async_thread \<Rightarrow>
    ('k, 'v, 'e) async_vi \<Rightarrow> ('k, 'v) async_cache \<Rightarrow>
    (('k, 'v, 'e) async_thread \<times> ('k, 'v, 'e) async_vi \<times> ('k, 'v) async_cache) option" where
  "async_thread_step cf fut w (AInitThread c pc) vi ac =
     map_option (\<lambda>(pc, vi, ac). (AInitThread c pc, vi, ac)) (async_init_step cf fut c w pc vi ac)"
| "async_thread_step cf fut w (ACompThread c pc) vi ac =
     map_option (\<lambda>(pc, vi, ac). (ACompThread c pc, vi, ac)) (async_comp_step cf fut c w pc vi ac)"

fun async_thread_drop ::
  "('k, 'v, 'e) async_thread \<Rightarrow> ('k, 'v) async_cache \<Rightarrow> (('k, 'v, 'e) async_thread \<times> ('k, 'v) async_cache) option" where
  "async_thread_drop (AInitThread c pc) ac = map_option (\<lambda>(pc, ac). (AInitThread c pc, ac)) (async_init_drop pc ac)"
| "async_thread_drop (ACompThread c pc) ac = map_option (\<lambda>(pc, ac). (ACompThread c pc, ac)) (async_comp_drop pc ac)"

text \<open>A call that starts. As in the synchronous system, any type identifier and error type but \<open>ComputeNone\<close> is allowed.\<close>

fun async_initial :: "('k, 'v, 'e) async_thread \<Rightarrow> bool" where
  "async_initial (AInitThread c pc) \<longleftrightarrow> pc = AInitStart 0 \<and> ic_type_id c \<noteq> TypeComputeNone"
| "async_initial (ACompThread c pc) \<longleftrightarrow> pc = ACompStart"

text \<open>The task that a call awaits.\<close>

fun awaits :: "('k, 'v, 'e) async_thread \<Rightarrow> nat option" where
  "awaits (AInitThread c pc) = (case pc of AInitInsert v i \<Rightarrow> Some i | _ \<Rightarrow> None)"
| "awaits (ACompThread c pc) =
     (case pc of ACompPeek i \<Rightarrow> Some i | ACompGet i \<Rightarrow> Some i | ACompApply op i b \<Rightarrow> Some i | _ \<Rightarrow> None)"

text \<open>The other tasks of the cache are the environment: they do not touch the tasks that calls await.\<close>

inductive async_calls_step ::
  "('k, 'v) config \<Rightarrow> ('k \<Rightarrow> 'v \<Rightarrow> removal_cause \<Rightarrow> nat \<times> bool) \<Rightarrow> ('k, 'v, 'e) async_calls \<Rightarrow> ('k, 'v, 'e) async_calls \<Rightarrow> bool"
  for cf :: "('k, 'v) config" and fut :: "'k \<Rightarrow> 'v \<Rightarrow> removal_cause \<Rightarrow> nat \<times> bool" where
  resume:
    "as_threads s w = Some t \<Longrightarrow> async_thread_step cf fut w t (as_vi s) (as_cache s) = Some (t', vi, ac) \<Longrightarrow>
     async_calls_step cf fut s (s\<lparr>as_vi := vi, as_cache := ac, as_threads := (as_threads s)(w \<mapsto> t')\<rparr>)"
| abort:
    "as_threads s w = Some t \<Longrightarrow> async_thread_drop t (as_cache s) = Some (t', ac) \<Longrightarrow>
     async_calls_step cf fut s (s\<lparr>as_cache := ac, as_threads := (as_threads s)(w \<mapsto> t')\<rparr>)"
| call_new:
    "as_threads s w = None \<Longrightarrow> async_initial t \<Longrightarrow>
     async_calls_step cf fut s (s\<lparr>as_vi := async_new_waiter w (as_vi s), as_threads := (as_threads s)(w \<mapsto> t)\<rparr>)"
| other_task:
    "astep cf fut (as_cache s) a ac \<Longrightarrow> length (ac_tasks (as_cache s)) \<le> length (ac_tasks ac) \<Longrightarrow>
     \<forall>w t i. as_threads s w = Some t \<longrightarrow> awaits t = Some i \<longrightarrow> ac_tasks ac ! i = ac_tasks (as_cache s) ! i \<Longrightarrow>
     async_calls_step cf fut s (s\<lparr>as_cache := ac\<rparr>)"

inductive async_calls_reachable ::
  "('k, 'v) config \<Rightarrow> ('k \<Rightarrow> 'v \<Rightarrow> removal_cause \<Rightarrow> nat \<times> bool) \<Rightarrow> ('k, 'v, 'e) async_calls \<Rightarrow> bool"
  for cf :: "('k, 'v) config" and fut :: "'k \<Rightarrow> 'v \<Rightarrow> removal_cause \<Rightarrow> nat \<times> bool" where
  async_calls_init: "async_calls_reachable cf fut
    \<lparr>as_vi = async_vi_with_hasher, as_cache = async_cache_new kh cf listener hk_config invalidator_enabled,
     as_threads = Map.empty\<rparr>"
| async_calls_next: "async_calls_reachable cf fut s \<Longrightarrow> async_calls_step cf fut s s' \<Longrightarrow> async_calls_reachable cf fut s'"

section \<open>The phases of a call\<close>

fun async_w_key :: "('k, 'v, 'e) async_thread \<Rightarrow> 'k \<times> type_id" where
  "async_w_key (AInitThread c pc) = (ic_key c, ic_type_id c)"
| "async_w_key (ACompThread c pc) = (acc_key c, TypeComputeNone)"

fun async_owner :: "('k, 'v, 'e) async_thread \<Rightarrow> bool" where
  "async_owner (AInitThread c pc) \<longleftrightarrow>
     (case pc of AInitGet \<Rightarrow> True | AInitEval n \<Rightarrow> True | AInitInsert v i \<Rightarrow> True | AInitFinish x r \<Rightarrow> True | _ \<Rightarrow> False)"
| "async_owner (ACompThread c pc) \<longleftrightarrow>
     (case pc of ACompGet i \<Rightarrow> True | ACompEval n out e \<Rightarrow> True | ACompApply op i b \<Rightarrow> True | ACompFinish x r \<Rightarrow> True | _ \<Rightarrow> False)"

fun async_waits_on :: "('k, 'v, 'e) async_thread \<Rightarrow> waiter_id option" where
  "async_waits_on (AInitThread c pc) = (case pc of AInitWait w n \<Rightarrow> Some w | _ \<Rightarrow> None)"
| "async_waits_on (ACompThread c pc) = (case pc of ACompWait w \<Rightarrow> Some w | _ \<Rightarrow> None)"

fun async_finished :: "('k, 'v, 'e) async_thread \<Rightarrow> bool" where
  "async_finished (AInitThread c pc) \<longleftrightarrow> (case pc of AInitDone r \<Rightarrow> True | _ \<Rightarrow> False)"
| "async_finished (ACompThread c pc) \<longleftrightarrow> (case pc of ACompDone r \<Rightarrow> True | _ \<Rightarrow> False)"

text \<open>The value of the waiter of a call of \<open>try_init_or_read\<close> that ended with \<open>r\<close>.\<close>

fun async_announces :: "type_id \<Rightarrow> ('v, 'e) async_waiter_value \<Rightarrow> ('v, 'e) init_result outcome \<Rightarrow> bool" where
  "async_announces E (AReady (Inr v)) r \<longleftrightarrow> r = Returned (Initialized v) \<or> r = Returned (ReadExisting v)"
| "async_announces E (AReady (Inl e)) r \<longleftrightarrow> eo_type e = E \<and> r = Returned (InitErr (eo_error e))"
| "async_announces E AInitFuturePanicked r \<longleftrightarrow> r = Panicked"
| "async_announces E AEnclosingFutureAborted r \<longleftrightarrow> r = Panicked \<or> r = Dropped"
| "async_announces E AComputing r \<longleftrightarrow> False"
| "async_announces E AReadyNone r \<longleftrightarrow> False"

fun async_announced :: "('k, 'v, 'e) async_thread \<Rightarrow> ('v, 'e) async_waiter_value \<Rightarrow> bool" where
  "async_announced (AInitThread c pc) x \<longleftrightarrow>
     (case pc of AInitUnlock r \<Rightarrow> async_announces (ic_error_type c) x r
      | AInitDone r \<Rightarrow> async_announces (ic_error_type c) x r | _ \<Rightarrow> False)"
| "async_announced (ACompThread c pc) x \<longleftrightarrow>
     (case pc of ACompUnlock r \<Rightarrow> True | ACompDone r \<Rightarrow> True | _ \<Rightarrow> False) \<and> x \<noteq> AComputing"

fun async_phase_ok :: "('k, 'v, 'e) async_thread \<Rightarrow> ('v, 'e) async_waiter_value \<Rightarrow> bool" where
  "async_phase_ok (AInitThread c pc) x \<longleftrightarrow> ic_type_id c \<noteq> TypeComputeNone \<and>
     (case pc of AInitFinish y r \<Rightarrow> async_announces (ic_error_type c) y r | _ \<Rightarrow> True)"
| "async_phase_ok (ACompThread c pc) x \<longleftrightarrow> (case pc of ACompFinish y r \<Rightarrow> y \<noteq> AComputing | _ \<Rightarrow> True)"

lemma async_phases:
  "async_owner t \<Longrightarrow> \<not> async_finished t" "async_owner t \<Longrightarrow> async_waits_on t = None" "async_announced t x \<Longrightarrow> async_waits_on t = None"
  by (cases t; auto split: async_init_pc.splits async_comp_pc.splits)+

interpretation async_protocol:
  waiter_protocol async_owner async_w_key async_waits_on async_finished async_announced async_phase_ok
  by unfold_locales (use async_phases in blast)+

section \<open>The invariant\<close>

abbreviation async_waiters_ok :: "('k, 'v, 'e) async_vi \<Rightarrow> (waiter_id \<rightharpoonup> ('k, 'v, 'e) async_thread) \<Rightarrow> bool" where
  "async_waiters_ok vi T \<equiv> async_protocol.protocol_ok (av_waiters vi) (av_locked vi) (av_values vi) T"

text \<open>Every awaited task is there, was not dropped, and is awaited by one call only.\<close>

definition tasks_ok :: "('k, 'v) async_cache \<Rightarrow> (waiter_id \<rightharpoonup> ('k, 'v, 'e) async_thread) \<Rightarrow> bool" where
  "tasks_ok ac T \<longleftrightarrow>
     (\<forall>w t i. T w = Some t \<longrightarrow> awaits t = Some i \<longrightarrow> i < length (ac_tasks ac) \<and> ac_tasks ac ! i \<noteq> TDropped) \<and>
     (\<forall>w t w' t' i. T w = Some t \<longrightarrow> T w' = Some t' \<longrightarrow> awaits t = Some i \<longrightarrow> awaits t' = Some i \<longrightarrow> w = w')"

definition async_calls_inv :: "('k, 'v) config \<Rightarrow> ('k, 'v, 'e) async_calls \<Rightarrow> bool" where
  "async_calls_inv cf s \<longleftrightarrow>
     async_inv cf (as_cache s) \<and> async_waiters_ok (as_vi s) (as_threads s) \<and> tasks_ok (as_cache s) (as_threads s)"

lemma av_sel [simp]:
  "av_waiters (finish_waiter wk w x vi) = (av_waiters vi)(wk := None)" "av_locked (finish_waiter wk w x vi) = av_locked vi"
  "av_values (finish_waiter wk w x vi) = (av_values vi)(w := x)"
  "av_waiters (async_unlock_waiter w vi) = av_waiters vi" "av_locked (async_unlock_waiter w vi) = (av_locked vi)(w := False)"
  "av_values (async_unlock_waiter w vi) = av_values vi"
  "av_waiters (async_new_waiter w vi) = av_waiters vi" "av_locked (async_new_waiter w vi) = (av_locked vi)(w := True)"
  "av_values (async_new_waiter w vi) = (av_values vi)(w := AComputing)"
  by (cases x; simp add: finish_waiter_def waiter_guard_drop_def set_waiter_value_def async_remove_waiter_def async_unlock_waiter_def async_new_waiter_def)+

text \<open>What a step does to the cache: nothing, a step of \<open>Async_Cache\<close>, or a lookup that is not recorded.\<close>

lemma poll_at_step:
  assumes "poll_at cf fut i ac = Some ac'" "i < length (ac_tasks ac)"
  shows "\<exists>a. astep cf fut ac a ac'" "length (ac_tasks ac') = length (ac_tasks ac)" "j \<noteq> i \<Longrightarrow> ac_tasks ac' ! j = ac_tasks ac ! j"
proof -
  obtain ac1 t a where p: "poll_task cf fut (ac_tasks ac ! i) ac = Some (ac1, t, a)" "ac' = ac1\<lparr>ac_tasks := (ac_tasks ac)[i := t]\<rparr>"
    using assms(1) by (auto simp: poll_at_def Option.bind_eq_Some_conv)
  have "ac_tasks ac = take i (ac_tasks ac) @ ac_tasks ac ! i # drop (Suc i) (ac_tasks ac)" by (rule id_take_nth_drop[OF assms(2)])
  from astep.poll[OF this p(1)] show "\<exists>a. astep cf fut ac a ac'"
    by (auto simp: p(2) upd_conv_take_nth_drop[OF assms(2)])
  show "length (ac_tasks ac') = length (ac_tasks ac)" "j \<noteq> i \<Longrightarrow> ac_tasks ac' ! j = ac_tasks ac ! j" by (simp_all add: p(2))
qed

lemma cancel_at_step:
  assumes "i < length (ac_tasks ac)" "task_result i ac = None" "ac_tasks ac ! i \<noteq> TDropped"
  shows "astep cf fut ac AInternal (cancel_at i ac)" "j \<noteq> i \<Longrightarrow> ac_tasks (cancel_at i ac) ! j = ac_tasks ac ! j"
    "length (ac_tasks (cancel_at i ac)) = length (ac_tasks ac)"
proof -
  have "\<not> task_finished (ac_tasks ac ! i)" using assms(2,3) by (cases "ac_tasks ac ! i") (auto simp: task_result_def)
  from astep.cancel[OF id_take_nth_drop[OF assms(1)] this] show "astep cf fut ac AInternal (cancel_at i ac)"
    by (simp add: cancel_at_def upd_conv_take_nth_drop[OF assms(1)])
qed (simp_all add: cancel_at_def)

lemma poll_at_returns:
  assumes "live cf" "async_inv cf ac" "i < length (ac_tasks ac)" "task_result i ac = None" "ac_tasks ac ! i \<noteq> TDropped"
  shows "\<exists>ac'. poll_at cf fut i ac = Some ac'"
proof -
  have "\<not> task_finished (ac_tasks ac ! i)" using assms(4,5) by (cases "ac_tasks ac ! i") (auto simp: task_result_def)
  from poll_step[OF assms(1,2) id_take_nth_drop[OF assms(3)] this, of fut] show ?thesis by (auto simp: poll_at_def yields_def)
qed

section \<open>What a step of a call does to the cache\<close>

definition cache_moves ::
  "('k, 'v) config \<Rightarrow> ('k \<Rightarrow> 'v \<Rightarrow> removal_cause \<Rightarrow> nat \<times> bool) \<Rightarrow> ('k, 'v) async_cache \<Rightarrow> ('k, 'v) async_cache \<Rightarrow> bool" where
  "cache_moves cf fut ac ac' \<longleftrightarrow>
     ac' = ac \<or> (\<exists>a. astep cf fut ac a ac') \<or>
     (\<exists>bc. ac' = ac\<lparr>ac_base := bc\<rparr> \<and> (\<forall>F. bc_inv cf F (ac_base ac) \<longrightarrow> bc_inv cf F bc))"

lemma cache_moves_inv: "live cf \<Longrightarrow> cache_moves cf fut ac ac' \<Longrightarrow> async_inv cf ac \<Longrightarrow> async_inv cf ac'"
  using astep_ok[of cf fut ac _ ac'] async_inv_base[of cf ac] by (auto simp: cache_moves_def)

lemma cache_moves_refl [simp]: "cache_moves cf fut ac ac"
  by (simp add: cache_moves_def)

text \<open>A step leaves alone the tasks that the call does not await.\<close>

definition task_frame ::
  "('k, 'v, 'e) async_thread \<Rightarrow> ('k, 'v, 'e) async_thread \<Rightarrow> ('k, 'v) async_cache \<Rightarrow> ('k, 'v) async_cache \<Rightarrow> bool" where
  "task_frame t t' ac ac' \<longleftrightarrow>
     length (ac_tasks ac) \<le> length (ac_tasks ac') \<and>
     (\<forall>j < length (ac_tasks ac). awaits t \<noteq> Some j \<longrightarrow> ac_tasks ac' ! j = ac_tasks ac ! j) \<and>
     (\<forall>i. awaits t' = Some i \<longrightarrow>
        i < length (ac_tasks ac') \<and> ac_tasks ac' ! i \<noteq> TDropped \<and> (awaits t = Some i \<or> length (ac_tasks ac) \<le> i))"

lemma tasks_ok_step:
  assumes "tasks_ok ac T" "T w = Some t" "task_frame t t' ac ac'"
  shows "tasks_ok ac' (T(w \<mapsto> t'))"
proof -
  have old: "i < length (ac_tasks ac)" "ac_tasks ac ! i \<noteq> TDropped" "x \<noteq> w \<Longrightarrow> awaits t \<noteq> Some i" if "T x = Some u" "awaits u = Some i" for x u i
    using assms(1,2) that unfolding tasks_ok_def by blast+
  show ?thesis
    unfolding tasks_ok_def
  proof (intro conjI allI impI)
    fix x u i assume u: "(T(w \<mapsto> t')) x = Some u" "awaits u = Some i"
    show "i < length (ac_tasks ac')" "ac_tasks ac' ! i \<noteq> TDropped"
      using u old[of x u i] assms(3) by (cases "x = w"; fastforce simp: task_frame_def)+
  next
    fix x u x' u' i assume u: "(T(w \<mapsto> t')) x = Some u" "(T(w \<mapsto> t')) x' = Some u'" "awaits u = Some i" "awaits u' = Some i"
    have own: False if "T y = Some v" "y \<noteq> w" "awaits v = Some i" "awaits t' = Some i" for y v
      using old[of y v i] that assms(3) by (auto simp: task_frame_def)
    have both: "x = x'" if "T x = Some u" "T x' = Some u'" using assms(1) u(3,4) that unfolding tasks_ok_def by blast
    show "x = x'" using u own both by (auto split: if_splits)
  qed
qed

lemma poll_task_not_dropped:
  assumes "poll_task cf fut t ac = Some (ac', t', a)"
  shows "t' \<noteq> TDropped"
proof (cases t)
  case (TRetryNotify call g)
  with assms show ?thesis by (cases "cg_future g"; cases "poll_future (the (cg_future g)) ac") (auto split: if_splits)
next
  case (TNotify g r)
  with assms show ?thesis by (cases "cg_future g"; cases "poll_future (the (cg_future g)) ac") (auto split: if_splits)
qed (use assms in \<open>auto simp: start_call_defs notify_then_send_def Let_def Option.bind_eq_Some_conv
      split: list.splits interrupted_op.splits call.splits prod.splits option.splits if_splits\<close>)

lemma poll_at_frame:
  assumes "poll_at cf fut i ac = Some ac'" "i < length (ac_tasks ac)" "awaits t = Some i" "awaits t' = Some i"
  shows "cache_moves cf fut ac ac'" "task_frame t t' ac ac'"
proof -
  note p = poll_at_step[OF assms(1,2)]
  show "cache_moves cf fut ac ac'" using p(1) by (auto simp: cache_moves_def)
  have "ac_tasks ac' ! i \<noteq> TDropped" using assms(1,2) by (auto simp: poll_at_def Option.bind_eq_Some_conv dest: poll_task_not_dropped)
  then show "task_frame t t' ac ac'" using p(2,3) assms(2-4) by (auto simp: task_frame_def)
qed

lemma spawn_task_frame:
  assumes "spawn_task cf call ac = (ac', i)" "awaits t' = Some i"
  shows "cache_moves cf fut ac ac'" "task_frame t t' ac ac'"
proof -
  have "new_task cf call \<noteq> TDropped" by (simp add: new_task_def)
  with assms astep.spawn[of cf fut ac call] show "cache_moves cf fut ac ac'" "task_frame t t' ac ac'"
    by (auto simp: spawn_task_def cache_moves_def task_frame_def nth_append)
qed

lemma cancel_at_frame:
  assumes "i < length (ac_tasks ac)" "task_result i ac = None" "ac_tasks ac ! i \<noteq> TDropped" "awaits t = Some i" "awaits t' = None"
  shows "cache_moves cf fut ac (cancel_at i ac)" "task_frame t t' ac (cancel_at i ac)"
  using cancel_at_step[OF assms(1-3)] assms(4,5) by (auto simp: cache_moves_def task_frame_def)

lemma task_frame_refl:
  "awaits t' = None \<or> awaits t' = awaits t \<and> (\<forall>i. awaits t = Some i \<longrightarrow> i < length (ac_tasks ac) \<and> ac_tasks ac ! i \<noteq> TDropped) \<Longrightarrow> task_frame t t' ac ac"
  by (auto simp: task_frame_def)

lemma base_frame:
  "awaits t' = None \<Longrightarrow> task_frame t t' ac (ac\<lparr>ac_base := bc\<rparr>)"
  by (auto simp: task_frame_def)

lemma unrecorded_get_moves:
  assumes "live cf" "async_inv cf ac"
  shows "\<exists>bc r. get_with_hash_without_recording cf ign key hash (ac_base ac) = Some (bc, r) \<and> cache_moves cf fut ac (ac\<lparr>ac_base := bc\<rparr>)"
proof -
  have g: "yields (\<lambda>(bc', r). bc_inv cf F bc') (get_with_hash_without_recording cf ign key hash (ac_base ac))" if "bc_inv cf F (ac_base ac)" for F
    using do_get_with_hash_yields[OF that liveD[OF assms(1)], of "\<lambda>op now bc. Some bc" ign key False hash]
    by (fastforce simp: get_with_hash_without_recording_def elim!: yields_mono)
  obtain F where "bc_inv cf F (ac_base ac)" using assms(2) by (auto simp: async_inv_def holding_def)
  from g[OF this] obtain bc r where r: "get_with_hash_without_recording cf ign key hash (ac_base ac) = Some (bc, r)" by (auto simp: yields_def)
  moreover have "bc_inv cf F bc" if "bc_inv cf F (ac_base ac)" for F using g[OF that] r by (simp add: yields_def)
  ultimately show ?thesis by (auto simp: cache_moves_def)
qed

lemma async_init_moves:
  assumes live: "live cf" and inv: "async_inv cf ac"
    and own: "\<And>i. awaits (AInitThread c pc) = Some i \<Longrightarrow> i < length (ac_tasks ac) \<and> ac_tasks ac ! i \<noteq> TDropped"
    and r: "async_init_step cf fut c w pc vi ac = Some (pc', vi', ac')"
  shows "cache_moves cf fut ac ac' \<and> task_frame (AInitThread c pc) (AInitThread c pc') ac ac'"
proof (cases pc)
  case (AInitStart n)
  with r show ?thesis by (auto simp: async_try_insert_waiter_def intro!: task_frame_refl split: option.splits)
next
  case (AInitWait w' n)
  have "awaits (AInitThread c (async_read_waiter E n x)) = None" for E x
    by (cases "(E, n, x)" rule: async_read_waiter.cases) (auto simp: Let_def)
  with r AInitWait show ?thesis by (auto intro!: task_frame_refl split: if_splits)
next
  case AInitGet
  from unrecorded_get_moves[OF live inv, of "ic_ignore_if c" "ic_key c" "cf_hash cf (ic_key c)" fut] obtain bc v where
    "get_with_hash_without_recording cf (ic_ignore_if c) (ic_key c) (cf_hash cf (ic_key c)) (ac_base ac) = Some (bc, v)"
    "cache_moves cf fut ac (ac\<lparr>ac_base := bc\<rparr>)" by blast
  with r AInitGet show ?thesis by (cases v) (auto intro: base_frame)
next
  case (AInitEval n)
  show ?thesis
  proof (cases n)
    case 0
    show ?thesis
    proof (cases "\<exists>v. ic_init c = Some (Inr v)")
      case True
      then obtain v where v: "ic_init c = Some (Inr v)" by blast
      obtain ac1 i where sp: "spawn_task cf (CInsert (ic_key c) v) ac = (ac1, i)" by (cases "spawn_task cf (CInsert (ic_key c) v) ac")
      with r AInitEval 0 v have "pc' = AInitInsert v i" "ac' = ac1" by auto
      with spawn_task_frame(1)[OF sp, of "AInitThread c pc'" fut] spawn_task_frame(2)[OF sp, of "AInitThread c pc'" "AInitThread c pc"] show ?thesis by simp
    next
      case False
      with r AInitEval 0 show ?thesis by (auto intro!: task_frame_refl split: option.splits sum.splits)
    qed
  next
    case (Suc m)
    with r AInitEval show ?thesis by (auto intro!: task_frame_refl)
  qed
next
  case (AInitInsert v i)
  have i: "i < length (ac_tasks ac)" "ac_tasks ac ! i \<noteq> TDropped" using own[of i] AInitInsert by simp_all
  show ?thesis
  proof (cases "task_result i ac")
    case None
    from poll_at_returns[OF live inv i(1) None i(2), of fut] obtain ac1 where p: "poll_at cf fut i ac = Some ac1" by blast
    with r AInitInsert None have "pc' = pc" "ac' = ac1" by auto
    with poll_at_frame[OF p i(1), of "AInitThread c pc" "AInitThread c pc"] AInitInsert show ?thesis by simp
  qed (use r AInitInsert in \<open>auto intro!: task_frame_refl\<close>)
qed (use r in \<open>auto intro!: task_frame_refl\<close>)

lemma await_task_moves:
  assumes live: "live cf" and inv: "async_inv cf ac"
    and i: "i < length (ac_tasks ac)" "ac_tasks ac ! i \<noteq> TDropped"
    and t: "awaits (ACompThread c pc) = Some i" and d: "\<And>r. awaits (ACompThread c (ready r)) = None" "awaits (ACompThread c panicked) = None"
    and r: "await_task cf fut i pc ready panicked ac = (pc', ac')"
  shows "cache_moves cf fut ac ac' \<and> task_frame (ACompThread c pc) (ACompThread c pc') ac ac' \<and>
    ((\<exists>r. pc' = ready r) \<or> pc' = pc)"
proof (cases "task_result i ac")
  case None
  from poll_at_returns[OF live inv i(1) None i(2), of fut] obtain ac1 where p: "poll_at cf fut i ac = Some ac1" by blast
  with r None have "pc' = pc" "ac' = ac1" by (auto simp: await_task_def)
  with poll_at_frame[OF p i(1) t t] show ?thesis by simp
next
  case (Some x)
  with r d(1)[of x] show ?thesis by (auto simp: await_task_def intro!: task_frame_refl)
qed

lemma async_comp_moves:
  assumes live: "live cf" and inv: "async_inv cf ac"
    and own: "\<And>i. awaits (ACompThread c pc) = Some i \<Longrightarrow> i < length (ac_tasks ac) \<and> ac_tasks ac ! i \<noteq> TDropped"
    and r: "async_comp_step cf fut c w pc vi ac = Some (pc', vi', ac')"
  shows "cache_moves cf fut ac ac' \<and> task_frame (ACompThread c pc) (ACompThread c pc') ac ac'"
proof (cases pc)
  case ACompStart
  obtain ac1 i where sp: "spawn_task cf (CGet (acc_key c)) ac = (ac1, i)" by (cases "spawn_task cf (CGet (acc_key c)) ac")
  have "ac' = ac1 \<and> awaits (ACompThread c pc') = Some i \<or> ac' = ac \<and> awaits (ACompThread c pc') = None"
    using r ACompStart sp by (auto simp: async_try_insert_waiter_def Let_def split: option.splits if_splits)
  then show ?thesis
    using spawn_task_frame(1)[OF sp, of "ACompThread c pc'" fut] spawn_task_frame(2)[OF sp, of "ACompThread c pc'" "ACompThread c pc"]
    by (auto intro!: task_frame_refl)
next
  case (ACompWait w')
  with r show ?thesis by (auto intro!: task_frame_refl split: if_splits)
next
  case (ACompPeek i)
  have i: "i < length (ac_tasks ac)" "ac_tasks ac ! i \<noteq> TDropped" using own[of i] ACompPeek by simp_all
  show ?thesis using r ACompPeek
      await_task_moves[OF live inv i, of c pc "\<lambda>r. ACompUnlock (Returned (Inr (unchanged_or_none (acc_key c) r)))" "ACompUnlock Panicked"]
    by (auto split: prod.splits)
next
  case (ACompGet i)
  have i: "i < length (ac_tasks ac)" "ac_tasks ac ! i \<noteq> TDropped" using own[of i] ACompGet by simp_all
  let ?ready = "\<lambda>r. let maybe_entry = map_option (\<lambda>v. entry_new (Some (acc_key c)) v False False) r
      in case acc_f c maybe_entry of Some (n, output) \<Rightarrow> ACompEval n output maybe_entry | None \<Rightarrow> ACompFinish AInitFuturePanicked Panicked"
  obtain pc1 ac1 where a: "await_task cf fut i pc ?ready (ACompFinish AEnclosingFutureAborted Panicked) ac = (pc1, ac1)"
    by (cases "await_task cf fut i pc ?ready (ACompFinish AEnclosingFutureAborted Panicked) ac")
  have "awaits (ACompThread c (?ready x)) = None" for x by (auto simp: Let_def split: option.splits prod.splits)
  from await_task_moves[OF live inv i _ this _ a] r ACompGet a show ?thesis by simp
next
  case (ACompEval n out e)
  show ?thesis
  proof (cases n)
    case 0
    obtain ac1 where "async_comp_op cf c out e ac = (pc', ac1)" "ac' = ac1" using r ACompEval 0 by (auto split: prod.splits)
    then show ?thesis
      using spawn_task_frame[where ac = ac and cf = cf and t' = "ACompThread c pc'" and ac' = ac'] ACompEval
      by (auto simp: async_comp_op_def Let_def intro!: task_frame_refl split: option.splits sum.splits comp_op.splits prod.splits)
  next
    case (Suc m)
    with r ACompEval show ?thesis by (auto intro!: task_frame_refl)
  qed
next
  case (ACompApply op i b)
  have i: "i < length (ac_tasks ac)" "ac_tasks ac ! i \<noteq> TDropped" using own[of i] ACompApply by simp_all
  show ?thesis using r ACompApply
      await_task_moves[OF live inv i, of c pc "\<lambda>r. ACompFinish AReadyNone (Returned (Inr (applied_result (acc_key c) op b r)))"
        "ACompFinish AEnclosingFutureAborted Panicked"]
    by (auto split: prod.splits)
qed (use r in \<open>auto intro!: task_frame_refl\<close>)

section \<open>Every step keeps the protocol\<close>

lemma async_init_waiters:
  assumes inv: "async_waiters_ok vi T" and t: "T w = Some (AInitThread c pc)"
    and r: "async_init_step cf fut c w pc vi ac = Some (pc', vi', ac')"
  shows "async_waiters_ok vi' (T(w \<mapsto> AInitThread c pc'))"
proof -
  note step = async_protocol.protocol_step[OF inv t, of "AInitThread c pc'" "av_waiters vi'" "av_locked vi'" "av_values vi'"]
  have l: "av_locked vi w \<longleftrightarrow> \<not> async_finished (AInitThread c pc)" using async_protocol.protocol_okD(2)[OF inv, of w] t by simp
  have p: "async_phase_ok (AInitThread c pc) (av_values vi w)" by (rule async_protocol.protocol_okD(3)[OF inv t])
  have o: "av_waiters vi (ic_key c, ic_type_id c) = Some w" if "async_owner (AInitThread c pc)"
    using async_protocol.protocol_okD(1)[OF inv, of "(ic_key c, ic_type_id c)" w] t that by simp
  show ?thesis
  proof (cases pc)
    case (AInitStart n)
    then show ?thesis using r step l p
      by (cases "av_waiters vi (ic_key c, ic_type_id c)") (auto simp: async_try_insert_waiter_def fun_eq_iff)
  next
    case (AInitWait w' n)
    then have "vi' = vi" "pc' = async_read_waiter (ic_error_type c) n (av_values vi w')" using r by (auto split: if_splits)
    moreover have "(\<exists>n. pc' = AInitStart n) \<or> (\<exists>r. pc' = AInitUnlock r)"
      using calculation(2) by (cases "(ic_error_type c, n, av_values vi w')" rule: async_read_waiter.cases) (auto simp: Let_def)
    ultimately show ?thesis using step l p AInitWait by (auto simp: fun_eq_iff)
  next
    case AInitGet
    then show ?thesis using r step l p o by (auto simp: fun_eq_iff split: option.splits)
  next
    case (AInitEval n)
    then show ?thesis using r step l p o by (cases n) (auto simp: fun_eq_iff spawn_task_def split: option.splits sum.splits)
  next
    case (AInitInsert v i)
    then show ?thesis using r step l p o by (auto simp: fun_eq_iff split: option.splits)
  next
    case (AInitFinish x res)
    then show ?thesis using r step l p o by (auto simp: fun_eq_iff)
  next
    case (AInitUnlock res)
    then show ?thesis using r step l p by (auto simp: fun_eq_iff)
  next
    case (AInitDone res)
    with r show ?thesis by simp
  qed
qed

lemma async_comp_waiters:
  assumes inv: "async_waiters_ok vi T" and t: "T w = Some (ACompThread c pc)"
    and r: "async_comp_step cf fut c w pc vi ac = Some (pc', vi', ac')"
  shows "async_waiters_ok vi' (T(w \<mapsto> ACompThread c pc'))"
proof -
  note step = async_protocol.protocol_step[OF inv t, of "ACompThread c pc'" "av_waiters vi'" "av_locked vi'" "av_values vi'"]
  have l: "av_locked vi w \<longleftrightarrow> \<not> async_finished (ACompThread c pc)" using async_protocol.protocol_okD(2)[OF inv, of w] t by simp
  have p: "async_phase_ok (ACompThread c pc) (av_values vi w)" by (rule async_protocol.protocol_okD(3)[OF inv t])
  have o: "av_waiters vi (acc_key c, TypeComputeNone) = Some w" if "async_owner (ACompThread c pc)"
    using async_protocol.protocol_okD(1)[OF inv, of "(acc_key c, TypeComputeNone)" w] t that by simp
  show ?thesis
  proof (cases pc)
    case ACompStart
    then show ?thesis using r step l p
      by (cases "av_waiters vi (acc_key c, TypeComputeNone)")
        (auto simp: async_try_insert_waiter_def fun_eq_iff Let_def spawn_task_def split: if_splits)
  next
    case (ACompWait w')
    then show ?thesis using r step l p by (auto simp: fun_eq_iff split: if_splits)
  next
    case (ACompPeek i)
    then show ?thesis using r step l p by (auto simp: fun_eq_iff await_task_def split: option.splits)
  next
    case (ACompGet i)
    then show ?thesis using r step l p o by (auto simp: fun_eq_iff await_task_def Let_def split: option.splits)
  next
    case (ACompEval n out e)
    then show ?thesis using r step l p o
      by (cases n) (auto simp: fun_eq_iff async_comp_op_def Let_def spawn_task_def split: option.splits sum.splits comp_op.splits)
  next
    case (ACompApply op i b)
    then show ?thesis using r step l p o by (auto simp: fun_eq_iff await_task_def split: option.splits)
  next
    case (ACompFinish x res)
    then show ?thesis using r step l p o by (auto simp: fun_eq_iff)
  next
    case (ACompUnlock res)
    then show ?thesis using r step l p by (auto simp: fun_eq_iff)
  next
    case (ACompDone res)
    with r show ?thesis by simp
  qed
qed

text \<open>Dropping a call.\<close>

lemma async_drop_waiters:
  assumes inv: "async_waiters_ok vi T" and t: "T w = Some t" and r: "async_thread_drop t ac = Some (t', ac')"
  shows "async_waiters_ok vi (T(w \<mapsto> t'))"
proof -
  have l: "av_locked vi w \<longleftrightarrow> \<not> async_finished t" using async_protocol.protocol_okD(2)[OF inv, of w] t by simp
  have p: "async_phase_ok t (av_values vi w)" by (rule async_protocol.protocol_okD(3)[OF inv t])
  have o: "av_waiters vi (async_w_key t) = Some w" if "async_owner t"
    using async_protocol.protocol_okD(1)[OF inv, of "async_w_key t" w] t that by simp
  have d: "async_w_key t' = async_w_key t" "async_owner t' = async_owner t" "async_waits_on t' = None" "\<not> async_finished t'" "\<not> async_finished t"
    "async_phase_ok t' (av_values vi w)" "\<not> async_announced t (av_values vi w)"
    using r p by (cases t; auto elim!: async_init_drop.elims async_comp_drop.elims split: if_splits)+
  show ?thesis
    by (rule async_protocol.protocol_step[OF inv t]) (use d l o in \<open>auto simp: fun_eq_iff\<close>)
qed

lemma async_drop_moves:
  assumes r: "async_thread_drop t ac = Some (t', ac')"
    and own: "\<And>i. awaits t = Some i \<Longrightarrow> i < length (ac_tasks ac) \<and> ac_tasks ac ! i \<noteq> TDropped"
  shows "cache_moves cf fut ac ac' \<and> task_frame t t' ac ac'"
proof -
  have "awaits t' = None \<and> (ac' = ac \<or> (\<exists>i. awaits t = Some i \<and> task_result i ac = None \<and> ac' = cancel_at i ac))"
    using r by (cases t) (auto elim!: async_init_drop.elims async_comp_drop.elims split: if_splits)
  then show ?thesis using cancel_at_frame[of _ ac t t'] own by (auto intro: task_frame_refl)
qed

section \<open>The invariant of reachable states\<close>

lemma async_thread_ok:
  assumes inv: "async_calls_inv cf s" and live: "live cf" and t: "as_threads s w = Some t"
    and r: "async_thread_step cf fut w t (as_vi s) (as_cache s) = Some (t', vi, ac)"
  shows "async_waiters_ok vi ((as_threads s)(w \<mapsto> t')) \<and> cache_moves cf fut (as_cache s) ac \<and> task_frame t t' (as_cache s) ac"
proof -
  have i: "async_inv cf (as_cache s)" "async_waiters_ok (as_vi s) (as_threads s)" "tasks_ok (as_cache s) (as_threads s)"
    using inv by (simp_all add: async_calls_inv_def)
  have own: "\<And>i. awaits t = Some i \<Longrightarrow> i < length (ac_tasks (as_cache s)) \<and> ac_tasks (as_cache s) ! i \<noteq> TDropped"
    using i(3) t unfolding tasks_ok_def by blast
  show ?thesis
  proof (cases t)
    case (AInitThread c pc)
    then obtain pc' where s: "async_init_step cf fut c w pc (as_vi s) (as_cache s) = Some (pc', vi, ac)" "t' = AInitThread c pc'" using r by auto
    from async_init_waiters[OF i(2) t[unfolded AInitThread] s(1)] async_init_moves[OF live i(1) own[unfolded AInitThread] s(1)] show ?thesis
      by (simp add: AInitThread s(2))
  next
    case (ACompThread c pc)
    then obtain pc' where s: "async_comp_step cf fut c w pc (as_vi s) (as_cache s) = Some (pc', vi, ac)" "t' = ACompThread c pc'" using r by auto
    from async_comp_waiters[OF i(2) t[unfolded ACompThread] s(1)] async_comp_moves[OF live i(1) own[unfolded ACompThread] s(1)] show ?thesis
      by (simp add: ACompThread s(2))
  qed
qed

lemma async_calls_step_ok:
  assumes step: "async_calls_step cf fut s s'" and inv: "async_calls_inv cf s" and live: "live cf"
  shows "async_calls_inv cf s'"
  using step
proof cases
  case (resume w t t' vi ac)
  from async_thread_ok[OF inv live resume(2,3)] cache_moves_inv[OF live, of fut "as_cache s" ac] tasks_ok_step[of "as_cache s" "as_threads s" w t t' ac] resume(2) inv
  show ?thesis by (simp add: resume(1) async_calls_inv_def)
next
  case (abort w t t' ac)
  have own: "\<And>i. awaits t = Some i \<Longrightarrow> i < length (ac_tasks (as_cache s)) \<and> ac_tasks (as_cache s) ! i \<noteq> TDropped"
    using inv abort(2) unfolding async_calls_inv_def tasks_ok_def by blast
  from async_drop_moves[OF abort(3) own, of cf fut] cache_moves_inv[OF live, of fut "as_cache s" ac] tasks_ok_step[of "as_cache s" "as_threads s" w t t' ac]
    async_drop_waiters[of "as_vi s" "as_threads s" w t "as_cache s" t' ac] abort(2,3) inv
  show ?thesis by (simp add: abort(1) async_calls_inv_def)
next
  case (call_new w t)
  have t: "\<not> async_owner t" "async_waits_on t = None" "\<not> async_finished t" "async_phase_ok t AComputing" "awaits t = None"
    using call_new(3) by (cases t; simp)+
  have "tasks_ok (as_cache s) ((as_threads s)(w \<mapsto> t))" using inv t(5) by (auto simp: async_calls_inv_def tasks_ok_def split: if_splits)
  with inv t call_new async_protocol.protocol_spawn[where T = "as_threads s", of "av_waiters (as_vi s)" "av_locked (as_vi s)" "av_values (as_vi s)" w t AComputing]
  show ?thesis by (simp add: async_calls_inv_def)
next
  case (other_task a ac)
  have t0: "tasks_ok (as_cache s) (as_threads s)" using inv by (simp add: async_calls_inv_def)
  have "i < length (ac_tasks ac) \<and> ac_tasks ac ! i \<noteq> TDropped" if "as_threads s w = Some t" "awaits t = Some i" for w t i
  proof -
    have "i < length (ac_tasks (as_cache s))" "ac_tasks (as_cache s) ! i \<noteq> TDropped" using t0 that unfolding tasks_ok_def by blast+
    with other_task(3) other_task(4)[rule_format, OF that] show ?thesis by simp
  qed
  with t0 have "tasks_ok ac (as_threads s)" unfolding tasks_ok_def by blast
  with inv astep_ok[OF live other_task(2)] show ?thesis by (simp add: other_task(1) async_calls_inv_def)
qed

lemma async_calls_reachable_inv:
  assumes "async_calls_reachable cf fut s" "live cf"
  shows "async_calls_inv cf s"
  using assms(1)
proof induction
  case (async_calls_init kh listener hk_config invalidator_enabled)
  then show ?case using async_inv_new[OF liveD(1)[OF assms(2)]]
    by (simp add: async_calls_inv_def tasks_ok_def async_vi_with_hasher_def async_protocol.protocol_new)
qed (use async_calls_step_ok assms(2) in blast)

end
