(* ===== verification/Async_Results.thy ===== *)
theory Async_Results
  imports Async_Cancel Cache_Lookup
begin

text \<open>
  What the asynchronous cache promises: it is a map that may lose entries, whichever tasks are dropped; resuming
  a task never panics; the next call finishes what dropped tasks have left; a task that runs alone does what the
  synchronous cache does.
\<close>

section \<open>Running a task to its end\<close>

partial_function (option) run_task ::
  "('k, 'v) config \<Rightarrow> ('k \<Rightarrow> 'v \<Rightarrow> removal_cause \<Rightarrow> nat \<times> bool) \<Rightarrow> ('k, 'v) task \<Rightarrow> ('k, 'v) async_cache \<Rightarrow>
    (('k, 'v) async_cache \<times> ('k, 'v) task) or_panic" where
  "run_task cf fut t ac =
     (if task_finished t then Some (ac, t)
      else do { (ac, t, a) \<leftarrow> poll_task cf fut t ac; run_task cf fut t ac })"

lemma run_task_finished [simp]: "task_finished t \<Longrightarrow> run_task cf fut t ac = Some (ac, t)"
  by (subst run_task.simps) simp

lemma run_task_poll:
  "\<not> task_finished t \<Longrightarrow> run_task cf fut t ac = do { (ac, t, a) \<leftarrow> poll_task cf fut t ac; run_task cf fut t ac }"
  by (subst run_task.simps) simp

text \<open>How often a future is to be polled.\<close>

definition polls :: "nat \<Rightarrow> ('k, 'v) async_cache \<Rightarrow> nat" where
  "polls i ac = (case ac_futures ac ! i of Pending n _ \<Rightarrow> Suc n | Completed \<Rightarrow> 0)"

lemma poll_future_polls:
  assumes "poll_future i ac = (ac', ready)" "i < length (ac_futures ac)"
  shows "ac_interrupted_op_ch ac' = ac_interrupted_op_ch ac" "ready \<or> polls i ac' < polls i ac"
  using assms by (auto simp: poll_future_def polls_def split: listener_future.splits nat.splits)

text \<open>A task that waits for a listener gets on to its next state \<open>t'\<close>.\<close>

lemma run_future:
  assumes "holding cf U H ac t" "task_futures t = [i]" "task_futures t' = []" "task_ops t' = task_ops t" "wf_task t'" "\<not> task_finished t"
    and "\<And>ac. poll_task cf fut t ac = (case poll_future i ac of (ac, ready) \<Rightarrow> Some (ac, if ready then t' else t, AInternal))"
  shows "\<exists>ac'. run_task cf fut t ac = run_task cf fut t' ac' \<and> holding cf U H ac' t' \<and>
    ac_interrupted_op_ch ac' = ac_interrupted_op_ch ac"
  using assms(1)
proof (induction "polls i ac" arbitrary: ac rule: less_induct)
  case less
  obtain ac1 ready where p: "poll_future i ac = (ac1, ready)" by (cases "poll_future i ac")
  have i: "i < length (ac_futures ac)" using less.prems assms(2) by (simp add: holding_def)
  have r: "run_task cf fut t ac = run_task cf fut (if ready then t' else t) ac1"
    using run_task_poll[OF assms(6), of cf fut ac] by (simp add: assms(7) p)
  have h: "holding cf U H ac1 (if ready then t' else t)" using yields_poll[OF less.prems assms(2-5)] p by simp
  show ?case
  proof (cases ready)
    case True
    with r h poll_future_polls(1)[OF p i] show ?thesis by auto
  next
    case False
    with less.hyps[of ac1] h r poll_future_polls[OF p i] show ?thesis by auto
  qed
qed

lemma run_send:
  assumes "cg_op g = Some op"
  shows "run_task cf fut (TRetrySend call g) ac =
      do { bc \<leftarrow> schedule_write_op cf op (cg_ts g) (ac_base ac); run_task cf fut (TRetry call) (ac\<lparr>ac_base := bc\<rparr>) }"
    "run_task cf fut (TSend g r) ac =
      do { bc \<leftarrow> schedule_write_op cf op (cg_ts g) (ac_base ac); Some (ac\<lparr>ac_base := bc\<rparr>, TDone r) }"
  using assms by (subst run_task_poll; simp add: guard_defs)+

text \<open>The loop of \<open>retry_interrupted_ops\<close> empties the channel.\<close>

lemma run_retry_send:
  assumes live: "live cf" and h: "holding cf U H ac (TRetrySend call g)"
  shows "\<exists>ac'. run_task cf fut (TRetrySend call g) ac = run_task cf fut (TRetry call) ac' \<and> holding cf U H ac' (TRetry call) \<and>
    ac_interrupted_op_ch ac' = ac_interrupted_op_ch ac"
proof -
  obtain op where op: "cg_op g = Some op" "cg_future g = None" using holding_wf[OF h] by (auto simp: wf_task_def)
  from guarded_schedule_ok[OF live h, of op "TRetry call" "cg_ts g"] op obtain bc where
    "schedule_write_op cf op (cg_ts g) (ac_base ac) = Some bc" "holding cf U H (ac\<lparr>ac_base := bc\<rparr>) (TRetry call)"
    by (auto simp: task_defs yields_def)
  then show ?thesis using run_send(1)[OF op(1), of cf fut call ac] by auto
qed

lemma run_retry:
  assumes live: "live cf" and "holding cf U H ac (TRetry call)"
  shows "\<exists>ac'. run_task cf fut (TRetry call) ac = run_task cf fut (TStart call) ac' \<and> holding cf U H ac' (TStart call) \<and>
    ac_interrupted_op_ch ac' = []"
  using assms(2)
proof (induction "ac_interrupted_op_ch ac" arbitrary: ac)
  case Nil
  then show ?case by (subst run_task_poll) (auto simp: holding_def task_defs)
next
  case (Cons x ch)
  obtain ac1 t1 a where s: "poll_task cf fut (TRetry call) ac = Some (ac1, t1, a)" "holding cf U H ac1 t1"
    using poll_task_ok[OF live Cons.prems, of fut] by (auto simp: yields_def)
  have ch: "ac_interrupted_op_ch ac1 = ch" "(\<exists>g. t1 = TRetrySend call g) \<or> (\<exists>g. t1 = TRetryNotify call g)"
    using s(1) Cons.hyps(2)[symmetric] by (auto split: interrupted_op.splits)
  have r1: "run_task cf fut (TRetry call) ac = run_task cf fut t1 ac1" using s(1) by (subst run_task_poll) simp_all
  obtain ac2 g where g: "run_task cf fut t1 ac1 = run_task cf fut (TRetrySend call g) ac2" "holding cf U H ac2 (TRetrySend call g)"
    "ac_interrupted_op_ch ac2 = ch"
  proof (cases "\<exists>g. t1 = TRetrySend call g")
    case False
    then obtain g where g: "t1 = TRetryNotify call g" using ch(2) by blast
    then obtain i op where i: "cg_future g = Some i" "cg_op g = Some op" using holding_wf[OF s(2)] by (auto simp: wf_task_def)
    have "\<exists>ac'. run_task cf fut t1 ac1 = run_task cf fut (TRetrySend call (unset_future g)) ac' \<and>
        holding cf U H ac' (TRetrySend call (unset_future g)) \<and> ac_interrupted_op_ch ac' = ac_interrupted_op_ch ac1"
      unfolding g by (rule run_future[OF s(2)[unfolded g], of i]) (simp_all add: i task_defs guard_defs)
    with ch(1) that show ?thesis by blast
  qed (use s(2) ch(1) that in blast)
  from run_retry_send[OF live g(2), of fut] g(3) obtain ac3 where
    ac3: "run_task cf fut (TRetrySend call g) ac2 = run_task cf fut (TRetry call) ac3" "holding cf U H ac3 (TRetry call)"
    "ch = ac_interrupted_op_ch ac3" by auto
  from Cons.hyps(1)[OF ac3(3,2)] show ?case using r1 g(1) ac3(1) by auto
qed

lemma run_notify_then_send:
  assumes live: "live cf" and h: "holding cf U H ac t" and t: "(\<exists>g. t = TNotify g r) \<or> (\<exists>g. t = TSend g r)"
  shows "\<exists>ac'. run_task cf fut t ac = Some (ac', TDone r) \<and> holding cf U H ac' (TDone r) \<and>
    ac_interrupted_op_ch ac' = ac_interrupted_op_ch ac"
proof -
  obtain ac1 g where g: "run_task cf fut t ac = run_task cf fut (TSend g r) ac1" "holding cf U H ac1 (TSend g r)"
    "ac_interrupted_op_ch ac1 = ac_interrupted_op_ch ac"
  proof (cases "\<exists>g. t = TSend g r")
    case False
    then obtain g where g: "t = TNotify g r" using t by blast
    then obtain i op where i: "cg_future g = Some i" "cg_op g = Some op" using holding_wf[OF h] by (auto simp: wf_task_def)
    have "\<exists>ac'. run_task cf fut t ac = run_task cf fut (TSend (unset_future g) r) ac' \<and>
        holding cf U H ac' (TSend (unset_future g) r) \<and> ac_interrupted_op_ch ac' = ac_interrupted_op_ch ac"
      unfolding g by (rule run_future[OF h[unfolded g], of i]) (simp_all add: i task_defs guard_defs)
    with that show ?thesis by blast
  qed (use h that in blast)
  obtain op where op: "cg_op g = Some op" "cg_future g = None" using holding_wf[OF g(2)] by (auto simp: wf_task_def)
  from guarded_schedule_ok[OF live g(2), of op "TDone r" "cg_ts g"] op obtain bc where
    "schedule_write_op cf op (cg_ts g) (ac_base ac1) = Some bc" "holding cf U H (ac1\<lparr>ac_base := bc\<rparr>) (TDone r)"
    by (auto simp: task_defs yields_def)
  then show ?thesis using run_send(2)[OF op(1), of cf fut r ac1] g by auto
qed

section \<open>Results\<close>

lemma trace_async_inv:
  assumes "live cf" "trace (astep cf fut) (async_cache_new kh cf l hc b) as ac"
  shows "async_inv cf ac" "atable ac \<subseteq>\<^sub>m contents as"
proof -
  have "live cf \<and> async_inv cf (async_cache_new kh cf l hc b)" using assms(1) async_inv_new liveD(1) by blast
  moreover have "atable (async_cache_new kh cf l hc b) = Map.empty"
    by (simp add: async_cache_new_def base_cache_new_def inner_new_def table_def Let_def)
  ultimately show "async_inv cf ac" "atable ac \<subseteq>\<^sub>m contents as" using async_lossy.trace_contents[OF assms(2)] by blast+
qed

text \<open>C8: The asynchronous cache is a map that may lose entries, whichever tasks are dropped and whenever. An
  insertion takes effect at one step even when its task is dropped later, and every value that the cache has
  is the last one inserted for its key.\<close>

theorem async_refines_lossy_map:
  assumes "live cf" "trace (astep cf fut) (async_cache_new kh cf l hc b) as ac" "astep cf fut ac a ac'"
  shows "lossy_step (table (ac_base ac, [])) a (table (ac_base ac', [])) \<and>
    table (ac_base ac', []) \<subseteq>\<^sub>m contents (as @ [a])"
  using async_lossy.simulates[of cf ac fut a ac'] trace_async_inv[OF assms(1,2)] assms(1,3)
    trace_async_inv(2)[OF assms(1) trace_snoc[OF assms(2,3)]] by blast

text \<open>A cache in which a task has inserted an entry and was dropped before it could tell the policies.\<close>

definition demo_async :: "(nat, nat) async_cache" where
  "demo_async = async_cache_new \<lparr>kh_key = 0, kh_hash = 0\<rparr> demo_config None housekeeper_config_default True"

abbreviation no_fut :: "nat \<Rightarrow> nat \<Rightarrow> removal_cause \<Rightarrow> nat \<times> bool" where
  "no_fut \<equiv> \<lambda>_ _ _. (0, False)"

lemma trace_app: "trace step st as st' \<Longrightarrow> step st' a st'' \<Longrightarrow> bs = as @ [a] \<Longrightarrow> trace step st bs st''"
  by (simp add: trace_snoc)

lemma demo_async_dropped:
  "\<exists>ac op ts. trace (astep demo_config no_fut) demo_async [AInternal, AInternal, AInsert 1 7, AInternal] ac \<and>
     ac_tasks ac = [TDropped] \<and> ac_interrupted_op_ch ac = [SendWriteOp ts op]"
proof -
  let ?bc = "ac_base demo_async"
  obtain s op ts where r: "do_insert_with_hash demo_config 1 (cf_hash demo_config 1) 7 (bc_inner ?bc) = (s, op, ts)"
    by (cases "do_insert_with_hash demo_config 1 (cf_hash demo_config 1) 7 (bc_inner ?bc)") auto
  have d: "in_cache (bc_inner ?bc) 1 = None" "ac_tasks demo_async = []" "ac_interrupted_op_ch demo_async = []" "\<not> is_map_disabled demo_config"
    using liveD(2)[OF demo_live]
    by (simp_all add: demo_async_def async_cache_new_def base_cache_new_def inner_new_def is_map_disabled_def Let_def)
  let ?g = "set_op op (cancel_guard_new ts)"
  let ?a1 = "demo_async\<lparr>ac_tasks := [TRetry (CInsert 1 7)]\<rparr>" and ?a2 = "demo_async\<lparr>ac_tasks := [TStart (CInsert 1 7)]\<rparr>"
  let ?a3 = "demo_async\<lparr>ac_base := ?bc\<lparr>bc_inner := s\<rparr>, ac_tasks := [TSend ?g None]\<rparr>"
  let ?a4 = "?a3\<lparr>ac_interrupted_op_ch := drop_task (TSend ?g None) (ac_interrupted_op_ch ?a3), ac_tasks := [] @ TDropped # []\<rparr>"
  have s1: "astep demo_config no_fut demo_async AInternal ?a1"
    using astep.spawn[of demo_config no_fut demo_async "CInsert 1 7"] d by (simp add: new_task_def)
  have s2: "astep demo_config no_fut ?a1 AInternal ?a2"
    using astep.poll[of ?a1 "[]" "TRetry (CInsert 1 7)" "[]" demo_config no_fut ?a1 "TStart (CInsert 1 7)" AInternal] d by simp
  have s3: "astep demo_config no_fut ?a2 (AInsert 1 7) ?a3"
    using astep.poll[of ?a2 "[]" "TStart (CInsert 1 7)" "[]" demo_config no_fut "demo_async\<lparr>ac_base := ?bc\<lparr>bc_inner := s\<rparr>, ac_tasks := ac_tasks ?a2\<rparr>" "TSend ?g None" "AInsert 1 7"] d r
    by (simp add: start_call_defs notify_then_send_def Let_def)
  have s4: "astep demo_config no_fut ?a3 AInternal ?a4"
    using astep.cancel[of ?a3 "[]" "TSend ?g None" "[]" demo_config no_fut] by simp
  note app = trace_app[where step = "astep demo_config no_fut"]
  have "trace (astep demo_config no_fut) demo_async [AInternal, AInternal, AInsert 1 7, AInternal] ?a4"
    by (rule app[OF app[OF app[OF app[OF trace_Nil s1 refl] s2 refl] s3 refl] s4]) simp
  moreover have "ac_interrupted_op_ch ?a4 = [SendWriteOp ts op]" using d(3) by (simp add: guard_defs)
  ultimately show ?thesis by (intro exI[of _ ?a4] exI[of _ op] exI[of _ ts] conjI) simp_all
qed

lemma async_refines_lossy_map_witness:
  "\<exists>ac ac'. astep demo_config no_fut ac AInternal ac' \<and> ac_interrupted_op_ch ac \<noteq> [] \<and>
     lossy_step (table (ac_base ac, [])) AInternal (table (ac_base ac', []))"
proof -
  obtain ac op ts where ac: "trace (astep demo_config no_fut) demo_async [AInternal, AInternal, AInsert 1 7, AInternal] ac"
    "ac_interrupted_op_ch ac = [SendWriteOp ts op]" using demo_async_dropped by blast
  from async_refines_lossy_map[OF demo_live ac(1)[unfolded demo_async_def] astep.spawn[of _ _ _ CRunPendingTasks]] ac(2) show ?thesis
    using astep.spawn[of demo_config no_fut ac CRunPendingTasks] by fastforce
qed

text \<open>C9: Cancellation loses nothing. When all tasks have returned or were dropped, a call of
  \<open>run_pending_tasks\<close> returns; it finishes every listener that was interrupted, sends every operation that was
  interrupted, and afterwards the entry counter and the nodes of the deques agree with the table, as if no task had
  been dropped.\<close>

theorem async_resumes:
  assumes live: "live cf" and tr: "trace (astep cf fut) (async_cache_new kh cf l hc b) as ac"
    and fin: "\<forall>t \<in> set (ac_tasks ac). task_finished t"
  shows "\<exists>ac' s. run_task cf fut (new_task cf CRunPendingTasks) ac = Some (ac', TDone None) \<and> s = bc_inner (ac_base ac') \<and>
    ac_interrupted_op_ch ac' = [] \<and> set (ac_futures ac') \<subseteq> {Completed} \<and> in_write_op_ch s = [] \<and>
    in_entry_count s = word_of_nat (card (dom (in_cache s))) \<and> ran (st_khds (in_store s)) = ve_info ` ran (in_cache s)"
proof -
  have none: "task_ops t = [] \<and> task_futures t = []" if "t \<in> set (ac_tasks ac)" for t
    using bspec[OF fin that] by (cases t) (simp_all add: task_defs)
  then have "tasks_ops (ac_tasks ac) = {}" "tasks_futures (ac_tasks ac) = []" by (simp_all)
  with trace_async_inv(1)[OF live tr] have "holding cf {} [] ac TDropped" by (simp only: async_inv_def)
  then have "holding cf {} [] ac (TRetry CRunPendingTasks)" by (simp add: holding_def task_defs)
  from run_retry[OF live this, of fut] obtain ac1 where
    r1: "run_task cf fut (TRetry CRunPendingTasks) ac = run_task cf fut (TStart CRunPendingTasks) ac1"
    "holding cf {} [] ac1 (TStart CRunPendingTasks)" "ac_interrupted_op_ch ac1 = []" by blast
  have i1: "bc_inv cf {} (ac_base ac1)" "\<forall>i < length (ac_futures ac1). ac_futures ac1 ! i = Completed"
    using r1(2,3) by (auto simp: holding_def task_defs)
  obtain hk where hk: "bc_housekeeper (ac_base ac1) = Some hk" using i1(1) by (auto simp: bc_inv_def)
  from bc_run_pending_tasks_yields[OF i1(1) hk liveD[OF live]] obtain bc where
    m: "bc_run_pending_tasks cf hk (ac_base ac1) = Some bc" "bc_inv cf {} bc" "in_write_op_ch (bc_inner bc) = []"
    by (auto simp: yields_def)
  then have inv: "inner_inv cf {} (bc_inner bc)" by (simp add: bc_inv_def)
  have "run_task cf fut (TStart CRunPendingTasks) ac1 = Some (ac1\<lparr>ac_base := bc\<rparr>, TDone None)"
    using hk m(1) by (subst run_task_poll) (simp_all add: start_call_defs run_pending_tasks_def)
  moreover have "in_entry_count (bc_inner bc) = word_of_nat (card (dom (in_cache (bc_inner bc))))"
    using inner_invD(6)[OF inv] quiescent_entries(2)[OF inner_invD(2)[OF inv]] by simp
  moreover have "set (ac_futures ac1) \<subseteq> {Completed}" using i1(2) by (auto simp: in_set_conv_nth)
  ultimately show ?thesis
    using r1(1,3) m(3) quiescent_nodes[OF inner_invD(2)[OF inv]] by (simp add: new_task_def)
qed

lemma async_resumes_witness:
  "\<exists>ac ac' op ts. ac_interrupted_op_ch ac = [SendWriteOp ts op] \<and>
     run_task demo_config no_fut (new_task demo_config CRunPendingTasks) ac = Some (ac', TDone None) \<and> ac_interrupted_op_ch ac' = []"
proof -
  obtain ac op ts where ac: "trace (astep demo_config no_fut) demo_async [AInternal, AInternal, AInsert 1 7, AInternal] ac"
    "ac_tasks ac = [TDropped]" "ac_interrupted_op_ch ac = [SendWriteOp ts op]" using demo_async_dropped by blast
  from async_resumes[OF demo_live ac(1)[unfolded demo_async_def]] ac(2,3) show ?thesis by fastforce
qed

text \<open>C17: Resuming a task never panics: in every reachable state of the cache, a task that has not ended gets to its
  next suspension point, whichever other tasks were dropped before.\<close>

theorem async_never_panics:
  assumes "live cf" "trace (astep cf fut) (async_cache_new kh cf l hc b) as ac" "t \<in> set (ac_tasks ac)" "\<not> task_finished t"
  shows "\<exists>ac' t' a. poll_task cf fut t ac = Some (ac', t', a)"
proof -
  obtain us vs where "ac_tasks ac = us @ t # vs" using split_list[OF assms(3)] by blast
  from poll_step[OF assms(1) trace_async_inv(1)[OF assms(1,2)] this assms(4), of fut] show ?thesis by (auto simp: yields_def)
qed

lemma async_never_panics_witness:
  "\<exists>ac' t' a. poll_task demo_config no_fut (TRetry CRunPendingTasks) (demo_async\<lparr>ac_tasks := [TRetry CRunPendingTasks]\<rparr>) = Some (ac', t', a)"
proof -
  have s: "astep demo_config no_fut demo_async AInternal (demo_async\<lparr>ac_tasks := [TRetry CRunPendingTasks]\<rparr>)"
    using astep.spawn[of demo_config no_fut demo_async CRunPendingTasks] by (simp add: new_task_def demo_async_def async_cache_new_def)
  from async_never_panics[OF demo_live trace_app[where step = "astep demo_config no_fut", OF trace_Nil s refl, unfolded demo_async_def], of "TRetry CRunPendingTasks"] show ?thesis
    by (simp add: demo_async_def)
qed

section \<open>A task that runs alone\<close>

definition sync_call :: "('k, 'v) config \<Rightarrow> ('k, 'v) call \<Rightarrow> ('k, 'v) base_cache \<Rightarrow> (('k, 'v) base_cache \<times> 'v option) or_panic" where
  "sync_call cf call bc =
     (case call of
        CInsert key value \<Rightarrow> map_option (\<lambda>bc. (bc, None)) (cache_insert cf key value bc)
      | CInvalidate key need_value \<Rightarrow> invalidate_with_hash cf key (cf_hash cf key) need_value bc
      | CGet key \<Rightarrow> get cf key bc
      | CRunPendingTasks \<Rightarrow> map_option (\<lambda>bc. (bc, None)) (run_pending_tasks cf bc))"

abbreviation on_base :: "(('k, 'v) async_cache \<times> ('k, 'v) task) or_panic \<Rightarrow> (('k, 'v) base_cache \<times> ('k, 'v) task) or_panic" where
  "on_base r \<equiv> map_option (\<lambda>(ac, t). (ac_base ac, t)) r"

abbreviation calm :: "listener_future \<Rightarrow> bool" where
  "calm f \<equiv> \<forall>n. f \<noteq> Pending n True"

lemma run_send_base:
  "cg_op g = Some op \<Longrightarrow>
     on_base (run_task cf fut (TSend g r) ac) = map_option (\<lambda>bc. (bc, TDone r)) (schedule_write_op cf op (cg_ts g) (ac_base ac))"
  by (cases "schedule_write_op cf op (cg_ts g) (ac_base ac)") (simp_all add: run_send(2))

lemma run_calm_future:
  assumes "cg_future g = Some i" "cg_op g = Some op" "i < length (ac_futures ac)" "calm (ac_futures ac ! i)"
  shows "on_base (run_task cf fut (TNotify g r) ac) =
    map_option (\<lambda>bc. (bc, TDone r)) (schedule_write_op cf op (cg_ts g) (ac_base ac))"
  using assms(3,4)
proof (induction "polls i ac" arbitrary: ac rule: less_induct)
  case less
  obtain ac1 ready where p: "poll_future i ac = (ac1, ready)" by (cases "poll_future i ac")
  have r: "run_task cf fut (TNotify g r) ac = run_task cf fut (if ready then TSend (unset_future g) r else TNotify g r) ac1"
    using run_task_poll[of "TNotify g r" cf fut ac] assms(1) by (simp add: p)
  have k: "ac_base ac1 = ac_base ac" "i < length (ac_futures ac1)" "calm (ac_futures ac1 ! i)"
    using p less.prems by (auto simp: poll_future_def split: listener_future.splits nat.splits if_splits)
  show ?case
  proof (cases ready)
    case True
    then show ?thesis using run_send_base[of "unset_future g" op cf fut r ac1] assms(2) by (simp add: r k(1) guard_defs)
  next
    case False
    then show ?thesis using less.hyps[OF _ k(2,3)] poll_future_polls(2)[OF p less.prems(1)] by (simp add: r k(1))
  qed
qed

lemma run_after_change:
  assumes "notify_then_send fut notified op ts r s ac = (ac1, t1)" "\<forall>k v c. \<not> snd (fut k v c)"
  shows "on_base (run_task cf fut t1 ac1) = map_option (\<lambda>bc. (bc, TDone r)) (schedule_write_op cf op ts ((ac_base ac)\<lparr>bc_inner := s\<rparr>))"
proof (cases notified)
  case True
  let ?f = "listener_future_new fut (in_removal_notifier (bc_inner (ac_base ac))) (in_removal_notifier s)"
  have "calm ?f" using assms(2) by (auto simp: listener_future_new_def split: option.splits prod.splits) (metis snd_conv)
  with True assms(1) run_calm_future[of "set_future_and_op (length (ac_futures ac)) op (cancel_guard_new ts)" "length (ac_futures ac)" op
      "ac\<lparr>ac_base := (ac_base ac)\<lparr>bc_inner := s\<rparr>, ac_futures := ac_futures ac @ [?f]\<rparr>" cf fut r]
  show ?thesis by (auto simp: notify_then_send_def Let_def guard_defs)
next
  case False
  with assms(1) run_send_base[of "set_op op (cancel_guard_new ts)" op cf fut r "ac\<lparr>ac_base := (ac_base ac)\<lparr>bc_inner := s\<rparr>\<rparr>"]
  show ?thesis by (auto simp: notify_then_send_def Let_def guard_defs)
qed

text \<open>C16: Inserting, invalidating and reading with the asynchronous cache does what the synchronous cache does, although its
  bodies are written differently: when the channel of interrupted operations is empty and the futures of the
  listener do not panic, a call that runs to its end, with no other task in between, has the result and the effect on
  the cache of the same call of the synchronous cache, however often it was suspended.\<close>

theorem async_alone_is_sync:
  assumes ch: "ac_interrupted_op_ch ac = []" and calm: "\<forall>k v c. \<not> snd (fut k v c)" and op: "call \<noteq> CRunPendingTasks"
  shows "map_option (\<lambda>(ac', t). (ac_base ac', t)) (run_task cf fut (new_task cf call) ac) =
    map_option (\<lambda>(bc, r). (bc, TDone r)) (sync_call cf call (ac_base ac))"
proof (cases "new_task cf call = TRetry call")
  case False
  then show ?thesis by (auto simp: new_task_def sync_call_def cache_insert_def insert_with_hash_def get_def get_with_hash_def do_get_with_hash_def split: call.splits if_splits)
next
  case True
  have r: "run_task cf fut (TRetry call) ac = do { (ac, t, a) \<leftarrow> start_call cf fut call ac; run_task cf fut t ac }"
    using ch by (simp add: run_task_poll)
  have "on_base (do { (ac, t, a) \<leftarrow> start_call cf fut call ac; run_task cf fut t ac }) =
      map_option (\<lambda>(bc, r). (bc, TDone r)) (sync_call cf call (ac_base ac))"
  proof (cases call)
    case (CInsert key v)
    have "\<not> is_map_disabled cf" using True CInsert by (auto simp: new_task_def)
    moreover obtain s op ts where i: "do_insert_with_hash cf key (cf_hash cf key) v (bc_inner (ac_base ac)) = (s, op, ts)"
      by (cases "do_insert_with_hash cf key (cf_hash cf key) v (bc_inner (ac_base ac))") auto
    ultimately show ?thesis
      by (auto simp: CInsert start_call_defs sync_call_def cache_insert_def insert_with_hash_def Let_def run_after_change[OF _ calm] option.map_comp comp_def
          split: prod.splits)
  next
    case (CInvalidate key nv)
    obtain s x where "begin_invalidate cf key (bc_inner (ac_base ac)) = (s, x)" by (cases "begin_invalidate cf key (bc_inner (ac_base ac))")
    then show ?thesis
      by (cases x) (auto simp: CInvalidate start_call_defs sync_call_def invalidate_with_hash_def Let_def run_after_change[OF _ calm]
          bind_Some_map option.map_comp comp_def split: prod.splits)
  next
    case (CGet key)
    then show ?thesis by (cases "get cf key (ac_base ac)") (auto simp: start_call_defs sync_call_def)
  qed (use op in simp)
  then show ?thesis unfolding True r .
qed

lemma async_alone_is_sync_witness:
  "map_option (\<lambda>(ac', t). (ac_base ac', t)) (run_task demo_config no_fut (new_task demo_config (CInsert 1 7)) demo_async) =
     map_option (\<lambda>(bc, r). (bc, TDone r)) (sync_call demo_config (CInsert 1 7) (ac_base demo_async))"
  by (rule async_alone_is_sync) (simp_all add: demo_async_def async_cache_new_def)

end
