(* ===== verification/Async_Init_Results.thy ===== *)
theory Async_Init_Results
  imports Async_Init_Protocol Async_Results Init_Results
begin

text \<open>
  What the calls of the asynchronous cache that compute missing values promise, whichever of them are dropped.
\<close>

section \<open>Calls for the examples\<close>

text \<open>Two tasks call \<open>get_with\<close>; the future of the first one is pending once.\<close>

definition async_demo_call :: "(nat, nat, nat) async_init_call" where
  "async_demo_call =
     \<lparr>ic_key = 1, ic_type_id = type_id_for_get_with, ic_error_type = TypeUnit, ic_ignore_if = None,
      ic_init = Some (post_init_for_get_with 7), ac_polls = 1\<rparr>"

definition two_async ::
  "(nat, nat, nat) async_vi \<Rightarrow> (nat, nat) base_cache \<Rightarrow> (nat, nat) async_init_pc \<Rightarrow> (nat, nat) async_init_pc \<Rightarrow>
    (nat, nat, nat) async_calls" where
  "two_async vi bc p q =
     \<lparr>as_vi = vi, as_cache = demo_async\<lparr>ac_base := bc\<rparr>,
      as_threads = [0 \<mapsto> AInitThread async_demo_call p, 1 \<mapsto> AInitThread async_demo_call q]\<rparr>"

lemma demo_async_base: "demo_async\<lparr>ac_base := demo_cache\<rparr> = demo_async"
  by (simp add: demo_async_def demo_cache_def async_cache_new_def)

lemma two_async_start:
  "async_calls_reachable demo_config no_fut
     (two_async (async_new_waiter 1 (async_new_waiter 0 async_vi_with_hasher)) demo_cache (AInitStart 0) (AInitStart 0))"
proof -
  let ?t = "AInitThread async_demo_call (AInitStart 0)"
  let ?s0 = "\<lparr>as_vi = async_vi_with_hasher, as_cache = demo_async, as_threads = Map.empty\<rparr> :: (nat, nat, nat) async_calls"
  let ?s1 = "?s0\<lparr>as_vi := async_new_waiter 0 async_vi_with_hasher, as_threads := [0 \<mapsto> ?t]\<rparr>"
  have i: "async_initial ?t" by (simp add: async_demo_call_def type_id_for_get_with_def)
  have s0: "async_calls_reachable demo_config no_fut ?s0" unfolding demo_async_def by (rule async_calls_init)
  have "async_calls_step demo_config no_fut ?s0 ?s1"
    using async_calls_step.call_new[of ?s0 0 ?t demo_config no_fut] i by simp
  from async_calls_next[OF s0 this] have s1: "async_calls_reachable demo_config no_fut ?s1" .
  have "async_calls_step demo_config no_fut ?s1
      (two_async (async_new_waiter 1 (async_new_waiter 0 async_vi_with_hasher)) demo_cache (AInitStart 0) (AInitStart 0))"
    using async_calls_step.call_new[of ?s1 1 ?t demo_config no_fut] i demo_async_base by (simp add: two_async_def)
  from async_calls_next[OF s1 this] show ?thesis .
qed

lemma two_async_run:
  assumes "async_calls_reachable demo_config no_fut (two_async vi bc p q)"
  shows "async_init_step demo_config no_fut async_demo_call 0 p vi (demo_async\<lparr>ac_base := bc\<rparr>) = Some (p', vi', demo_async\<lparr>ac_base := bc'\<rparr>) \<Longrightarrow>
      async_calls_reachable demo_config no_fut (two_async vi' bc' p' q)"
    and "async_init_step demo_config no_fut async_demo_call 1 q vi (demo_async\<lparr>ac_base := bc\<rparr>) = Some (q', vi', demo_async\<lparr>ac_base := bc'\<rparr>) \<Longrightarrow>
      async_calls_reachable demo_config no_fut (two_async vi' bc' p q')"
    and "async_init_drop p (demo_async\<lparr>ac_base := bc\<rparr>) = Some (p', demo_async\<lparr>ac_base := bc\<rparr>) \<Longrightarrow>
      async_calls_reachable demo_config no_fut (two_async vi bc p' q)"
proof -
  note nxt = async_calls_next[OF assms]
  show "async_calls_reachable demo_config no_fut (two_async vi' bc' p' q)"
    if "async_init_step demo_config no_fut async_demo_call 0 p vi (demo_async\<lparr>ac_base := bc\<rparr>) = Some (p', vi', demo_async\<lparr>ac_base := bc'\<rparr>)"
    using nxt[OF async_calls_step.resume[of "two_async vi bc p q" 0 "AInitThread async_demo_call p" demo_config no_fut
        "AInitThread async_demo_call p'" vi' "demo_async\<lparr>ac_base := bc'\<rparr>"]] that
    by (simp add: two_async_def fun_upd_twist)
  show "async_calls_reachable demo_config no_fut (two_async vi' bc' p q')"
    if "async_init_step demo_config no_fut async_demo_call 1 q vi (demo_async\<lparr>ac_base := bc\<rparr>) = Some (q', vi', demo_async\<lparr>ac_base := bc'\<rparr>)"
    using nxt[OF async_calls_step.resume[of "two_async vi bc p q" 1 "AInitThread async_demo_call q" demo_config no_fut
        "AInitThread async_demo_call q'" vi' "demo_async\<lparr>ac_base := bc'\<rparr>"]] that
    by (simp add: two_async_def)
  show "async_calls_reachable demo_config no_fut (two_async vi bc p' q)"
    if "async_init_drop p (demo_async\<lparr>ac_base := bc\<rparr>) = Some (p', demo_async\<lparr>ac_base := bc\<rparr>)"
    using nxt[OF async_calls_step.abort[of "two_async vi bc p q" 0 "AInitThread async_demo_call p"
        "AInitThread async_demo_call p'" "demo_async\<lparr>ac_base := bc\<rparr>" demo_config no_fut]] that
    by (simp add: two_async_def fun_upd_twist)
qed

definition async_met_vi :: "(nat, nat, nat) async_vi" where
  "async_met_vi = (async_new_waiter 1 (async_new_waiter 0 async_vi_with_hasher))\<lparr>av_waiters := [(1, TypeUnit) \<mapsto> 0]\<rparr>"

definition async_aborted_vi :: "(nat, nat, nat) async_vi" where
  "async_aborted_vi = async_unlock_waiter 0 (finish_waiter (1, TypeUnit) 0 AEnclosingFutureAborted async_met_vi)"

lemmas async_demo_defs = async_demo_call_def type_id_for_get_with_def post_init_for_get_with_def

text \<open>The first call gets the waiter, the second one waits for it, and the first one is dropped while it evaluates its future.\<close>

lemma two_async_first:
  "async_calls_reachable demo_config no_fut (two_async async_met_vi demo_cache AInitGet (AInitStart 0))"
  by (rule two_async_run(1)[OF two_async_start])
    (simp add: async_demo_defs async_try_insert_waiter_def async_met_vi_def async_vi_with_hasher_def)

lemma two_async_met:
  "async_calls_reachable demo_config no_fut (two_async async_met_vi demo_cache AInitGet (AInitWait 0 0))"
  by (rule two_async_run(2)[OF two_async_first]) (simp add: async_demo_defs async_try_insert_waiter_def async_met_vi_def)

lemma two_async_aborted:
  "\<exists>bc. async_calls_reachable demo_config no_fut (two_async async_aborted_vi bc (AInitDone Dropped) (AInitWait 0 0))"
proof -
  obtain bc where bc: "get_with_hash_without_recording demo_config None 1 (cf_hash demo_config 1) demo_cache = Some (bc, None)"
    using demo_miss by blast
  have "async_calls_reachable demo_config no_fut (two_async async_met_vi bc (AInitEval 1) (AInitWait 0 0))"
    by (rule two_async_run(1)[OF two_async_met]) (use bc in \<open>simp add: async_demo_defs\<close>)
  then have "async_calls_reachable demo_config no_fut (two_async async_met_vi bc (AInitFinish AEnclosingFutureAborted Dropped) (AInitWait 0 0))"
    by (rule two_async_run(3)) simp
  then have "async_calls_reachable demo_config no_fut
      (two_async (finish_waiter (1, TypeUnit) 0 AEnclosingFutureAborted async_met_vi) bc (AInitUnlock Dropped) (AInitWait 0 0))"
    by (rule two_async_run(1)) (simp add: async_demo_defs)
  then have "async_calls_reachable demo_config no_fut (two_async async_aborted_vi bc (AInitDone Dropped) (AInitWait 0 0))"
    by (rule two_async_run(1)) (simp add: async_aborted_vi_def)
  then show ?thesis by blast
qed

section \<open>Results\<close>

text \<open>C13: Of the calls of the asynchronous cache for the same key and of the same kind, that is with the same type identifier, at
  most one is computing, whichever calls were dropped before: it alone looks into the cache for the value, awaits its
  future and writes the cache. Calls of different kinds do not exclude each other. While the call \<open>w\<close> is computing, it
  holds the lock of the waiter that is in the map, and a call of the kind that starts goes to wait for \<open>w\<close>, or, if it
  is one of \<open>and_try_compute_if_nobody_else\<close>, gives up and only reads the entry to return it.\<close>

theorem async_init_exclusive:
  assumes "async_calls_reachable cf fut s" "live cf" "as_threads s w = Some t" "as_threads s w' = Some t'"
    and "w \<noteq> w'" "async_w_key t' = async_w_key t" "async_owner t"
  shows "\<not> async_owner t' \<and> av_waiters (as_vi s) (async_w_key t) = Some w \<and> av_locked (as_vi s) w \<and>
    (\<forall>c n. t' = AInitThread c (AInitStart n) \<longrightarrow>
       async_init_step cf fut c w' (AInitStart n) (as_vi s) (as_cache s) = Some (AInitWait w n, as_vi s, as_cache s)) \<and>
    (\<forall>c. t' = ACompThread c ACompStart \<longrightarrow>
       (\<exists>i ac. async_comp_step cf fut c w' ACompStart (as_vi s) (as_cache s) =
          Some (if acc_if_nobody_else c then (ACompPeek i, as_vi s, ac) else (ACompWait w, as_vi s, as_cache s))))"
proof -
  have "async_waiters_ok (as_vi s) (as_threads s)" using async_calls_reachable_inv[OF assms(1,2)] by (simp add: async_calls_inv_def)
  from async_protocol.protocol_owned[OF this assms(3,7,4,6,5)] assms(6) show ?thesis
    by (auto simp: async_try_insert_waiter_def spawn_task_def)
qed

lemma async_init_exclusive_witness:
  "async_init_step demo_config no_fut async_demo_call 1 (AInitStart 0) async_met_vi (demo_async\<lparr>ac_base := demo_cache\<rparr>) =
     Some (AInitWait 0 0, async_met_vi, demo_async\<lparr>ac_base := demo_cache\<rparr>)"
  using async_init_exclusive[OF two_async_first demo_live, of 0 "AInitThread async_demo_call AInitGet" 1 "AInitThread async_demo_call (AInitStart 0)"]
  by (simp add: two_async_def)

text \<open>C14: A call that has waited finds the call that it waited for ended, of the same key. It returns that call's
  value or error; when that call has panicked or was dropped, it starts again, unless it has done so 199 times
  already, in which case it panics. It never finds one of the states that the code takes to be unexpected.\<close>

theorem async_takes_over:
  assumes reach: "async_calls_reachable cf fut s" and live: "live cf"
    and t: "as_threads s w = Some (AInitThread c (AInitWait w' n))"
    and r: "async_init_step cf fut c w (AInitWait w' n) (as_vi s) (as_cache s) = Some (pc', vi', ac')"
  shows "\<exists>c' out. as_threads s w' = Some (AInitThread c' (AInitDone out)) \<and> ic_key c' = ic_key c \<and> ic_type_id c' = ic_type_id c \<and>
    (case out of
       Returned (Initialized v) \<Rightarrow> pc' = AInitUnlock (Returned (ReadExisting v))
     | Returned (ReadExisting v) \<Rightarrow> pc' = AInitUnlock (Returned (ReadExisting v))
     | Returned (InitErr e) \<Rightarrow> pc' = AInitUnlock (if ic_error_type c' = ic_error_type c then Returned (InitErr e) else Panicked)
     | _ \<Rightarrow> pc' = (if n + 1 < MAX_RETRIES then AInitStart (n + 1) else AInitUnlock Panicked))"
proof -
  have ok: "async_waiters_ok (as_vi s) (as_threads s)" using async_calls_reachable_inv[OF reach live] by (simp add: async_calls_inv_def)
  have u: "\<not> av_locked (as_vi s) w'" "pc' = async_read_waiter (ic_error_type c) n (av_values (as_vi s) w')" using r by (auto split: if_splits)
  have "async_waits_on (AInitThread c (AInitWait w' n)) = Some w'" by simp
  from async_protocol.protocol_announced[OF ok t this u(1)] obtain t' where
    t': "as_threads s w' = Some t'" "async_w_key t' = (ic_key c, ic_type_id c)" "async_announced t' (av_values (as_vi s) w')" by auto
  have fin: "async_finished t'" using async_protocol.protocol_okD(2)[OF ok, of w'] u(1) t'(1) by simp
  have "ic_type_id c \<noteq> TypeComputeNone" using async_protocol.protocol_okD(3)[OF ok t] by simp
  with t'(2,3) fin obtain c' out where c': "t' = AInitThread c' (AInitDone out)" "ic_key c' = ic_key c" "ic_type_id c' = ic_type_id c"
    "async_announces (ic_error_type c') (av_values (as_vi s) w') out"
    by (cases t') (auto split: async_init_pc.splits)
  have "case out of
       Returned (Initialized v) \<Rightarrow> pc' = AInitUnlock (Returned (ReadExisting v))
     | Returned (ReadExisting v) \<Rightarrow> pc' = AInitUnlock (Returned (ReadExisting v))
     | Returned (InitErr e) \<Rightarrow> pc' = AInitUnlock (if ic_error_type c' = ic_error_type c then Returned (InitErr e) else Panicked)
     | _ \<Rightarrow> pc' = (if n + 1 < MAX_RETRIES then AInitStart (n + 1) else AInitUnlock Panicked)"
    using c'(4) unfolding u(2)
    by (cases "(ic_error_type c', av_values (as_vi s) w', out)" rule: async_announces.cases)
      (auto simp: downcast_def Let_def split: outcome.splits init_result.splits)
  with t'(1) c' show ?thesis by blast
qed

lemma async_takes_over_witness:
  "\<exists>s bc. s = two_async async_aborted_vi bc (AInitDone Dropped) (AInitWait 0 0) \<and> async_calls_reachable demo_config no_fut s \<and>
     async_init_step demo_config no_fut async_demo_call 1 (AInitWait 0 0) (as_vi s) (as_cache s) = Some (AInitStart 1, as_vi s, as_cache s)"
proof -
  obtain bc where bc: "async_calls_reachable demo_config no_fut (two_async async_aborted_vi bc (AInitDone Dropped) (AInitWait 0 0))"
    using two_async_aborted by blast
  let ?s = "two_async async_aborted_vi bc (AInitDone Dropped) (AInitWait 0 0)"
  have st: "async_init_step demo_config no_fut async_demo_call 1 (AInitWait 0 0) (as_vi ?s) (as_cache ?s) =
      Some (async_read_waiter TypeUnit 0 (av_values async_aborted_vi 0), as_vi ?s, as_cache ?s)"
    by (simp add: two_async_def async_aborted_vi_def async_demo_defs)
  have th: "as_threads ?s 1 = Some (AInitThread async_demo_call (AInitWait 0 0))" by (simp add: two_async_def)
  from async_takes_over[OF bc demo_live th st] have e: "async_read_waiter TypeUnit 0 (av_values async_aborted_vi 0) = AInitStart 1"
    by (auto simp: two_async_def MAX_RETRIES_def)
  from st[unfolded e] bc show ?thesis by blast
qed

text \<open>Only the lock of a waiter holds a call up.\<close>

lemma async_thread_resumes:
  assumes "\<not> async_finished t" "\<forall>y. async_waits_on t = Some y \<longrightarrow> \<not> av_locked vi y"
  shows "async_thread_step cf fut x t vi ac \<noteq> None"
proof (cases t)
  case (AInitThread c pc)
  then have "async_init_step cf fut c x pc vi ac \<noteq> None"
    using assms by (cases "(cf, fut, c, x, pc, vi, ac)" rule: async_init_step.cases) (auto split: prod.splits)
  with AInitThread show ?thesis by simp
next
  case (ACompThread c pc)
  then have "async_comp_step cf fut c x pc vi ac \<noteq> None"
    using assms by (cases "(cf, fut, c, x, pc, vi, ac)" rule: async_comp_step.cases) (auto split: prod.splits option.splits)
  with ACompThread show ?thesis by simp
qed

text \<open>C15: Calls never block each other for ever, and dropped calls leave nothing behind. A call that has not ended can
  be resumed, or it waits for a call that can be. When all calls have ended or were dropped, no waiter is in the
  map and none is locked.\<close>

theorem async_calls_progress:
  assumes reach: "async_calls_reachable cf fut s" and live: "live cf"
  shows "(as_threads s w = Some t \<longrightarrow> \<not> async_finished t \<longrightarrow>
      async_thread_step cf fut w t (as_vi s) (as_cache s) \<noteq> None \<or>
      (\<exists>w' t'. async_waits_on t = Some w' \<and> as_threads s w' = Some t' \<and> async_thread_step cf fut w' t' (as_vi s) (as_cache s) \<noteq> None)) \<and>
    ((\<forall>t \<in> ran (as_threads s). async_finished t) \<longrightarrow> av_waiters (as_vi s) = Map.empty \<and> (\<forall>w. \<not> av_locked (as_vi s) w))"
proof (intro conjI impI)
  have ok: "async_waiters_ok (as_vi s) (as_threads s)" using async_calls_reachable_inv[OF reach live] by (simp add: async_calls_inv_def)
  note runs = async_thread_resumes[where vi = "as_vi s" and ac = "as_cache s" and cf = cf and fut = fut]
  show "async_thread_step cf fut w t (as_vi s) (as_cache s) \<noteq> None \<or>
      (\<exists>w' t'. async_waits_on t = Some w' \<and> as_threads s w' = Some t' \<and> async_thread_step cf fut w' t' (as_vi s) (as_cache s) \<noteq> None)"
    if t: "as_threads s w = Some t" "\<not> async_finished t"
  proof (cases "\<exists>y. async_waits_on t = Some y \<and> av_locked (as_vi s) y")
    case True
    then obtain y where y: "async_waits_on t = Some y" "av_locked (as_vi s) y" by blast
    from async_protocol.protocol_no_deadlock[OF ok t(1) y(1)] y obtain t' where
      "as_threads s y = Some t'" "async_waits_on t' = None" "\<not> async_finished t'" by auto
    with y(1) runs[of t' y] show ?thesis by auto
  next
    case False
    with t(2) runs[of t w] show ?thesis by blast
  qed
  show "av_waiters (as_vi s) = Map.empty" if "\<forall>t \<in> ran (as_threads s). async_finished t"
    by (rule async_protocol.protocol_released(1)[OF ok that])
  show "\<forall>w. \<not> av_locked (as_vi s) w" if "\<forall>t \<in> ran (as_threads s). async_finished t"
    using async_protocol.protocol_released(2)[OF ok that] by blast
qed

lemma async_calls_progress_witness:
  "\<exists>s :: (nat, nat, nat) async_calls. as_threads s 1 = Some (AInitThread async_demo_call (AInitWait 0 0)) \<and>
     async_thread_step demo_config no_fut 0 (AInitThread async_demo_call AInitGet) (as_vi s) (as_cache s) \<noteq> None"
  using async_calls_progress[OF two_async_met demo_live, of 1 "AInitThread async_demo_call (AInitWait 0 0)"]
  by (intro exI[of _ "two_async async_met_vi demo_cache AInitGet (AInitWait 0 0)"]) (auto simp: two_async_def async_met_vi_def)

end
