(* ===== verification/Async_Calls.thy ===== *)
theory Async_Calls
  imports Async_Init
begin

text \<open>
  The functions of the asynchronous cache that compute missing values: the \<open>get_with\<close> family of
  \<open>src/src/future/cache.rs\<close> and the entry selectors of \<open>src/src/future/entry_selector.rs\<close>.

  A function looks the key up, after the interrupted operations were retried; it yields the entry, or goes on with a
  call of \<open>try_init_or_read\<close>. A future of the caller is the number of polls for which it is pending, together with
  its result, \<open>None\<close> when it panics.
\<close>

type_synonym 'a future = "nat \<times> 'a or_panic"

section \<open>Calls\<close>

definition async_insert_with_hash_and_fun ::
  "'k \<Rightarrow> 'v future \<Rightarrow> ('v \<Rightarrow> bool) option \<Rightarrow> ('k, 'v, 'e) async_init_call" where
  "async_insert_with_hash_and_fun key init replace_if =
     \<lparr>ic_key = key, ic_type_id = type_id_for_get_with, ic_error_type = TypeUnit, ic_ignore_if = replace_if,
      ic_init = map_option post_init_for_get_with (snd init), ac_polls = fst init\<rparr>"

definition async_insert_with_hash_and_fun_result ::
  "'k \<Rightarrow> bool \<Rightarrow> ('v, 'e) init_result \<Rightarrow> ('k, 'v) entry or_panic" where
  "async_insert_with_hash_and_fun_result key need_key r =
     (let k = (if need_key then Some key else None)
      in case r of
           Initialized v \<Rightarrow> Some (entry_new k v True False)
         | ReadExisting v \<Rightarrow> Some (entry_new k v False False)
         | InitErr e \<Rightarrow> None)"

definition async_optionally_insert_with_hash_and_fun ::
  "'e \<Rightarrow> 'k \<Rightarrow> 'v option future \<Rightarrow> ('k, 'v, 'e) async_init_call" where
  "async_optionally_insert_with_hash_and_fun optionally_none key init =
     \<lparr>ic_key = key, ic_type_id = type_id_for_optionally_get_with, ic_error_type = TypeArcOptionallyNone, ic_ignore_if = None,
      ic_init = map_option (post_init_for_optionally_get_with optionally_none) (snd init), ac_polls = fst init\<rparr>"

definition async_optionally_insert_with_hash_and_fun_result ::
  "'k \<Rightarrow> bool \<Rightarrow> ('v, 'e) init_result \<Rightarrow> ('k, 'v) entry option" where
  "async_optionally_insert_with_hash_and_fun_result key need_key r =
     (let k = (if need_key then Some key else None)
      in case r of
           Initialized v \<Rightarrow> Some (entry_new k v True False)
         | ReadExisting v \<Rightarrow> Some (entry_new k v False False)
         | InitErr e \<Rightarrow> None)"

definition async_try_insert_with_hash_and_fun :: "type_id \<Rightarrow> 'k \<Rightarrow> ('e + 'v) future \<Rightarrow> ('k, 'v, 'e) async_init_call" where
  "async_try_insert_with_hash_and_fun E key init =
     \<lparr>ic_key = key, ic_type_id = type_id_for_try_get_with E, ic_error_type = E, ic_ignore_if = None,
      ic_init = map_option post_init_for_try_get_with (snd init), ac_polls = fst init\<rparr>"

definition async_try_insert_with_hash_and_fun_result ::
  "'k \<Rightarrow> bool \<Rightarrow> ('v, 'e) init_result \<Rightarrow> 'e + ('k, 'v) entry" where
  "async_try_insert_with_hash_and_fun_result key need_key r =
     (let k = (if need_key then Some key else None)
      in case r of
           Initialized v \<Rightarrow> Inr (entry_new k v True False)
         | ReadExisting v \<Rightarrow> Inr (entry_new k v False False)
         | InitErr e \<Rightarrow> Inl e)"

definition async_get_or_insert_with_hash_and_fun ::
  "('k, 'v) config \<Rightarrow> 'k \<Rightarrow> 'v future \<Rightarrow> ('v \<Rightarrow> bool) option \<Rightarrow> bool \<Rightarrow> ('k, 'v) base_cache \<Rightarrow>
    (('k, 'v) base_cache \<times> (('k, 'v) entry + ('k, 'v, 'e) async_init_call)) or_panic" where
  "async_get_or_insert_with_hash_and_fun cf key init replace_if need_key bc =
     do { (bc, e) \<leftarrow> async_get_with_hash cf replace_if need_key True key (cf_hash cf key) bc;
          Some (bc, case e of Some e \<Rightarrow> Inl e | None \<Rightarrow> Inr (async_insert_with_hash_and_fun key init replace_if)) }"

definition async_get_or_optionally_insert_with_hash_and_fun ::
  "('k, 'v) config \<Rightarrow> 'e \<Rightarrow> 'k \<Rightarrow> 'v option future \<Rightarrow> bool \<Rightarrow> ('k, 'v) base_cache \<Rightarrow>
    (('k, 'v) base_cache \<times> (('k, 'v) entry + ('k, 'v, 'e) async_init_call)) or_panic" where
  "async_get_or_optionally_insert_with_hash_and_fun cf optionally_none key init need_key bc =
     do { (bc, e) \<leftarrow> async_get_with_hash cf None need_key True key (cf_hash cf key) bc;
          Some (bc, case e of Some e \<Rightarrow> Inl e
                    | None \<Rightarrow> Inr (async_optionally_insert_with_hash_and_fun optionally_none key init)) }"

definition async_get_or_try_insert_with_hash_and_fun ::
  "('k, 'v) config \<Rightarrow> type_id \<Rightarrow> 'k \<Rightarrow> ('e + 'v) future \<Rightarrow> bool \<Rightarrow> ('k, 'v) base_cache \<Rightarrow>
    (('k, 'v) base_cache \<times> (('k, 'v) entry + ('k, 'v, 'e) async_init_call)) or_panic" where
  "async_get_or_try_insert_with_hash_and_fun cf E key init need_key bc =
     do { (bc, e) \<leftarrow> async_get_with_hash cf None need_key True key (cf_hash cf key) bc;
          Some (bc, case e of Some e \<Rightarrow> Inl e | None \<Rightarrow> Inr (async_try_insert_with_hash_and_fun E key init)) }"

text \<open>\<open>or_insert\<close> and \<open>or_default\<close> insert without a waiter; \<open>Inr\<close> is the value that the task \<open>insert_with_hash\<close> inserts and the entry
  that is returned then.\<close>

definition async_get_or_insert_with_hash ::
  "('k, 'v) config \<Rightarrow> 'k \<Rightarrow> 'v or_panic \<Rightarrow> ('k, 'v) base_cache \<Rightarrow>
    (('k, 'v) base_cache \<times> (('k, 'v) entry + ('k, 'v) call \<times> ('k, 'v) entry)) or_panic" where
  "async_get_or_insert_with_hash cf key init bc =
     do { (bc, e) \<leftarrow> async_get_with_hash cf None True True key (cf_hash cf key) bc;
          case e of
            Some e \<Rightarrow> Some (bc, Inl e)
          | None \<Rightarrow> do { v \<leftarrow> init; Some (bc, Inr (CInsert key v, entry_new (Some key) v True False)) } }"

definition async_get_or_insert_with_hash_by_ref_and_fun ::
  "('k, 'v) config \<Rightarrow> 'k \<Rightarrow> 'v future \<Rightarrow> ('v \<Rightarrow> bool) option \<Rightarrow> bool \<Rightarrow> ('k, 'v) base_cache \<Rightarrow>
    (('k, 'v) base_cache \<times> (('k, 'v) entry + ('k, 'v, 'e) async_init_call)) or_panic" where
  "async_get_or_insert_with_hash_by_ref_and_fun cf key init replace_if need_key bc =
     do { (bc, e) \<leftarrow> async_get_with_hash cf replace_if need_key True key (cf_hash cf key) bc;
          Some (bc, case e of Some e \<Rightarrow> Inl e | None \<Rightarrow> Inr (async_insert_with_hash_and_fun key init replace_if)) }"

definition async_get_or_optionally_insert_with_hash_by_ref_and_fun ::
  "('k, 'v) config \<Rightarrow> 'e \<Rightarrow> 'k \<Rightarrow> 'v option future \<Rightarrow> bool \<Rightarrow> ('k, 'v) base_cache \<Rightarrow>
    (('k, 'v) base_cache \<times> (('k, 'v) entry + ('k, 'v, 'e) async_init_call)) or_panic" where
  "async_get_or_optionally_insert_with_hash_by_ref_and_fun cf optionally_none key init need_key bc =
     do { (bc, e) \<leftarrow> async_get_with_hash cf None need_key True key (cf_hash cf key) bc;
          Some (bc, case e of Some e \<Rightarrow> Inl e
                    | None \<Rightarrow> Inr (async_optionally_insert_with_hash_and_fun optionally_none key init)) }"

definition async_get_or_try_insert_with_hash_by_ref_and_fun ::
  "('k, 'v) config \<Rightarrow> type_id \<Rightarrow> 'k \<Rightarrow> ('e + 'v) future \<Rightarrow> bool \<Rightarrow> ('k, 'v) base_cache \<Rightarrow>
    (('k, 'v) base_cache \<times> (('k, 'v) entry + ('k, 'v, 'e) async_init_call)) or_panic" where
  "async_get_or_try_insert_with_hash_by_ref_and_fun cf E key init need_key bc =
     do { (bc, e) \<leftarrow> async_get_with_hash cf None need_key True key (cf_hash cf key) bc;
          Some (bc, case e of Some e \<Rightarrow> Inl e | None \<Rightarrow> Inr (async_try_insert_with_hash_and_fun E key init)) }"

text \<open>\<open>or_insert\<close> and \<open>or_default\<close> insert without a waiter; \<open>Inr\<close> is the value that the task \<open>insert_with_hash\<close> inserts and the entry
  that is returned then.\<close>

definition async_get_or_insert_with_hash_by_ref ::
  "('k, 'v) config \<Rightarrow> 'k \<Rightarrow> 'v or_panic \<Rightarrow> ('k, 'v) base_cache \<Rightarrow>
    (('k, 'v) base_cache \<times> (('k, 'v) entry + ('k, 'v) call \<times> ('k, 'v) entry)) or_panic" where
  "async_get_or_insert_with_hash_by_ref cf key init bc =
     do { (bc, e) \<leftarrow> async_get_with_hash cf None True True key (cf_hash cf key) bc;
          case e of
            Some e \<Rightarrow> Some (bc, Inl e)
          | None \<Rightarrow> do { v \<leftarrow> init; Some (bc, Inr (CInsert key v, entry_new (Some key) v True False)) } }"

definition async_compute_with_hash_and_fun ::
  "'k \<Rightarrow> (('k, 'v) entry option \<Rightarrow> 'v comp_op future or_panic) \<Rightarrow> ('k, 'v, 'e) async_comp_call" where
  "async_compute_with_hash_and_fun key f =
     \<lparr>acc_key = key, acc_f = (\<lambda>e. map_option (map_prod id (map_option post_init_for_compute_with)) (f e)), acc_allow_nop = True,
      acc_if_nobody_else = False\<rparr>"

definition async_try_compute_with_hash_and_fun ::
  "'k \<Rightarrow> (('k, 'v) entry option \<Rightarrow> ('e + 'v comp_op) future or_panic) \<Rightarrow> ('k, 'v, 'e) async_comp_call" where
  "async_try_compute_with_hash_and_fun key f =
     \<lparr>acc_key = key, acc_f = (\<lambda>e. map_option (map_prod id (map_option post_init_for_try_compute_with)) (f e)), acc_allow_nop = True,
      acc_if_nobody_else = False\<rparr>"

definition async_try_compute_if_nobody_else_with_hash_and_fun ::
  "'k \<Rightarrow> (('k, 'v) entry option \<Rightarrow> ('e + 'v comp_op) future or_panic) \<Rightarrow> ('k, 'v, 'e) async_comp_call" where
  "async_try_compute_if_nobody_else_with_hash_and_fun key f =
     \<lparr>acc_key = key, acc_f = (\<lambda>e. map_option (map_prod id (map_option post_init_for_try_compute_with)) (f e)), acc_allow_nop = True,
      acc_if_nobody_else = True\<rparr>"

definition async_upsert_with_hash_and_fun ::
  "'k \<Rightarrow> (('k, 'v) entry option \<Rightarrow> 'v future or_panic) \<Rightarrow> ('k, 'v, 'e) async_comp_call" where
  "async_upsert_with_hash_and_fun key f =
     \<lparr>acc_key = key, acc_f = (\<lambda>e. map_option (map_prod id (map_option post_init_for_upsert_with)) (f e)), acc_allow_nop = False,
      acc_if_nobody_else = False\<rparr>"

definition async_compute_with_hash_and_fun_result :: "'e + ('k, 'v) comp_result \<Rightarrow> ('k, 'v) comp_result or_panic" where
  "async_compute_with_hash_and_fun_result r = (case r of Inr result \<Rightarrow> Some result | Inl _ \<Rightarrow> None)"

definition async_upsert_with_hash_and_fun_result :: "'e + ('k, 'v) comp_result \<Rightarrow> ('k, 'v) entry or_panic" where
  "async_upsert_with_hash_and_fun_result r =
     (case r of Inr (Inserted e) \<Rightarrow> Some e | Inr (ReplacedWith e) \<Rightarrow> Some e | _ \<Rightarrow> None)"

section \<open>Entry selectors\<close>

definition async_and_compute_with :: "'k entry_selector \<Rightarrow> (('k, 'v) entry option \<Rightarrow> 'v comp_op future or_panic) \<Rightarrow> ('k, 'v, 'e) async_comp_call" where
  "async_and_compute_with sel f = async_compute_with_hash_and_fun (sel_key sel) f"

definition async_and_try_compute_with :: "'k entry_selector \<Rightarrow> (('k, 'v) entry option \<Rightarrow> ('e + 'v comp_op) future or_panic) \<Rightarrow> ('k, 'v, 'e) async_comp_call" where
  "async_and_try_compute_with sel f = async_try_compute_with_hash_and_fun (sel_key sel) f"

definition async_and_try_compute_if_nobody_else :: "'k entry_selector \<Rightarrow> (('k, 'v) entry option \<Rightarrow> ('e + 'v comp_op) future or_panic) \<Rightarrow> ('k, 'v, 'e) async_comp_call" where
  "async_and_try_compute_if_nobody_else sel f = async_try_compute_if_nobody_else_with_hash_and_fun (sel_key sel) f"

definition async_and_upsert_with :: "'k entry_selector \<Rightarrow> (('k, 'v) entry option \<Rightarrow> 'v future or_panic) \<Rightarrow> ('k, 'v, 'e) async_comp_call" where
  "async_and_upsert_with sel f = async_upsert_with_hash_and_fun (sel_key sel) f"

definition async_or_insert ::
  "('k, 'v) config \<Rightarrow> 'k entry_selector \<Rightarrow> 'v \<Rightarrow> ('k, 'v) base_cache \<Rightarrow>
    (('k, 'v) base_cache \<times> (('k, 'v) entry + ('k, 'v) call \<times> ('k, 'v) entry)) or_panic" where
  "async_or_insert cf sel v bc = async_get_or_insert_with_hash cf (sel_key sel) (Some v) bc"

definition async_or_insert_with ::
  "('k, 'v) config \<Rightarrow> 'k entry_selector \<Rightarrow> 'v future \<Rightarrow> ('k, 'v) base_cache \<Rightarrow>
    (('k, 'v) base_cache \<times> (('k, 'v) entry + ('k, 'v, 'e) async_init_call)) or_panic" where
  "async_or_insert_with cf sel init bc = async_get_or_insert_with_hash_and_fun cf (sel_key sel) init None True bc"

definition async_or_insert_with_if ::
  "('k, 'v) config \<Rightarrow> 'k entry_selector \<Rightarrow> 'v future \<Rightarrow> ('v \<Rightarrow> bool) \<Rightarrow> ('k, 'v) base_cache \<Rightarrow>
    (('k, 'v) base_cache \<times> (('k, 'v) entry + ('k, 'v, 'e) async_init_call)) or_panic" where
  "async_or_insert_with_if cf sel init replace_if bc =
     async_get_or_insert_with_hash_and_fun cf (sel_key sel) init (Some replace_if) True bc"

definition async_or_optionally_insert_with ::
  "('k, 'v) config \<Rightarrow> 'e \<Rightarrow> 'k entry_selector \<Rightarrow> 'v option future \<Rightarrow> ('k, 'v) base_cache \<Rightarrow>
    (('k, 'v) base_cache \<times> (('k, 'v) entry + ('k, 'v, 'e) async_init_call)) or_panic" where
  "async_or_optionally_insert_with cf optionally_none sel init bc =
     async_get_or_optionally_insert_with_hash_and_fun cf optionally_none (sel_key sel) init True bc"

definition async_or_try_insert_with ::
  "('k, 'v) config \<Rightarrow> type_id \<Rightarrow> 'k entry_selector \<Rightarrow> ('e + 'v) future \<Rightarrow> ('k, 'v) base_cache \<Rightarrow>
    (('k, 'v) base_cache \<times> (('k, 'v) entry + ('k, 'v, 'e) async_init_call)) or_panic" where
  "async_or_try_insert_with cf E sel init bc = async_get_or_try_insert_with_hash_and_fun cf E (sel_key sel) init True bc"

definition async_ref_and_compute_with :: "'k entry_selector \<Rightarrow> (('k, 'v) entry option \<Rightarrow> 'v comp_op future or_panic) \<Rightarrow> ('k, 'v, 'e) async_comp_call" where
  "async_ref_and_compute_with sel f = async_compute_with_hash_and_fun (sel_key sel) f"

definition async_ref_and_try_compute_with :: "'k entry_selector \<Rightarrow> (('k, 'v) entry option \<Rightarrow> ('e + 'v comp_op) future or_panic) \<Rightarrow> ('k, 'v, 'e) async_comp_call" where
  "async_ref_and_try_compute_with sel f = async_try_compute_with_hash_and_fun (sel_key sel) f"

definition async_ref_and_try_compute_if_nobody_else :: "'k entry_selector \<Rightarrow> (('k, 'v) entry option \<Rightarrow> ('e + 'v comp_op) future or_panic) \<Rightarrow> ('k, 'v, 'e) async_comp_call" where
  "async_ref_and_try_compute_if_nobody_else sel f = async_try_compute_if_nobody_else_with_hash_and_fun (sel_key sel) f"

definition async_ref_and_upsert_with :: "'k entry_selector \<Rightarrow> (('k, 'v) entry option \<Rightarrow> 'v future or_panic) \<Rightarrow> ('k, 'v, 'e) async_comp_call" where
  "async_ref_and_upsert_with sel f = async_upsert_with_hash_and_fun (sel_key sel) f"

definition async_ref_or_insert ::
  "('k, 'v) config \<Rightarrow> 'k entry_selector \<Rightarrow> 'v \<Rightarrow> ('k, 'v) base_cache \<Rightarrow>
    (('k, 'v) base_cache \<times> (('k, 'v) entry + ('k, 'v) call \<times> ('k, 'v) entry)) or_panic" where
  "async_ref_or_insert cf sel v bc = async_get_or_insert_with_hash_by_ref cf (sel_key sel) (Some v) bc"

definition async_ref_or_insert_with ::
  "('k, 'v) config \<Rightarrow> 'k entry_selector \<Rightarrow> 'v future \<Rightarrow> ('k, 'v) base_cache \<Rightarrow>
    (('k, 'v) base_cache \<times> (('k, 'v) entry + ('k, 'v, 'e) async_init_call)) or_panic" where
  "async_ref_or_insert_with cf sel init bc = async_get_or_insert_with_hash_by_ref_and_fun cf (sel_key sel) init None True bc"

definition async_ref_or_insert_with_if ::
  "('k, 'v) config \<Rightarrow> 'k entry_selector \<Rightarrow> 'v future \<Rightarrow> ('v \<Rightarrow> bool) \<Rightarrow> ('k, 'v) base_cache \<Rightarrow>
    (('k, 'v) base_cache \<times> (('k, 'v) entry + ('k, 'v, 'e) async_init_call)) or_panic" where
  "async_ref_or_insert_with_if cf sel init replace_if bc =
     async_get_or_insert_with_hash_by_ref_and_fun cf (sel_key sel) init (Some replace_if) True bc"

definition async_ref_or_optionally_insert_with ::
  "('k, 'v) config \<Rightarrow> 'e \<Rightarrow> 'k entry_selector \<Rightarrow> 'v option future \<Rightarrow> ('k, 'v) base_cache \<Rightarrow>
    (('k, 'v) base_cache \<times> (('k, 'v) entry + ('k, 'v, 'e) async_init_call)) or_panic" where
  "async_ref_or_optionally_insert_with cf optionally_none sel init bc =
     async_get_or_optionally_insert_with_hash_by_ref_and_fun cf optionally_none (sel_key sel) init True bc"

definition async_ref_or_try_insert_with ::
  "('k, 'v) config \<Rightarrow> type_id \<Rightarrow> 'k entry_selector \<Rightarrow> ('e + 'v) future \<Rightarrow> ('k, 'v) base_cache \<Rightarrow>
    (('k, 'v) base_cache \<times> (('k, 'v) entry + ('k, 'v, 'e) async_init_call)) or_panic" where
  "async_ref_or_try_insert_with cf E sel init bc = async_get_or_try_insert_with_hash_by_ref_and_fun cf E (sel_key sel) init True bc"

section \<open>The methods of the cache\<close>

definition async_get_with ::
  "('k, 'v) config \<Rightarrow> 'k \<Rightarrow> 'v future \<Rightarrow> ('k, 'v) base_cache \<Rightarrow> (('k, 'v) base_cache \<times> (('k, 'v) entry + ('k, 'v, 'e) async_init_call)) or_panic" where
  "async_get_with cf key init bc = async_get_or_insert_with_hash_and_fun cf key init None False bc"

definition async_optionally_get_with ::
  "('k, 'v) config \<Rightarrow> 'e \<Rightarrow> 'k \<Rightarrow> 'v option future \<Rightarrow> ('k, 'v) base_cache \<Rightarrow> (('k, 'v) base_cache \<times> (('k, 'v) entry + ('k, 'v, 'e) async_init_call)) or_panic" where
  "async_optionally_get_with cf optionally_none key init bc =
     async_get_or_optionally_insert_with_hash_and_fun cf optionally_none key init False bc"

definition async_try_get_with ::
  "('k, 'v) config \<Rightarrow> type_id \<Rightarrow> 'k \<Rightarrow> ('e + 'v) future \<Rightarrow> ('k, 'v) base_cache \<Rightarrow> (('k, 'v) base_cache \<times> (('k, 'v) entry + ('k, 'v, 'e) async_init_call)) or_panic" where
  "async_try_get_with cf E key init bc = async_get_or_try_insert_with_hash_and_fun cf E key init False bc"

definition async_get_with_by_ref ::
  "('k, 'v) config \<Rightarrow> 'k \<Rightarrow> 'v future \<Rightarrow> ('k, 'v) base_cache \<Rightarrow> (('k, 'v) base_cache \<times> (('k, 'v) entry + ('k, 'v, 'e) async_init_call)) or_panic" where
  "async_get_with_by_ref cf key init bc = async_get_or_insert_with_hash_by_ref_and_fun cf key init None False bc"

definition async_optionally_get_with_by_ref ::
  "('k, 'v) config \<Rightarrow> 'e \<Rightarrow> 'k \<Rightarrow> 'v option future \<Rightarrow> ('k, 'v) base_cache \<Rightarrow> (('k, 'v) base_cache \<times> (('k, 'v) entry + ('k, 'v, 'e) async_init_call)) or_panic" where
  "async_optionally_get_with_by_ref cf optionally_none key init bc =
     async_get_or_optionally_insert_with_hash_by_ref_and_fun cf optionally_none key init False bc"

definition async_try_get_with_by_ref ::
  "('k, 'v) config \<Rightarrow> type_id \<Rightarrow> 'k \<Rightarrow> ('e + 'v) future \<Rightarrow> ('k, 'v) base_cache \<Rightarrow> (('k, 'v) base_cache \<times> (('k, 'v) entry + ('k, 'v, 'e) async_init_call)) or_panic" where
  "async_try_get_with_by_ref cf E key init bc = async_get_or_try_insert_with_hash_by_ref_and_fun cf E key init False bc"

definition async_get_with_if ::
  "('k, 'v) config \<Rightarrow> 'k \<Rightarrow> 'v future \<Rightarrow> ('v \<Rightarrow> bool) \<Rightarrow> ('k, 'v) base_cache \<Rightarrow> (('k, 'v) base_cache \<times> (('k, 'v) entry + ('k, 'v, 'e) async_init_call)) or_panic" where
  "async_get_with_if cf key init replace_if bc = async_get_or_insert_with_hash_and_fun cf key init (Some replace_if) False bc"

section \<open>Comparison with the synchronous cache\<close>

text \<open>A call without the number of polls of its future.\<close>

definition forget_polls :: "(('k, 'v) base_cache \<times> (('k, 'v) entry + ('k, 'v, 'e) async_init_call)) or_panic \<Rightarrow>
    (('k, 'v) base_cache \<times> (('k, 'v) entry + ('k, 'v, 'e) init_call)) or_panic" where
  "forget_polls r = map_option (map_prod id (map_sum id init_call.truncate)) r"

lemma async_get_with_hash_recorded: "async_get_with_hash cf ignore_if need_key True = get_with_hash_and_ignore_if cf ignore_if need_key"
  by (simp add: fun_eq_iff async_get_with_hash_eq get_with_hash_and_ignore_if_def)

lemma forget_polls_bind:
  "forget_polls (do { (bc, e) \<leftarrow> r; Some (bc, case e of Some e \<Rightarrow> Inl e | None \<Rightarrow> Inr c) }) =
     do { (bc, e) \<leftarrow> r; Some (bc, case e of Some e \<Rightarrow> Inl e | None \<Rightarrow> Inr (init_call.truncate c)) }"
  by (cases r) (auto simp: forget_polls_def split: prod.splits option.splits)

lemma truncate_calls:
  "init_call.truncate (async_insert_with_hash_and_fun key init replace_if) = insert_with_hash_and_fun key (snd init) replace_if"
  "init_call.truncate (async_optionally_insert_with_hash_and_fun optionally_none key init') = optionally_insert_with_hash_and_fun optionally_none key (snd init')"
  "init_call.truncate (async_try_insert_with_hash_and_fun E key init'') = try_insert_with_hash_and_fun E key (snd init'')"
  by (simp_all add: init_call.defs async_insert_with_hash_and_fun_def insert_with_hash_and_fun_def
      async_optionally_insert_with_hash_and_fun_def optionally_insert_with_hash_and_fun_def
      async_try_insert_with_hash_and_fun_def try_insert_with_hash_and_fun_def)

lemmas async_family =
  async_get_with_def async_get_with_by_ref_def async_get_with_if_def async_optionally_get_with_def async_optionally_get_with_by_ref_def
  async_try_get_with_def async_try_get_with_by_ref_def
  async_get_or_insert_with_hash_and_fun_def async_get_or_insert_with_hash_by_ref_and_fun_def
  async_get_or_optionally_insert_with_hash_and_fun_def async_get_or_optionally_insert_with_hash_by_ref_and_fun_def
  async_get_or_try_insert_with_hash_and_fun_def async_get_or_try_insert_with_hash_by_ref_and_fun_def

lemmas sync_family =
  get_with_def get_with_by_ref_def get_with_if_def optionally_get_with_def optionally_get_with_by_ref_def try_get_with_def try_get_with_by_ref_def
  get_or_insert_with_hash_and_fun_def get_or_insert_with_hash_by_ref_and_fun_def
  get_or_optionally_insert_with_hash_and_fun_def get_or_optionally_insert_with_hash_by_ref_and_fun_def
  get_or_try_insert_with_hash_and_fun_def get_or_try_insert_with_hash_by_ref_and_fun_def
  get_with_hash_def get_with_hash_and_ignore_if_def

text \<open>The \<open>get_with\<close> family of the asynchronous cache finds what the one of the synchronous cache finds, and goes on with
  the same call of the value initializer, but for the polls of the future.\<close>

theorem async_get_with_as_sync:
  "forget_polls (async_get_with cf key init bc) = get_with cf key (snd init) bc \<and>
   forget_polls (async_get_with_by_ref cf key init bc) = get_with_by_ref cf key (snd init) bc \<and>
   forget_polls (async_get_with_if cf key init replace_if bc) = get_with_if cf key (snd init) replace_if bc \<and>
   forget_polls (async_optionally_get_with cf optionally_none key init' bc) = optionally_get_with cf optionally_none key (snd init') bc \<and>
   forget_polls (async_try_get_with cf E key init'' bc) = try_get_with cf E key (snd init'') bc \<and>
   forget_polls (async_try_get_with_by_ref cf E key init'' bc) = try_get_with_by_ref cf E key (snd init'') bc"
  unfolding async_family sync_family async_get_with_hash_recorded forget_polls_bind truncate_calls by (intro conjI refl)

text \<open>Unlike the synchronous cache, the asynchronous one passes \<open>need_key\<close> on when the key is a reference.\<close>

lemma async_try_insert_by_ref_as_owned: "async_ref_or_try_insert_with cf E sel init bc = async_or_try_insert_with cf E sel init bc"
  by (simp add: async_ref_or_try_insert_with_def async_or_try_insert_with_def async_family)

end
