(* ===== verification/Async_Housekeeper.thy ===== *)
theory Async_Housekeeper
  imports Cache_Lookup
begin

text \<open>
  The housekeeper of the asynchronous cache (\<open>src/src/future/housekeeper.rs\<close>). It keeps the future of the maintenance run that
  is under way in \<open>current_task\<close>, a mutex, so that a run survives when the call that drives it is dropped: the next call
  resumes it.

  The fields that it shares with the synchronous housekeeper are in \<open>ah_base\<close>; \<open>hk_run_lock\<close> there is the mutex. The cache is
  given by \<open>start\<close>, which makes the future of a maintenance run, and \<open>poll\<close>, which resumes one: the future is
  pending (\<open>Inl\<close>) or ready (\<open>Inr\<close>), and \<open>None\<close> is a panic. \<open>MaintFuture\<close> and \<open>maint_poll\<close> are those of the cache.
\<close>

section \<open>Calls as machines\<close>

record 'f async_housekeeper =
  ah_base :: housekeeper
  ah_current_task :: "'f option"

definition async_housekeeper_new :: "bool \<Rightarrow> housekeeper_config \<Rightarrow> instant \<Rightarrow> 'f async_housekeeper" where
  "async_housekeeper_new is_eviction_listener_enabled config now =
     \<lparr>ah_base = housekeeper_new is_eviction_listener_enabled config now, ah_current_task = None\<rparr>"

definition async_should_apply_reads :: "'f async_housekeeper \<Rightarrow> nat \<Rightarrow> instant \<Rightarrow> bool or_panic" where
  "async_should_apply_reads ah ch_len now = should_apply_reads (ah_base ah) ch_len now"

definition async_should_apply_writes :: "'f async_housekeeper \<Rightarrow> nat \<Rightarrow> instant \<Rightarrow> bool or_panic" where
  "async_should_apply_writes ah ch_len now = should_apply_writes (ah_base ah) ch_len now"

text \<open>A call of \<open>try_run_pending_tasks\<close> or of \<open>run_pending_tasks\<close>, before it has the mutex; while it awaits the maintenance run,
  which it has found or made at \<open>now\<close>; at its end, with the result.\<close>

datatype hk_call =
    HkTry
  | HkLock
  | HkAwait instant
  | HkDone bool
  | HkDropped

definition set_run_lock :: "bool \<Rightarrow> 'f async_housekeeper \<Rightarrow> 'f async_housekeeper" where
  "set_run_lock held ah = ah\<lparr>ah_base := (ah_base ah)\<lparr>hk_run_lock := held\<rparr>\<rparr>"

text \<open>\<open>do_run_pending_tasks\<close> up to its \<open>await\<close>, with the mutex.\<close>

definition begin_run :: "(duration option \<Rightarrow> u32 \<Rightarrow> u32 \<Rightarrow> 'f) \<Rightarrow> 'f async_housekeeper \<Rightarrow> 'f async_housekeeper" where
  "begin_run start ah =
     (let hk = ah_base ah
      in set_run_lock True
           (case ah_current_task ah of
              Some task \<Rightarrow> ah
            | None \<Rightarrow>
                ah\<lparr>ah_current_task := Some (start (hk_maintenance_task_timeout hk) (hk_max_log_sync_repeats hk) (hk_eviction_batch_size hk))\<rparr>))"

text \<open>What follows it; the mutex is released.\<close>

definition end_run :: "instant \<Rightarrow> bool \<Rightarrow> 'f async_housekeeper \<Rightarrow> 'f async_housekeeper" where
  "end_run now more_to_evict ah =
     (let hk = (ah_base ah)\<lparr>hk_run_after := set_instant (hk_run_after (ah_base ah)) (sync_after now)\<rparr>
      in set_run_lock False (ah\<lparr>ah_current_task := None, ah_base := set_more_entries_to_evict more_to_evict hk\<rparr>))"

fun hk_call_step ::
  "(duration option \<Rightarrow> u32 \<Rightarrow> u32 \<Rightarrow> 'f) \<Rightarrow> ('f \<Rightarrow> 's \<Rightarrow> ('s \<times> ('f + bool)) or_panic) \<Rightarrow> instant \<Rightarrow> hk_call \<Rightarrow>
    'f async_housekeeper \<Rightarrow> 's \<Rightarrow> (hk_call \<times> 'f async_housekeeper \<times> 's) option" where
  "hk_call_step start poll now HkTry ah s =
     Some (if hk_run_lock (ah_base ah) then (HkDone False, ah, s) else (HkAwait now, begin_run start ah, s))"
| "hk_call_step start poll now HkLock ah s =
     (if hk_run_lock (ah_base ah) then None else Some (HkAwait now, begin_run start ah, s))"
| "hk_call_step start poll now (HkAwait t) ah s =
     do { task \<leftarrow> ah_current_task ah;
          (s, r) \<leftarrow> poll task s;
          Some (case r of
                  Inl task \<Rightarrow> (HkAwait t, ah\<lparr>ah_current_task := Some task\<rparr>, s)
                | Inr more_to_evict \<Rightarrow> (HkDone True, end_run t more_to_evict ah, s)) }"
| "hk_call_step start poll now (HkDone r) ah s = None"
| "hk_call_step start poll now HkDropped ah s = None"

text \<open>Dropping a call: the guard of the mutex is dropped, the maintenance run stays where it is.\<close>

fun hk_call_drop :: "hk_call \<Rightarrow> 'f async_housekeeper \<Rightarrow> 'f async_housekeeper" where
  "hk_call_drop (HkAwait t) ah = set_run_lock False ah"
| "hk_call_drop pc ah = ah"

text \<open>Calls and operations of other tasks in any order.\<close>

inductive hk_reachable ::
  "(duration option \<Rightarrow> u32 \<Rightarrow> u32 \<Rightarrow> 'f) \<Rightarrow> ('f \<Rightarrow> 's \<Rightarrow> ('s \<times> ('f + bool)) or_panic) \<Rightarrow>
    'f async_housekeeper \<Rightarrow> 's \<Rightarrow> hk_call list \<Rightarrow> bool" for start poll where
  hk_init: "hk_reachable start poll (async_housekeeper_new l config now) s []"
| hk_spawn: "hk_reachable start poll ah s pcs \<Longrightarrow> pc \<in> {HkTry, HkLock} \<Longrightarrow> hk_reachable start poll ah s (pcs @ [pc])"
| hk_step: "hk_reachable start poll ah s (us @ pc # vs) \<Longrightarrow> hk_call_step start poll now pc ah s = Some (pc', ah', s') \<Longrightarrow>
    hk_reachable start poll ah' s' (us @ pc' # vs)"
| hk_drop: "hk_reachable start poll ah s (us @ pc # vs) \<Longrightarrow>
    hk_reachable start poll (hk_call_drop pc ah) s (us @ HkDropped # vs)"
| hk_other: "hk_reachable start poll ah s pcs \<Longrightarrow> hk_reachable start poll ah s' pcs"

text \<open>A call that runs alone to its end, and a maintenance run that does.\<close>

partial_function (option) run_hk_call ::
  "(duration option \<Rightarrow> u32 \<Rightarrow> u32 \<Rightarrow> 'f) \<Rightarrow> ('f \<Rightarrow> 's \<Rightarrow> ('s \<times> ('f + bool)) or_panic) \<Rightarrow> instant \<Rightarrow> hk_call \<Rightarrow>
    'f async_housekeeper \<Rightarrow> 's \<Rightarrow> (hk_call \<times> 'f async_housekeeper \<times> 's) option" where
  "run_hk_call start poll now pc ah s =
     (case pc of
        HkDone r \<Rightarrow> Some (pc, ah, s)
      | HkDropped \<Rightarrow> Some (pc, ah, s)
      | _ \<Rightarrow> do { (pc, ah, s) \<leftarrow> hk_call_step start poll now pc ah s; run_hk_call start poll now pc ah s })"

partial_function (option) finish :: "('f \<Rightarrow> 's \<Rightarrow> ('s \<times> ('f + bool)) or_panic) \<Rightarrow> 'f \<Rightarrow> 's \<Rightarrow> ('s \<times> bool) option" where
  "finish poll task s =
     do { (s, r) \<leftarrow> poll task s;
          case r of Inl task \<Rightarrow> finish poll task s | Inr more_to_evict \<Rightarrow> Some (s, more_to_evict) }"

text \<open>A call that is dropped after it has polled the maintenance run a number of times.\<close>

fun poll_times ::
  "(duration option \<Rightarrow> u32 \<Rightarrow> u32 \<Rightarrow> 'f) \<Rightarrow> ('f \<Rightarrow> 's \<Rightarrow> ('s \<times> ('f + bool)) or_panic) \<Rightarrow> instant \<Rightarrow> nat \<Rightarrow>
    'f async_housekeeper \<Rightarrow> 's \<Rightarrow> ('f async_housekeeper \<times> 's) option" where
  "poll_times start poll t 0 ah s = Some (hk_call_drop (HkAwait t) ah, s)"
| "poll_times start poll t (Suc n) ah s =
     do { (pc, ah, s) \<leftarrow> hk_call_step start poll t (HkAwait t) ah s;
          if pc = HkAwait t then poll_times start poll t n ah s else None }"

fun dropped_calls ::
  "(duration option \<Rightarrow> u32 \<Rightarrow> u32 \<Rightarrow> 'f) \<Rightarrow> ('f \<Rightarrow> 's \<Rightarrow> ('s \<times> ('f + bool)) or_panic) \<Rightarrow> (instant \<times> nat) list \<Rightarrow>
    'f async_housekeeper \<Rightarrow> 's \<Rightarrow> ('f async_housekeeper \<times> 's) option" where
  "dropped_calls start poll [] ah s = Some (ah, s)"
| "dropped_calls start poll ((t, n) # cs) ah s =
     do { (pc, ah, s) \<leftarrow> hk_call_step start poll t HkLock ah s;
          (ah, s) \<leftarrow> poll_times start poll t n ah s;
          dropped_calls start poll cs ah s }"

section \<open>The mutex\<close>

fun awaiting :: "hk_call \<Rightarrow> bool" where
  "awaiting (HkAwait t) = True"
| "awaiting pc = False"

definition hk_calls_ok :: "'f async_housekeeper \<Rightarrow> hk_call list \<Rightarrow> bool" where
  "hk_calls_ok ah pcs \<longleftrightarrow>
     length (filter awaiting pcs) = (if hk_run_lock (ah_base ah) then 1 else 0) \<and>
     (hk_run_lock (ah_base ah) \<longrightarrow> ah_current_task ah \<noteq> None) \<and> hk_ok (ah_base ah)"

lemma hk_ok_run_lock [simp]: "hk_ok (hk\<lparr>hk_run_lock := b\<rparr>) = hk_ok hk"
  by (simp add: hk_ok_def)

lemma set_run_lock_sel [simp]:
  "hk_run_lock (ah_base (set_run_lock b ah)) = b" "ah_current_task (set_run_lock b ah) = ah_current_task ah"
  "hk_ok (ah_base (set_run_lock b ah)) = hk_ok (ah_base ah)"
  by (simp_all add: set_run_lock_def hk_ok_def)

text \<open>The run that the next call awaits.\<close>

definition next_run :: "(duration option \<Rightarrow> u32 \<Rightarrow> u32 \<Rightarrow> 'f) \<Rightarrow> 'f async_housekeeper \<Rightarrow> 'f" where
  "next_run start ah =
     (let hk = ah_base ah
      in case ah_current_task ah of
           Some task \<Rightarrow> task
         | None \<Rightarrow> start (hk_maintenance_task_timeout hk) (hk_max_log_sync_repeats hk) (hk_eviction_batch_size hk))"

lemma begin_run_sel [simp]:
  "hk_run_lock (ah_base (begin_run start ah))" "ah_current_task (begin_run start ah) = Some (next_run start ah)"
  "hk_ok (ah_base (begin_run start ah)) = hk_ok (ah_base ah)" "ah_base (begin_run start ah) = (ah_base ah)\<lparr>hk_run_lock := True\<rparr>"
  by (auto simp: begin_run_def next_run_def set_run_lock_def hk_ok_def Let_def split: option.splits)

lemma end_run_sel [simp]:
  "\<not> hk_run_lock (ah_base (end_run t m ah))" "ah_current_task (end_run t m ah) = None" "hk_ok (ah_base (end_run t m ah))"
  by (auto simp: end_run_def Let_def hk_ok_def set_run_lock_def set_more_entries_to_evict_def is_set_iff sync_after_def)

lemma hk_calls_step:
  assumes "hk_calls_ok ah (us @ pc # vs)" "hk_call_step start poll now pc ah s = Some (pc', ah', s')"
  shows "hk_calls_ok ah' (us @ pc' # vs)"
  using assms by (cases pc) (auto simp: hk_calls_ok_def Option.bind_eq_Some_conv split: if_splits sum.splits)

lemma hk_calls_drop: "hk_calls_ok ah (us @ pc # vs) \<Longrightarrow> hk_calls_ok (hk_call_drop pc ah) (us @ HkDropped # vs)"
  by (cases pc) (auto simp: hk_calls_ok_def split: if_splits)

lemma hk_reachable_ok: "hk_reachable start poll ah s pcs \<Longrightarrow> hk_calls_ok ah pcs"
proof (induction rule: hk_reachable.induct)
  case (hk_init l config now s)
  show ?case by (simp add: hk_calls_ok_def async_housekeeper_new_def housekeeper_new_def Let_def hk_ok_def is_set_iff sync_after_def)
next
  case (hk_spawn ah s pcs pc)
  then show ?case by (auto simp: hk_calls_ok_def)
qed (auto intro: hk_calls_step hk_calls_drop)

section \<open>Properties\<close>

text \<open>At most one call drives the maintenance run at any time, whichever calls are dropped. A call that has the mutex always
  finds the run to poll, so that it ends or is suspended unless the run panics; and when no call has the mutex, the next
  call gets it.\<close>

theorem async_hk_exclusive:
  assumes "hk_reachable start poll ah s pcs"
  shows "length (filter awaiting pcs) \<le> 1 \<and>
    (HkAwait t \<in> set pcs \<longrightarrow> (\<exists>task. ah_current_task ah = Some task \<and>
       (poll task s \<noteq> None \<longrightarrow> hk_call_step start poll now (HkAwait t) ah s \<noteq> None))) \<and>
    (filter awaiting pcs = [] \<longrightarrow> (\<exists>ah'. hk_call_step start poll now HkLock ah s = Some (HkAwait now, ah', s)))"
proof (intro conjI impI)
  have ok: "hk_calls_ok ah pcs" by (rule hk_reachable_ok[OF assms])
  then show "length (filter awaiting pcs) \<le> 1" by (simp add: hk_calls_ok_def)
  show "\<exists>task. ah_current_task ah = Some task \<and> (poll task s \<noteq> None \<longrightarrow> hk_call_step start poll now (HkAwait t) ah s \<noteq> None)"
    if "HkAwait t \<in> set pcs"
  proof -
    have "filter awaiting pcs \<noteq> []" using that by (force simp: filter_empty_conv)
    then obtain task where "ah_current_task ah = Some task" using ok by (auto simp: hk_calls_ok_def split: if_splits)
    then show ?thesis by (cases "poll task s") (auto split: sum.splits)
  qed
  show "\<exists>ah'. hk_call_step start poll now HkLock ah s = Some (HkAwait now, ah', s)" if "filter awaiting pcs = []"
    using ok that by (auto simp: hk_calls_ok_def split: if_splits)
qed

theorem async_hk_exclusive_witness:
  "\<exists>ah'. hk_call_step (\<lambda>t r b. 2 :: nat) (\<lambda>f s. Some (s, Inr True)) (from_nanos 5) HkLock
     (async_housekeeper_new False housekeeper_config_default (from_nanos 0)) () = Some (HkAwait (from_nanos 5), ah', ())"
  using async_hk_exclusive[OF hk_init[of "\<lambda>t r b. 2 :: nat" "\<lambda>f s. Some (s, Inr True)" False housekeeper_config_default "from_nanos 0" "()"]]
  by simp

section \<open>Resuming\<close>

lemma finish_next: "finish poll task s = Some R \<Longrightarrow> poll task s = Some (s', Inl task') \<Longrightarrow> finish poll task' s' = Some R"
  by (subst (asm) finish.simps) simp

lemma poll_times_keeps:
  assumes "poll_times start poll t n ah s = Some (ah', s')" "ah_current_task ah = Some task" "finish poll task s = Some R"
  shows "ah_base ah' = (ah_base ah)\<lparr>hk_run_lock := False\<rparr> \<and> (\<exists>task'. ah_current_task ah' = Some task' \<and> finish poll task' s' = Some R)"
  using assms
proof (induction n arbitrary: ah s task)
  case 0
  then show ?case by (auto simp: set_run_lock_def)
next
  case (Suc n)
  then obtain s1 task1 where p: "poll task s = Some (s1, Inl task1)" "poll_times start poll t n (ah\<lparr>ah_current_task := Some task1\<rparr>) s1 = Some (ah', s')"
    by (cases "poll task s") (auto split: sum.splits if_splits)
  from Suc.IH[OF p(2) _ finish_next[OF Suc.prems(3) p(1)]] show ?case by simp
qed

lemma dropped_calls_keep:
  assumes "dropped_calls start poll cs ah s = Some (ah', s')" "\<not> hk_run_lock (ah_base ah)" "finish poll (next_run start ah) s = Some R"
  shows "ah_base ah' = ah_base ah \<and> finish poll (next_run start ah') s' = Some R"
  using assms
proof (induction start poll cs ah s rule: dropped_calls.induct)
  case (2 start poll t n cs ah s)
  then obtain ah1 s1 where p: "poll_times start poll t n (begin_run start ah) s = Some (ah1, s1)" "dropped_calls start poll cs ah1 s1 = Some (ah', s')"
    by (auto simp: Option.bind_eq_Some_conv)
  from poll_times_keeps[OF p(1) begin_run_sel(2) 2(4)]
  obtain task1 where k: "ah_base ah1 = ah_base ah" "ah_current_task ah1 = Some task1" "finish poll task1 s1 = Some R"
    using 2(3) by auto
  then have "finish poll (next_run start ah1) s1 = Some R" by (simp add: next_run_def)
  with 2(1)[OF _ _ _ p(1) _ p(2)] 2(3) k(1) show ?case by simp
qed auto

lemma await_ends:
  assumes "finish poll task s = Some r" "ah_current_task ah = Some task"
  shows "run_hk_call start poll now (HkAwait t) ah s = Some (HkDone True, end_run t (snd r) ah, fst r)"
proof -
  have "\<forall>ah. ah_current_task ah = Some task \<longrightarrow>
      run_hk_call start poll now (HkAwait t) ah s = Some (HkDone True, end_run t (snd r) ah, fst r)"
  proof (rule finish.raw_induct[where P = "\<lambda>poll task s r. \<forall>ah. ah_current_task ah = Some task \<longrightarrow>
      run_hk_call start poll now (HkAwait t) ah s = Some (HkDone True, end_run t (snd r) ah, fst r)", OF _ assms(1)], intro allI impI)
    fix f poll' task s y and ah :: "'b async_housekeeper"
    assume IH: "\<And>poll task s y. f poll task s = Some y \<Longrightarrow> \<forall>ah. ah_current_task ah = Some task \<longrightarrow>
        run_hk_call start poll now (HkAwait t) ah s = Some (HkDone True, end_run t (snd y) ah, fst y)"
      and step: "(poll' task s \<bind> (\<lambda>(s, r). case r of Inl task \<Rightarrow> f poll' task s | Inr m \<Rightarrow> Some (s, m))) = Some y"
      and task: "ah_current_task ah = Some task"
    obtain s1 r1 where p: "poll' task s = Some (s1, r1)" using step by (cases "poll' task s") auto
    show "run_hk_call start poll' now (HkAwait t) ah s = Some (HkDone True, end_run t (snd y) ah, fst y)"
    proof (cases r1)
      case (Inl task1)
      have "run_hk_call start poll' now (HkAwait t) (ah\<lparr>ah_current_task := Some task1\<rparr>) s1 =
          Some (HkDone True, end_run t (snd y) (ah\<lparr>ah_current_task := Some task1\<rparr>), fst y)"
        using IH[of poll' task1 s1 y] step p Inl by simp
      then show ?thesis using p Inl task by (subst run_hk_call.simps) (simp add: end_run_def set_run_lock_def Let_def)
    next
      case (Inr m)
      then show ?thesis using p task step by (subst run_hk_call.simps) (auto simp: run_hk_call.simps)
    qed
  qed
  with assms(2) show ?thesis by blast
qed

text \<open>C23: Dropping the calls that drive it does not disturb a maintenance run. However many calls are dropped and however far
  each has brought the run, the call that is not dropped finishes the run that the first one has started; the cache and the
  housekeeper are then as after one run of the synchronous housekeeper that does the same work, at the time of the last call.\<close>

theorem async_hk_resumes:
  assumes "\<not> hk_run_lock (ah_base ah)" "ah_current_task ah = None" "dropped_calls start poll cs ah s = Some (ah1, s1)"
    and "hk_do_run_pending_tasks (\<lambda>t r b. finish poll (start t r b)) now (ah_base ah) s = Some (hk', s')"
  shows "run_hk_call start poll now HkLock ah1 s1 = Some (HkDone True, \<lparr>ah_base = hk', ah_current_task = None\<rparr>, s')"
proof -
  let ?hk = "ah_base ah"
  obtain m where f: "finish poll (start (hk_maintenance_task_timeout ?hk) (hk_max_log_sync_repeats ?hk) (hk_eviction_batch_size ?hk)) s = Some (s', m)"
    and hk': "hk' = set_more_entries_to_evict m (?hk\<lparr>hk_run_after := set_instant (hk_run_after ?hk) (sync_after now)\<rparr>)"
    using assms(4) by (auto simp: hk_do_run_pending_tasks_def Let_def Option.bind_eq_Some_conv)
  then have "finish poll (next_run start ah) s = Some (s', m)" using assms(2) by (simp add: next_run_def Let_def)
  from dropped_calls_keep[OF assms(3,1) this]
  have b: "ah_base ah1 = ?hk" and f1: "finish poll (next_run start ah1) s1 = Some (s', m)" by simp_all
  have "run_hk_call start poll now HkLock ah1 s1 = run_hk_call start poll now (HkAwait now) (begin_run start ah1) s1"
    using assms(1) b by (subst run_hk_call.simps) simp
  also have "\<dots> = Some (HkDone True, end_run now m (begin_run start ah1), s')"
    using await_ends[OF f1 begin_run_sel(2)] by simp
  also have "end_run now m (begin_run start ah1) = \<lparr>ah_base = hk', ah_current_task = None\<rparr>"
    using assms(1) unfolding hk' by (simp add: end_run_def set_run_lock_def set_more_entries_to_evict_def b Let_def)
  finally show ?thesis .
qed

section \<open>The maintenance of the cache\<close>

text \<open>The future of \<open>Inner::do_run_pending_tasks\<close> (\<open>src/src/future/base_cache.rs\<close>), which is pending a number of times while others
  have the locks that it acquires first.\<close>

datatype maint_future = MaintFuture (mf_pending: nat) (mf_timeout: "duration option") (mf_repeats: u32) (mf_batch_size: u32)

fun maint_poll :: "('k, 'v) config \<Rightarrow> maint_future \<Rightarrow> ('k, 'v) inner \<Rightarrow> (('k, 'v) inner \<times> (maint_future + bool)) or_panic" where
  "maint_poll cf (MaintFuture n timeout repeats batch_size) s =
     (if cf_max_capacity cf \<noteq> Some 0 \<and> n > 0 then Some (s, Inl (MaintFuture (n - 1) timeout repeats batch_size))
      else do { (s, more_to_evict) \<leftarrow> do_run_pending_tasks cf timeout repeats batch_size s; Some (s, Inr more_to_evict) })"

lemma finish_maint: "finish (maint_poll cf) (MaintFuture n timeout repeats batch_size) s = do_run_pending_tasks cf timeout repeats batch_size s"
proof (induction n)
  case 0
  show ?case by (subst finish.simps) (simp add: case_prod_unfold)
next
  case (Suc n)
  then show ?case by (subst finish.simps) (simp add: case_prod_unfold)
qed

lemma finish_maint_start [simp]:
  "(\<lambda>timeout repeats batch_size. finish (maint_poll cf) (MaintFuture n timeout repeats batch_size)) = do_run_pending_tasks cf"
  by (intro ext) (rule finish_maint)

text \<open>It ends on every cache that operations can lead to, and the channels are drained then.\<close>

lemma reachable_maint_ends:
  assumes "reachable cf (bc, ops)" "live cf"
  obtains s' m where "do_run_pending_tasks cf timeout repeats batch_size (bc_inner bc) = Some (s', m)" "in_write_op_ch s' = []"
proof -
  have "inner_inv cf (set (in_write_op_ch (bc_inner bc)) \<union> set ops) (bc_inner bc)"
    using reachable_inv[OF assms] by (simp add: sys_inv_def bc_inv_def)
  from do_run_pending_tasks_yields[OF this clock_okD(1) liveD(2)[OF assms(2)]] liveD(1)[OF assms(2)]
  show thesis using that by (fastforce simp: run_post_def elim!: yieldsE)
qed

text \<open>A run of the cache's own maintenance that is pending twice, driven by two calls that are dropped.\<close>

theorem async_hk_resumes_witness:
  "\<exists>ah1 hk' s'. dropped_calls (MaintFuture 2) (maint_poll demo_config) [(Instant 5, 1), (Instant 5, 1)]
       (async_housekeeper_new True housekeeper_config_default (Instant 5)) (bc_inner demo_cache) = Some (ah1, bc_inner demo_cache) \<and>
     run_hk_call (MaintFuture 2) (maint_poll demo_config) (Instant 5) HkLock ah1 (bc_inner demo_cache) =
       Some (HkDone True, \<lparr>ah_base = hk', ah_current_task = None\<rparr>, s') \<and> in_write_op_ch s' = []"
proof -
  let ?ah = "async_housekeeper_new True housekeeper_config_default (Instant 5) :: maint_future async_housekeeper"
  have a: "\<not> hk_run_lock (ah_base ?ah)" "ah_current_task ?ah = None"
    by (simp_all add: async_housekeeper_new_def housekeeper_new_def Let_def)
  have cap: "cf_max_capacity demo_config \<noteq> Some 0" by (simp add: demo_config_def)
  obtain ah1 where d: "dropped_calls (MaintFuture 2) (maint_poll demo_config) [(Instant 5, 1), (Instant 5, 1)] ?ah (bc_inner demo_cache) =
      Some (ah1, bc_inner demo_cache)"
    using a cap by (simp add: begin_run_def set_run_lock_def eval_nat_numeral Let_def)
  obtain s' m where run: "do_run_pending_tasks demo_config (hk_maintenance_task_timeout (ah_base ?ah)) (hk_max_log_sync_repeats (ah_base ?ah))
      (hk_eviction_batch_size (ah_base ?ah)) (bc_inner demo_cache) = Some (s', m)" and w: "in_write_op_ch s' = []"
    by (rule reachable_maint_ends[OF demo_reachable demo_live])
  obtain hk' where "hk_do_run_pending_tasks (\<lambda>t r b. finish (maint_poll demo_config) (MaintFuture 2 t r b)) (Instant 5) (ah_base ?ah)
      (bc_inner demo_cache) = Some (hk', s')"
    using run by (simp add: hk_do_run_pending_tasks_def Let_def)
  from async_hk_resumes[OF a d this] d w show ?thesis by blast
qed

end
