(* ===== verification/Cache_Builder.thy ===== *)
theory Cache_Builder
  imports Segmented_Iter Async_Cache
begin

text \<open>
  Making caches: \<open>Clock\<close> (\<open>src/src/common/time/clock.rs\<close>), \<open>ensure_expirations_or_panic\<close>
  (\<open>src/src/common/builder_utils.rs\<close>), the setters of \<open>ExpirationPolicy\<close> (\<open>src/src/policy.rs\<close>) and \<open>CacheBuilder\<close>
  (\<open>src/src/sync/builder.rs\<close>, \<open>src/src/future/builder.rs\<close>). A \<open>std::time::Instant\<close> is a number of nanoseconds. The hasher of
  a cache and the readings of the sources of time are arguments.
\<close>

section \<open>The clock\<close>

datatype clock_type = Standard nat | Hybrid nat nat

fun clock_origin :: "clock_type \<Rightarrow> nat" where
  "clock_origin (Standard origin) = origin"
| "clock_origin (Hybrid std_origin quanta_origin) = std_origin"

definition clock_now :: "clock_type \<Rightarrow> nat \<Rightarrow> instant" where
  "clock_now c std_now =
     (case c of
        Standard origin \<Rightarrow> from_duration_since_clock_start (std_now - origin)
      | Hybrid std_origin quanta_origin \<Rightarrow> from_duration_since_clock_start (std_now - std_origin))"

definition clock_fast_now :: "clock_type \<Rightarrow> nat \<Rightarrow> nat \<Rightarrow> instant" where
  "clock_fast_now c std_now quanta_now =
     (case c of
        Standard origin \<Rightarrow> clock_now c std_now
      | Hybrid std_origin quanta_origin \<Rightarrow> from_duration_since_clock_start (quanta_now - quanta_origin))"

definition to_std_instant :: "clock_type \<Rightarrow> instant \<Rightarrow> nat" where
  "to_std_instant c i =
     (case c of
        Standard origin \<Rightarrow> origin + unat (as_nanos i)
      | Hybrid std_origin quanta_origin \<Rightarrow> std_origin + unat (as_nanos i))"

text \<open>The readings by \<open>now\<close>, when the source of time yields \<open>std_time\<close>.\<close>

definition clock_readings :: "clock_type \<Rightarrow> (nat \<Rightarrow> nat) \<Rightarrow> nat \<Rightarrow> instant" where
  "clock_readings c std_time n = clock_now c (std_time n)"

section \<open>The builder\<close>






definition set_expiry :: "('k, 'v) expiry \<Rightarrow> ('k, 'v) expiration_policy \<Rightarrow> ('k, 'v) expiration_policy" where
  "set_expiry e p = p\<lparr>xp_expiry := Some e\<rparr>"

record ('k, 'v) cache_builder =
  cb_name :: "string option"
  cb_max_capacity :: "u64 option"
  cb_initial_capacity :: "nat option"
  cb_num_segments :: "nat option"
  cb_weigher :: "('k \<Rightarrow> 'v \<Rightarrow> u32) option"
  cb_eviction_policy :: eviction_policy_config
  cb_eviction_listener :: "('k \<Rightarrow> 'v \<Rightarrow> removal_cause \<Rightarrow> bool) option"
  cb_expiration_policy :: "('k, 'v) expiration_policy"
  cb_housekeeper_config :: housekeeper_config
  cb_invalidator_enabled :: bool
  cb_clock :: clock_type

definition builder_default :: "clock_type \<Rightarrow> ('k, 'v) cache_builder" where
  "builder_default clock =
     \<lparr>cb_name = None, cb_max_capacity = None, cb_initial_capacity = None, cb_num_segments = None, cb_weigher = None,
      cb_eviction_policy = TinyLfu, cb_eviction_listener = None, cb_expiration_policy = expiration_policy_default,
      cb_housekeeper_config = housekeeper_config_default, cb_invalidator_enabled = False, cb_clock = clock\<rparr>"

definition builder_new :: "clock_type \<Rightarrow> u64 \<Rightarrow> ('k, 'v) cache_builder" where
  "builder_new clock max_capacity = (builder_default clock)\<lparr>cb_max_capacity := Some max_capacity\<rparr>"

definition builder_segments :: "nat \<Rightarrow> ('k, 'v) cache_builder \<Rightarrow> ('k, 'v) cache_builder or_panic" where
  "builder_segments num_segments b = (if num_segments \<noteq> 0 then Some (b\<lparr>cb_num_segments := Some num_segments\<rparr>) else None)"

definition builder_name :: "string \<Rightarrow> ('k, 'v) cache_builder \<Rightarrow> ('k, 'v) cache_builder" where
  "builder_name name b = b\<lparr>cb_name := Some name\<rparr>"


definition builder_initial_capacity :: "nat \<Rightarrow> ('k, 'v) cache_builder \<Rightarrow> ('k, 'v) cache_builder" where
  "builder_initial_capacity n b = b\<lparr>cb_initial_capacity := Some n\<rparr>"

definition builder_eviction_policy :: "eviction_policy_config \<Rightarrow> ('k, 'v) cache_builder \<Rightarrow> ('k, 'v) cache_builder" where
  "builder_eviction_policy p b = b\<lparr>cb_eviction_policy := p\<rparr>"

definition builder_weigher :: "('k \<Rightarrow> 'v \<Rightarrow> u32) \<Rightarrow> ('k, 'v) cache_builder \<Rightarrow> ('k, 'v) cache_builder" where
  "builder_weigher w b = b\<lparr>cb_weigher := Some w\<rparr>"

definition builder_eviction_listener ::
  "('k \<Rightarrow> 'v \<Rightarrow> removal_cause \<Rightarrow> bool) \<Rightarrow> ('k, 'v) cache_builder \<Rightarrow> ('k, 'v) cache_builder" where
  "builder_eviction_listener l b = b\<lparr>cb_eviction_listener := Some l\<rparr>"



definition builder_expire_after :: "('k, 'v) expiry \<Rightarrow> ('k, 'v) cache_builder \<Rightarrow> ('k, 'v) cache_builder" where
  "builder_expire_after e b = b\<lparr>cb_expiration_policy := set_expiry e (cb_expiration_policy b)\<rparr>"

definition builder_support_invalidation_closures :: "('k, 'v) cache_builder \<Rightarrow> ('k, 'v) cache_builder" where
  "builder_support_invalidation_closures b = b\<lparr>cb_invalidator_enabled := True\<rparr>"

text \<open>\<open>env\<close> is what a cache is given from outside: the hasher, the pointer width, the source of time that \<open>now\<close> reads, by
  each segment, the two sources when \<open>fast_now\<close> is called for a segment, and a key with its hash for the cells of the
  store that are not in use.\<close>

record 'k build_env =
  be_hash :: "'k \<Rightarrow> u64"
  be_pointer_width :: nat
  be_std_time :: "nat \<Rightarrow> nat \<Rightarrow> nat"
  be_fast_std_time :: "nat \<Rightarrow> nat"
  be_quanta_time :: "nat \<Rightarrow> nat"
  be_key_hash :: "'k key_hash"

definition builder_config :: "'k build_env \<Rightarrow> ('k, 'v) cache_builder \<Rightarrow> ('k, 'v) config" where
  "builder_config env b =
     \<lparr>cf_max_capacity = cb_max_capacity b, cf_hash = be_hash env, cf_weigher = cb_weigher b,
      cf_eviction_policy = cb_eviction_policy b, cf_expiration_policy = cb_expiration_policy b,
      cf_clock = clock_readings (cb_clock b) (be_std_time env 0),
      cf_fast_now = (\<lambda>i. clock_fast_now (cb_clock b) (be_fast_std_time env i) (be_quanta_time env i)),
      cf_initial_capacity = cb_initial_capacity b, cf_pointer_width = be_pointer_width env\<rparr>"




section \<open>The clock of a cache\<close>

lemma from_duration_proper: "proper_instant (from_duration_since_clock_start d)"
  by (simp add: proper_instant_def from_duration_since_clock_start_def from_nanos_def duration_to_saturating_nanoseconds_def)

lemma from_duration_mono: "d \<le> d' \<Longrightarrow> from_duration_since_clock_start d \<le> from_duration_since_clock_start d'"
  by (simp add: less_eq_instant_def from_duration_since_clock_start_def from_nanos_def word_le_nat_alt unat_duration_to_saturating_nanoseconds)

definition demo_build_env :: "nat build_env" where
  "demo_build_env =
     \<lparr>be_hash = word_of_nat, be_pointer_width = 64, be_std_time = \<lambda>i n. n + 5, be_fast_std_time = \<lambda>i. 5, be_quanta_time = \<lambda>i. 9,
      be_key_hash = \<lparr>kh_key = 0, kh_hash = 0\<rparr>\<rparr>"

text \<open>C19: A clock of either type meets what the theorems about caches assume of it, when \<open>std::time::Instant\<close> does not go
  back: the readings by \<open>now\<close> do not go back, and no reading, by \<open>fast_now\<close> neither, is the marker of an unset
  instant. Converting a reading by \<open>now\<close> back yields the time at which it was taken, up to \<open>2 ^ 64 - 2\<close>
  nanoseconds after the origin of the clock, and that time for all later ones. Nothing is claimed about the order of
  the readings by \<open>fast_now\<close>, which only set the first deadline of the housekeeper.\<close>

theorem clock_meets_contract:
  assumes "mono std_time" "cf_clock cf = clock_readings c std_time" "clock_origin c \<le> std_time 0"
  shows "clock_ok cf \<and> proper_instant (clock_fast_now c std_now quanta_now) \<and>
    to_std_instant c (clock_now c (std_time n)) = min (std_time n) (clock_origin c + (2 ^ 64 - 2))"
proof (intro conjI)
  have now: "clock_now c t = from_duration_since_clock_start (t - clock_origin c)" for t
    by (cases c) (simp_all add: clock_now_def)
  have r: "cf_clock cf n = from_duration_since_clock_start (std_time n - clock_origin c)" for n
    by (simp add: assms(2) clock_readings_def now)
  show "clock_ok cf"
    unfolding clock_ok_def r using monoD[OF assms(1)] by (auto simp: from_duration_proper intro!: monoI from_duration_mono diff_le_mono)
  show "proper_instant (clock_fast_now c std_now quanta_now)"
    by (cases c) (simp_all add: clock_fast_now_def clock_now_def from_duration_proper)
  have "clock_origin c \<le> std_time n" using le_trans[OF assms(3) monoD[OF assms(1), of 0 n]] by simp
  then show "to_std_instant c (clock_now c (std_time n)) = min (std_time n) (clock_origin c + (2 ^ 64 - 2))"
    unfolding now by (cases c)
      (auto simp: to_std_instant_def from_duration_since_clock_start_def from_nanos_def as_nanos_def unat_duration_to_saturating_nanoseconds min_def)
qed

theorem clock_meets_contract_witness:
  "clock_ok (builder_config demo_build_env (builder_new (Hybrid 5 7) 100) :: (nat, nat) config) \<and>
   to_std_instant (Hybrid 5 7) (clock_now (Hybrid 5 7) 12) = 12"
proof -
  let ?cf = "builder_config demo_build_env (builder_new (Hybrid 5 7) 100) :: (nat, nat) config"
  have "cf_clock ?cf = clock_readings (Hybrid 5 7) (\<lambda>n. n + 5)"
    by (simp add: demo_build_env_def builder_config_def builder_new_def builder_default_def)
  from clock_meets_contract[OF _ this, of 0 0 7] show ?thesis by (simp add: mono_def)
qed

section \<open>Building\<close>










end
