(* ===== verification/Key_Lock.thy ===== *)
theory Key_Lock
  imports Moka_Prelude
begin

text \<open>
  The locks of keys (\<open>src/src/sync/key_lock.rs\<close>; \<open>src/src/future/key_lock.rs\<close> differs in that it awaits the mutex) and the
  reference counts of \<open>MiniArc\<close> (\<open>src/src/common/concurrent/arc.rs\<close>), on which they rely.

  A thread is a machine with a step for each access to shared memory: the hash table, a reference count, the mutex of a
  lock. \<open>remove_if\<close> of the table tests its condition and then swaps the bucket; \<open>insert_if_not_present\<close> finds a bucket
  and then clones the value in it (\<open>src/src/cht/map/bucket.rs\<close>, \<open>bucket_array_ref.rs\<close>). The reference that a removed
  bucket holds is dropped when its memory is reclaimed, which is not modelled: the lock keeps that reference.
\<close>

section \<open>\<open>MiniArc\<close>\<close>

definition MAX_REFCOUNT :: u32 where "MAX_REFCOUNT = 2 ^ 31 - 1"

definition arc_new :: u32 where "arc_new = 1"

definition arc_clone :: "u32 \<Rightarrow> u32 or_panic" where
  "arc_clone ref_count = (if ref_count > MAX_REFCOUNT then None else Some (ref_count + 1))"

text \<open>The second component says whether the allocation is freed.\<close>

definition arc_drop :: "u32 \<Rightarrow> u32 \<times> bool" where
  "arc_drop ref_count = (ref_count - 1, ref_count = 1)"

text \<open>A sequence of clones (\<open>True\<close>) and drops of the pointers to one allocation; it ends when the allocation is freed.\<close>

fun arc_run :: "bool list \<Rightarrow> u32 \<Rightarrow> (u32 \<times> bool) or_panic" where
  "arc_run [] c = Some (c, False)"
| "arc_run (True # ops) c = do { c \<leftarrow> arc_clone c; arc_run ops c }"
| "arc_run (False # ops) c = (case arc_drop c of (c, freed) \<Rightarrow> if freed then Some (c, True) else arc_run ops c)"

section \<open>Locks of keys\<close>

type_synonym lock_id = nat

record 'k lock_map =
  lm_locks :: "'k \<rightharpoonup> lock_id"
  lm_count :: "lock_id \<Rightarrow> u32"
  lm_locked :: "lock_id \<Rightarrow> bool"
  lm_next :: lock_id

definition lock_map_with_hasher :: "'k lock_map" where
  "lock_map_with_hasher = \<lparr>lm_locks = Map.empty, lm_count = (\<lambda>_. 0), lm_locked = (\<lambda>_. False), lm_next = 0\<rparr>"

text \<open>Where a thread is: before \<open>key_lock\<close>; having found a lock there; with a \<open>KeyLock\<close>; holding its mutex; having
  released it; in \<open>drop\<close>, before \<open>remove_if\<close>, between the test of its condition on a bucket and the swap of that bucket,
  and before the drop of the field \<open>lock\<close>; at the end.\<close>

datatype kl_pc =
    KStart
  | KExisting lock_id
  | KHandle lock_id
  | KLocked lock_id
  | KUnlocked lock_id
  | KRemove lock_id
  | KSwap lock_id lock_id
  | KRelease lock_id
  | KDone

fun key_lock_step :: "'k \<Rightarrow> kl_pc \<Rightarrow> 'k lock_map \<Rightarrow> (kl_pc \<times> 'k lock_map) option" where
  "key_lock_step key KStart m =
     (let kl = lm_next m; m = m\<lparr>lm_next := kl + 1\<rparr>
      in case lm_locks m key of
           None \<Rightarrow> do { c \<leftarrow> arc_clone arc_new;
                      Some (KHandle kl, m\<lparr>lm_locks := (lm_locks m)(key \<mapsto> kl), lm_count := (lm_count m)(kl := c)\<rparr>) }
         | Some existing_kl \<Rightarrow> Some (KExisting existing_kl, m))"
| "key_lock_step key (KExisting l) m =
     do { c \<leftarrow> arc_clone (lm_count m l); Some (KHandle l, m\<lparr>lm_count := (lm_count m)(l := c)\<rparr>) }"
| "key_lock_step key (KHandle l) m =
     (if lm_locked m l then None else Some (KLocked l, m\<lparr>lm_locked := (lm_locked m)(l := True)\<rparr>))"
| "key_lock_step key (KLocked l) m = Some (KUnlocked l, m\<lparr>lm_locked := (lm_locked m)(l := False)\<rparr>)"
| "key_lock_step key (KUnlocked l) m = Some (if lm_count m l \<le> 2 then KRemove l else KRelease l, m)"
| "key_lock_step key (KRemove l) m =
     Some (case lm_locks m key of
             None \<Rightarrow> KRelease l
           | Some v \<Rightarrow> if lm_count m v \<le> 2 then KSwap l v else KRelease l, m)"
| "key_lock_step key (KSwap l v) m =
     Some (if lm_locks m key = Some v then (KRelease l, m\<lparr>lm_locks := (lm_locks m)(key := None)\<rparr>) else (KRemove l, m))"
| "key_lock_step key (KRelease l) m = Some (KDone, m\<lparr>lm_count := (lm_count m)(l := fst (arc_drop (lm_count m l)))\<rparr>)"
| "key_lock_step key KDone m = None"

type_synonym 'k lock_system = "'k lock_map \<times> ('k \<times> kl_pc) list"

text \<open>The threads with the numbers in a schedule take a step each.\<close>

fun lock_run :: "nat list \<Rightarrow> 'k lock_system \<Rightarrow> 'k lock_system option" where
  "lock_run [] st = Some st"
| "lock_run (i # is) (m, ts) =
     (if i < length ts
      then do { (pc, m) \<leftarrow> key_lock_step (fst (ts ! i)) (snd (ts ! i)) m; lock_run is (m, ts[i := (fst (ts ! i), pc)]) }
      else None)"

section \<open>Without interference inside \<open>key_lock\<close> and \<open>drop\<close>\<close>

definition key_lock :: "'k \<Rightarrow> 'k lock_map \<Rightarrow> (lock_id \<times> 'k lock_map) or_panic" where
  "key_lock key m =
     (let kl = lm_next m; m = m\<lparr>lm_next := kl + 1\<rparr>
      in case lm_locks m key of
           None \<Rightarrow> do { c \<leftarrow> arc_clone arc_new;
                      Some (kl, m\<lparr>lm_locks := (lm_locks m)(key \<mapsto> kl), lm_count := (lm_count m)(kl := c)\<rparr>) }
         | Some l \<Rightarrow> do { c \<leftarrow> arc_clone (lm_count m l); Some (l, m\<lparr>lm_count := (lm_count m)(l := c)\<rparr>) })"

definition key_lock_drop :: "'k \<Rightarrow> lock_id \<Rightarrow> 'k lock_map \<Rightarrow> 'k lock_map" where
  "key_lock_drop key l m =
     (let m = (if lm_count m l \<le> 2
               then (case lm_locks m key of
                       Some v \<Rightarrow> if lm_count m v \<le> 2 then m\<lparr>lm_locks := (lm_locks m)(key := None)\<rparr> else m
                     | None \<Rightarrow> m)
               else m)
      in m\<lparr>lm_count := (lm_count m)(l := fst (arc_drop (lm_count m l)))\<rparr>)"

fun calm_move :: "'k \<Rightarrow> kl_pc \<Rightarrow> 'k lock_map \<Rightarrow> (kl_pc \<times> 'k lock_map) option" where
  "calm_move key KStart m = do { (l, m) \<leftarrow> key_lock key m; Some (KHandle l, m) }"
| "calm_move key (KUnlocked l) m = Some (KDone, key_lock_drop key l m)"
| "calm_move key pc m = key_lock_step key pc m"

inductive calm_reachable :: "'k lock_system \<Rightarrow> bool" where
  calm_init: "calm_reachable (lock_map_with_hasher, [])"
| calm_spawn: "calm_reachable (m, ts) \<Longrightarrow> length ts < 2 ^ 30 \<Longrightarrow> calm_reachable (m, ts @ [(key, KStart)])"
| calm_step:
    "calm_reachable (m, us @ (key, pc) # vs) \<Longrightarrow> calm_move key pc m = Some (pc', m') \<Longrightarrow>
     calm_reachable (m', us @ (key, pc') # vs)"

section \<open>The invariant\<close>

fun pc_lock :: "kl_pc \<Rightarrow> lock_id option" where
  "pc_lock (KHandle l) = Some l"
| "pc_lock (KLocked l) = Some l"
| "pc_lock (KUnlocked l) = Some l"
| "pc_lock _ = None"

fun calm_pc :: "kl_pc \<Rightarrow> bool" where
  "calm_pc (KExisting l) = False"
| "calm_pc (KRemove l) = False"
| "calm_pc (KSwap l v) = False"
| "calm_pc (KRelease l) = False"
| "calm_pc pc = True"

abbreviation handles :: "lock_id \<Rightarrow> ('k \<times> kl_pc) list \<Rightarrow> nat" where
  "handles l ts \<equiv> count_list (map (pc_lock \<circ> snd) ts) (Some l)"

text \<open>The threads with a \<open>KeyLock\<close> of a key share the lock that is in the map; it is there only while there are such
  threads, and its count is their number and one for the map.\<close>

definition lock_inv :: "'k lock_map \<Rightarrow> ('k \<times> kl_pc) list \<Rightarrow> bool" where
  "lock_inv m ts \<longleftrightarrow>
     (\<forall>key pc. (key, pc) \<in> set ts \<longrightarrow> calm_pc pc \<and> (\<forall>l. pc_lock pc = Some l \<longrightarrow> lm_locks m key = Some l)) \<and>
     (\<forall>key l. lm_locks m key = Some l \<longrightarrow>
        l < lm_next m \<and> lm_count m l = word_of_nat (Suc (handles l ts)) \<and> 0 < handles l ts \<and>
        (\<forall>key'. lm_locks m key' = Some l \<longrightarrow> key' = key)) \<and>
     (\<forall>l. count_list (map snd ts) (KLocked l) = (if lm_locked m l then 1 else 0)) \<and>
     length ts \<le> 2 ^ 30"

lemma lock_invD:
  assumes "lock_inv m ts"
  shows "(key, pc) \<in> set ts \<Longrightarrow> calm_pc pc" "(key, pc) \<in> set ts \<Longrightarrow> pc_lock pc = Some l \<Longrightarrow> lm_locks m key = Some l"
    "lm_locks m key = Some l \<Longrightarrow> l < lm_next m" "lm_locks m key = Some l \<Longrightarrow> lm_count m l = word_of_nat (Suc (handles l ts))"
    "lm_locks m key = Some l \<Longrightarrow> 0 < handles l ts" "lm_locks m key = Some l \<Longrightarrow> lm_locks m key' = Some l \<Longrightarrow> key' = key"
    "count_list (map snd ts) (KLocked l) = (if lm_locked m l then 1 else 0)" "length ts \<le> 2 ^ 30"
  using assms by (fastforce simp: lock_inv_def)+

lemma handles_bound: "lock_inv m ts \<Longrightarrow> handles l ts \<le> 2 ^ 30"
  using count_le_length[of "map (pc_lock \<circ> snd) ts" "Some l"] lock_invD(8) by fastforce

lemma unat_count:
  assumes "lock_inv m ts" "lm_locks m key = Some l"
  shows "unat (lm_count m l) = Suc (handles l ts)"
  using lock_invD(4)[OF assms] handles_bound[OF assms(1), of l] unat_of_nat_small[where 'a = 32, of "Suc (handles l ts)"]
  by (simp del: of_nat_Suc)

lemma no_handles:
  assumes "lock_inv m ts" "\<And>key. lm_locks m key \<noteq> Some l"
  shows "handles l ts = 0" "\<not> lm_locked m l"
proof -
  show h: "handles l ts = 0"
    using lock_invD(2)[OF assms(1)] assms(2) by (force simp: count_list_0_iff)
  show "\<not> lm_locked m l"
  proof
    assume "lm_locked m l"
    then have "KLocked l \<in> snd ` set ts" using lock_invD(7)[OF assms(1), of l] by (metis count_notin list.set_map zero_neq_one)
    then show False using h by (force simp: count_list_0_iff)
  qed
qed

lemma lock_ok:
  assumes "lock_inv m (us @ (key, KHandle l) # vs)" "\<not> lm_locked m l"
  shows "lock_inv (m\<lparr>lm_locked := (lm_locked m)(l := True)\<rparr>) (us @ (key, KLocked l) # vs)"
  using assms by (auto simp: lock_inv_def split: if_splits)

lemma unlock_ok:
  assumes "lock_inv m (us @ (key, KLocked l) # vs)"
  shows "lock_inv (m\<lparr>lm_locked := (lm_locked m)(l := False)\<rparr>) (us @ (key, KUnlocked l) # vs)"
  using assms by (auto simp: lock_inv_def split: if_splits)

lemma key_lock_ok:
  assumes inv: "lock_inv m (us @ (key, KStart) # vs)" and k: "key_lock key m = Some (l, m')"
  shows "lock_inv m' (us @ (key, KHandle l) # vs)"
proof (cases "lm_locks m key")
  case None
  have new: "lm_locks m key' \<noteq> Some (lm_next m)" for key' using lock_invD(3)[OF inv] by blast
  have "l = lm_next m" "m' = m\<lparr>lm_next := Suc l, lm_locks := (lm_locks m)(key \<mapsto> l), lm_count := (lm_count m)(l := 2)\<rparr>"
    using k None by (auto simp: key_lock_def arc_clone_def arc_new_def MAX_REFCOUNT_def Let_def split: if_splits)
  moreover have "pc_lock pc = None" if "(key, pc) \<in> set us \<or> (key, pc) \<in> set vs" for pc
    using lock_invD(2)[OF inv, of key pc] that None by (cases "pc_lock pc") auto
  ultimately show ?thesis using inv no_handles[OF inv new] new None
    by (auto simp: lock_inv_def less_Suc_eq split: if_splits)
next
  case (Some l')
  have "l = l'" "m' = m\<lparr>lm_next := Suc (lm_next m), lm_count := (lm_count m)(l := lm_count m l + 1)\<rparr>"
    using k Some by (auto simp: key_lock_def arc_clone_def Let_def split: if_splits)
  with inv Some show ?thesis by (auto simp: lock_inv_def less_Suc_eq split: if_splits)
qed

lemma key_lock_drop_ok:
  assumes inv: "lock_inv m (us @ (key, KUnlocked l) # vs)"
  shows "lock_inv (key_lock_drop key l m) (us @ (key, KDone) # vs)"
proof -
  have l: "lm_locks m key = Some l" using lock_invD(2)[OF inv, of key "KUnlocked l"] by simp
  have c: "unat (lm_count m l) = Suc (Suc (handles l (us @ vs)))" using unat_count[OF inv l] by simp
  show ?thesis
  proof (cases "handles l (us @ vs) = 0")
    case True
    have gone: "pc_lock pc \<noteq> Some l" if "(key', pc) \<in> set (us @ vs)" for key' pc
      using True that by (force simp: count_list_0_iff)
    let ?m = "m\<lparr>lm_locks := (lm_locks m)(key := None), lm_count := (lm_count m)(l := lm_count m l - 1)\<rparr>"
    have m: "key_lock_drop key l m = ?m"
      using c l True by (simp add: key_lock_drop_def arc_drop_def word_le_nat_alt)
    have old: "(key', pc) \<in> set (us @ vs)" if "(key', pc) \<in> set (us @ (key, KDone) # vs)" "pc \<noteq> KDone" for key' pc
      using that by auto
    have kept: "lm_locks m key' = Some l' \<and> key' \<noteq> key \<and> l' \<noteq> l" if "lm_locks ?m key' = Some l'" for key' l'
      using that lock_invD(6)[OF inv l, of key'] by (auto split: if_splits)
    show ?thesis unfolding m lock_inv_def
    proof (intro conjI allI impI)
      fix key' pc assume t: "(key', pc) \<in> set (us @ (key, KDone) # vs)"
      show "calm_pc pc" using t lock_invD(1)[OF inv, of key' pc] by auto
      fix l' assume pc: "pc_lock pc = Some l'"
      then have "(key', pc) \<in> set (us @ vs)" using old[OF t] by (cases pc) auto
      then show "lm_locks ?m key' = Some l'" using gone lock_invD(2)[OF inv, of key' pc l'] pc l by fastforce
    next
      fix key' l' assume "lm_locks ?m key' = Some l'"
      note k = kept[OF this]
      then have k': "lm_locks m key' = Some l'" by simp
      show "l' < lm_next ?m" "lm_count ?m l' = word_of_nat (Suc (handles l' (us @ (key, KDone) # vs)))"
        "0 < handles l' (us @ (key, KDone) # vs)"
        using lock_invD(3-5)[OF inv k'] k by simp_all
      show "key'' = key'" if "lm_locks ?m key'' = Some l'" for key'' using kept[OF that] lock_invD(6)[OF inv k'] by blast
    qed (use lock_invD(7,8)[OF inv] in simp_all)
  next
    case False
    then have "key_lock_drop key l m = m\<lparr>lm_count := (lm_count m)(l := lm_count m l - 1)\<rparr>"
      using c l by (auto simp: key_lock_drop_def arc_drop_def word_le_nat_alt)
    moreover have "lm_count (m\<lparr>lm_count := (lm_count m)(l := lm_count m l - 1)\<rparr>) l' = word_of_nat (Suc (handles l' (us @ (key, KDone) # vs))) \<and>
        0 < handles l' (us @ (key, KDone) # vs)" if "lm_locks m key' = Some l'" for key' l'
      using lock_invD(4,5)[OF inv that] False by (auto split: if_splits)
    moreover have "calm_pc pc \<and> (\<forall>l'. pc_lock pc = Some l' \<longrightarrow> lm_locks m key' = Some l')"
      if "(key', pc) \<in> set (us @ (key, KDone) # vs)" for key' pc
      using that lock_invD(1,2)[OF inv, of key' pc] by auto
    ultimately show ?thesis using lock_invD(3,6)[OF inv] lock_invD(7,8)[OF inv]
      unfolding lock_inv_def by (intro conjI allI impI) (auto split: if_splits)
  qed
qed

lemma calm_reachable_inv: "calm_reachable (m, ts) \<Longrightarrow> lock_inv m ts"
proof (induction "(m, ts)" arbitrary: m ts rule: calm_reachable.induct)
  case calm_init
  show ?case by (simp add: lock_inv_def lock_map_with_hasher_def)
next
  case (calm_spawn m ts key)
  then show ?case by (auto simp: lock_inv_def)
next
  case (calm_step m us key pc vs pc' m')
  then show ?case
  proof (cases pc)
    case KStart
    with calm_step show ?thesis by (auto simp: Option.bind_eq_Some_conv intro: key_lock_ok)
  next
    case (KHandle l)
    with calm_step show ?thesis by (auto split: if_splits intro: lock_ok)
  next
    case (KLocked l)
    with calm_step show ?thesis by (auto intro: unlock_ok)
  next
    case (KUnlocked l)
    with calm_step show ?thesis by (auto intro: key_lock_drop_ok)
  qed (use calm_step lock_invD(1)[of m "us @ (key, pc) # vs" key pc] in auto)
qed

section \<open>Properties\<close>

text \<open>Counting the pointers to an allocation without a bound.\<close>

fun pointers :: "bool list \<Rightarrow> nat \<Rightarrow> nat \<times> bool" where
  "pointers [] n = (n, False)"
| "pointers (True # ops) n = pointers ops (n + 1)"
| "pointers (False # ops) n = (if n = 1 then (0, True) else pointers ops (n - 1))"

lemma arc_clone_eq: "0 < n \<Longrightarrow> n \<le> 2 ^ 31 \<Longrightarrow> arc_clone (word_of_nat n) = (if n < 2 ^ 31 then Some (word_of_nat (n + 1)) else None)"
  using unat_of_nat_small[where 'a = 32, of n] by (auto simp: arc_clone_def MAX_REFCOUNT_def word_less_nat_alt)

lemma arc_drop_eq: "0 < n \<Longrightarrow> n \<le> 2 ^ 31 \<Longrightarrow> arc_drop (word_of_nat n) = (word_of_nat (n - 1), n = 1)"
proof -
  assume "0 < n" "n \<le> 2 ^ 31"
  moreover from this have "unat (word_of_nat n :: u32) = n" by (intro unat_of_nat_small) simp
  then have "(word_of_nat n :: u32) = 1 \<longleftrightarrow> n = 1" by (simp add: word_unat_eq_iff)
  ultimately show ?thesis by (simp add: arc_drop_def of_nat_diff)
qed

text \<open>The count of a \<open>MiniArc\<close> is the number of pointers to the allocation: the allocation is freed by the drop of the
  last of them and not before, and the 32 bits of the count never wrap around, because a clone aborts at
  2,147,483,648 pointers. Below that number no clone aborts.\<close>

theorem mini_arc_counts:
  assumes "0 < n" "n \<le> 2 ^ 31"
  shows "arc_run ops (word_of_nat n) \<in> {None, Some (map_prod word_of_nat id (pointers ops n))} \<and>
    (n + length (filter id ops) \<le> 2 ^ 31 \<longrightarrow> arc_run ops (word_of_nat n) \<noteq> None)"
  using assms
proof (induction ops n rule: pointers.induct)
  case (2 ops n)
  then show ?case using arc_clone_eq[of n] by (cases "n < 2 ^ 31") (simp_all del: of_nat_add of_nat_Suc)
next
  case (3 ops n)
  then show ?case using arc_drop_eq[of n] by (cases "n = 1") simp_all
qed simp

theorem mini_arc_counts_witness: "arc_run [True, False, False] (word_of_nat 1) \<noteq> None"
  using mini_arc_counts[of 1 "[True, False, False]"] by simp

lemma small_counts:
  "arc_clone 1 = Some 2" "arc_clone 2 = Some 3" "arc_drop 2 = (1, False)" "arc_drop 3 = (2, False)" "(3 :: u32) \<le> 2 \<longleftrightarrow> False"
  by (simp_all add: arc_clone_def arc_drop_def MAX_REFCOUNT_def)

text \<open>C24: When no other thread interferes inside \<open>key_lock\<close> and inside the destructor of a \<open>KeyLock\<close>, the lock of a key
  excludes: two threads never hold the mutex of the same key at once. All threads that have the \<open>KeyLock\<close> of a key
  share the lock that is in the map, and when all threads have ended the map is empty.\<close>

theorem key_lock_excludes:
  assumes "calm_reachable (m, ts)"
  shows "(i < length ts \<longrightarrow> j < length ts \<longrightarrow> ts ! i = (key, KLocked l) \<longrightarrow> ts ! j = (key, KLocked l') \<longrightarrow> i = j \<and> l = l') \<and>
    ((key, pc) \<in> set ts \<longrightarrow> pc_lock pc = Some l \<longrightarrow> lm_locks m key = Some l) \<and>
    (snd ` set ts \<subseteq> {KDone} \<longrightarrow> lm_locks m = Map.empty)"
proof (intro conjI impI)
  note inv = calm_reachable_inv[OF assms]
  show same: "l = l'" if "i < length ts" "j < length ts" "ts ! i = (key, KLocked l)" "ts ! j = (key, KLocked l')"
    using lock_invD(2)[OF inv, of key "KLocked l" l] lock_invD(2)[OF inv, of key "KLocked l'" l'] that
    by (metis nth_mem option.inject pc_lock.simps(2))
  show "i = j" if t: "i < length ts" "j < length ts" "ts ! i = (key, KLocked l)" "ts ! j = (key, KLocked l')"
  proof (rule ccontr)
    assume "i \<noteq> j"
    then have "2 \<le> card {i, j}" by simp
    also have "\<dots> \<le> card {k. k < length (map snd ts) \<and> map snd ts ! k = KLocked l}"
      using t same[OF t] by (intro card_mono) auto
    also have "\<dots> = count_list (map snd ts) (KLocked l)"
      by (simp add: count_list_eq_length_filter length_filter_conv_card eq_commute)
    finally show False using lock_invD(7)[OF inv, of l] by (simp split: if_splits)
  qed
  show "lm_locks m key = Some l" if "(key, pc) \<in> set ts" "pc_lock pc = Some l" by (rule lock_invD(2)[OF inv that])
  show "lm_locks m = Map.empty" if "snd ` set ts \<subseteq> {KDone}"
  proof
    fix key show "lm_locks m key = None"
    proof (cases "lm_locks m key")
      case (Some l)
      have "handles l ts = 0" using that by (force simp: count_list_0_iff)
      with lock_invD(5)[OF inv Some] show ?thesis by simp
    qed
  qed
qed

theorem key_lock_excludes_witness:
  "\<exists>m. calm_reachable (m, [(7 :: nat, KLocked 0)]) \<and> lm_locks m 7 = Some 0"
proof -
  have "calm_reachable (lock_map_with_hasher, [] @ (7 :: nat, KStart) # [])"
    using calm_spawn[OF calm_init, of 7] by simp
  then have "\<exists>m. calm_reachable (m, [] @ (7 :: nat, KHandle 0) # []) \<and> \<not> lm_locked m 0"
    using calm_step[of lock_map_with_hasher "[]" "7 :: nat" KStart "[]" "KHandle 0"]
    by (force simp: key_lock_def lock_map_with_hasher_def arc_new_def small_counts)
  then obtain m where "calm_reachable (m, [] @ (7 :: nat, KHandle 0) # [])" "\<not> lm_locked m 0" by blast
  then have "calm_reachable (m\<lparr>lm_locked := (lm_locked m)(0 := True)\<rparr>, [(7 :: nat, KLocked 0)])"
    using calm_step[of m "[]" 7 "KHandle 0" "[]"] by simp
  then show ?thesis using key_lock_excludes[of _ "[(7 :: nat, KLocked 0)]" 0 0 7 0 0 "KLocked 0"] by fastforce
qed

lemma only_handle:
  assumes inv: "lock_inv m ts" and i: "i < length ts" "ts ! i = (key, KUnlocked l)" and one: "handles l ts = 1"
  shows "lm_locks m key = Some l" "lm_count m l = 2" "\<not> lm_locked m l"
proof -
  obtain us vs where ts: "ts = us @ (key, KUnlocked l) # vs" using id_take_nth_drop[OF i(1)] i(2) by auto
  show l: "lm_locks m key = Some l" using lock_invD(2)[OF inv, of key "KUnlocked l"] ts by simp
  show "lm_count m l = 2" using lock_invD(4)[OF inv l] one by simp
  show "\<not> lm_locked m l"
  proof
    assume "lm_locked m l"
    then have "KLocked l \<in> snd ` set ts" using lock_invD(7)[OF inv, of l] by (metis count_notin list.set_map zero_neq_one)
    then have "KLocked l \<in> snd ` set (us @ vs)" using ts by auto
    then have "0 < handles l (us @ vs)" by (force simp: count_list_0_iff)
    with one ts show False by simp
  qed
qed

text \<open>C25: With interference the lock of a key does not exclude. Take any state that is reached without interference, in which
  one thread is about to drop the only \<open>KeyLock\<close> of a key and two threads are about to call \<open>key_lock\<close> with that key. There
  is a schedule of these three threads after which the two hold different mutexes of the same key at once: the
  destructor finds that nobody else uses the lock; before it swaps the bucket, the second thread clones the lock that
  it found there; the bucket is removed all the same, and the third thread puts a new lock into the map.\<close>

theorem key_lock_race:
  assumes "calm_reachable (m, ts)" and "i < length ts" "ts ! i = (key, KUnlocked l)" "handles l ts = 1"
    and "j < length ts" "ts ! j = (key, KStart)" "k < length ts" "ts ! k = (key, KStart)" "j \<noteq> k"
  shows "\<exists>sched m' l'. set sched = {i, j, k} \<and> l' \<noteq> l \<and>
    lock_run sched (m, ts) = Some (m', ts[i := (key, KDone), j := (key, KLocked l), k := (key, KLocked l')])"
proof -
  note inv = calm_reachable_inv[OF assms(1)]
  note l = only_handle[OF inv assms(2-4)]
  let ?l' = "Suc (lm_next m)"
  have "lm_locks m key' \<noteq> Some ?l'" for key' using lock_invD(3)[OF inv, of key' ?l'] by auto
  then have l': "\<not> lm_locked m ?l'" by (rule no_handles(2)[OF inv])
  have ne: "l \<noteq> lm_next m" "l \<noteq> ?l'" "l \<noteq> Suc ?l'" using lock_invD(3)[OF inv l(1)] by auto
  have dist: "i \<noteq> j" "i \<noteq> k" using assms by auto
  have "\<exists>m'. lock_run [i, i, j, j, i, i, j, k, k] (m, ts) = Some (m', ts[i := (key, KDone), j := (key, KLocked l), k := (key, KLocked ?l')])"
    using l l' ne dist assms(2,3,5-9)
    by (simp add: arc_new_def small_counts list_update_swap[of j i] list_update_swap[of k i])
  moreover have "set [i, i, j, j, i, i, j, k, k] = {i, j, k}" by auto
  ultimately show ?thesis using ne(2) by metis
qed

theorem key_lock_race_witness:
  "\<exists>sched m' l'. lock_run sched (lock_map_with_hasher, [(7 :: nat, KStart), (7, KStart), (7, KStart)]) =
     Some (m', [(7, KDone), (7, KLocked 0), (7, KLocked l')]) \<and> l' \<noteq> 0"
proof -
  let ?ts = "[(7 :: nat, KUnlocked 0), (7, KStart), (7, KStart)]"
  let ?m = "\<lparr>lm_locks = [7 \<mapsto> 0], lm_count = (\<lambda>_. 0)(0 := 2), lm_locked = (\<lambda>_. False)(0 := True, 0 := False), lm_next = 1\<rparr>"
  have spawned: "calm_reachable (lock_map_with_hasher, [] @ (7 :: nat, KStart) # [(7, KStart), (7, KStart)])"
    using calm_spawn[OF calm_spawn[OF calm_spawn[OF calm_init, of 7], of 7], of 7] by simp
  let ?m1 = "?m\<lparr>lm_locked := \<lambda>_. False\<rparr>" and ?m2 = "?m\<lparr>lm_locked := (\<lambda>_. False)(0 := True)\<rparr>"
  have "calm_move 7 KStart lock_map_with_hasher = Some (KHandle 0, ?m1)"
    by (simp add: key_lock_def lock_map_with_hasher_def arc_new_def small_counts)
  from calm_step[OF calm_step[OF calm_step[OF spawned this], of "KLocked 0" ?m2], of "KUnlocked 0" ?m]
  have r: "calm_reachable (?m, ?ts)" by simp
  have "\<exists>sched m' l'. set sched = {0, 1, 2} \<and> l' \<noteq> 0 \<and>
      lock_run sched (?m, ?ts) = Some (m', ?ts[0 := (7, KDone), 1 := (7, KLocked 0), 2 := (7, KLocked l')])"
    by (rule key_lock_race[OF r]) simp_all
  then obtain sched m' l' where s: "l' \<noteq> 0" "lock_run sched (?m, ?ts) = Some (m', [(7, KDone), (7, KLocked 0), (7, KLocked l')])" by auto
  have "lock_run ([0, 0, 0] @ sched) (lock_map_with_hasher, [(7 :: nat, KStart), (7, KStart), (7, KStart)]) = lock_run sched (?m, ?ts)"
    by (simp add: lock_map_with_hasher_def arc_new_def small_counts)
  with s show ?thesis by metis
qed

text \<open>Two threads that drop the last two \<open>KeyLock\<close>s of a key at once leave the lock in the map: each of them finds the
  reference of the other one in the count.\<close>

theorem key_lock_leak:
  "\<exists>m. lock_run [0, 1, 1, 0, 0, 1, 1, 0, 1, 0, 1] (lock_map_with_hasher, [(key, KStart), (key, KStart)]) =
     Some (m, [(key, KDone), (key, KDone)]) \<and> lm_locks m key = Some 0"
  by (simp add: lock_map_with_hasher_def arc_new_def small_counts)

end
