(* ===== verification/Spec2Isabelle.thy ===== *)
theory Spec2Isabelle
  imports Timer_Advance Deque Init_Results Cht_Iter Cht_Concurrent Segmented_Iter Async_Init_Results Async_Calls Async_Housekeeper Cache_Builder Key_Lock
begin

text \<open>
  A verification development for Moka, a concurrent in-memory cache library written in Rust
  (\<open>src/src\<close>). It models the synchronous cache \<open>moka::sync::Cache\<close>, the segmented cache
  \<open>moka::sync::SegmentedCache\<close> and the asynchronous cache \<open>moka::future::Cache\<close> from their data structures up to their
  operations, and proves that each of them behaves as a map that may lose entries, under every interleaving of the
  steps of the threads or tasks that use it, for the asynchronous one also when tasks are dropped.

  \<^bold>\<open>The program.\<close> A cache is a hash table of value entries. Threads that read or write the table
  record what they did in two bounded channels (\<open>ReadOp\<close>, \<open>WriteOp\<close>). Now and then a thread runs the
  maintenance: it drains the channels and applies the operations to the policies, which are a
  sketch of the popularity of keys, deques of entries in the order of access and of
  modification, and a wheel of timers; it removes expired, invalidated and surplus entries and
  tells a listener. Each entry has metadata (\<open>EntryInfo\<close>) that the table and the policies share. A segmented cache is
  an array of caches, and the hash of a key selects one of them. The asynchronous cache has the same table, policies and
  maintenance; its calls are futures that are suspended while they await the listener, the channel or another call, and that the caller
  may drop there, in which case what they still had to do is left to the next call.

  \<^bold>\<open>Conventions.\<close> Machine integers are words of their width; sizes that only index are \<open>nat\<close>;
  durations are \<open>nat\<close> nanoseconds, as the standard library has them in 128 bits. A panic is \<open>None\<close> of an
  option type (\<open>or_panic\<close>), so that "does not panic" and "returns" are both \<open>\<exists>r. f x = Some r\<close>. Objects
  that the code shares through pointers live in an explicit store of cells (\<open>store\<close> of
  \<open>Concurrent\<close>, \<open>heap\<close> of \<open>Deque\<close>). The clock is the sequence of its readings. User
  closures (hasher, weigher, expiry, listener, predicates, \<open>init\<close>) are functions of the
  configuration or arguments. Loops that are not obviously finite are \<open>partial_function (option)\<close>, and
  that they return is proved. A step of the cache's transition system is what a thread does
  without another one in between: changing the table under the lock of a bucket, sending an
  operation with the maintenance that this may run, a read, an invalidation.

  \<^bold>\<open>Theories\<close>, in the order of the code:
  \<^item> \<open>Moka_Prelude\<close>: words, options, maps and lists; \<open>or_panic\<close> and the small logic \<open>yields\<close> of
    computations that return.
  \<^item> \<open>Moka_Time\<close> (\<open>common/time\<close>): saturating instants, the atomic optional instant.
  \<^item> \<open>Frequency_Sketch\<close> (\<open>common/frequency_sketch.rs\<close>): the count-min sketch, bit by bit; no
    undercounting, halving, no panic; the underflow of its size.
  \<^item> \<open>Common\<close> (\<open>common.rs\<close>), \<open>Entry_Info\<close> (\<open>common/concurrent/entry_info.rs\<close>), \<open>Concurrent\<close>
    (\<open>common/concurrent.rs\<close>): regions, the packed metadata of an entry, value entries and operations.
  \<^item> \<open>Deque_Spec\<close>, \<open>Deque\<close> (\<open>common/deque.rs\<close>): the intrusive deque as a pointer program over a heap,
    which refines a list with a cursor; everything above uses the list.
  \<^item> \<open>Deques\<close> (\<open>common/concurrent/deques.rs\<close>): the deques of a cache.
  \<^item> \<open>Timer_Wheel\<close>, \<open>Timer_Advance\<close> (\<open>common/timer_wheel.rs\<close>): the hierarchical wheel and the iterator that
    advances it; placement, safety, completeness.
  \<^item> \<open>Policy\<close> (\<open>policy.rs\<close>, \<open>notification\<close>), \<open>Housekeeper\<close> (\<open>common/concurrent/housekeeper.rs\<close>), \<open>Invalidator\<close>
    (\<open>sync/invalidator.rs\<close>).
  \<^item> \<open>Inner_Cache\<close>, \<open>Base_Cache\<close>, \<open>Sync_Cache\<close> (\<open>sync/base_cache.rs\<close>, \<open>sync/cache.rs\<close>): the state of a cache,
    the maintenance, the operations of user threads.
  \<^item> \<open>Cache_Inv\<close>, \<open>Maint_Inv\<close>, \<open>Maint_Evict\<close>, \<open>Maint_Admit\<close>, \<open>Maint_Run\<close>, \<open>Cache_Ops\<close>: the invariant that ties
    the table, the deques, the wheel and the operations on their way together, and that every
    handler of the maintenance and every operation returns and keeps it.
  \<^item> \<open>Cache_System\<close>: the transition system, its reachable states, and the locale \<open>lossy_map\<close> of systems
    that implement a map that may lose entries, interpreted on the cache.
  \<^item> \<open>Cache_Lookup\<close>: what lookups see; the caches of the examples.
  \<^item> \<open>Value_Initializer\<close>, \<open>Init_Protocol\<close>, \<open>Init_Results\<close> (\<open>sync/value_initializer.rs\<close>, the \<open>get_with\<close>
    and \<open>entry\<close> families of \<open>sync/cache.rs\<close>, \<open>sync/entry_selector.rs\<close>, \<open>ops.rs\<close>): calls that compute missing
    values, as machines that meet at waiters; exclusion, sharing of results, termination.
  \<^item> \<open>Kv_Table\<close>, \<open>Cht_Bucket\<close>, \<open>Cht_Slots\<close>, \<open>Cht_Rehash\<close>, \<open>Cht_Segment\<close>, \<open>Cht_Map\<close>, \<open>Cht_Iter\<close> (\<open>cht\<close>): the hash table
    below the caches, an array of buckets with tombstones that is rehashed into larger or smaller ones, in segments; every
    sequence of calls is one on a finite map, and iterating yields every entry once.
  \<^item> \<open>Cht_Concurrent\<close> (\<open>cht/map/bucket.rs\<close>): the same bucket operations with a step for every load and every weak
    compare-and-exchange; linearizability and lock freedom with a bound.
  \<^item> \<open>Common_Iter\<close> (\<open>common/iter.rs\<close>), \<open>Segmented_Cache\<close>, \<open>Segmented_Iter\<close> (\<open>sync/segment.rs\<close>): the iterator over caches; the segmented
    cache, the capacity of its segments, its refinement of a map that may lose entries; iterating over it and over the hash tables of its
    segments, which represent the tables of the caches.
  \<^item> \<open>Key_Lock\<close> (\<open>sync/key_lock.rs\<close>, \<open>common/concurrent/arc.rs\<close>): the locks of keys and the reference counts that decide when a
    lock is removed; exclusion, and the interleavings in which it fails.
  \<^item> \<open>Async_Base\<close> (\<open>future/base_cache.rs\<close>): the bodies of the asynchronous operations, translated from their own source, and that they have the
    effect of the synchronous ones.
  \<^item> \<open>Async_Cache\<close>, \<open>Async_Cancel\<close>, \<open>Async_Results\<close> (\<open>future.rs\<close>, \<open>future/base_cache.rs\<close>, \<open>future/cache.rs\<close>, \<open>future/notifier.rs\<close>): calls as
    tasks that are polled and dropped, interrupted operations and their retry; nothing is lost by dropping tasks.
  \<^item> \<open>Async_Housekeeper\<close> (\<open>future/housekeeper.rs\<close>): the maintenance run that outlives the calls that drive it.
  \<^item> \<open>Async_Init\<close>, \<open>Async_Init_Protocol\<close>, \<open>Async_Init_Results\<close>, \<open>Async_Calls\<close> (\<open>future/value_initializer.rs\<close>, \<open>future/cache.rs\<close>,
    \<open>future/entry_selector.rs\<close>): calls that compute missing values and may be dropped; \<open>Waiter_Protocol\<close> has what the
    synchronous and the asynchronous protocol share.
  \<^item> \<open>Cache_Builder\<close> (\<open>common/time/clock.rs\<close>, \<open>common/builder_utils.rs\<close>, \<open>sync/builder.rs\<close>, \<open>future/builder.rs\<close>): clocks and
    builders, which make caches with their hash tables.

  \<^bold>\<open>Interfaces.\<close> \<open>lossy_map\<close> is what a cache promises: its steps are those of a map that may lose entries; it is interpreted on
  the synchronous (\<open>cache_lossy\<close>), the segmented (\<open>seg_lossy\<close>) and the asynchronous cache (\<open>async_lossy\<close>). \<open>kv_table\<close> is
  what a hash table promises, interpreted on one segment (\<open>seg_table\<close>) and on the whole table (\<open>hm_table\<close>). \<open>scanning_map\<close> and
  \<open>scanning_caches\<close> are what the iterators rely on (\<open>hm_scan\<close>, \<open>cache_scan\<close>, \<open>sc_scan\<close>). \<open>waiter_protocol\<close> is the protocol of calls
  that meet at waiters (\<open>sync_protocol\<close>, \<open>async_protocol\<close>), and \<open>deque_impl\<close> what a deque promises, interpreted on the pointers (\<open>ptr\<close>) and on lists (\<open>spec\<close>). The theorems about whole caches rest on the facts of these interpretations.

  \<^bold>\<open>Bounds.\<close> No fuel is chosen but in \<open>run_init\<close>, where six steps are proved to be enough.
  Counters wrap as in the code: the entry counter equals the number of entries modulo
  \<open>2 ^ 64\<close>. The channel sizes, flush points and batch sizes are those of the source. The theorems about
  the whole cache assume a clock that never goes back and never reads \<open>u64::MAX\<close>, the marker for an unset
  instant, and a capacity other than zero, with which the cache stores nothing; \<open>clock_meets_contract\<close> shows that the clocks of
  the program are such clocks, when the time of the operating system does not go back. The reading by \<open>fast_now\<close>, which may drift from the others, sets the first
  deadline of the housekeeper only. The capacity of a segmented cache is below \<open>2 ^ 53\<close> and it has at most \<open>2 ^ 52\<close> segments in
  the theorem about the capacities of its segments, and the initial capacity of a builder is below \<open>2 ^ 53\<close>, where the division of the source, on 64-bit floating-point numbers, is modelled with its
  rounding. A reference count is at most \<open>2 ^ 31\<close>, where the code aborts.

  \<^bold>\<open>Not modelled.\<close> In the asynchronous cache a maintenance run is one step: its code repeats that of the synchronous cache, with
  an \<open>await\<close> for each call of the listener and with the expired timers collected before their entries are removed, and the
  suspension points inside it have no counterpart but in \<open>Async_Housekeeper\<close>, where the run is an argument; it is instantiated there with the
  maintenance of the cache, pending at the locks that it acquires first. A bucket array
  that is relocated by a rehash while other threads use it is not modelled: the rehash is in the sequential model only, and the caches use the table
  through its specification, a map on which each operation is one step. The locks of keys do not occur in the steps of the caches, which
  therefore have more interleavings than the code. The transition systems of the calls that compute values start calls with any type
  identifiers and error types, also ones that no function of the cache uses, so that what holds for all of their states holds for the calls that the
  functions make. The closures of the caller return a value or panic; they do not call the cache again, so that a closure that waits for its own call is
  not modelled. The bodies of the asynchronous operations share with the synchronous model what both files have word for word, the tests for expired
  entries, the causes of notifications and the sending of operations. Memory reclamation (crossbeam-epoch) and memory orderings are below the
  model. Tests, debug counters, formatting and logging have no counterpart. The sketch's capacity uses floating point in the
  source and exact arithmetic here.
\<close>

section \<open>Every operation returns\<close>

text \<open>C20: On every reachable state of a live cache, whatever operations are still on their way,
  a maintenance run returns without a panic, leaves both channels empty and adds nothing to the
  table.\<close>

theorem maintenance_returns:
  assumes "reachable cf (bc, F)" "live cf"
  shows "\<exists>bc'. run_pending_tasks cf bc = Some bc' \<and> reachable cf (bc', F) \<and>
    in_read_op_ch (bc_inner bc') = [] \<and> in_write_op_ch (bc_inner bc') = [] \<and> table (bc', F) \<subseteq>\<^sub>m table (bc, F)"
proof -
  from maintain_step[OF assms(2) reachable_inv[OF assms]] obtain bc' where
    "run_pending_tasks cf bc = Some bc'" "in_read_op_ch (bc_inner bc') = []" "in_write_op_ch (bc_inner bc') = []"
    "lossy_step (table (bc, F)) AInternal (table (bc', F))" by (auto elim: yieldsE)
  then show ?thesis using reachable.step[OF assms(1) cstep.maintain] by simp
qed

lemma maintenance_returns_witness:
  "\<exists>bc'. run_pending_tasks demo_config demo_cache = Some bc' \<and> in_write_op_ch (bc_inner bc') = []"
  using maintenance_returns[OF demo_reachable demo_live] by blast

text \<open>C21: On every reachable state the operations of the user threads return without a panic:
  reading, inserting, removing, and sending an operation, which waits for room in the channel and
  makes it by running the maintenance. A removal yields the value that the table had.\<close>

theorem operations_return:
  assumes "reachable cf (bc, F)" "live cf"
  shows "(\<exists>bc' r. get cf key bc = Some (bc', r) \<and> reachable cf (bc', F)) \<and>
    (\<exists>bc'. cache_insert cf key v bc = Some bc' \<and> reachable cf (bc', F)) \<and>
    (\<exists>bc'. cache_remove cf key bc = Some (bc', table (bc, F) key) \<and> reachable cf (bc', F)) \<and>
    (\<forall>op \<in> set F. \<exists>bc'. schedule_write_op cf op now bc = Some bc' \<and> reachable cf (bc', remove1 op F))"
proof (intro conjI ballI)
  show "\<exists>bc' r. get cf key bc = Some (bc', r) \<and> reachable cf (bc', F)"
    using get_step[OF assms(2) reachable_inv[OF assms], of key] reachable.step[OF assms(1) cstep.get] by (auto simp: yields_def)
  show "\<exists>bc'. cache_insert cf key v bc = Some bc' \<and> reachable cf (bc', F)" by (rule reachable_insert[OF assms])
  show "\<exists>bc'. cache_remove cf key bc = Some (bc', table (bc, F) key) \<and> reachable cf (bc', F)" by (rule reachable_remove[OF assms])
  show "\<exists>bc'. schedule_write_op cf op now bc = Some bc' \<and> reachable cf (bc', remove1 op F)" if "op \<in> set F" for op
    by (rule reachable_send[OF assms that])
qed

lemma operations_return_witness: "\<exists>bc'. cache_insert demo_config 1 7 demo_cache = Some bc'"
  using operations_return[OF demo_reachable demo_live, of 1 7] by blast

section \<open>The invariant\<close>

text \<open>C1: A maintenance run of a cache with no operation on its way makes the policies agree with
  the table. The entry counter is the number of entries of the table (modulo \<open>2 ^ 64\<close>), the deque of
  the entries holds each of them once, and every deque node that is allocated belongs to an entry
  of the table: no node is left behind by a removal, an update or an eviction.\<close>

theorem maintenance_consistent:
  assumes "reachable cf (bc, [])" "live cf" "run_pending_tasks cf bc = Some bc'" "s = bc_inner bc'"
  shows "in_entry_count s = word_of_nat (card (dom (table (bc', [])))) \<and>
    (\<lambda>a. the (st_khds (in_store s) a)) ` set (prob (in_deques s)) = ve_info ` ran (in_cache s) \<and>
    distinct (prob (in_deques s)) \<and> ran (st_khds (in_store s)) = ve_info ` ran (in_cache s)"
proof -
  from maintain_step[OF assms(2) reachable_inv[OF assms(1,2)]] assms(3,4) have
    "inner_inv cf {} s" by (auto simp: yields_def sys_inv_def bc_inv_def)
  from inner_invD(2,6)[OF this] quiescent_entries[OF inner_invD(2)[OF this]] quiescent_nodes[OF inner_invD(2)[OF this]]
  show ?thesis using deqs_ok_distinct[OF inner_invD(4)[OF \<open>inner_inv cf {} s\<close>]] by (simp add: dom_table assms(4))
qed

lemma maintenance_consistent_witness:
  "\<exists>bc'. run_pending_tasks demo_config demo_cache = Some bc' \<and>
     in_entry_count (bc_inner bc') = word_of_nat (card (dom (table (bc', []))))"
  using maintenance_consistent[OF demo_reachable demo_live _ refl] reachable_run[OF demo_reachable demo_live] by blast

section \<open>The cache as a lossy map\<close>

text \<open>C2: Every step of the cache is a step of a map that may lose entries: an insertion stores the
  value, an invalidation removes the entry and yields what the map had, a lookup yields the
  stored value or nothing, and the maintenance, the sending of operations and the two kinds of
  mass invalidation add and change nothing.\<close>

theorem cache_refines_lossy_map:
  assumes "reachable cf st" "live cf" "cstep cf st a st'"
  shows "reachable cf st' \<and> lossy_step (table st) a (table st')"
  using reachable.step[OF assms(1,3)] cache_lossy.simulates[of cf st a st'] reachable_inv[OF assms(1,2)] assms(2,3) by blast

lemma cache_refines_lossy_map_witness:
  "\<exists>st'. cstep demo_config (demo_cache, []) (AInsert 1 7) st' \<and>
     lossy_step (table (demo_cache, [])) (AInsert 1 7) (table st')"
proof -
  obtain s op ts where "do_insert_with_hash demo_config 1 (cf_hash demo_config 1) 7 (bc_inner demo_cache) = (s, op, ts)"
    by (cases "do_insert_with_hash demo_config 1 (cf_hash demo_config 1) 7 (bc_inner demo_cache)") auto
  then have "cstep demo_config (demo_cache, []) (AInsert 1 7) (demo_cache\<lparr>bc_inner := s\<rparr>, [op])"
    by (rule cstep.begin_insert)
  with cache_refines_lossy_map[OF demo_reachable demo_live] show ?thesis by blast
qed

text \<open>C26: Along every interleaving of steps of a new cache, a lookup that finds a value finds the one
  of the last insertion of its key, and the key was not invalidated since.\<close>

theorem get_last_write:
  assumes "live cf" "trace (cstep cf) (base_cache_new kh cf listener hc b, []) as st" "cstep cf st (AGet key (Some v)) st'"
  shows "contents as key = Some v"
  using cache_lossy.lookup_last_write[OF assms(2) _ _ assms(3)] sys_inv_init[OF liveD(1)[OF assms(1)], of kh listener hc b] assms
  by (simp add: table_new)

lemma get_last_write_witness:
  "\<exists>st st'. trace (cstep demo_config) (demo_cache, []) [AInsert 1 7] st \<and> cstep demo_config st (AGet 1 (Some 7)) st' \<and>
     contents [AInsert 1 7 :: (nat, nat) action] 1 = Some 7"
proof -
  obtain s op ts bc' where r:
    "do_insert_with_hash demo_config 1 (cf_hash demo_config 1) 7 (bc_inner demo_cache) = (s, op, ts)"
    "get demo_config 1 (demo_cache\<lparr>bc_inner := s\<rparr>) = Some (bc', Some 7)" using demo_insert_get by blast
  have t: "trace (cstep demo_config) (demo_cache, []) ([] @ [AInsert 1 7]) (demo_cache\<lparr>bc_inner := s\<rparr>, [op])"
    using trace.trace_snoc[of "cstep demo_config", OF trace.trace_Nil] cstep.begin_insert[OF r(1)] by blast
  have g: "cstep demo_config (demo_cache\<lparr>bc_inner := s\<rparr>, [op]) (AGet 1 (Some 7)) (bc', [op])" by (rule cstep.get[OF r(2)])
  show ?thesis using t g get_last_write[OF demo_live, of "\<lparr>kh_key = 0, kh_hash = 0\<rparr>" None housekeeper_config_default True, folded demo_cache_def, OF t g] by auto
qed

section \<open>What a lookup sees\<close>

text \<open>C3: A lookup yields a value exactly when the table has it in an entry that is not expired at
  the instant of the call, by its own expiration time, by the time to live since its last
  modification or by the time to idle since its last access, that was modified and accessed no
  earlier than the last invalidation of all entries, and that no invalidation predicate matches.\<close>

theorem get_iff_live:
  assumes "reachable cf (bc, F)" "live cf" "get cf key bc = Some (bc', r)"
    and now: "now = cf_clock cf (in_ticks (bc_inner bc))" and s: "s = bc_inner bc"
  shows "r = Some v \<longleftrightarrow>
    (\<exists>e. in_cache s key = Some e \<and> ve_value e = v \<and> \<not> is_invalidated_entry key e s \<and>
       (\<forall>t. fst (expiration_state (info_of (in_store s) e)) = Some t \<longrightarrow> now < t) \<and>
       (\<forall>t. last_modified (info_of (in_store s) e) = Some t \<longrightarrow>
          (\<forall>ttl. time_to_live cf = Some ttl \<longrightarrow> now < saturating_add t ttl) \<and> (\<forall>va. valid_after s = Some va \<longrightarrow> va \<le> t)) \<and>
       (\<forall>t. last_accessed (info_of (in_store s) e) = Some t \<longrightarrow>
          (\<forall>tti. time_to_idle cf = Some tti \<longrightarrow> now < saturating_add t tti) \<and> (\<forall>va. valid_after s = Some va \<longrightarrow> va \<le> t)))"
proof -
  have "bc_inv cf (set F) bc" using reachable_inv[OF assms(1,2)] by (simp add: sys_inv_def)
  from get_yields[OF this liveD[OF assms(2)], of key] assms(3)
  have r: "r = map_option ve_value (lookup cf None key now s)" by (simp add: yields_def now s)
  show ?thesis unfolding r lookup_Some_iff is_live_entry_iff ..
qed

lemma get_iff_live_witness:
  "\<exists>bc' r. get demo_config 1 demo_cache = Some (bc', r) \<and> r \<noteq> Some 7"
  using get_iff_live[OF demo_reachable demo_live _ refl refl, of 1 _ _ 7] get_lookup[OF demo_reachable demo_live, of 1] demo_empty
  by (metis option.distinct(1))

text \<open>An insertion is visible at once, before its operation is sent: a lookup of the key that
  runs next yields the value, unless the entry expires in between, an invalidation predicate
  matches it or all entries were invalidated at a later instant.\<close>

theorem read_your_write:
  assumes "reachable cf (bc, F)" "live cf" "do_insert_with_hash cf key (cf_hash cf key) v (bc_inner bc) = (s, op, ts)"
    and "\<forall>d. time_to_live cf = Some d \<or> time_to_idle cf = Some d \<longrightarrow> cf_clock cf (in_ticks s) < saturating_add ts d"
    and "\<forall>e. in_cache s key = Some e \<longrightarrow> \<not> is_expired_by_per_entry_ttl (info_of (in_store s) e) (cf_clock cf (in_ticks s)) \<and>
      \<not> is_invalidated_entry key e s"
    and "\<forall>va. valid_after s = Some va \<longrightarrow> va \<le> ts"
  shows "\<exists>bc'. get cf key (bc\<lparr>bc_inner := s\<rparr>) = Some (bc', Some v)"
  by (rule insert_visible[OF assms(1-3)]) (use assms(4-6) in \<open>auto simp: outlives_def\<close>)

lemma read_your_write_witness:
  "\<exists>s op ts bc'. do_insert_with_hash demo_config 2 (cf_hash demo_config 2) 4 (bc_inner demo_cache) = (s, op, ts) \<and>
     get demo_config 2 (demo_cache\<lparr>bc_inner := s\<rparr>) = Some (bc', Some 4)"
proof -
  obtain s op ts where r: "do_insert_with_hash demo_config 2 (cf_hash demo_config 2) 4 (bc_inner demo_cache) = (s, op, ts)"
    by (cases "do_insert_with_hash demo_config 2 (cf_hash demo_config 2) 4 (bc_inner demo_cache)") auto
  then show ?thesis
    using read_your_write[OF demo_reachable demo_live r] demo_insert[OF r] by simp
qed

text \<open>C30: Invalidating all entries hides every entry that was modified before the instant of the
  call, whatever the maintenance has done with it.\<close>

theorem invalidate_all_hides:
  assumes "reachable cf (bc, F)" "live cf" "in_cache (bc_inner bc) key = Some e"
    and "last_modified (info_of (in_store (bc_inner bc)) e) = Some t" "t < cf_clock cf (in_ticks (bc_inner bc))"
  shows "\<exists>bc'. get cf key (invalidate_all cf bc) = Some (bc', None)"
proof -
  have "lookup cf None key now (bc_inner (invalidate_all cf bc)) = None" for now
    using invalidate_all_inner[OF liveD(1)[OF assms(2)], of bc] assms(3-5)
    by (auto simp: lookup_def is_live_entry_iff not_le)
  with get_lookup[OF reachable_invalidate_all[OF assms(1)] assms(2), of key] show ?thesis by simp
qed

lemma invalidate_all_hides_witness:
  "\<exists>s op ts bc'. do_insert_with_hash ticking_config 2 (cf_hash ticking_config 2) 4 (bc_inner ticking_cache) = (s, op, ts) \<and>
     get ticking_config 2 (invalidate_all ticking_config (ticking_cache\<lparr>bc_inner := s\<rparr>)) = Some (bc', None)"
proof -
  obtain s op ts where r: "do_insert_with_hash ticking_config 2 (cf_hash ticking_config 2) 4 (bc_inner ticking_cache) = (s, op, ts)"
    by (cases "do_insert_with_hash ticking_config 2 (cf_hash ticking_config 2) 4 (bc_inner ticking_cache)") auto
  note d = do_insert_reachable[OF ticking_reachable ticking_live r]
  have "ts < cf_clock ticking_config (in_ticks s)" using d(3,6) ticking_times by (simp add: ticking_config_def)
  with d(2) invalidate_all_hides[OF d(1) ticking_live, of 2] have
    "\<exists>bc'. get ticking_config 2 (invalidate_all ticking_config (ticking_cache\<lparr>bc_inner := s\<rparr>)) = Some (bc', None)" by auto
  with r show ?thesis by blast
qed

text \<open>C31: An entry that was inserted at the very instant of the invalidation of all entries is
  still there, although the documentation of \<open>invalidate_all\<close> says that entries inserted before
  or at the time of invalidation are discarded.\<close>

theorem invalidate_all_keeps_same_instant:
  assumes "reachable cf (bc, F)" "live cf" "do_insert_with_hash cf key (cf_hash cf key) v (bc_inner bc) = (s, op, ts)"
    and "cf_clock cf (in_ticks s) = ts" and "time_to_live cf = None" "time_to_idle cf = None"
    and "\<forall>e now. in_cache s key = Some e \<longrightarrow> \<not> is_expired_by_per_entry_ttl (info_of (in_store s) e) now \<and>
      \<not> is_invalidated_entry key e s"
  shows "\<exists>bc'. get cf key (invalidate_all cf (bc\<lparr>bc_inner := s\<rparr>)) = Some (bc', Some v)"
proof -
  note r = do_insert_reachable[OF assms(1-3)]
  obtain e where e: "in_cache s key = Some e" "ve_value e = v"
    "last_modified (info_of (in_store s) e) = Some ts" "last_accessed (info_of (in_store s) e) = Some ts" using r(2) by auto
  note i = invalidate_all_inner[OF liveD(1)[OF assms(2)], of "bc\<lparr>bc_inner := s\<rparr>"]
  have "lookup cf None key now (bc_inner (invalidate_all cf (bc\<lparr>bc_inner := s\<rparr>))) = Some e" for now
    by (rule fresh_lookup[where ts = ts]) (use e i assms(4-7) in \<open>auto simp: outlives_def is_invalidated_entry_def split: option.splits\<close>)
  with get_lookup[OF reachable_invalidate_all[OF r(1)] assms(2), of key] e(2) show ?thesis by simp
qed

lemma invalidate_all_keeps_same_instant_witness:
  "\<exists>s op ts bc'. do_insert_with_hash demo_config 2 (cf_hash demo_config 2) 4 (bc_inner demo_cache) = (s, op, ts) \<and>
     get demo_config 2 (invalidate_all demo_config (demo_cache\<lparr>bc_inner := s\<rparr>)) = Some (bc', Some 4)"
proof -
  obtain s op ts where r: "do_insert_with_hash demo_config 2 (cf_hash demo_config 2) 4 (bc_inner demo_cache) = (s, op, ts)"
    by (cases "do_insert_with_hash demo_config 2 (cf_hash demo_config 2) 4 (bc_inner demo_cache)") auto
  then show ?thesis
    using invalidate_all_keeps_same_instant[OF demo_reachable demo_live r] demo_insert[OF r] demo_clock by simp
qed

section \<open>Admission\<close>

text \<open>C4: The search for victims ends. It keeps the nodes of the deque and only reorders them. When
  it admits the candidate, the victims are the nodes at the front of the deque, each of them the
  node of a clean entry of the table, their weights add up to at least the candidate's, and
  the candidate is more popular than all of them together.\<close>

theorem admit_victims:
  assumes "ad_ok q" "\<forall>a \<in> set (ad_nodes q). st_khds st a \<noteq> None" "sketch_ok freq"
  shows "\<exists>q' r. admit candidate cache st freq q = Some (q', r) \<and> set (ad_nodes q') = set (ad_nodes q) \<and> distinct (ad_nodes q') \<and>
    (\<forall>vks. r = Admitted vks \<longrightarrow>
       (\<exists>vs rest. ad_nodes q' = vs @ rest \<and> vks = map (victim_of st) vs \<and>
          (\<forall>a \<in> set vs. \<exists>i. st_khds st a = Some i \<and> \<not> is_dirty (st_infos st i) \<and> is_alive (st_infos st i) \<and>
             cache (kh_key (ei_key_hash (st_infos st i))) \<noteq> None)) \<and>
       sf_policy_weight candidate \<le> (\<Sum>(kh, _) \<leftarrow> vks. ucast (ve_policy_weight st (the (cache (kh_key kh))))) \<and>
       (\<Sum>(kh, _) \<leftarrow> vks. ucast (the (frequency freq (kh_hash kh)))) < sf_freq candidate)"
  using admit_yields[OF assms(1) _ assms(3), where candidate = candidate and cache = cache and st = st] assms(2)
  by (fastforce simp: victims_sum_def victim_ok_def deq_perm_def ad_ok_def yields_def)

lemma admit_victims_witness:
  "\<exists>q' r. admit \<lparr>sf_policy_weight = 3, sf_freq = 1\<rparr> [1 \<mapsto> \<lparr>ve_value = (), ve_info = 0, ve_nodes = 1\<rparr>]
       ((new_store \<lparr>kh_key = 1 :: nat, kh_hash = 1\<rparr>)\<lparr>st_khds := [0 \<mapsto> 0]\<rparr>) fs_default
       \<lparr>ad_region = MainProbation, ad_nodes = [0], ad_cursor = None\<rparr> = Some (q', r) \<and> set (ad_nodes q') = {0}"
proof -
  let ?q = "\<lparr>ad_region = MainProbation, ad_nodes = [0], ad_cursor = None\<rparr>"
  let ?st = "(new_store \<lparr>kh_key = (1 :: nat), kh_hash = 1\<rparr>)\<lparr>st_khds := [0 \<mapsto> 0]\<rparr>"
  have "ad_ok ?q" "\<forall>a \<in> set (ad_nodes ?q). st_khds ?st a \<noteq> None" by (simp_all add: ad_ok_def)
  from admit_victims[OF this sketch_ok_default, of "\<lparr>sf_policy_weight = 3, sf_freq = 1\<rparr>"
      "[1 \<mapsto> \<lparr>ve_value = (), ve_info = 0, ve_nodes = 1\<rparr>]"]
  obtain q' r where "admit \<lparr>sf_policy_weight = 3, sf_freq = 1\<rparr> [1 \<mapsto> \<lparr>ve_value = (), ve_info = 0, ve_nodes = 1\<rparr>]
      ?st fs_default ?q = Some (q', r)" "set (ad_nodes q') = set (ad_nodes ?q)" by blast
  then show ?thesis by simp
qed

section \<open>Invalidation by predicates\<close>




end
